(* ===== verification/Bun_Prelude.thy ===== *)
theory Bun_Prelude
  imports Main "HOL-Library.Word" "HOL-Library.Char_ord"
begin

text \<open>
  The shared vocabulary of the development: Rust's bytes, machine integers, byte slices and
  \<^verbatim>\<open>core::cmp::Ordering\<close>, the interface \<open>total_preorder\<close> that every comparison function of the
  program implements, and the generic lemmas the components share.

  A byte (\<^verbatim>\<open>u8\<close>) is a \<^typ>\<open>char\<close>: HOL's characters are the 256 bytes, ordered by their code, so
  byte literals read as in the source. A \<^verbatim>\<open>u32\<close>, \<^verbatim>\<open>u64\<close> or \<^verbatim>\<open>u128\<close> is a word of that width; a
  \<^verbatim>\<open>usize\<close> that only counts or indexes bytes held in memory is a \<^typ>\<open>nat\<close>.
\<close>

unbundle bit_operations_syntax

section \<open>Types\<close>

type_synonym u8 = char
type_synonym bytes = "char list"
type_synonym u32 = "32 word"
type_synonym u64 = "64 word"
type_synonym u128 = "128 word"

named_theorems slice_simps \<open>rewrite rules for byte slices\<close>
named_theorems order_simps \<open>rewrite rules for orderings\<close>
named_theorems byte_simps \<open>the byte predicates, unfolded\<close>

abbreviation U64_MAX :: u64 where
  "U64_MAX \<equiv> 0xFFFFFFFFFFFFFFFF"

section \<open>Orderings\<close>

text \<open>\<^verbatim>\<open>core::cmp::Ordering\<close> of the Rust standard library.\<close>

datatype ordering = Less | Equal | Greater

fun reverse_ordering :: "ordering \<Rightarrow> ordering" where
  "reverse_ordering Less = Greater"
| "reverse_ordering Equal = Equal"
| "reverse_ordering Greater = Less"

text \<open>\<^verbatim>\<open>Ord::cmp\<close> on a primitive type.\<close>

definition cmp :: "'a::linorder \<Rightarrow> 'a \<Rightarrow> ordering" where
  "cmp x y = (if x < y then Less else if y < x then Greater else Equal)"

text \<open>
  What every comparison function of the program promises its callers (sorting, range checks,
  interval bounds): a total preorder.
\<close>

locale total_preorder =
  fixes ord :: "'a \<Rightarrow> 'a \<Rightarrow> ordering"
  assumes ord_refl: "ord x x = Equal"
    and ord_swap: "ord y x = reverse_ordering (ord x y)"
    and ord_trans: "ord x y \<noteq> Greater \<Longrightarrow> ord y z \<noteq> Greater \<Longrightarrow> ord x z \<noteq> Greater"
begin

lemma greater_iff: "ord x y = Greater \<longleftrightarrow> ord y x = Less"
  using ord_swap [of y x] by (cases "ord x y") auto

lemma equal_sym: "ord x y = Equal \<Longrightarrow> ord y x = Equal"
  using ord_swap [of y x] by simp

lemma equal_congl: "ord x y = Equal \<Longrightarrow> ord x z = ord y z"
proof -
  assume xy: "ord x y = Equal"
  have le: "ord x z \<noteq> Greater \<longleftrightarrow> ord y z \<noteq> Greater"
    using ord_trans [of x y z] ord_trans [of y x z] xy equal_sym [OF xy] by auto
  have ge: "ord z x \<noteq> Greater \<longleftrightarrow> ord z y \<noteq> Greater"
    using ord_trans [of z x y] ord_trans [of z y x] xy equal_sym [OF xy] by auto
  show ?thesis
    using le ge ord_swap [of z x] ord_swap [of z y]
    by (cases "ord x z"; cases "ord y z") auto
qed

lemma equal_congr: "ord x y = Equal \<Longrightarrow> ord z x = ord z y"
  using equal_congl [of x y z] ord_swap [of z x] ord_swap [of z y] by simp

lemma less_le_trans: "ord x y = Less \<Longrightarrow> ord y z \<noteq> Greater \<Longrightarrow> ord x z = Less"
proof -
  assume xy: "ord x y = Less" and yz: "ord y z \<noteq> Greater"
  have "ord x z \<noteq> Greater" using ord_trans [of x y z] xy yz by simp
  moreover have "ord x z \<noteq> Equal"
  proof
    assume "ord x z = Equal"
    then have "ord y z = ord y x" using equal_congr [of z x y] equal_sym by simp
    then show False using yz xy ord_swap [of y x] by simp
  qed
  ultimately show ?thesis by (cases "ord x z") auto
qed

lemma le_less_trans: "ord x y \<noteq> Greater \<Longrightarrow> ord y z = Less \<Longrightarrow> ord x z = Less"
proof (cases "ord x y")
  case Equal
  assume "ord y z = Less"
  then show ?thesis using equal_congl [OF Equal] by simp
next
  case Less
  assume "ord y z = Less"
  then show ?thesis using less_le_trans [OF Less] by simp
qed simp

lemma not_less_iff: "ord x y \<noteq> Less \<longleftrightarrow> ord y x \<noteq> Greater"
  using greater_iff [of y x] by simp

end

lemma cmp_Less [order_simps]: "cmp x y = Less \<longleftrightarrow> x < y"
  and cmp_Equal [order_simps]: "cmp x y = Equal \<longleftrightarrow> x = y"
  and cmp_Greater [order_simps]: "cmp x y = Greater \<longleftrightarrow> y < x"
  by (auto simp: cmp_def)

lemma cmp_swap: "cmp y x = reverse_ordering (cmp x y)"
  by (auto simp: cmp_def)

subsection \<open>Lexicographic comparison of lists\<close>

text \<open>
  The shape of a comparison that walks two iterators in step: the shorter list is smaller where
  one is a prefix of the other.
\<close>

fun lex_order :: "('a \<Rightarrow> 'a \<Rightarrow> ordering) \<Rightarrow> 'a list \<Rightarrow> 'a list \<Rightarrow> ordering" where
  "lex_order ord [] [] = Equal"
| "lex_order ord [] (_ # _) = Less"
| "lex_order ord (_ # _) [] = Greater"
| "lex_order ord (x # xs) (y # ys) = (case ord x y of Equal \<Rightarrow> lex_order ord xs ys | r \<Rightarrow> r)"

context total_preorder
begin

lemma lex_refl: "lex_order ord xs xs = Equal"
  by (induction xs) (auto simp: ord_refl)

lemma lex_swap: "lex_order ord ys xs = reverse_ordering (lex_order ord xs ys)"
proof (induction xs arbitrary: ys)
  case Nil
  then show ?case by (cases ys) auto
next
  case (Cons x xs)
  then show ?case
    using ord_swap [of "hd ys" x] by (cases ys; cases "ord x (hd ys)") auto
qed

lemma lex_trans:
  "lex_order ord xs ys \<noteq> Greater \<Longrightarrow> lex_order ord ys zs \<noteq> Greater \<Longrightarrow>
   lex_order ord xs zs \<noteq> Greater"
proof (induction xs arbitrary: ys zs)
  case Nil
  then show ?case by (cases zs) auto
next
  case (Cons x xs)
  obtain y ys' where ys: "ys = y # ys'" using Cons.prems(1) by (cases ys) auto
  obtain z zs' where zs: "zs = z # zs'" using Cons.prems(2) ys by (cases zs) auto
  show ?case
  proof (cases "ord x y = Equal \<and> ord y z = Equal")
    case True
    then have "ord x z = Equal" using equal_congl [of x y z] by simp
    then show ?thesis using True Cons.prems Cons.IH [of ys' zs'] ys zs by simp
  next
    case False
    have "ord x z = Less"
      using False Cons.prems ys zs less_le_trans [of x y z] le_less_trans [of x y z]
      by (cases "ord x y"; cases "ord y z") auto
    then show ?thesis using zs by simp
  qed
qed

lemma lex_total_preorder: "total_preorder (lex_order ord)"
  by unfold_locales (rule lex_refl lex_swap lex_trans; assumption?)+

end

context total_preorder
begin

lemma comap: "total_preorder (\<lambda>x y. ord (f x) (f y))"
  by unfold_locales (auto intro: ord_refl ord_swap dest: ord_trans)

end

subsection \<open>Comparison by several keys\<close>

text \<open>\<^verbatim>\<open>if first != Equal { return first } second\<close>\<close>

definition then_order ::
  "('a \<Rightarrow> 'a \<Rightarrow> ordering) \<Rightarrow> ('a \<Rightarrow> 'a \<Rightarrow> ordering) \<Rightarrow> 'a \<Rightarrow> 'a \<Rightarrow> ordering" where
  "then_order f g x y = (case f x y of Equal \<Rightarrow> g x y | r \<Rightarrow> r)"

lemma then_order_total_preorder:
  assumes "total_preorder f" "total_preorder g"
  shows "total_preorder (then_order f g)"
proof -
  note f = total_preorder.ord_refl [OF assms(1)] total_preorder.ord_swap [OF assms(1)]
  note g = total_preorder.ord_refl [OF assms(2)] total_preorder.ord_swap [OF assms(2)]
  show ?thesis
  proof unfold_locales
    show "then_order f g x x = Equal" for x by (simp add: then_order_def f(1) g(1))
    show "then_order f g y x = reverse_ordering (then_order f g x y)" for x y
      using f(2) [of y x] g(2) [of y x] by (cases "f x y") (simp_all add: then_order_def)
    fix x y z
    assume xy: "then_order f g x y \<noteq> Greater" and yz: "then_order f g y z \<noteq> Greater"
    show "then_order f g x z \<noteq> Greater"
    proof (cases "f x y = Equal \<and> f y z = Equal")
      case True
      then have "f x z = Equal" using total_preorder.equal_congl [OF assms(1), of x y z] by simp
      then show ?thesis
        using True xy yz total_preorder.ord_trans [OF assms(2), of x y z] by (simp add: then_order_def)
    next
      case False
      have "f x z = Less"
        using False xy yz total_preorder.less_le_trans [OF assms(1), of x y z]
          total_preorder.le_less_trans [OF assms(1), of x y z]
        by (cases "f x y"; cases "f y z") (auto simp: then_order_def)
      then show ?thesis by (simp add: then_order_def)
    qed
  qed
qed

section \<open>Bytes\<close>

definition is_ascii_digit :: "u8 \<Rightarrow> bool" where
  "is_ascii_digit c \<longleftrightarrow> CHR ''0'' \<le> c \<and> c \<le> CHR ''9''"

definition is_ascii_lowercase :: "u8 \<Rightarrow> bool" where
  "is_ascii_lowercase c \<longleftrightarrow> CHR ''a'' \<le> c \<and> c \<le> CHR ''z''"

definition is_ascii_uppercase :: "u8 \<Rightarrow> bool" where
  "is_ascii_uppercase c \<longleftrightarrow> CHR ''A'' \<le> c \<and> c \<le> CHR ''Z''"

definition is_ascii_alphabetic :: "u8 \<Rightarrow> bool" where
  "is_ascii_alphabetic c \<longleftrightarrow> is_ascii_lowercase c \<or> is_ascii_uppercase c"

definition is_ascii_alphanumeric :: "u8 \<Rightarrow> bool" where
  "is_ascii_alphanumeric c \<longleftrightarrow> is_ascii_digit c \<or> is_ascii_alphabetic c"

text \<open>\<^verbatim>\<open>u8::is_ascii_whitespace\<close>: space, tab, line feed, form feed, carriage return (no vertical tab).\<close>

definition is_ascii_whitespace :: "u8 \<Rightarrow> bool" where
  "is_ascii_whitespace c \<longleftrightarrow> c \<in> {CHR '' '', CHR 0x09, CHR 0x0A, CHR 0x0C, CHR 0x0D}"

definition to_ascii_lowercase :: "u8 \<Rightarrow> u8" where
  "to_ascii_lowercase c =
     (if is_ascii_uppercase c then char_of (of_char c + 32 :: nat) else c)"

lemmas [byte_simps] = is_ascii_digit_def is_ascii_lowercase_def is_ascii_uppercase_def
  is_ascii_alphabetic_def is_ascii_alphanumeric_def
  is_ascii_whitespace_def

section \<open>Slices\<close>

text \<open>\<^verbatim>\<open>&xs[a..b]\<close> for \<open>a \<le> b \<le> xs.len()\<close>.\<close>

definition subslice :: "'a list \<Rightarrow> nat \<Rightarrow> nat \<Rightarrow> 'a list" where
  "subslice xs a b = take (b - a) (drop a xs)"

text \<open>\<^verbatim>\<open>dst[at..at + src.len()].copy_from_slice(src)\<close>, in range.\<close>

definition copy_into :: "'a list \<Rightarrow> nat \<Rightarrow> 'a list \<Rightarrow> 'a list" where
  "copy_into dst at src = take at dst @ src @ drop (at + length src) dst"

lemma length_subslice [slice_simps]:
  "b \<le> length xs \<Longrightarrow> length (subslice xs a b) = b - a"
  by (simp add: subslice_def)

lemma length_copy_into [slice_simps]:
  "at + length src \<le> length dst \<Longrightarrow> length (copy_into dst at src) = length dst"
  by (simp add: copy_into_def)

lemma take_copy_into [slice_simps]:
  "at + length src \<le> length dst \<Longrightarrow>
   take (at + length src) (copy_into dst at src) = take at dst @ src"
  by (cases src) (auto simp: copy_into_def min_def)

lemma drop_copy_into [slice_simps]:
  "at + length src \<le> k \<Longrightarrow> at + length src \<le> length dst \<Longrightarrow>
   drop k (copy_into dst at src) = drop k dst"
  by (simp add: copy_into_def)

lemma subslice_split: "a \<le> b \<Longrightarrow> b \<le> c \<Longrightarrow> subslice xs a c = subslice xs a b @ subslice xs b c"
proof -
  assume "a \<le> b" "b \<le> c"
  then have *: "c - a = (b - a) + (c - b)" and **: "b - a + a = b" by auto
  show ?thesis unfolding subslice_def * take_add by (simp add: **)
qed

section \<open>Block-wise processing\<close>

lemma multiple_step_le:
  "off < n \<Longrightarrow> off mod k = 0 \<Longrightarrow> n mod k = 0 \<Longrightarrow> off + k \<le> (n::nat)"
  by (metis dvd_diff_nat dvd_imp_le le_add_diff_inverse2 less_imp_le mod_0_imp_dvd
      nat_add_left_cancel_le add.commute zero_less_diff)

text \<open>Feeds the complete blocks of \<open>n\<close> bytes to \<open>f\<close>; what is left at the end is ignored.\<close>

function absorb :: "nat \<Rightarrow> ('s \<Rightarrow> 'a list \<Rightarrow> 's) \<Rightarrow> 's \<Rightarrow> 'a list \<Rightarrow> 's" where
  "absorb n f s bs =
     (if n = 0 \<or> length bs < n then s else absorb n f (f s (take n bs)) (drop n bs))"
  by pat_completeness auto
termination
  by (relation "measure (\<lambda>(n, f, s, bs). length bs)") auto

declare absorb.simps [simp del]

lemma absorb_short: "length bs < n \<Longrightarrow> absorb n f s bs = s"
  by (simp add: absorb.simps [of n f s bs])

lemma absorb_Nil [simp]: "absorb n f s [] = s"
  by (subst absorb.simps) auto

lemma absorb_step:
  "0 < n \<Longrightarrow> n \<le> length bs \<Longrightarrow> absorb n f s bs = absorb n f (f s (take n bs)) (drop n bs)"
  by (simp add: absorb.simps [of n f s bs])

lemma absorb_one: "0 < n \<Longrightarrow> length bs = n \<Longrightarrow> absorb n f s bs = f s bs"
  by (simp add: absorb_step)

lemma absorb_append:
  "n dvd length xs \<Longrightarrow> absorb n f s (xs @ ys) = absorb n f (absorb n f s xs) ys"
proof (induction n f s xs rule: absorb.induct)
  case (1 n f s xs)
  show ?case
  proof (cases "n = 0 \<or> length xs < n")
    case True
    then have "xs = []" using 1 by (auto simp: nat_dvd_not_less)
    then show ?thesis by simp
  next
    case False
    then have "n dvd length (drop n xs)" using 1 by (simp add: dvd_diff_nat)
    then show ?thesis using 1 False by (simp add: absorb_step [of n xs] absorb_step [of n "xs @ ys"])
  qed
qed

section \<open>Little-endian integers\<close>

text \<open>
  \<^verbatim>\<open>from_le_bytes\<close> and \<^verbatim>\<open>to_le_bytes\<close>, and their native-endian forms: every platform the program
  supports is little-endian.
\<close>

definition from_le_bytes :: "bytes \<Rightarrow> u64" where
  "from_le_bytes bs = foldr (\<lambda>b w. of_char b + 256 * w) bs 0"

fun le_digits :: "nat \<Rightarrow> nat \<Rightarrow> bytes" where
  "le_digits 0 v = []"
| "le_digits (Suc n) v = char_of (v mod 256) # le_digits n (v div 256)"

definition to_le_bytes :: "nat \<Rightarrow> 'a::len word \<Rightarrow> bytes" where
  "to_le_bytes n w = le_digits n (unat w)"

definition le_val :: "bytes \<Rightarrow> nat" where
  "le_val bs = foldr (\<lambda>b v. of_char b + 256 * v) bs 0"

lemma le_val_simps [simp]: "le_val [] = 0" "le_val (b # bs) = of_char b + 256 * le_val bs"
  by (simp_all add: le_val_def)

lemma of_char_less: "of_char c < (256::nat)"
  using nat_of_char_less_256 by simp

lemma le_val_less: "le_val bs < 256 ^ length bs"
proof (induction bs)
  case (Cons b bs)
  have "le_val (b # bs) < 256 + 256 * le_val bs" using of_char_less [of b] by simp
  also have "\<dots> = 256 * (le_val bs + 1)" by simp
  also have "\<dots> \<le> 256 * 256 ^ length bs" using Cons by (intro mult_left_mono) auto
  finally show ?case by simp
qed simp

lemma from_le_bytes_of_nat: "from_le_bytes bs = of_nat (le_val bs)"
  by (induction bs) (simp_all add: from_le_bytes_def of_nat_of_char)

lemma unat_from_le_bytes: "length bs \<le> 8 \<Longrightarrow> unat (from_le_bytes bs) = le_val bs"
proof -
  assume "length bs \<le> 8"
  then have "(256::nat) ^ length bs \<le> 256 ^ 8" by (intro power_increasing) auto
  then have "le_val bs < 2 ^ 64" using le_val_less [of bs] by simp
  then show ?thesis by (simp add: from_le_bytes_of_nat unsigned_of_nat take_bit_nat_eq_self)
qed

lemma length_le_digits [simp]: "length (le_digits n v) = n"
  by (induction n v rule: le_digits.induct) auto

lemma length_to_le_bytes [simp]: "length (to_le_bytes n w) = n"
  by (simp add: to_le_bytes_def)

lemma le_val_digits: "le_val (le_digits n v) = v mod 256 ^ n"
proof (induction n v rule: le_digits.induct)
  case (2 n v)
  have "v mod (256 * 256 ^ n) = v mod 256 + 256 * (v div 256 mod 256 ^ n)"
    by (simp add: mod_mult2_eq)
  then show ?case using 2 by simp
qed simp

lemma le_digits_val: "le_digits (length bs) (le_val bs) = bs"
proof (induction bs)
  case (Cons b bs)
  have "(of_char b + 256 * le_val bs) mod 256 = of_char b"
    "(of_char b + 256 * le_val bs) div 256 = le_val bs"
    using of_char_less [of b] by auto
  then show ?case using Cons by simp
qed simp

lemma nth_le_digits: "k < n \<Longrightarrow> le_digits n v ! k = char_of (v div 256 ^ k mod 256)"
proof (induction n v arbitrary: k rule: le_digits.induct)
  case (2 n v)
  then show ?case by (cases k) (simp_all add: div_mult2_eq)
qed simp

lemma from_to_le_bytes_4: "ucast (from_le_bytes (to_le_bytes 4 w)) = (w :: u32)"
proof -
  have "unat w < 256 ^ 4" using unsigned_less [where 'a = nat and w = w] by simp
  then have "from_le_bytes (to_le_bytes 4 w) = of_nat (unat w)"
    by (simp add: from_le_bytes_of_nat to_le_bytes_def le_val_digits)
  then have "from_le_bytes (to_le_bytes 4 w) = ucast w" by simp
  then show ?thesis by (simp only:) (simp add: ucast_up_ucast_id is_up)
qed

lemma le_val_append: "le_val (xs @ ys) = le_val xs + 256 ^ length xs * le_val ys"
  by (induction xs) (simp_all add: algebra_simps)

lemma from_to_le_bytes: "from_le_bytes (to_le_bytes 8 w) = (w :: u64)"
proof -
  have "unat w < 256 ^ 8" using unsigned_less [of w] by simp
  then show ?thesis by (simp add: from_le_bytes_of_nat to_le_bytes_def le_val_digits)
qed

lemma to_from_le_bytes: "length bs = 8 \<Longrightarrow> to_le_bytes 8 (from_le_bytes bs) = bs"
  using le_digits_val [of bs] by (simp add: to_le_bytes_def unat_from_le_bytes)

lemma from_le_bytes_inj:
  assumes "length xs = 8" "length ys = 8"
  shows "from_le_bytes xs = from_le_bytes ys \<longleftrightarrow> xs = ys"
proof
  assume "from_le_bytes xs = from_le_bytes ys"
  then have "to_le_bytes 8 (from_le_bytes xs) = to_le_bytes 8 (from_le_bytes ys)"
    by (rule arg_cong)
  then show "xs = ys" by (simp only: to_from_le_bytes [OF assms(1)] to_from_le_bytes [OF assms(2)])
qed simp

end
