(* ===== verification/Core_Strings.thy ===== *)
theory Core_Strings
  imports Bun_Prelude
begin

text \<open>
  The byte-string helpers of \<^verbatim>\<open>src/bun_alloc/lib.rs\<close>, \<^verbatim>\<open>src/bun_core/string/immutable.rs\<close> and
  \<^verbatim>\<open>src/bun_core/fmt.rs\<close> that the package-manager components call: trimming, lexicographic
  comparison, splitting at a delimiter with an iterator, and integer parsing.
\<close>

section \<open>Comparison\<close>

text \<open>\<^verbatim>\<open>strings::order\<close>: \<^verbatim>\<open><[u8] as Ord>::cmp\<close>, the lexicographic order of bytes.\<close>

fun order :: "bytes \<Rightarrow> bytes \<Rightarrow> ordering" where
  "order [] [] = Equal"
| "order [] (_ # _) = Less"
| "order (_ # _) [] = Greater"
| "order (x # xs) (y # ys) = (case cmp x y of Equal \<Rightarrow> order xs ys | r \<Rightarrow> r)"

lemma order_lex: "order xs ys = lex_order cmp xs ys"
  by (induction xs ys rule: order.induct) (auto split: ordering.splits)

interpretation cmp_ord: total_preorder "cmp :: 'a::linorder \<Rightarrow> 'a \<Rightarrow> ordering"
  by unfold_locales (auto simp: cmp_def split: if_splits)

interpretation bytes_ord: total_preorder order
  using cmp_ord.lex_total_preorder by (simp add: order_lex [abs_def])

lemma order_Equal_iff: "order xs ys = Equal \<longleftrightarrow> xs = ys"
  by (induction xs ys rule: order.induct) (auto simp: cmp_def split: ordering.splits if_splits)

section \<open>Trimming\<close>

text \<open>\<^verbatim>\<open>strings::WHITESPACE_CHARS\<close>\<close>

definition WHITESPACE_CHARS :: "u8 list" where
  "WHITESPACE_CHARS = [CHR '' '', CHR 0x09, CHR 0x0A, CHR 0x0D, CHR 0x0B, CHR 0x0C]"

fun trim_right_end :: "bytes \<Rightarrow> u8 list \<Rightarrow> nat \<Rightarrow> nat" where
  "trim_right_end s chars 0 = 0"
| "trim_right_end s chars (Suc e) =
     (if s ! e \<in> set chars then trim_right_end s chars e else Suc e)"

definition trim_right :: "bytes \<Rightarrow> u8 list \<Rightarrow> bytes" where
  "trim_right s chars = take (trim_right_end s chars (length s)) s"

function trim_left_begin :: "bytes \<Rightarrow> u8 list \<Rightarrow> nat \<Rightarrow> nat" where
  "trim_left_begin s chars b =
     (if b < length s \<and> s ! b \<in> set chars then trim_left_begin s chars (Suc b) else b)"
  by pat_completeness auto
termination
  by (relation "measure (\<lambda>(s, chars, b). length s - b)") auto

declare trim_left_begin.simps [simp del]

definition trim_left :: "bytes \<Rightarrow> u8 list \<Rightarrow> bytes" where
  "trim_left s chars = drop (trim_left_begin s chars 0) s"

definition trim :: "bytes \<Rightarrow> u8 list \<Rightarrow> bytes" where
  "trim s chars = trim_right (trim_left s chars) chars"

text \<open>\<^verbatim>\<open>length_of_leading_whitespace_ascii\<close>\<close>

fun length_of_leading_whitespace_ascii :: "bytes \<Rightarrow> nat" where
  "length_of_leading_whitespace_ascii [] = 0"
| "length_of_leading_whitespace_ascii (c # cs) =
     (if c \<in> set WHITESPACE_CHARS then Suc (length_of_leading_whitespace_ascii cs) else 0)"

lemma leading_whitespace_le: "length_of_leading_whitespace_ascii s \<le> length s"
  by (induction s) auto

lemma trim_left_dropWhile: "drop (trim_left_begin s chars b) s = dropWhile (\<lambda>c. c \<in> set chars) (drop b s)"
proof (induction s chars b rule: trim_left_begin.induct)
  case (1 s chars b)
  show ?case
  proof (cases "b < length s")
    case True
    then have "drop b s = s ! b # drop (Suc b) s" by (simp add: Cons_nth_drop_Suc)
    then show ?thesis using 1 True by (simp add: trim_left_begin.simps [of s chars b])
  next
    case False
    then show ?thesis by (simp add: trim_left_begin.simps [of s chars b])
  qed
qed

lemma trim_right_rev:
  "e \<le> length s \<Longrightarrow>
   take (trim_right_end s chars e) s = rev (dropWhile (\<lambda>c. c \<in> set chars) (rev (take e s)))"
  by (induction s chars e rule: trim_right_end.induct) (auto simp: take_Suc_conv_app_nth)

lemma trim_eq:
  "trim s chars = rev (dropWhile (\<lambda>c. c \<in> set chars) (rev (dropWhile (\<lambda>c. c \<in> set chars) s)))"
  by (simp add: trim_def trim_left_def trim_right_def trim_left_dropWhile [of s chars 0, simplified]
      trim_right_rev)

lemma trim_id:
  assumes "s = [] \<or> hd s \<notin> set chars \<and> last s \<notin> set chars"
  shows "trim s chars = s"
proof (cases s)
  case (Cons c cs)
  have "dropWhile (\<lambda>c. c \<in> set chars) s = s" using assms Cons by simp
  moreover have "dropWhile (\<lambda>c. c \<in> set chars) (rev s) = rev s"
    using assms Cons by (metis dropWhile_eq_self_iff hd_rev list.discI)
  ultimately show ?thesis by (simp add: trim_eq)
qed (simp add: trim_eq)

section \<open>Scanning\<close>

text \<open>\<^verbatim>\<open>while i < xs.len() && p(xs[i]) { i += 1 }\<close>\<close>

function skip_while :: "('a \<Rightarrow> bool) \<Rightarrow> 'a list \<Rightarrow> nat \<Rightarrow> nat" where
  "skip_while p xs i = (if i < length xs \<and> p (xs ! i) then skip_while p xs (Suc i) else i)"
  by pat_completeness auto
termination
  by (relation "measure (\<lambda>(p, xs, i). length xs - i)") auto

declare skip_while.simps [simp del]

lemma skip_while_eq: "skip_while p xs i = i + length (takeWhile p (drop i xs))"
proof (induction p xs i rule: skip_while.induct)
  case (1 p xs i)
  show ?case
  proof (cases "i < length xs")
    case True
    then have "drop i xs = xs ! i # drop (Suc i) xs" by (simp add: Cons_nth_drop_Suc)
    then show ?thesis using 1 True by (simp add: skip_while.simps [of p xs i])
  next
    case False
    then show ?thesis by (simp add: skip_while.simps [of p xs i])
  qed
qed

lemma skip_while_ge: "i \<le> skip_while p xs i"
  by (simp add: skip_while_eq)

lemma skip_while_decreases:
  "i < length xs \<Longrightarrow>
   length xs - (if b then skip_while p xs (i + 1) + 1 else skip_while p xs (i + 1)) < length xs - i"
  using skip_while_ge [of "i + 1" p xs] by (cases b) auto

lemma skip_while_le: "i \<le> length xs \<Longrightarrow> skip_while p xs i \<le> length xs"
  using length_takeWhile_le [of p "drop i xs"] by (simp add: skip_while_eq)

section \<open>Splitting\<close>

text \<open>
  \<^verbatim>\<open>index_of\<close>: the first occurrence of a needle; a needle of one byte goes through
  \<^verbatim>\<open>index_of_char_usize\<close>, a longer one through \<^verbatim>\<open>memmem\<close>, both of which find the first match.
\<close>

function memmem_from :: "bytes \<Rightarrow> bytes \<Rightarrow> nat \<Rightarrow> nat option" where
  "memmem_from h n i =
     (if i + length n \<le> length h then
        if subslice h i (i + length n) = n then Some i else memmem_from h n (Suc i)
      else None)"
  by pat_completeness auto
termination
  by (relation "measure (\<lambda>(h, n, i). Suc (length h) - i)") auto

declare memmem_from.simps [simp del]

definition index_of :: "bytes \<Rightarrow> bytes \<Rightarrow> nat option" where
  "index_of self str =
     (if length self = 0 \<or> length str = 0 \<or> length self < length str then None
      else memmem_from self str 0)"

record split_iterator =
  buffer :: bytes
  index :: "nat option"
  delimiter :: bytes

definition split :: "bytes \<Rightarrow> bytes \<Rightarrow> split_iterator" where
  "split self d = \<lparr>buffer = self, index = Some 0, delimiter = d\<rparr>"

definition split_next :: "split_iterator \<Rightarrow> bytes option \<times> split_iterator" where
  "split_next it =
     (case index it of
        None \<Rightarrow> (None, it)
      | Some start \<Rightarrow>
          (case index_of (drop start (buffer it)) (delimiter it) of
             Some delim_start \<Rightarrow>
               let del = delim_start + start
               in (Some (subslice (buffer it) start del),
                   it\<lparr>index := Some (del + length (delimiter it))\<rparr>)
           | None \<Rightarrow>
               (Some (subslice (buffer it) start (length (buffer it))), it\<lparr>index := None\<rparr>)))"

text \<open>How many more fields an iterator can yield, at most; it shrinks with every field.\<close>

definition split_left :: "split_iterator \<Rightarrow> nat" where
  "split_left it = (case index it of None \<Rightarrow> 0 | Some i \<Rightarrow> Suc (Suc (length (buffer it)) - i))"

lemma memmem_from_bound:
  "memmem_from h n i = Some j \<Longrightarrow> i \<le> j \<and> j + length n \<le> length h \<and> subslice h j (j + length n) = n"
proof (induction h n i rule: memmem_from.induct)
  case (1 h n i)
  then show ?case by (subst (asm) (2) memmem_from.simps) (auto split: if_splits dest: Suc_leD)
qed

lemma split_next_Some:
  assumes "split_next it = (Some f, it')"
  shows "split_left it' < split_left it"
proof -
  obtain s where s: "index it = Some s"
    using assms by (auto simp: split_next_def split: option.splits)
  show ?thesis
  proof (cases "index_of (drop s (buffer it)) (delimiter it)")
    case None
    then show ?thesis using assms s by (auto simp: split_next_def split_left_def)
  next
    case (Some d)
    then have "0 < length (delimiter it)" "d + length (delimiter it) \<le> length (buffer it) - s"
      by (auto simp: index_of_def dest: memmem_from_bound split: if_splits)
    then have "Suc (length (buffer it)) - (d + s + length (delimiter it)) < Suc (length (buffer it)) - s"
      by linarith
    then show ?thesis
      using assms s Some by (auto simp: split_next_def split_left_def Let_def)
  qed
qed

text \<open>All fields, in order.\<close>

function split_fields :: "split_iterator \<Rightarrow> bytes list" where
  "split_fields it =
     (case split_next it of (None, _) \<Rightarrow> [] | (Some f, it') \<Rightarrow> f # split_fields it')"
  by pat_completeness auto
termination
  by (relation "measure split_left") (auto dest: split_next_Some [OF sym])

declare split_fields.simps [simp del]

lemma split_fields_nonempty: "split_fields (split s d) \<noteq> []"
  by (subst split_fields.simps) (auto simp: split_next_def split_def Let_def split: option.splits)

subsection \<open>The fields of a split at one character\<close>

fun split_on :: "'a \<Rightarrow> 'a list \<Rightarrow> 'a list list" where
  "split_on d [] = [[]]"
| "split_on d (c # cs) =
     (if c = d then [] # split_on d cs
      else case split_on d cs of [] \<Rightarrow> [[c]] | f # fs \<Rightarrow> (c # f) # fs)"

lemma split_on_unfold:
  "split_on d xs =
     (if d \<in> set xs
      then takeWhile (\<lambda>c. c \<noteq> d) xs # split_on d (drop (Suc (length (takeWhile (\<lambda>c. c \<noteq> d) xs))) xs)
      else [xs])"
  by (induction xs) auto

lemma memmem_from_char:
  "i \<le> length h \<Longrightarrow>
   memmem_from h [d] i =
     (if d \<in> set (drop i h) then Some (i + length (takeWhile (\<lambda>c. c \<noteq> d) (drop i h))) else None)"
proof (induction h "[d]" i rule: memmem_from.induct)
  case (1 h i)
  show ?case
  proof (cases "i < length h")
    case True
    then have dr: "drop i h = h ! i # drop (Suc i) h" by (simp add: Cons_nth_drop_Suc)
    have sub: "subslice h i (i + length [d]) = [h ! i]"
      using True by (simp add: subslice_def dr)
    show ?thesis
    proof (cases "h ! i = d")
      case hit: True
      then show ?thesis using True sub dr by (simp add: memmem_from.simps [of h "[d]" i])
    next
      case miss: False
      then have "memmem_from h [d] i = memmem_from h [d] (Suc i)"
        using True sub by (simp add: memmem_from.simps [of h "[d]" i])
      then show ?thesis using 1(1) True sub miss dr by simp
    qed
  next
    case False
    then show ?thesis by (simp add: memmem_from.simps [of h "[d]" i])
  qed
qed

lemma index_of_char:
  "index_of xs [d] = (if d \<in> set xs then Some (length (takeWhile (\<lambda>c. c \<noteq> d) xs)) else None)"
  using memmem_from_char [of 0 xs d] by (cases xs) (auto simp: index_of_def)

lemma split_fields_from:
  "start \<le> length s \<Longrightarrow>
   split_fields \<lparr>buffer = s, index = Some start, delimiter = [d]\<rparr> = split_on d (drop start s)"
proof (induction "length s - start" arbitrary: start rule: less_induct)
  case less
  let ?w = "takeWhile (\<lambda>c. c \<noteq> d) (drop start s)"
  have none: "split_fields \<lparr>buffer = s, index = None, delimiter = [d]\<rparr> = []"
    by (subst split_fields.simps) (simp add: split_next_def)
  show ?case
  proof (cases "d \<in> set (drop start s)")
    case True
    have "?w \<noteq> drop start s" using True by (metis (full_types) set_takeWhileD)
    then have "length ?w < length (drop start s)"
      by (metis length_takeWhile_le order_le_imp_less_or_eq takeWhile_eq_take take_all_iff order_refl)
    then have lt: "start + length ?w < length s" by simp
    have tk: "take (length ?w) (drop start s) = ?w" by (metis takeWhile_eq_take)
    have "split_fields \<lparr>buffer = s, index = Some start, delimiter = [d]\<rparr> =
        ?w # split_fields \<lparr>buffer = s, index = Some (length ?w + start + 1), delimiter = [d]\<rparr>"
      using True tk by (subst split_fields.simps) (simp add: split_next_def index_of_char subslice_def Let_def)
    also have "\<dots> = ?w # split_on d (drop (length ?w + start + 1) s)"
      using less.hyps [of "length ?w + start + 1"] lt by simp
    also have "\<dots> = split_on d (drop start s)"
      using True by (subst split_on_unfold [of d "drop start s"]) (simp add: add.commute)
    finally show ?thesis .
  next
    case False
    then show ?thesis
      by (subst split_fields.simps, subst split_on_unfold)
        (simp add: split_next_def index_of_char subslice_def none)
  qed
qed

lemma split_fields_eq: "split_fields (split s [d]) = split_on d s"
  using split_fields_from [of 0 s d] by (simp add: split_def)

section \<open>Integer parsing\<close>

datatype parse_int_error = InvalidCharacter | Overflow

definition digit_value :: "u8 \<Rightarrow> nat option" where
  "digit_value c =
     (if CHR ''0'' \<le> c \<and> c \<le> CHR ''9'' then Some (of_char c - of_char (CHR ''0''))
      else if CHR ''a'' \<le> c \<and> c \<le> CHR ''z'' then Some (of_char c - of_char (CHR ''a'') + 10)
      else if CHR ''A'' \<le> c \<and> c \<le> CHR ''Z'' then Some (of_char c - of_char (CHR ''A'') + 10)
      else None)"

text \<open>The accumulator is a \<^verbatim>\<open>u128\<close> with checked arithmetic.\<close>

fun parse_digits :: "nat \<Rightarrow> nat \<Rightarrow> bytes \<Rightarrow> parse_int_error + nat" where
  "parse_digits radix acc [] = Inr acc"
| "parse_digits radix acc (c # cs) =
     (if c = CHR ''_'' then parse_digits radix acc cs
      else case digit_value c of
        None \<Rightarrow> Inl InvalidCharacter
      | Some d \<Rightarrow>
          if d \<ge> radix then Inl InvalidCharacter
          else if acc * radix + d \<ge> 2 ^ 128 then Inl Overflow
          else parse_digits radix (acc * radix + d) cs)"

definition parse_with_sign :: "bytes \<Rightarrow> nat \<Rightarrow> parse_int_error + nat" where
  "parse_with_sign digits radix =
     (if digits = [] \<or> hd digits = CHR ''_'' \<or> last digits = CHR ''_'' then Inl InvalidCharacter
      else parse_digits radix 0 digits)"

definition auto_radix :: "bytes \<Rightarrow> nat \<Rightarrow> bytes \<times> nat" where
  "auto_radix digits radix =
     (if radix \<noteq> 0 then (digits, radix)
      else if length digits \<ge> 2 \<and> digits ! 0 = CHR ''0'' then
        (if digits ! 1 = CHR ''x'' \<or> digits ! 1 = CHR ''X'' then (drop 2 digits, 16)
         else if digits ! 1 = CHR ''o'' \<or> digits ! 1 = CHR ''O'' then (drop 2 digits, 8)
         else if digits ! 1 = CHR ''b'' \<or> digits ! 1 = CHR ''B'' then (drop 2 digits, 2)
         else (digits, 10))
      else (digits, 10))"

text \<open>\<^verbatim>\<open>parse_unsigned::<T>\<close> for an unsigned \<^verbatim>\<open>T\<close> of \<open>w\<close> bits: \<^verbatim>\<open>T::try_from\<close> fails above \<open>2 ^ w - 1\<close>.\<close>

definition parse_unsigned :: "nat \<Rightarrow> bytes \<Rightarrow> nat \<Rightarrow> parse_int_error + nat" where
  "parse_unsigned w buf radix =
     (let (digits, radix) = auto_radix buf radix
      in case parse_with_sign digits radix of
           Inl e \<Rightarrow> Inl e
         | Inr acc \<Rightarrow> if acc < 2 ^ w then Inr acc else Inl Overflow)"

end
