(* ===== verification/Wyhash.thy ===== *)
theory Wyhash
  imports Bun_Prelude
begin

text \<open>
  The two hash functions of \<^verbatim>\<open>src/wyhash/lib.rs\<close>: \<^verbatim>\<open>Wyhash11\<close>, whose values are stored in lockfiles
  and in the \<^verbatim>\<open>hash\<close> of every \<^verbatim>\<open>ExternalString\<close>, and \<^verbatim>\<open>Wyhash\<close> (the final4 variant behind
  \<^verbatim>\<open>bun.hash\<close>). Both exist as a one-shot function and as a streaming hasher with an internal
  buffer, and the second one a third time as a \<^verbatim>\<open>const fn\<close>. The lemmas show that the
  implementations of one algorithm agree on every input and every chunking.

  Loads are little-endian. A slice that the source takes in range is taken with \<open>take\<close> and \<open>drop\<close>;
  \<^verbatim>\<open>self.msg_len as u64\<close> and \<^verbatim>\<open>self.total_len as u64\<close> are \<open>of_nat\<close>.
\<close>

section \<open>The contract of a streaming hasher\<close>

text \<open>
  A hasher is created from a seed, consumes chunks and is finished. \<open>absorbed s h data\<close> says that
  \<open>h\<close>, created with seed \<open>s\<close>, has consumed \<open>data\<close>. The contract makes finishing a function of
  the bytes consumed, whatever the chunks were.
\<close>

locale streaming_hasher =
  fixes init :: "u64 \<Rightarrow> 'h"
    and update :: "'h \<Rightarrow> bytes \<Rightarrow> 'h"
    and finish :: "'h \<Rightarrow> u64"
    and oneshot :: "u64 \<Rightarrow> bytes \<Rightarrow> u64"
    and absorbed :: "u64 \<Rightarrow> 'h \<Rightarrow> bytes \<Rightarrow> bool"
  assumes absorbed_init: "absorbed s (init s) []"
    and absorbed_update: "absorbed s h data \<Longrightarrow> absorbed s (update h b) (data @ b)"
    and absorbed_finish: "absorbed s h data \<Longrightarrow> finish h = oneshot s data"
begin

lemma absorbed_chunks:
  "absorbed s h data \<Longrightarrow> absorbed s (foldl update h chunks) (data @ concat chunks)"
proof (induction chunks arbitrary: h data)
  case (Cons b bs)
  then show ?case using absorbed_update [of s h data b] by fastforce
qed simp

lemma stream_eq_oneshot: "finish (foldl update (init s) chunks) = oneshot s (concat chunks)"
  using absorbed_chunks [OF absorbed_init] by (simp add: absorbed_finish)

end

section \<open>Shared arithmetic\<close>

definition PRIMES :: "u64 list" where
  "PRIMES = [0xa0761d6478bd642f, 0xe7037ed1a0b428db, 0x8ebc6af09c88c6e3,
             0x589965cc75374cc3, 0x1d8e4e27c47d124f]"

definition read_bytes :: "nat \<Rightarrow> bytes \<Rightarrow> u64" where
  "read_bytes n data = from_le_bytes (take n data)"

definition read_8bytes_swapped :: "bytes \<Rightarrow> u64" where
  "read_8bytes_swapped data = push_bit 32 (read_bytes 4 data) OR read_bytes 4 (drop 4 data)"

definition mum :: "u64 \<Rightarrow> u64 \<Rightarrow> u64" where
  "mum a b = (let r = ucast a * ucast b :: u128; r = drop_bit 64 r XOR r in ucast r)"

definition mix0 :: "u64 \<Rightarrow> u64 \<Rightarrow> u64 \<Rightarrow> u64" where
  "mix0 a b seed = mum (a XOR seed XOR PRIMES ! 0) (b XOR seed XOR PRIMES ! 1)"

definition mix1 :: "u64 \<Rightarrow> u64 \<Rightarrow> u64 \<Rightarrow> u64" where
  "mix1 a b seed = mum (a XOR seed XOR PRIMES ! 2) (b XOR seed XOR PRIMES ! 3)"

section \<open>Wyhash11\<close>

definition final_long :: "u64 \<Rightarrow> bytes \<Rightarrow> u64" where
  "final_long seed key =
     (let head = mix0 (read_8bytes_swapped key) (read_8bytes_swapped (drop 8 key)) seed;
          r1 = (\<lambda>i. read_bytes 1 (drop i key));
          r2 = (\<lambda>i. read_bytes 2 (drop i key));
          r4 = (\<lambda>i. read_bytes 4 (drop i key));
          n = length key;
          tail =
            (if n = 17 then mix1 (r1 16) (PRIMES ! 4) seed
             else if n = 18 then mix1 (r2 16) (PRIMES ! 4) seed
             else if n = 19 then mix1 (push_bit 8 (r2 16) OR r1 18) (PRIMES ! 4) seed
             else if n = 20 then mix1 (r4 16) (PRIMES ! 4) seed
             else if n = 21 then mix1 (push_bit 8 (r4 16) OR r1 20) (PRIMES ! 4) seed
             else if n = 22 then mix1 (push_bit 16 (r4 16) OR r2 20) (PRIMES ! 4) seed
             else if n = 23 then
               mix1 (push_bit 24 (r4 16) OR push_bit 8 (r2 20) OR r1 22) (PRIMES ! 4) seed
             else if n = 24 then mix1 (read_8bytes_swapped (drop 16 key)) (PRIMES ! 4) seed
             else if n = 25 then mix1 (read_8bytes_swapped (drop 16 key)) (r1 24) seed
             else if n = 26 then mix1 (read_8bytes_swapped (drop 16 key)) (r2 24) seed
             else if n = 27 then
               mix1 (read_8bytes_swapped (drop 16 key)) (push_bit 8 (r2 24) OR r1 26) seed
             else if n = 28 then mix1 (read_8bytes_swapped (drop 16 key)) (r4 24) seed
             else if n = 29 then
               mix1 (read_8bytes_swapped (drop 16 key)) (push_bit 8 (r4 24) OR r1 28) seed
             else if n = 30 then
               mix1 (read_8bytes_swapped (drop 16 key)) (push_bit 16 (r4 24) OR r2 28) seed
             else
               mix1 (read_8bytes_swapped (drop 16 key))
                 (push_bit 24 (r4 24) OR push_bit 8 (r2 28) OR r1 30) seed)
      in head XOR tail)"

record wyhash_stateless =
  seed :: u64
  msg_len :: nat

definition stateless_init :: "u64 \<Rightarrow> wyhash_stateless" where
  "stateless_init s = \<lparr>seed = s, msg_len = 0\<rparr>"

definition stateless_round :: "wyhash_stateless \<Rightarrow> bytes \<Rightarrow> wyhash_stateless" where
  "stateless_round c b =
     c\<lparr>seed := mix0 (read_bytes 8 b) (read_bytes 8 (drop 8 b)) (seed c)
               XOR mix1 (read_bytes 8 (drop 16 b)) (read_bytes 8 (drop 24 b)) (seed c)\<rparr>"

function stateless_rounds :: "wyhash_stateless \<Rightarrow> bytes \<Rightarrow> nat \<Rightarrow> wyhash_stateless" where
  "stateless_rounds c b off =
     (if off < length b
      then stateless_rounds (stateless_round c (subslice b off (off + 32))) b (off + 32)
      else c)"
  by pat_completeness auto
termination
  by (relation "measure (\<lambda>(c, b, off). length b - off)") auto

declare stateless_rounds.simps [simp del]

definition stateless_update :: "wyhash_stateless \<Rightarrow> bytes \<Rightarrow> wyhash_stateless" where
  "stateless_update c b = (let c = stateless_rounds c b 0 in c\<lparr>msg_len := msg_len c + length b\<rparr>)"

definition final_seed :: "u64 \<Rightarrow> bytes \<Rightarrow> u64" where
  "final_seed s rem_key =
     (let r1 = (\<lambda>i. read_bytes 1 (drop i rem_key));
          r2 = (\<lambda>i. read_bytes 2 (drop i rem_key));
          r4 = (\<lambda>i. read_bytes 4 (drop i rem_key));
          s8 = read_8bytes_swapped rem_key;
          n = length rem_key
      in if n = 0 then s
         else if n = 1 then mix0 (r1 0) (PRIMES ! 4) s
         else if n = 2 then mix0 (r2 0) (PRIMES ! 4) s
         else if n = 3 then mix0 (push_bit 8 (r2 0) OR r1 2) (PRIMES ! 4) s
         else if n = 4 then mix0 (r4 0) (PRIMES ! 4) s
         else if n = 5 then mix0 (push_bit 8 (r4 0) OR r1 4) (PRIMES ! 4) s
         else if n = 6 then mix0 (push_bit 16 (r4 0) OR r2 4) (PRIMES ! 4) s
         else if n = 7 then
           mix0 (push_bit 24 (r4 0) OR push_bit 8 (r2 4) OR r1 6) (PRIMES ! 4) s
         else if n = 8 then mix0 s8 (PRIMES ! 4) s
         else if n = 9 then mix0 s8 (r1 8) s
         else if n = 10 then mix0 s8 (r2 8) s
         else if n = 11 then mix0 s8 (push_bit 8 (r2 8) OR r1 10) s
         else if n = 12 then mix0 s8 (r4 8) s
         else if n = 13 then mix0 s8 (push_bit 8 (r4 8) OR r1 12) s
         else if n = 14 then mix0 s8 (push_bit 16 (r4 8) OR r2 12) s
         else if n = 15 then mix0 s8 (push_bit 24 (r4 8) OR push_bit 8 (r2 12) OR r1 14) s
         else if n = 16 then mix0 s8 (read_8bytes_swapped (drop 8 rem_key)) s
         else final_long s rem_key)"

definition stateless_final :: "wyhash_stateless \<Rightarrow> bytes \<Rightarrow> u64 \<times> wyhash_stateless" where
  "stateless_final c b =
     (let c = c\<lparr>seed := final_seed (seed c) b\<rparr>;
          c = c\<lparr>msg_len := msg_len c + length b\<rparr>
      in (mum (seed c XOR of_nat (msg_len c)) (PRIMES ! 4), c))"

definition stateless_hash :: "u64 \<Rightarrow> bytes \<Rightarrow> u64" where
  "stateless_hash s input =
     (let aligned_len = length input - length input mod 32;
          c = stateless_update (stateless_init s) (take aligned_len input)
      in fst (stateless_final c (drop aligned_len input)))"

record wyhash11 =
  state11 :: wyhash_stateless
  buf11 :: bytes
  buf_len11 :: nat

definition wyhash11_init :: "u64 \<Rightarrow> wyhash11" where
  "wyhash11_init s =
     \<lparr>state11 = stateless_init s, buf11 = replicate 32 (CHR 0x00), buf_len11 = 0\<rparr>"

definition wyhash11_update :: "wyhash11 \<Rightarrow> bytes \<Rightarrow> wyhash11" where
  "wyhash11_update h b =
     (let (h, off) =
            (if buf_len11 h \<noteq> 0 \<and> buf_len11 h + length b \<ge> 32 then
               let off = 32 - buf_len11 h;
                   h = h\<lparr>buf11 := copy_into (buf11 h) (buf_len11 h) (take off b)\<rparr>;
                   h = h\<lparr>state11 := stateless_update (state11 h) (buf11 h)\<rparr>
               in (h\<lparr>buf_len11 := 0\<rparr>, off)
             else (h, 0));
          remain_len = length b - off;
          aligned_len = remain_len - remain_len mod 32;
          h = h\<lparr>state11 := stateless_update (state11 h) (subslice b off (off + aligned_len))\<rparr>;
          tail = drop (off + aligned_len) b;
          h = h\<lparr>buf11 := copy_into (buf11 h) (buf_len11 h) tail\<rparr>
      in h\<lparr>buf_len11 := buf_len11 h + length tail\<rparr>)"

definition wyhash11_final :: "wyhash11 \<Rightarrow> u64 \<times> wyhash11" where
  "wyhash11_final h =
     (let (r, c) = stateless_final (state11 h) (take (buf_len11 h) (buf11 h))
      in (r, h\<lparr>state11 := c\<rparr>))"

definition wyhash11_hash :: "u64 \<Rightarrow> bytes \<Rightarrow> u64" where
  "wyhash11_hash s input = stateless_hash s input"

subsection \<open>The streaming hasher computes the one-shot hash\<close>

lemma stateless_rounds_absorb:
  "length b mod 32 = 0 \<Longrightarrow> off mod 32 = 0 \<Longrightarrow>
   stateless_rounds c b off = absorb 32 stateless_round c (drop off b)"
proof (induction c b off rule: stateless_rounds.induct)
  case (1 c b off)
  show ?case
  proof (cases "off < length b")
    case True
    have le: "off + 32 \<le> length b" using multiple_step_le [OF True "1.prems"(2) "1.prems"(1)] .
    let ?c = "stateless_round c (take 32 (drop off b))"
    have "stateless_rounds c b off = stateless_rounds ?c b (off + 32)"
      using True by (subst stateless_rounds.simps) (simp add: subslice_def)
    also have "\<dots> = absorb 32 stateless_round ?c (drop 32 (drop off b))"
      using "1.IH" "1.prems" True by (simp add: subslice_def add.commute)
    also have "\<dots> = absorb 32 stateless_round c (drop off b)"
      using le by (subst (2) absorb_step) auto
    finally show ?thesis .
  next
    case False
    then show ?thesis by (simp add: stateless_rounds.simps [of c b off])
  qed
qed

lemma stateless_round_msg_len: "msg_len (stateless_round c b) = msg_len c"
  "stateless_round (c\<lparr>msg_len := n\<rparr>) b = (stateless_round c b)\<lparr>msg_len := n\<rparr>"
  by (simp_all add: stateless_round_def)

lemma absorb_msg_len:
  "msg_len (absorb 32 stateless_round c b) = msg_len c"
  "absorb 32 stateless_round (c\<lparr>msg_len := n\<rparr>) b = (absorb 32 stateless_round c b)\<lparr>msg_len := n\<rparr>"
proof -
  have "msg_len (absorb k stateless_round c b) = msg_len c \<and>
    absorb k stateless_round (c\<lparr>msg_len := n\<rparr>) b = (absorb k stateless_round c b)\<lparr>msg_len := n\<rparr>" for k
  proof (induction k stateless_round c b rule: absorb.induct)
    case (1 k c b)
    then show ?case
      by (cases "k = 0 \<or> length b < k")
        (auto simp: absorb.simps [of k _ c b] absorb.simps [of k _ "c\<lparr>msg_len := n\<rparr>" b]
          stateless_round_msg_len)
  qed
  then show "msg_len (absorb 32 stateless_round c b) = msg_len c"
    "absorb 32 stateless_round (c\<lparr>msg_len := n\<rparr>) b = (absorb 32 stateless_round c b)\<lparr>msg_len := n\<rparr>"
    by auto
qed

lemma stateless_update_absorb:
  "length b mod 32 = 0 \<Longrightarrow>
   stateless_update c b = (absorb 32 stateless_round c b)\<lparr>msg_len := msg_len c + length b\<rparr>"
  by (simp add: stateless_update_def stateless_rounds_absorb absorb_msg_len Let_def)

lemma stateless_update_append:
  "length p mod 32 = 0 \<Longrightarrow> length q mod 32 = 0 \<Longrightarrow>
   stateless_update (stateless_update c p) q = stateless_update c (p @ q)"
  by (simp add: stateless_update_absorb absorb_append absorb_msg_len mod_0_imp_dvd
      mod_add_eq [symmetric])

text \<open>
  What the hasher has consumed is the blocks \<open>p\<close> it has mixed into its state and the bytes it
  still holds in its buffer.
\<close>

definition absorbed11 :: "u64 \<Rightarrow> wyhash11 \<Rightarrow> bytes \<Rightarrow> bool" where
  "absorbed11 s h data \<longleftrightarrow>
     length (buf11 h) = 32 \<and> buf_len11 h < 32 \<and>
     (\<exists>p. data = p @ take (buf_len11 h) (buf11 h) \<and> length p mod 32 = 0 \<and>
          state11 h = stateless_update (stateless_init s) p)"

lemma absorbed11_init: "absorbed11 s (wyhash11_init s) []"
  by (auto simp: absorbed11_def wyhash11_init_def stateless_update_absorb intro!: exI [of _ "[]"])

lemma stateless_update_Nil: "stateless_update c [] = c"
  by (simp add: stateless_update_absorb)

lemma take_0_copy_into:
  "length src \<le> length dst \<Longrightarrow> take (length src) (copy_into dst 0 src) = src"
  using take_copy_into [of 0 src dst] by simp

lemma absorbed11_update_aligned:
  assumes h: "absorbed11 s h data" and b0: "buf_len11 h = 0"
  shows "absorbed11 s (wyhash11_update h b) (data @ b)"
proof -
  define q where "q = take (length b - length b mod 32) b"
  define t where "t = drop (length b - length b mod 32) b"
  have b: "b = q @ t" by (simp add: q_def t_def)
  have len: "length q mod 32 = 0" "length t < 32"
    by (simp_all add: q_def t_def mod_eq_0_iff_dvd dvd_minus_mod)
  have upd: "wyhash11_update h b = h\<lparr>state11 := stateless_update (state11 h) q,
      buf11 := copy_into (buf11 h) 0 t, buf_len11 := length t\<rparr>"
    using b0 by (simp add: wyhash11_update_def Let_def subslice_def q_def t_def)
  obtain p where p: "data = p" "length p mod 32 = 0" "state11 h = stateless_update (stateless_init s) p"
      "length (buf11 h) = 32"
    using h b0 by (auto simp: absorbed11_def)
  have "stateless_update (state11 h) q = stateless_update (stateless_init s) (p @ q)"
    using p len by (simp add: stateless_update_append)
  moreover have "length (p @ q) mod 32 = 0" using p len by (simp add: mod_eq_0_iff_dvd)
  ultimately show ?thesis
    using p len unfolding upd absorbed11_def
    by (auto simp: b length_copy_into take_0_copy_into intro!: exI [of _ "p @ q"])
qed

lemma absorbed11_buffer:
  assumes h: "absorbed11 s h data" and le: "buf_len11 h + length b < 32"
  shows "absorbed11 s (wyhash11_update h b) (data @ b)"
proof -
  have "wyhash11_update h b =
      h\<lparr>buf11 := copy_into (buf11 h) (buf_len11 h) b, buf_len11 := buf_len11 h + length b\<rparr>"
    using le by (simp add: wyhash11_update_def Let_def subslice_def stateless_update_Nil)
  then show ?thesis
    using h le by (auto simp: absorbed11_def length_copy_into take_copy_into)
qed

lemma absorbed11_flush:
  assumes h: "absorbed11 s h data" and b0: "buf_len11 h \<noteq> 0" and ge: "buf_len11 h + length b \<ge> 32"
  shows "absorbed11 s (wyhash11_update h b) (data @ b)"
proof -
  define off where "off = 32 - buf_len11 h"
  define h' where "h' = (let h = h\<lparr>buf11 := copy_into (buf11 h) (buf_len11 h) (take off b)\<rparr>
     in h\<lparr>state11 := stateless_update (state11 h) (buf11 h), buf_len11 := 0\<rparr>)"
  obtain p where p: "data = p @ take (buf_len11 h) (buf11 h)" "length p mod 32 = 0"
      "state11 h = stateless_update (stateless_init s) p" "length (buf11 h) = 32" "buf_len11 h < 32"
    using h by (auto simp: absorbed11_def)
  have off: "length (take off b) = off" "buf_len11 h + off = 32"
    using ge p(5) by (auto simp: off_def)
  have blk: "copy_into (buf11 h) (buf_len11 h) (take off b) = take (buf_len11 h) (buf11 h) @ take off b"
    using p(4) off by (simp add: copy_into_def)
  have "absorbed11 s h' (data @ take off b)"
    using p off unfolding absorbed11_def h'_def Let_def
    by (auto simp: blk stateless_update_append mod_eq_0_iff_dvd
        intro!: exI [of _ "p @ take (buf_len11 h) (buf11 h) @ take off b"])
  then have "absorbed11 s (wyhash11_update h' (drop off b)) ((data @ take off b) @ drop off b)"
    by (rule absorbed11_update_aligned) (simp add: h'_def)
  moreover have "wyhash11_update h b = wyhash11_update h' (drop off b)"
    using b0 ge by (simp add: wyhash11_update_def h'_def off_def Let_def subslice_def add.commute)
  ultimately show ?thesis by simp
qed

lemma absorbed11_update: "absorbed11 s h data \<Longrightarrow> absorbed11 s (wyhash11_update h b) (data @ b)"
  using absorbed11_update_aligned absorbed11_buffer absorbed11_flush by (metis not_le)

lemma absorbed11_final: "absorbed11 s h data \<Longrightarrow> fst (wyhash11_final h) = wyhash11_hash s data"
proof -
  assume "absorbed11 s h data"
  then obtain p where p: "data = p @ take (buf_len11 h) (buf11 h)" "length p mod 32 = 0"
      "state11 h = stateless_update (stateless_init s) p" "length (buf11 h) = 32" "buf_len11 h < 32"
    by (auto simp: absorbed11_def)
  then have "length data mod 32 = buf_len11 h" "length data - buf_len11 h = length p"
    by (auto simp: mod_add_eq [symmetric])
  then show ?thesis
    using p by (simp add: wyhash11_final_def wyhash11_hash_def stateless_hash_def Let_def
        split: prod.splits)
qed

interpretation w11: streaming_hasher wyhash11_init wyhash11_update "fst \<circ> wyhash11_final"
  wyhash11_hash absorbed11
  by unfold_locales (simp_all add: absorbed11_init absorbed11_update absorbed11_final)

text \<open>
  C40. However the input is cut into chunks, feeding the chunks to a streaming \<^verbatim>\<open>Wyhash11\<close> and
  finishing gives the one-shot \<^verbatim>\<open>Wyhash11::hash\<close> of the whole input: the hash stored in a lockfile
  does not depend on which of the two entry points computed it.
\<close>

theorem wyhash11_stream_eq_oneshot:
  "fst (wyhash11_final (foldl wyhash11_update (wyhash11_init s) chunks)) =
   wyhash11_hash s (concat chunks)"
  using w11.stream_eq_oneshot by simp

section \<open>Wyhash (final4)\<close>

definition SECRET :: "u64 list" where
  "SECRET = [0xa0761d6478bd642f, 0xe7037ed1a0b428db, 0x8ebc6af09c88c6e3, 0x589965cc75374cc3]"

text \<open>\<open>st0\<close>, \<open>st1\<close>, \<open>st2\<close> are the three elements of \<^verbatim>\<open>state\<close>.\<close>

record wyhash =
  wa :: u64
  wb :: u64
  st0 :: u64
  st1 :: u64
  st2 :: u64
  total_len :: nat
  wbuf :: bytes
  wbuf_len :: nat

text \<open>\<^verbatim>\<open>mum_\<close>: the low and the high half of the 128-bit product.\<close>

definition mum_pair :: "u64 \<Rightarrow> u64 \<Rightarrow> u64 \<times> u64" where
  "mum_pair a b = (let x = ucast a * ucast b :: u128 in (ucast x, ucast (drop_bit 64 x)))"

definition mix :: "u64 \<Rightarrow> u64 \<Rightarrow> u64" where
  "mix a b = (let (a, b) = mum_pair a b in a XOR b)"

definition read4 :: "bytes \<Rightarrow> u64" where
  "read4 data = from_le_bytes (take 4 data)"

definition read8 :: "bytes \<Rightarrow> u64" where
  "read8 data = from_le_bytes (take 8 data)"

definition wyhash_init :: "u64 \<Rightarrow> wyhash" where
  "wyhash_init s =
     (let s0 = s XOR mix (s XOR SECRET ! 0) (SECRET ! 1)
      in \<lparr>wa = 0, wb = 0, st0 = s0, st1 = s0, st2 = s0, total_len = 0,
          wbuf = replicate 48 (CHR 0x00), wbuf_len = 0\<rparr>)"

definition wyhash_round :: "wyhash \<Rightarrow> bytes \<Rightarrow> wyhash" where
  "wyhash_round h input =
     (let a0 = read8 input; b0 = read8 (drop 8 input);
          h = h\<lparr>st0 := mix (a0 XOR SECRET ! 1) (b0 XOR st0 h)\<rparr>;
          a1 = read8 (drop 16 input); b1 = read8 (drop 24 input);
          h = h\<lparr>st1 := mix (a1 XOR SECRET ! 2) (b1 XOR st1 h)\<rparr>;
          a2 = read8 (drop 32 input); b2 = read8 (drop 40 input)
      in h\<lparr>st2 := mix (a2 XOR SECRET ! 3) (b2 XOR st2 h)\<rparr>)"

function wyhash_rounds :: "wyhash \<Rightarrow> bytes \<Rightarrow> nat \<Rightarrow> wyhash \<times> nat" where
  "wyhash_rounds h input i =
     (if i + 48 < length input
      then wyhash_rounds (wyhash_round h (subslice input i (i + 48))) input (i + 48)
      else (h, i))"
  by pat_completeness auto
termination
  by (relation "measure (\<lambda>(h, input, i). length input - i)") auto

declare wyhash_rounds.simps [simp del]

definition wyhash_update :: "wyhash \<Rightarrow> bytes \<Rightarrow> wyhash" where
  "wyhash_update h input =
     (let h = h\<lparr>total_len := total_len h + length input\<rparr>
      in if length input \<le> 48 - wbuf_len h then
           h\<lparr>wbuf := copy_into (wbuf h) (wbuf_len h) input, wbuf_len := wbuf_len h + length input\<rparr>
         else
           let (h, i) =
                 (if wbuf_len h > 0 then
                    let i = 48 - wbuf_len h;
                        h = h\<lparr>wbuf := copy_into (wbuf h) (wbuf_len h) (take i input)\<rparr>;
                        h = wyhash_round h (wbuf h)
                    in (h\<lparr>wbuf_len := 0\<rparr>, i)
                  else (h, 0));
               (h, i) = wyhash_rounds h input i;
               remaining_bytes = drop i input;
               h = (if length remaining_bytes < 16 \<and> i \<ge> 48 then
                      let r = 16 - length remaining_bytes
                      in h\<lparr>wbuf := copy_into (wbuf h) (48 - r) (subslice input (i - r) i)\<rparr>
                    else h);
               h = h\<lparr>wbuf := copy_into (wbuf h) 0 remaining_bytes\<rparr>
           in h\<lparr>wbuf_len := length remaining_bytes\<rparr>)"

definition shallow_copy :: "wyhash \<Rightarrow> wyhash" where
  "shallow_copy h = h\<lparr>wbuf := replicate 48 (CHR 0x00), wbuf_len := 0\<rparr>"

definition small_key :: "wyhash \<Rightarrow> bytes \<Rightarrow> wyhash" where
  "small_key h input =
     (if length input \<ge> 4 then
        let e = length input - 4;
            quarter = (length input div 8) * 4
        in h\<lparr>wa := push_bit 32 (read4 input) OR read4 (drop quarter input),
             wb := push_bit 32 (read4 (drop e input)) OR read4 (drop (e - quarter) input)\<rparr>
      else if input \<noteq> [] then
        h\<lparr>wa := push_bit 16 (of_char (input ! 0)) OR push_bit 8 (of_char (input ! (length input div 2)))
                 OR of_char (input ! (length input - 1)),
          wb := 0\<rparr>
      else h\<lparr>wa := 0, wb := 0\<rparr>)"

definition final0 :: "wyhash \<Rightarrow> wyhash" where
  "final0 h = h\<lparr>st0 := st0 h XOR (st1 h XOR st2 h)\<rparr>"

function final1_loop :: "u64 \<Rightarrow> bytes \<Rightarrow> nat \<Rightarrow> u64" where
  "final1_loop s input i =
     (if i + 16 < length input
      then final1_loop (mix (read8 (drop i input) XOR SECRET ! 1) (read8 (drop (i + 8) input) XOR s))
             input (i + 16)
      else s)"
  by pat_completeness auto
termination
  by (relation "measure (\<lambda>(s, input, i). length input - i)") auto

declare final1_loop.simps [simp del]

definition final1 :: "wyhash \<Rightarrow> bytes \<Rightarrow> nat \<Rightarrow> wyhash" where
  "final1 h input_lb start_pos =
     (let input = drop start_pos input_lb;
          h = h\<lparr>st0 := final1_loop (st0 h) input 0\<rparr>
      in h\<lparr>wa := read8 (drop (length input_lb - 16) input_lb),
           wb := read8 (drop (length input_lb - 8) input_lb)\<rparr>)"

definition final2 :: "wyhash \<Rightarrow> u64" where
  "final2 h =
     (let a = wa h XOR SECRET ! 1;
          b = wb h XOR st0 h;
          (a, b) = mum_pair a b
      in mix (a XOR SECRET ! 0 XOR of_nat (total_len h)) (b XOR SECRET ! 1))"

definition wyhash_final :: "wyhash \<Rightarrow> u64" where
  "wyhash_final h =
     (let input = take (wbuf_len h) (wbuf h);
          new_self = shallow_copy h;
          new_self =
            (if total_len h \<le> 16 then small_key new_self input
             else
               let (input, offset) =
                     (if wbuf_len h < 16 then
                        let r = 16 - wbuf_len h
                        in (subslice (wbuf h) (48 - r) 48 @ take (wbuf_len h) (wbuf h), r)
                      else (input, 0))
               in final1 (final0 new_self) input offset)
      in final2 new_self)"

text \<open>
  The hot loop of the one-shot \<^verbatim>\<open>Wyhash::hash\<close> keeps the state in locals and spells the
  multiplication out.
\<close>

definition fold_mul :: "u64 \<Rightarrow> u64 \<Rightarrow> u64" where
  "fold_mul x y =
     (let m = ucast x * ucast y :: u128 in ucast m XOR ucast (drop_bit 64 m))"

function hash_loop :: "bytes \<Rightarrow> nat \<Rightarrow> nat \<Rightarrow> u64 \<times> u64 \<times> u64 \<Rightarrow> nat \<times> u64 \<times> u64 \<times> u64" where
  "hash_loop input bound i (s0, s1, s2) =
     (if i < bound then
        let r8 = (\<lambda>d. from_le_bytes (take 8 (drop (i + d) input)));
            s0 = fold_mul (r8 0 XOR SECRET ! 1) (r8 8 XOR s0);
            s1 = fold_mul (r8 16 XOR SECRET ! 2) (r8 24 XOR s1);
            s2 = fold_mul (r8 32 XOR SECRET ! 3) (r8 40 XOR s2)
        in hash_loop input bound (i + 48) (s0, s1, s2)
      else (i, s0, s1, s2))"
  by pat_completeness auto
termination
  by (relation "measure (\<lambda>(input, bound, i, s). bound - i)") auto

declare hash_loop.simps [simp del]

definition wyhash_hash :: "u64 \<Rightarrow> bytes \<Rightarrow> u64" where
  "wyhash_hash s input =
     (let this = wyhash_init s;
          this =
            (if length input \<le> 16 then small_key this input
             else
               let (this, i) =
                     (if length input \<ge> 48 then
                        let (i, s0, s1, s2) =
                              hash_loop input (length input - 48) 0 (st0 this, st1 this, st2 this)
                        in (final0 (this\<lparr>st0 := s0, st1 := s1, st2 := s2\<rparr>), i)
                      else (this, 0))
               in final1 this input i)
      in final2 (this\<lparr>total_len := length input\<rparr>))"

subsection \<open>The state the rounds work on\<close>

definition core :: "wyhash \<Rightarrow> u64 \<times> u64 \<times> u64" where
  "core h = (st0 h, st1 h, st2 h)"

definition set_core :: "u64 \<times> u64 \<times> u64 \<Rightarrow> wyhash \<Rightarrow> wyhash" where
  "set_core c h = h\<lparr>st0 := fst c, st1 := fst (snd c), st2 := snd (snd c)\<rparr>"

definition round_core :: "u64 \<times> u64 \<times> u64 \<Rightarrow> bytes \<Rightarrow> u64 \<times> u64 \<times> u64" where
  "round_core c b =
     (mix (read8 b XOR SECRET ! 1) (read8 (drop 8 b) XOR fst c),
      mix (read8 (drop 16 b) XOR SECRET ! 2) (read8 (drop 24 b) XOR fst (snd c)),
      mix (read8 (drop 32 b) XOR SECRET ! 3) (read8 (drop 40 b) XOR snd (snd c)))"

lemma set_core_simps [simp]:
  "core (set_core c h) = c" "set_core (core h) h = h" "set_core c (set_core d h) = set_core c h"
  "wbuf (set_core c h) = wbuf h" "wbuf_len (set_core c h) = wbuf_len h"
  "total_len (set_core c h) = total_len h" "wa (set_core c h) = wa h" "wb (set_core c h) = wb h"
  "st0 (set_core c h) = fst c"
  by (simp_all add: set_core_def core_def)

lemma wyhash_round_core: "wyhash_round h b = set_core (round_core (core h) b) h"
  by (simp add: wyhash_round_def set_core_def round_core_def core_def Let_def)

lemma fold_mul_eq_mix: "fold_mul x y = mix x y"
  by (simp add: fold_mul_def mix_def mum_pair_def Let_def)

abbreviation absorb48 :: "u64 \<times> u64 \<times> u64 \<Rightarrow> bytes \<Rightarrow> u64 \<times> u64 \<times> u64" where
  "absorb48 \<equiv> absorb 48 round_core"

lemma absorb48_step:
  "i + 48 \<le> j \<Longrightarrow> j \<le> length input \<Longrightarrow>
   absorb48 c (subslice input i j) =
   absorb48 (round_core c (subslice input i (i + 48))) (subslice input (i + 48) j)"
proof -
  assume le: "i + 48 \<le> j" "j \<le> length input"
  have t: "take 48 (subslice input i j) = subslice input i (i + 48)"
    using le by (simp add: subslice_def min_def)
  have d: "drop 48 (subslice input i j) = subslice input (i + 48) j"
    by (simp add: subslice_def drop_take add.commute)
  have "48 \<le> length (subslice input i j)"
    using le by (simp add: length_subslice)
  then have "absorb48 c (subslice input i j) =
      absorb48 (round_core c (take 48 (subslice input i j))) (drop 48 (subslice input i j))"
    by (rule absorb_step [rotated]) simp
  then show ?thesis by (simp only: t d)
qed

text \<open>
  Both loops stop at the start \<open>j\<close> of the last block, which has between 1 and 48 bytes.
\<close>

definition last_block :: "nat \<Rightarrow> nat \<Rightarrow> nat \<Rightarrow> bool" where
  "last_block n i j \<longleftrightarrow> i \<le> j \<and> j < n \<and> n \<le> j + 48 \<and> (j - i) mod 48 = 0"

lemma last_block_iff:
  "last_block n i j \<longleftrightarrow> (\<exists>q. j = i + 48 * q \<and> j < n \<and> n \<le> j + 48)"
  unfolding last_block_def
  by (metis add_diff_cancel_left' le_add1 le_add_diff_inverse mod_eq_0_iff_dvd dvd_def dvd_triv_left)

lemma last_block_step: "last_block n (i + 48) j \<Longrightarrow> last_block n i j"
  unfolding last_block_iff by (elim exE) (rule_tac x = "Suc q" in exI, simp)

lemma last_block_unique: "last_block n i j \<Longrightarrow> last_block n i k \<Longrightarrow> j = k"
proof -
  assume "last_block n i j" "last_block n i k"
  then obtain q r where "j = i + 48 * q" "j < n" "n \<le> j + 48" "k = i + 48 * r" "k < n" "n \<le> k + 48"
    unfolding last_block_iff by blast
  moreover from this have "q = r" by linarith
  ultimately show ?thesis by simp
qed

lemma wyhash_rounds_absorb:
  "i < length input \<Longrightarrow> \<exists>j. last_block (length input) i j \<and>
     wyhash_rounds h input i = (set_core (absorb48 (core h) (subslice input i j)) h, j)"
proof (induction h input i rule: wyhash_rounds.induct)
  case (1 h input i)
  show ?case
  proof (cases "i + 48 < length input")
    case True
    let ?h = "wyhash_round h (subslice input i (i + 48))"
    obtain j where j: "last_block (length input) (i + 48) j"
        "wyhash_rounds ?h input (i + 48) = (set_core (absorb48 (core ?h) (subslice input (i + 48) j)) ?h, j)"
      using 1 True by blast
    then have "wyhash_rounds h input i = (set_core (absorb48 (core h) (subslice input i j)) h, j)"
      using True absorb48_step [of i j input "core h"]
      by (simp add: wyhash_rounds.simps [of h input i] wyhash_round_core last_block_def)
    then show ?thesis using j last_block_step by blast
  next
    case False
    then show ?thesis
      using "1.prems" by (intro exI [of _ i])
        (simp add: wyhash_rounds.simps [of h input i] last_block_def subslice_def)
  qed
qed

lemma hash_loop_absorb:
  "i < length input \<Longrightarrow> 48 \<le> length input \<Longrightarrow> \<exists>j. last_block (length input) i j \<and>
     hash_loop input (length input - 48) i c = (j, absorb48 c (subslice input i j))"
proof (induction "length input - i" arbitrary: i c rule: less_induct)
  case less
  obtain s0 s1 s2 where c: "c = (s0, s1, s2)" by (cases c)
  show ?case
  proof (cases "i < length input - 48")
    case True
    let ?c = "round_core c (subslice input i (i + 48))"
    have step: "hash_loop input (length input - 48) i c = hash_loop input (length input - 48) (i + 48) ?c"
      using True
      by (simp add: hash_loop.simps [of input _ i] round_core_def fold_mul_eq_mix read8_def
          subslice_def drop_take min_def Let_def c add.commute)
    obtain j where "last_block (length input) (i + 48) j"
        "hash_loop input (length input - 48) (i + 48) ?c = (j, absorb48 ?c (subslice input (i + 48) j))"
    proof -
      have "length input - (i + 48) < length input - i" "i + 48 < length input"
        using True by auto
      from less.hyps [OF this \<open>48 \<le> length input\<close>] show ?thesis using that by blast
    qed
    then show ?thesis
      using step absorb48_step [of i j input c] last_block_step
      by (intro exI [of _ j]) (auto simp: last_block_def)
  next
    case False
    then show ?thesis
      using less.prems by (intro exI [of _ i])
        (simp add: hash_loop.simps [of input _ i] last_block_def subslice_def c)
  qed
qed

subsection \<open>The streaming hasher computes the one-shot hash\<close>

text \<open>
  The buffer holds the last 1 to 48 bytes, and behind them, once blocks \<open>p\<close> have been mixed in,
  the bytes of \<open>p\<close> that complete the buffered ones to 16.
\<close>

definition kept_tail :: "bytes \<Rightarrow> nat \<Rightarrow> bytes \<Rightarrow> bool" where
  "kept_tail p n buf \<longleftrightarrow>
     (p \<noteq> [] \<and> n < 16 \<longrightarrow> drop (32 + n) buf = drop (length p - (16 - n)) p)"

definition absorbed :: "u64 \<Rightarrow> wyhash \<Rightarrow> bytes \<Rightarrow> bool" where
  "absorbed s h data \<longleftrightarrow>
     length (wbuf h) = 48 \<and> wbuf_len h \<le> 48 \<and> total_len h = length data \<and>
     (\<exists>p. data = p @ take (wbuf_len h) (wbuf h) \<and> 48 dvd length p \<and>
          (p \<noteq> [] \<longrightarrow> 0 < wbuf_len h) \<and>
          core h = absorb48 (core (wyhash_init s)) p \<and> kept_tail p (wbuf_len h) (wbuf h))"

lemma absorbed_init: "absorbed s (wyhash_init s) []"
  by (simp add: absorbed_def wyhash_init_def kept_tail_def core_def Let_def)

lemma core_simps [simp]:
  "core (h\<lparr>wbuf := x\<rparr>) = core h" "core (h\<lparr>wbuf_len := k\<rparr>) = core h"
  "core (h\<lparr>total_len := k\<rparr>) = core h"
  by (simp_all add: core_def)

lemma dvd_length_ge: "n dvd length p \<Longrightarrow> p \<noteq> [] \<Longrightarrow> n \<le> length p"
  by (simp add: dvd_imp_le)

lemma kept_tail_buffer:
  assumes "kept_tail p n buf" "48 dvd length p" "n + length b \<le> 48" "length buf = 48"
  shows "kept_tail p (n + length b) (copy_into buf n b)"
proof -
  have "drop (32 + (n + length b)) (copy_into buf n b) = drop (length p - (16 - (n + length b))) p"
    if p: "p \<noteq> []" and lt: "n + length b < 16"
  proof -
    have "48 \<le> length p" using dvd_length_ge assms(2) p by blast
    have "drop (32 + (n + length b)) (copy_into buf n b) = drop (32 + (n + length b)) buf"
      using assms(3,4) by (intro drop_copy_into) auto
    also have "\<dots> = drop (length b) (drop (32 + n) buf)" by (simp add: ac_simps)
    also have "\<dots> = drop (length b) (drop (length p - (16 - n)) p)"
      using assms(1) p lt by (simp add: kept_tail_def)
    also have "\<dots> = drop (length p - (16 - (n + length b))) p"
      using \<open>48 \<le> length p\<close> lt by (simp add: ac_simps)
    finally show ?thesis .
  qed
  then show ?thesis by (simp add: kept_tail_def)
qed

lemma absorbed_buffer:
  assumes "absorbed s h data" "length b \<le> 48 - wbuf_len h"
  shows "absorbed s (wyhash_update h b) (data @ b)"
proof -
  have upd: "wyhash_update h b = h\<lparr>total_len := total_len h + length b,
      wbuf := copy_into (wbuf h) (wbuf_len h) b, wbuf_len := wbuf_len h + length b\<rparr>"
    using assms(2) by (simp add: wyhash_update_def Let_def)
  obtain p where p: "data = p @ take (wbuf_len h) (wbuf h)" "48 dvd length p"
      "p \<noteq> [] \<longrightarrow> 0 < wbuf_len h" "core h = absorb48 (core (wyhash_init s)) p"
      "kept_tail p (wbuf_len h) (wbuf h)"
    and len: "length (wbuf h) = 48" "wbuf_len h \<le> 48" "total_len h = length data"
    using assms(1) by (auto simp: absorbed_def)
  have fit: "wbuf_len h + length b \<le> 48" using assms(2) len by simp
  then have "kept_tail p (wbuf_len h + length b) (copy_into (wbuf h) (wbuf_len h) b)"
    using p len by (intro kept_tail_buffer)
  then show ?thesis
    using p len fit unfolding upd absorbed_def
    by (auto simp: length_copy_into take_copy_into intro!: exI [of _ p])
qed

text \<open>The second branch of \<^verbatim>\<open>update\<close>, as a function of the state after the buffered block.\<close>

definition update_tail :: "wyhash \<Rightarrow> bytes \<Rightarrow> nat \<Rightarrow> wyhash" where
  "update_tail h input j =
     (let r = drop j input;
          buf = (if length r < 16 \<and> j \<ge> 48
                 then copy_into (wbuf h) (48 - (16 - length r)) (subslice input (j - (16 - length r)) j)
                 else wbuf h)
      in h\<lparr>wbuf := copy_into buf 0 r, wbuf_len := length r\<rparr>)"

lemma update_tail_kept:
  assumes len: "length (wbuf h) = 48" and j: "j < length input" "length input \<le> j + 48"
    and p: "p = x @ take j input"
    and small: "j < 48 \<Longrightarrow> p \<noteq> [] \<Longrightarrow> \<exists>y. p = y @ wbuf h"
  shows "kept_tail p (length (drop j input)) (wbuf (update_tail h input j))"
    and "length (wbuf (update_tail h input j)) = 48"
    and "take (length (drop j input)) (wbuf (update_tail h input j)) = drop j input"
proof -
  let ?r = "drop j input" let ?k = "16 - length ?r"
  define buf where "buf = (if length ?r < 16 \<and> j \<ge> 48
     then copy_into (wbuf h) (48 - ?k) (subslice input (j - ?k) j) else wbuf h)"
  have w: "wbuf (update_tail h input j) = copy_into buf 0 ?r"
    by (simp add: update_tail_def buf_def Let_def)
  have lsub: "48 \<le> j \<Longrightarrow> length (subslice input (j - ?k) j) = ?k"
    using j by (auto simp: length_subslice)
  have lb: "length buf = 48"
    using len lsub j by (auto simp: buf_def length_copy_into)
  show "length (wbuf (update_tail h input j)) = 48" using lb j by (simp add: w length_copy_into)
  show "take (length ?r) (wbuf (update_tail h input j)) = ?r"
    using lb j unfolding w by (intro take_0_copy_into) auto
  show "kept_tail p (length ?r) (wbuf (update_tail h input j))"
    unfolding kept_tail_def
  proof (intro impI, elim conjE)
    assume pn: "p \<noteq> []" and lt: "length ?r < 16"
    have k: "32 + length ?r = 48 - ?k" using lt by simp
    have "drop (48 - ?k) (copy_into buf 0 ?r) = drop (48 - ?k) buf"
      using lb lt j by (intro drop_copy_into) auto
    also have "\<dots> = drop (length p - ?k) p"
    proof (cases "48 \<le> j")
      case True
      have "drop (48 - ?k) buf = subslice input (j - ?k) j"
        using True lt len lsub by (simp add: buf_def copy_into_def)
      also have "\<dots> = drop (length p - ?k) p"
        using True j by (simp add: p subslice_def drop_take min_def)
      finally show ?thesis .
    next
      case False
      then obtain y where "p = y @ wbuf h" using small pn by auto
      then show ?thesis using False len by (simp add: buf_def)
    qed
    finally show "drop (32 + length ?r) (wbuf (update_tail h input j)) = drop (length p - ?k) p"
      unfolding w k .
  qed
qed

text \<open>The state after a partly filled buffer has been completed, and how much input that took.\<close>

definition update_head :: "wyhash \<Rightarrow> bytes \<Rightarrow> wyhash \<times> nat" where
  "update_head h input =
     (let h = h\<lparr>total_len := total_len h + length input\<rparr>
      in if wbuf_len h > 0 then
           let i = 48 - wbuf_len h;
               h = h\<lparr>wbuf := copy_into (wbuf h) (wbuf_len h) (take i input)\<rparr>
           in ((wyhash_round h (wbuf h))\<lparr>wbuf_len := 0\<rparr>, i)
         else (h, 0))"

lemma wyhash_update_blocks:
  "length input > 48 - wbuf_len h \<Longrightarrow>
   wyhash_update h input =
   (let (h, i) = update_head h input; (h, j) = wyhash_rounds h input i in update_tail h input j)"
  by (simp add: wyhash_update_def update_head_def update_tail_def Let_def split: prod.splits)

lemma update_head_absorbed:
  assumes a: "absorbed s h data" and gt: "length b > 48 - wbuf_len h"
    and u: "update_head h b = (h1, i)"
  obtains q where "i < length b" "q @ drop i b = data @ b" "\<exists>x. q = x @ take i b" "48 dvd length q"
    "core h1 = absorb48 (core (wyhash_init s)) q" "length (wbuf h1) = 48"
    "total_len h1 = length (data @ b)" "q \<noteq> [] \<longrightarrow> (\<exists>y. q = y @ wbuf h1)" "i < 48"
proof -
  obtain p where p: "data = p @ take (wbuf_len h) (wbuf h)" "48 dvd length p" "p \<noteq> [] \<longrightarrow> 0 < wbuf_len h"
      "core h = absorb48 (core (wyhash_init s)) p"
    and len: "length (wbuf h) = 48" "wbuf_len h \<le> 48" "total_len h = length data"
    using a by (auto simp: absorbed_def)
  show thesis
  proof (cases "wbuf_len h > 0")
    case False
    then show thesis
      using p len u gt by (intro that [of "[]"]) (auto simp: update_head_def Let_def)
  next
    case True
    define blk where "blk = take (wbuf_len h) (wbuf h) @ take i b"
    have i: "i = 48 - wbuf_len h" using u True by (simp add: update_head_def Let_def)
    have lb: "length blk = 48" using len gt i by (simp add: blk_def min_def)
    have "copy_into (wbuf h) (wbuf_len h) (take i b) = blk"
      using len gt i by (simp add: copy_into_def blk_def)
    then have h1: "wbuf h1 = blk" "core h1 = round_core (core h) blk" "total_len h1 = length data + length b"
      using u True len i by (auto simp: update_head_def wyhash_round_core Let_def)
    have "core h1 = absorb48 (core (wyhash_init s)) (p @ blk)"
      using h1 p lb by (simp add: absorb_append absorb_one)
    then show thesis
      using h1 p lb gt i True len
      by (intro that [of "p @ blk"]) (auto simp: blk_def intro: exI [of _ "p @ take (wbuf_len h) (wbuf h)"])
  qed
qed

lemma absorbed_blocks:
  assumes a: "absorbed s h data" and gt: "length b > 48 - wbuf_len h"
  shows "absorbed s (wyhash_update h b) (data @ b)"
proof -
  obtain h1 i where u: "update_head h b = (h1, i)" by (cases "update_head h b")
  obtain q x where q: "i < length b" "q @ drop i b = data @ b" "q = x @ take i b" "48 dvd length q"
      "core h1 = absorb48 (core (wyhash_init s)) q" "length (wbuf h1) = 48"
      "total_len h1 = length (data @ b)" "q \<noteq> [] \<longrightarrow> (\<exists>y. q = y @ wbuf h1)" "i < 48"
    using update_head_absorbed [OF a gt u] by metis
  obtain j where j: "last_block (length b) i j"
      "wyhash_rounds h1 b i = (set_core (absorb48 (core h1) (subslice b i j)) h1, j)"
    using wyhash_rounds_absorb [OF q(1), of h1] by blast
  define h2 where "h2 = set_core (absorb48 (core h1) (subslice b i j)) h1"
  define q2 where "q2 = x @ take j b"
  have jb: "i \<le> j" "j < length b" "length b \<le> j + 48" "48 dvd (j - i)"
    using j by (auto simp: last_block_def mod_eq_0_iff_dvd)
  have q2: "q2 = q @ subslice b i j"
    using jb take_add [of i "j - i" b] by (simp add: q2_def q(3) subslice_def)
  have small: "\<exists>y. q2 = y @ wbuf h2" if "j < 48" "q2 \<noteq> []"
  proof -
    have "j = i" using that jb by (meson dvd_imp_le le_antisym less_imp_diff_less not_less zero_less_diff)
    then show ?thesis using that q(3,8) by (simp add: h2_def q2_def)
  qed
  note tl = update_tail_kept [of h2 j b q2 x, OF _ jb(2,3) q2_def small]
  have "wyhash_update h b = update_tail h2 b j"
    using gt j u by (simp add: wyhash_update_blocks h2_def)
  moreover have "length q2 = length q + (j - i)" using jb by (simp add: q2 length_subslice)
  then have "48 dvd length q2" using q(4) jb(4) by (metis dvd_add)
  moreover have "core h2 = absorb48 (core (wyhash_init s)) q2"
    by (simp add: h2_def q2 absorb_append [OF q(4)] q(5))
  moreover have "data @ b = q2 @ drop j b"
    using q(2,3) jb by (simp add: q2_def flip: append_assoc q(2)) (simp add: q(3))
  moreover have "total_len h2 = length (data @ b)" "length (wbuf h2) = 48"
    using q by (auto simp: h2_def)
  ultimately show ?thesis
    using jb tl unfolding absorbed_def
    by (auto simp: update_tail_def Let_def intro!: exI [of _ q2])
qed

lemma absorbed_update: "absorbed s h data \<Longrightarrow> absorbed s (wyhash_update h b) (data @ b)"
  using absorbed_buffer absorbed_blocks by (metis not_le)

lemma final1_cong:
  assumes "16 \<le> length x" "16 \<le> length y" "drop i x = drop j y" "core h = core g"
    "drop (length x - 16) x = drop (length y - 16) y" "total_len h = total_len g"
  shows "final2 (final1 h x i) = final2 (final1 g y j)"
proof -
  have "drop (length z - 8) z = drop 8 (drop (length z - 16) z)" if "16 \<le> length z" for z :: bytes
    using that by (simp add: Suc_diff_le)
  then have "drop (length x - 8) x = drop (length y - 8) y" using assms by metis
  then show ?thesis
    using assms by (simp add: final1_def final2_def core_def Let_def)
qed

lemma final0_fields [simp]: "total_len (final0 h) = total_len h"
  "core h = core g \<Longrightarrow> core (final0 h) = core (final0 g)"
  by (simp_all add: final0_def core_def)

lemma final0_init: "final0 (wyhash_init s) = wyhash_init s"
  by (simp add: final0_def wyhash_init_def Let_def)

lemma final2_fields:
  "final2 ((final1 h x i)\<lparr>total_len := n\<rparr>) = final2 (final1 (h\<lparr>total_len := n\<rparr>) x i)"
  by (simp add: final1_def final2_def Let_def split: prod.splits)

text \<open>The one-shot hash of more than 16 bytes, with the blocks \<open>p\<close> before the last one named.\<close>

lemma wyhash_hash_blocks:
  assumes "16 < length (p @ r)" "48 dvd length p" "r \<noteq> []" "length r \<le> 48"
  shows "wyhash_hash s (p @ r) =
    final2 (final1 ((final0 (set_core (absorb48 (core (wyhash_init s)) p) (wyhash_init s)))
      \<lparr>total_len := length (p @ r)\<rparr>) (p @ r) (length p))"
proof -
  have lb: "last_block (length (p @ r)) 0 (length p)"
    using assms by (auto simp: last_block_iff dvd_def)
  show ?thesis
  proof (cases "48 \<le> length (p @ r)")
    case True
    obtain j where "last_block (length (p @ r)) 0 j"
      "hash_loop (p @ r) (length (p @ r) - 48) 0 (core (wyhash_init s)) =
        (j, absorb48 (core (wyhash_init s)) (subslice (p @ r) 0 j))"
      using hash_loop_absorb [of 0 "p @ r" "core (wyhash_init s)"] True assms(3) by auto
    moreover from this have "j = length p" using lb last_block_unique by blast
    ultimately show ?thesis
      using True assms(1)
      by (simp add: wyhash_hash_def core_def subslice_def set_core_def Let_def final2_fields
          split: prod.splits)
  next
    case False
    then have "p = []" using assms(2) dvd_length_ge [of 48 p] by fastforce
    then show ?thesis
      using False assms(1) by (simp add: wyhash_hash_def final0_init final2_fields Let_def)
  qed
qed

lemma absorbed_final:
  assumes "absorbed s h data"
  shows "wyhash_final h = wyhash_hash s data"
proof -
  define r where "r = take (wbuf_len h) (wbuf h)"
  obtain p where p: "data = p @ r" "48 dvd length p" "p \<noteq> [] \<longrightarrow> 0 < wbuf_len h"
      "core h = absorb48 (core (wyhash_init s)) p" "kept_tail p (wbuf_len h) (wbuf h)"
    and len: "length (wbuf h) = 48" "wbuf_len h \<le> 48" "total_len h = length data"
    using assms by (auto simp: absorbed_def r_def)
  have lr: "length r = wbuf_len h" using len by (simp add: r_def)
  show ?thesis
  proof (cases "length data \<le> 16")
    case True
    then have "p = []" using p dvd_length_ge [of 48 p] by fastforce
    then show ?thesis
      using True p len lr
      by (simp add: wyhash_final_def wyhash_hash_def shallow_copy_def small_key_def final2_def core_def
          Let_def flip: r_def)
  next
    case False
    have rn: "r \<noteq> []" using False p lr by (cases "p = []") auto
    define x where "x = (if wbuf_len h < 16 then subslice (wbuf h) (48 - (16 - wbuf_len h)) 48 @ r else r)"
    define k where "k = (if wbuf_len h < 16 then 16 - wbuf_len h else 0)"
    have fin: "wyhash_final h = final2 (final1 (final0 (shallow_copy h)) x k)"
      using False len by (simp add: wyhash_final_def x_def k_def r_def Let_def)
    have pn: "wbuf_len h < 16 \<Longrightarrow> p \<noteq> [] \<and> 48 \<le> length p"
      using False p lr dvd_length_ge [of 48 p] by auto
    have x: "16 \<le> length x" "drop k x = r" "drop (length x - 16) x = drop (length data - 16) data"
    proof -
      show "16 \<le> length x" "drop k x = r"
        using len lr by (auto simp: x_def k_def length_subslice)
      show "drop (length x - 16) x = drop (length data - 16) data"
        using p(1,5) len lr pn
        by (cases "wbuf_len h < 16") (auto simp: x_def kept_tail_def subslice_def)
    qed
    have "core (shallow_copy h) = core h" by (simp add: shallow_copy_def core_def)
    then have "final2 (final1 (final0 (shallow_copy h)) x k) =
      final2 (final1 ((final0 (set_core (absorb48 (core (wyhash_init s)) p) (wyhash_init s)))
        \<lparr>total_len := length (p @ r)\<rparr>) data (length p))"
      using x False p len by (intro final1_cong) (auto simp: shallow_copy_def)
    then show ?thesis
      using wyhash_hash_blocks [of p r s] False p(1,2) rn lr len by (simp add: fin)
  qed
qed

interpretation w4: streaming_hasher wyhash_init wyhash_update wyhash_final wyhash_hash absorbed
  by unfold_locales (simp_all add: absorbed_init absorbed_update absorbed_final)

text \<open>
  C32. Streaming \<^verbatim>\<open>Wyhash\<close> is chunk-invariant and agrees with the one-shot \<^verbatim>\<open>Wyhash::hash\<close>, although
  it keeps up to 16 bytes of already consumed blocks in its buffer and mixes the last full block
  only when it is finished.
\<close>

theorem wyhash_stream_eq_oneshot:
  "wyhash_final (foldl wyhash_update (wyhash_init s) chunks) = wyhash_hash s (concat chunks)"
  by (rule w4.stream_eq_oneshot)

section \<open>Entry points\<close>

definition hash :: "bytes \<Rightarrow> u64" where
  "hash bs = wyhash_hash 0 bs"

definition hash32 :: "bytes \<Rightarrow> u32" where
  "hash32 bs = ucast (hash bs)"

definition hash_with_seed :: "u64 \<Rightarrow> bytes \<Rightarrow> u64" where
  "hash_with_seed s bs = wyhash_hash s bs"

function lowercase_loop :: "wyhash \<Rightarrow> bytes \<Rightarrow> wyhash" where
  "lowercase_loop h remain =
     (if remain \<noteq> [] then
        let n = min (length remain) 48
        in lowercase_loop (wyhash_update h (map to_ascii_lowercase (take n remain))) (drop n remain)
      else h)"
  by pat_completeness auto
termination
  by (relation "measure (\<lambda>(h, remain). length remain)") (auto simp: Let_def)

declare lowercase_loop.simps [simp del]

definition hash_ascii_lowercase :: "u64 \<Rightarrow> bytes \<Rightarrow> u64" where
  "hash_ascii_lowercase s bs =
     (if length bs \<le> 48 then wyhash_hash s (map to_ascii_lowercase bs)
      else wyhash_final (lowercase_loop (wyhash_init s) bs))"

text \<open>
  \<^verbatim>\<open>hash_const\<close>: the same algorithm written a second time for compile-time evaluation, indexing the
  input instead of slicing it.
\<close>

definition cread4 :: "bytes \<Rightarrow> nat \<Rightarrow> u64" where
  "cread4 d i = from_le_bytes [d ! i, d ! (i + 1), d ! (i + 2), d ! (i + 3)]"

definition cread8 :: "bytes \<Rightarrow> nat \<Rightarrow> u64" where
  "cread8 d i = from_le_bytes [d ! i, d ! (i + 1), d ! (i + 2), d ! (i + 3),
     d ! (i + 4), d ! (i + 5), d ! (i + 6), d ! (i + 7)]"

definition cmix :: "u64 \<Rightarrow> u64 \<Rightarrow> u64" where
  "cmix a b = (let x = ucast a * ucast b :: u128 in ucast x XOR ucast (drop_bit 64 x))"

function const_rounds :: "bytes \<Rightarrow> nat \<Rightarrow> u64 \<times> u64 \<times> u64 \<Rightarrow> nat \<times> u64 \<times> u64 \<times> u64" where
  "const_rounds input i (s0, s1, s2) =
     (if i + 48 < length input then
        const_rounds input (i + 48)
          (cmix (cread8 input i XOR SECRET ! 1) (cread8 input (i + 8) XOR s0),
           cmix (cread8 input (i + 16) XOR SECRET ! 2) (cread8 input (i + 24) XOR s1),
           cmix (cread8 input (i + 32) XOR SECRET ! 3) (cread8 input (i + 40) XOR s2))
      else (i, s0, s1, s2))"
  by pat_completeness auto
termination
  by (relation "measure (\<lambda>(input, i, s). length input - i)") auto

function const_final1 :: "bytes \<Rightarrow> nat \<Rightarrow> u64 \<Rightarrow> u64" where
  "const_final1 input j s =
     (if j + 16 < length input
      then const_final1 input (j + 16)
             (cmix (cread8 input j XOR SECRET ! 1) (cread8 input (j + 8) XOR s))
      else s)"
  by pat_completeness auto
termination
  by (relation "measure (\<lambda>(input, j, s). length input - j)") auto

declare const_rounds.simps [simp del] const_final1.simps [simp del]

definition hash_const :: "u64 \<Rightarrow> bytes \<Rightarrow> u64" where
  "hash_const s input =
     (let s0 = s XOR cmix (s XOR SECRET ! 0) (SECRET ! 1);
          len = length input;
          (a, b, state0) =
            (if len \<le> 16 then
               if len \<ge> 4 then
                 let e = len - 4; quarter = (len div 8) * 4
                 in (push_bit 32 (cread4 input 0) OR cread4 input quarter,
                     push_bit 32 (cread4 input e) OR cread4 input (e - quarter), s0)
               else if len > 0 then
                 (push_bit 16 (of_char (input ! 0)) OR push_bit 8 (of_char (input ! (len div 2)))
                    OR of_char (input ! (len - 1)), 0, s0)
               else (0, 0, s0)
             else
               let (i, s0) =
                     (if len \<ge> 48 then
                        let (i, t0, t1, t2) = const_rounds input 0 (s0, s0, s0)
                        in (i, t0 XOR (t1 XOR t2))
                      else (0, s0))
               in (cread8 input (len - 16), cread8 input (len - 8), const_final1 input i s0));
          x = ucast (a XOR SECRET ! 1) * ucast (b XOR state0) :: u128
      in cmix (ucast x XOR SECRET ! 0 XOR of_nat len) (ucast (drop_bit 64 x) XOR SECRET ! 1))"

text \<open>\<^verbatim>\<open>hash_int\<close> on \<^verbatim>\<open>u32\<close>.\<close>

definition hash_int :: "u32 \<Rightarrow> u32" where
  "hash_int x =
     (let x = (x XOR drop_bit 17 x) * 0xed5ad4bb;
          x = (x XOR drop_bit 11 x) * 0xac4c1b51;
          x = (x XOR drop_bit 15 x) * 0x31848bab
      in x XOR drop_bit 14 x)"

subsection \<open>Lowercased hashing\<close>

lemma lowercase_loop_chunks:
  "absorbed s h data \<Longrightarrow> absorbed s (lowercase_loop h bs) (data @ map to_ascii_lowercase bs)"
proof (induction h bs arbitrary: data rule: lowercase_loop.induct)
  case (1 h bs)
  let ?n = "min (length bs) 48"
  show ?case
  proof (cases "bs = []")
    case False
    have "absorbed s (wyhash_update h (map to_ascii_lowercase (take ?n bs)))
        (data @ map to_ascii_lowercase (take ?n bs))"
      using "1.prems" by (rule absorbed_update)
    from "1.IH" [OF False refl this]
    have "absorbed s (lowercase_loop h bs) ((data @ map to_ascii_lowercase (take ?n bs)) @
        map to_ascii_lowercase (drop ?n bs))"
      using False by (simp add: lowercase_loop.simps [of h bs] Let_def)
    then show ?thesis by (simp flip: map_append)
  next
    case True
    then show ?thesis using "1.prems" by (simp add: lowercase_loop.simps [of h "[]"])
  qed
qed

text \<open>
  \<^verbatim>\<open>hash_ascii_lowercase\<close>, which streams the lowercased bytes through a 48-byte scratch buffer
  when the input is longer than that, is the one-shot hash of the lowercased input: the map keys of
  the case-insensitive tables do not depend on the length of the key.
\<close>

theorem hash_ascii_lowercase_eq:
  "hash_ascii_lowercase s bs = wyhash_hash s (map to_ascii_lowercase bs)"
  using lowercase_loop_chunks [OF absorbed_init, of s bs]
  by (simp add: hash_ascii_lowercase_def absorbed_final)

subsection \<open>The compile-time variant\<close>

lemma cmix_eq: "cmix = mix"
  by (intro ext) (simp add: cmix_def mix_def mum_pair_def Let_def)

lemma take_nths8:
  "i + 8 \<le> length d \<Longrightarrow> take 8 (drop i d) =
     [d ! i, d ! (i + 1), d ! (i + 2), d ! (i + 3), d ! (i + 4), d ! (i + 5), d ! (i + 6), d ! (i + 7)]"
  by (rule nth_equalityI) (auto simp: less_Suc_eq numeral_eq_Suc nth_Cons split: nat.splits)

lemma take_nths4:
  "i + 4 \<le> length d \<Longrightarrow> take 4 (drop i d) = [d ! i, d ! (i + 1), d ! (i + 2), d ! (i + 3)]"
  by (rule nth_equalityI) (auto simp: less_Suc_eq numeral_eq_Suc nth_Cons split: nat.splits)

lemma cread8_eq: "i + 8 \<le> length d \<Longrightarrow> cread8 d i = read8 (drop i d)"
  by (simp add: cread8_def read8_def take_nths8)

lemma cread4_eq: "i + 4 \<le> length d \<Longrightarrow> cread4 d i = read4 (drop i d)"
  by (simp add: cread4_def read4_def take_nths4)

lemma const_rounds_eq:
  "48 \<le> length input \<Longrightarrow> const_rounds input i c = hash_loop input (length input - 48) i c"
proof (induction input i c rule: const_rounds.induct)
  case (1 input i s0 s1 s2)
  show ?case
  proof (cases "i + 48 < length input")
    case True
    then have "i < length input - 48" by simp
    then show ?thesis
      using 1 True
      by (simp add: const_rounds.simps [of input i] hash_loop.simps [of input _ i] cread8_eq read8_def
          cmix_eq fold_mul_eq_mix Let_def)
  next
    case False
    then have "\<not> i < length input - 48" by simp
    with False show ?thesis
      by (simp add: const_rounds.simps [of input i] hash_loop.simps [of input _ i])
  qed
qed

lemma const_final1_eq: "const_final1 input (i + j) s = final1_loop s (drop i input) j"
proof (induction "length input - (i + j)" arbitrary: j s rule: less_induct)
  case less
  show ?case
  proof (cases "i + j + 16 < length input")
    case True
    then have lt: "length input - (i + (j + 16)) < length input - (i + j)"
      and "j + 16 < length input - i" by auto
    have "const_final1 input (i + j) s = const_final1 input (i + (j + 16))
        (mix (read8 (drop (i + j) input) XOR SECRET ! 1) (read8 (drop (i + j + 8) input) XOR s))"
      using True by (subst const_final1.simps) (simp add: cread8_eq cmix_eq add.assoc)
    also have "\<dots> = final1_loop s (drop i input) j"
      using \<open>j + 16 < length input - i\<close> less.hyps [OF lt] by (simp add: final1_loop.simps [of s "drop i input" j] ac_simps)
    finally show ?thesis .
  next
    case False
    then have "\<not> j + 16 < length input - i" by simp
    with False show ?thesis
      by (simp add: const_final1.simps [of input "i + j"] final1_loop.simps [of s "drop i input" j])
  qed
qed

text \<open>
  The compile-time \<^verbatim>\<open>hash_const\<close>, a second implementation written to be usable in a \<^verbatim>\<open>const fn\<close>,
  agrees with the runtime \<^verbatim>\<open>Wyhash::hash\<close> for every seed and every input.
\<close>

theorem hash_const_eq: "hash_const s input = wyhash_hash s input"
proof -
  define len where "len = length input"
  consider "len < 4" | "4 \<le> len" "len \<le> 16" | "16 < len" "len < 48" | "48 \<le> len" by linarith
  then show ?thesis
  proof cases
    case 1
    then show ?thesis
      by (simp add: hash_const_def wyhash_hash_def small_key_def final2_def wyhash_init_def cmix_eq
          mum_pair_def Let_def len_def)
  next
    case 2
    have "n \<ge> 4 \<Longrightarrow> n div 8 * 4 + 4 \<le> n" for n :: nat by presburger
    with 2 have "length input div 8 * 4 + 4 \<le> length input" by (simp add: len_def)
    with 2 show ?thesis
      by (simp add: hash_const_def wyhash_hash_def small_key_def final2_def wyhash_init_def cmix_eq
          mum_pair_def Let_def cread4_eq len_def)
  next
    case 3
    then show ?thesis
      by (simp add: hash_const_def wyhash_hash_def final1_def final2_def wyhash_init_def cmix_eq
          mum_pair_def Let_def cread8_eq const_final1_eq [of _ 0, simplified] len_def)
  next
    case 4
    then show ?thesis
      using const_final1_eq [of input _ 0]
      by (simp add: hash_const_def wyhash_hash_def final0_def final1_def final2_def wyhash_init_def
          cmix_eq mum_pair_def Let_def cread8_eq const_rounds_eq len_def split: prod.splits)
  qed
qed

end
