(* ===== verification/SemverString.thy ===== *)
theory SemverString
  imports Core_Strings Wyhash
begin

text \<open>
  The string handles of \<^verbatim>\<open>src/semver/lib.rs\<close>: \<^verbatim>\<open>semver_string::String\<close> packs a string of up to eight
  bytes into the handle itself and a longer one as an offset and a length into a buffer that the
  handle's owner keeps (the lockfile's string bytes). The theory \<^verbatim>\<open>StringStore\<close>
  has the two ways of filling such a buffer.

  A Rust slice \<^verbatim>\<open>in_\<close> of \<^verbatim>\<open>buf\<close> is given by its offset in \<^verbatim>\<open>buf\<close> (the pointer difference the source
  computes) and its bytes. Buffers are smaller than 4 GiB where a lemma says so: the packed offset
  is a \<^verbatim>\<open>u32\<close> and the packed length has 31 bits.
\<close>

section \<open>Packed pointers\<close>

record pointer =
  off :: u32
  len :: u32

definition pointer_init :: "nat \<Rightarrow> bytes \<Rightarrow> pointer" where
  "pointer_init start src = \<lparr>off = of_nat start, len = of_nat (length src)\<rparr>"

definition to_bits :: "pointer \<Rightarrow> u64" where
  "to_bits p = from_le_bytes (to_le_bytes 4 (off p) @ to_le_bytes 4 (len p))"

definition from_bits :: "u64 \<Rightarrow> pointer" where
  "from_bits bits =
     (let b = to_le_bytes 8 bits
      in \<lparr>off = ucast (from_le_bytes (take 4 b)), len = ucast (from_le_bytes (drop 4 b))\<rparr>)"

definition MAX_ADDRESSABLE_SPACE_MASK :: u64 where
  "MAX_ADDRESSABLE_SPACE_MASK = push_bit 63 1 - 1"

section \<open>Handles\<close>

text \<open>\<^verbatim>\<open>semver_string::String\<close>: eight bytes.\<close>

record sstring =
  raw :: bytes

definition MAX_INLINE_LEN :: nat where
  "MAX_INLINE_LEN = 8"

definition EMPTY :: sstring where
  "EMPTY = \<lparr>raw = replicate 8 (CHR 0x00)\<rparr>"

text \<open>The arms \<^verbatim>\<open>[in_[0], .., in_[k], 0, .., 0]\<close> of \<^verbatim>\<open>init\<close>, for \<open>k < 8\<close>.\<close>

definition inline_bytes :: "bytes \<Rightarrow> sstring" where
  "inline_bytes src = \<lparr>raw = src @ replicate (8 - length src) (CHR 0x00)\<rparr>"

definition packed :: "pointer \<Rightarrow> sstring" where
  "packed p =
     \<lparr>raw = to_le_bytes 8 ((to_bits p AND MAX_ADDRESSABLE_SPACE_MASK) OR push_bit 63 1)\<rparr>"

definition string_init :: "nat \<Rightarrow> bytes \<Rightarrow> sstring" where
  "string_init start src =
     (if length src < MAX_INLINE_LEN then inline_bytes src
      else if length src = MAX_INLINE_LEN then
        (if of_char (src ! (MAX_INLINE_LEN - 1)) \<ge> (128::nat) then packed (pointer_init start src)
         else inline_bytes src)
      else packed (pointer_init start src))"

definition can_inline :: "bytes \<Rightarrow> bool" where
  "can_inline buf \<longleftrightarrow>
     length buf < MAX_INLINE_LEN
     \<or> length buf = MAX_INLINE_LEN \<and> of_char (buf ! (MAX_INLINE_LEN - 1)) AND 0x80 = (0::nat)"

definition init_inline :: "bytes \<Rightarrow> sstring" where
  "init_inline src = inline_bytes src"

definition is_inline :: "sstring \<Rightarrow> bool" where
  "is_inline s \<longleftrightarrow> of_char (raw s ! (MAX_INLINE_LEN - 1)) AND 0x80 = (0::nat)"

definition trailing_zeros :: "u64 \<Rightarrow> nat" where
  "trailing_zeros w = length (takeWhile (\<lambda>i. \<not> bit w i) [0..<64])"

definition inline_len :: "sstring \<Rightarrow> nat" where
  "inline_len s =
     (let bits = from_le_bytes (raw s);
          zero_bytes = (bits - 0x0101010101010101) AND NOT bits AND 0x8080808080808080
      in trailing_zeros zero_bytes div 8)"

definition ptr :: "sstring \<Rightarrow> pointer" where
  "ptr s = from_bits (from_le_bytes (raw s) AND MAX_ADDRESSABLE_SPACE_MASK)"

definition string_is_empty :: "sstring \<Rightarrow> bool" where
  "string_is_empty s \<longleftrightarrow> from_le_bytes (raw s) = 0"

definition string_len :: "sstring \<Rightarrow> nat" where
  "string_len s =
     (if of_char (raw s ! (MAX_INLINE_LEN - 1)) AND 128 = (0::nat) then inline_len s
      else unat (len (ptr s)))"

text \<open>\<^verbatim>\<open>buf.get(a..a + n)\<close>\<close>

definition get_range :: "bytes \<Rightarrow> nat \<Rightarrow> nat \<Rightarrow> bytes option" where
  "get_range buf a n = (if a + n \<le> length buf then Some (subslice buf a (a + n)) else None)"

definition string_slice :: "sstring \<Rightarrow> bytes \<Rightarrow> bytes" where
  "string_slice s buf =
     (if of_char (raw s ! (MAX_INLINE_LEN - 1)) AND 128 = (0::nat) then take (inline_len s) (raw s)
      else case get_range buf (unat (off (ptr s))) (unat (len (ptr s))) of
             Some x \<Rightarrow> x | None \<Rightarrow> [])"

definition is_within :: "sstring \<Rightarrow> bytes \<Rightarrow> bool" where
  "is_within s buf \<longleftrightarrow>
     is_inline s \<or> unat (off (ptr s)) + unat (len (ptr s)) \<le> length buf"

definition string_order :: "sstring \<Rightarrow> sstring \<Rightarrow> bytes \<Rightarrow> bytes \<Rightarrow> ordering" where
  "string_order lhs rhs lhs_buf rhs_buf = order (string_slice lhs lhs_buf) (string_slice rhs rhs_buf)"

definition string_eql :: "sstring \<Rightarrow> sstring \<Rightarrow> bytes \<Rightarrow> bytes \<Rightarrow> bool" where
  "string_eql this that this_buf that_buf =
     (if is_inline this \<and> is_inline that then from_le_bytes (raw this) = from_le_bytes (raw that)
      else if is_inline this \<noteq> is_inline that then False
      else
        let a = ptr this; b = ptr that
        in case (get_range this_buf (unat (off a)) (unat (len a)),
                 get_range that_buf (unat (off b)) (unat (len b))) of
             (Some x, Some y) \<Rightarrow> x = y
           | _ \<Rightarrow> False)"

subsection \<open>The byte scan of \<^verbatim>\<open>inline_len\<close>\<close>

text \<open>
  \<^verbatim>\<open>inline_len\<close> finds the first NUL byte with one subtraction over all eight bytes. The lemmas
  follow the borrow byte by byte, on integers of any number of bytes.
\<close>

fun ones :: "nat \<Rightarrow> int" where
  "ones 0 = 0"
| "ones (Suc n) = 1 + 256 * ones n"

definition zero_mask :: "nat \<Rightarrow> int \<Rightarrow> int" where
  "zero_mask n v = (v - ones n) AND NOT v AND (128 * ones n)"

lemma bit_byte_split:
  assumes "0 \<le> x" "x < (256::int)"
  shows "bit (x + 256 * y) k \<longleftrightarrow> (if k < 8 then bit x k else bit y (k - 8))"
proof -
  have "x + 256 * y = concat_bit 8 x y"
    using assms by (simp add: concat_bit_eq push_bit_eq_mult take_bit_int_eq_self)
  then show ?thesis by (simp add: bit_concat_bit_iff)
qed

lemma bit_7_byte: "0 \<le> x \<Longrightarrow> x < (256::int) \<Longrightarrow> bit x 7 \<longleftrightarrow> 128 \<le> x"
proof -
  assume "0 \<le> x" "x < 256"
  then have "x div 128 = (if 128 \<le> x then 1 else 0)" by (simp, linarith)
  then show ?thesis by (simp add: bit_iff_odd)
qed

lemma zero_mask_step:
  assumes "0 < b" "b < (256::int)"
  shows "bit (zero_mask (Suc n) (b + 256 * v)) k \<longleftrightarrow> 8 \<le> k \<and> bit (zero_mask n v) (k - 8)"
proof -
  have sub: "b + 256 * v - ones (Suc n) = (b - 1) + 256 * (v - ones n)" by simp
  have hi: "128 * ones (Suc n) = 128 + 256 * (128 * ones n)" by simp
  have "\<not> (bit (b - 1) k \<and> \<not> bit b k \<and> bit (128::int) k)" for k
  proof (cases "k = 7")
    case True
    have "bit (b - 1) 7 \<longleftrightarrow> 128 \<le> b - 1" "bit b 7 \<longleftrightarrow> 128 \<le> b"
      using assms by (auto simp: bit_7_byte)
    then show ?thesis using True by simp
  next
    case False
    then show ?thesis using bit_push_bit_iff [of 7 "1::int" k] by (auto simp: push_bit_eq_mult bit_1_iff)
  qed
  moreover have "bit (b + 256 * v - ones (Suc n)) k \<longleftrightarrow> (if k < 8 then bit (b - 1) k else bit (v - ones n) (k - 8))"
    unfolding sub by (rule bit_byte_split) (use assms in auto)
  moreover have "bit (128 * ones (Suc n)) k \<longleftrightarrow> (if k < 8 then bit (128::int) k else bit (128 * ones n) (k - 8))"
    unfolding hi by (rule bit_byte_split) auto
  moreover have "bit (b + 256 * v) k \<longleftrightarrow> (if k < 8 then bit b k else bit v (k - 8))"
    by (rule bit_byte_split) (use assms in auto)
  ultimately show ?thesis
    unfolding zero_mask_def bit_and_iff bit_not_iff by (auto simp del: ones.simps)
qed

lemma zero_mask_NUL: "k \<le> 7 \<Longrightarrow> bit (zero_mask (Suc n) (256 * v)) k \<longleftrightarrow> k = 7"
proof -
  assume k: "k \<le> 7"
  have sub: "256 * v - ones (Suc n) = 255 + 256 * (v - ones n - 1)" by simp
  have hi: "128 * ones (Suc n) = 128 + 256 * (128 * ones n)" by simp
  have "k = 0 \<or> k = 1 \<or> k = 2 \<or> k = 3 \<or> k = 4 \<or> k = 5 \<or> k = 6 \<or> k = 7" using k by linarith
  then have "bit (255::int) k" by auto
  moreover have "bit (128::int) k \<longleftrightarrow> k = 7"
    using bit_push_bit_iff [of 7 "1::int" k] by (auto simp: push_bit_eq_mult bit_1_iff)
  moreover have "\<not> bit (0 + 256 * v) k" using k by (subst bit_byte_split) auto
  moreover have "bit (256 * v - ones (Suc n)) k \<longleftrightarrow> bit (255::int) k"
    unfolding sub using k by (subst bit_byte_split) auto
  moreover have "bit (128 * ones (Suc n)) k \<longleftrightarrow> bit (128::int) k"
    unfolding hi using k by (subst bit_byte_split) auto
  ultimately show ?thesis
    unfolding zero_mask_def bit_and_iff bit_not_iff by (auto simp del: ones.simps)
qed

lemma takeWhile_byte_clear:
  assumes "\<And>k. k < 8 \<Longrightarrow> P k"
  shows "length (takeWhile P [0..<8 * Suc n]) = 8 + length (takeWhile (\<lambda>k. P (k + 8)) [0..<8 * n])"
proof -
  have "[0..<8 * Suc n] = [0..<8] @ map (\<lambda>k. k + 8) [0..<8 * n]"
    using upt_add_eq_append [of 0 8 "8 * n"] by (simp add: map_add_upt add.commute)
  moreover have "takeWhile P ([0..<8] @ ys) = [0..<8] @ takeWhile P ys" for ys
    using assms by (intro takeWhile_append2) simp
  ultimately show ?thesis by (simp add: takeWhile_map comp_def)
qed

lemma takeWhile_byte_hit:
  assumes "\<And>k. k < 7 \<Longrightarrow> P k" "\<not> P 7"
  shows "length (takeWhile P [0..<8 * Suc n]) = 7"
proof -
  have "[0..<8 * Suc n] = [0..<7] @ 7 # [8..<8 * Suc n]"
    using upt_add_eq_append [of 0 7 "1 + 8 * n"] upt_conv_Cons [of 7 "8 + 8 * n"] by simp
  then have "takeWhile P [0..<8 * Suc n] = takeWhile P [0..<7]"
    using takeWhile_tail [of P 7 "[0..<7]", OF assms(2)] by (simp only:)
  also have "\<dots> = [0..<7]" using assms(1) by (simp add: takeWhile_eq_all_conv)
  finally show ?thesis by simp
qed

lemma of_char_eq_0_iff: "of_char c = (0::nat) \<longleftrightarrow> c = CHR 0x00"
proof -
  have "of_char (CHR 0x00) = (0::nat)" by simp
  then have "of_char c = (0::nat) \<longleftrightarrow> of_char c = (of_char (CHR 0x00) :: nat)" by (simp only:)
  also have "\<dots> \<longleftrightarrow> c = CHR 0x00" by (rule of_char_eq_iff)
  finally show ?thesis .
qed

lemma zero_mask_scan:
  "length (takeWhile (\<lambda>k. \<not> bit (zero_mask (length bs) (int (le_val bs))) k) [0..<8 * length bs]) div 8 =
   length (takeWhile (\<lambda>c. c \<noteq> CHR 0x00) bs)"
proof (induction bs)
  case (Cons b bs)
  define v where "v = int (le_val bs)"
  have bv: "int (le_val (b # bs)) = of_char b + 256 * v" by (simp add: v_def of_nat_of_char)
  show ?case
  proof (cases "b = CHR 0x00")
    case True
    then have "length (takeWhile (\<lambda>k. \<not> bit (zero_mask (Suc (length bs)) (int (le_val (b # bs)))) k)
        [0..<8 * Suc (length bs)]) = 7"
      unfolding bv by (intro takeWhile_byte_hit) (simp_all add: zero_mask_NUL)
    then show ?thesis using True by simp
  next
    case False
    then have "of_char b \<noteq> (0::nat)" by (simp add: of_char_eq_0_iff)
    then have b: "0 < (of_char b :: int)" "of_char b < (256::int)"
      using of_char_less [of b] of_nat_of_char [of b, where 'a = int] by linarith+
    have "length (takeWhile (\<lambda>k. \<not> bit (zero_mask (Suc (length bs)) (int (le_val (b # bs)))) k)
        [0..<8 * Suc (length bs)]) =
      8 + length (takeWhile (\<lambda>k. \<not> bit (zero_mask (length bs) v) k) [0..<8 * length bs])"
      unfolding bv using zero_mask_step [OF b, of "length bs" v]
      by (subst takeWhile_byte_clear) simp_all
    then show ?thesis using False Cons by (simp add: v_def)
  qed
qed simp

lemma ones_8: "ones 8 = 0x0101010101010101"
  by (simp add: numeral_eq_Suc)

lemma inline_len_takeWhile:
  assumes "length (raw s) = 8"
  shows "inline_len s = length (takeWhile (\<lambda>c. c \<noteq> CHR 0x00) (raw s))"
proof -
  let ?v = "int (le_val (raw s))"
  have bits: "from_le_bytes (raw s) = word_of_int ?v" by (simp add: from_le_bytes_of_nat)
  have "bit ((word_of_int ?v - 0x0101010101010101) AND NOT (word_of_int ?v) AND (0x8080808080808080 :: u64)) k
      \<longleftrightarrow> bit (zero_mask 8 ?v) k" if "k < 64" for k
  proof -
    have "(word_of_int ?v - 0x0101010101010101) AND NOT (word_of_int ?v) AND (0x8080808080808080 :: u64) =
        word_of_int (zero_mask 8 ?v)"
      unfolding zero_mask_def ones_8
      by (simp add: of_int_and_eq of_int_not_eq)
    then show ?thesis using that by (simp add: bit_word_of_int_iff)
  qed
  then have "takeWhile (\<lambda>k. \<not> bit ((word_of_int ?v - 0x0101010101010101) AND NOT (word_of_int ?v)
        AND (0x8080808080808080 :: u64)) k) [0..<64] =
      takeWhile (\<lambda>k. \<not> bit (zero_mask 8 ?v) k) [0..<64]"
    by (intro takeWhile_cong) auto
  then show ?thesis
    using zero_mask_scan [of "raw s"] assms
    by (simp add: inline_len_def trailing_zeros_def bits Let_def)
qed

text \<open>
  \<^verbatim>\<open>inline_len\<close>, which tests all eight bytes of a handle at once with a borrow trick and counts
  trailing zero bits, is the index of the first NUL byte (8 when there is none).
\<close>

theorem inline_len_first_NUL:
  "length (raw s) = 8 \<Longrightarrow> inline_len s = length (takeWhile (\<lambda>c. c \<noteq> CHR 0x00) (raw s))"
  by (rule inline_len_takeWhile)

theorem inline_len_first_NUL_witness:
  "inline_len (inline_bytes ''beta'') = 4"
  using inline_len_first_NUL [of "inline_bytes ''beta''"] by (simp add: inline_bytes_def numeral_eq_Suc)

section \<open>Round trips\<close>

lemma high_bit_iff: "of_char c AND 128 = (0::nat) \<longleftrightarrow> of_char c < (128::nat)"
proof -
  have "of_char c div 128 = (if of_char c < (128::nat) then 0 else (1::nat))"
    using of_char_less [of c] by (simp, linarith)
  then show ?thesis
    using and_exp_eq_0_iff_not_bit [of "of_char c :: nat" 7] by (simp add: bit_iff_odd)
qed

lemma can_inline_iff:
  "can_inline s \<longleftrightarrow> length s < 8 \<or> length s = 8 \<and> of_char (s ! 7) < (128::nat)"
  by (simp add: can_inline_def MAX_INLINE_LEN_def high_bit_iff)

lemma string_init_eq:
  "string_init start s = (if can_inline s then inline_bytes s else packed (pointer_init start s))"
  by (auto simp: string_init_def can_inline_iff MAX_INLINE_LEN_def)

lemma length_raw [simp]:
  "length s \<le> 8 \<Longrightarrow> length (raw (inline_bytes s)) = 8" "length (raw (packed p)) = 8"
  by (simp_all add: inline_bytes_def packed_def)

lemma can_inline_length: "can_inline s \<Longrightarrow> length s \<le> 8"
  by (auto simp: can_inline_iff)

lemma inline_bytes_is_inline: "can_inline s \<Longrightarrow> is_inline (inline_bytes s)"
  by (auto simp: is_inline_def inline_bytes_def can_inline_iff MAX_INLINE_LEN_def high_bit_iff nth_append)

lemma inline_len_inline_bytes:
  assumes "can_inline s" "CHR 0x00 \<notin> set s"
  shows "inline_len (inline_bytes s) = length s"
proof -
  have "takeWhile (\<lambda>c. c \<noteq> CHR 0x00) (s @ replicate n (CHR 0x00)) = s @ []" for n
    using assms(2) by (subst takeWhile_append2) (auto simp: takeWhile_replicate)
  then have "takeWhile (\<lambda>c. c \<noteq> CHR 0x00) (raw (inline_bytes s)) = s"
    by (simp add: inline_bytes_def)
  then show ?thesis
    using can_inline_length [OF assms(1)] by (simp add: inline_len_takeWhile)
qed

lemma inline_slice:
  assumes "can_inline s" "CHR 0x00 \<notin> set s"
  shows "string_slice (inline_bytes s) buf = s" "string_len (inline_bytes s) = length s"
  using inline_bytes_is_inline [OF assms(1)] inline_len_inline_bytes [OF assms]
  by (simp_all add: string_slice_def string_len_def is_inline_def inline_bytes_def)

lemma mask_63: "MAX_ADDRESSABLE_SPACE_MASK = mask 63"
  unfolding MAX_ADDRESSABLE_SPACE_MASK_def mask_eq_decr_exp push_bit_of_1 ..

lemma packed_bits:
  "((w AND MAX_ADDRESSABLE_SPACE_MASK) OR push_bit 63 1) AND MAX_ADDRESSABLE_SPACE_MASK =
   w AND MAX_ADDRESSABLE_SPACE_MASK"
  unfolding mask_63 push_bit_of_1
  by (rule bit_word_eqI) (unfold bit_and_iff bit_or_iff bit_mask_iff bit_exp_iff, auto)

lemma bit_unat: "bit (unat w) k \<longleftrightarrow> bit w k"
  by (simp add: bit_unsigned_iff)

lemma packed_high: "2 ^ 63 \<le> unat ((w AND m) OR push_bit 63 (1::u64))"
proof -
  let ?w = "(w AND m) OR push_bit 63 (1::u64)"
  have "bit ?w 63" unfolding bit_or_iff push_bit_of_1 bit_exp_iff by simp
  then have "bit (unat ?w) 63" by (simp only: bit_unat)
  then have "odd (unat ?w div 2 ^ 63)" by (rule bit_iff_odd [THEN iffD1])
  then have "unat ?w div 2 ^ 63 \<noteq> 0" by (metis even_zero)
  then show ?thesis by (meson div_less not_le)
qed

lemma packed_not_inline: "\<not> is_inline (packed p)"
proof -
  define w where "w = (to_bits p AND MAX_ADDRESSABLE_SPACE_MASK) OR push_bit 63 1"
  have "2 ^ 63 \<le> unat w" unfolding w_def by (rule packed_high)
  then have "128 \<le> unat w div 256 ^ 7" by simp
  moreover have "unat w div 256 ^ 7 < 256"
    using unsigned_less [where 'a = nat and w = w] by simp
  moreover have "raw (packed p) ! 7 = char_of (unat w div 256 ^ 7)"
    unfolding packed_def sstring.simps to_le_bytes_def w_def [symmetric]
    by (simp add: nth_le_digits)
  ultimately have "\<not> of_char (raw (packed p) ! 7) < (128::nat)" by simp
  then show ?thesis
    by (simp add: is_inline_def MAX_INLINE_LEN_def high_bit_iff)
qed

lemma from_bits_to_bits: "from_bits (to_bits p) = p"
  by (simp add: from_bits_def to_bits_def to_from_le_bytes from_to_le_bytes_4 Let_def)

lemma unat_to_bits: "unat (to_bits p) = unat (off p) + 2 ^ 32 * unat (len p)"
  using unsigned_less [where 'a = nat and w = "off p"] unsigned_less [where 'a = nat and w = "len p"]
  by (simp add: to_bits_def unat_from_le_bytes le_val_append to_le_bytes_def le_val_digits)

lemma to_bits_mask:
  assumes "unat (len p) < 2 ^ 31"
  shows "to_bits p AND MAX_ADDRESSABLE_SPACE_MASK = to_bits p"
proof -
  have "unat (off p) < 2 ^ 32" using unsigned_less [where 'a = nat and w = "off p"] by simp
  then have "unat (to_bits p) < 2 ^ 63" using assms unfolding unat_to_bits by simp
  then have "take_bit 63 (unat (to_bits p)) = unat (to_bits p)" by (rule take_bit_nat_eq_self)
  then have "unat (take_bit 63 (to_bits p)) = unat (to_bits p)"
    by (simp only: unsigned_take_bit_eq)
  then have "take_bit 63 (to_bits p) = to_bits p" by (rule unsigned_word_eqI)
  then show ?thesis by (simp only: mask_63 flip: take_bit_eq_mask)
qed

lemma ptr_packed: "unat (len p) < 2 ^ 31 \<Longrightarrow> ptr (packed p) = p"
  by (simp only: ptr_def packed_def sstring.simps from_to_le_bytes packed_bits)
    (simp only: to_bits_mask from_bits_to_bits)

lemma packed_slice:
  assumes "start + length src \<le> length buf" "subslice buf start (start + length src) = src"
    and "length buf < 2 ^ 32" "length src < 2 ^ 31"
  shows "string_slice (packed (pointer_init start src)) buf = src"
    and "is_within (packed (pointer_init start src)) buf"
    and "string_len (packed (pointer_init start src)) = length src"
proof -
  let ?p = "pointer_init start src"
  have off: "unat (off ?p) = start" and len: "unat (len ?p) = length src"
    using assms by (simp_all add: pointer_init_def unsigned_of_nat take_bit_nat_eq_self)
  have "of_char (raw (packed ?p) ! (MAX_INLINE_LEN - 1)) AND 128 \<noteq> (0::nat)"
    using packed_not_inline [of ?p] by (simp add: is_inline_def)
  then show "string_slice (packed ?p) buf = src" "is_within (packed ?p) buf"
    "string_len (packed ?p) = length src"
    using assms off len ptr_packed [of ?p]
    by (simp_all add: string_slice_def is_within_def string_len_def get_range_def)
qed

text \<open>
  What a slice of a buffer must satisfy for its handle to be exact: it lies in the buffer at the
  offset given, the buffer's offsets fit the 32 bits of \<^verbatim>\<open>off\<close>, its length fits the 31 bits left
  for \<^verbatim>\<open>len\<close>, and a string short enough to be stored inline has no NUL byte (an inline string ends
  at its first NUL).
\<close>

definition representable :: "bytes \<Rightarrow> nat \<Rightarrow> bytes \<Rightarrow> bool" where
  "representable buf start src \<longleftrightarrow>
     start + length src \<le> length buf \<and> subslice buf start (start + length src) = src
     \<and> length buf < 2 ^ 32 \<and> length src < 2 ^ 31
     \<and> (can_inline src \<longrightarrow> CHR 0x00 \<notin> set src)"

lemma string_init_slice:
  assumes "representable buf start src"
  shows "string_slice (string_init start src) buf = src"
    and "is_within (string_init start src) buf"
    and "string_len (string_init start src) = length src"
  using assms inline_slice packed_slice inline_bytes_is_inline
  by (auto simp: representable_def string_init_eq is_within_def)

text \<open>
  C33. \<^verbatim>\<open>String::init\<close> and \<^verbatim>\<open>slice\<close> round trip: the handle of a representable slice of a buffer,
  stored inline or as a packed pointer, gives back exactly the bytes of the slice, is within the
  buffer, and reports their number.
\<close>

theorem string_init_roundtrip:
  assumes "representable buf start src"
  shows "string_slice (string_init start src) buf = src
    \<and> is_within (string_init start src) buf
    \<and> string_len (string_init start src) = length src"
  using string_init_slice [OF assms] by blast

theorem string_init_roundtrip_witness:
  "string_slice (string_init 1 ''beta.2024'') ''-beta.2024'' = ''beta.2024''"
proof -
  have "representable ''-beta.2024'' 1 ''beta.2024''"
    by (simp add: representable_def subslice_def can_inline_iff)
  from string_init_roundtrip [OF this] show ?thesis by blast
qed

lemma string_eql_slices:
  assumes "representable b1 n1 s1" "representable b2 n2 s2"
  shows "string_eql (string_init n1 s1) (string_init n2 s2) b1 b2 \<longleftrightarrow> s1 = s2"
proof (cases "can_inline s1 \<and> can_inline s2")
  case True
  then have "length (raw (inline_bytes s1)) = 8" "length (raw (inline_bytes s2)) = 8"
    using can_inline_length by simp_all
  then have inj: "from_le_bytes (raw (inline_bytes s1)) = from_le_bytes (raw (inline_bytes s2)) \<longleftrightarrow>
      raw (inline_bytes s1) = raw (inline_bytes s2)"
    by (rule from_le_bytes_inj)
  have "string_eql (inline_bytes s1) (inline_bytes s2) b1 b2 \<longleftrightarrow>
      raw (inline_bytes s1) = raw (inline_bytes s2)"
    using True inline_bytes_is_inline by (simp add: string_eql_def inj)
  also have "\<dots> \<longleftrightarrow> s1 = s2"
  proof
    assume "raw (inline_bytes s1) = raw (inline_bytes s2)"
    then have "inline_bytes s1 = inline_bytes s2" by simp
    then have "string_slice (inline_bytes s1) [] = string_slice (inline_bytes s2) []" by (rule arg_cong)
    moreover have "CHR 0x00 \<notin> set s1" "CHR 0x00 \<notin> set s2"
      using True assms unfolding representable_def by blast+
    ultimately show "s1 = s2" using True by (simp add: inline_slice(1))
  qed simp
  finally show ?thesis using True by (simp add: string_init_eq)
next
  case False
  show ?thesis
  proof (cases "can_inline s1 \<or> can_inline s2")
    case True
    then have "s1 \<noteq> s2" using False by auto
    then show ?thesis
      using True False inline_bytes_is_inline packed_not_inline
      by (auto simp: string_eql_def string_init_eq)
  next
    case nowhere: False
    have ptrs: "get_range b (unat (off (ptr (packed (pointer_init n s)))))
        (unat (len (ptr (packed (pointer_init n s))))) = Some s"
      if "representable b n s" for b n s
      using that ptr_packed [of "pointer_init n s"]
      by (simp add: representable_def get_range_def pointer_init_def unsigned_of_nat
          take_bit_nat_eq_self)
    show ?thesis
      using nowhere packed_not_inline ptrs [OF assms(1)] ptrs [OF assms(2)]
      by (simp add: string_eql_def string_init_eq Let_def)
  qed
qed

text \<open>
  On representable strings the handle comparison \<^verbatim>\<open>String::eql\<close>, which never looks at the bytes
  of inline strings and answers false at once for an inline and an out-of-line one, decides
  equality of the strings, and \<^verbatim>\<open>order\<close> is \<^verbatim>\<open>Equal\<close> in the same cases.
\<close>

theorem string_eql_iff:
  assumes "representable b1 n1 s1" "representable b2 n2 s2"
  shows "(string_eql (string_init n1 s1) (string_init n2 s2) b1 b2 \<longleftrightarrow> s1 = s2)
    \<and> (string_order (string_init n1 s1) (string_init n2 s2) b1 b2 = Equal \<longleftrightarrow> s1 = s2)"
  using assms string_eql_slices [OF assms] by (simp add: string_order_def string_init_slice order_Equal_iff)

theorem string_eql_iff_witness:
  "string_eql (string_init 0 ''beta'') (string_init 1 ''beta'') ''beta'' ''-beta''"
proof -
  have "representable ''beta'' 0 ''beta''" "representable ''-beta'' 1 ''beta''"
    by (simp_all add: representable_def subslice_def can_inline_iff)
  from string_eql_iff [OF this] show ?thesis by blast
qed

lemma string_empty_slice:
  assumes "string_is_empty s"
  shows "string_slice s b = []"
proof -
  have z: "from_le_bytes (raw s) = 0" using assms by (simp add: string_is_empty_def)
  have "from_le_bytes (raw (inline_bytes [])) = 0"
    by (simp add: inline_bytes_def from_le_bytes_def numeral_eq_Suc)
  then have "inline_len s = inline_len (inline_bytes [])" unfolding inline_len_def z by (simp only:)
  then have "inline_len s = 0" by (simp add: inline_len_inline_bytes can_inline_iff)
  moreover have "le_digits n 0 = replicate n (char_of (0::nat))" for n by (induction n) simp_all
  moreover have "le_val (replicate n (char_of (0::nat))) = 0" for n by (induction n) simp_all
  moreover have "ptr s = from_bits 0" by (simp add: ptr_def z)
  ultimately have "unat (len (ptr s)) = 0"
    by (simp add: from_bits_def to_le_bytes_def from_le_bytes_of_nat Let_def)
  moreover have "inline_len s = 0" by fact
  ultimately show ?thesis by (simp add: string_slice_def get_range_def subslice_def)
qed

section \<open>Sliced and external strings\<close>

text \<open>
  A \<^verbatim>\<open>SlicedString\<close> is a slice that remembers the buffer it points into; the slice is its offset in
  the buffer and its bytes.
\<close>

record sliced_string =
  sl_buf :: bytes
  sl_off :: nat
  sl_slice :: bytes

definition sliced_init :: "bytes \<Rightarrow> nat \<Rightarrow> bytes \<Rightarrow> sliced_string" where
  "sliced_init b start s = \<lparr>sl_buf = b, sl_off = start, sl_slice = s\<rparr>"

record external_string =
  es_value :: sstring
  es_hash :: u64

definition external_init :: "nat \<Rightarrow> bytes \<Rightarrow> u64 \<Rightarrow> external_string" where
  "external_init start src h = \<lparr>es_value = string_init start src, es_hash = h\<rparr>"

text \<open>\<^verbatim>\<open>ExternalString::default()\<close>: all zero.\<close>

definition external_default :: external_string where
  "external_default = \<lparr>es_value = EMPTY, es_hash = 0\<rparr>"

definition external_order :: "external_string \<Rightarrow> external_string \<Rightarrow> bytes \<Rightarrow> bytes \<Rightarrow> ordering" where
  "external_order lhs rhs lhs_buf rhs_buf = string_order (es_value lhs) (es_value rhs) lhs_buf rhs_buf"

definition external_is_inline :: "external_string \<Rightarrow> bool" where
  "external_is_inline e = is_inline (es_value e)"

definition external_is_empty :: "external_string \<Rightarrow> bool" where
  "external_is_empty e = string_is_empty (es_value e)"

definition external_len :: "external_string \<Rightarrow> nat" where
  "external_len e = string_len (es_value e)"

definition external_slice :: "external_string \<Rightarrow> bytes \<Rightarrow> bytes" where
  "external_slice e b = string_slice (es_value e) b"

definition sliced_external :: "sliced_string \<Rightarrow> external_string" where
  "sliced_external s = external_init (sl_off s) (sl_slice s) (wyhash11_hash 0 (sl_slice s))"

definition sliced_value :: "sliced_string \<Rightarrow> sstring" where
  "sliced_value s = string_init (sl_off s) (sl_slice s)"

text \<open>\<^verbatim>\<open>SlicedString::sub\<close>: another slice (at \<open>start\<close>) of the same buffer.\<close>

definition sliced_sub :: "sliced_string \<Rightarrow> nat \<Rightarrow> bytes \<Rightarrow> sliced_string" where
  "sliced_sub s start input = \<lparr>sl_buf = sl_buf s, sl_off = start, sl_slice = input\<rparr>"

text \<open>\<^verbatim>\<open>String::sliced\<close>: an inline string is its own buffer.\<close>

definition string_sliced :: "sstring \<Rightarrow> bytes \<Rightarrow> sliced_string" where
  "string_sliced s buf =
     (if is_inline s then sliced_init (string_slice s []) 0 (string_slice s [])
      else sliced_init buf (unat (off (ptr s))) (string_slice s buf))"

lemma EMPTY_inline: "EMPTY = inline_bytes []"
  by (simp add: EMPTY_def inline_bytes_def)

lemma string_slice_EMPTY [simp]: "string_slice EMPTY buf = []"
  unfolding EMPTY_inline by (rule inline_slice) (simp_all add: can_inline_iff)

end
