(* ===== verification/StringStore.thy ===== *)
theory StringStore
  imports SemverString
begin

text \<open>
  \<^verbatim>\<open>Buf\<close> and \<^verbatim>\<open>Builder\<close> of \<^verbatim>\<open>src/semver/lib.rs\<close>: they add strings to a buffer of string bytes and hand
  out handles, sharing equal strings through a pool keyed by a 64-bit hash. The locale
  \<open>string_store\<close> is their common contract; both are interpreted as instances of it.
\<close>

section \<open>Appending to a buffer\<close>

text \<open>
  \<^verbatim>\<open>init_append\<close> and \<^verbatim>\<open>init_append_if_needed\<close>: the handle and the grown buffer. The \<^verbatim>\<open>Vec\<close> aborts the
  process when memory runs out, so the \<^verbatim>\<open>Result\<close> is always \<^verbatim>\<open>Ok\<close>.
\<close>

definition init_append :: "bytes \<Rightarrow> bytes \<Rightarrow> sstring \<times> bytes" where
  "init_append buf src =
     (let items = buf @ src
      in (packed (pointer_init (length items - length src) src), items))"

definition init_append_if_needed :: "bytes \<Rightarrow> bytes \<Rightarrow> sstring \<times> bytes" where
  "init_append_if_needed buf src =
     (if length src < MAX_INLINE_LEN then (inline_bytes src, buf)
      else if length src = MAX_INLINE_LEN then
        (if of_char (src ! (MAX_INLINE_LEN - 1)) \<ge> (128::nat) then init_append buf src
         else (inline_bytes src, buf))
      else init_append buf src)"

text \<open>\<^verbatim>\<open>StringPool\<close>: a hash map from 64-bit hashes to handles.\<close>

type_synonym string_pool = "u64 \<rightharpoonup> sstring"

record buf =
  b_bytes :: bytes
  b_pool :: string_pool

definition string_hash :: "bytes \<Rightarrow> u64" where
  "string_hash b = wyhash11_hash 0 b"

definition buf_append_with_hash :: "buf \<Rightarrow> bytes \<Rightarrow> u64 \<Rightarrow> sstring \<times> buf" where
  "buf_append_with_hash b str h =
     (if can_inline str then (init_inline str, b)
      else case b_pool b h of
        Some v \<Rightarrow>
          if string_slice v (b_bytes b) = str then (v, b)
          else let (new, items) = init_append (b_bytes b) str in (new, b\<lparr>b_bytes := items\<rparr>)
      | None \<Rightarrow>
          let (new, items) = init_append (b_bytes b) str
          in (new, b\<lparr>b_bytes := items, b_pool := (b_pool b)(h \<mapsto> new)\<rparr>))"

definition buf_append :: "buf \<Rightarrow> bytes \<Rightarrow> sstring \<times> buf" where
  "buf_append b str =
     (if can_inline str then (init_inline str, b) else buf_append_with_hash b str (string_hash str))"

definition buf_append_external_with_hash :: "buf \<Rightarrow> bytes \<Rightarrow> u64 \<Rightarrow> external_string \<times> buf" where
  "buf_append_external_with_hash b str h =
     (let (v, b') = buf_append_with_hash b str h in (\<lparr>es_value = v, es_hash = h\<rparr>, b'))"

definition buf_append_external :: "buf \<Rightarrow> bytes \<Rightarrow> external_string \<times> buf" where
  "buf_append_external b str = buf_append_external_with_hash b str (string_hash str)"

text \<open>\<^verbatim>\<open>ArrayHashContext\<close>: the hash and equality that hash maps keyed by handles use.\<close>

record array_hash_context =
  arg_buf :: bytes
  existing_buf :: bytes

definition ctx_eql :: "array_hash_context \<Rightarrow> sstring \<Rightarrow> sstring \<Rightarrow> bool" where
  "ctx_eql c arg existing = string_eql arg existing (arg_buf c) (existing_buf c)"

definition ctx_hash :: "array_hash_context \<Rightarrow> sstring \<Rightarrow> u32" where
  "ctx_hash c arg = ucast (hash (string_slice arg (arg_buf c)))"

section \<open>The builder\<close>

text \<open>
  \<^verbatim>\<open>Builder\<close> is used in three phases: count every string, allocate once, append every string. A
  panic (an \<^verbatim>\<open>unwrap\<close> of the missing allocation, a slice out of range) is \<^const>\<open>None\<close>.
\<close>

record builder =
  bu_len :: nat
  bu_cap :: nat
  bu_ptr :: "bytes option"
  bu_pool :: string_pool

text \<open>The trait \<^verbatim>\<open>BuilderStringType\<close> and its two implementations.\<close>

record 't builder_string_type =
  from_init :: "nat \<Rightarrow> bytes \<Rightarrow> u64 \<Rightarrow> 't"
  from_pooled :: "sstring \<Rightarrow> u64 \<Rightarrow> 't"

definition string_type :: "sstring builder_string_type" where
  "string_type = \<lparr>from_init = \<lambda>start s h. string_init start s, from_pooled = \<lambda>v h. v\<rparr>"

definition external_string_type :: "external_string builder_string_type" where
  "external_string_type =
     \<lparr>from_init = external_init, from_pooled = \<lambda>v h. \<lparr>es_value = v, es_hash = h\<rparr>\<rparr>"

definition builder_default :: builder where
  "builder_default = \<lparr>bu_len = 0, bu_cap = 0, bu_ptr = None, bu_pool = (\<lambda>_. None)\<rparr>"

definition count_with_hash :: "builder \<Rightarrow> bytes \<Rightarrow> u64 \<Rightarrow> builder" where
  "count_with_hash b s h =
     (if can_inline s then b
      else if bu_pool b h = None then b\<lparr>bu_cap := bu_cap b + length s\<rparr>
      else b)"

definition builder_count :: "builder \<Rightarrow> bytes \<Rightarrow> builder" where
  "builder_count b s = count_with_hash b s (if can_inline s then U64_MAX else string_hash s)"

definition allocated_slice :: "builder \<Rightarrow> bytes option" where
  "allocated_slice b =
     (if bu_cap b > 0 then
        case bu_ptr b of
          None \<Rightarrow> None
        | Some p \<Rightarrow> if bu_cap b \<le> length p then Some (take (bu_cap b) p) else None
      else Some [])"

definition allocate :: "builder \<Rightarrow> builder" where
  "allocate b = b\<lparr>bu_ptr := Some (replicate (bu_cap b) (CHR 0x00))\<rparr>"

text \<open>
  \<^verbatim>\<open>ptr.as_mut().unwrap()[start..cap][..s.len()].copy_from_slice(s)\<close>, then \<^verbatim>\<open>len += s.len()\<close>: the
  steps \<^verbatim>\<open>append_without_pool\<close> and \<^verbatim>\<open>append_with_hash\<close> share.
\<close>

definition write_slice :: "builder \<Rightarrow> bytes \<Rightarrow> builder option" where
  "write_slice b s =
     (case bu_ptr b of
        None \<Rightarrow> None
      | Some p \<Rightarrow>
          if bu_len b \<le> bu_cap b \<and> bu_cap b \<le> length p \<and> length s \<le> bu_cap b - bu_len b then
            Some (b\<lparr>bu_ptr := Some (copy_into p (bu_len b) s), bu_len := bu_len b + length s\<rparr>)
          else None)"

definition append_without_pool ::
  "'t builder_string_type \<Rightarrow> builder \<Rightarrow> bytes \<Rightarrow> u64 \<Rightarrow> ('t \<times> builder) option" where
  "append_without_pool T b s h =
     (if can_inline s then
        case allocated_slice b of None \<Rightarrow> None | Some _ \<Rightarrow> Some (from_init T 0 s h, b)
      else
        case write_slice b s of
          None \<Rightarrow> None
        | Some b' \<Rightarrow> Some (from_init T (bu_len b) s h, b'))"

definition builder_append_with_hash ::
  "'t builder_string_type \<Rightarrow> builder \<Rightarrow> bytes \<Rightarrow> u64 \<Rightarrow> ('t \<times> builder) option" where
  "builder_append_with_hash T b s h =
     (if can_inline s then
        case allocated_slice b of None \<Rightarrow> None | Some _ \<Rightarrow> Some (from_init T 0 s h, b)
      else
        case bu_pool b h of
          Some v \<Rightarrow>
            (case bu_ptr b of
               None \<Rightarrow> None
             | Some p \<Rightarrow>
                 if bu_cap b \<le> length p then
                   if string_slice v (take (bu_cap b) p) \<noteq> s then append_without_pool T b s h
                   else Some (from_pooled T v h, b)
                 else None)
        | None \<Rightarrow>
            (case write_slice b s of
               None \<Rightarrow> None
             | Some b' \<Rightarrow>
                 let v = string_init (bu_len b) s
                 in Some (from_pooled T v h, b'\<lparr>bu_pool := (bu_pool b)(h \<mapsto> v)\<rparr>)))"

definition builder_append :: "'t builder_string_type \<Rightarrow> builder \<Rightarrow> bytes \<Rightarrow> ('t \<times> builder) option" where
  "builder_append T b s = builder_append_with_hash T b s (string_hash s)"

section \<open>Stores of strings\<close>

text \<open>
  What \<^verbatim>\<open>Buf\<close> and \<^verbatim>\<open>Builder\<close> promise their clients: a store with room for the strings to come takes
  the next one, hands out a handle that slices to it, and never disturbs the handles it gave before.
\<close>

locale string_store =
  fixes content :: "'s \<Rightarrow> bytes"
    and store :: "'s \<Rightarrow> bytes \<Rightarrow> (sstring \<times> 's) option"
    and live :: "'s \<Rightarrow> sstring \<Rightarrow> bool"
    and room :: "'s \<Rightarrow> bytes list \<Rightarrow> bool"
  assumes store_total: "room s (x # xs) \<Longrightarrow> \<exists>h s'. store s x = Some (h, s')"
    and store_room: "room s (x # xs) \<Longrightarrow> store s x = Some (h, s') \<Longrightarrow> room s' xs"
    and store_live: "room s (x # xs) \<Longrightarrow> store s x = Some (h, s') \<Longrightarrow> live s' h"
    and store_slice: "room s (x # xs) \<Longrightarrow> store s x = Some (h, s') \<Longrightarrow> string_slice h (content s') = x"
    and store_keeps: "room s (x # xs) \<Longrightarrow> store s x = Some (h, s') \<Longrightarrow> live s g \<Longrightarrow>
      live s' g \<and> string_slice g (content s') = string_slice g (content s)"

fun store_all :: "('s \<Rightarrow> bytes \<Rightarrow> (sstring \<times> 's) option) \<Rightarrow> 's \<Rightarrow> bytes list \<Rightarrow> (sstring list \<times> 's) option" where
  "store_all store s [] = Some ([], s)"
| "store_all store s (x # xs) =
     (case store s x of
        None \<Rightarrow> None
      | Some (h, s') \<Rightarrow>
          (case store_all store s' xs of None \<Rightarrow> None | Some (hs, s'') \<Rightarrow> Some (h # hs, s'')))"

context string_store
begin

lemma store_all_keeps:
  "room s xs \<Longrightarrow> store_all store s xs = Some (hs, s') \<Longrightarrow> live s g \<Longrightarrow>
   string_slice g (content s') = string_slice g (content s)"
proof (induction xs arbitrary: s hs)
  case (Cons x xs)
  then obtain h s1 hs1 where st: "store s x = Some (h, s1)" "store_all store s1 xs = Some (hs1, s')"
    by (auto split: option.splits)
  then show ?case
    using Cons.IH [of s1 hs1] store_keeps [OF Cons.prems(1) st(1) Cons.prems(3)]
      store_room [OF Cons.prems(1) st(1)] by simp
qed simp

lemma store_all_slices:
  "room s xs \<Longrightarrow> \<exists>hs s'. store_all store s xs = Some (hs, s')
     \<and> map (\<lambda>h. string_slice h (content s')) hs = xs"
proof (induction xs arbitrary: s)
  case (Cons x xs)
  obtain h s1 where st: "store s x = Some (h, s1)" using store_total [OF Cons.prems] by blast
  have rm: "room s1 xs" by (rule store_room [OF Cons.prems st])
  then obtain hs s' where all: "store_all store s1 xs = Some (hs, s')"
    and slices: "map (\<lambda>h. string_slice h (content s')) hs = xs" using Cons.IH by blast
  have "string_slice h (content s') = x"
    using store_all_keeps [OF rm all store_live [OF Cons.prems st]] store_slice [OF Cons.prems st]
    by simp
  then show ?case using st all slices by simp
qed simp

end

section \<open>\<^verbatim>\<open>Buf\<close> is a store\<close>

definition storable :: "bytes \<Rightarrow> bool" where
  "storable x \<longleftrightarrow> length x < 2 ^ 31 \<and> (can_inline x \<longrightarrow> CHR 0x00 \<notin> set x)"

definition buf_room :: "buf \<Rightarrow> bytes list \<Rightarrow> bool" where
  "buf_room b xs \<longleftrightarrow>
     length (b_bytes b) + sum_list (map length xs) < 2 ^ 32 \<and> list_all storable xs"

lemma slice_prefix:
  assumes "is_within h b"
  shows "string_slice h (b @ y) = string_slice h b \<and> is_within h (b @ y)"
  using assms by (auto simp: is_within_def string_slice_def is_inline_def get_range_def subslice_def)

lemma slice_nonempty_within: "string_slice h b \<noteq> [] \<Longrightarrow> is_within h b"
  by (auto simp: string_slice_def is_within_def is_inline_def get_range_def split: if_splits)

lemma can_inline_Nil [simp]: "can_inline []"
  by (simp add: can_inline_iff)

lemma init_inline_slice:
  assumes "can_inline x" "storable x"
  shows "string_slice (init_inline x) b = x" "is_within (init_inline x) b"
  using assms inline_slice inline_bytes_is_inline
  by (auto simp: storable_def init_inline_def is_within_def)

lemma init_append_slice:
  assumes "init_append b x = (h, b')" "length b + length x < 2 ^ 32" "storable x" "\<not> can_inline x"
  shows "b' = b @ x" "string_slice h b' = x" "is_within h b'"
proof -
  have eq: "h = packed (pointer_init (length b) x)" "b' = b @ x"
    using assms(1) by (auto simp: init_append_def)
  have "subslice b' (length b) (length b + length x) = x" using eq by (simp add: subslice_def)
  then show "b' = b @ x" "string_slice h b' = x" "is_within h b'"
    using assms eq packed_slice [of "length b" x b'] by (simp_all add: storable_def)
qed

lemma buf_append_with_hash_spec:
  assumes "buf_append_with_hash b x k = (h, b')"
    and "length (b_bytes b) + length x < 2 ^ 32" "storable x"
  shows "string_slice h (b_bytes b') = x \<and> is_within h (b_bytes b')
    \<and> (b_bytes b' = b_bytes b \<or> b_bytes b' = b_bytes b @ x)"
proof (cases "can_inline x")
  case True
  then show ?thesis using assms init_inline_slice by (auto simp: buf_append_with_hash_def)
next
  case False
  then have "x \<noteq> []" by auto
  obtain g items where ia: "init_append (b_bytes b) x = (g, items)" by fastforce
  note new = init_append_slice [OF ia assms(2,3) False]
  show ?thesis
  proof (cases "\<exists>v. b_pool b k = Some v \<and> string_slice v (b_bytes b) = x")
    case True
    then show ?thesis
      using assms False \<open>x \<noteq> []\<close> slice_nonempty_within by (auto simp: buf_append_with_hash_def)
  next
    case no: False
    then have "h = g" "b_bytes b' = items"
      using assms(1) False ia by (auto simp: buf_append_with_hash_def split: option.splits)
    then show ?thesis using new by simp
  qed
qed

lemma buf_append_eq: "buf_append b x = buf_append_with_hash b x (string_hash x)"
  by (simp add: buf_append_def buf_append_with_hash_def)

interpretation buf_store: string_store b_bytes "\<lambda>b x. Some (buf_append b x)"
  "\<lambda>b h. is_within h (b_bytes b)" buf_room
proof unfold_locales
  fix b x xs h b' g
  assume room: "buf_room b (x # xs)" and "Some (buf_append b x) = Some (h, b')"
  then have eq: "buf_append_with_hash b x (string_hash x) = (h, b')" by (simp add: buf_append_eq)
  have fits: "length (b_bytes b) + length x < 2 ^ 32" "storable x"
    using room by (simp_all add: buf_room_def)
  note spec = buf_append_with_hash_spec [OF eq fits]
  have grows: "b_bytes b' = b_bytes b \<or> b_bytes b' = b_bytes b @ x" using spec by blast
  then have "length (b_bytes b') \<le> length (b_bytes b) + length x" by (elim disjE) simp_all
  then show "buf_room b' xs" using room by (simp add: buf_room_def)
  show "is_within h (b_bytes b')" "string_slice h (b_bytes b') = x" using spec by auto
  show "is_within g (b_bytes b') \<and> string_slice g (b_bytes b') = string_slice g (b_bytes b)"
    if "is_within g (b_bytes b)" using grows slice_prefix [OF that] that by (elim disjE) simp_all
qed (auto simp: prod_eq_iff)

text \<open>
  C39. Whatever hashes the pool already holds, and even when two different strings have the same
  hash: after any sequence of \<^verbatim>\<open>Buf::append\<close> calls that fits in 4 GiB every handle handed out on the
  way slices, in the final buffer, to exactly the string it was made for.
\<close>

theorem buf_append_all_slices:
  assumes "buf_room b xs"
  shows "\<exists>hs b'. store_all (\<lambda>b x. Some (buf_append b x)) b xs = Some (hs, b')
    \<and> map (\<lambda>h. string_slice h (b_bytes b')) hs = xs"
  using assms by (rule buf_store.store_all_slices)

theorem buf_append_all_slices_witness:
  "\<exists>hs b'. store_all (\<lambda>b x. Some (buf_append b x)) \<lparr>b_bytes = ''xy'', b_pool = (\<lambda>_. Some EMPTY)\<rparr>
      [''prerelease-1'', ''rc'', ''prerelease-1''] = Some (hs, b')
    \<and> map (\<lambda>h. string_slice h (b_bytes b')) hs = [''prerelease-1'', ''rc'', ''prerelease-1'']"
  by (rule buf_append_all_slices) (simp add: buf_room_def storable_def can_inline_iff)

text \<open>
  \<^verbatim>\<open>Buf::append_with_hash\<close> with a hash of the caller's choosing, colliding or not: the handle
  slices to the string, the buffer keeps its old bytes as a prefix, and it grows by the string at
  most.
\<close>

theorem buf_append_external_with_hash_correct:
  assumes "length (b_bytes b) + length x < 2 ^ 32" "storable x"
    and "buf_append_external_with_hash b x k = (e, b')"
  shows "external_slice e (b_bytes b') = x \<and> es_hash e = k
    \<and> (b_bytes b' = b_bytes b \<or> b_bytes b' = b_bytes b @ x)"
  using assms buf_append_with_hash_spec [OF _ assms(1,2)]
  by (auto simp: buf_append_external_with_hash_def external_slice_def split: prod.splits)

theorem buf_append_external_with_hash_correct_witness:
  "\<exists>e b'. buf_append_external_with_hash \<lparr>b_bytes = [], b_pool = (\<lambda>_. None)\<rparr> ''prerelease-1'' 7 = (e, b')
    \<and> external_slice e (b_bytes b') = ''prerelease-1''"
proof -
  obtain e b' where
    eq: "buf_append_external_with_hash \<lparr>b_bytes = [], b_pool = (\<lambda>_. None)\<rparr> ''prerelease-1'' 7 = (e, b')"
    by fastforce
  have "length (b_bytes \<lparr>b_bytes = [], b_pool = (\<lambda>_. None)\<rparr>) + length ''prerelease-1'' < 2 ^ 32"
    "storable ''prerelease-1''"
    by (simp_all add: storable_def can_inline_iff)
  from buf_append_external_with_hash_correct [OF this eq] show ?thesis using eq by blast
qed

section \<open>\<^verbatim>\<open>Builder\<close> is a store\<close>

definition builder_content :: "builder \<Rightarrow> bytes" where
  "builder_content b = (case bu_ptr b of None \<Rightarrow> [] | Some p \<Rightarrow> take (bu_cap b) p)"

text \<open>A handle is live when it is inline or ends in the part written so far.\<close>

definition builder_live :: "builder \<Rightarrow> sstring \<Rightarrow> bool" where
  "builder_live b h = is_within h (take (bu_len b) (builder_content b))"

definition builder_ok :: "builder \<Rightarrow> bool" where
  "builder_ok b \<longleftrightarrow>
     bu_ptr b \<noteq> None \<and> length (the (bu_ptr b)) = bu_cap b \<and> bu_len b \<le> bu_cap b
     \<and> (\<forall>v \<in> ran (bu_pool b). builder_live b v)"

text \<open>The bytes that a list of strings takes when none of them is shared.\<close>

definition out_of_line :: "bytes list \<Rightarrow> nat" where
  "out_of_line xs = sum_list (map length (filter (\<lambda>x. \<not> can_inline x) xs))"

definition builder_room :: "builder \<Rightarrow> bytes list \<Rightarrow> bool" where
  "builder_room b xs \<longleftrightarrow>
     builder_ok b \<and> bu_len b + out_of_line xs \<le> bu_cap b \<and> bu_cap b < 2 ^ 32 \<and> list_all storable xs"

lemma out_of_line_Cons [simp]:
  "out_of_line [] = 0"
  "out_of_line (x # xs) = (if can_inline x then 0 else length x) + out_of_line xs"
  by (simp_all add: out_of_line_def)

lemma builder_live_mono:
  assumes "take (bu_len b) (builder_content b) = w" "take (bu_len b') (builder_content b') = w @ y"
    and "builder_live b h"
  shows "builder_live b' h \<and>
    string_slice h (builder_content b') = string_slice h (builder_content b)"
proof -
  have within: "is_within h w" using assms by (simp add: builder_live_def)
  have "builder_content b = w @ drop (bu_len b) (builder_content b)"
    "builder_content b' = w @ (y @ drop (bu_len b') (builder_content b'))"
    using assms(1,2) append_take_drop_id [of "bu_len b" "builder_content b"]
      append_take_drop_id [of "bu_len b'" "builder_content b'"] by simp_all
  then show ?thesis
    using slice_prefix [OF within] assms(2) unfolding builder_live_def by metis
qed

lemma write_slice_spec:
  assumes "builder_ok b" "bu_len b + length x \<le> bu_cap b" "bu_cap b < 2 ^ 32" "storable x"
    "\<not> can_inline x"
  obtains b' where "write_slice b x = Some b'" "builder_ok b'" "bu_len b' = bu_len b + length x"
    "bu_cap b' = bu_cap b" "bu_pool b' = bu_pool b"
    "take (bu_len b') (builder_content b') = take (bu_len b) (builder_content b) @ x"
    "builder_live b' (string_init (bu_len b) x)"
    "string_slice (string_init (bu_len b) x) (builder_content b') = x"
proof -
  obtain p where p: "bu_ptr b = Some p" "length p = bu_cap b" using assms(1) by (auto simp: builder_ok_def)
  let ?p = "copy_into p (bu_len b) x"
  let ?b = "b\<lparr>bu_ptr := Some ?p, bu_len := bu_len b + length x\<rparr>"
  have len: "length ?p = bu_cap b" using p assms(2) by (simp add: length_copy_into)
  have content: "builder_content ?b = ?p" using len by (simp add: builder_content_def)
  have tk: "take (bu_len b + length x) ?p = take (bu_len b) p @ x"
    using p assms(2) by (simp add: take_copy_into)
  have tk': "take (bu_len ?b) (builder_content ?b) = take (bu_len b) (builder_content b) @ x"
    using tk content p by (simp add: builder_content_def)
  have sub: "subslice w (bu_len b) (bu_len b + length x) = x"
    if "take (bu_len b + length x) w = take (bu_len b) p @ x" for w
  proof -
    have "subslice w (bu_len b) (bu_len b + length x) = drop (bu_len b) (take (bu_len b + length x) w)"
      by (simp add: subslice_def drop_take)
    then show ?thesis using that p assms(2) by simp
  qed
  have rep: "representable ?p (bu_len b) x"
    using sub [OF tk] len assms(2-5) by (simp add: representable_def storable_def)
  have rep': "representable (take (bu_len b + length x) ?p) (bu_len b) x"
    using sub [of "take (bu_len b + length x) ?p"] tk len p(2) assms(2-5)
    by (simp add: representable_def storable_def)
  have ok: "builder_ok ?b"
    using assms(1,2) len builder_live_mono [OF refl tk'] by (auto simp: builder_ok_def)
  show thesis
  proof (rule that [of ?b])
    show "write_slice b x = Some ?b" using p assms(2) by (simp add: write_slice_def)
    show "builder_live ?b (string_init (bu_len b) x)"
      using string_init_slice(2) [OF rep'] content by (simp add: builder_live_def)
    show "string_slice (string_init (bu_len b) x) (builder_content ?b) = x"
      using string_init_slice(1) [OF rep] content by simp
  qed (use ok tk' in simp_all)
qed

lemma inline_append_spec:
  assumes "builder_ok b" "can_inline x" "storable x"
  shows "builder_append_with_hash string_type b x k = Some (string_init 0 x, b)"
    and "append_without_pool string_type b x k = Some (string_init 0 x, b)"
    and "string_slice (string_init 0 x) c = x" "is_within (string_init 0 x) c"
proof -
  show "builder_append_with_hash string_type b x k = Some (string_init 0 x, b)"
    "append_without_pool string_type b x k = Some (string_init 0 x, b)"
    using assms by (auto simp: builder_append_with_hash_def append_without_pool_def
        allocated_slice_def builder_ok_def string_type_def)
  show "string_slice (string_init 0 x) c = x" "is_within (string_init 0 x) c"
    using assms init_inline_slice by (auto simp: string_init_eq init_inline_def)
qed

lemma builder_ok_pool:
  "builder_ok b \<Longrightarrow> builder_live b v \<Longrightarrow> builder_ok (b\<lparr>bu_pool := (bu_pool b)(k \<mapsto> v)\<rparr>)"
  by (auto simp: builder_ok_def builder_live_def builder_content_def ran_def split: if_splits)

lemma builder_append_with_hash_spec:
  assumes "builder_room b (x # xs)"
  obtains h b' y where "builder_append_with_hash string_type b x k = Some (h, b')"
    "builder_room b' xs" "builder_live b' h" "string_slice h (builder_content b') = x"
    "take (bu_len b') (builder_content b') = take (bu_len b) (builder_content b) @ y"
proof (cases "can_inline x")
  case True
  then show thesis
    using assms inline_append_spec [of b x] that [of "string_init 0 x" b "[]"]
    by (simp add: builder_room_def builder_live_def)
next
  case False
  have ok: "builder_ok b" and fits: "bu_len b + length x \<le> bu_cap b" "bu_cap b < 2 ^ 32" "storable x"
    using assms False by (auto simp: builder_room_def)
  obtain b1 where b1: "write_slice b x = Some b1" "builder_ok b1" "bu_len b1 = bu_len b + length x"
    "bu_cap b1 = bu_cap b" "bu_pool b1 = bu_pool b"
    "take (bu_len b1) (builder_content b1) = take (bu_len b) (builder_content b) @ x"
    "builder_live b1 (string_init (bu_len b) x)"
    "string_slice (string_init (bu_len b) x) (builder_content b1) = x"
    by (rule write_slice_spec [OF ok fits False])
  have room1: "builder_room b1 xs" using b1 assms False by (simp add: builder_room_def)
  obtain p where p: "bu_ptr b = Some p" "length p = bu_cap b" using ok by (auto simp: builder_ok_def)
  then have content: "take (bu_cap b) p = builder_content b" by (simp add: builder_content_def)
  show thesis
  proof (cases "bu_pool b k")
    case None
    let ?v = "string_init (bu_len b) x"
    let ?b = "b1\<lparr>bu_pool := (bu_pool b)(k \<mapsto> ?v)\<rparr>"
    have "builder_append_with_hash string_type b x k = Some (?v, ?b)"
      using None False b1(1) by (simp add: builder_append_with_hash_def string_type_def Let_def)
    moreover have "builder_room ?b xs"
      using room1 builder_ok_pool [OF b1(2,7), of k] b1(5) by (simp add: builder_room_def)
    moreover have "builder_content ?b = builder_content b1" "builder_live ?b = builder_live b1"
      by (simp_all add: builder_live_def builder_content_def fun_eq_iff cong: option.case_cong)
    ultimately show thesis
      using that [of ?v ?b x] b1 by simp
  next
    case (Some v)
    show thesis
    proof (cases "string_slice v (builder_content b) = x")
      case True
      have "builder_live b v" using ok Some by (auto simp: builder_ok_def ran_def)
      moreover have "builder_append_with_hash string_type b x k = Some (v, b)"
        using Some False p True content by (simp add: builder_append_with_hash_def string_type_def)
      moreover have "builder_room b xs" using assms by (simp add: builder_room_def)
      ultimately show thesis using that [of v b "[]"] True by simp
    next
      case differs: False
      have "builder_append_with_hash string_type b x k = Some (string_init (bu_len b) x, b1)"
        using Some False p differs content b1(1)
        by (simp add: builder_append_with_hash_def append_without_pool_def string_type_def)
      then show thesis using that [of _ b1 x] b1 room1 by simp
    qed
  qed
qed

interpretation builder_store: string_store builder_content "builder_append string_type"
  builder_live builder_room
proof unfold_locales
  fix b x xs
  assume room: "builder_room b (x # xs)"
  obtain h b' y where r: "builder_append string_type b x = Some (h, b')"
    "builder_room b' xs" "builder_live b' h" "string_slice h (builder_content b') = x"
    "take (bu_len b') (builder_content b') = take (bu_len b) (builder_content b) @ y"
    using builder_append_with_hash_spec [OF room, of "string_hash x"] unfolding builder_append_def by metis
  show "\<exists>h b'. builder_append string_type b x = Some (h, b')" using r by blast
  fix h' b'' g
  assume "builder_append string_type b x = Some (h', b'')"
  then have eq: "h' = h" "b'' = b'" using r by simp_all
  show "builder_room b'' xs" "builder_live b'' h'" "string_slice h' (builder_content b'') = x"
    using r eq by simp_all
  show "builder_live b'' g \<and> string_slice g (builder_content b'') = string_slice g (builder_content b)"
    if "builder_live b g" using builder_live_mono [OF refl r(5) that] eq by simp
qed

section \<open>Counting is enough\<close>

lemma builder_count_fields:
  assumes "bu_pool b = (\<lambda>_. None)"
  shows "foldl builder_count b xs = b\<lparr>bu_cap := bu_cap b + out_of_line xs\<rparr>"
  using assms by (induction xs arbitrary: b) (auto simp: builder_count_def count_with_hash_def)

lemma counted_room:
  assumes "out_of_line xs < 2 ^ 32" "list_all storable xs"
  shows "builder_room (allocate (foldl builder_count builder_default xs)) xs"
  using assms builder_count_fields [of builder_default xs]
  by (simp add: builder_default_def allocate_def builder_room_def builder_ok_def)

text \<open>
  C34. The count, allocate, append protocol of \<^verbatim>\<open>Builder\<close> is safe: when every string is counted
  first on a fresh builder and the strings fit in 4 GiB, no append panics (no write past the
  allocation, no missing allocation), and in the end every handle slices to the string it was made
  for, with or without hash collisions in between.
\<close>

theorem builder_count_allocate_append:
  assumes "out_of_line xs < 2 ^ 32" "list_all storable xs"
  shows "\<exists>hs b'. store_all (builder_append string_type)
      (allocate (foldl builder_count builder_default xs)) xs = Some (hs, b')
    \<and> map (\<lambda>h. string_slice h (builder_content b')) hs = xs"
  using counted_room [OF assms] by (rule builder_store.store_all_slices)

theorem builder_count_allocate_append_witness:
  "\<exists>hs b'. store_all (builder_append string_type)
      (allocate (foldl builder_count builder_default [''prerelease-1'', ''rc'']))
      [''prerelease-1'', ''rc''] = Some (hs, b')
    \<and> map (\<lambda>h. string_slice h (builder_content b')) hs = [''prerelease-1'', ''rc'']"
  by (rule builder_count_allocate_append) (simp_all add: storable_def can_inline_iff)

end
