(* ===== verification/SemverVersion.thy ===== *)
theory SemverVersion
  imports StringStore
begin

text \<open>
  \<^verbatim>\<open>src/semver/Version.rs\<close>: versions, their tags, the three orders on them, the version parser, the
  formatter and the helpers around them. \<^verbatim>\<open>VersionType<T>\<close> is modelled at \<^verbatim>\<open>T = u64\<close>, the type
  \<^verbatim>\<open>Version\<close>; the 32-bit instance appears in the lockfile migration only.

  A \<^verbatim>\<open>u32\<close> length of a parse result is a \<^typ>\<open>nat\<close>: the source converts a byte index to \<^verbatim>\<open>u32\<close>, which is
  exact for inputs shorter than 4 GiB.
\<close>

section \<open>Data\<close>

record version_tag =
  pre :: external_string
  build :: external_string

record version =
  major :: u64
  minor :: u64
  patch :: u64
  tag :: version_tag

text \<open>\<^verbatim>\<open>VersionType<u32>\<close>\<close>

record version32 =
  major32 :: u32
  minor32 :: u32
  patch32 :: u32
  tag32 :: version_tag

record partial =
  p_major :: "u64 option"
  p_minor :: "u64 option"
  p_patch :: "u64 option"
  p_tag :: version_tag

text \<open>\<^verbatim>\<open>query::token::Wildcard\<close>\<close>

datatype wildcard = WNone | WMajor | WMinor | WPatch

datatype changed_version = CMajor | CMinor | CPatch | CPre | CBuild | CNone

datatype pinned_version = PMajor | PMinor | PPatch

record tag_result =
  tr_tag :: version_tag
  tr_len :: nat

record parse_result =
  pr_wildcard :: wildcard
  pr_valid :: bool
  pr_overflow :: bool
  pr_version :: partial
  pr_len :: nat

definition tag_default :: version_tag where
  "tag_default = \<lparr>pre = external_default, build = external_default\<rparr>"

definition version_default :: version where
  "version_default = \<lparr>major = 0, minor = 0, patch = 0, tag = tag_default\<rparr>"

definition partial_default :: partial where
  "partial_default = \<lparr>p_major = None, p_minor = None, p_patch = None, p_tag = tag_default\<rparr>"

definition tag_result_default :: tag_result where
  "tag_result_default = \<lparr>tr_tag = tag_default, tr_len = 0\<rparr>"

definition parse_result_default :: parse_result where
  "parse_result_default =
     \<lparr>pr_wildcard = WNone, pr_valid = True, pr_overflow = False, pr_version = partial_default,
      pr_len = 0\<rparr>"

definition ZERO_PRE :: version_tag where
  "ZERO_PRE =
     \<lparr>pre = \<lparr>es_value = \<lparr>raw = CHR ''0'' # replicate 7 (CHR 0x00)\<rparr>, es_hash = 0xb8f8325b21a8a1e5\<rparr>,
      build = \<lparr>es_value = EMPTY, es_hash = 0\<rparr>\<rparr>"

text \<open>\<^verbatim>\<open>VersionInt::parse_ascii\<close> for \<^verbatim>\<open>u64\<close>\<close>

definition parse_ascii :: "bytes \<Rightarrow> u64 option" where
  "parse_ascii s = (case parse_unsigned 64 s 10 of Inl _ \<Rightarrow> None | Inr n \<Rightarrow> Some (of_nat n))"

definition migrate :: "version32 \<Rightarrow> version" where
  "migrate v =
     \<lparr>major = ucast (major32 v), minor = ucast (minor32 v), patch = ucast (patch32 v),
      tag = \<lparr>pre = pre (tag32 v), build = build (tag32 v)\<rparr>\<rparr>"

definition partial_min :: "partial \<Rightarrow> version" where
  "partial_min p =
     \<lparr>major = (case p_major p of None \<Rightarrow> 0 | Some n \<Rightarrow> n),
      minor = (case p_minor p of None \<Rightarrow> 0 | Some n \<Rightarrow> n),
      patch = (case p_patch p of None \<Rightarrow> 0 | Some n \<Rightarrow> n), tag = p_tag p\<rparr>"

definition partial_max :: "partial \<Rightarrow> version" where
  "partial_max p =
     \<lparr>major = (case p_major p of None \<Rightarrow> U64_MAX | Some n \<Rightarrow> n),
      minor = (case p_minor p of None \<Rightarrow> U64_MAX | Some n \<Rightarrow> n),
      patch = (case p_patch p of None \<Rightarrow> U64_MAX | Some n \<Rightarrow> n), tag = p_tag p\<rparr>"

definition is_zero :: "version \<Rightarrow> bool" where
  "is_zero v \<longleftrightarrow> patch v = 0 \<and> minor v = 0 \<and> major v = 0"

section \<open>Tags\<close>

definition has_pre :: "version_tag \<Rightarrow> bool" where
  "has_pre t \<longleftrightarrow> \<not> external_is_empty (pre t)"

definition has_build :: "version_tag \<Rightarrow> bool" where
  "has_build t \<longleftrightarrow> \<not> external_is_empty (build t)"

definition tag_eql :: "version_tag \<Rightarrow> version_tag \<Rightarrow> bool" where
  "tag_eql t rhs \<longleftrightarrow> es_hash (pre t) = es_hash (pre rhs)"

text \<open>The loop of \<^verbatim>\<open>order_pre\<close> over the two iterators.\<close>

function order_pre_loop :: "split_iterator \<Rightarrow> split_iterator \<Rightarrow> ordering" where
  "order_pre_loop lhs_itr rhs_itr =
     (case split_next lhs_itr of
        (None, _) \<Rightarrow>
          (case split_next rhs_itr of (None, _) \<Rightarrow> Equal | (Some _, _) \<Rightarrow> Less)
      | (Some lhs_part, lhs_itr') \<Rightarrow>
          (case split_next rhs_itr of
             (None, _) \<Rightarrow> Greater
           | (Some rhs_part, rhs_itr') \<Rightarrow>
               (case (parse_ascii lhs_part, parse_ascii rhs_part) of
                  (Some _, None) \<Rightarrow> Less
                | (None, Some _) \<Rightarrow> Greater
                | (None, None) \<Rightarrow>
                    (case order lhs_part rhs_part of
                       Equal \<Rightarrow> order_pre_loop lhs_itr' rhs_itr'
                     | r \<Rightarrow> r)
                | (Some a, Some b) \<Rightarrow>
                    (case cmp a b of
                       Equal \<Rightarrow> order_pre_loop lhs_itr' rhs_itr'
                     | r \<Rightarrow> r))))"
  by pat_completeness auto
termination
  by (relation "measure (\<lambda>(l, r). split_left l)") (auto dest: split_next_Some [OF sym])

declare order_pre_loop.simps [simp del]

definition order_pre :: "version_tag \<Rightarrow> version_tag \<Rightarrow> bytes \<Rightarrow> bytes \<Rightarrow> ordering" where
  "order_pre t rhs lhs_buf rhs_buf =
     order_pre_loop (split (external_slice (pre t) lhs_buf) ''.'')
       (split (external_slice (pre rhs) rhs_buf) ''.'')"

definition tag_order :: "version_tag \<Rightarrow> version_tag \<Rightarrow> bytes \<Rightarrow> bytes \<Rightarrow> ordering" where
  "tag_order t rhs lhs_buf rhs_buf =
     (if \<not> external_is_empty (pre t) \<and> \<not> external_is_empty (pre rhs) then
        order_pre t rhs lhs_buf rhs_buf
      else
        let pre_order = external_order (pre t) (pre rhs) lhs_buf rhs_buf
        in if pre_order \<noteq> Equal then pre_order
           else external_order (build t) (build rhs) lhs_buf rhs_buf)"

definition tag_order_without_build :: "version_tag \<Rightarrow> version_tag \<Rightarrow> bytes \<Rightarrow> bytes \<Rightarrow> ordering" where
  "tag_order_without_build t rhs lhs_buf rhs_buf =
     (if \<not> external_is_empty (pre t) \<and> \<not> external_is_empty (pre rhs) then
        order_pre t rhs lhs_buf rhs_buf
      else external_order (pre t) (pre rhs) lhs_buf rhs_buf)"

section \<open>Orders on versions\<close>

definition order_without_tag :: "version \<Rightarrow> version \<Rightarrow> ordering" where
  "order_without_tag lhs rhs =
     (if major lhs < major rhs then Less
      else if major lhs > major rhs then Greater
      else if minor lhs < minor rhs then Less
      else if minor lhs > minor rhs then Greater
      else if patch lhs < patch rhs then Less
      else if patch lhs > patch rhs then Greater
      else if has_pre (tag lhs) then (if \<not> has_pre (tag rhs) then Less else Equal)
      else (if has_pre (tag rhs) then Greater else Equal))"

definition version_order :: "version \<Rightarrow> version \<Rightarrow> bytes \<Rightarrow> bytes \<Rightarrow> ordering" where
  "version_order v rhs lhs_buf rhs_buf =
     (let o' = order_without_tag v rhs
      in if o' \<noteq> Equal then o' else tag_order (tag v) (tag rhs) lhs_buf rhs_buf)"

definition order_without_build :: "version \<Rightarrow> version \<Rightarrow> bytes \<Rightarrow> bytes \<Rightarrow> ordering" where
  "order_without_build v rhs lhs_buf rhs_buf =
     (let o' = order_without_tag v rhs
      in if o' \<noteq> Equal then o' else tag_order_without_build (tag v) (tag rhs) lhs_buf rhs_buf)"

definition version_eql :: "version \<Rightarrow> version \<Rightarrow> bool" where
  "version_eql v rhs \<longleftrightarrow>
     major v = major rhs \<and> minor v = minor rhs \<and> patch v = patch rhs \<and> tag_eql (tag rhs) (tag v)"

definition which_version_is_different ::
  "version \<Rightarrow> version \<Rightarrow> bytes \<Rightarrow> bytes \<Rightarrow> changed_version option" where
  "which_version_is_different left right left_buf right_buf =
     (if major left \<noteq> major right then Some CMajor
      else if minor left \<noteq> minor right then Some CMinor
      else if patch left \<noteq> patch right then Some CPatch
      else if has_pre (tag left) \<noteq> has_pre (tag right) then Some CPre
      else if \<not> has_pre (tag left) \<and> \<not> has_pre (tag right) then None
      else if order_pre (tag left) (tag right) left_buf right_buf \<noteq> Equal then Some CPre
      else if has_build (tag left) \<noteq> has_build (tag right) then Some CBuild
      else if \<not> has_build (tag left) \<and> \<not> has_build (tag right) then None
      else if external_order (build (tag left)) (build (tag right)) left_buf right_buf \<noteq> Equal
      then Some CBuild
      else None)"

subsection \<open>The orders are total preorders\<close>

text \<open>How \<^verbatim>\<open>order_pre\<close> compares two dot-separated identifiers.\<close>

definition part_order :: "bytes \<Rightarrow> bytes \<Rightarrow> ordering" where
  "part_order x y =
     (case (parse_ascii x, parse_ascii y) of
        (Some _, None) \<Rightarrow> Less
      | (None, Some _) \<Rightarrow> Greater
      | (None, None) \<Rightarrow> order x y
      | (Some a, Some b) \<Rightarrow> cmp a b)"

text \<open>As a chain of keys: numbers before other identifiers, numbers by value, the rest bytewise.\<close>

definition numeric_value :: "bytes \<Rightarrow> u64" where
  "numeric_value x = (case parse_ascii x of None \<Rightarrow> 0 | Some n \<Rightarrow> n)"

definition text_value :: "bytes \<Rightarrow> bytes" where
  "text_value x = (if parse_ascii x = None then x else [])"

lemma part_order_keys:
  "part_order = then_order (\<lambda>x y. cmp (parse_ascii x = None) (parse_ascii y = None))
     (then_order (\<lambda>x y. cmp (numeric_value x) (numeric_value y))
        (\<lambda>x y. order (text_value x) (text_value y)))"
  by (auto simp: fun_eq_iff part_order_def then_order_def numeric_value_def text_value_def cmp_def
      split: option.splits ordering.splits)

interpretation part_ord: total_preorder part_order
  unfolding part_order_keys
  by (intro then_order_total_preorder cmp_ord.comap bytes_ord.comap)

interpretation parts_ord: total_preorder "lex_order part_order"
  by (rule part_ord.lex_total_preorder)

lemma order_pre_loop_step:
  "order_pre_loop l r =
     (case split_next l of
        (None, _) \<Rightarrow> (case split_next r of (None, _) \<Rightarrow> Equal | (Some _, _) \<Rightarrow> Less)
      | (Some x, l') \<Rightarrow>
          (case split_next r of
             (None, _) \<Rightarrow> Greater
           | (Some y, r') \<Rightarrow> (case part_order x y of Equal \<Rightarrow> order_pre_loop l' r' | o' \<Rightarrow> o')))"
  by (subst order_pre_loop.simps)
    (auto simp: part_order_def split: prod.splits option.splits ordering.splits)

lemma order_pre_loop_lex:
  "order_pre_loop l r = lex_order part_order (split_fields l) (split_fields r)"
proof (induction "split_left l" arbitrary: l r rule: less_induct)
  case less
  show ?case
    by (subst order_pre_loop_step, subst (1 2) split_fields.simps)
      (auto split: prod.splits option.splits ordering.splits intro: less split_next_Some)
qed

lemma order_pre_eq:
  "order_pre s t b c =
   lex_order part_order (split_on (CHR ''.'') (external_slice (pre s) b))
     (split_on (CHR ''.'') (external_slice (pre t) c))"
  by (simp add: order_pre_def order_pre_loop_lex split_fields_eq)

text \<open>What a version is compared by: the numbers, whether it is a release, and its tag text.\<close>

definition release_key :: "version \<Rightarrow> bool" where
  "release_key v = (\<not> has_pre (tag v))"

definition pre_key :: "version \<times> bytes \<Rightarrow> bytes list" where
  "pre_key vb = (if has_pre (tag (fst vb))
     then split_on (CHR ''.'') (external_slice (pre (tag (fst vb))) (snd vb)) else [])"

definition build_key :: "version \<times> bytes \<Rightarrow> bytes" where
  "build_key vb = (if has_pre (tag (fst vb)) then [] else external_slice (build (tag (fst vb))) (snd vb))"

lemma order_without_tag_keys:
  "order_without_tag = then_order (\<lambda>v w. cmp (major v) (major w))
     (then_order (\<lambda>v w. cmp (minor v) (minor w))
        (then_order (\<lambda>v w. cmp (patch v) (patch w)) (\<lambda>v w. cmp (release_key v) (release_key w))))"
  by (auto simp: fun_eq_iff order_without_tag_def then_order_def cmp_def release_key_def)

interpretation core_ord: total_preorder order_without_tag
  unfolding order_without_tag_keys by (intro then_order_total_preorder cmp_ord.comap)

lemma tag_order_keys:
  assumes "order_without_tag v w = Equal"
  shows "tag_order (tag v) (tag w) b c =
      then_order (\<lambda>x y. lex_order part_order (pre_key x) (pre_key y))
        (\<lambda>x y. order (build_key x) (build_key y)) (v, b) (w, c)"
    and "tag_order_without_build (tag v) (tag w) b c =
      lex_order part_order (pre_key (v, b)) (pre_key (w, c))"
proof -
  have same: "has_pre (tag v) = has_pre (tag w)"
    using assms by (simp add: order_without_tag_def split: if_splits)
  have none: "external_slice (pre (tag u)) d = []" if "\<not> has_pre (tag u)" for u d
    using that by (simp add: has_pre_def external_is_empty_def external_slice_def string_empty_slice)
  show "tag_order (tag v) (tag w) b c =
      then_order (\<lambda>x y. lex_order part_order (pre_key x) (pre_key y))
        (\<lambda>x y. order (build_key x) (build_key y)) (v, b) (w, c)"
    "tag_order_without_build (tag v) (tag w) b c =
      lex_order part_order (pre_key (v, b)) (pre_key (w, c))"
    using same none [of v b] none [of w c]
    by (auto simp: tag_order_def tag_order_without_build_def order_pre_eq pre_key_def build_key_def
        then_order_def has_pre_def external_order_def string_order_def external_slice_def Let_def
        split: ordering.splits)
qed

lemma version_order_keys:
  "(\<lambda>x y. version_order (fst x) (fst y) (snd x) (snd y)) =
   then_order (\<lambda>x y. order_without_tag (fst x) (fst y))
     (then_order (\<lambda>x y. lex_order part_order (pre_key x) (pre_key y))
        (\<lambda>x y. order (build_key x) (build_key y)))"
  by (auto simp: fun_eq_iff version_order_def then_order_def [of "\<lambda>x y. order_without_tag (fst x) (fst y)"]
      tag_order_keys Let_def split: ordering.splits)

lemma order_without_build_keys:
  "(\<lambda>x y. order_without_build (fst x) (fst y) (snd x) (snd y)) =
   then_order (\<lambda>x y. order_without_tag (fst x) (fst y))
     (\<lambda>x y. lex_order part_order (pre_key x) (pre_key y))"
  by (auto simp: fun_eq_iff order_without_build_def then_order_def tag_order_keys Let_def
      split: ordering.splits)

text \<open>A version is compared together with the buffer its tag strings point into.\<close>

interpretation version_ord:
  total_preorder "\<lambda>x y. version_order (fst x) (fst y) (snd x) (snd y)"
  unfolding version_order_keys
  by (intro then_order_total_preorder core_ord.comap parts_ord.comap bytes_ord.comap)

interpretation precedence:
  total_preorder "\<lambda>x y. order_without_build (fst x) (fst y) (snd x) (snd y)"
  unfolding order_without_build_keys
  by (intro then_order_total_preorder core_ord.comap parts_ord.comap)

section \<open>Parsing\<close>

subsection \<open>Tags\<close>

datatype tag_state = TNone | TPre | TBuild

text \<open>\<^verbatim>\<open>for &c in input { match c { b' ' => break, .. } }\<close> of \<^verbatim>\<open>parse_with_pre_count\<close>\<close>

fun count_tags :: "bytes \<Rightarrow> nat \<Rightarrow> nat \<Rightarrow> nat \<times> nat" where
  "count_tags [] build_count pre_count = (build_count, pre_count)"
| "count_tags (c # cs) build_count pre_count =
     (if c = CHR '' '' then (build_count, pre_count)
      else if c = CHR ''+'' then count_tags cs (build_count + 1) pre_count
      else if c = CHR ''-'' then count_tags cs build_count (pre_count + 1)
      else count_tags cs build_count pre_count)"

text \<open>\<^verbatim>\<open>sliced_string.sub(&input[start..i]).external()\<close>\<close>

definition sub_external :: "sliced_string \<Rightarrow> nat \<Rightarrow> nat \<Rightarrow> external_string" where
  "sub_external sl start i =
     sliced_external (sliced_sub sl (sl_off sl + start) (subslice (sl_slice sl) start i))"

function tag_loop ::
  "sliced_string \<Rightarrow> nat \<Rightarrow> nat \<Rightarrow> tag_state \<Rightarrow> nat \<Rightarrow> version_tag \<Rightarrow> nat \<times> tag_state \<times> nat \<times> version_tag" where
  "tag_loop sl initial_pre_count i st start t =
     (if i < length (sl_slice sl) then
        let c = sl_slice sl ! i in
        if c = CHR ''+'' then
          let t' = (if st = TPre \<or> st = TNone \<and> initial_pre_count > 0
                    then t\<lparr>pre := sub_external sl start i\<rparr> else t)
          in if st \<noteq> TBuild then tag_loop sl initial_pre_count (i + 1) TBuild (i + 1) t'
             else tag_loop sl initial_pre_count (i + 1) st start t'
        else if c = CHR ''-'' then
          if st = TNone then tag_loop sl initial_pre_count (i + 1) TPre (i + 1) t
          else tag_loop sl initial_pre_count (i + 1) st start t
        else if is_ascii_alphanumeric c \<or> c = CHR ''.'' then
          tag_loop sl initial_pre_count (i + 1) st start t
        else
          (case st of
             TNone \<Rightarrow> (i, TNone, start, t)
           | TPre \<Rightarrow> (i, TNone, start, t\<lparr>pre := sub_external sl start i\<rparr>)
           | TBuild \<Rightarrow> (i, TNone, start, t\<lparr>build := sub_external sl start i\<rparr>))
      else (i, st, start, t))"
  by pat_completeness auto
termination
  by (relation "measure (\<lambda>(sl, k, i, st, start, t). length (sl_slice sl) - i)") auto

declare tag_loop.simps [simp del]

definition parse_with_pre_count :: "sliced_string \<Rightarrow> nat \<Rightarrow> tag_result" where
  "parse_with_pre_count sl initial_pre_count =
     (let (build_count, pre_count) = count_tags (sl_slice sl) 0 initial_pre_count in
      if build_count = 0 \<and> pre_count = 0 then tag_result_default\<lparr>tr_len := 0\<rparr>
      else
        let (i, st, start, t) = tag_loop sl initial_pre_count 0 TNone 0 tag_default;
            (st, start) = (if st = TNone \<and> initial_pre_count > 0 then (TPre, 0) else (st, start));
            t = (case st of
                   TNone \<Rightarrow> t
                 | TPre \<Rightarrow> t\<lparr>pre := sub_external sl start i\<rparr>
                 | TBuild \<Rightarrow> t\<lparr>build := sub_external sl start i\<rparr>)
        in \<lparr>tr_tag = t, tr_len = i\<rparr>)"

definition tag_parse :: "sliced_string \<Rightarrow> tag_result" where
  "tag_parse sl = parse_with_pre_count sl 0"

subsection \<open>Versions\<close>

definition parse_version_number :: "bytes \<Rightarrow> u64 option" where
  "parse_version_number input = parse_ascii input"

text \<open>The characters skipped in front of a version: whitespace, \<^verbatim>\<open>v\<close> and \<^verbatim>\<open>=\<close>.\<close>

definition is_version_lead :: "u8 \<Rightarrow> bool" where
  "is_version_lead c \<longleftrightarrow>
     c \<in> {CHR '' '', CHR 0x09, CHR 0x0A, CHR 0x0D, CHR 0x0B, CHR 0x0C, CHR ''v'', CHR ''=''}"

definition is_wildcard_char :: "u8 \<Rightarrow> bool" where
  "is_wildcard_char c \<longleftrightarrow> c \<in> {CHR ''x'', CHR ''*'', CHR ''X''}"

text \<open>The number just read becomes the major, minor or patch number.\<close>

definition set_part :: "nat \<Rightarrow> u64 option \<Rightarrow> partial \<Rightarrow> partial" where
  "set_part part_i number v =
     (if part_i = 0 then v\<lparr>p_major := number\<rparr>
      else if part_i = 1 then v\<lparr>p_minor := number\<rparr>
      else v\<lparr>p_patch := number\<rparr>)"

text \<open>
  The \<^verbatim>\<open>while\<close> loop of \<^verbatim>\<open>Version::parse\<close>, one match arm at a time. The loop's variables are
  \<open>(i, part_i, result)\<close>; \<^const>\<open>Inl\<close> leaves the loop with them and \<^const>\<open>Inr\<close> goes on. Every
  \<^verbatim>\<open>is_done = true\<close> of the source is followed by a \<^verbatim>\<open>break\<close>, so it needs no variable.
\<close>

type_synonym parse_vars = "nat \<times> nat \<times> parse_result"

definition number_step :: "sliced_string \<Rightarrow> nat \<Rightarrow> nat \<Rightarrow> parse_result \<Rightarrow> parse_vars + parse_vars" where
  "number_step sl i part_i result =
     (let input = sl_slice sl;
          last_char_i = skip_while is_ascii_digit input (i + 1);
          number = parse_version_number (subslice input i last_char_i)
      in if part_i < 3 \<and> number = None \<and> pr_wildcard result = WNone then
           Inl (last_char_i, part_i, result\<lparr>pr_valid := False, pr_overflow := True\<rparr>)
         else
           let result' =
                 (if part_i < 3 then
                    (if number = None then result\<lparr>pr_valid := False\<rparr> else result)
                      \<lparr>pr_version := set_part part_i number (pr_version result)\<rparr>
                  else result);
               part_i' = (if part_i < 3 then part_i + 1 else part_i);
               i' = (if last_char_i < length input \<and> input ! last_char_i = CHR ''.'' \<and> part_i' \<noteq> 3
                     then last_char_i + 1 else last_char_i)
           in Inr (i', part_i', result'))"

definition tag_step :: "sliced_string \<Rightarrow> nat \<Rightarrow> nat \<Rightarrow> nat \<Rightarrow> parse_result \<Rightarrow> parse_vars + parse_vars" where
  "tag_step sl initial_pre_count i part_i result =
     (let tag_result =
            parse_with_pre_count (sliced_sub sl (sl_off sl + i) (drop i (sl_slice sl))) initial_pre_count
      in Inl (i + tr_len tag_result, part_i,
              result\<lparr>pr_version := (pr_version result)\<lparr>p_tag := tr_tag tag_result\<rparr>\<rparr>))"

definition wildcard_step :: "sliced_string \<Rightarrow> nat \<Rightarrow> nat \<Rightarrow> parse_result \<Rightarrow> parse_vars + parse_vars" where
  "wildcard_step sl i part_i result =
     (let input = sl_slice sl;
          result' = (if i > 0 \<and> is_ascii_digit (input ! (i - 1)) then result\<lparr>pr_valid := False\<rparr>
                     else result);
          last_char_i = skip_while is_wildcard_char input (i + 1);
          i' = (if last_char_i < length input \<and> input ! last_char_i = CHR ''.''
                then last_char_i + 1 else last_char_i)
      in if pr_wildcard result' = WNone then
           (if part_i = 0 then Inr (i', 1, result'\<lparr>pr_wildcard := WMajor\<rparr>)
            else if part_i = 1 then Inr (i', 2, result'\<lparr>pr_wildcard := WMinor\<rparr>)
            else if part_i = 2 then Inr (i', 3, result'\<lparr>pr_wildcard := WPatch\<rparr>)
            else Inr (i', part_i, result'))
         else Inr (i', part_i, result'))"

definition parse_step :: "sliced_string \<Rightarrow> nat \<Rightarrow> nat \<Rightarrow> parse_result \<Rightarrow> parse_vars + parse_vars" where
  "parse_step sl i part_i result =
     (let c = sl_slice sl ! i in
      if c = CHR '' '' then Inl (i, part_i, result)
      else if c \<in> {CHR ''|'', CHR ''^'', CHR ''#'', CHR ''&'', CHR ''%'', CHR ''!''} then
        Inl (i - 1, part_i, result)
      else if is_ascii_digit c then number_step sl i part_i result
      else if c = CHR ''.'' then Inl (i, part_i, result\<lparr>pr_valid := False\<rparr>)
      else if c = CHR ''-'' \<or> c = CHR ''+'' then
        let fewest_parts = (if c = CHR ''+'' then 1 else 2)
        in if part_i < fewest_parts \<and> pr_wildcard result = WNone then
             Inl (i, part_i, result\<lparr>pr_valid := False\<rparr>)
           else tag_step sl 0 i part_i result
      else if is_wildcard_char c then wildcard_step sl i part_i result
      else if pr_wildcard result = WNone \<and> part_i \<ge> 2 \<and> is_ascii_alphabetic c then
        tag_step sl 1 i part_i result
      else Inl (i, part_i, result\<lparr>pr_valid := False\<rparr>))"

lemma number_step_progress: "number_step sl i part_i r = Inr (i', p', r') \<Longrightarrow> i < i'"
  using skip_while_ge [of "i + 1" is_ascii_digit "sl_slice sl"]
  by (auto simp: number_step_def Let_def split: if_splits)

lemma wildcard_step_progress: "wildcard_step sl i part_i r = Inr (i', p', r') \<Longrightarrow> i < i'"
  using skip_while_ge [of "i + 1" is_wildcard_char "sl_slice sl"]
  by (auto simp: wildcard_step_def Let_def split: if_splits)

lemma parse_step_progress: "parse_step sl i part_i r = Inr (i', p', r') \<Longrightarrow> i < i'"
  by (auto simp: parse_step_def tag_step_def Let_def split: if_splits
      dest: number_step_progress wildcard_step_progress)

function parse_loop :: "sliced_string \<Rightarrow> nat \<Rightarrow> nat \<Rightarrow> parse_result \<Rightarrow> parse_vars" where
  "parse_loop sl i part_i result =
     (if i < length (sl_slice sl) then
        case parse_step sl i part_i result of
          Inl vars \<Rightarrow> vars
        | Inr (i', part_i', result') \<Rightarrow> parse_loop sl i' part_i' result'
      else (i, part_i, result))"
  by pat_completeness auto
termination
  by (relation "measure (\<lambda>(sl, i, part_i, result). length (sl_slice sl) - i)")
    (auto dest: parse_step_progress)

declare parse_loop.simps [simp del]

definition version_parse :: "sliced_string \<Rightarrow> parse_result" where
  "version_parse sl =
     (let input = sl_slice sl; result = parse_result_default in
      if input = [] then result\<lparr>pr_valid := False\<rparr>
      else
        let i = skip_while is_version_lead input 0 in
        if i = length input then
          result\<lparr>pr_valid := False, pr_wildcard := WMajor, pr_len := i\<rparr>
        else
          let (i, part_i, result) = parse_loop sl i 0 result;
              result =
                (if pr_wildcard result = WNone then
                   if part_i = 0 then result\<lparr>pr_valid := False, pr_wildcard := WMajor\<rparr>
                   else if part_i = 1 then result\<lparr>pr_wildcard := WMinor\<rparr>
                   else if part_i = 2 then result\<lparr>pr_wildcard := WPatch\<rparr>
                   else result
                 else result)
          in result\<lparr>pr_len := i\<rparr>)"

definition parse_utf8 :: "bytes \<Rightarrow> parse_result" where
  "parse_utf8 s = version_parse (sliced_init s 0 s)"

definition parse_exact :: "sliced_string \<Rightarrow> version option" where
  "parse_exact sl =
     (let b = trim_left_begin (sl_slice sl) WHITESPACE_CHARS 0;
          trimmed = trim (sl_slice sl) WHITESPACE_CHARS;
          parsed = version_parse (sliced_sub sl (sl_off sl + b) trimmed)
      in if pr_valid parsed \<and> pr_wildcard parsed = WNone \<and> pr_len parsed = length trimmed
         then Some (partial_min (pr_version parsed)) else None)"

definition valid_pre_or_build_tag_character :: "u8 \<Rightarrow> bool" where
  "valid_pre_or_build_tag_character c \<longleftrightarrow>
     c \<in> {CHR ''-'', CHR ''+'', CHR ''.''} \<or> is_ascii_alphanumeric c"

section \<open>The lowest prerelease\<close>

lemma zero_pre_value: "es_value (pre ZERO_PRE) = inline_bytes ''0''"
  by (simp add: ZERO_PRE_def inline_bytes_def)

lemma zero_pre_slice [simp]: "external_slice (pre ZERO_PRE) b = ''0''"
  unfolding external_slice_def zero_pre_value by (rule inline_slice) (simp_all add: can_inline_iff)

lemma zero_pre_has_pre [simp]: "has_pre ZERO_PRE"
  using zero_pre_slice string_empty_slice [of "es_value (pre ZERO_PRE)" "[]"]
  by (auto simp: has_pre_def external_is_empty_def external_slice_def)

lemma tag_default_has_pre [simp]: "\<not> has_pre tag_default" "\<not> has_build tag_default"
  by (simp_all add: has_pre_def has_build_def tag_default_def external_default_def external_is_empty_def
      string_is_empty_def EMPTY_def from_le_bytes_def numeral_eq_Suc)

lemma zero_pre_hash: "wyhash11_hash 0 ''0'' = 0xb8f8325b21a8a1e5"
  by code_simp

lemma parse_ascii_zero: "parse_ascii ''0'' = Some 0"
  by (simp add: parse_ascii_def parse_unsigned_def auto_radix_def parse_with_sign_def digit_value_def)

lemma part_order_zero: "part_order ''0'' x \<noteq> Greater"
  by (auto simp: part_order_def parse_ascii_zero cmp_def split: option.splits)

lemma split_on_nonempty [simp]: "split_on d xs \<noteq> []"
  by (subst split_on_unfold) simp

lemma lex_zero_least: "lex_order part_order [''0''] (split_on d s) \<noteq> Greater"
proof (cases "split_on d s")
  case (Cons x xs)
  then show ?thesis
    using part_order_zero [of x] by (cases "part_order ''0'' x"; cases xs) auto
qed simp

lemma zero_pre_least:
  assumes "major v = major w" "minor v = minor w" "patch v = patch w"
  shows "order_without_build (v\<lparr>tag := ZERO_PRE\<rparr>) w b c \<noteq> Greater"
  using assms lex_zero_least
  by (auto simp: order_without_build_def order_without_tag_def tag_order_without_build_def
      order_pre_eq has_pre_def [symmetric] Let_def)

section \<open>Properties\<close>

text \<open>
  C28. \<^verbatim>\<open>Version::order\<close> and \<^verbatim>\<open>Version::order_without_build\<close> are total preorders on versions, each
  taken with the buffer its tag strings point into: reflexive, antisymmetric in the sense that
  swapping the arguments reverses the result, and transitive, for all handles, even those that
  reach outside their buffer.
\<close>

theorem version_orders_total_preorder:
  "total_preorder (\<lambda>x y. version_order (fst x) (fst y) (snd x) (snd y))
   \<and> total_preorder (\<lambda>x y. order_without_build (fst x) (fst y) (snd x) (snd y))"
  by (rule conjI [OF version_ord.total_preorder_axioms precedence.total_preorder_axioms])

section \<open>The precedence of the specification\<close>

text \<open>
  Precedence as the semver specification states it, on identifiers without a bound on their numbers: identifiers of
  digits only compare as numbers, the others bytewise, and numbers are lower than the others.
\<close>

definition is_numeric :: "bytes \<Rightarrow> bool" where
  "is_numeric x \<longleftrightarrow> x \<noteq> [] \<and> set x \<subseteq> set ''0123456789''"

definition numeral_value :: "bytes \<Rightarrow> nat" where
  "numeral_value x = foldl (\<lambda>n c. 10 * n + (of_char c - 48)) 0 x"

definition identifier_order :: "bytes \<Rightarrow> bytes \<Rightarrow> ordering" where
  "identifier_order x y =
     (if is_numeric x \<and> is_numeric y then cmp (numeral_value x) (numeral_value y)
      else if is_numeric x then Less
      else if is_numeric y then Greater
      else lex_order cmp x y)"

definition identifiers :: "version \<Rightarrow> bytes \<Rightarrow> bytes list" where
  "identifiers v b = split_on (CHR ''.'') (external_slice (pre (tag v)) b)"

definition precedence_order :: "version \<times> bytes \<Rightarrow> version \<times> bytes \<Rightarrow> ordering" where
  "precedence_order x y =
     (let (v, b) = x; (w, c) = y
      in case lex_order cmp [major v, minor v, patch v] [major w, minor w, patch w] of
           Equal \<Rightarrow>
             if has_pre (tag v) \<and> has_pre (tag w) then lex_order identifier_order (identifiers v b) (identifiers w c)
             else if has_pre (tag v) then Less
             else if has_pre (tag w) then Greater
             else Equal
         | r \<Rightarrow> r)"

text \<open>An identifier of the grammar whose number, if it is one, fits in 64 bits; the grammar has no underscore\<close>

definition fits_u64 :: "bytes \<Rightarrow> bool" where
  "fits_u64 x \<longleftrightarrow> CHR ''_'' \<notin> set x \<and> (is_numeric x \<longrightarrow> numeral_value x < 2 ^ 64)"

lemma digit_value_decimal:
  "c \<in> set ''0123456789'' \<Longrightarrow> digit_value c = Some (of_char c - 48) \<and> of_char c - 48 < (10::nat) \<and> c \<noteq> CHR ''_''"
  by (auto simp: digit_value_def less_eq_char_def)

lemma digit_value_other:
  assumes "c \<notin> set ''0123456789''" "digit_value c = Some d"
  shows "10 \<le> d"
proof (rule ccontr)
  assume "\<not> 10 \<le> d"
  then have c: "CHR ''0'' \<le> c" "c \<le> CHR ''9''" using assms(2) by (auto simp: digit_value_def split: if_splits)
  then have "of_char c \<in> set [48..<58 :: nat]" unfolding set_upt less_eq_char_def by simp
  then have "c \<in> char_of ` set [48..<58 :: nat]" by (metis char_of_char image_eqI)
  moreover have "map char_of [48..<58 :: nat] = ''0123456789''" by code_simp
  ultimately show False using assms(1) by (metis list.set_map)
qed

lemma parse_digits_decimal:
  assumes "set x \<subseteq> set ''0123456789''" "foldl (\<lambda>n c. 10 * n + (of_char c - 48)) acc x < 2 ^ 128"
  shows "parse_digits 10 acc x = Inr (foldl (\<lambda>n c. 10 * n + (of_char c - 48)) acc x)"
  using assms
proof (induction x arbitrary: acc)
  case (Cons c x)
  have le: "n \<le> foldl (\<lambda>n c. 10 * n + (of_char c - 48)) n y" for n :: nat and y :: bytes
  proof (induction y arbitrary: n)
    case (Cons c y)
    have "n \<le> 10 * n + (of_char c - 48)" by simp
    also note Cons
    finally show ?case by simp
  qed simp
  have "10 * acc + (of_char c - 48) < 2 ^ 128" using le [of "10 * acc + (of_char c - 48)" x] Cons.prems(2) by simp
  then show ?case using Cons digit_value_decimal [of c] by (auto simp: mult.commute)
qed simp

lemma parse_digits_other:
  "\<not> set x \<subseteq> set ''0123456789'' \<Longrightarrow> CHR ''_'' \<notin> set x \<Longrightarrow> \<exists>e. parse_digits 10 acc x = Inl e"
proof (induction x arbitrary: acc)
  case (Cons c x)
  show ?case
  proof (cases "c \<in> set ''0123456789''")
    case True
    then show ?thesis using Cons digit_value_decimal [of c] by auto
  next
    case False
    then show ?thesis using Cons.prems(2) digit_value_other [of c] by (auto split: option.split)
  qed
qed simp

lemma parse_ascii_identifier:
  assumes "fits_u64 x"
  shows "parse_ascii x = (if is_numeric x then Some (of_nat (numeral_value x)) else None)"
proof -
  have u: "CHR ''_'' \<notin> set x" using assms by (simp add: fits_u64_def)
  show ?thesis
  proof (cases "is_numeric x")
    case True
    then have d: "x \<noteq> []" "set x \<subseteq> set ''0123456789''" and v: "numeral_value x < 2 ^ 64"
      using assms by (simp_all add: is_numeric_def fits_u64_def)
    have "parse_digits 10 0 x = Inr (numeral_value x)"
      using parse_digits_decimal [OF d(2), of 0] v by (simp add: numeral_value_def)
    moreover have "hd x \<noteq> CHR ''_''" "last x \<noteq> CHR ''_''" using u d(1) by (metis hd_in_set, metis last_in_set)
    ultimately show ?thesis
      using True d(1) v by (simp add: parse_ascii_def parse_unsigned_def auto_radix_def parse_with_sign_def)
  next
    case False
    then have "\<exists>e. parse_with_sign x 10 = Inl e"
      using parse_digits_other [of x 0] u by (auto simp: parse_with_sign_def is_numeric_def)
    then show ?thesis using False by (auto simp: parse_ascii_def parse_unsigned_def auto_radix_def)
  qed
qed

lemma part_order_identifier:
  assumes "fits_u64 x" "fits_u64 y"
  shows "part_order x y = identifier_order x y"
proof -
  have "cmp (of_nat m) (of_nat n :: u64) = cmp m n" if "m < 2 ^ 64" "n < 2 ^ 64" for m n
    using that by (simp add: cmp_def word_of_nat_less_iff take_bit_nat_eq_self)
  then show ?thesis
    using assms parse_ascii_identifier [OF assms(1)] parse_ascii_identifier [OF assms(2)]
    by (simp add: part_order_def identifier_order_def fits_u64_def order_lex)
qed

lemma lex_order_cong:
  assumes "\<And>x y. x \<in> set xs \<Longrightarrow> y \<in> set ys \<Longrightarrow> f x y = g x y"
  shows "lex_order f xs ys = lex_order g xs ys"
  using assms by (induction f xs ys rule: lex_order.induct) (auto split: ordering.split)

text \<open>
  C29. \<^verbatim>\<open>order_without_build\<close> is the precedence of the semver specification for versions whose numeric prerelease
  identifiers fit in 64 bits: the numbers decide first, a prerelease is lower than its release, and two
  prereleases compare by their dot-separated identifiers, numbers by value and before text, text bytewise, a prefix
  first. The build never matters.
\<close>

theorem order_without_build_precedence:
  assumes "list_all fits_u64 (identifiers v b)" "list_all fits_u64 (identifiers w c)"
  shows "order_without_build v w b c = precedence_order (v, b) (w, c)"
proof -
  have none: "external_slice (pre (tag u)) d = []" if "\<not> has_pre (tag u)" for u d
    using that by (simp add: has_pre_def external_is_empty_def external_slice_def string_empty_slice)
  have "order_without_build v w b c =
      then_order (\<lambda>x y. order_without_tag (fst x) (fst y))
        (\<lambda>x y. lex_order part_order (pre_key x) (pre_key y)) (v, b) (w, c)"
    using fun_cong [OF fun_cong [OF order_without_build_keys], of "(v, b)" "(w, c)"] by simp
  moreover have "lex_order part_order (identifiers v b) (identifiers w c) = lex_order identifier_order (identifiers v b) (identifiers w c)"
    using assms by (intro lex_order_cong part_order_identifier) (auto simp: list_all_iff)
  ultimately show ?thesis
    by (auto simp: precedence_order_def then_order_def order_without_tag_def cmp_def pre_key_def identifiers_def split: ordering.splits)
qed

definition tagged :: "bytes \<Rightarrow> version" where
  "tagged s = \<lparr>major = 1, minor = 0, patch = 0, tag = tag_default\<lparr>pre := \<lparr>es_value = inline_bytes s, es_hash = 0\<rparr>\<rparr>\<rparr>"

theorem order_without_build_precedence_witness:
  "order_without_build (tagged ''rc.9'') (tagged ''rc.10'') [] [] = Less"
proof -
  have i: "identifiers (tagged ''rc.9'') [] = [''rc'', ''9'']" "identifiers (tagged ''rc.10'') [] = [''rc'', ''10'']" by code_simp+
  have n: "\<not> is_numeric ''rc''" "is_numeric ''9''" "is_numeric ''10''" "numeral_value ''9'' = 9" "numeral_value ''10'' = 10"
    by (simp_all add: is_numeric_def numeral_value_def)
  have p: "has_pre (tag (tagged ''rc.9''))" "has_pre (tag (tagged ''rc.10''))" by code_simp+
  have "list_all fits_u64 (identifiers (tagged ''rc.9'') [])" "list_all fits_u64 (identifiers (tagged ''rc.10'') [])"
    using n by (simp_all add: i fits_u64_def)
  from order_without_build_precedence [OF this] show ?thesis
    using n p by (simp add: precedence_order_def i identifier_order_def cmp_def) (simp add: tagged_def)
qed

text \<open>Above 64 bits the numbers compare as text, although the specification compares them by value\<close>

lemma huge_numbers_compare_as_text:
  "part_order ''99999999999999999999'' ''100000000000000000000'' = Greater
   \<and> identifier_order ''99999999999999999999'' ''100000000000000000000'' = Less"
proof -
  have "parse_digits 10 0 ''99999999999999999999'' = Inr 99999999999999999999"
    "parse_digits 10 0 ''100000000000000000000'' = Inr 100000000000000000000"
    by (subst parse_digits_decimal; simp)+
  then have "parse_ascii ''99999999999999999999'' = None" "parse_ascii ''100000000000000000000'' = None"
    by (simp_all add: parse_ascii_def parse_unsigned_def auto_radix_def parse_with_sign_def)
  moreover have "is_numeric ''99999999999999999999''" "is_numeric ''100000000000000000000''"
    "numeral_value ''99999999999999999999'' = 99999999999999999999" "numeral_value ''100000000000000000000'' = 100000000000000000000"
    by (simp_all add: is_numeric_def numeral_value_def)
  ultimately show ?thesis by (simp add: part_order_def identifier_order_def cmp_def less_char_def)
qed

text \<open>
  \<^verbatim>\<open>which_version_is_different\<close> reports a difference in a number or in the prerelease exactly when
  the two versions differ in precedence.
\<close>

theorem which_version_is_different_iff:
  "which_version_is_different v w b c \<in> {None, Some CBuild} \<longleftrightarrow> order_without_build v w b c = Equal"
proof (cases "order_without_tag v w = Equal")
  case True
  then show ?thesis
    using tag_order_keys(2) [OF True, of b c]
    by (auto simp: which_version_is_different_def order_without_build_def order_without_tag_def
        order_pre_eq pre_key_def split: if_splits)
next
  case False
  then show ?thesis
    by (auto simp: which_version_is_different_def order_without_build_def order_without_tag_def
        Let_def split: if_splits)
qed

end
