(* ===== verification/SemverVersionOps.thy ===== *)
theory SemverVersionOps
  imports SemverVersion
begin

text \<open>
  The rest of \<^verbatim>\<open>src/semver/Version.rs\<close>: \<^verbatim>\<open>coerce\<close>, the pin detection for \<^verbatim>\<open>bun update\<close>, copying a
  version's tags into another buffer, and the two formatters.
\<close>

section \<open>Coercion\<close>

definition LONGEST :: nat where
  "LONGEST = 16"

definition MAX_SAFE_INTEGER :: u64 where
  "MAX_SAFE_INTEGER = push_bit 53 1 - 1"

definition digits :: "bytes \<Rightarrow> nat" where
  "digits text = length (takeWhile is_ascii_digit text)"

definition coerce_part :: "bytes \<Rightarrow> (bytes \<times> bytes) option" where
  "coerce_part text =
     (case text of
        [] \<Rightarrow> None
      | c # rest \<Rightarrow>
          if c = CHR ''.'' then
            let n = digits rest
            in if 1 \<le> n \<and> n \<le> LONGEST then Some (take n rest, drop n rest) else None
          else None)"

definition coerce_number :: "bytes \<Rightarrow> u64 option" where
  "coerce_number ds =
     (if length ds \<ge> 2 \<and> ds ! 0 = CHR ''0'' then None
      else case parse_ascii ds of
        None \<Rightarrow> None
      | Some n \<Rightarrow> if n \<le> MAX_SAFE_INTEGER then Some n else None)"

text \<open>\<^verbatim>\<open>it.map_or(Some(0), |it| number(it.0))\<close>\<close>

definition optional_number :: "(bytes \<times> bytes) option \<Rightarrow> u64 option" where
  "optional_number p = (case p of None \<Rightarrow> Some 0 | Some (ds, _) \<Rightarrow> coerce_number ds)"

function coerce :: "bytes \<Rightarrow> version option" where
  "coerce rest =
     (let start = length (takeWhile (\<lambda>c. \<not> is_ascii_digit c) rest);
          from = drop start rest;
          maj = take (digits from) from;
          after = drop (digits from) from
      in if maj = [] then None
         else if length maj > LONGEST then coerce after
         else
           let min' = coerce_part after;
               pat' = (case min' of None \<Rightarrow> None | Some (_, r) \<Rightarrow> coerce_part r)
           in case coerce_number maj of
                None \<Rightarrow> None
              | Some a \<Rightarrow>
                  (case optional_number min' of
                     None \<Rightarrow> None
                   | Some b \<Rightarrow>
                       (case optional_number pat' of
                          None \<Rightarrow> None
                        | Some c \<Rightarrow> Some (version_default\<lparr>major := a, minor := b, patch := c\<rparr>))))"
  by pat_completeness auto
termination
  by (relation "measure length") auto

declare coerce.simps [simp del]

section \<open>Pins\<close>

definition is_pin_space :: "u8 \<Rightarrow> bool" where
  "is_pin_space c \<longleftrightarrow> c \<in> {CHR '' '', CHR 0x09, CHR 0x0A, CHR 0x0D, CHR 0x0B, CHR 0x0C}"

text \<open>
  The labelled block \<^verbatim>\<open>'pinned\<close>: where the first number starts and how it is pinned, or \<^const>\<open>None\<close>
  for the early \<^verbatim>\<open>return PinnedVersion::Major\<close>.
\<close>

definition pin_prefix :: "bytes \<Rightarrow> (nat \<times> pinned_version) option" where
  "pin_prefix v =
     (let j = skip_while is_version_lead v 0 in
      if j \<ge> length v then None
      else
        let c = v ! j in
        if c = CHR ''~'' \<or> c = CHR ''^'' then
          let k = skip_while is_pin_space v (j + 1)
          in if k \<ge> length v then None
             else Some (k, if c = CHR ''~'' then PMinor else PMajor)
        else if is_ascii_digit c then Some (j, PPatch)
        else None)"

definition which_version_is_pinned :: "bytes \<Rightarrow> pinned_version" where
  "which_version_is_pinned input =
     (let v = trim input WHITESPACE_CHARS; n = length v in
      case pin_prefix v of
        None \<Rightarrow> PMajor
      | Some (i, pinned) \<Rightarrow>
          if i \<ge> n \<or> \<not> is_ascii_digit (v ! i) then PMajor
          else let i = skip_while is_ascii_digit v i in
          if i \<ge> n then (if pinned = PPatch then PMajor else pinned)
          else if v ! i \<noteq> CHR ''.'' then PMajor
          else let i = i + 1 in
          if i \<ge> n \<or> \<not> is_ascii_digit (v ! i) then PMajor
          else let i = skip_while is_ascii_digit v i in
          if i \<ge> n then (if pinned = PPatch then PMinor else pinned)
          else if v ! i \<noteq> CHR ''.'' then PMajor
          else let i = i + 1 in
          if i \<ge> n \<or> \<not> is_ascii_digit (v ! i) then PMajor
          else let i = skip_while is_ascii_digit v i in
          if i \<ge> n then pinned
          else if \<not> valid_pre_or_build_tag_character (v ! i) \<or> is_ascii_whitespace (v ! i) then PMajor
          else let i = i + 1 in
          if i \<ge> n then pinned
          else
            let i = skip_while (\<lambda>d. valid_pre_or_build_tag_character d \<and> \<not> is_ascii_whitespace d) v i
            in if i \<ge> n then pinned else PMajor)"

definition is_tagged_version_only :: "bytes \<Rightarrow> bool" where
  "is_tagged_version_only input \<longleftrightarrow>
     (let v = trim input WHITESPACE_CHARS
      in v \<noteq> [] \<and> is_ascii_alphabetic (v ! 0) \<and> (\<forall>i \<in> set [1..<length v]. is_ascii_alphanumeric (v ! i)))"

section \<open>Copying tags\<close>

text \<open>The closure \<^verbatim>\<open>copy\<close> of \<^verbatim>\<open>Tag::clone_into\<close>; \<^const>\<open>None\<close> when the destination is too short.\<close>

definition clone_copy :: "bytes \<Rightarrow> external_string \<Rightarrow> bytes \<times> nat \<Rightarrow> (sstring \<times> bytes \<times> nat) option" where
  "clone_copy sbuf s st =
     (let (b, offset) = st in
      if external_is_inline s then Some (es_value s, b, offset)
      else
        let src = external_slice s sbuf
        in if offset + length src \<le> length b then
             Some (string_init offset src, copy_into b offset src, offset + length src)
           else None)"

definition tag_clone_into :: "version_tag \<Rightarrow> bytes \<Rightarrow> bytes \<Rightarrow> nat \<Rightarrow> (version_tag \<times> bytes \<times> nat) option" where
  "tag_clone_into t sbuf b offset =
     (case clone_copy sbuf (pre t) (b, offset) of
        None \<Rightarrow> None
      | Some (p, b1, offset1) \<Rightarrow>
          (case clone_copy sbuf (build t) (b1, offset1) of
             None \<Rightarrow> None
           | Some (bd, b2, offset2) \<Rightarrow>
               Some (\<lparr>pre = \<lparr>es_value = p, es_hash = es_hash (pre t)\<rparr>,
                      build = \<lparr>es_value = bd, es_hash = es_hash (build t)\<rparr>\<rparr>, b2, offset2)))"

definition version_clone_into :: "version \<Rightarrow> bytes \<Rightarrow> bytes \<Rightarrow> nat \<Rightarrow> (version \<times> bytes \<times> nat) option" where
  "version_clone_into v sbuf b offset =
     (case tag_clone_into (tag v) sbuf b offset of
        None \<Rightarrow> None
      | Some (t, b', offset') \<Rightarrow>
          Some (\<lparr>major = major v, minor = minor v, patch = patch v, tag = t\<rparr>, b', offset'))"

text \<open>\<^verbatim>\<open>Version::count\<close> and \<^verbatim>\<open>Version::append\<close> with \<^verbatim>\<open>semver_string::Builder\<close> as the builder.\<close>

definition version_count :: "version \<Rightarrow> bytes \<Rightarrow> builder \<Rightarrow> builder" where
  "version_count v b bu =
     (let bu1 = (if has_pre (tag v) \<and> \<not> external_is_inline (pre (tag v))
                 then builder_count bu (external_slice (pre (tag v)) b) else bu)
      in if has_build (tag v) \<and> \<not> external_is_inline (build (tag v))
         then builder_count bu1 (external_slice (build (tag v)) b) else bu1)"

definition version_append :: "version \<Rightarrow> bytes \<Rightarrow> builder \<Rightarrow> (version \<times> builder) option" where
  "version_append v b bu =
     (case (if has_pre (tag v) \<and> \<not> external_is_inline (pre (tag v))
            then builder_append external_string_type bu (external_slice (pre (tag v)) b)
            else Some (pre (tag v), bu)) of
        None \<Rightarrow> None
      | Some (p, bu1) \<Rightarrow>
          (case (if has_build (tag v) \<and> \<not> external_is_inline (build (tag v))
                 then builder_append external_string_type bu1 (external_slice (build (tag v)) b)
                 else Some (build (tag v), bu1)) of
             None \<Rightarrow> None
           | Some (bd, bu2) \<Rightarrow> Some (v\<lparr>tag := \<lparr>pre = p, build = bd\<rparr>\<rparr>, bu2)))"

section \<open>Formatting\<close>

text \<open>\<^verbatim>\<open>Display\<close> of an unsigned integer.\<close>

function decimal :: "nat \<Rightarrow> bytes" where
  "decimal n = (if n < 10 then [char_of (48 + n)] else decimal (n div 10) @ [char_of (48 + n mod 10)])"
  by pat_completeness auto
termination
  by (relation "measure id") auto

declare decimal.simps [simp del]

text \<open>
  \<^verbatim>\<open>Formatter\<close>: the tag strings are written byte for byte (\<^verbatim>\<open>bstr::BStr\<close> replaces bytes that are not
  UTF-8, which the parser never puts into a tag).
\<close>

definition fmt_core :: "version \<Rightarrow> bytes" where
  "fmt_core v =
     decimal (unat (major v)) @ ''.'' @ decimal (unat (minor v)) @ ''.'' @ decimal (unat (patch v))"

definition version_fmt :: "version \<Rightarrow> bytes \<Rightarrow> bytes" where
  "version_fmt v input =
     fmt_core v
     @ (if has_pre (tag v) then ''-'' @ external_slice (pre (tag v)) input else [])
     @ (if has_build (tag v) then ''+'' @ external_slice (build (tag v)) input else [])"

end
