(* ===== verification/SemverRange.thy ===== *)
theory SemverRange
  imports SemverVersionOps
begin

text \<open>
  \<^verbatim>\<open>src/semver/SemverRange.rs\<close>: comparators (an operator and a version) and ranges of at most two
  comparators, with the bounds that wildcards, carets and tildes are desugared to.
\<close>

section \<open>Data\<close>

datatype op = Unset | Eql | Lt | Lte | Gt | Gte

record comparator =
  c_op :: op
  c_version :: version

record vrange =
  r_left :: comparator
  r_right :: comparator

definition comparator_default :: comparator where
  "comparator_default = \<lparr>c_op = Unset, c_version = version_default\<rparr>"

definition range_default :: vrange where
  "range_default = \<lparr>r_left = comparator_default, r_right = comparator_default\<rparr>"

section \<open>Comparators\<close>

definition null_set :: comparator where
  "null_set = \<lparr>c_op = Lt, c_version = version_default\<lparr>tag := ZERO_PRE\<rparr>\<rparr>"

text \<open>\<^verbatim>\<open>u64::checked_add(1)\<close>\<close>

definition checked_succ :: "u64 \<Rightarrow> u64 option" where
  "checked_succ n = (if n = U64_MAX then None else Some (n + 1))"

definition lt_next_major :: "u64 \<Rightarrow> comparator" where
  "lt_next_major maj =
     (case checked_succ maj of
        Some m \<Rightarrow> \<lparr>c_op = Lt, c_version = version_default\<lparr>major := m, tag := ZERO_PRE\<rparr>\<rparr>
      | None \<Rightarrow>
          \<lparr>c_op = Lte,
           c_version = version_default\<lparr>major := U64_MAX, minor := U64_MAX, patch := U64_MAX\<rparr>\<rparr>)"

definition lt_next_minor :: "u64 \<Rightarrow> u64 \<Rightarrow> comparator" where
  "lt_next_minor maj mnr =
     (case checked_succ mnr of
        Some m \<Rightarrow> \<lparr>c_op = Lt, c_version = version_default\<lparr>major := maj, minor := m, tag := ZERO_PRE\<rparr>\<rparr>
      | None \<Rightarrow>
          \<lparr>c_op = Lte, c_version = version_default\<lparr>major := maj, minor := U64_MAX, patch := U64_MAX\<rparr>\<rparr>)"

definition lt_next_patch :: "u64 \<Rightarrow> u64 \<Rightarrow> u64 \<Rightarrow> comparator" where
  "lt_next_patch maj mnr pch =
     (case checked_succ pch of
        Some p \<Rightarrow>
          \<lparr>c_op = Lt,
           c_version = version_default\<lparr>major := maj, minor := mnr, patch := p, tag := ZERO_PRE\<rparr>\<rparr>
      | None \<Rightarrow>
          \<lparr>c_op = Lte, c_version = version_default\<lparr>major := maj, minor := mnr, patch := U64_MAX\<rparr>\<rparr>)"

definition gte_next_major :: "u64 \<Rightarrow> version_tag \<Rightarrow> comparator" where
  "gte_next_major maj t =
     (case checked_succ maj of
        Some m \<Rightarrow> \<lparr>c_op = Gte, c_version = version_default\<lparr>major := m, tag := t\<rparr>\<rparr>
      | None \<Rightarrow> null_set)"

definition gte_next_minor :: "u64 \<Rightarrow> u64 \<Rightarrow> version_tag \<Rightarrow> comparator" where
  "gte_next_minor maj mnr t =
     (case checked_succ mnr of
        Some m \<Rightarrow> \<lparr>c_op = Gte, c_version = version_default\<lparr>major := maj, minor := m, tag := t\<rparr>\<rparr>
      | None \<Rightarrow> gte_next_major maj t)"

definition comparator_eql :: "comparator \<Rightarrow> comparator \<Rightarrow> bool" where
  "comparator_eql c rhs \<longleftrightarrow> c_op c = c_op rhs \<and> version_eql (c_version c) (c_version rhs)"

definition comparator_satisfies :: "comparator \<Rightarrow> version \<Rightarrow> bytes \<Rightarrow> bytes \<Rightarrow> bool" where
  "comparator_satisfies c v comparator_buf version_buf =
     (case order_without_build v (c_version c) version_buf comparator_buf of
        Equal \<Rightarrow> c_op c \<in> {Lte, Gte, Eql}
      | Greater \<Rightarrow> c_op c \<in> {Gt, Gte}
      | Less \<Rightarrow>
          (case c_op c of
             Gte \<Rightarrow> is_zero (c_version c) \<and> \<not> has_pre (tag (c_version c))
           | op \<Rightarrow> op \<in> {Lt, Lte}))"

definition op_text :: "op \<Rightarrow> bytes" where
  "op_text o' =
     (case o' of Unset \<Rightarrow> [] | Eql \<Rightarrow> ''=='' | Lt \<Rightarrow> ''<'' | Lte \<Rightarrow> ''<='' | Gt \<Rightarrow> ''>'' | Gte \<Rightarrow> ''>='')"

definition comparator_fmt :: "comparator \<Rightarrow> bytes \<Rightarrow> bytes" where
  "comparator_fmt c b = (if c_op c = Unset then [] else op_text (c_op c) @ version_fmt (c_version c) b)"

section \<open>Ranges\<close>

definition init_wildcard :: "version \<Rightarrow> wildcard \<Rightarrow> version_tag \<Rightarrow> vrange" where
  "init_wildcard v w floor =
     (case w of
        WNone \<Rightarrow> range_default\<lparr>r_left := \<lparr>c_op = Eql, c_version = v\<rparr>\<rparr>
      | WMajor \<Rightarrow> range_default\<lparr>r_left := \<lparr>c_op = Gte, c_version = version_default\<lparr>tag := floor\<rparr>\<rparr>\<rparr>
      | WMinor \<Rightarrow>
          \<lparr>r_left = lt_next_major (major v),
           r_right = \<lparr>c_op = Gte, c_version = version_default\<lparr>major := major v, tag := floor\<rparr>\<rparr>\<rparr>
      | WPatch \<Rightarrow>
          \<lparr>r_left = lt_next_minor (major v) (minor v),
           r_right =
             \<lparr>c_op = Gte,
              c_version = version_default\<lparr>major := major v, minor := minor v, tag := floor\<rparr>\<rparr>\<rparr>)"

definition has_left :: "vrange \<Rightarrow> bool" where
  "has_left r \<longleftrightarrow> c_op (r_left r) \<noteq> Unset"

definition has_right :: "vrange \<Rightarrow> bool" where
  "has_right r \<longleftrightarrow> c_op (r_right r) \<noteq> Unset"

definition range_eql :: "vrange \<Rightarrow> vrange \<Rightarrow> bool" where
  "range_eql r rhs \<longleftrightarrow>
     comparator_eql (r_left r) (r_left rhs) \<and> comparator_eql (r_right r) (r_right rhs)"

definition range_satisfies :: "vrange \<Rightarrow> version \<Rightarrow> bytes \<Rightarrow> bytes \<Rightarrow> bool" where
  "range_satisfies r v range_buf version_buf =
     (if \<not> has_left r then True
      else if \<not> comparator_satisfies (r_left r) v range_buf version_buf then False
      else if has_right r \<and> \<not> comparator_satisfies (r_right r) v range_buf version_buf then False
      else True)"

text \<open>The result and the new value of \<^verbatim>\<open>*pre_matched\<close>.\<close>

definition range_satisfies_pre :: "vrange \<Rightarrow> version \<Rightarrow> bytes \<Rightarrow> bytes \<Rightarrow> bool \<Rightarrow> bool \<times> bool" where
  "range_satisfies_pre r v range_buf version_buf pre_matched =
     (if \<not> has_left r then (True, pre_matched)
      else
        let pre_matched' =
              (pre_matched
               \<or> has_pre (tag (c_version (r_left r)))
                 \<and> patch v = patch (c_version (r_left r))
                 \<and> minor v = minor (c_version (r_left r))
                 \<and> major v = major (c_version (r_left r))
               \<or> has_right r
                 \<and> has_pre (tag (c_version (r_right r)))
                 \<and> patch v = patch (c_version (r_right r))
                 \<and> minor v = minor (c_version (r_right r))
                 \<and> major v = major (c_version (r_right r)))
        in if \<not> comparator_satisfies (r_left r) v range_buf version_buf then (False, pre_matched')
           else if has_right r \<and> \<not> comparator_satisfies (r_right r) v range_buf version_buf
           then (False, pre_matched')
           else (True, pre_matched'))"

definition range_fmt :: "vrange \<Rightarrow> bytes \<Rightarrow> bytes" where
  "range_fmt r b =
     (if c_op (r_left r) = Unset \<and> c_op (r_right r) = Unset then []
      else if c_op (r_right r) = Unset then comparator_fmt (r_left r) b
      else comparator_fmt (r_left r) b @ '' '' @ comparator_fmt (r_right r) b)"

section \<open>The order of the numbers\<close>

text \<open>The comparison of the three numbers, tags aside.\<close>

definition same_core :: "version \<Rightarrow> version \<Rightarrow> bool" where
  "same_core v w \<longleftrightarrow> major v = major w \<and> minor v = minor w \<and> patch v = patch w"

definition core_less :: "version \<Rightarrow> version \<Rightarrow> bool" where
  "core_less v w \<longleftrightarrow>
     major v < major w
     \<or> major v = major w \<and> (minor v < minor w \<or> minor v = minor w \<and> patch v < patch w)"

lemma checked_succ_None [simp]:
  "checked_succ n = None \<longleftrightarrow> n = U64_MAX" "checked_succ U64_MAX = None"
  by (simp_all add: checked_succ_def)

lemma le_U64_MAX [simp]: "(n::u64) \<le> U64_MAX"
  by (simp add: word_le_nat_alt) (use unsigned_less [where 'a = nat and w = n] in simp)

lemma not_less_U64_MAX [simp]: "\<not> U64_MAX < (n::u64)"
  by (simp add: not_less)

lemma U64_MAX_le: "U64_MAX \<le> (n::u64) \<longleftrightarrow> n = U64_MAX"
  by (metis le_U64_MAX antisym order_refl)

lemma checked_succ_Some:
  assumes "checked_succ n = Some m"
  shows "x < m \<longleftrightarrow> x \<le> n" and "m \<noteq> 0"
proof -
  have n: "n \<noteq> U64_MAX" "m = n + 1" using assms by (auto simp: checked_succ_def split: if_splits)
  have "unat n \<noteq> unat U64_MAX" using n(1) unsigned_word_eqI [where 'a = nat] by blast
  then have "unat n + 1 < 2 ^ 64" using unsigned_less [where 'a = nat and w = n] by simp
  then have s: "unat (n + 1) = unat n + 1" using unat_add_lem [of n 1] by simp
  show "x < m \<longleftrightarrow> x \<le> n" by (simp add: n(2) word_less_nat_alt word_le_nat_alt s less_Suc_eq_le)
  show "m \<noteq> 0" using s by (auto simp: n(2))
qed

lemma owb_zero_pre: "order_without_build v (u\<lparr>tag := ZERO_PRE\<rparr>) c b = Less \<longleftrightarrow> core_less v u"
proof (cases "same_core v u")
  case True
  then have "order_without_build (u\<lparr>tag := ZERO_PRE\<rparr>) v b c \<noteq> Greater"
    by (intro zero_pre_least) (simp_all add: same_core_def)
  then have "order_without_build v (u\<lparr>tag := ZERO_PRE\<rparr>) c b \<noteq> Less"
    using precedence.not_less_iff [of "(v, c)" "(u\<lparr>tag := ZERO_PRE\<rparr>, b)"] by simp
  then show ?thesis using True by (auto simp: same_core_def core_less_def)
next
  case False
  then show ?thesis
    by (auto simp: same_core_def core_less_def order_without_build_def order_without_tag_def Let_def)
qed

lemma owb_release:
  "\<not> has_pre (tag u) \<Longrightarrow> order_without_build v u c b \<noteq> Greater \<longleftrightarrow> core_less v u \<or> same_core v u"
proof -
  assume u: "\<not> has_pre (tag u)"
  have none: "external_slice (pre (tag w)) d = []" if "\<not> has_pre (tag w)" for w d
    using that by (simp add: has_pre_def external_is_empty_def external_slice_def string_empty_slice)
  have eq: "tag_order_without_build (tag v) (tag u) c b = Equal" if "\<not> has_pre (tag v)"
    using u that none [OF u, of b] none [OF that, of c]
    by (simp add: tag_order_without_build_def has_pre_def external_order_def string_order_def
        external_slice_def)
  show ?thesis
    using u eq by (auto simp: same_core_def core_less_def order_without_build_def order_without_tag_def Let_def)
qed

lemma satisfies_Lt: "c_op x = Lt \<Longrightarrow>
    comparator_satisfies x v b c \<longleftrightarrow> order_without_build v (c_version x) c b = Less"
  and satisfies_Lte: "c_op x = Lte \<Longrightarrow>
    comparator_satisfies x v b c \<longleftrightarrow> order_without_build v (c_version x) c b \<noteq> Greater"
  and satisfies_Gt: "c_op x = Gt \<Longrightarrow>
    comparator_satisfies x v b c \<longleftrightarrow> order_without_build v (c_version x) c b = Greater"
  and satisfies_Eql: "c_op x = Eql \<Longrightarrow>
    comparator_satisfies x v b c \<longleftrightarrow> order_without_build v (c_version x) c b = Equal"
  and satisfies_Gte: "c_op x = Gte \<Longrightarrow>
    comparator_satisfies x v b c \<longleftrightarrow> order_without_build v (c_version x) c b \<noteq> Less
      \<or> is_zero (c_version x) \<and> \<not> has_pre (tag (c_version x))"
  and satisfies_Unset: "c_op x = Unset \<Longrightarrow> \<not> comparator_satisfies x v b c"
  by (auto simp: comparator_satisfies_def split: ordering.splits)

lemmas satisfies_op = satisfies_Lt satisfies_Lte satisfies_Gt satisfies_Gte satisfies_Eql satisfies_Unset

lemma version_default_simps [simp]:
  "major version_default = 0" "minor version_default = 0" "patch version_default = 0"
  "tag version_default = tag_default"
  by (simp_all add: version_default_def)

lemma not_core_less_default: "\<not> core_less v version_default"
  by (simp add: core_less_def)

lemma null_set_unsatisfiable: "\<not> comparator_satisfies null_set v b c"
  by (simp add: null_set_def satisfies_Lt owb_zero_pre not_core_less_default)

lemma lt_next_major_iff: "comparator_satisfies (lt_next_major m) v b c \<longleftrightarrow> major v \<le> m"
proof (cases "checked_succ m")
  case None
  then show ?thesis
    by (auto simp: lt_next_major_def satisfies_Lte owb_release core_less_def same_core_def
        order.strict_iff_order)
next
  case (Some k)
  then show ?thesis
    using owb_zero_pre [of v "version_default\<lparr>major := k\<rparr>" c b] checked_succ_Some [OF Some]
    by (auto simp: lt_next_major_def satisfies_Lt core_less_def)
qed

lemma lt_next_minor_iff:
  "comparator_satisfies (lt_next_minor a m) v b c \<longleftrightarrow> major v < a \<or> major v = a \<and> minor v \<le> m"
proof (cases "checked_succ m")
  case None
  then show ?thesis
    by (auto simp: lt_next_minor_def satisfies_Lte owb_release core_less_def same_core_def
        order.strict_iff_order)
next
  case (Some k)
  then show ?thesis
    using owb_zero_pre [of v "version_default\<lparr>major := a, minor := k\<rparr>" c b] checked_succ_Some [OF Some]
    by (auto simp: lt_next_minor_def satisfies_Lt core_less_def)
qed

lemma lt_next_patch_iff:
  "comparator_satisfies (lt_next_patch a m p) v b c \<longleftrightarrow>
     major v < a \<or> major v = a \<and> (minor v < m \<or> minor v = m \<and> patch v \<le> p)"
proof (cases "checked_succ p")
  case None
  then show ?thesis
    by (auto simp: lt_next_patch_def satisfies_Lte owb_release core_less_def same_core_def
        order.strict_iff_order)
next
  case (Some k)
  then show ?thesis
    using owb_zero_pre [of v "version_default\<lparr>major := a, minor := m, patch := k\<rparr>" c b]
      checked_succ_Some [OF Some]
    by (auto simp: lt_next_patch_def satisfies_Lt core_less_def)
qed

lemma owb_from_release:
  "\<not> has_pre (tag v) \<Longrightarrow> order_without_build v u c b \<noteq> Less \<longleftrightarrow> \<not> core_less v u"
proof -
  assume v: "\<not> has_pre (tag v)"
  have none: "external_slice (pre (tag w)) d = []" if "\<not> has_pre (tag w)" for w d
    using that by (simp add: has_pre_def external_is_empty_def external_slice_def string_empty_slice)
  have eq: "tag_order_without_build (tag v) (tag u) c b = Equal" if "\<not> has_pre (tag u)"
    using v that none [OF v, of c] none [OF that, of b]
    by (simp add: tag_order_without_build_def has_pre_def external_order_def string_order_def
        external_slice_def)
  show ?thesis
    using v eq by (auto simp: core_less_def order_without_build_def order_without_tag_def Let_def)
qed

lemma gte_next_major_iff:
  assumes "\<not> has_pre (tag v)"
  shows "comparator_satisfies (gte_next_major m t) v b c \<longleftrightarrow> m < major v"
proof (cases "checked_succ m")
  case None
  then show ?thesis by (simp add: gte_next_major_def null_set_unsatisfiable)
next
  case (Some k)
  then show ?thesis
    using owb_from_release [OF assms] checked_succ_Some [OF Some]
    by (auto simp: gte_next_major_def satisfies_Gte core_less_def is_zero_def)
qed

lemma gte_next_minor_iff:
  assumes "\<not> has_pre (tag v)"
  shows "comparator_satisfies (gte_next_minor a m t) v b c \<longleftrightarrow>
    a < major v \<or> a = major v \<and> m < minor v"
proof (cases "checked_succ m")
  case None
  then show ?thesis using assms by (simp add: gte_next_minor_def gte_next_major_iff)
next
  case (Some k)
  then show ?thesis
    using owb_from_release [OF assms] checked_succ_Some [OF Some]
    by (auto simp: gte_next_minor_def satisfies_Gte core_less_def is_zero_def)
qed

section \<open>Properties\<close>

text \<open>
  C30. The desugared upper bounds are exact for every version, prereleases and the ceiling
  \<^verbatim>\<open>u64::MAX\<close> included: \<^verbatim>\<open>lt_next_major(m)\<close> admits exactly the versions with a major number up to \<open>m\<close>,
  \<^verbatim>\<open>lt_next_minor\<close> and \<^verbatim>\<open>lt_next_patch\<close> likewise, and no version satisfies \<^verbatim>\<open>null_set\<close>.
\<close>

theorem next_bounds_exact:
  "(comparator_satisfies (lt_next_major m) v b c \<longleftrightarrow> major v \<le> m)
   \<and> (comparator_satisfies (lt_next_minor m n) v b c \<longleftrightarrow>
        major v < m \<or> major v = m \<and> minor v \<le> n)
   \<and> (comparator_satisfies (lt_next_patch m n p) v b c \<longleftrightarrow>
        major v < m \<or> major v = m \<and> (minor v < n \<or> minor v = n \<and> patch v \<le> p))
   \<and> \<not> comparator_satisfies null_set v b c"
  by (simp add: lt_next_major_iff lt_next_minor_iff lt_next_patch_iff null_set_unsatisfiable)

text \<open>
  The lower bounds of \<^verbatim>\<open>>m\<close> and \<^verbatim>\<open>>m.n\<close> are exact for every release, with any tag on the bound and
  at the ceiling too, where \<^verbatim>\<open>>m\<close> admits nothing.
\<close>

theorem gte_next_exact:
  assumes "\<not> has_pre (tag v)"
  shows "(comparator_satisfies (gte_next_major m t) v b c \<longleftrightarrow> m < major v)
    \<and> (comparator_satisfies (gte_next_minor m n t) v b c \<longleftrightarrow>
         m < major v \<or> m = major v \<and> n < minor v)"
  using gte_next_major_iff [OF assms] gte_next_minor_iff [OF assms] by blast

theorem gte_next_exact_witness:
  "\<not> comparator_satisfies (gte_next_major U64_MAX ZERO_PRE) (version_default\<lparr>major := U64_MAX\<rparr>) [] []
   \<and> comparator_satisfies (gte_next_minor 1 U64_MAX ZERO_PRE) (version_default\<lparr>major := 2\<rparr>) [] []"
  using gte_next_exact [of "version_default\<lparr>major := U64_MAX\<rparr>"]
    gte_next_exact [of "version_default\<lparr>major := 2\<rparr>"] by simp

end
