(* ===== verification/SemverRoundTrip.thy ===== *)
theory SemverRoundTrip
  imports SemverVersionOps
begin

text \<open>
  The version parser reads back what the formatter writes, and where it stops is always inside its
  input.
\<close>

section \<open>Decimal numbers\<close>

lemma digit_char:
  assumes "(n::nat) < 10"
  shows "digit_value (char_of (48 + n)) = Some n" "is_ascii_digit (char_of (48 + n))"
    "char_of (48 + n) \<noteq> CHR ''_''"
proof -
  have oc: "of_char (char_of (48 + n)) = 48 + n" using assms by simp
  then show "digit_value (char_of (48 + n)) = Some n" "is_ascii_digit (char_of (48 + n))"
    using assms by (simp_all add: digit_value_def is_ascii_digit_def less_eq_char_def)
  show "char_of (48 + n) \<noteq> CHR ''_''"
  proof
    assume "char_of (48 + n) = CHR ''_''"
    then have "of_char (char_of (48 + n)) = (of_char (CHR ''_'') :: nat)" by (simp only:)
    then show False using oc assms by simp
  qed
qed

lemma decimal_digits: "list_all is_ascii_digit (decimal n) \<and> decimal n \<noteq> []"
proof (induction n rule: decimal.induct)
  case (1 n)
  show ?case
    using 1 digit_char(2) [of n] digit_char(2) [of "n mod 10"]
    by (subst decimal.simps, subst (2) decimal.simps) auto
qed

lemma parse_digits_append:
  "parse_digits r acc (xs @ ys) =
     (case parse_digits r acc xs of Inl e \<Rightarrow> Inl e | Inr a \<Rightarrow> parse_digits r a ys)"
  by (induction r acc xs rule: parse_digits.induct) (auto split: option.splits)

lemma parse_decimal: "n < 2 ^ 128 \<Longrightarrow> parse_digits 10 0 (decimal n) = Inr n"
proof (induction n rule: decimal.induct)
  case (1 n)
  show ?case
  proof (cases "n < 10")
    case True
    then show ?thesis using digit_char [of n] by (subst decimal.simps) simp
  next
    case False
    have "n div 10 < 2 ^ 128" using 1(2) by (meson div_le_dividend le_less_trans)
    then have "parse_digits 10 0 (decimal (n div 10)) = Inr (n div 10)" using 1(1) False by blast
    then show ?thesis
      using False 1(2) digit_char [of "n mod 10"]
      by (subst decimal.simps) (simp add: parse_digits_append)
  qed
qed

lemma parse_ascii_decimal: "parse_ascii (decimal (unat w)) = Some w"
proof -
  have w: "unat w < 2 ^ 64" using unsigned_less [where 'a = nat and w = w] by simp
  then have "unat w < 2 ^ 128" by simp
  then have p: "parse_digits 10 0 (decimal (unat w)) = Inr (unat w)" by (rule parse_decimal)
  have no: "CHR ''_'' \<notin> set (decimal (unat w))"
    using decimal_digits [of "unat w"] by (auto simp: list_all_iff is_ascii_digit_def less_eq_char_def)
  have "decimal (unat w) \<noteq> []" using decimal_digits by blast
  then have "hd (decimal (unat w)) \<noteq> CHR ''_''" "last (decimal (unat w)) \<noteq> CHR ''_''"
    using no hd_in_set last_in_set by metis+
  then have "parse_with_sign (decimal (unat w)) 10 = Inr (unat w)"
    using p \<open>decimal (unat w) \<noteq> []\<close> by (simp add: parse_with_sign_def)
  then show ?thesis using w by (simp add: parse_ascii_def parse_unsigned_def auto_radix_def)
qed

section \<open>The version loop\<close>

lemma skip_while_block:
  assumes "list_all p (take n (drop i xs))" "i + n \<le> length xs"
    and "i + n < length xs \<Longrightarrow> \<not> p (xs ! (i + n))"
  shows "skip_while p xs i = i + n"
proof -
  have "takeWhile p (drop i xs) = take n (drop i xs)"
  proof (rule takeWhile_eq_take_P_nth)
    show "p (drop i xs ! k)" if "k < n" "k < length (drop i xs)" for k
      using assms(1) that by (simp add: list_all_length)
    show "\<not> p (drop i xs ! n)" if "n < length (drop i xs)" using assms(3) that by simp
  qed
  then show ?thesis using assms(2) by (simp add: skip_while_eq)
qed

lemma parse_loop_number:
  assumes input: "sl_slice sl = xs @ ds @ rest" and ds: "list_all is_ascii_digit ds" "ds \<noteq> []"
    and rest: "rest = [] \<or> \<not> is_ascii_digit (hd rest)"
    and part: "part_i < 3" and num: "parse_ascii ds = Some n"
  shows "parse_loop sl (length xs) part_i result =
     parse_loop sl
       (length xs + length ds + (if rest \<noteq> [] \<and> hd rest = CHR ''.'' \<and> part_i + 1 \<noteq> 3 then 1 else 0))
       (part_i + 1) (result\<lparr>pr_version := set_part part_i (Some n) (pr_version result)\<rparr>)"
proof -
  let ?in = "sl_slice sl"
  let ?i = "length xs"
  obtain d ds' where dcons: "ds = d # ds'" using ds(2) by (cases ds) auto
  have d: "?in ! ?i = d" "is_ascii_digit d" using input dcons ds(1) by (simp_all add: nth_append)
  have nd: "d \<noteq> CHR '' ''" "d \<notin> {CHR ''|'', CHR ''^'', CHR ''#'', CHR ''&'', CHR ''%'', CHR ''!''}"
    using d(2) by (auto simp: is_ascii_digit_def less_eq_char_def)
  have hd: "?in ! (?i + length ds) = hd rest" "?i + length ds < length ?in" if "rest \<noteq> []"
    using input that by (simp_all add: nth_append hd_conv_nth)
  have skip: "skip_while is_ascii_digit ?in (?i + 1) = ?i + length ds"
  proof -
    have "skip_while is_ascii_digit ?in (?i + 1) = (?i + 1) + length ds'"
    proof (rule skip_while_block)
      show "list_all is_ascii_digit (take (length ds') (drop (?i + 1) ?in))"
        using input dcons ds(1) by simp
      show "?i + 1 + length ds' \<le> length ?in" using input dcons by simp
      show "\<not> is_ascii_digit (?in ! (?i + 1 + length ds'))" if "?i + 1 + length ds' < length ?in"
        using that input dcons rest hd by (cases "rest = []") (simp_all add: add.assoc)
    qed
    then show ?thesis using dcons by simp
  qed
  have sub: "subslice ?in ?i (?i + length ds) = ds" using input by (simp add: subslice_def)
  have i: "?i < length ?in" using input dcons by simp
  have dot: "(?i + length ds < length ?in \<and> ?in ! (?i + length ds) = CHR ''.'') =
      (rest \<noteq> [] \<and> hd rest = CHR ''.'')"
    using hd input by (cases "rest = []") auto
  have "parse_step sl ?i part_i result = number_step sl ?i part_i result"
    using d nd by (simp add: parse_step_def)
  then show ?thesis
    by (subst parse_loop.simps)
      (use i skip sub part num dot in \<open>auto simp: number_step_def Let_def parse_version_number_def\<close>)
qed

section \<open>The tag loop\<close>

definition is_tag_char :: "u8 \<Rightarrow> bool" where
  "is_tag_char c \<longleftrightarrow> is_ascii_alphanumeric c \<or> c = CHR ''.'' \<or> c = CHR ''-''"

lemma is_tag_char_not: "is_tag_char c \<Longrightarrow> c \<noteq> CHR ''+'' \<and> c \<noteq> CHR 0x00 \<and> c \<notin> set WHITESPACE_CHARS"
  by (auto simp: is_tag_char_def byte_simps less_eq_char_def WHITESPACE_CHARS_def)

lemma tag_loop_block:
  assumes "sl_slice sl = xs @ ws @ rest" "list_all is_tag_char ws" "st \<noteq> TNone"
  shows "tag_loop sl k (length xs) st start t = tag_loop sl k (length xs + length ws) st start t"
  using assms
proof (induction ws arbitrary: xs)
  case (Cons w ws)
  have w: "sl_slice sl ! length xs = w" "length xs < length (sl_slice sl)" "is_tag_char w"
    using Cons.prems by simp_all
  have "tag_loop sl k (length xs) st start t = tag_loop sl k (length xs + 1) st start t"
    by (subst tag_loop.simps) (use w Cons.prems(3) is_tag_char_not [OF w(3)] in \<open>auto simp: is_tag_char_def Let_def\<close>)
  also have "\<dots> = tag_loop sl k (length xs + 1 + length ws) st start t"
    using Cons.IH [of "xs @ [w]"] Cons.prems by simp
  finally show ?case by simp
qed simp

lemma tag_loop_end: "i \<ge> length (sl_slice sl) \<Longrightarrow> tag_loop sl k i st start t = (i, st, start, t)"
  by (subst tag_loop.simps) simp

lemma count_tags_mono:
  "count_tags cs b p = (b', p') \<Longrightarrow> b \<le> b' \<and> p \<le> p'"
  by (induction cs b p rule: count_tags.induct) (fastforce split: if_splits)+

lemma tag_loop_dash:
  "sl_slice sl = CHR ''-'' # rest \<Longrightarrow> tag_loop sl k 0 TNone 0 t = tag_loop sl k 1 TPre 1 t"
  by (subst tag_loop.simps) simp

lemma tag_loop_plus:
  assumes "i < length (sl_slice sl)" "sl_slice sl ! i = CHR ''+''" "st \<noteq> TBuild"
  shows "tag_loop sl 0 i st start t =
    tag_loop sl 0 (i + 1) TBuild (i + 1) (if st = TPre then t\<lparr>pre := sub_external sl start i\<rparr> else t)"
  by (subst tag_loop.simps) (use assms in \<open>auto simp: Let_def\<close>)

lemma tag_parse_pre:
  assumes input: "sl_slice sl = CHR ''-'' # p" and p: "list_all is_tag_char p"
  shows "tag_parse sl =
    \<lparr>tr_tag = tag_default\<lparr>pre := sub_external sl 1 (1 + length p)\<rparr>, tr_len = 1 + length p\<rparr>"
proof -
  obtain b' p' where c: "count_tags (sl_slice sl) 0 0 = (b', p')" by fastforce
  then have "1 \<le> p'" using input count_tags_mono [of p 0 1 b' p'] by simp
  moreover have "tag_loop sl 0 0 TNone 0 tag_default = (1 + length p, TPre, 1, tag_default)"
    using tag_loop_dash [OF input] tag_loop_block [of sl "''-''" p "[]" TPre 0 1 tag_default] input p
    by (simp add: tag_loop_end)
  ultimately show ?thesis using c by (simp add: tag_parse_def parse_with_pre_count_def Let_def)
qed

lemma tag_parse_pre_build:
  assumes input: "sl_slice sl = CHR ''-'' # p @ CHR ''+'' # b"
    and p: "list_all is_tag_char p" and b: "list_all is_tag_char b"
  shows "tag_parse sl =
    \<lparr>tr_tag = \<lparr>pre = sub_external sl 1 (1 + length p),
               build = sub_external sl (2 + length p) (2 + length p + length b)\<rparr>,
     tr_len = 2 + length p + length b\<rparr>"
proof -
  obtain b' p' where c: "count_tags (sl_slice sl) 0 0 = (b', p')" by fastforce
  then have "1 \<le> p'" using input count_tags_mono [of "p @ CHR ''+'' # b" 0 1 b' p'] by simp
  moreover have "tag_loop sl 0 0 TNone 0 tag_default =
      (2 + length p + length b, TBuild, 2 + length p,
       tag_default\<lparr>pre := sub_external sl 1 (1 + length p)\<rparr>)"
  proof -
    have "tag_loop sl 0 0 TNone 0 tag_default = tag_loop sl 0 (1 + length p) TPre 1 tag_default"
      using tag_loop_dash [OF input] tag_loop_block [of sl "''-''" p "CHR ''+'' # b" TPre 0 1 tag_default]
        input p by simp
    also have "\<dots> = tag_loop sl 0 (2 + length p) TBuild (2 + length p)
        (tag_default\<lparr>pre := sub_external sl 1 (1 + length p)\<rparr>)"
      using tag_loop_plus [of "1 + length p" sl TPre 1 tag_default] input by simp
    also have "\<dots> = (2 + length p + length b, TBuild, 2 + length p,
        tag_default\<lparr>pre := sub_external sl 1 (1 + length p)\<rparr>)"
      using tag_loop_block [of sl "CHR ''-'' # p @ ''+''" b "[]" TBuild 0 "2 + length p"] input b
      by (simp add: tag_loop_end)
    finally show ?thesis .
  qed
  ultimately show ?thesis using c by (simp add: tag_parse_def parse_with_pre_count_def Let_def tag_default_def)
qed

lemma tag_parse_build:
  assumes input: "sl_slice sl = CHR ''+'' # b" and b: "list_all is_tag_char b"
  shows "tag_parse sl =
    \<lparr>tr_tag = tag_default\<lparr>build := sub_external sl 1 (1 + length b)\<rparr>, tr_len = 1 + length b\<rparr>"
proof -
  obtain b' p' where c: "count_tags (sl_slice sl) 0 0 = (b', p')" by fastforce
  then have "1 \<le> b'" using input count_tags_mono [of b 1 0 b' p'] by simp
  moreover have "tag_loop sl 0 0 TNone 0 tag_default = (1 + length b, TBuild, 1, tag_default)"
    using tag_loop_plus [of 0 sl TNone 0 tag_default]
      tag_loop_block [of sl "''+''" b "[]" TBuild 0 1 tag_default] input b
    by (simp add: tag_loop_end)
  ultimately show ?thesis using c by (simp add: tag_parse_def parse_with_pre_count_def Let_def)
qed

section \<open>Complete versions\<close>

definition core_text :: "u64 \<Rightarrow> u64 \<Rightarrow> u64 \<Rightarrow> bytes" where
  "core_text a b c = decimal (unat a) @ ''.'' @ decimal (unat b) @ ''.'' @ decimal (unat c)"

definition tag_text :: "bytes option \<Rightarrow> bytes option \<Rightarrow> bytes" where
  "tag_text p b =
     (case p of None \<Rightarrow> [] | Some x \<Rightarrow> CHR ''-'' # x) @ (case b of None \<Rightarrow> [] | Some y \<Rightarrow> CHR ''+'' # y)"

text \<open>The external string of a piece of the input at offset \<open>n\<close> of the buffer.\<close>

definition external_at :: "nat \<Rightarrow> bytes \<Rightarrow> external_string" where
  "external_at n x = external_init n x (wyhash11_hash 0 x)"

definition tag_at :: "nat \<Rightarrow> bytes option \<Rightarrow> bytes option \<Rightarrow> version_tag" where
  "tag_at n p b =
     \<lparr>pre = (case p of None \<Rightarrow> external_default | Some x \<Rightarrow> external_at (n + 1) x),
      build = (case b of
         None \<Rightarrow> external_default
       | Some y \<Rightarrow> external_at (n + 1 + (case p of None \<Rightarrow> 0 | Some x \<Rightarrow> length x + 1)) y)\<rparr>"

definition tag_chars :: "bytes option \<Rightarrow> bool" where
  "tag_chars p = (case p of None \<Rightarrow> True | Some x \<Rightarrow> x \<noteq> [] \<and> list_all is_tag_char x)"

lemma sub_external_at:
  "sub_external (sliced_sub sl n xs) a b = external_at (n + a) (subslice xs a b)"
  by (simp add: sub_external_def sliced_sub_def sliced_external_def external_at_def)

lemma tag_parse_text:
  assumes "tag_chars p" "tag_chars b" "p \<noteq> None \<or> b \<noteq> None"
  shows "tag_parse (sliced_sub sl n (tag_text p b)) =
    \<lparr>tr_tag = tag_at n p b, tr_len = length (tag_text p b)\<rparr>"
proof (cases p)
  case None
  then obtain y where y: "b = Some y" using assms by auto
  show ?thesis
    using tag_parse_build [of "sliced_sub sl n (tag_text p b)" y] None y assms
    by (simp add: tag_text_def tag_at_def tag_default_def tag_chars_def sub_external_at subslice_def)
      (simp add: sliced_sub_def)
next
  case x: (Some x)
  show ?thesis
  proof (cases b)
    case None
    then show ?thesis
      using tag_parse_pre [of "sliced_sub sl n (tag_text p b)" x] x assms
      by (simp add: tag_text_def tag_at_def tag_default_def tag_chars_def sub_external_at subslice_def)
        (simp add: sliced_sub_def)
  next
    case (Some y)
    then show ?thesis
      using tag_parse_pre_build [of "sliced_sub sl n (tag_text p b)" x y] x assms
      by (simp add: tag_text_def tag_at_def tag_default_def tag_chars_def sub_external_at subslice_def)
        (simp add: sliced_sub_def)
  qed
qed

lemma tag_text_hd:
  "tag_text p b = [] \<or> hd (tag_text p b) \<in> {CHR ''-'', CHR ''+''}"
  by (auto simp: tag_text_def split: option.splits)

lemma parse_loop_core:
  assumes input: "sl_slice sl = core_text a b c @ tag_text p bd"
  shows "parse_loop sl 0 0 parse_result_default =
    parse_loop sl (length (core_text a b c)) 3
      (parse_result_default\<lparr>pr_version :=
         \<lparr>p_major = Some a, p_minor = Some b, p_patch = Some c, p_tag = tag_default\<rparr>\<rparr>)"
proof -
  let ?A = "decimal (unat a)" and ?B = "decimal (unat b)" and ?C = "decimal (unat c)"
  let ?T = "tag_text p bd"
  note D = decimal_digits parse_ascii_decimal
  have nd: "\<not> is_ascii_digit (CHR ''.'')" "\<not> is_ascii_digit (CHR ''-'')" "\<not> is_ascii_digit (CHR ''+'')"
    by (simp_all add: is_ascii_digit_def less_eq_char_def)
  have T: "?T = [] \<or> \<not> is_ascii_digit (hd ?T)" "\<not> (?T \<noteq> [] \<and> hd ?T = CHR ''.'')"
    using tag_text_hd [of p bd] nd by auto
  let ?r1 = "parse_result_default\<lparr>pr_version := partial_default\<lparr>p_major := Some a\<rparr>\<rparr>"
  let ?r2 = "?r1\<lparr>pr_version := (pr_version ?r1)\<lparr>p_minor := Some b\<rparr>\<rparr>"
  have "parse_loop sl 0 0 parse_result_default = parse_loop sl (length ?A + 1) 1 ?r1"
    using parse_loop_number [of sl "[]" ?A "''.'' @ ?B @ ''.'' @ ?C @ ?T" 0 a parse_result_default]
      input D nd
    by (simp add: core_text_def set_part_def parse_result_default_def)
  also have "\<dots> = parse_loop sl (length ?A + 1 + length ?B + 1) 2 ?r2"
    using parse_loop_number [of sl "?A @ ''.''" ?B "''.'' @ ?C @ ?T" 1 b ?r1] input D nd
    by (simp add: core_text_def set_part_def numeral_2_eq_2)
  also have "\<dots> = parse_loop sl (length ?A + 1 + length ?B + 1 + length ?C) 3
      (?r2\<lparr>pr_version := (pr_version ?r2)\<lparr>p_patch := Some c\<rparr>\<rparr>)"
    using parse_loop_number [of sl "?A @ ''.'' @ ?B @ ''.''" ?C ?T 2 c ?r2] input D T
    by (simp add: core_text_def set_part_def)
  finally show ?thesis by (simp add: core_text_def partial_default_def add.assoc)
qed

lemma parse_loop_tag:
  assumes input: "sl_slice sl = xs @ tag_text p b" and "tag_chars p" "tag_chars b"
    and "p_tag (pr_version r) = tag_default"
  shows "parse_loop sl (length xs) 3 r =
    (length xs + length (tag_text p b), 3,
     r\<lparr>pr_version := (pr_version r)\<lparr>p_tag := tag_at (sl_off sl + length xs) p b\<rparr>\<rparr>)"
proof (cases "p = None \<and> b = None")
  case True
  then have "sl_slice sl = xs" using input by (simp add: tag_text_def)
  moreover have "(pr_version r)\<lparr>p_tag := tag_at n p b\<rparr> = pr_version r" for n
    using True assms(4) by (simp add: tag_at_def tag_default_def)
  ultimately show ?thesis
    by (subst parse_loop.simps) (use True in \<open>simp add: tag_text_def\<close>)
next
  case False
  then have ne: "tag_text p b \<noteq> []" by (auto simp: tag_text_def split: option.splits)
  then have c: "sl_slice sl ! length xs = CHR ''-'' \<or> sl_slice sl ! length xs = CHR ''+''"
    and lt: "length xs < length (sl_slice sl)"
    using input tag_text_hd [of p b] by (auto simp: nth_append hd_conv_nth)
  have nd: "\<not> is_ascii_digit (CHR ''-'')" "\<not> is_ascii_digit (CHR ''+'')"
    by (simp_all add: is_ascii_digit_def less_eq_char_def)
  have "drop (length xs) (sl_slice sl) = tag_text p b" using input by simp
  then have tp: "tag_parse (sliced_sub sl (sl_off sl + length xs) (drop (length xs) (sl_slice sl))) =
      \<lparr>tr_tag = tag_at (sl_off sl + length xs) p b, tr_len = length (tag_text p b)\<rparr>"
    using tag_parse_text [of p b sl "sl_off sl + length xs"] assms False by auto
  from c have "parse_step sl (length xs) 3 r = tag_step sl 0 (length xs) 3 r"
    by (elim disjE) (simp_all add: parse_step_def nd)
  then show ?thesis
    using tp by (subst parse_loop.simps) (simp add: lt tag_step_def tag_parse_def Let_def)
qed

lemma digit_not_lead: "is_ascii_digit d \<Longrightarrow> \<not> is_version_lead d \<and> d \<notin> set WHITESPACE_CHARS"
  by (auto simp: is_ascii_digit_def is_version_lead_def WHITESPACE_CHARS_def less_eq_char_def)

lemma core_text_hd: "core_text a b c \<noteq> []" "is_ascii_digit (hd (core_text a b c))"
  "is_ascii_digit (last (core_text a b c))"
  using decimal_digits [of "unat a"] decimal_digits [of "unat c"] hd_in_set last_in_set
  by (auto simp: core_text_def list_all_iff)

lemma version_parse_text:
  assumes input: "sl_slice sl = core_text a b c @ tag_text p bd" and "tag_chars p" "tag_chars bd"
  shows "version_parse sl =
    \<lparr>pr_wildcard = WNone, pr_valid = True, pr_overflow = False,
     pr_version = \<lparr>p_major = Some a, p_minor = Some b, p_patch = Some c,
                   p_tag = tag_at (sl_off sl + length (core_text a b c)) p bd\<rparr>,
     pr_len = length (sl_slice sl)\<rparr>"
proof -
  let ?s = "sl_slice sl"
  have ne: "?s \<noteq> []" using input core_text_hd by simp
  have "hd ?s = hd (core_text a b c)" using input core_text_hd by simp
  then have "\<not> is_version_lead (?s ! 0)"
    using digit_not_lead core_text_hd ne by (simp add: hd_conv_nth)
  then have "skip_while is_version_lead ?s 0 = 0" by (simp add: skip_while.simps)
  moreover have "parse_loop sl 0 0 parse_result_default =
    (length ?s, 3, parse_result_default\<lparr>pr_version :=
         \<lparr>p_major = Some a, p_minor = Some b, p_patch = Some c,
          p_tag = tag_at (sl_off sl + length (core_text a b c)) p bd\<rparr>\<rparr>)"
    using parse_loop_core [OF input] parse_loop_tag [OF input assms(2,3)] input by simp
  ultimately show ?thesis
    using ne by (simp add: version_parse_def parse_result_default_def Let_def)
qed

definition pre_text :: "version \<Rightarrow> bytes \<Rightarrow> bytes option" where
  "pre_text v b = (if has_pre (tag v) then Some (external_slice (pre (tag v)) b) else None)"

definition build_text :: "version \<Rightarrow> bytes \<Rightarrow> bytes option" where
  "build_text v b = (if has_build (tag v) then Some (external_slice (build (tag v)) b) else None)"

lemma version_fmt_text:
  "version_fmt v b = core_text (major v) (minor v) (patch v) @ tag_text (pre_text v b) (build_text v b)"
  by (simp add: version_fmt_def fmt_core_def core_text_def tag_text_def pre_text_def build_text_def)

lemma external_at_slice:
  assumes "s = xs @ x @ ys" "length s < 2 ^ 31" "x \<noteq> []" "list_all is_tag_char x"
  shows "external_slice (external_at (length xs) x) s = x"
    and "\<not> external_is_empty (external_at (length xs) x)"
proof -
  have "CHR 0x00 \<notin> set x" using assms(4) is_tag_char_not by (auto simp: list_all_iff)
  then have "representable s (length xs) x"
    using assms by (simp add: representable_def subslice_def)
  then show eq: "external_slice (external_at (length xs) x) s = x"
    by (simp add: external_slice_def external_at_def external_init_def string_init_slice)
  show "\<not> external_is_empty (external_at (length xs) x)"
    using eq assms(3) string_empty_slice by (auto simp: external_is_empty_def external_slice_def)
qed

lemma external_default_empty [simp]: "external_is_empty external_default"
  using tag_default_has_pre by (simp add: has_pre_def tag_default_def)

lemma tag_at_text:
  assumes s: "s = xs @ tag_text p b" "length s < 2 ^ 31" and ok: "tag_chars p" "tag_chars b"
  shows "pre_text (v\<lparr>tag := tag_at (length xs) p b\<rparr>) s = p"
    and "build_text (v\<lparr>tag := tag_at (length xs) p b\<rparr>) s = b"
proof -
  show "pre_text (v\<lparr>tag := tag_at (length xs) p b\<rparr>) s = p"
  proof (cases p)
    case None
    then show ?thesis by (simp add: pre_text_def tag_at_def has_pre_def)
  next
    case (Some x)
    then show ?thesis
      using external_at_slice [of s "xs @ ''-''" x "case b of None \<Rightarrow> [] | Some y \<Rightarrow> CHR ''+'' # y"] s ok
      by (simp add: pre_text_def tag_at_def has_pre_def tag_text_def tag_chars_def)
  qed
  show "build_text (v\<lparr>tag := tag_at (length xs) p b\<rparr>) s = b"
  proof (cases b)
    case None
    then show ?thesis by (simp add: build_text_def tag_at_def has_build_def)
  next
    case (Some y)
    let ?pt = "case p of None \<Rightarrow> [] | Some x \<Rightarrow> CHR ''-'' # x"
    show ?thesis
      using external_at_slice [of s "xs @ ?pt @ ''+''" y "[]"] s ok Some
      by (auto simp: build_text_def tag_at_def has_build_def tag_text_def tag_chars_def add.commute
          split: option.splits)
  qed
qed

lemma version_text_ends:
  assumes "tag_chars p" "tag_chars bd"
  shows "hd (core_text a b c @ tag_text p bd) \<notin> set WHITESPACE_CHARS"
    and "last (core_text a b c @ tag_text p bd) \<notin> set WHITESPACE_CHARS"
proof -
  show "hd (core_text a b c @ tag_text p bd) \<notin> set WHITESPACE_CHARS"
    using core_text_hd digit_not_lead by simp
  have "last x \<notin> set WHITESPACE_CHARS" if "x \<noteq> []" "list_all is_tag_char x" for x
    using that is_tag_char_not last_in_set by (metis list_all_iff)
  then show "last (core_text a b c @ tag_text p bd) \<notin> set WHITESPACE_CHARS"
    using assms core_text_hd digit_not_lead
    by (auto simp: tag_text_def tag_chars_def split: option.splits)
qed

lemma parse_exact_text:
  assumes s: "s = core_text a b c @ tag_text p bd" and ok: "tag_chars p" "tag_chars bd"
  shows "parse_exact (sliced_init s 0 s) =
    Some \<lparr>major = a, minor = b, patch = c, tag = tag_at (length (core_text a b c)) p bd\<rparr>"
proof -
  have ne: "s \<noteq> []" using s core_text_hd by simp
  have tr: "trim s WHITESPACE_CHARS = s"
    using version_text_ends [OF ok, of a b c] s by (intro trim_id) simp
  have "s ! 0 \<notin> set WHITESPACE_CHARS"
    using version_text_ends(1) [OF ok, of a b c] s ne by (simp add: hd_conv_nth)
  then have tl: "trim_left_begin s WHITESPACE_CHARS 0 = 0" by (simp add: trim_left_begin.simps)
  have "version_parse (sliced_sub (sliced_init s 0 s) 0 s) =
    \<lparr>pr_wildcard = WNone, pr_valid = True, pr_overflow = False,
     pr_version = \<lparr>p_major = Some a, p_minor = Some b, p_patch = Some c,
                   p_tag = tag_at (length (core_text a b c)) p bd\<rparr>,
     pr_len = length s\<rparr>"
    using version_parse_text [of "sliced_sub (sliced_init s 0 s) 0 s" a b c p bd] s ok
    by (simp add: sliced_sub_def sliced_init_def)
  then show ?thesis
    using tr tl by (simp add: parse_exact_def sliced_init_def sliced_sub_def partial_min_def Let_def)
qed

lemma same_text_order:
  assumes "major v = major w" "minor v = minor w" "patch v = patch w"
    and "pre_text v b = pre_text w c" "build_text v b = build_text w c"
  shows "version_order v w b c = Equal"
proof -
  have pre: "has_pre (tag v) = has_pre (tag w)" using assms(4) by (auto simp: pre_text_def split: if_splits)
  then have owt: "order_without_tag v w = Equal"
    using assms by (simp add: order_without_tag_def)
  have empty_b: "external_slice (build (tag u)) d = []" if "\<not> has_build (tag u)" for u d
    using that by (simp add: has_build_def external_is_empty_def external_slice_def string_empty_slice)
  have "pre_key (v, b) = pre_key (w, c)"
    using assms(4) by (auto simp: pre_key_def pre_text_def split: if_splits)
  moreover have "build_key (v, b) = build_key (w, c)"
    using assms(5) pre empty_b [of v b] empty_b [of w c]
    by (auto simp: build_key_def build_text_def split: if_splits)
  ultimately have "tag_order (tag v) (tag w) b c = Equal"
    unfolding tag_order_keys(1) [OF owt]
    by (simp add: then_order_def parts_ord.ord_refl bytes_ord.ord_refl)
  then show ?thesis by (simp add: version_order_def owt)
qed

text \<open>
  C2. Round trip of the version formatter and parser: a version whose prerelease and build strings
  are non-empty and made of tag characters is written so that \<^verbatim>\<open>parse_exact\<close> reads it back, with the
  same numbers, the same prerelease and the same build text, and the two compare as equal.
\<close>

theorem fmt_parse_exact_roundtrip:
  assumes "tag_chars (pre_text v b)" "tag_chars (build_text v b)"
    and "length (version_fmt v b) < 2 ^ 31"
  shows "\<exists>w. parse_exact (sliced_init (version_fmt v b) 0 (version_fmt v b)) = Some w
    \<and> major w = major v \<and> minor w = minor v \<and> patch w = patch v
    \<and> pre_text w (version_fmt v b) = pre_text v b \<and> build_text w (version_fmt v b) = build_text v b
    \<and> version_order w v (version_fmt v b) b = Equal"
proof -
  let ?s = "version_fmt v b"
  let ?core = "core_text (major v) (minor v) (patch v)"
  let ?w = "v\<lparr>tag := tag_at (length ?core) (pre_text v b) (build_text v b)\<rparr>"
  have s: "?s = ?core @ tag_text (pre_text v b) (build_text v b)" by (rule version_fmt_text)
  have "parse_exact (sliced_init ?s 0 ?s) = Some ?w"
    using parse_exact_text [OF s assms(1,2)] by simp
  moreover note texts = tag_at_text [OF s assms(3,1,2), of v]
  moreover have "version_order ?w v ?s b = Equal" by (rule same_text_order) (simp_all add: texts)
  ultimately show ?thesis by (intro exI [of _ ?w]) simp
qed

theorem fmt_parse_exact_roundtrip_witness:
  "\<exists>w. parse_exact (sliced_init ''1.2.3-beta'' 0 ''1.2.3-beta'') = Some w
    \<and> major w = 1 \<and> minor w = 2 \<and> patch w = 3 \<and> pre_text w ''1.2.3-beta'' = Some ''beta''"
proof -
  let ?v = "\<lparr>major = 1, minor = 2, patch = 3,
             tag = \<lparr>pre = external_at 0 ''beta'', build = external_default\<rparr>\<rparr>"
  have tc: "list_all is_tag_char ''beta''"
    by (simp add: is_tag_char_def byte_simps less_eq_char_def)
  have p: "pre_text ?v ''beta'' = Some ''beta''" and b: "build_text ?v ''beta'' = None"
    using external_at_slice [of "''beta''" "[]" "''beta''" "[]"] tc
    by (simp_all add: pre_text_def build_text_def has_pre_def has_build_def)
  have f: "version_fmt ?v ''beta'' = ''1.2.3-beta''"
    unfolding version_fmt_text p b by (simp add: core_text_def tag_text_def decimal.simps char_of_def bit_Suc_0_iff)
  show ?thesis
    using fmt_parse_exact_roundtrip [of ?v "''beta''"] p b f tc by (auto simp: tag_chars_def)
qed

section \<open>Where parsing stops\<close>

lemma tag_loop_le:
  "i \<le> length (sl_slice sl) \<Longrightarrow> fst (tag_loop sl k i st start t) \<le> length (sl_slice sl)"
proof (induction sl k i st start t rule: tag_loop.induct)
  case (1 sl k i st start t)
  show ?case
    by (subst tag_loop.simps) (use 1 in \<open>auto simp: Let_def split: tag_state.splits\<close>)
qed

lemma parse_with_pre_count_le: "tr_len (parse_with_pre_count sl k) \<le> length (sl_slice sl)"
  using tag_loop_le [of 0 sl k TNone 0 tag_default]
  by (auto simp: parse_with_pre_count_def tag_result_default_def Let_def split: prod.splits)

lemma sub_tag_le:
  "i \<le> length input \<Longrightarrow> i + tr_len (parse_with_pre_count (sliced_sub sl n (drop i input)) k) \<le> length input"
  using parse_with_pre_count_le [of "sliced_sub sl n (drop i input)" k] by (simp add: sliced_sub_def)

lemma skip_dot_le:
  "i < length xs \<Longrightarrow> skip_while p xs (i + 1) \<le> length xs"
  by (rule skip_while_le) simp

lemma number_step_le:
  assumes "i < length (sl_slice sl)"
  shows "number_step sl i part_i r = Inl (i', v) \<Longrightarrow> i' \<le> length (sl_slice sl)"
    and "number_step sl i part_i r = Inr (i', v) \<Longrightarrow> i' \<le> length (sl_slice sl)"
  using skip_dot_le [OF assms, of is_ascii_digit]
  by (auto simp: number_step_def Let_def Suc_le_eq split: if_splits)

lemma wildcard_step_le:
  assumes "i < length (sl_slice sl)"
  shows "wildcard_step sl i part_i r = Inl (i', v) \<Longrightarrow> i' \<le> length (sl_slice sl)"
    and "wildcard_step sl i part_i r = Inr (i', v) \<Longrightarrow> i' \<le> length (sl_slice sl)"
  using skip_dot_le [OF assms, of is_wildcard_char]
  by (auto simp: wildcard_step_def Let_def Suc_le_eq split: if_splits)

lemma tag_step_le:
  "i < length (sl_slice sl) \<Longrightarrow> tag_step sl k i part_i r = Inl (i', v) \<Longrightarrow> i' \<le> length (sl_slice sl)"
  using sub_tag_le [of i "sl_slice sl" sl "sl_off sl + i" k] by (auto simp: tag_step_def Let_def)

lemma parse_step_le:
  assumes "i < length (sl_slice sl)"
  shows "parse_step sl i part_i r = Inl (i', v) \<Longrightarrow> i' \<le> length (sl_slice sl)"
    and "parse_step sl i part_i r = Inr (i', v) \<Longrightarrow> i' \<le> length (sl_slice sl)"
  using assms number_step_le [OF assms] wildcard_step_le [OF assms] tag_step_le [OF assms]
  by (auto simp: parse_step_def Let_def tag_step_def split: if_splits)

lemma parse_loop_le:
  "i \<le> length (sl_slice sl) \<Longrightarrow> fst (parse_loop sl i part_i r) \<le> length (sl_slice sl)"
proof (induction sl i part_i r rule: parse_loop.induct)
  case (1 sl i part_i r)
  show ?case
    by (subst parse_loop.simps)
      (use 1 parse_step_le [of i sl] in \<open>auto split: sum.splits prod.splits\<close>)
qed

lemma version_parse_len: "pr_len (version_parse sl) \<le> length (sl_slice sl)"
proof -
  let ?i = "skip_while is_version_lead (sl_slice sl) 0"
  obtain i p r where loop: "parse_loop sl ?i 0 parse_result_default = (i, p, r)" by (metis prod_cases3)
  have "?i \<le> length (sl_slice sl)" by (rule skip_while_le) simp
  then have "i \<le> length (sl_slice sl)" using parse_loop_le [of ?i sl 0 parse_result_default] loop by simp
  then show ?thesis
    using loop by (simp add: version_parse_def parse_result_default_def Let_def)
qed

end
