(* ===== verification/SemverQuery.thy ===== *)
theory SemverQuery
  imports SemverRange SemverRoundTrip
begin

text \<open>
  \<^verbatim>\<open>src/semver/SemverQuery.rs\<close>: version queries in disjunctive normal form. A \<^verbatim>\<open>Group\<close> is a linked list
  of \<^verbatim>\<open>List\<close> nodes (OR), each with a linked list of \<^verbatim>\<open>Query\<close> nodes (AND); the range parser appends to
  both through the back references \<^verbatim>\<open>tail\<close>.

  A back reference into a chain is modelled by the index of the node it points to. Reaching a node
  through the reference and writing its \<^verbatim>\<open>next\<close> field cuts off what followed, so that the parser loses
  no comparator depends on every reference pointing to the last node: the invariant \<open>group_ok\<close>.
\<close>

section \<open>Data\<close>

datatype query = Query (q_range: vrange) (q_next: "query option")

datatype qlist = QList (l_head: query) (l_tail: "nat option") (l_next: "qlist option")

text \<open>\<^verbatim>\<open>FlagsBitSet\<close> (\<^verbatim>\<open>IntegerBitSet<3>\<close>) is the set of the flags that are set.\<close>

definition PRE :: nat where "PRE = 1"
definition BUILD :: nat where "BUILD = 0"
definition SKIPPED :: nat where "SKIPPED = 2"

record group =
  g_head :: qlist
  g_tail :: "nat option"
  g_input :: bytes
  g_flags :: "nat set"

definition query_default :: query where
  "query_default = Query range_default None"

definition list_default :: qlist where
  "list_default = QList query_default None None"

definition group_default :: group where
  "group_default = \<lparr>g_head = list_default, g_tail = None, g_input = [], g_flags = {}\<rparr>"

section \<open>AND chains\<close>

definition exact_version :: "query \<Rightarrow> version option" where
  "exact_version q =
     (if q_next q = None \<and> c_op (r_left (q_range q)) = Eql \<and> \<not> has_right (q_range q)
      then Some (c_version (r_left (q_range q))) else None)"

fun query_eql :: "query \<Rightarrow> query \<Rightarrow> bool" where
  "query_eql (Query r None) (Query r' n') = (range_eql r r' \<and> n' = None)"
| "query_eql (Query r (Some n)) (Query r' None) = False"
| "query_eql (Query r (Some n)) (Query r' (Some n')) = (if \<not> range_eql r r' then False else query_eql n n')"

fun query_satisfies :: "query \<Rightarrow> version \<Rightarrow> bytes \<Rightarrow> bytes \<Rightarrow> bool" where
  "query_satisfies (Query r None) v query_buf version_buf = range_satisfies r v query_buf version_buf"
| "query_satisfies (Query r (Some n)) v query_buf version_buf =
     (if \<not> range_satisfies r v query_buf version_buf then False
      else query_satisfies n v query_buf version_buf)"

fun query_satisfies_pre :: "query \<Rightarrow> version \<Rightarrow> bytes \<Rightarrow> bytes \<Rightarrow> bool \<Rightarrow> bool \<times> bool" where
  "query_satisfies_pre (Query r None) v query_buf version_buf pre_matched =
     range_satisfies_pre r v query_buf version_buf pre_matched"
| "query_satisfies_pre (Query r (Some n)) v query_buf version_buf pre_matched =
     (let (ok, pre_matched') = range_satisfies_pre r v query_buf version_buf pre_matched
      in if \<not> ok then (False, pre_matched')
         else query_satisfies_pre n v query_buf version_buf pre_matched')"

text \<open>The iterative copy of \<^verbatim>\<open>Query::clone\<close>.\<close>

fun query_clone :: "query \<Rightarrow> query" where
  "query_clone (Query r None) = Query r None"
| "query_clone (Query r (Some n)) = Query r (Some (query_clone n))"

text \<open>\<^verbatim>\<open>node.next = Some(new)\<close> for the node at index \<open>k\<close>.\<close>

fun set_query_next :: "query \<Rightarrow> nat \<Rightarrow> query \<Rightarrow> query" where
  "set_query_next (Query r n) 0 new = Query r (Some new)"
| "set_query_next (Query r None) (Suc k) new = Query r None"
| "set_query_next (Query r (Some n)) (Suc k) new = Query r (Some (set_query_next n k new))"

definition query_fmt :: "query \<Rightarrow> bytes \<Rightarrow> bytes" where
  "query_fmt q b =
     (case q_next q of
        Some p \<Rightarrow>
          if has_left (q_range p) \<or> has_right (q_range p)
          then range_fmt (q_range q) b @ '' && '' @ range_fmt (q_range p) b
          else range_fmt (q_range q) b
      | None \<Rightarrow> range_fmt (q_range q) b)"

section \<open>OR lists\<close>

fun list_satisfies :: "qlist \<Rightarrow> version \<Rightarrow> bytes \<Rightarrow> bytes \<Rightarrow> bool" where
  "list_satisfies (QList h t None) v list_buf version_buf = query_satisfies h v list_buf version_buf"
| "list_satisfies (QList h t (Some n)) v list_buf version_buf =
     (if query_satisfies h v list_buf version_buf then True
      else list_satisfies n v list_buf version_buf)"

fun list_satisfies_pre :: "qlist \<Rightarrow> version \<Rightarrow> bytes \<Rightarrow> bytes \<Rightarrow> bool" where
  "list_satisfies_pre (QList h t None) v list_buf version_buf =
     (let (ok, pre_matched) = query_satisfies_pre h v list_buf version_buf False in ok \<and> pre_matched)"
| "list_satisfies_pre (QList h t (Some n)) v list_buf version_buf =
     (let (ok, pre_matched) = query_satisfies_pre h v list_buf version_buf False
      in if ok \<and> pre_matched then True else list_satisfies_pre n v list_buf version_buf)"

fun list_eql :: "qlist \<Rightarrow> qlist \<Rightarrow> bool" where
  "list_eql (QList h t None) (QList h' t' n') = (query_eql h h' \<and> n' = None)"
| "list_eql (QList h t (Some n)) (QList h' t' None) = False"
| "list_eql (QList h t (Some n)) (QList h' t' (Some n')) = (if \<not> query_eql h h' then False else list_eql n n')"

text \<open>The index of the last node of a chain: where the \<^verbatim>\<open>clone\<close> functions walk to.\<close>

fun query_last :: "query \<Rightarrow> nat" where
  "query_last (Query r None) = 0"
| "query_last (Query r (Some n)) = Suc (query_last n)"

fun list_last :: "qlist \<Rightarrow> nat" where
  "list_last (QList h t None) = 0"
| "list_last (QList h t (Some n)) = Suc (list_last n)"

fun list_clone :: "qlist \<Rightarrow> qlist" where
  "list_clone (QList h t n) =
     (let h' = query_clone h;
          t' = (if q_next h' \<noteq> None then Some (query_last h') else None)
      in QList h' t' (case n of None \<Rightarrow> None | Some n' \<Rightarrow> Some (list_clone n')))"

definition list_and_range :: "qlist \<Rightarrow> vrange \<Rightarrow> qlist" where
  "list_and_range l r =
     (case l of QList h t n \<Rightarrow>
        if \<not> has_left (q_range h) \<and> \<not> has_right (q_range h) then QList (Query r (q_next h)) t n
        else
          let at = (case t of Some k \<Rightarrow> k | None \<Rightarrow> 0)
          in QList (set_query_next h at (Query r None)) (Some (Suc at)) n)"

fun list_fmt :: "qlist \<Rightarrow> bytes \<Rightarrow> bytes" where
  "list_fmt (QList h t None) b = query_fmt h b"
| "list_fmt (QList h t (Some n)) b = query_fmt h b @ '' || '' @ list_fmt n b"

section \<open>Groups\<close>

text \<open>Updates the list node at index \<open>k\<close>, which a back reference points to.\<close>

fun update_list_at :: "qlist \<Rightarrow> nat \<Rightarrow> (qlist \<Rightarrow> qlist) \<Rightarrow> qlist" where
  "update_list_at l 0 f = f l"
| "update_list_at (QList h t None) (Suc k) f = QList h t None"
| "update_list_at (QList h t (Some n)) (Suc k) f = QList h t (Some (update_list_at n k f))"

definition group_clone :: "group \<Rightarrow> group" where
  "group_clone g =
     (let h' = list_clone (g_head g)
      in \<lparr>g_head = h', g_tail = (if l_next h' \<noteq> None then Some (list_last h') else None),
          g_input = g_input g, g_flags = g_flags g\<rparr>)"

definition get_exact_version :: "group \<Rightarrow> version option" where
  "get_exact_version g = (if l_next (g_head g) \<noteq> None then None else exact_version (l_head (g_head g)))"

definition from_comparator :: "comparator \<Rightarrow> group" where
  "from_comparator c =
     group_default\<lparr>g_head := QList (Query (range_default\<lparr>r_left := c\<rparr>) None) None None\<rparr>"

definition group_from :: "version \<Rightarrow> group" where
  "group_from v = from_comparator \<lparr>c_op = Eql, c_version = v\<rparr>"

definition group_null_set :: "bytes \<Rightarrow> group" where
  "group_null_set input = (from_comparator null_set)\<lparr>g_input := input\<rparr>"

definition is_exact :: "group \<Rightarrow> bool" where
  "is_exact g \<longleftrightarrow>
     l_next (g_head g) = None \<and> q_next (l_head (g_head g)) = None
     \<and> \<not> has_right (q_range (l_head (g_head g)))
     \<and> c_op (r_left (q_range (l_head (g_head g)))) = Eql"

definition group_is_star :: "group \<Rightarrow> bool" where
  "group_is_star g \<longleftrightarrow>
     (let left = r_left (q_range (l_head (g_head g)))
      in c_op (r_right (q_range (l_head (g_head g)))) = Unset
         \<and> c_op left = Gte
         \<and> l_next (g_head g) = None
         \<and> q_next (l_head (g_head g)) = None
         \<and> is_zero (c_version left)
         \<and> BUILD \<notin> g_flags g)"

definition group_eql :: "group \<Rightarrow> group \<Rightarrow> bool" where
  "group_eql g rhs = list_eql (g_head g) (g_head rhs)"

definition group_and_range :: "group \<Rightarrow> vrange \<Rightarrow> group" where
  "group_and_range g r =
     g\<lparr>g_head := update_list_at (g_head g) (case g_tail g of Some k \<Rightarrow> k | None \<Rightarrow> 0)
         (\<lambda>l. list_and_range l r)\<rparr>"

definition or_range :: "group \<Rightarrow> vrange \<Rightarrow> group" where
  "or_range g r =
     (if g_tail g = None \<and> l_tail (g_head g) = None \<and> \<not> has_left (q_range (l_head (g_head g))) then
        (case g_head g of QList h t n \<Rightarrow> g\<lparr>g_head := QList (Query r (q_next h)) t n\<rparr>)
      else
        let new_tail = QList (Query r None) None None;
            at = (case g_tail g of Some k \<Rightarrow> k | None \<Rightarrow> 0)
        in g\<lparr>g_head := update_list_at (g_head g) at
               (\<lambda>l. case l of QList h t n \<Rightarrow> QList h t (Some new_tail)),
             g_tail := Some (Suc at)\<rparr>)"

definition group_satisfies :: "group \<Rightarrow> version \<Rightarrow> bytes \<Rightarrow> bytes \<Rightarrow> bool" where
  "group_satisfies g v group_buf version_buf =
     (if has_pre (tag v) then list_satisfies_pre (g_head g) v group_buf version_buf
      else list_satisfies (g_head g) v group_buf version_buf)"

definition group_is_empty :: "group \<Rightarrow> bool" where
  "group_is_empty g \<longleftrightarrow>
     l_next (g_head g) = None \<and> q_next (l_head (g_head g)) = None
     \<and> \<not> has_left (q_range (l_head (g_head g)))"

definition has_skipped :: "group \<Rightarrow> bool" where
  "has_skipped g \<longleftrightarrow> SKIPPED \<in> g_flags g"

definition satisfies_including_prerelease :: "group \<Rightarrow> version \<Rightarrow> bytes \<Rightarrow> bytes \<Rightarrow> bool" where
  "satisfies_including_prerelease g v group_buf version_buf =
     list_satisfies (g_head g) v group_buf version_buf"

text \<open>The outer loop of \<^verbatim>\<open>GroupFormatter\<close>, from one list node on.\<close>

fun group_fmt_loop :: "qlist \<Rightarrow> bytes \<Rightarrow> bytes" where
  "group_fmt_loop (QList h t None) b = list_fmt (QList h t None) b"
| "group_fmt_loop (QList h t (Some n)) b =
     list_fmt (QList h t (Some n)) b @ '' && '' @ group_fmt_loop n b"

definition group_fmt :: "group \<Rightarrow> bytes \<Rightarrow> bytes" where
  "group_fmt g b =
     (if g_tail g = None \<and> l_tail (g_head g) = None \<and> \<not> has_left (q_range (l_head (g_head g))) then []
      else if g_tail g = None \<and> l_tail (g_head g) = None then list_fmt (g_head g) b
      else group_fmt_loop (g_head g) b)"

section \<open>Disjunctive normal form\<close>

text \<open>The abstract view of a group: the list of its alternatives, each the list of its ranges.\<close>

fun ranges_of :: "query \<Rightarrow> vrange list" where
  "ranges_of (Query r None) = [r]"
| "ranges_of (Query r (Some n)) = r # ranges_of n"

fun dnf_of :: "qlist \<Rightarrow> vrange list list" where
  "dnf_of (QList h t None) = [ranges_of h]"
| "dnf_of (QList h t (Some n)) = ranges_of h # dnf_of n"

definition dnf :: "group \<Rightarrow> vrange list list" where
  "dnf g = dnf_of (g_head g)"

text \<open>Every back reference points to the last node of its chain, or is unset for a chain of one.\<close>

fun list_ok :: "qlist \<Rightarrow> bool" where
  "list_ok (QList h t None) = (t = (if q_next h = None then None else Some (query_last h)))"
| "list_ok (QList h t (Some n)) =
     (t = (if q_next h = None then None else Some (query_last h)) \<and> list_ok n)"

definition group_ok :: "group \<Rightarrow> bool" where
  "group_ok g \<longleftrightarrow>
     list_ok (g_head g)
     \<and> g_tail g = (if l_next (g_head g) = None then None else Some (list_last (g_head g)))"

text \<open>What \<^verbatim>\<open>and_range\<close> and \<^verbatim>\<open>or_range\<close> mean on alternatives.\<close>

definition add_range :: "vrange list \<Rightarrow> vrange \<Rightarrow> vrange list" where
  "add_range rs r =
     (case rs of
        [] \<Rightarrow> [r]
      | h # t \<Rightarrow> if \<not> has_left h \<and> \<not> has_right h then r # t else rs @ [r])"

definition and_alt :: "vrange list list \<Rightarrow> vrange \<Rightarrow> vrange list list" where
  "and_alt alts r = butlast alts @ [add_range (last alts) r]"

definition or_alt :: "vrange list list \<Rightarrow> vrange \<Rightarrow> vrange list list" where
  "or_alt alts r =
     (if length alts = 1 \<and> length (hd alts) = 1 \<and> \<not> has_left (hd (hd alts)) then [[r]]
      else alts @ [[r]])"

lemma ranges_nonempty [simp]: "ranges_of q \<noteq> []"
  by (cases q rule: ranges_of.cases) auto

lemma dnf_of_nonempty [simp]: "dnf_of l \<noteq> []"
  by (cases l rule: dnf_of.cases) auto

lemma hd_ranges: "hd (ranges_of q) = q_range q"
  by (cases q rule: ranges_of.cases) auto

lemma length_ranges: "length (ranges_of q) = 1 \<longleftrightarrow> q_next q = None"
  by (cases q rule: ranges_of.cases) auto

lemma length_dnf: "length (dnf_of l) = 1 \<longleftrightarrow> l_next l = None"
  by (cases l rule: dnf_of.cases) auto

lemma ranges_replace_head: "ranges_of (Query r (q_next q)) = r # tl (ranges_of q)"
  by (cases q rule: ranges_of.cases) auto

lemma set_query_next_last:
  "ranges_of (set_query_next q (query_last q) (Query r None)) = ranges_of q @ [r]
   \<and> query_last (set_query_next q (query_last q) (Query r None)) = Suc (query_last q)
   \<and> q_next (set_query_next q (query_last q) (Query r None)) \<noteq> None"
  by (induction q rule: query_last.induct) auto

lemma query_last_replace_head: "query_last (Query r (q_next q)) = query_last q"
  by (cases q rule: query_last.cases) auto

lemma query_last_single: "q_next q = None \<Longrightarrow> query_last q = 0"
  by (cases q rule: query_last.cases) auto

lemma list_and_range_node:
  assumes "t = (if q_next h = None then None else Some (query_last h))"
  obtains h' t' where "list_and_range (QList h t n) r = QList h' t' n"
    "ranges_of h' = add_range (ranges_of h) r"
    "t' = (if q_next h' = None then None else Some (query_last h'))"
proof (cases "\<not> has_left (q_range h) \<and> \<not> has_right (q_range h)")
  case True
  have a: "add_range (ranges_of h) r = r # tl (ranges_of h)"
    using True hd_ranges [of h] by (cases "ranges_of h") (auto simp: add_range_def)
  show thesis
    by (rule that [of "Query r (q_next h)" t])
      (simp_all add: a True assms list_and_range_def ranges_replace_head query_last_replace_head)
next
  case False
  have a: "add_range (ranges_of h) r = ranges_of h @ [r]"
    using False hd_ranges [of h] by (cases "ranges_of h") (auto simp: add_range_def)
  have k: "(case t of Some k \<Rightarrow> k | None \<Rightarrow> 0) = query_last h"
    unfolding assms by (simp add: query_last_single)
  have "list_and_range (QList h t n) r =
      QList (set_query_next h (query_last h) (Query r None)) (Some (Suc (query_last h))) n"
    using False k by (auto simp: list_and_range_def Let_def)
  then show thesis
    by (rule that) (use a set_query_next_last [of h r] in simp_all)
qed

lemma update_and_range:
  "list_ok l \<Longrightarrow>
   list_ok (update_list_at l (list_last l) (\<lambda>l. list_and_range l r))
   \<and> dnf_of (update_list_at l (list_last l) (\<lambda>l. list_and_range l r)) = and_alt (dnf_of l) r
   \<and> list_last (update_list_at l (list_last l) (\<lambda>l. list_and_range l r)) = list_last l"
proof (induction l rule: list_last.induct)
  case (1 h t)
  then have t: "t = (if q_next h = None then None else Some (query_last h))" by simp
  obtain h' t' where "list_and_range (QList h t None) r = QList h' t' None"
    "ranges_of h' = add_range (ranges_of h) r"
    "t' = (if q_next h' = None then None else Some (query_last h'))"
    by (rule list_and_range_node [OF t, of None r])
  then show ?case by (simp add: and_alt_def)
next
  case (2 h t n)
  then show ?case by (simp add: and_alt_def)
qed

lemma update_or_range:
  "list_ok l \<Longrightarrow>
   list_ok (update_list_at l (list_last l)
     (\<lambda>l. case l of QList h t n \<Rightarrow> QList h t (Some (QList (Query r None) None None))))
   \<and> dnf_of (update_list_at l (list_last l)
     (\<lambda>l. case l of QList h t n \<Rightarrow> QList h t (Some (QList (Query r None) None None)))) = dnf_of l @ [[r]]
   \<and> list_last (update_list_at l (list_last l)
     (\<lambda>l. case l of QList h t n \<Rightarrow> QList h t (Some (QList (Query r None) None None)))) = Suc (list_last l)
   \<and> l_next (update_list_at l (list_last l)
     (\<lambda>l. case l of QList h t n \<Rightarrow> QList h t (Some (QList (Query r None) None None)))) \<noteq> None"
  by (induction l rule: list_last.induct) auto

lemma list_last_single: "l_next l = None \<Longrightarrow> list_last l = 0"
  by (cases l rule: list_last.cases) auto

lemma list_last_next: "l_next l = None \<longleftrightarrow> list_last l = 0"
  by (cases l rule: list_last.cases) auto

lemma group_tail_last: "group_ok g \<Longrightarrow> (case g_tail g of Some k \<Rightarrow> k | None \<Rightarrow> 0) = list_last (g_head g)"
  by (auto simp: group_ok_def list_last_single)

lemma group_and_range_ok:
  assumes "group_ok g"
  shows "group_ok (group_and_range g r) \<and> dnf (group_and_range g r) = and_alt (dnf g) r"
  using update_and_range [of "g_head g" r] assms
  by (auto simp: group_and_range_def group_tail_last dnf_def) (auto simp: group_ok_def list_last_next)

lemma or_range_ok:
  assumes "group_ok g"
  shows "group_ok (or_range g r) \<and> dnf (or_range g r) = or_alt (dnf g) r"
proof (cases "g_tail g = None \<and> l_tail (g_head g) = None \<and> \<not> has_left (q_range (l_head (g_head g)))")
  case True
  then obtain h t where head: "g_head g = QList h t None"
    using assms by (cases "g_head g" rule: list_ok.cases) (auto simp: group_ok_def)
  then have h: "q_next h = None" "t = None" using True assms by (auto simp: group_ok_def split: if_splits)
  have rh: "ranges_of h = [q_range h]" using h(1) by (cases h rule: ranges_of.cases) auto
  show ?thesis
    using True head h rh assms by (simp add: or_range_def dnf_def or_alt_def group_ok_def)
next
  case False
  have "dnf (or_range g r) = dnf g @ [[r]] \<and> group_ok (or_range g r)"
    using False assms update_or_range [of "g_head g" r] group_tail_last [OF assms]
    by (auto simp: or_range_def dnf_def group_ok_def Let_def)
  moreover have "or_alt (dnf g) r = dnf g @ [[r]]"
  proof -
    have "\<not> (length (dnf g) = 1 \<and> length (hd (dnf g)) = 1 \<and> \<not> has_left (hd (hd (dnf g))))"
    proof
      assume one: "length (dnf g) = 1 \<and> length (hd (dnf g)) = 1 \<and> \<not> has_left (hd (hd (dnf g)))"
      then obtain h t where head: "g_head g = QList h t None"
        by (cases "g_head g" rule: dnf_of.cases) (auto simp: dnf_def)
      then have "q_next h = None" "\<not> has_left (q_range h)"
        using one by (auto simp: dnf_def hd_ranges length_ranges [unfolded One_nat_def])
      then show False using False head assms by (simp add: group_ok_def)
    qed
    then show ?thesis unfolding or_alt_def by (rule if_not_P)
  qed
  ultimately show ?thesis by simp
qed

section \<open>Building groups\<close>

text \<open>
  The contract between the range parser and the group it builds: \<^verbatim>\<open>and_range\<close> and \<^verbatim>\<open>or_range\<close> keep an
  invariant and act on an abstract view in a known way. What a sequence of them builds follows.
\<close>

datatype 'r instr = And 'r | Or 'r

fun exec :: "('g \<Rightarrow> 'r \<Rightarrow> 'g) \<Rightarrow> ('g \<Rightarrow> 'r \<Rightarrow> 'g) \<Rightarrow> 'g \<Rightarrow> 'r instr \<Rightarrow> 'g" where
  "exec f g s (And r) = f s r"
| "exec f g s (Or r) = g s r"

locale dnf_builder =
  fixes ok :: "'g \<Rightarrow> bool" and view :: "'g \<Rightarrow> 'a"
    and conj disj :: "'g \<Rightarrow> 'r \<Rightarrow> 'g" and conj_view disj_view :: "'a \<Rightarrow> 'r \<Rightarrow> 'a"
  assumes conj_ok: "ok s \<Longrightarrow> ok (conj s r)"
    and disj_ok: "ok s \<Longrightarrow> ok (disj s r)"
    and conj_refines: "ok s \<Longrightarrow> view (conj s r) = conj_view (view s) r"
    and disj_refines: "ok s \<Longrightarrow> view (disj s r) = disj_view (view s) r"
begin

lemma exec_refines:
  "ok s \<Longrightarrow> ok (exec conj disj s i) \<and> view (exec conj disj s i) = exec conj_view disj_view (view s) i"
  by (cases i) (auto simp: conj_ok disj_ok conj_refines disj_refines)

lemma run_refines:
  "ok s \<Longrightarrow> ok (foldl (exec conj disj) s is)
    \<and> view (foldl (exec conj disj) s is) = foldl (exec conj_view disj_view) (view s) is"
  by (induction "is" arbitrary: s) (auto simp: exec_refines)

end

interpretation group_builder: dnf_builder group_ok dnf group_and_range or_range and_alt or_alt
  by unfold_locales (simp_all add: group_and_range_ok or_range_ok)

lemma group_default_ok [simp]: "group_ok (group_default\<lparr>g_input := s\<rparr>)" "group_ok group_default"
  by (simp_all add: group_ok_def group_default_def list_default_def query_default_def)

lemma dnf_default [simp]: "dnf (group_default\<lparr>g_input := s\<rparr>) = [[range_default]]" "dnf group_default = [[range_default]]"
  by (simp_all add: dnf_def group_default_def list_default_def query_default_def)

section \<open>Satisfaction\<close>

text \<open>Whether \<open>r\<close> has a prerelease comparator of the numbers of \<open>v\<close>.\<close>

definition pre_match :: "vrange \<Rightarrow> version \<Rightarrow> bool" where
  "pre_match r v \<longleftrightarrow>
     has_left r
     \<and> (has_pre (tag (c_version (r_left r))) \<and> same_core v (c_version (r_left r))
        \<or> has_right r \<and> has_pre (tag (c_version (r_right r))) \<and> same_core v (c_version (r_right r)))"

lemma range_satisfies_pre_eq:
  "fst (range_satisfies_pre r v b c m) = range_satisfies r v b c"
  "snd (range_satisfies_pre r v b c m) = (m \<or> pre_match r v)"
  by (auto simp: range_satisfies_pre_def range_satisfies_def pre_match_def same_core_def Let_def)

lemma query_satisfies_iff:
  "query_satisfies q v b c \<longleftrightarrow> (\<forall>r \<in> set (ranges_of q). range_satisfies r v b c)"
  by (induction q v b c rule: query_satisfies.induct) auto

lemma query_satisfies_pre_iff:
  "fst (query_satisfies_pre q v b c m) = query_satisfies q v b c
   \<and> (query_satisfies q v b c \<longrightarrow>
       snd (query_satisfies_pre q v b c m) = (m \<or> (\<exists>r \<in> set (ranges_of q). pre_match r v)))"
proof (induction q v b c m rule: query_satisfies_pre.induct)
  case (1 r v b c m)
  then show ?case by (simp add: range_satisfies_pre_eq)
next
  case (2 r n v b c m)
  obtain ok m' where rs: "range_satisfies_pre r v b c m = (ok, m')" by fastforce
  then have "ok = range_satisfies r v b c" "m' = (m \<or> pre_match r v)"
    using range_satisfies_pre_eq [of r v b c m] by simp_all
  then show ?case using 2 rs by (cases ok) auto
qed

lemma list_satisfies_iff:
  "list_satisfies l v b c \<longleftrightarrow> (\<exists>alt \<in> set (dnf_of l). \<forall>r \<in> set alt. range_satisfies r v b c)"
  by (induction l v b c rule: list_satisfies.induct) (auto simp: query_satisfies_iff)

lemma list_satisfies_pre_iff:
  "list_satisfies_pre l v b c \<longleftrightarrow>
     (\<exists>alt \<in> set (dnf_of l). (\<forall>r \<in> set alt. range_satisfies r v b c) \<and> (\<exists>r \<in> set alt. pre_match r v))"
proof (induction l v b c rule: list_satisfies_pre.induct)
  case (1 h t v b c)
  then show ?case
    using query_satisfies_pre_iff [of h v b c False]
    by (auto simp: query_satisfies_iff split: prod.splits)
next
  case (2 h t n v b c)
  then show ?case
    using query_satisfies_pre_iff [of h v b c False]
    by (auto simp: query_satisfies_iff split: prod.splits)
qed

lemma group_satisfies_dnf:
  "group_satisfies g v b c \<longleftrightarrow>
     (\<exists>alt \<in> set (dnf g). (\<forall>r \<in> set alt. range_satisfies r v b c)
        \<and> (has_pre (tag v) \<longrightarrow> (\<exists>r \<in> set alt. pre_match r v)))"
  by (auto simp: group_satisfies_def dnf_def list_satisfies_iff list_satisfies_pre_iff)

section \<open>Clones and comparison\<close>

lemma query_clone_id [simp]: "query_clone q = q"
  by (induction q rule: query_clone.induct) auto

lemma list_clone_id: "list_ok l \<Longrightarrow> list_clone l = l"
  by (induction l rule: list_ok.induct) (auto simp: Let_def)

lemma query_eql_refl: "query_eql q q"
  by (induction q rule: query_clone.induct)
    (auto simp: range_eql_def comparator_eql_def version_eql_def tag_eql_def)

lemma list_eql_refl: "list_eql l l"
  by (induction l rule: list_last.induct) (auto simp: query_eql_refl)

section \<open>Properties\<close>

text \<open>
  C27. A version satisfies a group exactly when some alternative has all of its ranges satisfied and,
  for a prerelease, also a comparator that is a prerelease of the same numbers. The loops over the
  two linked chains, with their early exits and the flag carried through \<^verbatim>\<open>satisfies_pre\<close>, compute
  this.
\<close>

theorem group_satisfies_iff:
  "group_satisfies g v b c =
     list_ex (\<lambda>alt. list_all (\<lambda>r. range_satisfies r v b c) alt
        \<and> (if has_pre (tag v) then list_ex (\<lambda>r. pre_match r v) alt else True)) (dnf g)"
  by (auto simp: group_satisfies_dnf list_ex_iff list_all_iff)

text \<open>
  C25. Any sequence of \<^verbatim>\<open>and_range\<close> and \<^verbatim>\<open>or_range\<close> calls on an empty group loses no range: it keeps
  every back reference on the last node of its chain, and the alternatives are those the calls
  describe.
\<close>

theorem group_build_refines:
  "group_ok (foldl (exec group_and_range or_range) group_default is)
   \<and> dnf (foldl (exec group_and_range or_range) group_default is) =
       foldl (exec and_alt or_alt) [[range_default]] is"
  using group_builder.run_refines [of group_default "is"] by simp

text \<open>
  \<^verbatim>\<open>Clone\<close> rebuilds a group exactly, back references included, and a clone is \<^verbatim>\<open>eql\<close> to its
  original.
\<close>

theorem group_clone_exact:
  assumes "group_ok g"
  shows "group_clone g = g \<and> group_eql (group_clone g) g"
proof -
  have "list_clone (g_head g) = g_head g" using assms by (simp add: group_ok_def list_clone_id)
  then have "group_clone g = g" using assms by (cases g) (auto simp: group_clone_def group_ok_def Let_def)
  then show ?thesis by (simp add: group_eql_def list_eql_refl)
qed

theorem group_clone_exact_witness:
  "group_clone (or_range (group_from version_default) (range_default\<lparr>r_left := null_set\<rparr>)) =
   or_range (group_from version_default) (range_default\<lparr>r_left := null_set\<rparr>)"
proof -
  have "group_ok (group_from version_default)"
    by (simp add: group_from_def from_comparator_def group_default_def group_ok_def)
  then have "group_ok (or_range (group_from version_default) (range_default\<lparr>r_left := null_set\<rparr>))"
    by (simp add: or_range_ok)
  from group_clone_exact [OF this] show ?thesis by blast
qed

end
