(* ===== verification/SemverParse.thy ===== *)
theory SemverParse
  imports SemverQuery
begin

text \<open>
  The range parser of \<^verbatim>\<open>src/semver/SemverQuery.rs\<close>: \<^verbatim>\<open>Token::to_range\<close>, which turns one operator and
  one partial version into a range, \<^verbatim>\<open>Range::caret\<close>, and \<^verbatim>\<open>parse\<close>, the scanner that builds a group.
\<close>

section \<open>Tokens\<close>

datatype token_tag = TkNone | TkGt | TkGte | TkLt | TkLte | TkVersion | TkTilda | TkCaret

record token =
  tk_tag :: token_tag
  tk_wildcard :: wildcard

definition token_default :: token where
  "token_default = \<lparr>tk_tag = TkNone, tk_wildcard = WNone\<rparr>"

text \<open>The arm \<^verbatim>\<open>TokenTag::Caret\<close>; leaving the block \<^verbatim>\<open>'done\<close> is returning the range.\<close>

definition caret_range :: "parse_result \<Rightarrow> version_tag \<Rightarrow> vrange" where
  "caret_range parsed floor =
     (let ver = pr_version parsed in
      case p_major ver of
        None \<Rightarrow>
          if pr_valid parsed then init_wildcard (partial_min ver) WMajor floor else range_default
      | Some maj \<Rightarrow>
          let v = version_default\<lparr>major := maj, tag := floor\<rparr> in
          case p_minor ver of
            None \<Rightarrow>
              \<lparr>r_left = \<lparr>c_op = Gte, c_version = v\<rparr>, r_right = lt_next_major maj\<rparr>
          | Some mnr \<Rightarrow>
              let v = v\<lparr>minor := mnr\<rparr> in
              case p_patch ver of
                Some pch \<Rightarrow>
                  let v = v\<lparr>patch := pch, tag := p_tag ver\<rparr> in
                  if maj = 0 then
                    let v = (if \<not> has_pre (p_tag ver) then v\<lparr>tag := (tag v)\<lparr>pre := pre floor\<rparr>\<rparr> else v)
                    in \<lparr>r_left = \<lparr>c_op = Gte, c_version = v\<rparr>,
                        r_right = (if mnr = 0 then lt_next_patch 0 0 pch else lt_next_minor 0 mnr)\<rparr>
                  else \<lparr>r_left = \<lparr>c_op = Gte, c_version = v\<rparr>, r_right = lt_next_major maj\<rparr>
              | None \<Rightarrow>
                  if maj = 0 then
                    \<lparr>r_left = \<lparr>c_op = Gte, c_version = v\<rparr>, r_right = lt_next_minor 0 mnr\<rparr>
                  else \<lparr>r_left = \<lparr>c_op = Gte, c_version = v\<rparr>, r_right = lt_next_major maj\<rparr>)"

definition tilde_range :: "parse_result \<Rightarrow> version_tag \<Rightarrow> vrange" where
  "tilde_range parsed floor =
     (let ver = pr_version parsed in
      case p_major ver of
        None \<Rightarrow>
          if pr_valid parsed then init_wildcard (partial_min ver) WMajor floor else range_default
      | Some maj \<Rightarrow>
          let v = version_default\<lparr>major := maj\<rparr> in
          case p_minor ver of
            None \<Rightarrow> \<lparr>r_left = \<lparr>c_op = Gte, c_version = v\<rparr>, r_right = lt_next_major maj\<rparr>
          | Some mnr \<Rightarrow>
              let v = v\<lparr>minor := mnr\<rparr>;
                  v = (case p_patch ver of
                         Some pch \<Rightarrow> v\<lparr>patch := pch, tag := p_tag ver\<rparr> | None \<Rightarrow> v)
              in \<lparr>r_left = \<lparr>c_op = Gte, c_version = v\<rparr>, r_right = lt_next_minor maj mnr\<rparr>)"

text \<open>The arms for \<^verbatim>\<open><\<close>, \<^verbatim>\<open><=\<close>, \<^verbatim>\<open>>\<close> and \<^verbatim>\<open>>=\<close>.\<close>

definition operator_range :: "op \<Rightarrow> wildcard \<Rightarrow> parse_result \<Rightarrow> version_tag \<Rightarrow> vrange" where
  "operator_range o' w parsed floor =
     (let ver = pr_version parsed;
          maj = (case p_major ver of None \<Rightarrow> 0 | Some n \<Rightarrow> n);
          mnr = (case p_minor ver of None \<Rightarrow> 0 | Some n \<Rightarrow> n);
          first_of_partial =
            (\<lambda>t. \<lparr>c_op = o', c_version = version_default\<lparr>major := maj, minor := mnr, tag := t\<rparr>\<rparr>);
          only = (\<lambda>c. range_default\<lparr>r_left := c\<rparr>)
      in case w of
           WNone \<Rightarrow> only \<lparr>c_op = o', c_version = partial_min ver\<rparr>
         | WMajor \<Rightarrow>
             if (o' = Gt \<or> o' = Lt) \<and> pr_valid parsed then only null_set
             else init_wildcard (partial_min ver) WMajor floor
         | WMinor \<Rightarrow>
             if o' = Gte then only (first_of_partial floor)
             else if o' = Lt then only (first_of_partial ZERO_PRE)
             else if o' = Gt then only (gte_next_major maj floor)
             else only (lt_next_major maj)
         | WPatch \<Rightarrow>
             if o' = Gte then only (first_of_partial floor)
             else if o' = Lt then only (first_of_partial ZERO_PRE)
             else if o' = Gt then only (gte_next_minor maj mnr floor)
             else only (lt_next_minor maj mnr))"

text \<open>\<^verbatim>\<open>Token::to_range\<close>; \<^const>\<open>None\<close> is the \<^verbatim>\<open>unreachable!()\<close> of \<^verbatim>\<open>TokenTag::None\<close>.\<close>

definition to_range :: "token \<Rightarrow> parse_result \<Rightarrow> version_tag \<Rightarrow> vrange option" where
  "to_range t parsed floor =
     (case tk_tag t of
        TkNone \<Rightarrow> None
      | TkCaret \<Rightarrow> Some (caret_range parsed floor)
      | TkTilda \<Rightarrow> Some (tilde_range parsed floor)
      | TkVersion \<Rightarrow>
          Some (if tk_wildcard t \<noteq> WNone
                then init_wildcard (partial_min (pr_version parsed)) (tk_wildcard t) floor
                else range_default
                       \<lparr>r_left := \<lparr>c_op = Eql, c_version = partial_min (pr_version parsed)\<rparr>\<rparr>)
      | TkGt \<Rightarrow> Some (operator_range Gt (tk_wildcard t) parsed floor)
      | TkGte \<Rightarrow> Some (operator_range Gte (tk_wildcard t) parsed floor)
      | TkLt \<Rightarrow> Some (operator_range Lt (tk_wildcard t) parsed floor)
      | TkLte \<Rightarrow> Some (operator_range Lte (tk_wildcard t) parsed floor))"

definition caret :: "version \<Rightarrow> vrange option" where
  "caret v =
     to_range \<lparr>tk_tag = TkCaret, tk_wildcard = WNone\<rparr>
       (parse_result_default
          \<lparr>pr_version := \<lparr>p_major = Some (major v), p_minor = Some (minor v), p_patch = Some (patch v),
                         p_tag = tag v\<rparr>\<rparr>)
       tag_default"

section \<open>The scanner\<close>

text \<open>The variables of \<^verbatim>\<open>parse_with\<close> that live across rounds, the cursor apart.\<close>

record scan =
  sc_list :: group
  sc_token :: token
  sc_is_or :: bool
  sc_after :: bool

definition is_space :: "u8 \<Rightarrow> bool" where
  "is_space c \<longleftrightarrow> c = CHR '' ''"

definition set_flag :: "nat \<Rightarrow> scan \<Rightarrow> scan" where
  "set_flag f s = s\<lparr>sc_list := (sc_list s)\<lparr>g_flags := insert f (g_flags (sc_list s))\<rparr>\<rparr>"

definition set_tag :: "token_tag \<Rightarrow> scan \<Rightarrow> scan" where
  "set_tag t s = s\<lparr>sc_token := (sc_token s)\<lparr>tk_tag := t\<rparr>\<rparr>"

definition set_wildcard :: "wildcard \<Rightarrow> scan \<Rightarrow> scan" where
  "set_wildcard w s = s\<lparr>sc_token := (sc_token s)\<lparr>tk_wildcard := w\<rparr>\<rparr>"

text \<open>
  The \<^verbatim>\<open>match input[i]\<close> at the start of a round: the new cursor and variables, \<^verbatim>\<open>skip_round\<close> and
  \<^verbatim>\<open>no_operator\<close>.
\<close>

definition scan_op :: "bytes \<Rightarrow> nat \<Rightarrow> scan \<Rightarrow> nat \<times> scan \<times> bool \<times> bool" where
  "scan_op input i s =
     (let c = input ! i; spaces = skip_while is_space input in
      if c = CHR ''>'' \<or> c = CHR ''<'' then
        let i = spaces (i + 1);
            or_equal = (i < length input \<and> input ! i = CHR ''='');
            i = (if or_equal then i + 1 else i);
            t = (if c = CHR ''>'' then (if or_equal then TkGte else TkGt)
                 else (if or_equal then TkLte else TkLt))
        in (spaces i, set_tag t s, False, False)
      else if c = CHR ''='' \<or> c = CHR ''v'' then (spaces (i + 1), set_tag TkVersion s, False, True)
      else if c = CHR ''~'' then
        let i = i + 1; i = (if i < length input \<and> input ! i = CHR ''>'' then i + 1 else i)
        in (spaces i, set_tag TkTilda s, False, False)
      else if c = CHR ''^'' then (spaces (i + 1), set_tag TkCaret s, False, False)
      else if is_ascii_digit c \<or> c \<in> {CHR ''X'', CHR ''x'', CHR ''*''} then
        (i, set_tag TkVersion s, False, True)
      else if c = CHR ''|'' then
        (spaces (skip_while (\<lambda>c. c = CHR ''|'') input (i + 1)),
         set_tag TkNone (s\<lparr>sc_is_or := True\<rparr>), True, False)
      else if c = CHR ''-'' then (spaces (i + 1), s, False, False)
      else if c = CHR '' '' then (spaces (i + 1), s, True, False)
      else
        (skip_while (\<lambda>c. c \<noteq> CHR '' '' \<and> c \<noteq> CHR ''|'') input (i + 1),
         set_flag SKIPPED (set_tag TkNone (s\<lparr>sc_after := False\<rparr>)), True, False))"

text \<open>
  The block \<^verbatim>\<open>'possibly_hyphenate\<close>: the cursor of the second version when the text from \<open>i\<close> on is
  \<^verbatim>\<open> - <version>\<close>.
\<close>

definition leading_ws :: "bytes \<Rightarrow> nat \<Rightarrow> nat" where
  "leading_ws input i = i + length_of_leading_whitespace_ascii (drop i input)"

definition hyphen :: "bytes \<Rightarrow> nat \<Rightarrow> nat option" where
  "hyphen input i =
     (if \<not> (i < length input \<and> (input ! i = CHR '' '' \<or> input ! i = CHR ''-'')) then None
      else let i = leading_ws input i in
      if \<not> (i < length input \<and> input ! i = CHR ''-'') then None
      else let i = leading_ws input (i + 1) in
      if i = length input then None
      else let i = (if input ! i = CHR ''v'' \<or> input ! i = CHR ''='' then i + 1 else i) in
      if i = length input then None
      else let i = leading_ws input i in
      if i = length input then None
      else if \<not> (is_ascii_digit (input ! i) \<or> input ! i \<in> {CHR ''X'', CHR ''x'', CHR ''*''}) then None
      else Some i)"

text \<open>\<^verbatim>\<open>list.flags.set(..)\<close> after a version was read.\<close>

definition version_flags :: "parse_result \<Rightarrow> scan \<Rightarrow> scan" where
  "version_flags parsed s =
     (let v = partial_min (pr_version parsed);
          s = (if \<not> pr_valid parsed then set_flag SKIPPED s else s);
          s = (if has_build (tag v) then set_flag BUILD s else s)
      in if has_pre (tag v) then set_flag PRE s else s)"

definition hyphen_range :: "parse_result \<Rightarrow> parse_result \<Rightarrow> version_tag \<Rightarrow> vrange" where
  "hyphen_range first second floor =
     (let v = partial_min (pr_version first);
          second_version = partial_min (pr_version second);
          first_version = (if \<not> has_pre (tag v) then v\<lparr>tag := (tag v)\<lparr>pre := pre floor\<rparr>\<rparr> else v)
      in \<lparr>r_left = \<lparr>c_op = Gte, c_version = first_version\<rparr>,
          r_right =
            (case pr_wildcard second of
               WMajor \<Rightarrow> comparator_default
             | WMinor \<Rightarrow> lt_next_major (major second_version)
             | WPatch \<Rightarrow> lt_next_minor (major second_version) (minor second_version)
             | WNone \<Rightarrow>
                 if has_pre floor \<and> \<not> has_pre (tag second_version) then
                   lt_next_patch (major second_version) (minor second_version) (patch second_version)
                 else \<lparr>c_op = Lte, c_version = second_version\<rparr>)\<rparr>)"

text \<open>
  \<^verbatim>\<open>sliced.sub(&input[i..])\<close>. Only the buffer of \<^verbatim>\<open>sliced\<close> is read, so \<^verbatim>\<open>sliced\<close> is taken to be
  \<^verbatim>\<open>sliced.sub(input)\<close>: its offset is where \<^verbatim>\<open>input\<close> starts in the buffer.
\<close>

definition sub_from :: "sliced_string \<Rightarrow> bytes \<Rightarrow> nat \<Rightarrow> sliced_string" where
  "sub_from sliced input i = sliced_sub sliced (sl_off sliced + i) (drop i input)"

text \<open>
  Adds the range of this round and resets the round's variables; \<open>valid\<close> and \<open>rollback\<close> as in the
  source.
\<close>

definition emit :: "bytes \<Rightarrow> nat \<Rightarrow> bool \<Rightarrow> vrange \<Rightarrow> scan \<Rightarrow> scan" where
  "emit input rollback valid r s =
     (let l = (if sc_is_or s then or_range (sc_list s) r else group_and_range (sc_list s) r)
      in set_wildcard WNone
           (s\<lparr>sc_list := l, sc_is_or := False,
              sc_after := (valid \<and> rollback < length input \<and> input ! rollback = CHR '' '')\<rparr>))"

text \<open>
  One round of the loop: \<^term>\<open>Inl g\<close> is \<^verbatim>\<open>return Ok(g)\<close>, \<^term>\<open>Inr (i, s)\<close> the cursor and variables of
  the next round.
\<close>

definition round :: "bytes \<Rightarrow> sliced_string \<Rightarrow> version_tag \<Rightarrow> nat \<Rightarrow> scan \<Rightarrow> group + nat \<times> scan" where
  "round input sliced floor i s =
     (let (i, s, skip_round, no_operator) = scan_op input i s in
      if skip_round then Inr (i, s)
      else
        let parsed = version_parse (sub_from sliced input i) in
        if pr_overflow parsed then Inl (group_null_set input)
        else
          let s = set_wildcard (pr_wildcard parsed) (version_flags parsed s);
              rollback = i + pr_len parsed
          in case hyphen input rollback of
               Some j \<Rightarrow>
                 let s = (if no_operator then s\<lparr>sc_is_or := True\<rparr> else s);
                     second = version_parse (sub_from sliced input j)
                 in if pr_overflow second then Inl (group_null_set input)
                    else Inr (j + pr_len second + 1,
                              emit input rollback False (hyphen_range parsed second floor)
                                (version_flags second s))
             | None \<Rightarrow>
                 let s = (if no_operator \<and> \<not> (sc_after s \<and> pr_valid parsed)
                          then s\<lparr>sc_is_or := True\<rparr> else s)
                 in case to_range (sc_token s) parsed floor of
                      None \<Rightarrow> Inr (rollback + 1, set_flag SKIPPED (set_wildcard WNone s))
                    | Some r \<Rightarrow> Inr (rollback + 1, emit input rollback (pr_valid parsed) r s))"

lemma scan_op_progress:
  assumes "scan_op input i s = (i', s', skip_round, no_operator)"
  shows "i \<le> i'" and "skip_round \<Longrightarrow> i < i'"
proof -
  have ge: "i < skip_while p input (i + 1)" "i < skip_while p input (Suc i)"
    "i < skip_while p input (i + 1 + 1)" for p
    using skip_while_ge [of "i + 1" p input] skip_while_ge [of "Suc i" p input]
      skip_while_ge [of "i + 1 + 1" p input] by auto
  have ge2: "i < skip_while q input (skip_while p input (Suc i))"
    "i < skip_while q input (Suc (skip_while p input (Suc i)))" for p q
    using skip_while_ge [of "Suc i" p input] skip_while_ge [of "skip_while p input (Suc i)" q input]
      skip_while_ge [of "Suc (skip_while p input (Suc i))" q input] by auto
  show "i \<le> i'" "skip_round \<Longrightarrow> i < i'"
    using assms ge ge2
    by (auto simp: scan_op_def Let_def less_imp_le split: if_splits)
qed

lemma leading_ws_ge: "i \<le> leading_ws input i"
  by (simp add: leading_ws_def)

lemma hyphen_ge: "hyphen input i = Some j \<Longrightarrow> i \<le> j"
proof -
  assume h: "hyphen input i = Some j"
  let ?a = "leading_ws input i"
  let ?b = "leading_ws input (?a + 1)"
  let ?c = "if input ! ?b = CHR ''v'' \<or> input ! ?b = CHR ''='' then ?b + 1 else ?b"
  have "j = leading_ws input ?c"
    using h unfolding hyphen_def Let_def by (auto split: if_splits)
  moreover have "i \<le> ?a" "?a + 1 \<le> ?b" "?b \<le> ?c" "?c \<le> leading_ws input ?c"
    by (auto intro: leading_ws_ge)
  ultimately show ?thesis by linarith
qed

lemma round_progress: "round input sliced floor i s = Inr (i', s') \<Longrightarrow> i < i'"
proof -
  assume r: "round input sliced floor i s = Inr (i', s')"
  obtain i1 s1 skip no_op where op: "scan_op input i s = (i1, s1, skip, no_op)"
    by (metis prod_cases4)
  show ?thesis
    using r op scan_op_progress [OF op]
    by (auto simp: round_def Let_def split: if_splits option.splits dest: hyphen_ge)
qed

function parse_rounds :: "bytes \<Rightarrow> sliced_string \<Rightarrow> version_tag \<Rightarrow> nat \<Rightarrow> scan \<Rightarrow> group" where
  "parse_rounds input sliced floor i s =
     (if i < length input then
        case round input sliced floor i s of
          Inl g \<Rightarrow> g
        | Inr (i', s') \<Rightarrow> parse_rounds input sliced floor i' s'
      else sc_list s)"
  by pat_completeness auto
termination
  by (relation "measure (\<lambda>(input, sliced, floor, i, s). length input - i)")
    (auto dest: round_progress)

declare parse_rounds.simps [simp del]

definition parse_with :: "bytes \<Rightarrow> sliced_string \<Rightarrow> version_tag \<Rightarrow> group" where
  "parse_with input sliced floor =
     parse_rounds input sliced floor 0
       \<lparr>sc_list = \<lparr>g_head = list_default, g_tail = None, g_input = input, g_flags = {}\<rparr>,
        sc_token = token_default, sc_is_or = False, sc_after = False\<rparr>"

definition query_parse :: "bytes \<Rightarrow> sliced_string \<Rightarrow> group" where
  "query_parse input sliced = parse_with input sliced tag_default"

definition parse_including_prerelease :: "bytes \<Rightarrow> sliced_string \<Rightarrow> group" where
  "parse_including_prerelease input sliced = parse_with input sliced ZERO_PRE"

section \<open>What the parser builds\<close>

text \<open>
  \<^verbatim>\<open>Range::satisfies\<close> reads the right comparator only when the left one is set, so a range with a right
  comparator alone would lose it.
\<close>

definition range_ok :: "vrange \<Rightarrow> bool" where
  "range_ok r \<longleftrightarrow> (has_right r \<longrightarrow> has_left r)"

definition built :: "group \<Rightarrow> bool" where
  "built g \<longleftrightarrow> group_ok g \<and> list_all (list_all range_ok) (dnf g)"

lemma range_ok_intros [simp]:
  "range_ok range_default"
  "c_op c \<noteq> Unset \<Longrightarrow> range_ok \<lparr>r_left = c, r_right = d\<rparr>"
  "range_ok (range_default\<lparr>r_left := c\<rparr>)"
  by (simp_all add: range_ok_def has_left_def has_right_def range_default_def comparator_default_def)

lemma next_ops [simp]:
  "c_op (lt_next_major m) \<noteq> Unset" "c_op (lt_next_minor m n) \<noteq> Unset"
  by (simp_all add: lt_next_major_def lt_next_minor_def split: option.split)

lemma init_wildcard_ok [simp]: "range_ok (init_wildcard v w floor)"
  by (cases w) (simp_all add: init_wildcard_def)

lemma caret_range_ok [simp]: "range_ok (caret_range p floor)"
  by (auto simp: caret_range_def Let_def split: option.splits)

lemma tilde_range_ok [simp]: "range_ok (tilde_range p floor)"
  by (auto simp: tilde_range_def Let_def split: option.splits)

lemma operator_range_ok [simp]: "range_ok (operator_range o' w p floor)"
  by (cases w) (simp_all add: operator_range_def Let_def)

lemma hyphen_range_ok [simp]: "range_ok (hyphen_range p q floor)"
  by (simp add: hyphen_range_def Let_def)

lemma to_range_ok: "to_range t p floor = Some r \<Longrightarrow> range_ok r"
  by (auto simp: to_range_def split: token_tag.splits)

lemma built_and_range: "built g \<Longrightarrow> range_ok r \<Longrightarrow> built (group_and_range g r)"
proof -
  assume g: "built g" and r: "range_ok r"
  have "list_all (list_all range_ok) (and_alt alts r)"
    if "list_all (list_all range_ok) alts" "alts \<noteq> []" for alts
  proof -
    have "list_all range_ok (last alts)" "list_all (list_all range_ok) (butlast alts)"
      using that by (auto simp: list_all_iff dest: in_set_butlastD)
    then show ?thesis using r by (auto simp: and_alt_def add_range_def split: list.splits)
  qed
  then show ?thesis using g group_and_range_ok [of g r] by (simp add: built_def dnf_def)
qed

lemma built_or_range: "built g \<Longrightarrow> range_ok r \<Longrightarrow> built (or_range g r)"
  using or_range_ok [of g r] by (auto simp: built_def or_alt_def)

lemma built_flags [simp]: "built (g\<lparr>g_flags := f\<rparr>) = built g"
  by (simp add: built_def group_ok_def dnf_def)

lemma built_setters [simp]:
  "built (sc_list (set_flag f s)) = built (sc_list s)" "sc_list (set_tag t s) = sc_list s"
  "sc_list (set_wildcard w s) = sc_list s"
  "built (sc_list (version_flags p s)) = built (sc_list s)"
  by (simp_all add: set_flag_def set_tag_def set_wildcard_def version_flags_def Let_def)

lemma built_scan_op:
  "scan_op input i s = (i', s', skip, no_op) \<Longrightarrow> built (sc_list s) \<Longrightarrow> built (sc_list s')"
  by (auto simp: scan_op_def Let_def split: if_splits)

lemma built_emit: "built (sc_list s) \<Longrightarrow> range_ok r \<Longrightarrow> built (sc_list (emit input k valid r s))"
  by (simp add: emit_def built_and_range built_or_range Let_def)

lemma built_null_set: "built (group_null_set input)"
  by (simp add: built_def group_null_set_def from_comparator_def group_default_def group_ok_def dnf_def)

lemma built_round:
  assumes "built (sc_list s)"
  shows "round input sliced floor i s = Inl g \<Longrightarrow> built g"
    and "round input sliced floor i s = Inr (i', s') \<Longrightarrow> built (sc_list s')"
proof -
  obtain i1 s1 skip no_op where op: "scan_op input i s = (i1, s1, skip, no_op)" by (metis prod_cases4)
  have s1: "built (sc_list s1)" by (rule built_scan_op [OF op assms])
  show "round input sliced floor i s = Inl g \<Longrightarrow> built g"
    using op by (auto simp: round_def Let_def built_null_set split: if_splits option.splits)
  show "round input sliced floor i s = Inr (i', s') \<Longrightarrow> built (sc_list s')"
    using op s1 to_range_ok
    by (auto simp: round_def Let_def intro!: built_emit split: if_splits option.splits)
qed

lemma built_rounds: "built (sc_list s) \<Longrightarrow> built (parse_rounds input sliced floor i s)"
proof (induction input sliced floor i s rule: parse_rounds.induct)
  case (1 input sliced floor i s)
  show ?case
  proof (cases "i < length input")
    case lt: True
    show ?thesis
    proof (cases "round input sliced floor i s")
      case (Inl g)
      then show ?thesis using built_round(1) [OF 1(2)] lt by (simp add: parse_rounds.simps [of _ _ _ i])
    next
      case (Inr x)
      then obtain i' s' where x: "x = (i', s')" by fastforce
      have "built (sc_list s')" using built_round(2) [OF 1(2)] Inr x by blast
      then have "built (parse_rounds input sliced floor i' s')"
        using 1(1) [OF lt, of "(i', s')" i' s'] Inr x by simp
      then show ?thesis using Inr x lt by (simp add: parse_rounds.simps [of _ _ _ i])
    qed
  next
    case False
    then show ?thesis using 1(2) by (simp add: parse_rounds.simps [of _ _ _ i])
  qed
qed

lemma parse_with_built: "built (parse_with input sliced floor)"
  unfolding parse_with_def
  by (rule built_rounds)
    (simp add: built_def group_ok_def dnf_def list_default_def query_default_def)

section \<open>Carets and tildes\<close>

text \<open>The versions that agree with \<open>v\<close> up to its left-most number that is not zero.\<close>

definition caret_upper :: "version \<Rightarrow> version \<Rightarrow> bool" where
  "caret_upper v w \<longleftrightarrow>
     (if major v \<noteq> 0 then major w \<le> major v
      else if minor v \<noteq> 0 then major w = 0 \<and> minor w \<le> minor v
      else major w = 0 \<and> minor w = 0 \<and> patch w \<le> patch v)"

text \<open>\<^verbatim>\<open>>=v\<close>, with node-semver's exception that \<^verbatim>\<open>>=0.0.0\<close> admits every version.\<close>

definition at_least :: "version \<Rightarrow> version \<Rightarrow> bytes \<Rightarrow> bytes \<Rightarrow> bool" where
  "at_least v w b c \<longleftrightarrow> order_without_build w v c b \<noteq> Less \<or> is_zero v \<and> \<not> has_pre (tag v)"

definition full :: "version \<Rightarrow> parse_result" where
  "full v =
     parse_result_default
       \<lparr>pr_version := \<lparr>p_major = Some (major v), p_minor = Some (minor v), p_patch = Some (patch v),
                      p_tag = tag v\<rparr>\<rparr>"

lemma empty_pre_slice: "\<not> has_pre t \<Longrightarrow> external_slice (pre t) b = []"
  by (simp add: has_pre_def external_is_empty_def external_slice_def string_empty_slice)

lemma owb_same_pre:
  assumes "has_pre t = has_pre (tag u)" "external_slice (pre t) b = external_slice (pre (tag u)) b"
  shows "order_without_build v (u\<lparr>tag := t\<rparr>) c b = order_without_build v u c b"
  using assms
  by (simp add: order_without_build_def order_without_tag_def tag_order_without_build_def order_pre_eq
      external_order_def string_order_def has_pre_def external_slice_def)

lemma gte_satisfies:
  assumes "same_core u v" "has_pre (tag u) = has_pre (tag v)"
    "external_slice (pre (tag u)) b = external_slice (pre (tag v)) b"
  shows "comparator_satisfies \<lparr>c_op = Gte, c_version = u\<rparr> w b c \<longleftrightarrow> at_least v w b c"
proof -
  have "u = v\<lparr>tag := tag u\<rparr>" using assms(1) by (cases u, cases v) (simp add: same_core_def)
  then have "order_without_build w u c b = order_without_build w v c b"
    using owb_same_pre [of "tag u" v b w c] assms by simp
  then show ?thesis using assms by (auto simp: satisfies_Gte at_least_def is_zero_def same_core_def)
qed

lemma range_two:
  "c_op l \<noteq> Unset \<Longrightarrow> c_op r \<noteq> Unset \<Longrightarrow>
   range_satisfies \<lparr>r_left = l, r_right = r\<rparr> w b c \<longleftrightarrow>
     comparator_satisfies l w b c \<and> comparator_satisfies r w b c"
  by (simp add: range_satisfies_def has_left_def has_right_def)

lemma next_patch_op [simp]: "c_op (lt_next_patch m n p) \<noteq> Unset"
  by (simp add: lt_next_patch_def split: option.split)

lemma caret_range_full:
  "range_satisfies (caret_range (full v) tag_default) w b c \<longleftrightarrow> at_least v w b c \<and> caret_upper v w"
proof -
  let ?t = "if \<not> has_pre (tag v) then (tag v)\<lparr>pre := pre tag_default\<rparr> else tag v"
  let ?u = "v\<lparr>tag := ?t\<rparr>"
  have u0: "version_default\<lparr>major := major v, minor := minor v, patch := patch v, tag := t\<rparr> = v\<lparr>tag := t\<rparr>" for t
    by (cases v) simp
  have same: "same_core (v\<lparr>tag := t\<rparr>) v" for t by (simp add: same_core_def)
  have hp: "has_pre ?t = has_pre (tag v)"
    using tag_default_has_pre(1) by (auto simp: has_pre_def)
  have sl: "external_slice (pre ?t) b = external_slice (pre (tag v)) b"
    using empty_pre_slice [of "tag v" b] empty_pre_slice [of tag_default b] tag_default_has_pre by auto
  have g1: "comparator_satisfies \<lparr>c_op = Gte, c_version = ?u\<rparr> w b c \<longleftrightarrow> at_least v w b c"
    using hp sl by (intro gte_satisfies) (simp_all add: same)
  have g2: "comparator_satisfies \<lparr>c_op = Gte, c_version = v\<rparr> w b c \<longleftrightarrow> at_least v w b c"
    by (intro gte_satisfies) (simp_all add: same_core_def)
  show ?thesis
  proof (cases "major v = 0")
    case True
    have v0: "major v = 0 \<Longrightarrow> version_default\<lparr>major := 0, minor := minor v, patch := patch v, tag := t\<rparr> = v\<lparr>tag := t\<rparr>" for t
      by (cases v) simp
    have "caret_range (full v) tag_default =
      \<lparr>r_left = \<lparr>c_op = Gte, c_version = ?u\<rparr>,
       r_right = (if minor v = 0 then lt_next_patch 0 0 (patch v) else lt_next_minor 0 (minor v))\<rparr>"
      using True u0 [of ?t] v0 [of "tag v"] by (cases v) (simp add: caret_range_def full_def Let_def)
    then show ?thesis
      using True g1 by (auto simp: range_two lt_next_patch_iff lt_next_minor_iff caret_upper_def)
  next
    case False
    have "caret_range (full v) tag_default =
      \<lparr>r_left = \<lparr>c_op = Gte, c_version = v\<rparr>, r_right = lt_next_major (major v)\<rparr>"
      using False by (cases v) (simp add: caret_range_def full_def version_default_def Let_def)
    then show ?thesis using False g2 by (simp add: range_two lt_next_major_iff caret_upper_def)
  qed
qed

lemma tilde_range_full:
  "range_satisfies (tilde_range (full v) floor) w b c \<longleftrightarrow>
     at_least v w b c \<and> (major w < major v \<or> major w = major v \<and> minor w \<le> minor v)"
proof -
  have "tilde_range (full v) floor =
      \<lparr>r_left = \<lparr>c_op = Gte, c_version = v\<rparr>, r_right = lt_next_minor (major v) (minor v)\<rparr>"
    by (cases v) (simp add: tilde_range_def full_def version_default_def Let_def)
  moreover have "comparator_satisfies \<lparr>c_op = Gte, c_version = v\<rparr> w b c \<longleftrightarrow> at_least v w b c"
    by (intro gte_satisfies) (simp_all add: same_core_def)
  ultimately show ?thesis by (simp add: range_two lt_next_minor_iff)
qed

section \<open>One operator and one version\<close>

definition OPERATORS :: "(bytes \<times> token_tag) list" where
  "OPERATORS =
     [([], TkVersion), (''='', TkVersion), (''^'', TkCaret), (''~'', TkTilda), (''>'', TkGt),
      (''>='', TkGte), (''<'', TkLt), (''<='', TkLte)]"

lemma scan_op_operator:
  assumes "(opr, tk) \<in> set OPERATORS" "is_ascii_digit d"
  shows "scan_op (opr @ d # rest) 0 s = (length opr, set_tag tk s, False, tk = TkVersion)"
proof -
  have d: "d \<noteq> CHR '' ''" "d \<noteq> CHR ''=''" "d \<noteq> CHR ''>''" "d \<noteq> CHR ''<''" "d \<noteq> CHR ''v''" "d \<noteq> CHR ''~''"
    "d \<noteq> CHR ''^''"
    using assms(2) by (auto simp: is_ascii_digit_def less_eq_char_def)
  have sp: "skip_while is_space xs k = k" if "k < length xs" "xs ! k \<noteq> CHR '' ''" for xs k
    using that by (simp add: skip_while.simps [of is_space xs k] is_space_def)
  have "opr = [] \<and> tk = TkVersion \<or> opr = ''='' \<and> tk = TkVersion \<or> opr = ''^'' \<and> tk = TkCaret
      \<or> opr = ''~'' \<and> tk = TkTilda \<or> opr = ''>'' \<and> tk = TkGt \<or> opr = ''>='' \<and> tk = TkGte
      \<or> opr = ''<'' \<and> tk = TkLt \<or> opr = ''<='' \<and> tk = TkLte"
    using assms(1) by (auto simp: OPERATORS_def)
  then show ?thesis
    by (elim disjE conjE) (simp_all add: scan_op_def Let_def sp d assms(2))
qed

lemma to_range_len: "to_range t (p\<lparr>pr_len := n\<rparr>) floor = to_range t p floor"
  by (cases "tk_tag t")
    (simp_all add: to_range_def caret_range_def tilde_range_def operator_range_def
      cong: option.case_cong wildcard.case_cong)

lemma emit_first:
  assumes "dnf (sc_list s) = [[range_default]]" "group_ok (sc_list s)"
  shows "dnf (sc_list (emit input k valid r s)) = [[r]]"
  using group_and_range_ok [OF assms(2), of r] or_range_ok [OF assms(2), of r] assms(1)
  by (simp add: emit_def Let_def and_alt_def or_alt_def add_range_def has_left_def has_right_def
      range_default_def comparator_default_def)

lemma dnf_setters [simp]:
  "dnf (sc_list (set_flag f s)) = dnf (sc_list s)" "group_ok (sc_list (set_flag f s)) = group_ok (sc_list s)"
  "dnf (sc_list (version_flags p s)) = dnf (sc_list s)"
  "group_ok (sc_list (version_flags p s)) = group_ok (sc_list s)"
  by (auto simp: set_flag_def version_flags_def dnf_def group_ok_def Let_def)

definition text_version :: "nat \<Rightarrow> u64 \<Rightarrow> u64 \<Rightarrow> u64 \<Rightarrow> bytes option \<Rightarrow> bytes option \<Rightarrow> version" where
  "text_version n a b c p bd =
     \<lparr>major = a, minor = b, patch = c, tag = tag_at (n + length (core_text a b c)) p bd\<rparr>"

lemma sub_from_parse:
  assumes "drop i input = core_text a b c @ tag_text p bd" "tag_chars p" "tag_chars bd"
  shows "version_parse (sub_from sliced input i) =
    (full (text_version (sl_off sliced + i) a b c p bd))\<lparr>pr_len := length (drop i input)\<rparr>"
  using version_parse_text [of "sub_from sliced input i" a b c p bd] assms
  by (simp add: sub_from_def sliced_sub_def full_def text_version_def parse_result_default_def)

lemma parse_operator_version:
  assumes opr: "(opr, tk) \<in> set OPERATORS" and ok: "tag_chars p" "tag_chars bd"
    and input: "input = opr @ core_text a b c @ tag_text p bd"
    and r: "to_range \<lparr>tk_tag = tk, tk_wildcard = WNone\<rparr>
        (full (text_version (sl_off sliced + length opr) a b c p bd)) floor = Some r"
  shows "dnf (parse_with input sliced floor) = [[r]]"
proof -
  let ?g = "\<lparr>g_head = list_default, g_tail = None, g_input = input, g_flags = {}\<rparr>"
  let ?s = "\<lparr>sc_list = ?g, sc_token = token_default, sc_is_or = False, sc_after = False\<rparr>"
  let ?p = "(full (text_version (sl_off sliced + length opr) a b c p bd))
      \<lparr>pr_len := length (core_text a b c @ tag_text p bd)\<rparr>"
  obtain d rest where d: "core_text a b c = d # rest" "is_ascii_digit d"
    using core_text_hd [of a b c] by (cases "core_text a b c") auto
  define no_op where "no_op = (tk = TkVersion)"
  have op: "scan_op input 0 ?s = (length opr, set_tag tk ?s, False, no_op)"
    using scan_op_operator [OF opr d(2), of "rest @ tag_text p bd" ?s] input d by (simp add: no_op_def)
  define q where "q = ?p"
  have parsed: "version_parse (sub_from sliced input (length opr)) = q"
    using sub_from_parse [of "length opr" input a b c p bd sliced] ok input by (simp add: q_def)
  have hyph: "hyphen input (length input) = None" by (simp add: hyphen_def)
  have len: "length opr + pr_len q = length input" using input by (simp add: q_def)
  have flags: "\<not> pr_overflow q" "pr_wildcard q = WNone"
    by (simp_all add: q_def full_def parse_result_default_def)
  have rng: "to_range \<lparr>tk_tag = tk, tk_wildcard = WNone\<rparr> q floor = Some r"
    using r by (simp only: q_def to_range_len)
  define s1 where "s1 = set_wildcard WNone (version_flags q (set_tag tk ?s))"
  define s2 where "s2 = (if no_op \<and> \<not> (sc_after s1 \<and> pr_valid q) then s1\<lparr>sc_is_or := True\<rparr> else s1)"
  have tok: "sc_token s2 = \<lparr>tk_tag = tk, tk_wildcard = WNone\<rparr>"
    by (simp add: s2_def s1_def set_wildcard_def version_flags_def set_flag_def set_tag_def
        token_default_def Let_def)
  have "round input sliced floor 0 ?s = Inr (length input + 1, emit input (length input) (pr_valid q) r s2)"
    unfolding round_def op Let_def case_prod_conv parsed len flags(2) s1_def [symmetric] s2_def [symmetric]
      hyph tok
    by (simp add: flags(1) rng)
  moreover have "input \<noteq> []" using input d by simp
  ultimately have "parse_with input sliced floor = sc_list (emit input (length input) (pr_valid q) r s2)"
    unfolding parse_with_def
    by (simp add: parse_rounds.simps [of _ _ _ 0] parse_rounds.simps [of _ _ _ "Suc (length input)"])
  moreover have "dnf (sc_list s2) = [[range_default]]" "group_ok (sc_list s2)"
    by (simp_all add: s2_def s1_def)
      (simp_all add: dnf_def group_ok_def list_default_def query_default_def)
  ultimately show ?thesis using emit_first by simp
qed

section \<open>The meaning of an operator\<close>

text \<open>Whether \<open>w\<close> (tags in \<open>c\<close>) is in the set that an operator and a version \<open>v\<close> (tags in \<open>b\<close>) describe.\<close>

definition op_admits :: "token_tag \<Rightarrow> version \<Rightarrow> bytes \<Rightarrow> version \<Rightarrow> bytes \<Rightarrow> bool" where
  "op_admits tk v b w c =
     (case tk of
        TkNone \<Rightarrow> False
      | TkVersion \<Rightarrow> order_without_build w v c b = Equal
      | TkGt \<Rightarrow> order_without_build w v c b = Greater
      | TkGte \<Rightarrow> at_least v w b c
      | TkLt \<Rightarrow> order_without_build w v c b = Less
      | TkLte \<Rightarrow> order_without_build w v c b \<noteq> Greater
      | TkTilda \<Rightarrow> at_least v w b c \<and> (major w < major v \<or> major w = major v \<and> minor w \<le> minor v)
      | TkCaret \<Rightarrow> at_least v w b c \<and> caret_upper v w)"

lemma range_one:
  "c_op x \<noteq> Unset \<Longrightarrow>
   range_satisfies (range_default\<lparr>r_left := x\<rparr>) w b c \<longleftrightarrow> comparator_satisfies x w b c"
  by (simp add: range_satisfies_def has_left_def has_right_def range_default_def comparator_default_def)

lemma partial_min_full [simp]: "partial_min (pr_version (full v)) = v"
  by (simp add: partial_min_def full_def)

lemma to_range_admits:
  assumes "tk \<noteq> TkNone"
  shows "\<exists>r. to_range \<lparr>tk_tag = tk, tk_wildcard = WNone\<rparr> (full v) tag_default = Some r
    \<and> (\<forall>w c. range_satisfies r w b c \<longleftrightarrow> op_admits tk v b w c)"
  using assms
  by (cases tk)
    (auto simp: to_range_def op_admits_def operator_range_def Let_def range_one satisfies_op at_least_def
      caret_range_full tilde_range_full)

lemma owb_text:
  assumes "same_core u v" "pre_text u b1 = pre_text v b2"
  shows "order_without_build w u c b1 = order_without_build w v c b2"
proof -
  have hp: "has_pre (tag u) = has_pre (tag v)" using assms(2) by (auto simp: pre_text_def split: if_splits)
  then have sl: "external_slice (pre (tag u)) b1 = external_slice (pre (tag v)) b2"
    using assms(2) empty_pre_slice [of "tag u" b1] empty_pre_slice [of "tag v" b2]
    by (auto simp: pre_text_def split: if_splits)
  show ?thesis
    using assms(1) hp sl
    by (simp add: order_without_build_def order_without_tag_def tag_order_without_build_def order_pre_eq
        external_order_def string_order_def has_pre_def external_slice_def same_core_def)
qed

lemma op_admits_text:
  assumes "same_core u v" "pre_text u b1 = pre_text v b2"
  shows "op_admits tk u b1 w c = op_admits tk v b2 w c"
proof -
  have "has_pre (tag u) = has_pre (tag v)" using assms(2) by (auto simp: pre_text_def split: if_splits)
  then have al: "at_least u w b1 c = at_least v w b2 c"
    using assms(1) owb_text [OF assms, of w c] by (simp add: at_least_def is_zero_def same_core_def)
  show ?thesis
    using assms(1) al owb_text [OF assms, of w c]
    by (simp add: op_admits_def caret_upper_def same_core_def cong: token_tag.case_cong)
qed

section \<open>Properties\<close>

lemma parse_operator_admits:
  assumes "(opr, tk) \<in> set OPERATORS"
    and "tag_chars (pre_text v b)" "tag_chars (build_text v b)"
    and "input = opr @ version_fmt v b" "length input < 2 ^ 31"
  shows "satisfies_including_prerelease (query_parse input (sliced_init input 0 input)) w input c
      = op_admits tk v b w c
    \<and> (if has_pre (tag w) then True
       else group_satisfies (query_parse input (sliced_init input 0 input)) w input c
         = op_admits tk v b w c)"
proof -
  let ?core = "core_text (major v) (minor v) (patch v)"
  let ?u = "text_version (length opr) (major v) (minor v) (patch v) (pre_text v b) (build_text v b)"
  let ?g = "query_parse input (sliced_init input 0 input)"
  have tk: "tk \<noteq> TkNone" using assms(1) by (auto simp: OPERATORS_def)
  obtain r where r: "to_range \<lparr>tk_tag = tk, tk_wildcard = WNone\<rparr> (full ?u) tag_default = Some r"
    "\<And>w c. range_satisfies r w input c \<longleftrightarrow> op_admits tk ?u input w c"
    using to_range_admits [OF tk, of ?u input] by blast
  have inp: "input = opr @ ?core @ tag_text (pre_text v b) (build_text v b)"
    using assms(4) by (simp add: version_fmt_text)
  have d: "dnf ?g = [[r]]"
    unfolding query_parse_def
    by (rule parse_operator_version [OF assms(1-3) inp]) (simp add: sliced_init_def r(1))
  have "?u = v\<lparr>tag := tag_at (length (opr @ ?core)) (pre_text v b) (build_text v b)\<rparr>"
    by (simp add: text_version_def)
  moreover have "pre_text (v\<lparr>tag := tag_at (length (opr @ ?core)) (pre_text v b) (build_text v b)\<rparr>) input = pre_text v b"
    using inp assms(5) by (intro tag_at_text(1) [OF _ _ assms(2,3)]) simp_all
  ultimately have "pre_text ?u input = pre_text v b" by (simp only:)
  then have "op_admits tk ?u input w c = op_admits tk v b w c"
    by (intro op_admits_text) (simp_all add: text_version_def same_core_def)
  then show ?thesis
    using d r(2) by (simp add: satisfies_including_prerelease_def list_satisfies_iff group_satisfies_dnf dnf_def)
qed

text \<open>The range \<^verbatim>\<open>^1.2.3\<close>, for the witnesses.\<close>

abbreviation caret_123 :: group where
  "caret_123 \<equiv> query_parse ''^1.2.3'' (sliced_init ''^1.2.3'' 0 ''^1.2.3'')"

abbreviation v123 :: version where
  "v123 \<equiv> version_default\<lparr>major := 1, minor := 2, patch := 3\<rparr>"

lemma v123_text:
  "pre_text v123 [] = None" "build_text v123 [] = None" "version_fmt v123 [] = ''1.2.3''"
proof -
  show t: "pre_text v123 [] = None" "build_text v123 [] = None"
    by (simp_all add: pre_text_def build_text_def)
  show "version_fmt v123 [] = ''1.2.3''"
    unfolding version_fmt_text t
    by (simp add: core_text_def tag_text_def decimal.simps char_of_def bit_Suc_0_iff)
qed

lemma caret_123_admits:
  "\<not> has_pre (tag w) \<Longrightarrow> group_satisfies caret_123 w ''^1.2.3'' c = op_admits TkCaret v123 [] w c"
  using parse_operator_admits [of "''^''" TkCaret v123 "[]" "''^1.2.3''" w c]
  by (simp add: v123_text tag_chars_def OPERATORS_def)

text \<open>
  C26. Whatever bytes it is given, the range parser ends (it is a total function, its cursor advances
  in every round) and builds a group whose back references are all exact and none of whose ranges
  has a right comparator without a left one, so that satisfaction reads every comparator.
\<close>

theorem parse_with_invariant:
  "group_ok (parse_with input sliced floor)
   \<and> list_all (list_all range_ok) (dnf (parse_with input sliced floor))"
  using parse_with_built [of input sliced floor] by (simp add: built_def)

text \<open>
  \<^verbatim>\<open>Range::caret(v)\<close> admits exactly the versions from \<open>v\<close> on that agree with it up to its left-most
  non-zero number, whatever the numbers, \<^verbatim>\<open>u64::MAX\<close> included.
\<close>

theorem caret_exact:
  "\<exists>r. caret v = Some r
     \<and> range_satisfies r w b c = (at_least v w b c \<and> caret_upper v w)"
  using caret_range_full [of v w b c] by (simp add: caret_def to_range_def full_def)

text \<open>
  C1. End to end: an operator (none, \<^verbatim>\<open>=\<close>, \<^verbatim>\<open>^\<close>, \<^verbatim>\<open>~\<close>, \<^verbatim>\<open>>\<close>, \<^verbatim>\<open>>=\<close>, \<^verbatim>\<open><\<close> or \<^verbatim>\<open><=\<close>) followed by a formatted version
  parses to a group that admits exactly the versions the operator describes, with the comparators
  as the only condition; a release satisfies the group under the same condition.
\<close>

theorem parse_operator_exact:
  assumes "(opr, tk) \<in> set OPERATORS"
    and "tag_chars (pre_text v b)" "tag_chars (build_text v b)"
    and "input = opr @ version_fmt v b" "length input < 2 ^ 31"
  shows "satisfies_including_prerelease (query_parse input (sliced_init input 0 input)) w input c
      = op_admits tk v b w c
    \<and> (if has_pre (tag w) then True
       else group_satisfies (query_parse input (sliced_init input 0 input)) w input c
         = op_admits tk v b w c)"
  by (rule parse_operator_admits [OF assms])

theorem parse_operator_exact_witness:
  "\<not> group_satisfies caret_123 (version_default\<lparr>major := 2\<rparr>) ''^1.2.3'' []"
proof -
  have "group_satisfies caret_123 (version_default\<lparr>major := 2\<rparr>) ''^1.2.3'' []
      = op_admits TkCaret v123 [] (version_default\<lparr>major := 2\<rparr>) []"
    using parse_operator_exact [of "''^''" TkCaret v123 "[]" "''^1.2.3''" "version_default\<lparr>major := 2\<rparr>" "[]"]
    by (simp add: v123_text tag_chars_def OPERATORS_def)
  moreover have "\<not> (2::u64) \<le> 1" by (simp add: word_le_nat_alt)
  ultimately show ?thesis by (simp add: op_admits_def caret_upper_def)
qed

end
