(* ===== verification/SemverIntersects.thy ===== *)
theory SemverIntersects
  imports SemverParse
begin

text \<open>
  \<^verbatim>\<open>src/semver/intersects.rs\<close>: the interval of versions between the bounds of an AND chain, and the
  questions asked of two groups with it: do they intersect, is one a subset of the other.
\<close>

section \<open>Intervals\<close>

record bound =
  bd_version :: version
  bd_buf :: bytes
  bd_inclusive :: bool

record interval =
  lower :: "bound option"
  upper :: "bound option"

definition interval_default :: interval where
  "interval_default = \<lparr>lower = None, upper = None\<rparr>"

definition bound_order :: "bound \<Rightarrow> bound \<Rightarrow> ordering" where
  "bound_order a b = order_without_build (bd_version a) (bd_version b) (bd_buf a) (bd_buf b)"

definition raise :: "interval \<Rightarrow> bound \<Rightarrow> interval" where
  "raise it b =
     (let replace =
            (case lower it of
               None \<Rightarrow> True
             | Some cur \<Rightarrow>
                 (case bound_order b cur of
                    Greater \<Rightarrow> True | Equal \<Rightarrow> \<not> bd_inclusive b | Less \<Rightarrow> False))
      in if replace then it\<lparr>lower := Some b\<rparr> else it)"

definition cap :: "interval \<Rightarrow> bound \<Rightarrow> interval" where
  "cap it b =
     (let replace =
            (case upper it of
               None \<Rightarrow> True
             | Some cur \<Rightarrow>
                 (case bound_order b cur of
                    Less \<Rightarrow> True | Equal \<Rightarrow> \<not> bd_inclusive b | Greater \<Rightarrow> False))
      in if replace then it\<lparr>upper := Some b\<rparr> else it)"

definition narrow :: "interval \<Rightarrow> comparator \<Rightarrow> bytes \<Rightarrow> interval" where
  "narrow it c b =
     (let bnd = (\<lambda>incl. \<lparr>bd_version = c_version c, bd_buf = b, bd_inclusive = incl\<rparr>)
      in case c_op c of
           Unset \<Rightarrow> it
         | Eql \<Rightarrow> cap (raise it (bnd True)) (bnd True)
         | Gt \<Rightarrow> raise it (bnd False)
         | Gte \<Rightarrow> raise it (bnd True)
         | Lt \<Rightarrow> cap it (bnd False)
         | Lte \<Rightarrow> cap it (bnd True))"

fun and_query :: "interval \<Rightarrow> query \<Rightarrow> bytes \<Rightarrow> interval" where
  "and_query it (Query r None) b = narrow (narrow it (r_left r) b) (r_right r) b"
| "and_query it (Query r (Some n)) b = and_query (narrow (narrow it (r_left r) b) (r_right r) b) n b"

definition is_non_empty :: "interval \<Rightarrow> bool" where
  "is_non_empty it =
     (case upper it of
        None \<Rightarrow> True
      | Some u \<Rightarrow>
          let l = (case lower it of
                     Some l \<Rightarrow> l
                   | None \<Rightarrow> \<lparr>bd_version = c_version null_set, bd_buf = [], bd_inclusive = True\<rparr>)
          in case bound_order l u of
               Less \<Rightarrow> True
             | Equal \<Rightarrow> bd_inclusive l \<and> bd_inclusive u
             | Greater \<Rightarrow> False)"

definition is_last_patch :: "version \<Rightarrow> bool" where
  "is_last_patch v \<longleftrightarrow> patch v = U64_MAX \<and> \<not> has_pre (tag v)"

definition after_last_patch :: "version \<Rightarrow> version option" where
  "after_last_patch v =
     (case checked_succ (minor v) of
        Some m \<Rightarrow> Some (version_default\<lparr>major := major v, minor := m\<rparr>)
      | None \<Rightarrow>
          (case checked_succ (major v) of
             None \<Rightarrow> None
           | Some m \<Rightarrow> Some (version_default\<lparr>major := m\<rparr>)))"

text \<open>The four rewritings of \<^verbatim>\<open>canonical\<close>, in order.\<close>

definition canonical_lower :: "bound \<Rightarrow> bound" where
  "canonical_lower l =
     (if \<not> bd_inclusive l \<and> is_last_patch (bd_version l) then
        case after_last_patch (bd_version l) of
          Some next \<Rightarrow> l\<lparr>bd_version := next, bd_inclusive := True\<rparr>
        | None \<Rightarrow> l
      else l)"

definition canonical_upper :: "bound \<Rightarrow> bound option" where
  "canonical_upper u =
     (if bd_inclusive u \<and> is_last_patch (bd_version u) then
        case after_last_patch (bd_version u) of
          Some v \<Rightarrow> Some (u\<lparr>bd_version := v, bd_inclusive := False\<rparr>)
        | None \<Rightarrow> None
      else Some u)"

definition canonical :: "interval \<Rightarrow> interval" where
  "canonical it =
     (let lo = (case lower it of None \<Rightarrow> None | Some l \<Rightarrow> Some (canonical_lower l));
          lo = (case lo of
                  Some l \<Rightarrow>
                    if bd_inclusive l \<and> is_zero (bd_version l) \<and> \<not> has_pre (tag (bd_version l))
                    then None else Some l
                | None \<Rightarrow> None);
          up = (case upper it of None \<Rightarrow> None | Some u \<Rightarrow> canonical_upper u);
          up = (case up of
                  None \<Rightarrow> None
                | Some u \<Rightarrow>
                    if \<not> bd_inclusive u \<and> \<not> has_pre (tag (bd_version u))
                       \<and> \<not> (case lo of
                              None \<Rightarrow> False
                            | Some l \<Rightarrow> has_pre (tag (bd_version l)) \<and> same_core (bd_version l) (bd_version u))
                    then Some (u\<lparr>bd_version := (bd_version u)\<lparr>tag := ZERO_PRE\<rparr>\<rparr>) else Some u)
      in \<lparr>lower = lo, upper = up\<rparr>)"

definition is_within_interval :: "interval \<Rightarrow> interval \<Rightarrow> bool" where
  "is_within_interval it other =
     (let lo = (case (lower it, lower other) of
                  (_, None) \<Rightarrow> True
                | (None, Some _) \<Rightarrow> False
                | (Some a, Some b) \<Rightarrow>
                    (case bound_order a b of
                       Greater \<Rightarrow> True
                     | Equal \<Rightarrow> bd_inclusive b \<or> \<not> bd_inclusive a
                     | Less \<Rightarrow> False));
          up = (case (upper it, upper other) of
                  (_, None) \<Rightarrow> True
                | (None, Some _) \<Rightarrow> False
                | (Some a, Some b) \<Rightarrow>
                    (case bound_order a b of
                       Less \<Rightarrow> True
                     | Equal \<Rightarrow> bd_inclusive b \<or> \<not> bd_inclusive a
                     | Greater \<Rightarrow> False))
      in lo \<and> up)"

definition is_prerelease_of :: "bound \<Rightarrow> comparator \<Rightarrow> bool" where
  "is_prerelease_of bnd c \<longleftrightarrow>
     c_op c \<noteq> Unset \<and> has_pre (tag (c_version c)) \<and> same_core (c_version c) (bd_version bnd)"

fun has_prerelease_of :: "bound \<Rightarrow> query \<Rightarrow> bool" where
  "has_prerelease_of bnd (Query r None) =
     (is_prerelease_of bnd (r_left r) \<or> is_prerelease_of bnd (r_right r))"
| "has_prerelease_of bnd (Query r (Some n)) =
     (if is_prerelease_of bnd (r_left r) \<or> is_prerelease_of bnd (r_right r) then True
      else has_prerelease_of bnd n)"

definition prereleases_can_satisfy :: "interval \<Rightarrow> query \<Rightarrow> bool" where
  "prereleases_can_satisfy it q =
     (let lo = (case lower it of
                  Some l \<Rightarrow> if has_pre (tag (bd_version l)) then [l] else []
                | None \<Rightarrow> []);
          up = (case upper it of
                  Some u \<Rightarrow>
                    if has_pre (tag (bd_version u))
                       \<and> (bd_inclusive u \<or> external_slice (pre (tag (bd_version u))) (bd_buf u) \<noteq> ''0'')
                    then [u] else []
                | None \<Rightarrow> [])
      in list_all (\<lambda>bnd. has_prerelease_of bnd q) (lo @ up))"

section \<open>Groups\<close>

definition query_is_star :: "query \<Rightarrow> bool" where
  "query_is_star q \<longleftrightarrow>
     q_next q = None \<and> c_op (r_left (q_range q)) = Gte \<and> is_zero (c_version (r_left (q_range q)))
     \<and> \<not> has_pre (tag (c_version (r_left (q_range q)))) \<and> \<not> has_right (q_range q)"

fun alternatives_of :: "qlist \<Rightarrow> query list" where
  "alternatives_of (QList h t None) = [h]"
| "alternatives_of (QList h t (Some n)) = h # alternatives_of n"

definition alternatives :: "group \<Rightarrow> query list" where
  "alternatives g = alternatives_of (g_head g)"

definition admits :: "group \<Rightarrow> bytes \<Rightarrow> version \<Rightarrow> bytes \<Rightarrow> bool" where
  "admits g self_buf v version_buf \<longleftrightarrow>
     group_satisfies g v self_buf version_buf
     \<or> has_pre (tag v) \<and> list_ex query_is_star (alternatives g)"

definition admits_an_exact_version_of :: "group \<Rightarrow> bytes \<Rightarrow> group \<Rightarrow> bytes \<Rightarrow> bool" where
  "admits_an_exact_version_of g self_buf other other_buf =
     list_ex (\<lambda>v. admits g self_buf v other_buf) (List.map_filter exact_version (alternatives other))"

definition intersects :: "group \<Rightarrow> bytes \<Rightarrow> group \<Rightarrow> bytes \<Rightarrow> bool" where
  "intersects g self_buf other other_buf =
     (if admits_an_exact_version_of g self_buf other other_buf
         \<or> admits_an_exact_version_of other other_buf g self_buf
      then True
      else
        list_ex
          (\<lambda>a. let base = and_query interval_default a self_buf
               in is_non_empty base
                  \<and> list_ex (\<lambda>b. is_non_empty (and_query base b other_buf))
                      (filter (\<lambda>q. exact_version q = None) (alternatives other)))
          (filter (\<lambda>q. exact_version q = None) (alternatives g)))"

fun query_comparators :: "query \<Rightarrow> comparator list" where
  "query_comparators (Query r None) = [r_left r, r_right r]"
| "query_comparators (Query r (Some n)) = r_left r # r_right r # query_comparators n"

definition is_satisfied_by_a_bound_of :: "group \<Rightarrow> bytes \<Rightarrow> group \<Rightarrow> bytes \<Rightarrow> bool" where
  "is_satisfied_by_a_bound_of g self_buf other other_buf =
     list_ex
       (\<lambda>c. let v = c_version c;
                v = (if c_op c = Lt \<and> tag_eql (tag v) ZERO_PRE then v\<lparr>tag := tag_default\<rparr> else v)
            in group_satisfies g v self_buf other_buf)
       (concat (map query_comparators (alternatives other)))"

definition subset_in_alternative :: "interval \<Rightarrow> query \<Rightarrow> bytes \<Rightarrow> bool" where
  "subset_in_alternative sub b other_buf =
     (is_within_interval sub (canonical (and_query interval_default b other_buf))
      \<and> prereleases_can_satisfy sub b)"

definition is_subset_of :: "group \<Rightarrow> bytes \<Rightarrow> group \<Rightarrow> bytes \<Rightarrow> bool" where
  "is_subset_of g self_buf other other_buf =
     list_all
       (\<lambda>a. let sub = canonical (and_query interval_default a self_buf)
            in is_non_empty sub
               \<longrightarrow> list_ex (\<lambda>b. subset_in_alternative sub b other_buf) (alternatives other))
       (alternatives g)"

section \<open>Membership\<close>

abbreviation prec :: "version \<times> bytes \<Rightarrow> version \<times> bytes \<Rightarrow> ordering" where
  "prec x y \<equiv> order_without_build (fst x) (fst y) (snd x) (snd y)"

definition at :: "bound \<Rightarrow> version \<times> bytes" where
  "at b = (bd_version b, bd_buf b)"

lemma bound_order_prec: "bound_order a b = prec (at a) (at b)"
  by (simp add: bound_order_def at_def)

definition above :: "bound \<Rightarrow> version \<times> bytes \<Rightarrow> bool" where
  "above b w \<longleftrightarrow> prec w (at b) = Greater \<or> prec w (at b) = Equal \<and> bd_inclusive b"

definition below :: "bound \<Rightarrow> version \<times> bytes \<Rightarrow> bool" where
  "below b w \<longleftrightarrow> prec w (at b) = Less \<or> prec w (at b) = Equal \<and> bd_inclusive b"

definition between :: "interval \<Rightarrow> version \<times> bytes \<Rightarrow> bool" where
  "between it w \<longleftrightarrow>
     (case lower it of None \<Rightarrow> True | Some l \<Rightarrow> above l w)
     \<and> (case upper it of None \<Rightarrow> True | Some u \<Rightarrow> below u w)"

lemma above_trans: "prec (at b) (at c) = Greater \<Longrightarrow> above b w \<Longrightarrow> above c w"
  using precedence.less_le_trans [of "at c" "at b" w] precedence.greater_iff [of "at b" "at c"]
    precedence.greater_iff [of w "at c"] precedence.ord_swap [of "at b" w]
  by (auto simp: above_def)

lemma below_trans: "prec (at b) (at c) = Less \<Longrightarrow> below b w \<Longrightarrow> below c w"
  using precedence.le_less_trans [of w "at b" "at c"] by (auto simp: below_def)

lemma above_equal: "prec (at b) (at c) = Equal \<Longrightarrow> prec w (at b) = prec w (at c)"
  by (rule precedence.equal_congr)

lemma raise_between: "between (raise it b) w \<longleftrightarrow> between it w \<and> above b w"
proof (cases "lower it")
  case None
  then show ?thesis by (auto simp: raise_def between_def)
next
  case (Some cur)
  have swap: "prec (at b) (at cur) = Less \<Longrightarrow> prec (at cur) (at b) = Greater"
    using precedence.greater_iff [of "at cur" "at b"] by simp
  show ?thesis
    using Some above_trans [of b cur w] above_trans [of cur b w] above_equal [of b cur w] swap
    by (cases "prec (at b) (at cur)") (auto simp: raise_def between_def bound_order_prec above_def)
qed

lemma cap_between: "between (cap it b) w \<longleftrightarrow> between it w \<and> below b w"
proof (cases "upper it")
  case None
  then show ?thesis by (auto simp: cap_def between_def)
next
  case (Some cur)
  have swap: "prec (at b) (at cur) = Greater \<Longrightarrow> prec (at cur) (at b) = Less"
    using precedence.greater_iff [of "at b" "at cur"] by simp
  show ?thesis
    using Some below_trans [of b cur w] below_trans [of cur b w] above_equal [of b cur w] swap
    by (cases "prec (at b) (at cur)") (auto simp: cap_def between_def bound_order_prec below_def)
qed

text \<open>A comparator without the exception for \<^verbatim>\<open>>=0.0.0\<close>; an unset one holds.\<close>

definition plain :: "comparator \<Rightarrow> bytes \<Rightarrow> version \<times> bytes \<Rightarrow> bool" where
  "plain x b w =
     (let o' = prec w (c_version x, b)
      in case c_op x of
           Unset \<Rightarrow> True
         | Eql \<Rightarrow> o' = Equal
         | Gt \<Rightarrow> o' = Greater
         | Gte \<Rightarrow> o' \<noteq> Less
         | Lt \<Rightarrow> o' = Less
         | Lte \<Rightarrow> o' \<noteq> Greater)"

lemma narrow_between: "between (narrow it x b) w \<longleftrightarrow> between it w \<and> plain x b w"
  by (cases "c_op x"; cases "prec w (c_version x, b)")
    (simp_all add: narrow_def raise_between cap_between plain_def above_def below_def at_def Let_def)

lemma and_query_between:
  "between (and_query it q b) w \<longleftrightarrow> between it w \<and> (\<forall>x \<in> set (query_comparators q). plain x b w)"
  by (induction it q b rule: and_query.induct) (auto simp: narrow_between)

lemma between_default [simp]: "between interval_default w"
  by (simp add: between_def interval_default_def)

section \<open>Satisfaction as membership\<close>

text \<open>
  The versions below \<^verbatim>\<open>0.0.0\<close>, the prereleases of it, satisfy \<^verbatim>\<open>>=0.0.0\<close> by exception; no interval
  knows about that.
\<close>

definition below_zero :: "version \<Rightarrow> bool" where
  "below_zero v \<longleftrightarrow> is_zero v \<and> has_pre (tag v)"

lemma gte_zero:
  assumes "is_zero u" "\<not> has_pre (tag u)" "\<not> below_zero v"
  shows "order_without_build v u c b \<noteq> Less"
  using assms by (auto simp: below_zero_def is_zero_def order_without_build_def order_without_tag_def
      tag_order_without_build_def has_pre_def external_order_def string_order_def
      external_is_empty_def string_empty_slice word_coorder.not_eq_extremum Let_def)

lemma comparator_plain:
  assumes "\<not> below_zero v" "c_op x \<noteq> Unset"
  shows "comparator_satisfies x v b c \<longleftrightarrow> plain x b (v, c)"
  using assms gte_zero [of "c_version x" v c b]
  by (cases "c_op x") (auto simp: satisfies_op plain_def Let_def)

lemma range_plain:
  assumes "\<not> below_zero v" "range_ok r"
  shows "range_satisfies r v b c \<longleftrightarrow> plain (r_left r) b (v, c) \<and> plain (r_right r) b (v, c)"
proof -
  have "plain x b (v, c)" if "c_op x = Unset" for x using that by (simp add: plain_def)
  then show ?thesis
    using assms comparator_plain [OF assms(1)]
    by (auto simp: range_satisfies_def range_ok_def has_left_def has_right_def)
qed

lemma query_between:
  assumes "\<not> below_zero v" "list_all range_ok (ranges_of q)"
  shows "query_satisfies q v b c \<longleftrightarrow> between (and_query interval_default q b) (v, c)"
proof -
  have "(\<forall>x \<in> set (query_comparators q). P x) \<longleftrightarrow> (\<forall>r \<in> set (ranges_of q). P (r_left r) \<and> P (r_right r))" for P
    by (induction q rule: ranges_of.induct) auto
  then show ?thesis
    using assms by (simp add: query_satisfies_iff and_query_between range_plain list_all_iff)
qed

text \<open>The exception only adds versions.\<close>

lemma between_satisfies:
  assumes "list_all range_ok (ranges_of q)" "between (and_query interval_default q b) (v, c)"
  shows "query_satisfies q v b c"
proof -
  have "comparator_satisfies x v b c" if "plain x b (v, c)" "c_op x \<noteq> Unset" for x
    using that by (cases "c_op x"; cases "order_without_build v (c_version x) c b") (auto simp: satisfies_op plain_def Let_def)
  moreover have "(\<forall>x \<in> set (query_comparators q). P x) \<longleftrightarrow> (\<forall>r \<in> set (ranges_of q). P (r_left r) \<and> P (r_right r))" for P
    by (induction q rule: ranges_of.induct) auto
  ultimately show ?thesis
    using assms by (auto simp: query_satisfies_iff and_query_between list_all_iff range_satisfies_def has_left_def has_right_def)
qed

lemma between_non_empty: "between it w \<Longrightarrow> is_non_empty it"
proof (cases "upper it")
  case (Some u)
  assume b: "between it w"
  define l where "l = (case lower it of Some l \<Rightarrow> l
    | None \<Rightarrow> \<lparr>bd_version = c_version null_set, bd_buf = [], bd_inclusive = True\<rparr>)"
  have l: "above l w"
  proof (cases "lower it")
    case None
    have "prec w (c_version null_set, []) \<noteq> Less"
      using not_core_less_default [of "fst w"]
      by (simp add: null_set_def owb_zero_pre)
    then show ?thesis
      using None by (cases "prec w (c_version null_set, [])") (auto simp: l_def above_def at_def)
  next
    case (Some k)
    then show ?thesis using b by (simp add: l_def between_def)
  qed
  have u: "below u w" using b Some by (simp add: between_def)
  have lw: "prec (at l) w = Less \<or> prec (at l) w = Equal \<and> bd_inclusive l"
    using l precedence.greater_iff [of w "at l"] precedence.equal_sym [of w "at l"] by (auto simp: above_def)
  have "prec (at l) (at u) = Less \<or> prec (at l) (at u) = Equal \<and> bd_inclusive l \<and> bd_inclusive u"
    using lw u precedence.less_le_trans [of "at l" w "at u"] precedence.le_less_trans [of "at l" w "at u"]
      precedence.equal_congl [of "at l" w "at u"] by (auto simp: below_def)
  then show ?thesis using Some by (auto simp: is_non_empty_def bound_order_prec simp flip: l_def)
qed (simp add: is_non_empty_def)

section \<open>Intersection\<close>

lemma dnf_alternatives: "dnf g = map ranges_of (alternatives g)"
proof -
  have "dnf_of l = map ranges_of (alternatives_of l)" for l
    by (induction l rule: dnf_of.induct) auto
  then show ?thesis by (simp add: dnf_def alternatives_def)
qed

lemma group_satisfies_alternatives:
  "group_satisfies g v b c \<longleftrightarrow>
     (\<exists>q \<in> set (alternatives g). query_satisfies q v b c
        \<and> (has_pre (tag v) \<longrightarrow> (\<exists>r \<in> set (ranges_of q). pre_match r v)))"
  by (auto simp: group_satisfies_dnf dnf_alternatives query_satisfies_iff)

lemma built_alternatives: "built g \<Longrightarrow> q \<in> set (alternatives g) \<Longrightarrow> list_all range_ok (ranges_of q)"
  by (auto simp: built_def dnf_alternatives list_all_iff)

lemma equal_core:
  "order_without_build v w c b = Equal \<Longrightarrow> same_core v w \<and> has_pre (tag v) = has_pre (tag w)"
  by (auto simp: order_without_build_def order_without_tag_def same_core_def Let_def split: if_splits)

text \<open>Satisfaction depends on a version only up to its precedence.\<close>

lemma group_satisfies_equal:
  assumes "order_without_build v w c d = Equal"
  shows "group_satisfies g v b c = group_satisfies g w b d"
proof -
  have cong: "order_without_build v x c b = order_without_build w x d b" for x
    using precedence.equal_congl [of "(v, c)" "(w, d)" "(x, b)"] assms by simp
  have "comparator_satisfies x v b c = comparator_satisfies x w b d" for x
    by (simp add: comparator_satisfies_def cong)
  then have "range_satisfies r v b c = range_satisfies r w b d" for r
    by (simp add: range_satisfies_def)
  moreover have "pre_match r v = pre_match r w" for r
    using equal_core [OF assms] by (simp add: pre_match_def same_core_def)
  ultimately show ?thesis using equal_core [OF assms] by (simp add: group_satisfies_dnf)
qed

lemma exact_version_equal:
  assumes "exact_version q = Some e" "query_satisfies q v b c"
  shows "order_without_build v e c b = Equal"
proof -
  obtain r where q: "q = Query r None" "c_op (r_left r) = Eql" "c_version (r_left r) = e"
    using assms(1) by (cases q rule: ranges_of.cases) (auto simp: exact_version_def split: if_splits)
  then show ?thesis
    using assms(2) by (simp add: range_satisfies_def has_left_def satisfies_Eql split: if_splits)
qed

lemma admits_exact:
  assumes "q \<in> set (alternatives g)" "exact_version q = Some e" "query_satisfies q v b c"
    and "group_satisfies other v b' c"
  shows "admits_an_exact_version_of other b' g b"
proof -
  have "order_without_build v e c b = Equal" by (rule exact_version_equal [OF assms(2,3)])
  then have "group_satisfies other e b' b" using group_satisfies_equal assms(4) by blast
  moreover have "e \<in> set (List.map_filter exact_version (alternatives g))"
    using assms(1,2) by (force simp: List.map_filter_def)
  ultimately show ?thesis by (auto simp: admits_an_exact_version_of_def list_ex_iff admits_def)
qed

lemma intersects_complete:
  assumes "built g" "built other" "\<not> below_zero v"
    and "group_satisfies g v b c" "group_satisfies other v b' c"
  shows "intersects g b other b'"
proof -
  obtain q where q: "q \<in> set (alternatives g)" "query_satisfies q v b c"
    using assms(4) by (auto simp: group_satisfies_alternatives)
  obtain p where p: "p \<in> set (alternatives other)" "query_satisfies p v b' c"
    using assms(5) by (auto simp: group_satisfies_alternatives)
  consider e where "exact_version q = Some e" | e where "exact_version p = Some e"
    | "exact_version q = None" "exact_version p = None" by fastforce
  then show ?thesis
  proof cases
    case 1
    then show ?thesis using admits_exact [OF q(1) _ q(2) assms(5)] by (simp add: intersects_def)
  next
    case 2
    then show ?thesis using admits_exact [OF p(1) _ p(2) assms(4)] by (simp add: intersects_def)
  next
    case 3
    have base: "between (and_query interval_default q b) (v, c)"
      using query_between [OF assms(3) built_alternatives [OF assms(1) q(1)]] q(2) by simp
    have "between (and_query interval_default p b') (v, c)"
      using query_between [OF assms(3) built_alternatives [OF assms(2) p(1)]] p(2) by simp
    then have "between (and_query (and_query interval_default q b) p b') (v, c)"
      using base by (simp add: and_query_between)
    then have "is_non_empty (and_query (and_query interval_default q b) p b')"
      "is_non_empty (and_query interval_default q b)"
      using base between_non_empty by blast+
    then show ?thesis using q(1) p(1) 3 by (auto simp: intersects_def list_ex_iff Let_def)
  qed
qed

section \<open>Subsets\<close>

lemma within_lower:
  assumes "is_within_interval it other" "lower other = Some l'"
  obtains l where "lower it = Some l" "bound_order l l' \<noteq> Less"
    "bound_order l l' = Equal \<longrightarrow> bd_inclusive l' \<or> \<not> bd_inclusive l"
proof (cases "lower it")
  case None
  then show thesis using assms by (simp add: is_within_interval_def Let_def)
next
  case (Some l)
  have "case bound_order l l' of Greater \<Rightarrow> True | Equal \<Rightarrow> bd_inclusive l' \<or> \<not> bd_inclusive l | Less \<Rightarrow> False"
    using assms Some by (simp add: is_within_interval_def Let_def)
  then show thesis by (intro that [OF Some]) (cases "bound_order l l'"; simp)+
qed

lemma within_upper:
  assumes "is_within_interval it other" "upper other = Some u'"
  obtains u where "upper it = Some u" "bound_order u u' \<noteq> Greater"
    "bound_order u u' = Equal \<longrightarrow> bd_inclusive u' \<or> \<not> bd_inclusive u"
proof (cases "upper it")
  case None
  then show thesis using assms by (simp add: is_within_interval_def Let_def)
next
  case (Some u)
  have "case bound_order u u' of Less \<Rightarrow> True | Equal \<Rightarrow> bd_inclusive u' \<or> \<not> bd_inclusive u | Greater \<Rightarrow> False"
    using assms Some by (simp add: is_within_interval_def Let_def)
  then show thesis by (intro that [OF Some]) (cases "bound_order u u'"; simp)+
qed

lemma within_between:
  assumes "is_within_interval it other" "between it w"
  shows "between other w"
proof -
  have lo: "above l' w" if l': "lower other = Some l'" for l'
  proof -
    obtain l where l: "lower it = Some l" "bound_order l l' \<noteq> Less"
      "bound_order l l' = Equal \<longrightarrow> bd_inclusive l' \<or> \<not> bd_inclusive l"
      by (rule within_lower [OF assms(1) l'])
    have "above l w" using assms(2) l(1) by (simp add: between_def)
    then show ?thesis
      using l(2,3) above_trans [of l l' w] above_equal [of l l' w]
      by (cases "bound_order l l'") (auto simp: bound_order_prec above_def)
  qed
  have up: "below u' w" if u': "upper other = Some u'" for u'
  proof -
    obtain u where u: "upper it = Some u" "bound_order u u' \<noteq> Greater"
      "bound_order u u' = Equal \<longrightarrow> bd_inclusive u' \<or> \<not> bd_inclusive u"
      by (rule within_upper [OF assms(1) u'])
    have "below u w" using assms(2) u(1) by (simp add: between_def)
    then show ?thesis
      using u(2,3) below_trans [of u u' w] above_equal [of u u' w]
      by (cases "bound_order u u'") (auto simp: bound_order_prec below_def)
  qed
  show ?thesis using lo up by (simp add: between_def split: option.split)
qed

lemma u64_le_MAX_cases: "x < U64_MAX \<or> x = U64_MAX" for x :: u64
  using le_U64_MAX [of x] by (auto simp: order.strict_iff_order)

lemma after_last_patch_Some:
  assumes "is_last_patch u" "after_last_patch u = Some n"
  shows "core_less w n \<longleftrightarrow> core_less w u \<or> same_core w u" and "\<not> has_pre (tag n)"
proof -
  have p: "patch u = U64_MAX" using assms by (simp add: is_last_patch_def)
  have eq: "core_less w u \<or> same_core w u \<longleftrightarrow>
      major w < major u \<or> major w = major u \<and> minor w \<le> minor u"
    using u64_le_MAX_cases [of "patch w"] p by (auto simp: core_less_def same_core_def order.order_iff_strict)
  show "core_less w n \<longleftrightarrow> core_less w u \<or> same_core w u"
  proof (cases "checked_succ (minor u)")
    case (Some m)
    then have "n = version_default\<lparr>major := major u, minor := m\<rparr>" using assms(2) by (simp add: after_last_patch_def)
    then show ?thesis using eq checked_succ_Some(1) [OF Some, of "minor w"] by (simp add: core_less_def)
  next
    case None
    then obtain k where k: "checked_succ (major u) = Some k" "n = version_default\<lparr>major := k\<rparr>"
      using assms(2) by (auto simp: after_last_patch_def split: option.splits)
    have "minor u = U64_MAX" using None by simp
    then show ?thesis
      using eq k(2) checked_succ_Some(1) [OF k(1), of "major w"] u64_le_MAX_cases [of "minor w"]
      by (auto simp: core_less_def order.order_iff_strict)
  qed
  show "\<not> has_pre (tag n)" using assms(2) by (auto simp: after_last_patch_def split: option.splits)
qed

lemma after_last_patch_None:
  assumes "is_last_patch u" "after_last_patch u = None"
  shows "core_less w u \<or> same_core w u"
proof -
  have "patch u = U64_MAX" "minor u = U64_MAX" "major u = U64_MAX"
    using assms by (auto simp: after_last_patch_def is_last_patch_def split: option.splits)
  then show ?thesis
    using u64_le_MAX_cases [of "patch w"] u64_le_MAX_cases [of "minor w"] u64_le_MAX_cases [of "major w"]
    by (auto simp: core_less_def same_core_def)
qed

text \<open>On releases, \<^verbatim>\<open>canonical\<close> does not change the set of versions between the bounds.\<close>

lemma canonical_lower_above:
  assumes "\<not> has_pre (tag v)"
  shows "above (canonical_lower l) (v, c) \<longleftrightarrow> above l (v, c)"
proof (cases "\<not> bd_inclusive l \<and> is_last_patch (bd_version l)")
  case True
  show ?thesis
  proof (cases "after_last_patch (bd_version l)")
    case (Some n)
    have nl: "\<not> has_pre (tag (bd_version l))" using True by (simp add: is_last_patch_def)
    have "above l (v, c) \<longleftrightarrow> \<not> (core_less v (bd_version l) \<or> same_core v (bd_version l))"
      using True owb_release [OF nl, of v c "bd_buf l"] by (auto simp: above_def at_def)
    moreover have "above (canonical_lower l) (v, c) \<longleftrightarrow> order_without_build v n c (bd_buf l) \<noteq> Less"
      using True Some by (auto simp: canonical_lower_def above_def at_def)
        (metis ordering.exhaust)
    ultimately show ?thesis
      using after_last_patch_Some(1) [OF _ Some, of v] True owb_from_release [OF assms, of n c "bd_buf l"]
      by simp
  next
    case None
    then show ?thesis using True by (simp add: canonical_lower_def)
  qed
next
  case False
  then have "canonical_lower l = l" by (auto simp: canonical_lower_def)
  then show ?thesis by simp
qed

lemma canonical_upper_below:
  assumes "\<not> has_pre (tag v)"
  shows "(case canonical_upper u of None \<Rightarrow> True | Some u' \<Rightarrow> below u' (v, c)) \<longleftrightarrow> below u (v, c)"
proof (cases "bd_inclusive u \<and> is_last_patch (bd_version u)")
  case True
  have nu: "\<not> has_pre (tag (bd_version u))" using True by (simp add: is_last_patch_def)
  have bu: "below u (v, c) \<longleftrightarrow> core_less v (bd_version u) \<or> same_core v (bd_version u)"
  proof -
    have "below u (v, c) \<longleftrightarrow> order_without_build v (bd_version u) c (bd_buf u) \<noteq> Greater"
      using True by (auto simp: below_def at_def) (metis ordering.exhaust)
    then show ?thesis using owb_release [OF nu, of v c "bd_buf u"] by simp
  qed
  show ?thesis
  proof (cases "after_last_patch (bd_version u)")
    case (Some n)
    have "below (u\<lparr>bd_version := n, bd_inclusive := False\<rparr>) (v, c) \<longleftrightarrow> core_less v n"
      using owb_from_release [OF assms, of n c "bd_buf u"] by (auto simp: below_def at_def)
    then show ?thesis
      using True Some bu after_last_patch_Some(1) [OF _ Some, of v] by (simp add: canonical_upper_def)
  next
    case None
    then show ?thesis
      using True bu after_last_patch_None [OF _ None, of v] by (simp add: canonical_upper_def)
  qed
next
  case False
  then have "canonical_upper u = Some u" by (auto simp: canonical_upper_def)
  then show ?thesis by simp
qed

lemma zero_pre_below:
  assumes "\<not> has_pre (tag v)" "\<not> bd_inclusive u"
  shows "below (u\<lparr>bd_version := (bd_version u)\<lparr>tag := ZERO_PRE\<rparr>\<rparr>) (v, c) \<longleftrightarrow> below u (v, c)"
  using owb_zero_pre [of v "bd_version u" c "bd_buf u"] owb_from_release [OF assms(1), of "bd_version u" c "bd_buf u"]
    assms(2) by (auto simp: below_def at_def)

lemma zero_above:
  assumes "\<not> has_pre (tag v)" "bd_inclusive l" "is_zero (bd_version l)" "\<not> has_pre (tag (bd_version l))"
  shows "above l (v, c)"
proof -
  have "order_without_build v (bd_version l) c (bd_buf l) \<noteq> Less"
    using assms by (intro gte_zero) (simp_all add: below_zero_def)
  then show ?thesis
    using assms(2) by (cases "order_without_build v (bd_version l) c (bd_buf l)") (auto simp: above_def at_def)
qed

lemma canonical_between:
  assumes "\<not> has_pre (tag v)"
  shows "between (canonical it) (v, c) \<longleftrightarrow> between it (v, c)"
proof -
  have lo: "(case lower (canonical it) of None \<Rightarrow> True | Some l \<Rightarrow> above l (v, c)) \<longleftrightarrow>
      (case lower it of None \<Rightarrow> True | Some l \<Rightarrow> above l (v, c))"
    using canonical_lower_above [OF assms] zero_above [OF assms]
    by (cases "lower it") (auto simp: canonical_def Let_def)
  have up: "(case upper (canonical it) of None \<Rightarrow> True | Some u \<Rightarrow> below u (v, c)) \<longleftrightarrow>
      (case upper it of None \<Rightarrow> True | Some u \<Rightarrow> below u (v, c))"
  proof (cases "upper it")
    case None
    then show ?thesis by (simp add: canonical_def Let_def)
  next
    case (Some u)
    show ?thesis
    proof (cases "canonical_upper u")
      case None
      then show ?thesis using Some canonical_upper_below [OF assms, of c u] by (simp add: canonical_def Let_def)
    next
      case u': (Some u')
      have "below u' (v, c) \<longleftrightarrow> below u (v, c)" using canonical_upper_below [OF assms, of c u] u' by simp
      moreover have "upper (canonical it) = Some u' \<or>
          \<not> bd_inclusive u' \<and> upper (canonical it) = Some (u'\<lparr>bd_version := (bd_version u')\<lparr>tag := ZERO_PRE\<rparr>\<rparr>)"
        using Some u' by (simp add: canonical_def Let_def)
      ultimately show ?thesis using Some zero_pre_below [OF assms, of u' c] by auto
    qed
  qed
  show ?thesis unfolding between_def lo up ..
qed

lemma is_subset_of_release:
  assumes "built g" "built other" "is_subset_of g b other b'"
    and "\<not> has_pre (tag v)" "group_satisfies g v b c"
  shows "group_satisfies other v b' c"
proof -
  have nz: "\<not> below_zero v" using assms(4) by (simp add: below_zero_def)
  obtain q where q: "q \<in> set (alternatives g)" "query_satisfies q v b c"
    using assms(5) by (auto simp: group_satisfies_alternatives)
  let ?sub = "canonical (and_query interval_default q b)"
  have sub: "between ?sub (v, c)"
    using query_between [OF nz built_alternatives [OF assms(1) q(1)]] q(2) canonical_between [OF assms(4)]
    by simp
  then obtain p where p: "p \<in> set (alternatives other)" "subset_in_alternative ?sub p b'"
    using assms(3) q(1) between_non_empty by (auto simp: is_subset_of_def list_all_iff list_ex_iff Let_def)
  have "between (canonical (and_query interval_default p b')) (v, c)"
    using p(2) sub within_between by (auto simp: subset_in_alternative_def)
  then have "query_satisfies p v b' c"
    using query_between [OF nz built_alternatives [OF assms(2) p(1)]] canonical_between [OF assms(4)] by simp
  then show ?thesis using p(1) assms(4) by (auto simp: group_satisfies_alternatives)
qed

text \<open>A group is a subset of itself, through \<^verbatim>\<open>canonical\<close> and the test on prereleases.\<close>

lemma and_query_bounds:
  "lower (and_query it q b) = Some l \<Longrightarrow>
     lower it = Some l \<or> (\<exists>x \<in> set (query_comparators q). c_op x \<noteq> Unset \<and> bd_version l = c_version x)"
  "upper (and_query it q b) = Some l \<Longrightarrow>
     upper it = Some l \<or> (\<exists>x \<in> set (query_comparators q). c_op x \<noteq> Unset \<and> bd_version l = c_version x)"
proof -
  let ?from = "\<lambda>l x. c_op x \<noteq> Unset \<and> bd_version l = c_version x"
  have lo: "lower it' = Some l \<or> ?from l x" if "lower (narrow it' x b') = Some l" for it' x b' l
    using that by (cases "c_op x") (auto simp: narrow_def raise_def cap_def Let_def split: if_splits)
  have up: "upper it' = Some l \<or> ?from l x" if "upper (narrow it' x b') = Some l" for it' x b' l
    using that by (cases "c_op x") (auto simp: narrow_def raise_def cap_def Let_def split: if_splits)
  show "lower (and_query it q b) = Some l \<Longrightarrow> lower it = Some l \<or> (\<exists>x \<in> set (query_comparators q). ?from l x)"
  proof (induction it q b rule: and_query.induct)
    case (1 it r b)
    then show ?case using lo [of "narrow it (r_left r) b" "r_right r" b l] lo [of it "r_left r" b l] by auto
  next
    case (2 it r n b)
    then show ?case using lo [of "narrow it (r_left r) b" "r_right r" b l] lo [of it "r_left r" b l] by auto
  qed
  show "upper (and_query it q b) = Some l \<Longrightarrow> upper it = Some l \<or> (\<exists>x \<in> set (query_comparators q). ?from l x)"
  proof (induction it q b rule: and_query.induct)
    case (1 it r b)
    then show ?case using up [of "narrow it (r_left r) b" "r_right r" b l] up [of it "r_left r" b l] by auto
  next
    case (2 it r n b)
    then show ?case using up [of "narrow it (r_left r) b" "r_right r" b l] up [of it "r_left r" b l] by auto
  qed
qed

lemma has_prerelease_of_iff:
  "has_prerelease_of bnd q \<longleftrightarrow> (\<exists>x \<in> set (query_comparators q). is_prerelease_of bnd x)"
  by (induction bnd q rule: has_prerelease_of.induct) auto

lemma within_self: "is_within_interval it it"
proof -
  have "bound_order l l = Equal" for l by (simp add: bound_order_prec precedence.ord_refl)
  then show ?thesis by (auto simp: is_within_interval_def Let_def split: option.splits)
qed

lemma after_last_patch_release: "after_last_patch u = Some n \<Longrightarrow> \<not> has_pre (tag n)"
  by (auto simp: after_last_patch_def split: option.splits)

lemma canonical_lower_pre:
  "has_pre (tag (bd_version (canonical_lower l))) \<Longrightarrow> canonical_lower l = l"
  using after_last_patch_release [of "bd_version l"]
  by (auto simp: canonical_lower_def split: option.splits if_splits)

lemma canonical_upper_pre:
  "canonical_upper u = Some u' \<Longrightarrow> has_pre (tag (bd_version u')) \<Longrightarrow> u' = u"
  using after_last_patch_release [of "bd_version u"]
  by (auto simp: canonical_upper_def split: option.splits if_splits)

lemma canonical_has_pre:
  "lower (canonical it) = Some l \<Longrightarrow> has_pre (tag (bd_version l)) \<Longrightarrow> lower it = Some l"
  "upper (canonical it) = Some u \<Longrightarrow> has_pre (tag (bd_version u)) \<Longrightarrow>
     upper it = Some u \<or> \<not> bd_inclusive u \<and> tag (bd_version u) = ZERO_PRE"
proof -
  show "lower (canonical it) = Some l \<Longrightarrow> has_pre (tag (bd_version l)) \<Longrightarrow> lower it = Some l"
    using canonical_lower_pre [of "the (lower it)"]
    by (cases "lower it") (auto simp: canonical_def Let_def split: if_splits)
  show "upper (canonical it) = Some u \<Longrightarrow> has_pre (tag (bd_version u)) \<Longrightarrow>
     upper it = Some u \<or> \<not> bd_inclusive u \<and> tag (bd_version u) = ZERO_PRE"
  proof (cases "upper it")
    case (Some k)
    assume u: "upper (canonical it) = Some u" "has_pre (tag (bd_version u))"
    then obtain k' where k': "canonical_upper k = Some k'"
      using Some by (cases "canonical_upper k") (simp_all add: canonical_def Let_def)
    then have "u = k' \<or> \<not> bd_inclusive k' \<and> u = k'\<lparr>bd_version := (bd_version k')\<lparr>tag := ZERO_PRE\<rparr>\<rparr>"
      using u(1) Some by (auto simp: canonical_def Let_def split: if_splits)
    then show ?thesis using canonical_upper_pre [OF k'] u(2) Some by auto
  qed (simp add: canonical_def Let_def)
qed

lemma prereleases_self: "prereleases_can_satisfy (canonical (and_query interval_default q b)) q"
proof -
  let ?it = "and_query interval_default q b"
  have of: "has_prerelease_of l q"
    if "x \<in> set (query_comparators q)" "c_op x \<noteq> Unset" "bd_version l = c_version x" "has_pre (tag (bd_version l))"
    for l x
    unfolding has_prerelease_of_iff
    by (rule bexI [OF _ that(1)]) (use that in \<open>simp add: is_prerelease_of_def same_core_def\<close>)
  have lo: "has_prerelease_of l q" if "lower (canonical ?it) = Some l" "has_pre (tag (bd_version l))" for l
    using and_query_bounds(1) [OF canonical_has_pre(1) [OF that]] of [OF _ _ _ that(2)]
    by (auto simp: interval_default_def)
  have up: "has_prerelease_of u q" if u: "upper (canonical ?it) = Some u" "has_pre (tag (bd_version u))"
    "bd_inclusive u \<or> external_slice (pre (tag (bd_version u))) (bd_buf u) \<noteq> ''0''" for u
  proof -
    have "upper ?it = Some u" using canonical_has_pre(2) [OF u(1,2)] u(3) by auto
    then show ?thesis using and_query_bounds(2) of [OF _ _ _ u(2)] by (fastforce simp: interval_default_def)
  qed
  show ?thesis using lo up by (auto simp: prereleases_can_satisfy_def Let_def split: option.splits)
qed

lemma subset_self: "is_subset_of g b g b"
  using within_self prereleases_self
  by (fastforce simp: is_subset_of_def list_all_iff list_ex_iff subset_in_alternative_def Let_def)

definition zero_with_pre :: "bytes \<Rightarrow> version" where
  "zero_with_pre s =
     version_default\<lparr>tag := tag_default\<lparr>pre := \<lparr>es_value = inline_bytes s, es_hash = 0\<rparr>\<rparr>\<rparr>"

lemma caret_123_v123: "group_satisfies caret_123 v123 ''^1.2.3'' []"
  using precedence.ord_refl [of "(v123, [])"]
  by (simp add: caret_123_admits op_admits_def caret_upper_def at_least_def)

section \<open>What the questions answer\<close>

text \<open>
  C31. The two bounds kept for an AND chain of a parsed range describe the chain: a version that is not a prerelease
  of \<^verbatim>\<open>0.0.0\<close> lies between them exactly when it satisfies the chain, so raising and capping keep the tightest bound on
  each side, and of two equal ones the exclusive one. Those prereleases, which satisfy \<^verbatim>\<open>>=0.0.0\<close> by exception, may
  satisfy the chain without lying between the bounds, but never the other way round.
\<close>

theorem interval_exact:
  assumes "q \<in> set (alternatives (parse_with s sl t))"
  shows "(between (and_query interval_default q b) (v, c) \<longrightarrow> query_satisfies q v b c)
    \<and> (\<not> below_zero v \<longrightarrow> query_satisfies q v b c = between (and_query interval_default q b) (v, c))"
  using between_satisfies query_between built_alternatives [OF parse_with_built assms] by blast

theorem interval_exact_witness:
  "query_satisfies (hd (alternatives caret_123)) v123 ''^1.2.3'' []
     = between (and_query interval_default (hd (alternatives caret_123)) ''^1.2.3'') (v123, [])"
proof -
  have "alternatives caret_123 \<noteq> []" using caret_123_v123 by (auto simp: group_satisfies_alternatives)
  then show ?thesis
    using interval_exact [of "hd (alternatives caret_123)" "''^1.2.3''" "sliced_init ''^1.2.3'' 0 ''^1.2.3''" tag_default "''^1.2.3''" v123 "[]"]
    by (simp add: query_parse_def below_zero_def)
qed

text \<open>
  C3. \<^verbatim>\<open>intersects\<close> has no false negatives on parsed ranges: when some version satisfies both, it says
  so, unless that version is a prerelease of \<^verbatim>\<open>0.0.0\<close>, which satisfies \<^verbatim>\<open>>=0.0.0\<close> by exception and lies outside
  the bounds.
\<close>

theorem intersects_no_false_negative:
  assumes "\<not> below_zero v"
    and "group_satisfies (parse_with s sl t) v b c"
    and "group_satisfies (parse_with s' sl' t') v b' c"
  shows "intersects (parse_with s sl t) b (parse_with s' sl' t') b'"
  by (rule intersects_complete [OF parse_with_built parse_with_built assms])

theorem intersects_no_false_negative_witness:
  "intersects caret_123 ''^1.2.3'' caret_123 ''^1.2.3''"
proof -
  show ?thesis
    using caret_123_v123
    unfolding query_parse_def
    by (intro intersects_no_false_negative [of v123 _ _ _ _ "[]"]) (simp_all add: below_zero_def)
qed

text \<open>
  C4. \<^verbatim>\<open>is_subset_of\<close> is sound for releases on parsed ranges: when it answers yes, every release that
  satisfies the first range satisfies the second.
\<close>

theorem is_subset_of_sound:
  assumes "is_subset_of (parse_with s sl t) b (parse_with s' sl' t') b'"
    and "\<not> has_pre (tag v)" "group_satisfies (parse_with s sl t) v b c"
  shows "group_satisfies (parse_with s' sl' t') v b' c"
  by (rule is_subset_of_release [OF parse_with_built parse_with_built assms])

theorem is_subset_of_sound_witness:
  "is_subset_of caret_123 ''^1.2.3'' caret_123 ''^1.2.3'' \<and> group_satisfies caret_123 v123 ''^1.2.3'' []"
proof -
  show ?thesis
    using is_subset_of_sound [of "''^1.2.3''" "sliced_init ''^1.2.3'' 0 ''^1.2.3''" tag_default "''^1.2.3''"
        "''^1.2.3''" "sliced_init ''^1.2.3'' 0 ''^1.2.3''" tag_default "''^1.2.3''" v123 "[]"] subset_self caret_123_v123
    unfolding query_parse_def by simp
qed

text \<open>
  Every group is a subset of itself, whatever its comparators: the canonical form of the bounds and
  the test on prereleases never reject the alternative the bounds come from.
\<close>

theorem is_subset_of_reflexive: "is_subset_of g b g b"
  by (rule subset_self)

text \<open>
  Prereleases of \<^verbatim>\<open>0.0.0\<close> are outside what \<^verbatim>\<open>is_subset_of\<close> answers for: \<^verbatim>\<open>>=0.0.0-a\<close> is reported
  as a subset of \<^verbatim>\<open>>=0.0.0-b >=0.0.0\<close>, yet \<^verbatim>\<open>0.0.0-a\<close> satisfies only the first, because
  the canonical form of the second drops its lower bound.
\<close>

theorem is_subset_of_below_zero:
  "let g = from_comparator \<lparr>c_op = Gte, c_version = zero_with_pre ''a''\<rparr>;
       other = group_and_range (from_comparator \<lparr>c_op = Gte, c_version = zero_with_pre ''b''\<rparr>)
                 (range_default\<lparr>r_left := \<lparr>c_op = Gte, c_version = version_default\<rparr>\<rparr>)
   in is_subset_of g [] other [] \<and> group_satisfies g (zero_with_pre ''a'') [] []
      \<and> \<not> group_satisfies other (zero_with_pre ''a'') [] []"
  by code_simp

text \<open>
  Nor does \<^verbatim>\<open>intersects\<close> answer for them: \<^verbatim>\<open>0.0.0-a\<close> satisfies \<^verbatim>\<open>>=0.0.0 <0.0.0-b\<close>, whose bounds are empty.
\<close>

theorem intersects_below_zero:
  "let g = from_comparator \<lparr>c_op = Lt, c_version = zero_with_pre ''b''\<rparr>;
       g = group_and_range g (range_default\<lparr>r_left := \<lparr>c_op = Gte, c_version = version_default\<rparr>\<rparr>)
   in group_satisfies g (zero_with_pre ''a'') [] [] \<and> \<not> intersects g [] g []"
  by code_simp

end
