(* ===== verification/StateMachine.thy ===== *)
theory StateMachine
  imports Main
begin

text \<open>
  Labelled transition systems for the concurrent components. A thread's next atomic instruction is
  one step; the instructions of the threads interleave in any order. A step carries an event, so that
  what a component does can be compared with what a specification allows.

  The steps are sequentially consistent: the memory orderings of the source (\<^verbatim>\<open>Acquire\<close>, \<^verbatim>\<open>Release\<close>, \<^verbatim>\<open>Relaxed\<close>)
  are not modelled.
\<close>

inductive run :: "('s \<Rightarrow> 'e \<Rightarrow> 's \<Rightarrow> bool) \<Rightarrow> 's \<Rightarrow> 'e list \<Rightarrow> 's \<Rightarrow> bool"
  for step s where
  run_Nil: "run step s [] s"
| run_snoc: "run step s es s' \<Longrightarrow> step s' e s'' \<Longrightarrow> run step s (es @ [e]) s''"

lemma run_single: "step s e s' \<Longrightarrow> run step s [e] s'"
  using run_snoc [OF run_Nil, of step s e s'] by simp

lemma run_append:
  assumes "run step s' fs s''" "run step s es s'"
  shows "run step s (es @ fs) s''"
  using assms(1)
proof (induction rule: run.induct)
  case run_Nil
  then show ?case using assms(2) by simp
next
  case (run_snoc fs t e u)
  then show ?case using run.run_snoc [of step s "es @ fs" t e u] by simp
qed

locale invariant_system =
  fixes step :: "'s \<Rightarrow> 'e \<Rightarrow> 's \<Rightarrow> bool"
    and init :: 's
    and inv :: "'s \<Rightarrow> bool"
  assumes init_inv: "inv init"
    and step_inv: "inv s \<Longrightarrow> step s e s' \<Longrightarrow> inv s'"
begin

lemma run_inv: "run step init es s \<Longrightarrow> inv s"
proof (induction rule: run.induct)
  case run_Nil
  show ?case by (rule init_inv)
qed (rule step_inv)

end

text \<open>
  A specification is a partial function on events; \<open>None\<close> is an event it does not allow. A simulation
  shows that the events of every run are allowed.
\<close>

fun accepts :: "('a \<Rightarrow> 'e \<Rightarrow> 'a option) \<Rightarrow> 'a \<Rightarrow> 'e list \<Rightarrow> 'a option" where
  "accepts spec a [] = Some a"
| "accepts spec a (e # es) = (case spec a e of None \<Rightarrow> None | Some a' \<Rightarrow> accepts spec a' es)"

lemma accepts_append:
  "accepts spec a (es @ fs) = (case accepts spec a es of None \<Rightarrow> None | Some b \<Rightarrow> accepts spec b fs)"
  by (induction es arbitrary: a) (auto split: option.splits)

locale simulation = invariant_system +
  fixes spec :: "'a \<Rightarrow> 'b \<Rightarrow> 'a option"
    and ainit :: 'a
    and rel :: "'c \<Rightarrow> 'a \<Rightarrow> bool"
  assumes init_rel: "rel init ainit"
    and step_rel: "inv s \<Longrightarrow> rel s a \<Longrightarrow> step s e s' \<Longrightarrow> \<exists>a'. spec a e = Some a' \<and> rel s' a'"
begin

lemma run_accepted: "run step init es s \<Longrightarrow> \<exists>a. accepts spec ainit es = Some a \<and> rel s a"
proof (induction rule: run.induct)
  case run_Nil
  show ?case using init_rel by simp
next
  case (run_snoc es s e s')
  then obtain a where "accepts spec ainit es = Some a" "rel s a" by blast
  moreover obtain a' where "spec a e = Some a'" "rel s' a'"
    using step_rel [OF run_inv [OF run_snoc.hyps(1)] calculation(2) run_snoc.hyps(2)] by blast
  ultimately show ?case by (simp add: accepts_append)
qed

end

end
