(* ===== verification/FutexMutex.thy ===== *)
theory FutexMutex
  imports Bun_Prelude StateMachine
begin

text \<open>
  \<^verbatim>\<open>FutexImpl\<close> of \<^verbatim>\<open>src/threading/Mutex.rs\<close>, the mutex on Linux and the BSDs: a 32-bit word that is unlocked,
  locked, or locked with threads that may sleep on it. The program counter of a thread says which
  atomic instruction it executes next. \<^verbatim>\<open>Futex::wait_forever(ptr, expect)\<close> and \<^verbatim>\<open>Futex::wake_raw(ptr, 1)\<close>
  are the kernel's: a wait sleeps only if the word still has the expected value, a sleeper may wake
  at any time, a wake wakes one sleeper when there is one.
\<close>

section \<open>State\<close>

type_synonym tid = nat

abbreviation UNLOCKED :: u32 where "UNLOCKED \<equiv> 0"
abbreviation LOCKED :: u32 where "LOCKED \<equiv> 1"
abbreviation CONTENDED :: u32 where "CONTENDED \<equiv> 3"

datatype mutex_pc =
    Idle
  | TryOnce       \<comment> \<open>\<^verbatim>\<open>try_lock\<close>, called by the client\<close>
  | TryLock       \<comment> \<open>\<^verbatim>\<open>try_lock\<close>, called by \<^verbatim>\<open>lock\<close>\<close>
  | SlowLoad      \<comment> \<open>the load of \<^verbatim>\<open>lock_slow\<close>\<close>
  | SlowWait      \<comment> \<open>either call of \<^verbatim>\<open>wait_forever\<close>\<close>
  | Asleep
  | SlowSwap      \<comment> \<open>the swap of the loop of \<^verbatim>\<open>lock_slow\<close>\<close>
  | Critical
  | WakeOne       \<comment> \<open>\<^verbatim>\<open>wake_raw\<close> in \<^verbatim>\<open>unlock_raw\<close>\<close>

record mutex =
  state :: u32
  pc :: "tid \<Rightarrow> mutex_pc"

datatype lock_event = Tau | Acquire tid | Release tid

definition mutex_new :: mutex where
  "mutex_new = \<lparr>state = UNLOCKED, pc = (\<lambda>_. Idle)\<rparr>"

abbreviation goto :: "mutex \<Rightarrow> tid \<Rightarrow> mutex_pc \<Rightarrow> mutex" where
  "goto m t p \<equiv> m\<lparr>pc := (pc m)(t := p)\<rparr>"

section \<open>Instructions\<close>

text \<open>\<^verbatim>\<open>fetch_or(1) & 1 == 0\<close>: the new word, and whether the lock was free\<close>

definition try_lock_word :: "u32 \<Rightarrow> u32 \<times> bool" where
  "try_lock_word w = (w OR 1, w AND 1 = 0)"

text \<open>\<^verbatim>\<open>compare_exchange_weak(UNLOCKED, LOCKED)\<close>, which may fail although the word is unlocked\<close>

definition try_lock_weak :: "bool \<Rightarrow> u32 \<Rightarrow> u32 \<times> bool" where
  "try_lock_weak fail w = (if w = UNLOCKED \<and> \<not> fail then (LOCKED, True) else (w, False))"

inductive mutex_step :: "mutex \<Rightarrow> lock_event \<Rightarrow> mutex \<Rightarrow> bool" where
  call_try: "pc m t = Idle \<Longrightarrow> mutex_step m Tau (goto m t TryOnce)"
| call_lock: "pc m t = Idle \<Longrightarrow> mutex_step m Tau (goto m t TryLock)"
| try_once: "pc m t = TryOnce \<Longrightarrow> try_lock_word (state m) = (w, ok) \<Longrightarrow>
    mutex_step m (if ok then Acquire t else Tau) (goto (m\<lparr>state := w\<rparr>) t (if ok then Critical else Idle))"
| try_once_weak: "pc m t = TryOnce \<Longrightarrow> try_lock_weak fail (state m) = (w, ok) \<Longrightarrow>
    mutex_step m (if ok then Acquire t else Tau) (goto (m\<lparr>state := w\<rparr>) t (if ok then Critical else Idle))"
| try_lock: "pc m t = TryLock \<Longrightarrow> try_lock_word (state m) = (w, ok) \<Longrightarrow>
    mutex_step m (if ok then Acquire t else Tau) (goto (m\<lparr>state := w\<rparr>) t (if ok then Critical else SlowLoad))"
| try_lock_weak: "pc m t = TryLock \<Longrightarrow> try_lock_weak fail (state m) = (w, ok) \<Longrightarrow>
    mutex_step m (if ok then Acquire t else Tau) (goto (m\<lparr>state := w\<rparr>) t (if ok then Critical else SlowLoad))"
| slow_load: "pc m t = SlowLoad \<Longrightarrow>
    mutex_step m Tau (goto m t (if state m = CONTENDED then SlowWait else SlowSwap))"
| slow_wait: "pc m t = SlowWait \<Longrightarrow>
    mutex_step m Tau (goto m t (if state m = CONTENDED then Asleep else SlowSwap))"
| spurious: "pc m t = Asleep \<Longrightarrow> mutex_step m Tau (goto m t SlowSwap)"
| slow_swap: "pc m t = SlowSwap \<Longrightarrow>
    mutex_step m (if state m = UNLOCKED then Acquire t else Tau)
      (goto (m\<lparr>state := CONTENDED\<rparr>) t (if state m = UNLOCKED then Critical else SlowWait))"
| unlock: "pc m t = Critical \<Longrightarrow>
    mutex_step m (Release t)
      (goto (m\<lparr>state := UNLOCKED\<rparr>) t (if state m = CONTENDED then WakeOne else Idle))"
| wake_one: "pc m t = WakeOne \<Longrightarrow> pc m u = Asleep \<Longrightarrow>
    mutex_step m Tau (goto (goto m t Idle) u SlowSwap)"
| wake_none: "pc m t = WakeOne \<Longrightarrow> \<forall>u. pc m u \<noteq> Asleep \<Longrightarrow> mutex_step m Tau (goto m t Idle)"

section \<open>Invariant\<close>

text \<open>
  The word is unlocked exactly while no thread is in its critical section, and a sleeper is never
  forgotten: the word says that somebody may sleep, or a wake is on its way, or a woken thread is
  about to write that somebody may sleep.
\<close>

definition mutex_inv :: "mutex \<Rightarrow> bool" where
  "mutex_inv m \<longleftrightarrow>
     state m \<in> {UNLOCKED, LOCKED, CONTENDED}
     \<and> (state m = UNLOCKED \<longleftrightarrow> (\<forall>t. pc m t \<noteq> Critical))
     \<and> (\<forall>t u. pc m t = Critical \<and> pc m u = Critical \<longrightarrow> t = u)
     \<and> ((\<exists>t. pc m t = Asleep) \<longrightarrow> state m = CONTENDED \<or> (\<exists>t. pc m t \<in> {WakeOne, SlowSwap}))"

lemma try_lock_word_cases:
  assumes "mutex_inv m"
  shows "try_lock_word (state m) = try_lock_weak False (state m)"
  using assms by (auto simp: mutex_inv_def try_lock_word_def try_lock_weak_def)

lemma inv_word: "mutex_inv m \<Longrightarrow> state m \<in> {UNLOCKED, LOCKED, CONTENDED}"
  unfolding mutex_inv_def by blast

text \<open>A step of one thread: what the invariant asks of the new word and the thread's new place.\<close>

definition awake :: "u32 \<Rightarrow> (tid \<Rightarrow> mutex_pc) \<Rightarrow> bool" where
  "awake w f \<longleftrightarrow> ((\<exists>t. f t = Asleep) \<longrightarrow> w = CONTENDED \<or> (\<exists>t. f t \<in> {WakeOne, SlowSwap}))"

lemma awake_upd:
  assumes "awake (state m) (pc m)"
    and "w = CONTENDED \<or> p \<in> {WakeOne, SlowSwap}
      \<or> state m \<noteq> CONTENDED \<and> p \<noteq> Asleep \<and> pc m t \<notin> {WakeOne, SlowSwap}"
  shows "awake w ((pc m)(t := p))"
  unfolding awake_def
proof
  assume "\<exists>u. ((pc m)(t := p)) u = Asleep"
  then obtain u where u: "((pc m)(t := p)) u = Asleep" ..
  show "w = CONTENDED \<or> (\<exists>u. ((pc m)(t := p)) u \<in> {WakeOne, SlowSwap})"
  proof (cases "w = CONTENDED \<or> p \<in> {WakeOne, SlowSwap}")
    case True
    then show ?thesis by (metis fun_upd_same)
  next
    case False
    then have n: "state m \<noteq> CONTENDED" "p \<noteq> Asleep" "pc m t \<notin> {WakeOne, SlowSwap}" using assms(2) by auto
    then have "pc m u = Asleep" using u by (cases "u = t") auto
    then obtain v where v: "pc m v \<in> {WakeOne, SlowSwap}" using assms(1) n(1) unfolding awake_def by blast
    then have "((pc m)(t := p)) v \<in> {WakeOne, SlowSwap}" using n(3) by auto
    then show ?thesis by blast
  qed
qed

lemma mutex_inv_awake: "mutex_inv m \<Longrightarrow> awake (state m) (pc m)"
  by (simp add: mutex_inv_def awake_def)

lemma mutex_inv_goto:
  assumes "mutex_inv m"
    and w: "w \<in> {UNLOCKED, LOCKED, CONTENDED}"
    and crit: "p = Critical \<Longrightarrow> w \<noteq> UNLOCKED \<and> (state m = UNLOCKED \<or> pc m t = Critical)"
    and free: "p \<noteq> Critical \<Longrightarrow> if pc m t = Critical then w = UNLOCKED else (w = UNLOCKED \<longleftrightarrow> state m = UNLOCKED)"
    and s: "awake w ((pc m)(t := p))"
  shows "mutex_inv (goto (m\<lparr>state := w\<rparr>) t p)"
proof -
  have c: "pc m u = Critical \<Longrightarrow> state m \<noteq> UNLOCKED" "pc m u = Critical \<Longrightarrow> pc m v = Critical \<Longrightarrow> u = v" for u v
    using assms(1) by (auto simp: mutex_inv_def)
  have a: "w = UNLOCKED \<longleftrightarrow> (\<forall>u. ((pc m)(t := p)) u \<noteq> Critical)"
  proof (cases "p = Critical")
    case True
    then show ?thesis using crit by auto
  next
    case False
    have old: "state m = UNLOCKED \<longleftrightarrow> (\<forall>u. pc m u \<noteq> Critical)" using assms(1) unfolding mutex_inv_def by blast
    show ?thesis
    proof (cases "pc m t = Critical")
      case True
      then have "\<forall>u. ((pc m)(t := p)) u \<noteq> Critical" using c(2) False by auto
      then show ?thesis using free [OF False] True by simp
    next
      case no: False
      then have "(\<forall>u. ((pc m)(t := p)) u \<noteq> Critical) \<longleftrightarrow> (\<forall>u. pc m u \<noteq> Critical)" using False by (metis fun_upd_apply)
      then show ?thesis using free [OF False] no old by simp
    qed
  qed
  have b: "\<forall>u v. ((pc m)(t := p)) u = Critical \<and> ((pc m)(t := p)) v = Critical \<longrightarrow> u = v"
    using c crit by (auto split: if_splits)
  have eqs: "state (goto (m\<lparr>state := w\<rparr>) t p) = w" "pc (goto (m\<lparr>state := w\<rparr>) t p) = (pc m)(t := p)" by simp_all
  show ?thesis unfolding mutex_inv_def eqs by (intro conjI w a b s [unfolded awake_def])
qed

lemma mutex_inv_pc:
  assumes "mutex_inv m" "p \<noteq> Critical" "pc m t \<noteq> Critical" "awake (state m) ((pc m)(t := p))"
  shows "mutex_inv (goto m t p)"
  using mutex_inv_goto [of m "state m" p t] inv_word [OF assms(1)] assms by simp

lemma mutex_inv_try:
  assumes "mutex_inv m" "try_lock_weak fail (state m) = (w, ok)" "pc m t \<in> {TryOnce, TryLock}" "p \<in> {Idle, SlowLoad}"
  shows "mutex_inv (goto (m\<lparr>state := w\<rparr>) t (if ok then Critical else p))"
proof (rule mutex_inv_goto [OF assms(1)])
  show "w \<in> {UNLOCKED, LOCKED, CONTENDED}"
    using assms(2) inv_word [OF assms(1)] by (auto simp: try_lock_weak_def split: if_splits)
  show "awake w ((pc m)(t := if ok then Critical else p))"
    by (rule awake_upd [OF mutex_inv_awake [OF assms(1)]])
      (use assms(2-4) in \<open>auto simp: try_lock_weak_def split: if_splits\<close>)
qed (use assms(2-4) in \<open>auto simp: try_lock_weak_def split: if_splits\<close>)

lemma mutex_step_inv:
  assumes "mutex_inv m" "mutex_step m e m'"
  shows "mutex_inv m'"
proof -
  note up = awake_upd [OF mutex_inv_awake [OF assms(1)]]
  note word = try_lock_word_cases [OF assms(1)]
  note pc = mutex_inv_pc [OF assms(1)]
  show ?thesis
    using assms(2)
  proof cases
    case (wake_one t u)
    have ne: "t \<noteq> u" using wake_one by auto
    have i: "mutex_inv (goto m u SlowSwap)" using wake_one by (intro pc up) auto
    have "awake (state m) ((pc m)(u := SlowSwap, t := Idle))"
      unfolding awake_def using ne by (metis fun_upd_apply insertI1 insertI2)
    then have "mutex_inv (goto (goto m u SlowSwap) t Idle)"
      using wake_one ne by (intro mutex_inv_pc [OF i]) auto
    then show ?thesis using wake_one ne by (simp add: fun_upd_twist)
  next
    case (wake_none t)
    then have "awake (state m) ((pc m)(t := Idle))" by (simp add: awake_def)
    then show ?thesis unfolding wake_none(2) using wake_none(3) by (intro pc) simp_all
  next
    case (slow_swap t)
    show ?thesis unfolding slow_swap(2) using slow_swap(3)
      by (intro mutex_inv_goto [OF assms(1)] up) (auto split: if_splits)
  next
    case (unlock t)
    show ?thesis unfolding unlock(2) using unlock(3)
      by (intro mutex_inv_goto [OF assms(1)] up) (auto split: if_splits)
  next
    case (try_once t w ok)
    then show ?thesis using mutex_inv_try [OF assms(1), of False w ok t Idle] word by simp
  next
    case (try_lock t w ok)
    then show ?thesis using mutex_inv_try [OF assms(1), of False w ok t SlowLoad] word by simp
  next
    case (try_once_weak t fail w ok)
    then show ?thesis using mutex_inv_try [OF assms(1), of fail w ok t Idle] by simp
  next
    case (try_lock_weak t fail w ok)
    then show ?thesis using mutex_inv_try [OF assms(1), of fail w ok t SlowLoad] by simp
  next
    case (call_try t)
    show ?thesis unfolding call_try(2) using call_try(3) by (intro pc up) auto
  next
    case (call_lock t)
    show ?thesis unfolding call_lock(2) using call_lock(3) by (intro pc up) auto
  next
    case (slow_load t)
    show ?thesis unfolding slow_load(2) using slow_load(3) by (intro pc up) (auto split: if_splits)
  next
    case (slow_wait t)
    show ?thesis unfolding slow_wait(2) using slow_wait(3) by (intro pc up) (auto split: if_splits)
  next
    case (spurious t)
    show ?thesis unfolding spurious(2) using spurious(3) by (intro pc up) auto
  qed
qed

section \<open>The lock the clients see\<close>

text \<open>An atomic lock: nobody holds it, or one thread does.\<close>

fun atomic_lock :: "tid option \<Rightarrow> lock_event \<Rightarrow> tid option option" where
  "atomic_lock h Tau = Some h"
| "atomic_lock h (Acquire t) = (if h = None then Some (Some t) else None)"
| "atomic_lock h (Release t) = (if h = Some t then Some None else None)"

definition held :: "mutex \<Rightarrow> tid option \<Rightarrow> bool" where
  "held m h \<longleftrightarrow> (\<forall>t. pc m t = Critical \<longleftrightarrow> h = Some t)"

lemma held_goto:
  assumes "held m h"
  shows "h = None \<Longrightarrow> held (goto (m\<lparr>state := w\<rparr>) t Critical) (Some t)"
    and "p \<noteq> Critical \<Longrightarrow> pc m t \<noteq> Critical \<Longrightarrow> held (goto (m\<lparr>state := w\<rparr>) t p) h"
    and "p \<noteq> Critical \<Longrightarrow> pc m t \<noteq> Critical \<Longrightarrow> held (goto m t p) h"
    and "p \<noteq> Critical \<Longrightarrow> h = Some t \<Longrightarrow> held (goto (m\<lparr>state := w\<rparr>) t p) None"
  using assms by (auto simp: held_def)

lemma held_try:
  assumes "held m h" "state m = UNLOCKED \<longleftrightarrow> h = None" "try_lock_weak fail (state m) = (w, ok)"
    and "pc m t \<in> {TryOnce, TryLock}" "p \<in> {Idle, SlowLoad}"
  shows "\<exists>h'. atomic_lock h (if ok then Acquire t else Tau) = Some h'
    \<and> held (goto (m\<lparr>state := w\<rparr>) t (if ok then Critical else p)) h'"
  using held_goto(1) [OF assms(1), where w = w] held_goto(2) [OF assms(1), where w = w] assms(2-5) by (auto simp: try_lock_weak_def split: if_splits)

lemma mutex_step_held:
  assumes "mutex_inv m" "held m h" "mutex_step m e m'"
  shows "\<exists>h'. atomic_lock h e = Some h' \<and> held m' h'"
proof -
  have u: "state m = UNLOCKED \<longleftrightarrow> h = None"
  proof -
    have "state m = UNLOCKED \<longleftrightarrow> (\<forall>u. pc m u \<noteq> Critical)" using assms(1) unfolding mutex_inv_def by blast
    then show ?thesis using assms(2) by (cases h) (auto simp: held_def)
  qed
  note word = try_lock_word_cases [OF assms(1)]
  note g = held_goto [OF assms(2)]
  note tried = held_try [OF assms(2) u]
  show ?thesis
    using assms(3)
  proof cases
    case (wake_one t v)
    have "held (goto m t Idle) h" by (rule g(3)) (simp_all add: wake_one(3))
    then have "held (goto (goto m t Idle) v SlowSwap) h"
      by (rule held_goto(3)) (use wake_one(3,4) in auto)
    then show ?thesis unfolding wake_one(1,2) by simp
  next
    case (unlock t)
    have h: "h = Some t" using unlock(3) assms(2) by (simp add: held_def)
    have "held (goto (m\<lparr>state := UNLOCKED\<rparr>) t (if state m = CONTENDED then WakeOne else Idle)) None"
      by (rule g(4)) (simp_all add: h)
    then show ?thesis unfolding unlock(1,2) using h by simp
  next
    case (slow_swap t)
    show ?thesis
    proof (cases "h = None")
      case True
      then show ?thesis using u g(1) unfolding slow_swap(1,2) by simp
    next
      case False
      have "held (goto (m\<lparr>state := CONTENDED\<rparr>) t SlowWait) h" by (rule g(2)) (simp_all add: slow_swap(3))
      moreover have "state m \<noteq> UNLOCKED" using False u by simp
      ultimately show ?thesis unfolding slow_swap(1,2) by simp
    qed
  next
    case (try_once t w ok)
    then show ?thesis using tried [of False w ok t Idle] word by simp
  next
    case (try_lock t w ok)
    then show ?thesis using tried [of False w ok t SlowLoad] word by simp
  next
    case (try_once_weak t fail w ok)
    then show ?thesis using tried [of fail w ok t Idle] by simp
  next
    case (try_lock_weak t fail w ok)
    then show ?thesis using tried [of fail w ok t SlowLoad] by simp
  qed (use g(3) in auto)
qed

interpretation futex: simulation mutex_step mutex_new mutex_inv atomic_lock None held
proof unfold_locales
  show "mutex_inv mutex_new" "held mutex_new None" by (simp_all add: mutex_new_def mutex_inv_def held_def)
qed (blast intro: mutex_step_inv mutex_step_held)+

text \<open>Two runs for the witnesses: thread 0 takes the lock; thread 1 then goes to sleep, and 0 unlocks.\<close>

definition after_lock :: "tid \<Rightarrow> mutex" where
  "after_lock t = \<lparr>state = LOCKED, pc = (\<lambda>_. Idle)(t := Critical)\<rparr>"

lemma run_after_lock: "run mutex_step mutex_new [Tau, Acquire t] (after_lock t)"
proof -
  let ?m = "goto mutex_new t TryLock"
  have 1: "run mutex_step mutex_new [Tau] ?m"
    by (rule run_single [of mutex_step]) (rule mutex_step.call_lock, simp add: mutex_new_def)
  have "mutex_step ?m (Acquire t) (after_lock t)"
    using mutex_step.try_lock [of ?m t LOCKED True] by (simp add: mutex_new_def after_lock_def try_lock_word_def)
  from run_snoc [OF 1 this] show ?thesis by simp
qed

definition sleeper :: mutex where
  "sleeper = \<lparr>state = UNLOCKED, pc = (\<lambda>_. Idle)(0 := WakeOne, 1 := Asleep)\<rparr>"

lemma run_sleeper: "run mutex_step mutex_new ([Tau, Acquire 0] @ [Tau, Tau, Tau, Tau, Tau, Release 0]) sleeper"
proof (rule run_append [OF _ run_after_lock])
  let ?a = "after_lock 0"
  let ?c = "\<lambda>p. \<lparr>state = CONTENDED, pc = (\<lambda>_. Idle)(0 := Critical, 1 := p)\<rparr>"
  have 1: "run mutex_step ?a [Tau] (goto ?a 1 TryLock)"
    by (rule run_single [of mutex_step]) (rule mutex_step.call_lock, simp add: after_lock_def)
  have "mutex_step (goto ?a 1 TryLock) Tau (goto ?a 1 SlowLoad)"
    using mutex_step.try_lock [of "goto ?a 1 TryLock" 1 LOCKED False] by (simp add: after_lock_def try_lock_word_def)
  note 2 = run_snoc [OF 1 this]
  have "mutex_step (goto ?a 1 SlowLoad) Tau (goto ?a 1 SlowSwap)"
    using mutex_step.slow_load [of "goto ?a 1 SlowLoad" 1] by (simp add: after_lock_def)
  note 3 = run_snoc [OF 2 this]
  have "mutex_step (goto ?a 1 SlowSwap) Tau (?c SlowWait)"
    using mutex_step.slow_swap [of "goto ?a 1 SlowSwap" 1] by (simp add: after_lock_def)
  note 4 = run_snoc [OF 3 this]
  have "mutex_step (?c SlowWait) Tau (?c Asleep)"
    using mutex_step.slow_wait [of "?c SlowWait" 1] by simp
  note 5 = run_snoc [OF 4 this]
  have "mutex_step (?c Asleep) (Release 0) sleeper"
    using mutex_step.unlock [of "?c Asleep" 0] by (simp add: sleeper_def fun_upd_twist)
  from run_snoc [OF 5 this] show "run mutex_step ?a [Tau, Tau, Tau, Tau, Tau, Release 0] sleeper" by simp
qed

section \<open>What the mutex guarantees\<close>

text \<open>
  C5. The mutex implements an atomic lock: in every run, with any number of threads and any
  interleaving of their instructions, spurious wake-ups and weak failures included, the sequence of
  acquisitions and releases is one an atomic lock allows, and the thread in its critical section is
  the holder of that lock. So no two threads are ever in the critical section.
\<close>

theorem mutex_refines_atomic_lock:
  assumes "run mutex_step mutex_new es m"
  shows "\<exists>h. accepts atomic_lock None es = Some h \<and> (\<forall>t. pc m t = Critical \<longleftrightarrow> h = Some t)"
  using futex.run_accepted [OF assms] by (simp add: held_def)

theorem mutex_refines_atomic_lock_witness:
  "\<exists>m. run mutex_step mutex_new [Tau, Acquire 0] m \<and> pc m 0 = Critical \<and> pc m 1 \<noteq> Critical"
proof -
  have r: "run mutex_step mutex_new [Tau, Acquire 0] (after_lock 0)" by (rule run_after_lock)
  then show ?thesis
    using mutex_refines_atomic_lock [OF r] by (intro exI [of _ "after_lock 0"]) (auto simp: after_lock_def)
qed

section \<open>No sleeper is forgotten\<close>

text \<open>
  A step that nobody starts from outside: no thread wakes up unless another one wakes it, and no thread that
  is idle calls the mutex. The kernel may wake a sleeper for no reason, but the mutex must not rely on it.
\<close>

definition prompted :: "mutex \<Rightarrow> lock_event \<Rightarrow> mutex \<Rightarrow> bool" where
  "prompted m e m' \<longleftrightarrow> mutex_step m e m'
     \<and> (\<forall>t. pc m t = Asleep \<and> pc m' t \<noteq> Asleep \<longrightarrow> (\<exists>u. pc m u = WakeOne \<and> pc m' u = Idle))
     \<and> (\<forall>t. pc m t = Idle \<longrightarrow> pc m' t = Idle)"

lemma prompted_steps:
  "pc m u = WakeOne \<Longrightarrow> pc m t = Asleep \<Longrightarrow> prompted m Tau (goto (goto m u Idle) t SlowSwap)"
  "pc m t = SlowSwap \<Longrightarrow> state m = UNLOCKED \<Longrightarrow> prompted m (Acquire t) (goto (m\<lparr>state := CONTENDED\<rparr>) t Critical)"
  "pc m t = SlowSwap \<Longrightarrow> state m \<noteq> UNLOCKED \<Longrightarrow> prompted m Tau (goto (m\<lparr>state := CONTENDED\<rparr>) t SlowWait)"
  "pc m h = Critical \<Longrightarrow>
     prompted m (Release h) (goto (m\<lparr>state := UNLOCKED\<rparr>) h (if state m = CONTENDED then WakeOne else Idle))"
  using mutex_step.wake_one [of m u t] mutex_step.slow_swap [of m t] mutex_step.unlock [of m h]
  by (auto simp: prompted_def)

text \<open>A thread on its way to wake one lets the sleeper take a free lock, and the holder of a contended lock is such a thread next\<close>

lemma woken_acquires:
  assumes "state m = UNLOCKED" "pc m u = WakeOne" "pc m t = Asleep"
  shows "\<exists>m'. run prompted m ([Tau] @ [Acquire t]) m' \<and> pc m' t = Critical"
proof -
  let ?m = "goto (goto m u Idle) t SlowSwap"
  have "run prompted m [Tau] ?m" using prompted_steps(1) [OF assms(2,3)] by (rule run_single)
  moreover have "prompted ?m (Acquire t) (goto (?m\<lparr>state := CONTENDED\<rparr>) t Critical)"
    using prompted_steps(2) [of ?m t] assms(1) by simp
  ultimately have "run prompted m ([Tau] @ [Acquire t]) (goto (?m\<lparr>state := CONTENDED\<rparr>) t Critical)" by (rule run_snoc)
  then show ?thesis by (intro exI conjI) auto
qed

lemma contended_acquires:
  assumes "state m = CONTENDED" "pc m h = Critical" "pc m t = Asleep"
  shows "\<exists>m'. run prompted m ([Release h, Tau] @ [Acquire t]) m' \<and> pc m' t = Critical"
proof -
  let ?m = "goto (m\<lparr>state := UNLOCKED\<rparr>) h WakeOne"
  have "run prompted m [Release h] ?m" using prompted_steps(4) [OF assms(2)] assms(1) by (intro run_single) simp
  moreover have "h \<noteq> t" using assms(2,3) by auto
  then obtain m' where "run prompted ?m ([Tau] @ [Acquire t]) m'" "pc m' t = Critical"
    using woken_acquires [of ?m h t] assms(3) by auto
  ultimately show ?thesis using run_append [of prompted ?m "[Tau] @ [Acquire t]" m' m "[Release h]"] by auto
qed

lemma swapped_acquires:
  assumes "pc m u = SlowSwap" "pc m t = Asleep" "state m \<noteq> UNLOCKED \<Longrightarrow> pc m h = Critical"
  shows "\<exists>e k m'. run prompted m ([e, Release k, Tau] @ [Acquire t]) m' \<and> pc m' t = Critical"
proof -
  let ?p = "if state m = UNLOCKED then Critical else SlowWait" and ?k = "if state m = UNLOCKED then u else h"
  let ?e = "if state m = UNLOCKED then Acquire u else Tau" and ?m = "goto (m\<lparr>state := CONTENDED\<rparr>) u ?p"
  have "run prompted m [?e] ?m" using prompted_steps(2,3) [OF assms(1)] by (intro run_single) simp
  moreover have "pc ?m ?k = Critical" "pc ?m t = Asleep" using assms by auto
  then obtain m' where "run prompted ?m ([Release ?k, Tau] @ [Acquire t]) m'" "pc m' t = Critical"
    using contended_acquires [of ?m ?k t] by auto
  ultimately have "run prompted m ([?e, Release ?k, Tau] @ [Acquire t]) m'"
    using run_append [of prompted ?m "[Release ?k, Tau] @ [Acquire t]" m' m "[?e]"] by simp
  then show ?thesis using \<open>pc m' t = Critical\<close> by blast
qed

lemma locked_acquires:
  assumes "state m = LOCKED" "pc m h = Critical" "pc m u = WakeOne" "pc m t = Asleep"
  shows "\<exists>m'. run prompted m ([Tau, Release h] @ [Acquire t]) m' \<and> pc m' t = Critical"
proof -
  define m1 where "m1 = goto (goto m u Idle) t SlowSwap"
  define m2 where "m2 = goto (m1\<lparr>state := UNLOCKED\<rparr>) h Idle"
  define m3 where "m3 = goto (m2\<lparr>state := CONTENDED\<rparr>) t Critical"
  have ne: "h \<noteq> t" "h \<noteq> u" "u \<noteq> t" using assms by auto
  have "run prompted m [Tau] m1" unfolding m1_def using prompted_steps(1) [OF assms(3,4)] by (rule run_single)
  moreover have "prompted m1 (Release h) m2"
    using prompted_steps(4) [of m1 h] assms(1,2) ne by (simp add: m1_def m2_def)
  ultimately have "run prompted m ([Tau] @ [Release h]) m2" by (rule run_snoc)
  moreover have "prompted m2 (Acquire t) m3"
    using prompted_steps(2) [of m2 t] ne by (simp add: m1_def m2_def m3_def)
  ultimately have "run prompted m (([Tau] @ [Release h]) @ [Acquire t]) m3" by (rule run_snoc)
  then show ?thesis by (intro exI [of _ m3]) (simp add: m3_def)
qed

lemma sleeper_acquires:
  assumes "mutex_inv m" "pc m t = Asleep"
  shows "\<exists>es m'. run prompted m (es @ [Acquire t]) m' \<and> length es \<le> 3 \<and> pc m' t = Critical"
proof -
  have w: "state m \<in> {UNLOCKED, LOCKED, CONTENDED}" by (rule inv_word [OF assms(1)])
  have "\<exists>h. state m \<noteq> UNLOCKED \<longrightarrow> pc m h = Critical" using assms(1) unfolding mutex_inv_def by blast
  then obtain h where h: "state m \<noteq> UNLOCKED \<Longrightarrow> pc m h = Critical" by blast
  have "state m = CONTENDED \<or> (\<exists>u. pc m u \<in> {WakeOne, SlowSwap})" using assms unfolding mutex_inv_def by blast
  then consider "state m = CONTENDED" | u where "pc m u = SlowSwap"
    | u where "pc m u = WakeOne" "state m = UNLOCKED" | u where "pc m u = WakeOne" "state m = LOCKED"
    using w by blast
  then show ?thesis
  proof cases
    case 1
    then have "pc m h = Critical" using h by simp
    from contended_acquires [OF 1 this assms(2)] show ?thesis by (elim exE conjE, intro exI [of _ "[Release h, Tau]"] exI conjI) simp_all
  next
    case 2
    obtain e k m' where "run prompted m ([e, Release k, Tau] @ [Acquire t]) m'" "pc m' t = Critical"
      using swapped_acquires [OF 2 assms(2) h] by blast
    then show ?thesis by (intro exI [of _ "[e, Release k, Tau]"] exI conjI) simp_all
  next
    case 3
    from woken_acquires [OF 3(2,1) assms(2)] show ?thesis by (elim exE conjE, intro exI [of _ "[Tau]"] exI conjI) simp_all
  next
    case 4
    then have "pc m h = Critical" using h by simp
    from locked_acquires [OF 4(2) this 4(1) assms(2)] show ?thesis by (elim exE conjE, intro exI [of _ "[Tau, Release h]"] exI conjI) simp_all
  qed
qed

text \<open>
  C35. No wake-up is lost: from every state that any run reaches, spurious wake-ups included, a sleeping thread can go on
  to hold the lock within four steps in which no sleeper wakes up of its own accord and no thread calls the
  mutex anew: the threads that are in the mutex already, the holder among them, do all that it takes to wake it.
\<close>

theorem mutex_no_lost_wakeup:
  assumes "run mutex_step mutex_new es m" "pc m t = Asleep"
  shows "\<exists>es' m'. run prompted m (es' @ [Acquire t]) m' \<and> length es' \<le> 3 \<and> pc m' t = Critical"
  by (rule sleeper_acquires [OF futex.run_inv [OF assms(1)] assms(2)])

theorem mutex_no_lost_wakeup_witness:
  "pc sleeper 1 = Asleep \<and> (\<exists>es m. run prompted sleeper (es @ [Acquire 1]) m \<and> length es \<le> 3 \<and> pc m 1 = Critical)"
proof -
  have "pc sleeper 1 = Asleep" by (simp add: sleeper_def)
  from mutex_no_lost_wakeup [OF run_sleeper this] this show ?thesis by blast
qed

end
