(* ===== verification/RwLock.thy ===== *)
theory RwLock
  imports FutexMutex
begin

text \<open>
  \<^verbatim>\<open>RawRwLock\<close> of \<^verbatim>\<open>src/threading/RwLock.rs\<close>: one word counts the pending writers and the active readers and
  has a bit for the active writer; a mutex serialises the writers and the readers that come second; a
  semaphore lets the writer wait for the readers that came first. The mutex is the atomic lock that
  \<open>FutexMutex\<close> shows it to be; the semaphore (\<^verbatim>\<open>src/threading/Semaphore.rs\<close>) is its number of permits, each of
  its operations being one critical section.

  There are \<open>n\<close> threads, fewer than the \<^verbatim>\<open>COUNT_MAX\<close> that the two counts of the word can hold.
\<close>

section \<open>State\<close>

abbreviation COUNT_BITS :: nat where "COUNT_BITS \<equiv> 31"

definition COUNT_MAX :: u64 where "COUNT_MAX = push_bit COUNT_BITS 1 - 1"

definition IS_WRITING :: u64 where "IS_WRITING = 1"

definition WRITER :: u64 where "WRITER = push_bit 1 1"

definition READER :: u64 where "READER = push_bit (1 + COUNT_BITS) 1"

definition WRITER_MASK :: u64 where "WRITER_MASK = push_bit 1 COUNT_MAX"

definition READER_MASK :: u64 where "READER_MASK = push_bit (1 + COUNT_BITS) COUNT_MAX"

datatype rw_pc =
    RwIdle
  | WMutex      \<comment> \<open>\<^verbatim>\<open>lock\<close>: announced, about to take the mutex\<close>
  | WSet        \<comment> \<open>\<^verbatim>\<open>lock\<close>: has the mutex, about to set \<^verbatim>\<open>IS_WRITING\<close>\<close>
  | WSem        \<comment> \<open>\<^verbatim>\<open>lock\<close>: waits for the last reader\<close>
  | Writing
  | WMutexUnlock
  | RCas u64    \<comment> \<open>\<^verbatim>\<open>lock_shared\<close>: about to compare and swap the word it saw\<close>
  | RMutex      \<comment> \<open>\<^verbatim>\<open>lock_shared\<close>: about to take the mutex\<close>
  | RAdd        \<comment> \<open>\<^verbatim>\<open>lock_shared\<close>: has the mutex, about to count itself\<close>
  | RMutexUnlock
  | Reading
  | RPost       \<comment> \<open>\<^verbatim>\<open>unlock_shared\<close>: about to wake the writer\<close>

record rwlock =
  rw_state :: u64
  rw_mutex :: "tid option"
  permits :: nat
  rw_pc :: "tid \<Rightarrow> rw_pc"

definition rwlock_new :: rwlock where
  "rwlock_new = \<lparr>rw_state = 0, rw_mutex = None, permits = 0, rw_pc = (\<lambda>_. RwIdle)\<rparr>"

definition sem_wait :: "nat \<Rightarrow> nat option" where
  "sem_wait p = (if p = 0 then None else Some (p - 1))"

definition sem_post :: "nat \<Rightarrow> nat" where
  "sem_post p = p + 1"

abbreviation at_pc :: "rwlock \<Rightarrow> tid \<Rightarrow> rw_pc \<Rightarrow> rwlock" where
  "at_pc s t p \<equiv> s\<lparr>rw_pc := (rw_pc s)(t := p)\<rparr>"

section \<open>Instructions\<close>

text \<open>The condition of the loop of \<^verbatim>\<open>lock_shared\<close> on a word just read\<close>

definition shared_next :: "u64 \<Rightarrow> rw_pc" where
  "shared_next w = (if w AND (IS_WRITING OR WRITER_MASK) = 0 then RCas w else RMutex)"

inductive rw_step :: "nat \<Rightarrow> rwlock \<Rightarrow> unit \<Rightarrow> rwlock \<Rightarrow> bool" for n where
  lock_announce: "t < n \<Longrightarrow> rw_pc s t = RwIdle \<Longrightarrow>
    rw_step n s () (at_pc (s\<lparr>rw_state := rw_state s + WRITER\<rparr>) t WMutex)"
| lock_mutex: "t < n \<Longrightarrow> rw_pc s t = WMutex \<Longrightarrow> rw_mutex s = None \<Longrightarrow>
    rw_step n s () (at_pc (s\<lparr>rw_mutex := Some t\<rparr>) t WSet)"
| lock_set: "t < n \<Longrightarrow> rw_pc s t = WSet \<Longrightarrow>
    rw_step n s () (at_pc (s\<lparr>rw_state := rw_state s + (IS_WRITING - WRITER)\<rparr>) t
      (if rw_state s AND READER_MASK \<noteq> 0 then WSem else Writing))"
| lock_sem: "t < n \<Longrightarrow> rw_pc s t = WSem \<Longrightarrow> sem_wait (permits s) = Some p \<Longrightarrow>
    rw_step n s () (at_pc (s\<lparr>permits := p\<rparr>) t Writing)"
| unlock_clear: "t < n \<Longrightarrow> rw_pc s t = Writing \<Longrightarrow>
    rw_step n s () (at_pc (s\<lparr>rw_state := rw_state s AND NOT IS_WRITING\<rparr>) t WMutexUnlock)"
| unlock_mutex: "t < n \<Longrightarrow> rw_pc s t = WMutexUnlock \<Longrightarrow>
    rw_step n s () (at_pc (s\<lparr>rw_mutex := None\<rparr>) t RwIdle)"
| shared_load: "t < n \<Longrightarrow> rw_pc s t = RwIdle \<Longrightarrow>
    rw_step n s () (at_pc s t (shared_next (rw_state s)))"
| shared_cas: "t < n \<Longrightarrow> rw_pc s t = RCas w \<Longrightarrow> rw_state s = w \<Longrightarrow>
    rw_step n s () (at_pc (s\<lparr>rw_state := w + READER\<rparr>) t Reading)"
| shared_retry: "t < n \<Longrightarrow> rw_pc s t = RCas w \<Longrightarrow>
    rw_step n s () (at_pc s t (shared_next (rw_state s)))"
| shared_mutex: "t < n \<Longrightarrow> rw_pc s t = RMutex \<Longrightarrow> rw_mutex s = None \<Longrightarrow>
    rw_step n s () (at_pc (s\<lparr>rw_mutex := Some t\<rparr>) t RAdd)"
| shared_add: "t < n \<Longrightarrow> rw_pc s t = RAdd \<Longrightarrow>
    rw_step n s () (at_pc (s\<lparr>rw_state := rw_state s + READER\<rparr>) t RMutexUnlock)"
| shared_unlock: "t < n \<Longrightarrow> rw_pc s t = RMutexUnlock \<Longrightarrow>
    rw_step n s () (at_pc (s\<lparr>rw_mutex := None\<rparr>) t Reading)"
| unshare: "t < n \<Longrightarrow> rw_pc s t = Reading \<Longrightarrow>
    rw_step n s () (at_pc (s\<lparr>rw_state := rw_state s - READER\<rparr>) t
      (if rw_state s AND READER_MASK = READER \<and> rw_state s AND IS_WRITING \<noteq> 0 then RPost else RwIdle))"
| unshare_post: "t < n \<Longrightarrow> rw_pc s t = RPost \<Longrightarrow>
    rw_step n s () (at_pc (s\<lparr>permits := sem_post (permits s)\<rparr>) t RwIdle)"

section \<open>The fields of the word\<close>

text \<open>The word for \<open>i\<close> active writers, \<open>w\<close> pending writers and \<open>r\<close> active readers\<close>

definition word_of :: "nat \<Rightarrow> nat \<Rightarrow> nat \<Rightarrow> u64" where
  "word_of i w r = of_nat (i + 2 * w + 2 ^ 32 * r)"

lemma unat_of_nat_small: "m < 2 ^ 64 \<Longrightarrow> unat (of_nat m :: u64) = m"
  by (simp add: unsigned_of_nat take_bit_eq_mod)

lemma unat_word_of:
  assumes "i \<le> 1" "w < 2 ^ 31" "r < 2 ^ 31"
  shows "unat (word_of i w r) = i + 2 * w + 2 ^ 32 * r"
  unfolding word_of_def by (rule unat_of_nat_small) (use assms in simp)

lemma constants:
  "IS_WRITING OR WRITER_MASK = mask 32" "READER_MASK = push_bit 32 (mask 31)" "IS_WRITING = mask 1"
  "READER = push_bit 32 1" "IS_WRITING = word_of 1 0 0" "WRITER = word_of 0 1 0" "READER = word_of 0 0 1"
  by (simp_all add: IS_WRITING_def WRITER_MASK_def READER_MASK_def READER_def WRITER_def COUNT_MAX_def word_of_def
      mask_eq_exp_minus_1 push_bit_eq_mult)

lemma word_of_low:
  assumes "i \<le> 1" "w < 2 ^ 31" "r < 2 ^ 31"
  shows "word_of i w r AND (IS_WRITING OR WRITER_MASK) = 0 \<longleftrightarrow> i = 0 \<and> w = 0"
    and "word_of i w r AND IS_WRITING \<noteq> 0 \<longleftrightarrow> i = 1"
    and "word_of i w r AND NOT IS_WRITING = word_of 0 w r"
proof -
  have take: "unat (word_of i w r AND mask k) = (i + 2 * w + 2 ^ 32 * r) mod 2 ^ k" for k
    unfolding take_bit_eq_mask [symmetric] unsigned_take_bit_eq unat_word_of [OF assms] by (rule take_bit_eq_mod)
  have zero: "x = 0 \<longleftrightarrow> unat x = 0" for x :: u64 by (simp add: unat_eq_zero)
  have "(i + 2 * w + 2 ^ 32 * r) mod 2 ^ 32 = i + 2 * w" using assms by simp
  then show "word_of i w r AND (IS_WRITING OR WRITER_MASK) = 0 \<longleftrightarrow> i = 0 \<and> w = 0"
    unfolding constants(1) zero take by simp
  have "i + 2 * w + 2 ^ 32 * r = i + 2 * (w + 2 ^ 31 * r)" by simp
  then have m: "(i + 2 * w + 2 ^ 32 * r) mod 2 ^ 1 = i" using assms(1) by (simp only: power_one_right mod_mult_self2) simp
  then show "word_of i w r AND IS_WRITING \<noteq> 0 \<longleftrightarrow> i = 1"
    unfolding constants(3) zero take using assms(1) by auto
  let ?b = "word_of i w r AND IS_WRITING"
  have "unat ?b = unat (word_of i 0 0)"
    unfolding constants(3) take m using unat_word_of [of i 0 0] assms(1) by simp
  then have b: "?b = word_of i 0 0" by (simp add: word_unat_eq_iff)
  have "word_of i w r AND NOT IS_WRITING = word_of i w r AND NOT ?b"
    by (rule bit_word_eqI) (auto simp: bit_simps)
  also have "\<dots> = word_of i w r - ?b"
    by (rule disjunctive_diff_eq_and_not [symmetric]) (rule bit_word_eqI, simp add: bit_simps)
  also have "\<dots> = word_of 0 w r" unfolding b by (simp add: word_of_def)
  finally show "word_of i w r AND NOT IS_WRITING = word_of 0 w r" .
qed

lemma word_of_readers:
  assumes "i \<le> 1" "w < 2 ^ 31" "r < 2 ^ 31"
  shows "word_of i w r AND READER_MASK = word_of 0 0 r"
proof -
  have "word_of i w r AND READER_MASK = push_bit 32 (take_bit 31 (drop_bit 32 (word_of i w r)))"
    unfolding constants(2) by (rule bit_word_eqI) (auto simp: bit_simps)
  moreover have "drop_bit 32 (word_of i w r) = of_nat r"
  proof -
    have "unat (drop_bit 32 (word_of i w r)) = r"
      unfolding unat_drop_bit_eq unat_word_of [OF assms] using assms by (simp add: drop_bit_eq_div)
    moreover have "unat (of_nat r :: u64) = r" by (rule unat_of_nat_small) (use assms(3) in simp)
    ultimately show ?thesis by (simp add: word_unat_eq_iff)
  qed
  moreover have "take_bit 31 (of_nat r :: u64) = of_nat r"
    using assms(3) by (simp add: take_bit_of_nat take_bit_nat_eq_self)
  ultimately show ?thesis by (simp add: word_of_def push_bit_eq_mult mult.commute)
qed

lemma word_of_add:
  "word_of i w r + word_of i' w' r' = word_of (i + i') (w + w') (r + r')"
  by (simp add: word_of_def algebra_simps)

lemma word_of_reader_eq:
  assumes "r < 2 ^ 31" "r' < 2 ^ 31"
  shows "word_of 0 0 r = word_of 0 0 r' \<longleftrightarrow> r = r'"
  using unat_word_of [of 0 0 r] unat_word_of [of 0 0 r'] assms by (auto simp: word_unat_eq_iff)

section \<open>Counting threads\<close>

definition cnt :: "nat \<Rightarrow> ('a \<Rightarrow> bool) \<Rightarrow> (nat \<Rightarrow> 'a) \<Rightarrow> nat" where
  "cnt n P f = (\<Sum>u<n. if P (f u) then 1 else 0)"

lemma cnt_split: "t < n \<Longrightarrow> cnt n P f = (if P (f t) then 1 else 0) + (\<Sum>u \<in> {..<n} - {t}. if P (f u) then 1 else 0)"
  unfolding cnt_def by (rule sum.remove) auto

lemma cnt_upd:
  assumes "t < n"
  shows "cnt n P (f(t := p)) = cnt n P f - (if P (f t) then 1 else 0) + (if P p then 1 else 0)"
proof -
  have "(\<Sum>u \<in> {..<n} - {t}. if P ((f(t := p)) u) then 1 else 0) = (\<Sum>u \<in> {..<n} - {t}. if P (f u) then 1 else (0::nat))"
    by (rule sum.cong) auto
  then show ?thesis using cnt_split [OF assms, of P f] cnt_split [OF assms, of P "f(t := p)"] by simp
qed

lemma cnt_0: "cnt n P f = 0 \<longleftrightarrow> (\<forall>u < n. \<not> P (f u))"
  unfolding cnt_def by (auto split: if_splits)

lemma cnt_le: "cnt n P f \<le> n"
proof -
  have "cnt n P f \<le> (\<Sum>u<n. 1)" unfolding cnt_def by (rule sum_mono) auto
  then show ?thesis by simp
qed

section \<open>Invariant\<close>

definition holds_mutex :: "rw_pc \<Rightarrow> bool" where
  "holds_mutex p \<longleftrightarrow> p \<in> {WSet, WSem, Writing, WMutexUnlock, RAdd, RMutexUnlock}"

definition active_writer :: "rw_pc \<Rightarrow> bool" where
  "active_writer p \<longleftrightarrow> p \<in> {WSem, Writing}"

definition pending_writer :: "rw_pc \<Rightarrow> bool" where
  "pending_writer p \<longleftrightarrow> p \<in> {WMutex, WSet}"

definition active_reader :: "rw_pc \<Rightarrow> bool" where
  "active_reader p \<longleftrightarrow> p \<in> {RMutexUnlock, Reading}"

abbreviation posting :: "rw_pc \<Rightarrow> bool" where "posting p \<equiv> p = RPost"

abbreviation writers :: "nat \<Rightarrow> rwlock \<Rightarrow> nat" where "writers n s \<equiv> cnt n active_writer (rw_pc s)"
abbreviation pending :: "nat \<Rightarrow> rwlock \<Rightarrow> nat" where "pending n s \<equiv> cnt n pending_writer (rw_pc s)"
abbreviation readers :: "nat \<Rightarrow> rwlock \<Rightarrow> nat" where "readers n s \<equiv> cnt n active_reader (rw_pc s)"
abbreviation posts :: "nat \<Rightarrow> rwlock \<Rightarrow> nat" where "posts n s \<equiv> cnt n posting (rw_pc s)"
abbreviation waiting :: "nat \<Rightarrow> rwlock \<Rightarrow> nat" where "waiting n s \<equiv> cnt n (\<lambda>p. p = WSem) (rw_pc s)"

definition rw_inv :: "nat \<Rightarrow> rwlock \<Rightarrow> bool" where
  "rw_inv n s \<longleftrightarrow>
     rw_state s = word_of (writers n s) (pending n s) (readers n s)
     \<and> (\<forall>t. rw_mutex s = Some t \<longleftrightarrow> t < n \<and> holds_mutex (rw_pc s t))
     \<and> permits s + posts n s = (if waiting n s = 1 \<and> readers n s = 0 then 1 else 0)
     \<and> (\<forall>t < n. rw_pc s t = Writing \<longrightarrow> readers n s = 0)
     \<and> (\<forall>t < n. \<forall>w. rw_pc s t = RCas w \<longrightarrow> w AND (IS_WRITING OR WRITER_MASK) = 0)"

lemmas pc_simps = holds_mutex_def active_writer_def pending_writer_def active_reader_def

lemma pc_eval [simp]:
  "\<not> holds_mutex RwIdle" "\<not> holds_mutex WMutex" "holds_mutex WSet" "holds_mutex WSem"
  "holds_mutex Writing" "holds_mutex WMutexUnlock" "\<not> holds_mutex (RCas v)" "\<not> holds_mutex RMutex"
  "holds_mutex RAdd" "holds_mutex RMutexUnlock" "\<not> holds_mutex Reading" "\<not> holds_mutex RPost"
  "\<not> active_writer RwIdle" "\<not> active_writer WMutex" "\<not> active_writer WSet" "active_writer WSem"
  "active_writer Writing" "\<not> active_writer WMutexUnlock" "\<not> active_writer (RCas v)" "\<not> active_writer RMutex"
  "\<not> active_writer RAdd" "\<not> active_writer RMutexUnlock" "\<not> active_writer Reading" "\<not> active_writer RPost"
  "\<not> pending_writer RwIdle" "pending_writer WMutex" "pending_writer WSet" "\<not> pending_writer WSem"
  "\<not> pending_writer Writing" "\<not> pending_writer WMutexUnlock" "\<not> pending_writer (RCas v)" "\<not> pending_writer RMutex"
  "\<not> pending_writer RAdd" "\<not> pending_writer RMutexUnlock" "\<not> pending_writer Reading" "\<not> pending_writer RPost"
  "\<not> active_reader RwIdle" "\<not> active_reader WMutex" "\<not> active_reader WSet" "\<not> active_reader WSem"
  "\<not> active_reader Writing" "\<not> active_reader WMutexUnlock" "\<not> active_reader (RCas v)" "\<not> active_reader RMutex"
  "\<not> active_reader RAdd" "active_reader RMutexUnlock" "active_reader Reading" "\<not> active_reader RPost"
  by (simp_all add: pc_simps)

lemma rw_inv_new: "rw_inv n rwlock_new"
  by (simp add: rw_inv_def rwlock_new_def cnt_def pc_simps word_of_def)

text \<open>A thread with the mutex is the only one with it.\<close>

lemma rw_inv_counts:
  assumes "rw_inv n s"
  shows "writers n s \<le> 1" "waiting n s \<le> writers n s"
    "t < n \<Longrightarrow> holds_mutex (rw_pc s t) \<Longrightarrow>
       writers n s = (if active_writer (rw_pc s t) then 1 else 0)
       \<and> waiting n s = (if rw_pc s t = WSem then 1 else 0)"
    "rw_mutex s = None \<Longrightarrow> writers n s = 0"
proof -
  have unique: "u = t" if "u < n" "t < n" "holds_mutex (rw_pc s u)" "holds_mutex (rw_pc s t)" for u t
  proof -
    have "rw_mutex s = Some u" "rw_mutex s = Some t" using assms that unfolding rw_inv_def by blast+
    then show ?thesis by simp
  qed
  have one: "writers n s = (if active_writer (rw_pc s t) then 1 else 0)
      \<and> waiting n s = (if rw_pc s t = WSem then 1 else 0)" if t: "t < n" "holds_mutex (rw_pc s t)" for t
  proof -
    have no: "\<not> active_writer (rw_pc s u) \<and> rw_pc s u \<noteq> WSem" if "u \<in> {..<n} - {t}" for u
      using unique [of u t] that t by (auto simp: pc_simps)
    have "(\<Sum>u \<in> {..<n} - {t}. if active_writer (rw_pc s u) then 1 else (0::nat)) = 0"
      "(\<Sum>u \<in> {..<n} - {t}. if rw_pc s u = WSem then 1 else (0::nat)) = 0"
      using no by (auto intro!: sum.neutral)
    then show ?thesis
      using cnt_split [OF t(1), of active_writer "rw_pc s"] cnt_split [OF t(1), of "\<lambda>p. p = WSem" "rw_pc s"]
      by simp
  qed
  then show "t < n \<Longrightarrow> holds_mutex (rw_pc s t) \<Longrightarrow>
       writers n s = (if active_writer (rw_pc s t) then 1 else 0)
       \<and> waiting n s = (if rw_pc s t = WSem then 1 else 0)" by blast
  show none: "writers n s = 0" if "rw_mutex s = None"
    using assms that unfolding rw_inv_def cnt_0 by (auto simp: pc_simps)
  have "waiting n s \<le> writers n s" unfolding cnt_def by (rule sum_mono) (auto simp: pc_simps)
  then show "waiting n s \<le> writers n s" .
  show "writers n s \<le> 1"
  proof (cases "rw_mutex s")
    case None
    then show ?thesis using none by simp
  next
    case (Some t)
    then have "t < n" "holds_mutex (rw_pc s t)" using assms unfolding rw_inv_def by blast+
    then show ?thesis using one by simp
  qed
qed

text \<open>
  The invariant after a step of thread \<open>t\<close>, from the old counts: \<open>w\<close>, \<open>m\<close>, \<open>p\<close> and \<open>q\<close> are the new word,
  mutex, permits and place.
\<close>

lemma rw_inv_step:
  assumes inv: "rw_inv n s" and t: "t < n"
    and w: "w = word_of
      (writers n s - (if active_writer (rw_pc s t) then 1 else 0) + (if active_writer q then 1 else 0))
      (pending n s - (if pending_writer (rw_pc s t) then 1 else 0) + (if pending_writer q then 1 else 0))
      (readers n s - (if active_reader (rw_pc s t) then 1 else 0) + (if active_reader q then 1 else 0))"
    and m: "if holds_mutex q then (if holds_mutex (rw_pc s t) then m = rw_mutex s else rw_mutex s = None \<and> m = Some t)
      else (if holds_mutex (rw_pc s t) then m = None else m = rw_mutex s)"
    and p: "p + (posts n s - (if rw_pc s t = RPost then 1 else 0) + (if q = RPost then 1 else 0)) =
      (if waiting n s - (if rw_pc s t = WSem then 1 else 0) + (if q = WSem then 1 else 0) = 1
         \<and> readers n s - (if active_reader (rw_pc s t) then 1 else 0) + (if active_reader q then 1 else 0) = 0
       then 1 else 0)"
    and wr: "(if active_reader q \<and> \<not> active_reader (rw_pc s t) then writers n s = 0
      else q = Writing \<longrightarrow> readers n s = 0)"
    and cas: "\<And>v. q = RCas v \<Longrightarrow> v AND (IS_WRITING OR WRITER_MASK) = 0"
  shows "rw_inv n (s\<lparr>rw_state := w, rw_mutex := m, permits := p, rw_pc := (rw_pc s)(t := q)\<rparr>)" (is "rw_inv n ?s")
proof -
  have upd: "cnt n P (rw_pc ?s) = cnt n P (rw_pc s) - (if P (rw_pc s t) then 1 else 0) + (if P q then 1 else 0)" for P
    using cnt_upd [OF t, of P "rw_pc s" q] by simp
  have mx: "rw_mutex s = Some u \<longleftrightarrow> u < n \<and> holds_mutex (rw_pc s u)" for u using inv unfolding rw_inv_def by blast
  show ?thesis
    unfolding rw_inv_def upd
  proof (intro conjI allI impI)
    show "rw_state ?s = word_of
      (writers n s - (if active_writer (rw_pc s t) then 1 else 0) + (if active_writer q then 1 else 0))
      (pending n s - (if pending_writer (rw_pc s t) then 1 else 0) + (if pending_writer q then 1 else 0))
      (readers n s - (if active_reader (rw_pc s t) then 1 else 0) + (if active_reader q then 1 else 0))"
      using w by simp
    show "rw_mutex ?s = Some u \<longleftrightarrow> u < n \<and> holds_mutex (rw_pc ?s u)" for u
    proof (cases "u = t")
      case True
      then show ?thesis using m mx [of t] t by (auto split: if_splits)
    next
      case False
      then show ?thesis using m mx [of t] mx [of u] t by (auto split: if_splits)
    qed
    show "permits ?s + (posts n s - (if rw_pc s t = RPost then 1 else 0) + (if q = RPost then 1 else 0)) =
      (if waiting n s - (if rw_pc s t = WSem then 1 else 0) + (if q = WSem then 1 else 0) = 1
         \<and> readers n s - (if active_reader (rw_pc s t) then 1 else 0) + (if active_reader q then 1 else 0) = 0
       then 1 else 0)" using p by simp
    fix u assume u: "u < n"
    show "v AND (IS_WRITING OR WRITER_MASK) = 0" if "rw_pc ?s u = RCas v" for v
    proof (cases "u = t")
      case True
      then show ?thesis using that cas by simp
    next
      case False
      then show ?thesis using that inv u unfolding rw_inv_def by auto
    qed
    assume wu: "rw_pc ?s u = Writing"
    show "readers n s - (if active_reader (rw_pc s t) then 1 else 0) + (if active_reader q then 1 else 0) = 0"
    proof (cases "u = t")
      case True
      then have "q = Writing" using wu by simp
      then show ?thesis using wr by (simp add: active_reader_def)
    next
      case False
      then have pu: "rw_pc s u = Writing" using wu by simp
      then have "readers n s = 0" using inv u unfolding rw_inv_def by blast
      moreover have "writers n s \<noteq> 0" using pu u by (auto simp: cnt_0 active_writer_def)
      moreover have "\<not> active_reader (rw_pc s t)" using \<open>readers n s = 0\<close> t by (auto simp: cnt_0)
      ultimately show ?thesis using wr by (auto split: if_splits)
    qed
  qed
qed

lemma cnt_pos: "t < n \<Longrightarrow> P (f t) \<Longrightarrow> 0 < cnt n P f"
  using cnt_0 [of n P f] by (metis gr0I)

text \<open>What a thread reads from the word\<close>

lemma rw_inv_word:
  assumes "rw_inv n s" "n < 2 ^ 31"
  shows "rw_state s = word_of (writers n s) (pending n s) (readers n s)"
    and "rw_state s AND READER_MASK = 0 \<longleftrightarrow> readers n s = 0"
    and "rw_state s AND READER_MASK = READER \<longleftrightarrow> readers n s = 1"
    and "rw_state s AND IS_WRITING \<noteq> 0 \<longleftrightarrow> writers n s = 1"
    and "rw_state s AND (IS_WRITING OR WRITER_MASK) = 0 \<longleftrightarrow> writers n s = 0 \<and> pending n s = 0"
    and "rw_state s AND NOT IS_WRITING = word_of 0 (pending n s) (readers n s)"
proof -
  show w: "rw_state s = word_of (writers n s) (pending n s) (readers n s)" using assms(1) by (simp add: rw_inv_def)
  have b: "writers n s \<le> 1" "pending n s < 2 ^ 31" "readers n s < 2 ^ 31"
    using rw_inv_counts(1) [OF assms(1)] cnt_le [of n pending_writer "rw_pc s"] cnt_le [of n active_reader "rw_pc s"]
      assms(2) by auto
  have "(0::u64) = word_of 0 0 0" by (simp add: word_of_def)
  then show "rw_state s AND READER_MASK = 0 \<longleftrightarrow> readers n s = 0"
    unfolding w word_of_readers [OF b] using word_of_reader_eq [OF b(3), of 0] by simp
  show "rw_state s AND READER_MASK = READER \<longleftrightarrow> readers n s = 1"
    unfolding w word_of_readers [OF b] constants(7) using word_of_reader_eq [OF b(3), of 1] by simp
  show "rw_state s AND IS_WRITING \<noteq> 0 \<longleftrightarrow> writers n s = 1"
    "rw_state s AND (IS_WRITING OR WRITER_MASK) = 0 \<longleftrightarrow> writers n s = 0 \<and> pending n s = 0"
    "rw_state s AND NOT IS_WRITING = word_of 0 (pending n s) (readers n s)"
    unfolding w by (rule word_of_low [OF b])+
qed

lemma rw_step_inv:
  assumes "rw_inv n s" "n < 2 ^ 31" "rw_step n s e s'"
  shows "rw_inv n s'"
proof -
  note W = rw_inv_word [OF assms(1,2)]
  note C = rw_inv_counts [OF assms(1)]
  have sem: "permits s + posts n s = (if waiting n s = 1 \<and> readers n s = 0 then 1 else 0)"
    using assms(1) by (simp add: rw_inv_def)
  have next_inv: "rw_inv n (at_pc s t (shared_next (rw_state s)))"
    if t: "t < n" "\<not> holds_mutex (rw_pc s t)" "\<not> pending_writer (rw_pc s t)" "\<not> active_reader (rw_pc s t)"
      "rw_pc s t \<noteq> RPost" for t
  proof -
    have "\<not> active_writer (rw_pc s t)" "rw_pc s t \<noteq> WSem" "rw_pc s t \<noteq> Writing"
      using t(2) by (auto simp: pc_simps)
    note t = t this
    show ?thesis
    proof (cases "rw_state s AND (IS_WRITING OR WRITER_MASK) = 0")
      case True
      then show ?thesis
        using rw_inv_step [OF assms(1) t(1), of "rw_state s" "RCas (rw_state s)" "rw_mutex s" "permits s"]
          t(2-) sem W(1) [symmetric] by (simp add: shared_next_def)
    next
      case False
      then show ?thesis
        using rw_inv_step [OF assms(1) t(1), of "rw_state s" RMutex "rw_mutex s" "permits s"]
          t(2-) sem W(1) [symmetric] by (simp add: shared_next_def)
    qed
  qed
  show ?thesis
    using assms(3)
  proof cases
    case (lock_announce t)
    have "rw_state s + WRITER = word_of (writers n s) (pending n s + 1) (readers n s)"
      unfolding W(1) constants(6) word_of_add by simp
    then show ?thesis
      using rw_inv_step [OF assms(1) lock_announce(3), of "rw_state s + WRITER" WMutex "rw_mutex s" "permits s"]
        lock_announce sem by simp
  next
    case (lock_mutex t)
    then show ?thesis
      using rw_inv_step [OF assms(1) lock_mutex(3), of "rw_state s" WSet "Some t" "permits s"] sem W(1) [symmetric]
        cnt_pos [OF lock_mutex(3), of pending_writer "rw_pc s"] by simp
  next
    case (lock_set t)
    have c: "writers n s = 0" "waiting n s = 0" using C(3) [OF lock_set(3)] lock_set by simp_all
    have pos: "0 < pending n s" using cnt_pos [OF lock_set(3), of pending_writer "rw_pc s"] lock_set by simp
    have "rw_state s + (IS_WRITING - WRITER) = word_of 1 (pending n s - 1) (readers n s)"
    proof -
      have "word_of 1 (pending n s - 1) (readers n s) + WRITER = rw_state s + IS_WRITING"
        unfolding W(1) constants(5,6) word_of_add using pos c by simp
      then show ?thesis by (simp add: algebra_simps)
    qed
    moreover have z: "permits s = 0" "posts n s = 0" using sem c by simp_all
    ultimately have "rw_inv n (s\<lparr>rw_state := rw_state s + (IS_WRITING - WRITER), rw_mutex := rw_mutex s, permits := permits s,
        rw_pc := (rw_pc s)(t := if readers n s = 0 then Writing else WSem)\<rparr>)"
      using lock_set(4) c by (intro rw_inv_step [OF assms(1) lock_set(3)]) (simp_all split: if_splits)
    then show ?thesis using lock_set(2) W(2) by (cases "readers n s = 0") simp_all
  next
    case (lock_sem t p)
    have c: "writers n s = 1" "waiting n s = 1" using C(3) [OF lock_sem(3)] lock_sem by simp_all
    have "readers n s = 0" "permits s = 1" "posts n s = 0" "p = 0"
      using sem c lock_sem(5) by (auto simp: sem_wait_def split: if_splits)
    then show ?thesis
      using rw_inv_step [OF assms(1) lock_sem(3), of "rw_state s" Writing "rw_mutex s" p] lock_sem W(1) [symmetric] c
      by simp
  next
    case (unlock_clear t)
    have c: "writers n s = 1" "waiting n s = 0" using C(3) [OF unlock_clear(3)] unlock_clear by simp_all
    then show ?thesis
      using rw_inv_step [OF assms(1) unlock_clear(3), of "rw_state s AND NOT IS_WRITING" WMutexUnlock "rw_mutex s" "permits s"]
        unlock_clear sem W(6) by simp
  next
    case (unlock_mutex t)
    then show ?thesis
      using rw_inv_step [OF assms(1) unlock_mutex(3), of "rw_state s" RwIdle None "permits s"] sem W(1) [symmetric]
      by simp
  next
    case (shared_load t)
    show ?thesis
      unfolding shared_load(2) by (rule next_inv) (use shared_load in simp_all)
  next
    case (shared_retry t w)
    show ?thesis
      unfolding shared_retry(2) by (rule next_inv) (use shared_retry in simp_all)
  next
    case (shared_cas t w)
    have "w AND (IS_WRITING OR WRITER_MASK) = 0" using assms(1) shared_cas unfolding rw_inv_def by blast
    then have c: "writers n s = 0" "waiting n s = 0" using W(5) C(2) shared_cas(5) by auto
    have "w + READER = word_of (writers n s) (pending n s) (readers n s + 1)"
      unfolding shared_cas(5) [symmetric] W(1) constants(7) word_of_add by simp
    then show ?thesis
      using rw_inv_step [OF assms(1) shared_cas(3), of "w + READER" Reading "rw_mutex s" "permits s"] shared_cas sem c
      by simp
  next
    case (shared_mutex t)
    then show ?thesis
      using rw_inv_step [OF assms(1) shared_mutex(3), of "rw_state s" RAdd "Some t" "permits s"] sem W(1) [symmetric]
      by simp
  next
    case (shared_add t)
    have c: "writers n s = 0" "waiting n s = 0" using C(3) [OF shared_add(3)] shared_add by simp_all
    have "rw_state s + READER = word_of (writers n s) (pending n s) (readers n s + 1)"
      unfolding W(1) constants(7) word_of_add by simp
    then show ?thesis
      using rw_inv_step [OF assms(1) shared_add(3), of "rw_state s + READER" RMutexUnlock "rw_mutex s" "permits s"]
        shared_add sem c by simp
  next
    case (shared_unlock t)
    then show ?thesis
      using rw_inv_step [OF assms(1) shared_unlock(3), of "rw_state s" Reading None "permits s"] sem W(1) [symmetric]
        cnt_pos [OF shared_unlock(3), of active_reader "rw_pc s"] by simp
  next
    case (unshare t)
    have pos: "0 < readers n s" using cnt_pos [OF unshare(3), of active_reader "rw_pc s"] unshare by simp
    have "word_of (writers n s) (pending n s) (readers n s - 1) + READER = rw_state s"
      unfolding W(1) constants(7) word_of_add using pos by simp
    then have w: "rw_state s - READER = word_of (writers n s) (pending n s) (readers n s - 1)"
      by (simp add: algebra_simps)
    have wait: "waiting n s = writers n s"
    proof -
      have "rw_pc s u \<noteq> Writing" if "u < n" for u using that pos assms(1) unfolding rw_inv_def by fastforce
      then show ?thesis unfolding cnt_def by (intro sum.cong) (auto simp: active_writer_def)
    qed
    have z: "permits s = 0" "posts n s = 0" using sem pos by simp_all
    have "rw_inv n (s\<lparr>rw_state := rw_state s - READER, rw_mutex := rw_mutex s, permits := permits s,
        rw_pc := (rw_pc s)(t := if readers n s = 1 \<and> writers n s = 1 then RPost else RwIdle)\<rparr>)"
      using unshare(4) w z wait C(1) pos by (intro rw_inv_step [OF assms(1) unshare(3)]) (auto split: if_splits)
    then show ?thesis using unshare(2) W(3,4) by (cases "readers n s = 1 \<and> writers n s = 1") simp_all
  next
    case (unshare_post t)
    have pos: "0 < posts n s" using cnt_pos [OF unshare_post(3), of posting "rw_pc s"] unshare_post by simp
    then have "waiting n s = 1" "readers n s = 0" "permits s = 0" "posts n s = 1" using sem by (auto split: if_splits)
    then show ?thesis
      using rw_inv_step [OF assms(1) unshare_post(3), of "rw_state s" RwIdle "rw_mutex s" "sem_post (permits s)"]
        unshare_post W(1) [symmetric] by (simp add: sem_post_def)
  qed
qed

section \<open>What the lock guarantees\<close>

text \<open>The thread counts for which the word has room are those below \<^verbatim>\<open>2 ^ COUNT_BITS\<close>.\<close>

interpretation rw: invariant_system "rw_step (n mod 2 ^ 31)" rwlock_new "rw_inv (n mod 2 ^ 31)" for n
  by unfold_locales (auto intro: rw_inv_new rw_step_inv)

lemma rw_run_inv: "n < 2 ^ 31 \<Longrightarrow> run (rw_step n) rwlock_new es s \<Longrightarrow> rw_inv n s"
  using rw.run_inv [of n es s] by simp

text \<open>
  C7. One writer or many readers: in every run of fewer than \<^verbatim>\<open>2 ^ 31\<close> threads, while a thread writes no
  other thread writes and none reads, and the word is exactly the writer bit, the number of pending
  writers and the number of active readers, with no carry between the fields.
\<close>

theorem rwlock_exclusion:
  assumes "n < 2 ^ 31" "run (rw_step n) rwlock_new es s" "t < n" "rw_pc s t = Writing"
  shows "list_all (\<lambda>u. u = t \<or> rw_pc s u \<notin> {Writing, Reading}) [0..<n]
    \<and> rw_state s = word_of 1 (pending n s) 0"
proof -
  have inv: "rw_inv n s" by (rule rw_run_inv [OF assms(1,2)])
  have h: "holds_mutex (rw_pc s t)" using assms(4) by (simp add: pc_simps)
  have r: "readers n s = 0" using inv assms(3,4) unfolding rw_inv_def by blast
  have mx: "rw_mutex s = Some u \<longleftrightarrow> u < n \<and> holds_mutex (rw_pc s u)" for u using inv unfolding rw_inv_def by blast
  have "u = t" if "u < n" "rw_pc s u = Writing" for u
    using mx [of u] mx [of t] that h assms(3) by (simp add: pc_simps)
  moreover have "rw_pc s u \<noteq> Reading" if "u < n" for u
    using r that by (auto simp: cnt_0 active_reader_def)
  moreover have "writers n s = 1" using rw_inv_counts(3) [OF inv assms(3) h] assms(4) by (simp add: pc_simps)
  ultimately show ?thesis using rw_inv_word(1) [OF inv assms(1)] r by (auto simp: list_all_iff)
qed

text \<open>
  C36. The writer that waits for the readers is woken: as soon as no reader is active, its permit is there
  or the last reader is about to post it; and no permit is left over for a later writer, who would
  otherwise enter beside active readers.
\<close>

theorem rwlock_wakes_writer:
  assumes "n < 2 ^ 31" "run (rw_step n) rwlock_new es s"
  shows "permits s + posts n s = (if waiting n s = 1 \<and> readers n s = 0 then 1 else 0)"
  using rw_run_inv [OF assms] by (simp add: rw_inv_def)

text \<open>The run of the witnesses: thread 0 of two takes the lock for writing.\<close>

lemma run_writer:
  "run (rw_step 2) rwlock_new [(), (), ()]
     \<lparr>rw_state = WRITER + (IS_WRITING - WRITER), rw_mutex = Some 0, permits = 0, rw_pc = (\<lambda>_. RwIdle)(0 := Writing)\<rparr>"
proof -
  let ?s = "\<lambda>w m p. \<lparr>rw_state = w, rw_mutex = m, permits = 0, rw_pc = (\<lambda>_. RwIdle)(0 := p)\<rparr>"
  have 1: "run (rw_step 2) rwlock_new [()] (?s WRITER None WMutex)"
    using run_single [of "rw_step 2", OF rw_step.lock_announce [of 0 2 rwlock_new]] by (simp add: rwlock_new_def)
  have 2: "rw_step 2 (?s WRITER None WMutex) () (?s WRITER (Some 0) WSet)"
    using rw_step.lock_mutex [of 0 2 "?s WRITER None WMutex"] by simp
  have "WRITER AND READER_MASK = 0"
    by (simp add: WRITER_def READER_MASK_def COUNT_MAX_def push_bit_eq_mult)
  then have 3: "rw_step 2 (?s WRITER (Some 0) WSet) () (?s (WRITER + (IS_WRITING - WRITER)) (Some 0) Writing)"
    using rw_step.lock_set [of 0 2 "?s WRITER (Some 0) WSet"] by simp
  show ?thesis using run_snoc [OF run_snoc [OF 1 2] 3] by simp
qed

theorem rwlock_exclusion_witness:
  "\<exists>s. run (rw_step 2) rwlock_new [(), (), ()] s \<and> rw_pc s 0 = Writing \<and> rw_pc s 1 \<noteq> Reading"
proof -
  have "(0::nat) < 2" "(2::nat) < 2 ^ 31" by simp_all
  from rwlock_exclusion [OF this(2) run_writer this(1)] run_writer show ?thesis
    by (intro exI conjI) (auto simp: list_all_iff)
qed

theorem rwlock_wakes_writer_witness:
  "\<exists>s. run (rw_step 2) rwlock_new [(), (), ()] s \<and> permits s = 0"
proof -
  have "(2::nat) < 2 ^ 31" by simp
  from rwlock_wakes_writer [OF this run_writer] run_writer show ?thesis by (intro exI conjI) auto
qed

end
