(* ===== verification/LinearFifo.thy ===== *)
theory LinearFifo
  imports Bun_Prelude
begin

text \<open>
  \<^verbatim>\<open>src/collections/linear_fifo.rs\<close>: the ring buffer behind the event loop's task queues and the byte
  pipes. The state is the backing buffer, the position of the oldest item and the number of items. A
  static buffer has a fixed size; a dynamic one grows to the next power of two.

  An operation maps the state to a result and a new state. A result is a value or an error:
  \<^verbatim>\<open>AllocError\<close>, or \<open>Panic\<close> for a failed \<^verbatim>\<open>debug_assert!\<close>, an arithmetic overflow or a division by zero.
  The bytes a debug build poisons lie outside the readable items and are left alone. Fresh memory
  holds an unspecified item, the parameter \<open>u\<close>.
\<close>

unbundle bit_operations_syntax

section \<open>State\<close>

datatype fifo_error = AllocError | Panic

record 'a fifo =
  f_buf :: "'a list"
  f_head :: nat
  f_count :: nat
  f_dynamic :: bool

type_synonym ('a, 'r) fifo_op = "'a fifo \<Rightarrow> (fifo_error + 'r) \<times> 'a fifo"

abbreviation f_len :: "'a fifo \<Rightarrow> nat" where
  "f_len f \<equiv> length (f_buf f)"

text \<open>\<^verbatim>\<open>usize::is_power_of_two\<close>, \<^verbatim>\<open>usize::checked_next_power_of_two\<close> and \<^verbatim>\<open>wrapping_sub(1)\<close>\<close>

function is_power_of_two :: "nat \<Rightarrow> bool" where
  "is_power_of_two n = (if n \<le> 1 then n = 1 else even n \<and> is_power_of_two (n div 2))"
  by pat_completeness auto
termination
  by (relation "measure id") auto

declare is_power_of_two.simps [simp del]

function next_power_of_two :: "nat \<Rightarrow> nat" where
  "next_power_of_two n = (if n \<le> 1 then 1 else 2 * next_power_of_two (n - n div 2))"
  by pat_completeness auto
termination
  by (relation "measure id") auto

declare next_power_of_two.simps [simp del]

definition checked_next_power_of_two :: "nat \<Rightarrow> nat option" where
  "checked_next_power_of_two n =
     (let p = next_power_of_two n in if p < 2 ^ 64 then Some p else None)"

definition wrapping_dec :: "nat \<Rightarrow> nat" where
  "wrapping_dec n = (if n = 0 then 2 ^ 64 - 1 else n - 1)"

definition POWERS_OF_TWO :: "'a fifo \<Rightarrow> bool" where
  "POWERS_OF_TWO f \<longleftrightarrow> f_dynamic f \<or> is_power_of_two (f_len f)"

definition init_static :: "'a list \<Rightarrow> 'a fifo" where
  "init_static uninit = \<lparr>f_buf = uninit, f_head = 0, f_count = 0, f_dynamic = False\<rparr>"

definition init_dynamic :: "'a fifo" where
  "init_dynamic = \<lparr>f_buf = [], f_head = 0, f_count = 0, f_dynamic = True\<rparr>"

section \<open>Operations\<close>

definition fifo_capacity :: "'a fifo \<Rightarrow> nat" where
  "fifo_capacity f = f_len f"

definition readable_length :: "'a fifo \<Rightarrow> nat" where
  "readable_length f = f_count f"

definition writable_length :: "'a fifo \<Rightarrow> nat" where
  "writable_length f = f_len f - f_count f"

definition reset_head_if_empty :: "'a fifo \<Rightarrow> 'a fifo" where
  "reset_head_if_empty f = (if f_count f = 0 then f\<lparr>f_head := 0\<rparr> else f)"

definition realign :: "'a fifo \<Rightarrow> 'a fifo" where
  "realign f =
     (if f_len f - f_head f \<ge> f_count f
      then f\<lparr>f_buf := copy_into (f_buf f) 0 (subslice (f_buf f) (f_head f) (f_head f + f_count f)),
             f_head := 0\<rparr>
      else f\<lparr>f_buf := rotate (f_head f) (f_buf f), f_head := 0\<rparr>)"

definition ensure_total_capacity :: "'a \<Rightarrow> nat \<Rightarrow> ('a, unit) fifo_op" where
  "ensure_total_capacity u sz f =
     (if f_len f \<ge> sz then (Inr (), f)
      else if f_dynamic f then
        let f = realign f in
        (case (if POWERS_OF_TWO f then checked_next_power_of_two sz else Some sz) of
           None \<Rightarrow> (Inl AllocError, f)
         | Some new_size \<Rightarrow>
             let old = f_buf f;
                 new = replicate new_size u;
                 new = (if f_count f > 0 then copy_into new 0 (take (f_count f) old) else new)
             in (Inr (), f\<lparr>f_buf := new, f_head := 0\<rparr>))
      else (Inl AllocError, f))"

definition ensure_unused_capacity :: "'a \<Rightarrow> nat \<Rightarrow> ('a, unit) fifo_op" where
  "ensure_unused_capacity u sz f =
     (if writable_length f \<ge> sz then (Inr (), f)
      else if f_count f + sz < 2 ^ 64 then ensure_total_capacity u (f_count f + sz) f
      else (Inl AllocError, f))"

text \<open>The bounds of the slice that \<^verbatim>\<open>readable_slice\<close> and \<^verbatim>\<open>readable_slice_mut\<close> return\<close>

definition readable_range :: "nat \<Rightarrow> 'a fifo \<Rightarrow> nat \<times> nat" where
  "readable_range offset f =
     (if offset > f_count f then (0, 0)
      else
        let start = f_head f + offset
        in if start \<ge> f_len f then
             let start = start - f_len f in (start, start + (f_count f - offset))
           else (start, min (f_head f + f_count f) (f_len f)))"

definition readable_slice :: "nat \<Rightarrow> 'a fifo \<Rightarrow> 'a list" where
  "readable_slice offset f =
     (let (start, end') = readable_range offset f in subslice (f_buf f) start end')"

definition discard :: "nat \<Rightarrow> ('a, unit) fifo_op" where
  "discard n f =
     (if n > f_count f then (Inl Panic, f)
      else if POWERS_OF_TWO f then
        (Inr (), f\<lparr>f_head := (f_head f + n) AND wrapping_dec (f_len f), f_count := f_count f - n\<rparr>)
      else if f_len f = 0 then (Inl Panic, f)
      else (Inr (), f\<lparr>f_head := (f_head f + n) mod f_len f, f_count := f_count f - n\<rparr>))"

definition read_item :: "('a, 'a option) fifo_op" where
  "read_item f =
     (if f_count f = 0 then (Inr None, f)
      else
        let c = f_buf f ! f_head f
        in case discard 1 f of
             (Inl e, f') \<Rightarrow> (Inl e, f')
           | (Inr _, f') \<Rightarrow> (Inr (Some c), f'))"

text \<open>The loop of \<^verbatim>\<open>read\<close> with \<open>left\<close> free places in the destination; it gives the items copied.\<close>

function read_loop :: "nat \<Rightarrow> ('a, 'a list) fifo_op" where
  "read_loop left f =
     (if left = 0 then (Inr [], f)
      else
        let s = readable_slice 0 f in
        if s = [] then (Inr [], f)
        else
          let n = min (length s) left
          in case discard n f of
               (Inl e, f') \<Rightarrow> (Inl e, f')
             | (Inr _, f') \<Rightarrow>
                 (case read_loop (left - n) f' of
                    (Inl e, f'') \<Rightarrow> (Inl e, f'')
                  | (Inr xs, f'') \<Rightarrow> (Inr (take n s @ xs), f'')))"
  by pat_completeness auto
termination
  by (relation "measure fst") (auto simp: min_def split: if_splits)

declare read_loop.simps [simp del]

text \<open>\<^verbatim>\<open>read(dst)\<close>: the new contents of \<open>dst\<close> and the number of items copied\<close>

definition fifo_read :: "'a list \<Rightarrow> ('a, 'a list \<times> nat) fifo_op" where
  "fifo_read dst f =
     (case read_loop (length dst) f of
        (Inl e, f') \<Rightarrow> (Inl e, f')
      | (Inr xs, f') \<Rightarrow> (Inr (copy_into dst 0 xs, length xs), f'))"

definition writable_range :: "nat \<Rightarrow> 'a fifo \<Rightarrow> fifo_error + nat \<times> nat" where
  "writable_range offset f =
     (if offset > f_len f then Inr (0, 0)
      else
        let writable = f_len f - f_count f;
            tail = f_head f + offset + f_count f
        in if tail < f_len f then Inr (tail, f_len f)
           else if writable < offset then Inl Panic
           else let start = tail - f_len f in Inr (start, start + (writable - offset)))"

definition update :: "nat \<Rightarrow> ('a, unit) fifo_op" where
  "update n f =
     (if f_count f + n \<le> f_len f then (Inr (), f\<lparr>f_count := f_count f + n\<rparr>) else (Inl Panic, f))"

text \<open>The bounds of the slice that \<^verbatim>\<open>writable_with_size\<close> returns\<close>

definition writable_with_size :: "'a \<Rightarrow> nat \<Rightarrow> ('a, nat \<times> nat) fifo_op" where
  "writable_with_size u sz f =
     (case ensure_unused_capacity u sz f of
        (Inl e, f') \<Rightarrow> (Inl e, f')
      | (Inr _, f') \<Rightarrow>
          (case writable_range 0 f' of
             Inl e \<Rightarrow> (Inl e, f')
           | Inr (start, end') \<Rightarrow>
               let f'' = (if end' - start < sz then realign f' else f')
               in case writable_range 0 f'' of
                    Inl e \<Rightarrow> (Inl e, f'')
                  | Inr (start, end') \<Rightarrow>
                      if end' - start \<ge> sz then (Inr (start, start + sz), f'') else (Inl Panic, f'')))"

function write_loop :: "'a list \<Rightarrow> ('a, unit) fifo_op" where
  "write_loop src f =
     (if src = [] then (Inr (), f)
      else
        case writable_range 0 f of
          Inl e \<Rightarrow> (Inl e, f)
        | Inr (start, end') \<Rightarrow>
            if end' \<le> start then (Inl Panic, f)
            else
              let n = min (end' - start) (length src);
                  f = f\<lparr>f_buf := copy_into (f_buf f) start (take n src)\<rparr>
              in case update n f of
                   (Inl e, f') \<Rightarrow> (Inl e, f')
                 | (Inr _, f') \<Rightarrow> write_loop (drop n src) f')"
  by pat_completeness auto
termination
  by (relation "measure (length \<circ> fst)") auto

declare write_loop.simps [simp del]

definition write_assume_capacity :: "'a list \<Rightarrow> ('a, unit) fifo_op" where
  "write_assume_capacity src f =
     (if writable_length f \<ge> length src then write_loop src f else (Inl Panic, f))"

definition fifo_write :: "'a \<Rightarrow> 'a list \<Rightarrow> ('a, unit) fifo_op" where
  "fifo_write u src f =
     (case ensure_unused_capacity u (length src) f of
        (Inl e, f') \<Rightarrow> (Inl e, f')
      | (Inr _, f') \<Rightarrow> write_assume_capacity src f')"

text \<open>\<^verbatim>\<open>x &= self.buf_len() - 1\<close> or \<^verbatim>\<open>x %= self.buf_len()\<close>\<close>

definition wrap_index :: "'a fifo \<Rightarrow> nat \<Rightarrow> fifo_error + nat" where
  "wrap_index f i =
     (if f_len f = 0 then Inl Panic
      else if POWERS_OF_TWO f then Inr (i AND (f_len f - 1))
      else Inr (i mod f_len f))"

definition write_item_assume_capacity :: "'a \<Rightarrow> ('a, unit) fifo_op" where
  "write_item_assume_capacity item f =
     (case wrap_index f (f_head f + f_count f) of
        Inl e \<Rightarrow> (Inl e, f)
      | Inr tail \<Rightarrow> update 1 (f\<lparr>f_buf := (f_buf f)[tail := item]\<rparr>))"

definition write_item :: "'a \<Rightarrow> 'a \<Rightarrow> ('a, unit) fifo_op" where
  "write_item u item f =
     (case ensure_unused_capacity u 1 f of
        (Inl e, f') \<Rightarrow> (Inl e, f')
      | (Inr _, f') \<Rightarrow> write_item_assume_capacity item f')"

definition rewind :: "nat \<Rightarrow> ('a, unit) fifo_op" where
  "rewind n f =
     (if writable_length f < n then (Inl Panic, f)
      else
        case wrap_index f (f_head f + (f_len f - n)) of
          Inl e \<Rightarrow> (Inl e, f)
        | Inr head \<Rightarrow> (Inr (), f\<lparr>f_head := head, f_count := f_count f + n\<rparr>))"

definition unget :: "'a \<Rightarrow> 'a list \<Rightarrow> ('a, unit) fifo_op" where
  "unget u src f =
     (case ensure_unused_capacity u (length src) f of
        (Inl e, f') \<Rightarrow> (Inl e, f')
      | (Inr _, f') \<Rightarrow>
          (case rewind (length src) f' of
             (Inl e, g) \<Rightarrow> (Inl e, g)
           | (Inr _, g) \<Rightarrow>
               let (start, end') = readable_range 0 g;
                   slice_len = end' - start;
                   n = min slice_len (length src);
                   g = g\<lparr>f_buf := copy_into (f_buf g) start (take n src)\<rparr>
               in if length src > slice_len then
                    let (start2, _) = readable_range slice_len g
                    in (Inr (), g\<lparr>f_buf := copy_into (f_buf g) start2 (drop slice_len src)\<rparr>)
                  else (Inr (), g)))"

definition peek_item :: "nat \<Rightarrow> 'a fifo \<Rightarrow> fifo_error + 'a" where
  "peek_item offset f =
     (if offset < f_count f then
        case wrap_index f (f_head f + offset) of
          Inl e \<Rightarrow> Inl e
        | Inr index \<Rightarrow> if index < f_len f then Inr (f_buf f ! index) else Inl Panic
      else Inl Panic)"

text \<open>\<^verbatim>\<open>*peek_item_mut(offset) = x\<close>\<close>

definition poke_item :: "nat \<Rightarrow> 'a \<Rightarrow> ('a, unit) fifo_op" where
  "poke_item offset x f =
     (if offset < f_count f then
        case wrap_index f (f_head f + offset) of
          Inl e \<Rightarrow> (Inl e, f)
        | Inr index \<Rightarrow>
            if index < f_len f then (Inr (), f\<lparr>f_buf := (f_buf f)[index := x]\<rparr>) else (Inl Panic, f)
      else (Inl Panic, f))"

text \<open>\<^verbatim>\<open>shift_down_one(&mut buf[start..end])\<close>\<close>

definition shift_down_one :: "'a list \<Rightarrow> nat \<Rightarrow> nat \<Rightarrow> 'a list" where
  "shift_down_one b start end' =
     (if end' - start > 1 then copy_into b start (subslice b (start + 1) end') else b)"

definition ordered_remove_item :: "nat \<Rightarrow> ('a, unit) fifo_op" where
  "ordered_remove_item offset f =
     (if offset = 0 then discard 1 f
      else if offset \<ge> f_count f then (Inl Panic, f)
      else
        let n = f_len f; head = f_head f; count = f_count f; b = f_buf f in
        if n - head \<ge> count then
          (Inr (), f\<lparr>f_buf := shift_down_one b (head + offset) n, f_count := count - 1\<rparr>)
        else
          case wrap_index f (head + offset) of
            Inl e \<Rightarrow> (Inl e, f)
          | Inr index \<Rightarrow>
              let wrap_len = head + count - n in
              if index < head then
                (Inr (), f\<lparr>f_buf := shift_down_one b index wrap_len, f_count := count - 1\<rparr>)
              else
                let wrap = b ! 0;
                    b = shift_down_one b index n;
                    b = b[n - 1 := wrap];
                    b = shift_down_one b 0 wrap_len
                in (Inr (), f\<lparr>f_buf := b, f_count := count - 1\<rparr>))"

text \<open>\<^verbatim>\<open>std::io::Write::write\<close>: the number of items taken\<close>

definition io_write :: "'a \<Rightarrow> 'a list \<Rightarrow> ('a, nat) fifo_op" where
  "io_write u src f =
     (let src = (if f_dynamic f then src else take (min (length src) (writable_length f)) src)
      in case fifo_write u src f of
           (Inl e, f') \<Rightarrow> (Inl e, f')
         | (Inr _, f') \<Rightarrow> (Inr (length src), f'))"

section \<open>Powers of two\<close>

lemma is_power_of_two_iff: "is_power_of_two n \<longleftrightarrow> (\<exists>k. n = 2 ^ k)"
proof (induction n rule: is_power_of_two.induct)
  case (1 n)
  show ?case
  proof (cases "n \<le> 1")
    case True
    then have "(\<exists>k. n = 2 ^ k) \<longleftrightarrow> n = 1"
      by (metis le_antisym nat_le_linear not_one_le_zero one_le_numeral one_le_power power_0)
    then show ?thesis using True by (simp add: is_power_of_two.simps [of n])
  next
    case False
    have "(\<exists>k. n = 2 ^ k) \<longleftrightarrow> even n \<and> (\<exists>k. n div 2 = 2 ^ k)"
    proof
      assume "\<exists>k. n = 2 ^ k"
      then obtain k where k: "n = 2 ^ k" ..
      then obtain j where "k = Suc j" using False by (cases k) auto
      then show "even n \<and> (\<exists>k. n div 2 = 2 ^ k)" using k by auto
    next
      assume "even n \<and> (\<exists>k. n div 2 = 2 ^ k)"
      then obtain k where "even n" "n div 2 = 2 ^ k" by blast
      then have "n = 2 ^ Suc k" by auto
      then show "\<exists>k. n = 2 ^ k" ..
    qed
    then show ?thesis using False 1 by (simp add: is_power_of_two.simps [of n])
  qed
qed

lemma next_power_of_two_bounds: "n \<le> next_power_of_two n \<and> is_power_of_two (next_power_of_two n)"
proof (induction n rule: next_power_of_two.induct)
  case (1 n)
  show ?case
  proof (cases "n \<le> 1")
    case True
    then show ?thesis by (simp add: next_power_of_two.simps [of n] is_power_of_two.simps [of "Suc 0"])
  next
    case False
    let ?h = "next_power_of_two (n - n div 2)"
    have h: "n - n div 2 \<le> ?h" "is_power_of_two ?h" using 1 False by auto
    obtain k where "?h = 2 ^ k" using h(2) by (auto simp: is_power_of_two_iff)
    then have "2 * ?h = 2 ^ Suc k" by simp
    then have "is_power_of_two (2 * ?h)" unfolding is_power_of_two_iff by blast
    then show ?thesis using False h(1) by (simp add: next_power_of_two.simps [of n])
  qed
qed

lemma mask_eq_mod: "is_power_of_two n \<Longrightarrow> i AND (n - Suc 0) = i mod n"
proof -
  have "i AND (2 ^ k - 1) = i mod 2 ^ k" for k
    by (simp only: take_bit_eq_mask mask_eq_exp_minus_1 flip: take_bit_eq_mod)
  then show "is_power_of_two n \<Longrightarrow> i AND (n - Suc 0) = i mod n" by (auto simp: is_power_of_two_iff)
qed

section \<open>The items of the ring\<close>

definition contents :: "'a fifo \<Rightarrow> 'a list" where
  "contents f = take (f_count f) (rotate (f_head f) (f_buf f))"

definition fifo_ok :: "'a fifo \<Rightarrow> bool" where
  "fifo_ok f \<longleftrightarrow>
     f_count f \<le> f_len f \<and> (f_head f < f_len f \<or> f_head f = 0)
     \<and> (if f_dynamic f then f_len f = 0 \<or> is_power_of_two (f_len f) else 0 < f_len f)"

lemma fifo_okD:
  assumes "fifo_ok f"
  shows "f_count f \<le> f_len f" "f_head f < f_len f \<or> f_head f = 0"
    "f_head f \<le> f_len f" "f_len f = 0 \<Longrightarrow> f_head f = 0 \<and> f_count f = 0"
    "POWERS_OF_TWO f \<Longrightarrow> f_len f = 0 \<or> is_power_of_two (f_len f)" "\<not> f_dynamic f \<Longrightarrow> 0 < f_len f"
  using assms by (auto simp: fifo_ok_def POWERS_OF_TWO_def split: if_splits)

lemma length_contents [simp]: "fifo_ok f \<Longrightarrow> length (contents f) = f_count f"
  by (simp add: contents_def fifo_ok_def)

lemma nth_contents:
  "fifo_ok f \<Longrightarrow> i < f_count f \<Longrightarrow> contents f ! i = f_buf f ! ((f_head f + i) mod f_len f)"
  by (simp add: contents_def fifo_ok_def nth_rotate)

lemma contents_eqI:
  assumes "fifo_ok f" "f_count f = length xs"
    and "\<And>i. i < length xs \<Longrightarrow> f_buf f ! ((f_head f + i) mod f_len f) = xs ! i"
  shows "contents f = xs"
  by (rule nth_equalityI) (use assms in \<open>auto simp: nth_contents\<close>)

lemma wrap_index_mod: "fifo_ok f \<Longrightarrow> 0 < f_len f \<Longrightarrow> wrap_index f i = Inr (i mod f_len f)"
  using fifo_okD(5) [of f] by (auto simp: wrap_index_def mask_eq_mod)

lemma add_mod_inj:
  fixes n :: nat
  assumes "(h + a) mod n = (h + b) mod n" "a < n" "b < n"
  shows "a = b"
proof -
  have "x = y" if "(h + x) mod n = (h + y) mod n" "y < n" "x \<le> y" for x y
  proof -
    have "n dvd (h + y) - (h + x)" using that mod_eq_dvd_iff_nat [of "h + x" "h + y" n] by simp
    then show ?thesis using that by (auto dest: dvd_imp_le)
  qed
  then show ?thesis using assms by (metis nat_le_linear)
qed

lemma nth_copy_into:
  "at + length src \<le> length dst \<Longrightarrow> i < length dst \<Longrightarrow>
   copy_into dst at src ! i = (if at \<le> i \<and> i < at + length src then src ! (i - at) else dst ! i)"
  by (auto simp: copy_into_def nth_append min_def)

section \<open>Reading\<close>

lemma discard_eq:
  assumes "fifo_ok f" "n \<le> f_count f"
  shows "discard n f = (Inr (), f\<lparr>f_head := (f_head f + n) mod f_len f, f_count := f_count f - n\<rparr>)"
proof (cases "f_len f = 0")
  case True
  then show ?thesis using assms fifo_okD(4,6) [OF assms(1)] by (auto simp: discard_def POWERS_OF_TWO_def)
next
  case False
  then show ?thesis
    using assms fifo_okD(5) [OF assms(1)] by (auto simp: discard_def wrapping_dec_def mask_eq_mod)
qed

lemma discard_ok:
  assumes "fifo_ok f" "n \<le> f_count f"
  obtains g where "discard n f = (Inr (), g)" "fifo_ok g" "contents g = drop n (contents f)"
    "f_dynamic g = f_dynamic f" "f_len g = f_len f" "f_count g = f_count f - n"
proof
  let ?g = "f\<lparr>f_head := (f_head f + n) mod f_len f, f_count := f_count f - n\<rparr>"
  show "discard n f = (Inr (), ?g)" by (rule discard_eq [OF assms])
  have "(f_head f + n) mod f_len f < f_len f \<or> (f_head f + n) mod f_len f = 0"
    using assms fifo_okD(4) [OF assms(1)] by (cases "f_len f = 0") auto
  then show g: "fifo_ok ?g" using assms by (auto simp: fifo_ok_def)
  show "contents ?g = drop n (contents f)"
    by (rule contents_eqI [OF g]) (use assms in \<open>auto simp: nth_contents mod_add_left_eq add.assoc\<close>)
qed auto

lemma readable_range_ok:
  assumes "fifo_ok f" "off \<le> f_count f" "readable_range off f = (s, e)"
  shows "s \<le> e" "e \<le> f_len f" "e - s \<le> f_count f - off" "off < f_count f \<Longrightarrow> s < e"
    "\<And>i. i < e - s \<Longrightarrow> s + i = (f_head f + off + i) mod f_len f"
    "e - s < f_count f - off \<Longrightarrow> e = f_len f"
proof -
  note ok = fifo_okD(1-4) [OF assms(1)]
  show "s \<le> e" "e \<le> f_len f" "e - s \<le> f_count f - off" "off < f_count f \<Longrightarrow> s < e"
    "e - s < f_count f - off \<Longrightarrow> e = f_len f"
    using assms(2,3) ok by (auto simp: readable_range_def Let_def split: if_splits)
  show "s + i = (f_head f + off + i) mod f_len f" if "i < e - s" for i
  proof (cases "f_head f + off \<ge> f_len f")
    case True
    then have "s = f_head f + off - f_len f" "i < f_count f - off"
      using assms(2,3) that by (auto simp: readable_range_def Let_def)
    moreover have "(f_head f + off + i) mod f_len f = f_head f + off + i - f_len f"
      using True ok \<open>i < f_count f - off\<close> by (simp add: mod_if le_mod_geq)
    ultimately show ?thesis using True by simp
  next
    case False
    then show ?thesis using assms(2,3) that by (auto simp: readable_range_def Let_def)
  qed
qed

lemma readable_slice_eq:
  assumes "fifo_ok f" "off \<le> f_count f" "readable_range off f = (s, e)"
  shows "readable_slice off f = take (e - s) (drop off (contents f))"
proof (rule nth_equalityI)
  note r = readable_range_ok [OF assms]
  show "length (readable_slice off f) = length (take (e - s) (drop off (contents f)))"
    using assms r(2,3) by (simp add: readable_slice_def length_subslice)
  fix i assume "i < length (readable_slice off f)"
  then have i: "i < e - s" using assms r(2) by (simp add: readable_slice_def length_subslice)
  then have "readable_slice off f ! i = f_buf f ! (s + i)"
    using assms(3) r(2) by (simp add: readable_slice_def subslice_def)
  also have "\<dots> = contents f ! (off + i)"
    using r(5) [OF i] i r(3) assms(1) by (simp add: nth_contents add.assoc)
  finally show "readable_slice off f ! i = take (e - s) (drop off (contents f)) ! i"
    using i assms(1,2) by simp
qed

lemma readable_slice_0:
  assumes "fifo_ok f"
  obtains k where "readable_slice 0 f = take k (contents f)" "k \<le> f_count f" "0 < f_count f \<longrightarrow> 0 < k"
proof -
  obtain s e where se: "readable_range 0 f = (s, e)" by (cases "readable_range 0 f")
  note r = readable_range_ok [OF assms _ se]
  show thesis
    by (rule that [of "e - s"]) (use r readable_slice_eq [OF assms _ se] in auto)
qed

lemma read_item_ok:
  assumes "fifo_ok f"
  shows "case contents f of
           [] \<Rightarrow> read_item f = (Inr None, f)
         | x # xs \<Rightarrow> \<exists>g. read_item f = (Inr (Some x), g) \<and> fifo_ok g \<and> contents g = xs"
proof (cases "f_count f = 0")
  case True
  then have "contents f = []" by (simp add: contents_def)
  then show ?thesis using True by (simp add: read_item_def)
next
  case False
  then obtain g where g: "discard 1 f = (Inr (), g)" "fifo_ok g" "contents g = drop 1 (contents f)"
    using discard_ok [OF assms, of 1] by auto
  have "contents f \<noteq> []" using length_contents [OF assms] False by auto
  moreover have "hd (contents f) = f_buf f ! f_head f"
    using calculation nth_contents [OF assms, of 0] fifo_okD(1,2) [OF assms] False by (auto simp: hd_conv_nth)
  ultimately show ?thesis using g False by (auto simp: read_item_def neq_Nil_conv)
qed

lemma read_loop_ok:
  assumes "fifo_ok f"
  shows "\<exists>g. read_loop left f = (Inr (take left (contents f)), g) \<and> fifo_ok g
    \<and> contents g = drop left (contents f) \<and> f_dynamic g = f_dynamic f \<and> f_len g = f_len f"
  using assms
proof (induction left f rule: read_loop.induct)
  case (1 left f)
  obtain k where k: "readable_slice 0 f = take k (contents f)" "k \<le> f_count f" "0 < f_count f \<longrightarrow> 0 < k"
    by (rule readable_slice_0 [OF "1.prems"])
  have len: "length (contents f) = f_count f" using "1.prems" by simp
  show ?case
  proof (cases "left = 0 \<or> f_count f = 0")
    case True
    moreover have "f_count f = 0 \<Longrightarrow> contents f = []" by (simp add: contents_def)
    ultimately show ?thesis using "1.prems" k(1) by (auto simp: read_loop.simps [of left f] Let_def)
  next
    case False
    define n where "n = min k left"
    have n: "0 < n" "n \<le> k" "n \<le> left" "n \<le> f_count f" using False k by (auto simp: n_def)
    have s: "readable_slice 0 f \<noteq> []" "length (readable_slice 0 f) = k" using k False len by auto
    obtain g where g: "discard n f = (Inr (), g)" "fifo_ok g" "contents g = drop n (contents f)"
      "f_dynamic g = f_dynamic f" "f_len g = f_len f"
      using discard_ok [OF "1.prems" n(4)] by blast
    obtain h where h: "read_loop (left - n) g = (Inr (take (left - n) (contents g)), h)" "fifo_ok h"
      "contents h = drop (left - n) (contents g)" "f_dynamic h = f_dynamic g" "f_len h = f_len g"
      using "1.IH" [of "readable_slice 0 f" n "Inr ()" g "()"] False s g(1,2) unfolding n_def by auto
    have "read_loop left f = (Inr (take n (contents f) @ take (left - n) (drop n (contents f))), h)"
      using False s g(1,3) h(1) k(1) n by (simp add: read_loop.simps [of left f] Let_def flip: n_def)
    moreover have "take n (contents f) @ take (left - n) (drop n (contents f)) = take left (contents f)"
      using n(3) by (metis le_add_diff_inverse take_add)
    ultimately show ?thesis using h g n(3) by simp
  qed
qed

section \<open>Writing\<close>

lemma contents_copy:
  assumes "fifo_ok f" "off + length xs \<le> f_count f" "p + length xs \<le> f_len f"
    and "\<And>i. i < length xs \<Longrightarrow> p + i = (f_head f + off + i) mod f_len f"
  shows "contents (f\<lparr>f_buf := copy_into (f_buf f) p xs\<rparr>) = copy_into (contents f) off xs"
    and "fifo_ok (f\<lparr>f_buf := copy_into (f_buf f) p xs\<rparr>)"
proof -
  let ?g = "f\<lparr>f_buf := copy_into (f_buf f) p xs\<rparr>"
  have len: "f_len ?g = f_len f" using assms(3) by (simp add: length_copy_into)
  show g: "fifo_ok ?g" using assms(1) len by (auto simp: fifo_ok_def)
  show "contents ?g = copy_into (contents f) off xs"
  proof (rule contents_eqI [OF g])
    show "f_count ?g = length (copy_into (contents f) off xs)"
      using assms(1,2) by (simp add: length_copy_into)
    fix i assume "i < length (copy_into (contents f) off xs)"
    then have i: "i < f_count f" using assms(1,2) by (simp add: length_copy_into)
    let ?k = "(f_head f + i) mod f_len f"
    have n: "f_count f \<le> f_len f" by (rule fifo_okD(1) [OF assms(1)])
    then have k: "?k < f_len f" using i by (metis le_0_eq mod_less_divisor neq0_conv not_less_zero)
    have "copy_into (f_buf f) p xs ! ?k = copy_into (contents f) off xs ! i"
    proof (cases "off \<le> i \<and> i < off + length xs")
      case True
      then have "?k = p + (i - off)" using assms(4) [of "i - off"] by auto
      moreover have "copy_into (f_buf f) p xs ! (p + (i - off)) = xs ! (i - off)"
        using nth_copy_into [of p xs "f_buf f" "p + (i - off)"] True assms(3) by auto
      ultimately show ?thesis using True assms(1,2) i by (simp add: nth_copy_into)
    next
      case False
      have "\<not> (p \<le> ?k \<and> ?k < p + length xs)"
      proof
        assume a: "p \<le> ?k \<and> ?k < p + length xs"
        then have "?k - p < length xs" by linarith
        from assms(4) [OF this] have "?k = (f_head f + (off + (?k - p))) mod f_len f" using a by (simp add: add.assoc)
        then have "i = off + (?k - p)" by (rule add_mod_inj) (use a assms(2) i n in auto)
        then show False using False a by auto
      qed
      then show ?thesis using False assms(1-3) i k by (auto simp: nth_copy_into nth_contents)
    qed
    then show "f_buf ?g ! ((f_head ?g + i) mod f_len ?g) = copy_into (contents f) off xs ! i"
      using len by simp
  qed
qed

lemma contents_grow:
  assumes "fifo_ok f" "f_count f + n \<le> f_len f"
  obtains junk where "contents (f\<lparr>f_count := f_count f + n\<rparr>) = contents f @ junk" "length junk = n"
proof
  let ?r = "rotate (f_head f) (f_buf f)"
  show "contents (f\<lparr>f_count := f_count f + n\<rparr>) = contents f @ take n (drop (f_count f) ?r)"
    by (simp add: contents_def take_add)
  show "length (take n (drop (f_count f) ?r)) = n" using assms(2) by simp
qed

lemma copy_into_end: "length xs = length ys \<Longrightarrow> copy_into (zs @ ys) (length zs) xs = zs @ xs"
  by (simp add: copy_into_def)

lemma writable_range_ok:
  assumes "fifo_ok f"
  obtains s e where "writable_range 0 f = Inr (s, e)" "s \<le> e" "e \<le> f_len f"
    "e - s \<le> f_len f - f_count f" "f_count f < f_len f \<longrightarrow> s < e"
    "f_head f = 0 \<longrightarrow> e - s = f_len f - f_count f"
    "\<forall>i < e - s. s + i = (f_head f + f_count f + i) mod f_len f"
proof -
  note ok = fifo_okD(1-4) [OF assms]
  let ?t = "f_head f + f_count f"
  show thesis
  proof (cases "?t < f_len f")
    case True
    show thesis by (rule that [of ?t "f_len f"]) (use True ok in \<open>auto simp: writable_range_def\<close>)
  next
    case False
    have "(?t + i) mod f_len f = ?t - f_len f + i" if "i < f_len f - f_count f" for i
      using that False ok by (simp add: mod_if le_mod_geq)
    then show thesis
      by (intro that [of "?t - f_len f" "?t - f_len f + (f_len f - f_count f)"])
        (use False ok in \<open>auto simp: writable_range_def Let_def\<close>)
  qed
qed

lemma append_chunk:
  assumes "fifo_ok f" "f_count f + length xs \<le> f_len f" "s + length xs \<le> f_len f"
    and "\<And>i. i < length xs \<Longrightarrow> s + i = (f_head f + f_count f + i) mod f_len f"
  shows "let g = f\<lparr>f_buf := copy_into (f_buf f) s xs, f_count := f_count f + length xs\<rparr>
    in fifo_ok g \<and> contents g = contents f @ xs \<and> f_len g = f_len f"
proof -
  let ?f = "f\<lparr>f_count := f_count f + length xs\<rparr>"
  obtain junk where junk: "contents ?f = contents f @ junk" "length junk = length xs"
    by (rule contents_grow [OF assms(1,2)])
  have ok: "fifo_ok ?f" using assms(1,2) by (auto simp: fifo_ok_def)
  have "contents (?f\<lparr>f_buf := copy_into (f_buf f) s xs\<rparr>) = copy_into (contents f @ junk) (f_count f) xs"
    using contents_copy(1) [OF ok, of "f_count f" xs s] assms junk(1) by simp
  moreover have "fifo_ok (?f\<lparr>f_buf := copy_into (f_buf f) s xs\<rparr>)"
    using contents_copy(2) [OF ok, of "f_count f" xs s] assms by simp
  moreover have "?f\<lparr>f_buf := copy_into (f_buf f) s xs\<rparr> =
      f\<lparr>f_buf := copy_into (f_buf f) s xs, f_count := f_count f + length xs\<rparr>" by simp
  ultimately show ?thesis
    using copy_into_end [of xs junk "contents f"] junk(2) assms(1,3)
    by (simp only: Let_def) (simp add: length_copy_into)
qed

lemma write_loop_ok:
  assumes "fifo_ok f" "f_count f + length src \<le> f_len f"
  shows "\<exists>g. write_loop src f = (Inr (), g) \<and> fifo_ok g \<and> contents g = contents f @ src
    \<and> f_dynamic g = f_dynamic f \<and> f_len g = f_len f"
  using assms
proof (induction src f rule: write_loop.induct)
  case (1 src f)
  show ?case
  proof (cases "src = []")
    case True
    then show ?thesis using "1.prems" by (simp add: write_loop.simps [of "[]" f])
  next
    case False
    obtain s e where w: "writable_range 0 f = Inr (s, e)" "s \<le> e" "e \<le> f_len f"
      "e - s \<le> f_len f - f_count f" "f_count f < f_len f \<longrightarrow> s < e"
      "\<forall>i < e - s. s + i = (f_head f + f_count f + i) mod f_len f"
      by (rule writable_range_ok [OF "1.prems"(1)])
    have "0 < length src" using False by simp
    then have se: "s < e" using w(5) "1.prems"(2) by linarith
    define n where "n = min (e - s) (length src)"
    have n: "n \<le> length src" "n \<le> e - s" by (auto simp: n_def)
    let ?g = "f\<lparr>f_buf := copy_into (f_buf f) s (take n src), f_count := f_count f + n\<rparr>"
    have g: "fifo_ok ?g" "contents ?g = contents f @ take n src" "f_len ?g = f_len f"
      using append_chunk [OF "1.prems"(1), of "take n src" s] n w se "1.prems"(2) by (auto simp: Let_def)
    have u: "update n (f\<lparr>f_buf := copy_into (f_buf f) s (take n src)\<rparr>) = (Inr (), ?g)"
      using g(3) n w "1.prems"(2) by (simp add: update_def)
    have "\<exists>h. write_loop (drop n src) ?g = (Inr (), h) \<and> fifo_ok h \<and> contents h = contents ?g @ drop n src
        \<and> f_dynamic h = f_dynamic ?g \<and> f_len h = f_len ?g"
      using False w(1) se g n "1.prems"(2) u
      by (intro "1.IH" [of "(s, e)" s e n "f\<lparr>f_buf := copy_into (f_buf f) s (take n src)\<rparr>" "Inr ()" ?g "()"])
        (auto simp: n_def)
    moreover have "write_loop src f = write_loop (drop n src) ?g"
      using False w(1) se u by (simp add: write_loop.simps [of src f] Let_def flip: n_def)
    ultimately show ?thesis using g by auto
  qed
qed

lemma realign_ok:
  assumes "fifo_ok f"
  shows "fifo_ok (realign f)" "contents (realign f) = contents f" "f_head (realign f) = 0"
    "f_len (realign f) = f_len f" "f_count (realign f) = f_count f" "f_dynamic (realign f) = f_dynamic f"
proof -
  note ok = fifo_okD(1-4) [OF assms]
  show "f_head (realign f) = 0" "f_count (realign f) = f_count f" "f_dynamic (realign f) = f_dynamic f"
    by (simp_all add: realign_def)
  show len: "f_len (realign f) = f_len f"
    using ok by (simp add: realign_def length_copy_into length_subslice)
  show "contents (realign f) = contents f"
  proof (cases "f_len f - f_head f \<ge> f_count f")
    case True
    have "f_head f mod f_len f = f_head f" using ok(2) by auto
    then have "rotate (f_head f) (f_buf f) = drop (f_head f) (f_buf f) @ take (f_head f) (f_buf f)"
      by (simp add: rotate_drop_take)
    then show ?thesis using True ok(1) by (simp add: realign_def contents_def copy_into_def subslice_def)
  next
    case False
    then show ?thesis by (simp add: realign_def contents_def)
  qed
  show "fifo_ok (realign f)"
    using assms len by (auto simp: fifo_ok_def realign_def split: if_splits)
qed

lemma replicate_power_ok:
  assumes "fifo_ok f" "f_dynamic f" "checked_next_power_of_two n = Some m"
  shows "fifo_ok (f\<lparr>f_buf := replicate m u, f_head := 0, f_count := 0\<rparr>)" "n \<le> m"
  using assms next_power_of_two_bounds [of n]
  by (auto simp: fifo_ok_def checked_next_power_of_two_def Let_def split: if_splits)

text \<open>
  Reserving room keeps the items and either makes the room or reports \<^verbatim>\<open>AllocError\<close>, the latter only
  for a static buffer or beyond \<^verbatim>\<open>usize\<close>.
\<close>

definition fits :: "'a fifo \<Rightarrow> nat \<Rightarrow> bool" where
  "fits f n \<longleftrightarrow> f_count f + n \<le> f_len f \<or> f_dynamic f \<and> next_power_of_two (f_count f + n) < 2 ^ 64"

lemma ensure_total_ok:
  assumes "fifo_ok f" "f_count f \<le> sz"
  obtains r g where "ensure_total_capacity u sz f = (r, g)" "fifo_ok g" "contents g = contents f"
    "f_count g = f_count f" "f_dynamic g = f_dynamic f"
    "if f_len f \<ge> sz \<or> f_dynamic f \<and> next_power_of_two sz < 2 ^ 64
     then r = Inr () \<and> sz \<le> f_len g else r = Inl AllocError"
proof (cases "f_len f \<ge> sz \<or> \<not> f_dynamic f")
  case True
  then show thesis
    by (intro that [of "fst (ensure_total_capacity u sz f)" "snd (ensure_total_capacity u sz f)"])
      (use assms in \<open>auto simp: ensure_total_capacity_def\<close>)
next
  case False
  note r = realign_ok [OF assms(1)]
  let ?f = "realign f"
  have p: "POWERS_OF_TWO ?f" using False r(6) by (simp add: POWERS_OF_TWO_def)
  show thesis
  proof (cases "checked_next_power_of_two sz")
    case None
    then have "ensure_total_capacity u sz f = (Inl AllocError, ?f)"
      using False p by (simp add: ensure_total_capacity_def Let_def)
    moreover have "2 ^ 64 \<le> next_power_of_two sz"
      using None by (auto simp: checked_next_power_of_two_def Let_def split: if_splits)
    ultimately show thesis using r False by (intro that [of "Inl AllocError" ?f]) auto
  next
    case (Some m)
    let ?z = "f\<lparr>f_buf := replicate m u, f_head := 0, f_count := 0\<rparr>"
    let ?xs = "take (f_count f) (f_buf ?f)"
    let ?g = "?f\<lparr>f_buf := if f_count f > 0 then copy_into (replicate m u) 0 ?xs else replicate m u, f_head := 0\<rparr>"
    have z: "fifo_ok ?z" "sz \<le> m" using replicate_power_ok [OF assms(1) _ Some] False by auto
    have m: "next_power_of_two sz < 2 ^ 64"
      using Some by (auto simp: checked_next_power_of_two_def Let_def split: if_splits)
    have xs: "?xs = contents f" "length ?xs = f_count f"
      using r(2-5) fifo_okD(1) [OF assms(1)] by (auto simp: contents_def)
    have g: "?g = ?z\<lparr>f_buf := copy_into (f_buf ?z) 0 ?xs, f_count := f_count ?z + length ?xs\<rparr>"
      using r xs(2) by (cases "f_count f = 0") (simp_all add: copy_into_def realign_def)
    have "let g = ?z\<lparr>f_buf := copy_into (f_buf ?z) 0 ?xs, f_count := f_count ?z + length ?xs\<rparr>
      in fifo_ok g \<and> contents g = contents ?z @ ?xs \<and> f_len g = f_len ?z"
      by (rule append_chunk) (use z False assms(2) xs(2) in auto)
    then have "fifo_ok ?g" "contents ?g = contents f" "f_len ?g = m"
      unfolding g Let_def by (simp_all add: xs(1) contents_def [of ?z])
    moreover have "ensure_total_capacity u sz f = (Inr (), ?g)"
      using False p Some r(5) by (simp add: ensure_total_capacity_def Let_def)
    ultimately show thesis using z(2) m False r(5,6) by (intro that [of "Inr ()" ?g]) auto
  qed
qed

lemma next_power_of_two_large: "2 ^ 64 \<le> n \<Longrightarrow> \<not> next_power_of_two n < 2 ^ 64"
  using next_power_of_two_bounds [of n] by linarith

lemma ensure_unused_ok:
  assumes "fifo_ok f"
  obtains r g where "ensure_unused_capacity u n f = (r, g)" "fifo_ok g" "contents g = contents f"
    "f_count g = f_count f" "f_dynamic g = f_dynamic f"
    "if fits f n then r = Inr () \<and> f_count g + n \<le> f_len g else r = Inl AllocError"
proof (cases "writable_length f \<ge> n \<or> f_count f + n \<ge> 2 ^ 64")
  case True
  then show thesis
    using assms fifo_okD(1) [OF assms] next_power_of_two_large [of "f_count f + n"]
    by (intro that [of "fst (ensure_unused_capacity u n f)" "snd (ensure_unused_capacity u n f)"])
      (auto simp: ensure_unused_capacity_def fits_def writable_length_def)
next
  case False
  obtain r g where g: "ensure_total_capacity u (f_count f + n) f = (r, g)" "fifo_ok g" "contents g = contents f"
    "f_count g = f_count f" "f_dynamic g = f_dynamic f"
    "if f_len f \<ge> f_count f + n \<or> f_dynamic f \<and> next_power_of_two (f_count f + n) < 2 ^ 64
     then r = Inr () \<and> f_count f + n \<le> f_len g else r = Inl AllocError"
    by (rule ensure_total_ok [OF assms, of "f_count f + n" u]) simp_all
  moreover have "ensure_unused_capacity u n f = (r, g)"
    using False g(1) by (simp add: ensure_unused_capacity_def)
  ultimately show thesis by (intro that [of r g]) (auto simp: fits_def split: if_splits)
qed

lemma fifo_write_ok:
  assumes "fifo_ok f"
  obtains r g where "fifo_write u src f = (r, g)" "fifo_ok g" "f_dynamic g = f_dynamic f"
    "if fits f (length src) then r = Inr () \<and> contents g = contents f @ src
     else r = Inl AllocError \<and> contents g = contents f"
proof -
  obtain r h where h: "ensure_unused_capacity u (length src) f = (r, h)" "fifo_ok h" "contents h = contents f"
    "f_count h = f_count f" "f_dynamic h = f_dynamic f"
    "if fits f (length src) then r = Inr () \<and> f_count h + length src \<le> f_len h else r = Inl AllocError"
    by (rule ensure_unused_ok [OF assms])
  show thesis
  proof (cases "fits f (length src)")
    case True
    then obtain g where "write_loop src h = (Inr (), g)" "fifo_ok g" "contents g = contents h @ src"
      "f_dynamic g = f_dynamic h"
      using write_loop_ok [OF h(2), of src] h(6) by auto
    then show thesis
      using True h by (intro that [of "Inr ()" g])
        (auto simp: fifo_write_def write_assume_capacity_def writable_length_def)
  next
    case False
    then show thesis using h by (intro that [of r h]) (auto simp: fifo_write_def)
  qed
qed

lemma list_update_copy: "i < length xs \<Longrightarrow> xs[i := x] = copy_into xs i [x]"
  by (simp add: copy_into_def upd_conv_take_nth_drop)

lemma write_item_eq: "fifo_ok f \<Longrightarrow> write_item u x f = fifo_write u [x] f"
proof -
  assume f: "fifo_ok f"
  obtain r h where h: "ensure_unused_capacity u 1 f = (r, h)" "fifo_ok h"
    "if fits f 1 then r = Inr () \<and> f_count h + 1 \<le> f_len h else r = Inl AllocError"
    by (rule ensure_unused_ok [OF f, of u 1])
  show ?thesis
  proof (cases "fits f 1")
    case True
    then have c: "f_count h < f_len h" using h(3) by simp
    then have n: "0 < f_len h" by linarith
    obtain s e where w: "writable_range 0 h = Inr (s, e)" "s < e" "e \<le> f_len h"
      "\<forall>i < e - s. s + i = (f_head h + f_count h + i) mod f_len h"
      using writable_range_ok [OF h(2)] c by metis
    then have s: "s = (f_head h + f_count h) mod f_len h" "s < f_len h" by (auto dest: spec [of _ 0])
    have m: "min (e - s) 1 = 1" using w(2) by simp
    have "write_loop [x] h = update 1 (h\<lparr>f_buf := copy_into (f_buf h) s [x]\<rparr>)"
      using w(1,2) c s(2) m
      by (simp add: write_loop.simps [of "[x]"] write_loop.simps [of "[]"] update_def length_copy_into)
    moreover have "write_item_assume_capacity x h = update 1 (h\<lparr>f_buf := copy_into (f_buf h) s [x]\<rparr>)"
      using wrap_index_mod [OF h(2) n] s by (simp add: write_item_assume_capacity_def list_update_copy)
    moreover have "Suc 0 \<le> f_len h - f_count h" using c by linarith
    ultimately show ?thesis
      using h(1) c True h(3) by (simp add: write_item_def fifo_write_def write_assume_capacity_def writable_length_def)
  next
    case False
    then show ?thesis using h by (simp add: write_item_def fifo_write_def)
  qed
qed

section \<open>Access in the middle\<close>

lemma peek_item_ok: "fifo_ok f \<Longrightarrow> i < f_count f \<Longrightarrow> peek_item i f = Inr (contents f ! i)"
  using wrap_index_mod [of f "f_head f + i"] fifo_okD(1) [of f]
  by (cases "f_len f = 0") (auto simp: peek_item_def nth_contents)

lemma poke_item_ok:
  assumes "fifo_ok f" "i < f_count f"
  obtains g where "poke_item i x f = (Inr (), g)" "fifo_ok g" "contents g = (contents f)[i := x]"
proof -
  let ?k = "(f_head f + i) mod f_len f"
  have n: "0 < f_len f" using fifo_okD(1) [OF assms(1)] assms(2) by linarith
  then have k: "?k < f_len f" by simp
  have "poke_item i x f = (Inr (), f\<lparr>f_buf := copy_into (f_buf f) ?k [x]\<rparr>)"
    using wrap_index_mod [OF assms(1) n] assms(2) k by (simp add: poke_item_def list_update_copy)
  then show thesis
    using contents_copy [OF assms(1), of i "[x]" ?k] assms k
    by (intro that) (auto simp: list_update_copy)
qed

lemma nth_shift_down:
  "e \<le> length b \<Longrightarrow> i < length b \<Longrightarrow>
   shift_down_one b s e ! i = (if s \<le> i \<and> i + 1 < e then b ! (i + 1) else b ! i)"
  by (auto simp: shift_down_one_def nth_copy_into length_subslice subslice_def)

lemma length_shift_down [simp]: "e \<le> length b \<Longrightarrow> length (shift_down_one b s e) = length b"
  by (simp add: shift_down_one_def length_copy_into length_subslice)

lemma drop_nth_eqI:
  assumes "length ys = length xs - 1" "k < length xs"
    and "\<And>i. i < k \<Longrightarrow> ys ! i = xs ! i" "\<And>i. k \<le> i \<Longrightarrow> i + 1 < length xs \<Longrightarrow> ys ! i = xs ! (i + 1)"
  shows "ys = take k xs @ drop (Suc k) xs"
  by (rule nth_equalityI) (use assms in \<open>auto simp: nth_append min_def\<close>)

text \<open>The positions of a ring that wraps: the items from \<open>n - head\<close> on are at the front.\<close>

lemma wrapped_index:
  fixes n :: nat
  assumes "head < n" "i < n"
  shows "(head + i) mod n = (if head + i < n then head + i else head + i - n)"
  using assms by (simp add: mod_if)

lemma ordered_remove_item_ok:
  assumes "fifo_ok f" "off < f_count f"
  obtains g where "ordered_remove_item off f = (Inr (), g)" "fifo_ok g"
    "contents g = take off (contents f) @ drop (Suc off) (contents f)"
proof (cases "off = 0")
  case True
  then show thesis
    using discard_ok [OF assms(1), of 1] assms(2) by (metis Suc_leI append_Nil drop_0 ordered_remove_item_def take0 One_nat_def that)
next
  case off: False
  note finish = that
  let ?n = "f_len f" let ?h = "f_head f" let ?c = "f_count f"
  have ok: "?c \<le> ?n" "?h < ?n" "0 < ?n" using fifo_okD(1,2) [OF assms(1)] assms(2) by auto
  have pos: "(?h + i) mod ?n = (if ?h + i < ?n then ?h + i else ?h + i - ?n)" if "i < ?c" for i
    using that ok by (intro wrapped_index) auto
  have posS: "Suc (?h + i) mod ?n = (if Suc (?h + i) < ?n then Suc (?h + i) else Suc (?h + i) - ?n)"
    if "Suc i < ?c" for i
    using pos [of "Suc i"] that by simp
  have *: thesis
    if r: "ordered_remove_item off f = (Inr (), f\<lparr>f_buf := b, f_count := ?c - 1\<rparr>)" "length b = ?n"
      and lo: "\<And>i. i < off \<Longrightarrow> b ! ((?h + i) mod ?n) = f_buf f ! ((?h + i) mod ?n)"
      and hi: "\<And>i. off \<le> i \<Longrightarrow> i + 1 < ?c \<Longrightarrow> b ! ((?h + i) mod ?n) = f_buf f ! ((?h + (i + 1)) mod ?n)"
    for b
  proof (rule finish [OF r(1)])
    let ?g = "f\<lparr>f_buf := b, f_count := ?c - 1\<rparr>"
    show g: "fifo_ok ?g" using assms(1) r(2) by (auto simp: fifo_ok_def)
    show "contents ?g = take off (contents f) @ drop (Suc off) (contents f)"
    proof (rule drop_nth_eqI)
      show "length (contents ?g) = length (contents f) - 1" using g assms(1) by simp
      show "off < length (contents f)" using assms by simp
      show "contents ?g ! i = contents f ! i" if "i < off" for i
        using that assms(2) nth_contents [OF g, of i] nth_contents [OF assms(1), of i] lo [OF that] r(2) by simp
      show "contents ?g ! i = contents f ! (i + 1)" if "off \<le> i" "i + 1 < length (contents f)" for i
        using that assms(1) nth_contents [OF g, of i] nth_contents [OF assms(1), of "i + 1"] hi [of i] r(2) by simp
    qed
  qed
  show thesis
  proof (cases "?n - ?h \<ge> ?c")
    case True
    let ?b = "shift_down_one (f_buf f) (?h + off) ?n"
    show thesis
    proof (rule * [of ?b])
      show "ordered_remove_item off f = (Inr (), f\<lparr>f_buf := ?b, f_count := ?c - 1\<rparr>)"
        using off assms(2) True by (simp add: ordered_remove_item_def Let_def)
    qed (use True ok assms(2) in \<open>auto simp: nth_shift_down\<close>)
  next
    case False
    let ?w = "?h + ?c - ?n"
    let ?i = "(?h + off) mod ?n"
    have w: "?w \<le> ?h" "0 < ?w" using False ok by auto
    note idx = wrap_index_mod [OF assms(1) ok(3), of "?h + off"]
    show thesis
    proof (cases "?i < ?h")
      case True
      then have i: "?i = ?h + off - ?n" "?n \<le> ?h + off" using pos [OF assms(2)] by (auto split: if_splits)
      let ?b = "shift_down_one (f_buf f) ?i ?w"
      show thesis
      proof (rule * [of ?b])
        show "ordered_remove_item off f = (Inr (), f\<lparr>f_buf := ?b, f_count := ?c - 1\<rparr>)"
          using off assms(2) False True idx by (simp add: ordered_remove_item_def Let_def)
      qed (use i w ok assms(2) pos posS in \<open>auto simp: nth_shift_down Suc_diff_le\<close>)
    next
      case ge: False
      have i: "?i = ?h + off" "?h + off < ?n" using ge pos [OF assms(2)] assms(2) ok by (auto split: if_splits)
      let ?b = "shift_down_one ((shift_down_one (f_buf f) ?i ?n)[?n - 1 := f_buf f ! 0]) 0 ?w"
      show thesis
      proof (rule * [of ?b])
        show "ordered_remove_item off f = (Inr (), f\<lparr>f_buf := ?b, f_count := ?c - 1\<rparr>)"
          using off assms(2) False ge idx by (simp add: ordered_remove_item_def Let_def)
      qed (use i w ok assms(2) pos posS in \<open>auto simp: nth_shift_down nth_list_update Suc_diff_le\<close>)
    qed
  qed
qed

section \<open>Putting items back\<close>

lemma rewind_ok:
  assumes "fifo_ok f" "0 < f_len f" "f_count f + n \<le> f_len f"
  obtains g junk where "rewind n f = (Inr (), g)" "fifo_ok g" "contents g = junk @ contents f"
    "length junk = n" "f_count g = f_count f + n" "f_dynamic g = f_dynamic f"
proof -
  let ?n = "f_len f"
  let ?h = "(f_head f + (?n - n)) mod ?n"
  let ?g = "f\<lparr>f_head := ?h, f_count := f_count f + n\<rparr>"
  have r: "rewind n f = (Inr (), ?g)"
    using wrap_index_mod [OF assms(1,2)] assms(3) by (simp add: rewind_def writable_length_def)
  have g: "fifo_ok ?g" using assms by (auto simp: fifo_ok_def)
  have "contents ?g = map ((!) (contents ?g)) [0..<n] @ contents f"
  proof (rule contents_eqI [OF g])
    show "f_count ?g = length (map ((!) (contents ?g)) [0..<n] @ contents f)" using assms(1) by simp
    fix i assume "i < length (map ((!) (contents ?g)) [0..<n] @ contents f)"
    then have i: "i < f_count f + n" using assms(1) by simp
    show "f_buf ?g ! ((f_head ?g + i) mod f_len ?g) = (map ((!) (contents ?g)) [0..<n] @ contents f) ! i"
    proof (cases "i < n")
      case True
      then show ?thesis using nth_contents [OF g, of i] i by (simp add: nth_append)
    next
      case False
      have "f_head f + (?n - n) + i = f_head f + (i - n) + ?n" using False assms(3) by linarith
      then have "(?h + i) mod ?n = (f_head f + (i - n) + ?n) mod ?n" by (simp only: mod_add_left_eq)
      then have "(?h + i) mod ?n = (f_head f + (i - n)) mod ?n" by simp
      then show ?thesis using False i nth_contents [OF assms(1), of "i - n"] by (simp add: nth_append)
    qed
  qed
  then show thesis using r g by (intro that [of ?g "map ((!) (contents ?g)) [0..<n]"]) auto
qed

lemma copy_into_junk:
  assumes "length junk = length src" "n \<le> length src"
  shows "copy_into (copy_into (junk @ zs) 0 (take n src)) n (drop n src) = src @ zs"
  using assms by (simp add: copy_into_def)

lemma unget_ok:
  assumes "fifo_ok f" "fits f (length src)" "0 < f_len f \<or> src \<noteq> []"
  obtains g where "unget u src f = (Inr (), g)" "fifo_ok g" "contents g = src @ contents f"
proof -
  obtain h where h: "ensure_unused_capacity u (length src) f = (Inr (), h)" "fifo_ok h" "contents h = contents f"
    "f_count h = f_count f" "f_count h + length src \<le> f_len h"
    using ensure_unused_ok [OF assms(1), of u "length src"] assms(2) by metis
  have "0 < f_len h"
  proof (cases "src = []")
    case True
    then show ?thesis using h(1) assms(3) by (simp add: ensure_unused_capacity_def)
  next
    case False
    then have "0 < length src" by simp
    then show ?thesis using h(5) by linarith
  qed
  then obtain g junk where g: "rewind (length src) h = (Inr (), g)" "fifo_ok g" "contents g = junk @ contents h"
    "length junk = length src" "f_count g = f_count h + length src"
    using rewind_ok [OF h(2) _ h(5)] by metis
  obtain s e where se: "readable_range 0 g = (s, e)" by (cases "readable_range 0 g")
  note r = readable_range_ok [OF g(2) _ se]
  define n where "n = min (e - s) (length src)"
  let ?g = "g\<lparr>f_buf := copy_into (f_buf g) s (take n src)\<rparr>"
  have n: "n \<le> length src" "n \<le> e - s" by (auto simp: n_def)
  have c1: "contents ?g = copy_into (contents g) 0 (take n src)" "fifo_ok ?g"
    using contents_copy [OF g(2), of 0 "take n src" s] n r(1,2,3,5) g(5) by auto
  show thesis
  proof (cases "length src > e - s")
    case False
    then have "unget u src f = (Inr (), ?g)" "n = length src"
      using h(1) g(1) se by (simp_all add: unget_def n_def Let_def)
    then show thesis
      using c1 g(3,4) h(3) by (intro that [of ?g]) (simp_all add: copy_into_def)
  next
    case True
    then have ns: "n = e - s" by (simp add: n_def)
    obtain s2 e2 where se2: "readable_range n ?g = (s2, e2)" by (cases "readable_range n ?g")
    note r2 = readable_range_ok [OF c1(2) _ se2]
    have "e - s < f_count g" using True g(5) by linarith
    then have "s = f_head g" "e = f_len g" "f_head g < f_len g"
      using se r(6) by (auto simp: readable_range_def Let_def split: if_splits)
    moreover have "f_len ?g = f_len g" using n r(1,2) by (simp add: length_copy_into)
    ultimately have "s2 = 0" "e2 = f_count g - n"
      using se2 ns \<open>e - s < f_count g\<close> by (auto simp: readable_range_def Let_def split: if_splits)
    then have e2: "f_count ?g - n \<le> e2 - s2" "n \<le> f_count ?g" using g(5) n(1) by auto
    let ?k = "?g\<lparr>f_buf := copy_into (f_buf ?g) s2 (drop n src)\<rparr>"
    have "contents ?k = copy_into (contents ?g) n (drop n src)" "fifo_ok ?k"
      using contents_copy [OF c1(2), of n "drop n src" s2] r2(1,2,5) e2 g(5) by auto
    moreover have "unget u src f = (Inr (), ?k)"
      using h(1) g(1) se se2 True ns by (simp add: unget_def Let_def flip: n_def)
    ultimately show thesis
      using c1(1) g(3,4) h(3) copy_into_junk [OF g(4) n(1)] by (intro that [of ?k]) simp_all
  qed
qed

section \<open>The queue contract\<close>

text \<open>
  A session of a client: \<open>Inl xs\<close> writes \<open>xs\<close>, \<open>Inr n\<close> reads up to \<open>n\<close> items. It gives what was
  written (the writes that succeeded), what was read, and the final state.
\<close>

fun session ::
  "('a list \<Rightarrow> 's \<Rightarrow> ('e + unit) \<times> 's) \<Rightarrow> (nat \<Rightarrow> 's \<Rightarrow> ('e + 'a list) \<times> 's) \<Rightarrow>
   ('a list + nat) list \<Rightarrow> 's \<Rightarrow> 'a list \<times> 'a list \<times> 's"
where
  "session put get [] s = ([], [], s)"
| "session put get (Inl xs # cs) s =
     (let (r, s') = put xs s; (w, rd, t) = session put get cs s'
      in (case r of Inr _ \<Rightarrow> xs @ w | Inl _ \<Rightarrow> w, rd, t))"
| "session put get (Inr n # cs) s =
     (let (r, s') = get n s; (w, rd, t) = session put get cs s'
      in (w, case r of Inr ys \<Rightarrow> ys @ rd | Inl _ \<Rightarrow> rd, t))"

locale item_queue =
  fixes ok :: "'s \<Rightarrow> bool"
    and items :: "'s \<Rightarrow> 'a list"
    and put :: "'a list \<Rightarrow> 's \<Rightarrow> ('e + unit) \<times> 's"
    and get :: "nat \<Rightarrow> 's \<Rightarrow> ('e + 'a list) \<times> 's"
  assumes put_ok: "ok s \<Longrightarrow> put xs s = (r, s') \<Longrightarrow>
      ok s' \<and> items s' = (case r of Inr _ \<Rightarrow> items s @ xs | Inl _ \<Rightarrow> items s)"
    and get_ok: "ok s \<Longrightarrow> get n s = (r', s') \<Longrightarrow>
      ok s' \<and> r' = Inr (take n (items s)) \<and> items s' = drop n (items s)"
begin

lemma session_fifo:
  assumes "ok s" "session put get cs s = (w, rd, t)"
  shows "ok t \<and> items s @ w = rd @ items t"
  using assms
proof (induction cs arbitrary: s w rd t)
  case Nil
  then show ?case by simp
next
  case (Cons c cs)
  show ?case
  proof (cases c)
    case (Inl xs)
    obtain r s' where p: "put xs s = (r, s')" by (cases "put xs s")
    obtain w' rd' t' where st: "session put get cs s' = (w', rd', t')" by (cases "session put get cs s'")
    have "ok s'" "items s' = (case r of Inr _ \<Rightarrow> items s @ xs | Inl _ \<Rightarrow> items s)"
      using put_ok [OF Cons.prems(1) p] by auto
    then show ?thesis
      using Cons.IH [OF _ st] Cons.prems(2) Inl p st by (cases r) auto
  next
    case (Inr n)
    obtain r s' where p: "get n s = (r, s')" by (cases "get n s")
    obtain w' rd' t' where st: "session put get cs s' = (w', rd', t')" by (cases "session put get cs s'")
    have "ok s'" "r = Inr (take n (items s))" "items s' = drop n (items s)"
      using get_ok [OF Cons.prems(1) p] by auto
    moreover from this have "items s @ w' = take n (items s) @ rd' @ items t'"
      using Cons.IH [OF _ st] by (metis append_assoc append_take_drop_id)
    ultimately show ?thesis using Cons.IH [OF _ st] Cons.prems(2) Inr p st by simp
  qed
qed

end

interpretation ring: item_queue fifo_ok contents "fifo_write u" read_loop for u :: 'a
proof unfold_locales
  fix f g :: "'a fifo" and xs r
  assume f: "fifo_ok f" "fifo_write u xs f = (r, g)"
  show "fifo_ok g \<and> contents g = (case r of Inr _ \<Rightarrow> contents f @ xs | Inl _ \<Rightarrow> contents f)"
    by (rule fifo_write_ok [OF f(1), of u xs]) (use f(2) in \<open>auto split: if_splits\<close>)
next
  fix f g :: "'a fifo" and n r
  assume "fifo_ok f" "read_loop n f = (r, g)"
  then show "fifo_ok g \<and> r = Inr (take n (contents f)) \<and> contents g = drop n (contents f)"
    using read_loop_ok [of f n] by auto
qed

lemma init_ok [simp]:
  "fifo_ok init_dynamic" "contents init_dynamic = []"
  "fifo_ok (init_static (x # b))" "contents (init_static b) = []"
  by (simp_all add: fifo_ok_def init_dynamic_def init_static_def contents_def)

section \<open>What the ring guarantees\<close>

text \<open>
  C24. First in, first out: over any sequence of writes and reads on a fresh ring, static or dynamic,
  what was written is what was read followed by what the ring still holds. No item is lost,
  duplicated or reordered by wrapping around, growing or realigning, and a write that fails leaves
  the items as they were.
\<close>

theorem fifo_order:
  "(case session (fifo_write u) read_loop cs init_dynamic of
      (written, read, f) \<Rightarrow> written = read @ contents f \<and> fifo_ok f)
   \<and> (case session (fifo_write u) read_loop cs (init_static (x # b)) of
        (written, read, f) \<Rightarrow> written = read @ contents f \<and> fifo_ok f)"
  using ring.session_fifo [of init_dynamic u cs] ring.session_fifo [of "init_static (x # b)" u cs]
  by (auto split: prod.splits)

text \<open>
  C38. \<^verbatim>\<open>write\<close> appends all of its source when it fits, and otherwise reports \<^verbatim>\<open>AllocError\<close> and keeps the
  items; it never panics. A static ring has room exactly up to its buffer, a dynamic one up to the
  largest power of two in \<^verbatim>\<open>usize\<close>.
\<close>

theorem write_correct:
  assumes "fifo_ok f"
  shows "case fifo_write u src f of (r, g) \<Rightarrow>
    fifo_ok g
    \<and> (if fits f (length src) then r = Inr () \<and> contents g = contents f @ src
       else r = Inl AllocError \<and> contents g = contents f)"
  by (rule fifo_write_ok [OF assms, of u src]) auto

theorem write_correct_witness:
  "fst (fifo_write (0::nat) [1, 2, 3] (init_static [0, 0])) = Inl AllocError"
proof -
  let ?f = "init_static [0, 0::nat]"
  have "fifo_ok ?f" "\<not> fits ?f (length [1, 2, 3::nat])" by code_simp+
  then show ?thesis
    using write_correct [where f = ?f and u = 0 and src = "[1, 2, 3]"]
    by (cases "fifo_write 0 [1, 2, 3] ?f") simp
qed

text \<open>
  \<^verbatim>\<open>unget\<close> puts items back in front, across the end of the buffer and with growing where needed.
\<close>

theorem unget_correct:
  assumes "fifo_ok f" "fits f (length src)" "0 < f_len f \<or> src \<noteq> []"
  shows "case unget u src f of (r, g) \<Rightarrow> r = Inr () \<and> fifo_ok g \<and> contents g = src @ contents f"
  by (rule unget_ok [OF assms, of u]) auto

theorem unget_correct_witness:
  "contents (snd (unget (0::nat) [7, 8]
     \<lparr>f_buf = [1, 2, 3, 4], f_head = 1, f_count = 2, f_dynamic = False\<rparr>)) = [7, 8, 2, 3]"
proof -
  let ?f = "\<lparr>f_buf = [1, 2, 3, 4::nat], f_head = 1, f_count = 2, f_dynamic = False\<rparr>"
  have "fifo_ok ?f" "fits ?f (length [7, 8::nat])" "contents ?f = [2, 3]" by code_simp+
  then show ?thesis
    using unget_correct [where f = ?f and src = "[7, 8]" and u = 0] by (cases "unget 0 [7, 8] ?f") simp
qed

text \<open>
  The one input \<^verbatim>\<open>unget\<close> does not take: putting nothing back into a fresh dynamic ring, where
  \<^verbatim>\<open>rewind\<close> computes \<^verbatim>\<open>buf_len() - 1\<close> on a buffer of length zero.
\<close>

theorem unget_nothing_overflows: "unget u [] init_dynamic = (Inl Panic, init_dynamic)"
  by (simp add: unget_def ensure_unused_capacity_def writable_length_def rewind_def wrap_index_def init_dynamic_def)

text \<open>
  \<^verbatim>\<open>ordered_remove_item\<close> removes exactly one item and keeps the order of the others, in each of its
  four cases: at the front, in a contiguous ring, and before or after the point where the ring wraps.
\<close>

theorem ordered_remove_item_correct:
  assumes "fifo_ok f" "offset < f_count f"
  shows "case ordered_remove_item offset f of (r, g) \<Rightarrow>
    r = Inr () \<and> fifo_ok g
    \<and> contents g = take offset (contents f) @ drop (Suc offset) (contents f)"
  by (rule ordered_remove_item_ok [OF assms]) auto

theorem ordered_remove_item_correct_witness:
  "contents (snd (ordered_remove_item 1
     \<lparr>f_buf = [3, 4, 1, 2::nat], f_head = 2, f_count = 4, f_dynamic = True\<rparr>)) = [1, 3, 4]"
proof -
  let ?f = "\<lparr>f_buf = [3, 4, 1, 2::nat], f_head = 2, f_count = 4, f_dynamic = True\<rparr>"
  have "fifo_ok ?f" "contents ?f = [1, 2, 3, 4]" by code_simp+
  then show ?thesis
    using ordered_remove_item_correct [where f = ?f and offset = 1] by (cases "ordered_remove_item 1 ?f") simp
qed

text \<open>
  Every slice the ring hands out lies within its buffer, whether the ring wraps or not, so that
  neither indexing nor the unchecked copies leave it; the first readable slice is empty only when the
  ring is, which is why the copying loops make progress.
\<close>

theorem ring_slices_in_bounds:
  assumes "fifo_ok f" "offset \<le> f_count f"
  shows "(case readable_range offset f of (start, end') \<Rightarrow>
      start \<le> end' \<and> end' \<le> f_len f \<and> (offset = f_count f \<or> start < end'))
    \<and> (case writable_range 0 f of
         Inl _ \<Rightarrow> False
       | Inr (start, end') \<Rightarrow>
           start \<le> end' \<and> end' \<le> f_len f \<and> (f_count f = f_len f \<or> start < end'))"
proof -
  obtain s e where "readable_range offset f = (s, e)" by (cases "readable_range offset f")
  moreover obtain s' e' where "writable_range 0 f = Inr (s', e')" "s' \<le> e'" "e' \<le> f_len f"
    "f_count f < f_len f \<longrightarrow> s' < e'"
    by (rule writable_range_ok [OF assms(1)])
  ultimately show ?thesis
    using readable_range_ok(1,2,4) [OF assms] fifo_okD(1) [OF assms(1)] assms(2) by fastforce
qed

theorem ring_slices_in_bounds_witness:
  "readable_range 0 \<lparr>f_buf = [3, 4, 1, 2::nat], f_head = 2, f_count = 4, f_dynamic = True\<rparr> = (2, 4)
   \<and> 4 \<le> length [3, 4, 1, 2::nat]"
proof -
  let ?f = "\<lparr>f_buf = [3, 4, 1, 2::nat], f_head = 2, f_count = 4, f_dynamic = True\<rparr>"
  have "fifo_ok ?f" "readable_range 0 ?f = (2, 4)" by code_simp+
  then show ?thesis using ring_slices_in_bounds [where f = ?f and offset = 0] by simp
qed

text \<open>
  \<^verbatim>\<open>read\<close> moves the oldest items into the front of its destination, as many as fit, leaves the rest of
  the destination alone and reports how many it moved; \<^verbatim>\<open>read_item\<close> moves one.
\<close>

theorem read_correct:
  assumes "fifo_ok f"
  shows "(case fifo_read dst f of (r, g) \<Rightarrow>
      let n = min (length dst) (f_count f)
      in r = Inr (take n (contents f) @ drop n dst, n) \<and> fifo_ok g \<and> contents g = drop n (contents f))
    \<and> (case read_item f of (r, g) \<Rightarrow>
      r = Inr (if f_count f = 0 then None else Some (hd (contents f))) \<and> fifo_ok g
      \<and> contents g = tl (contents f))"
proof
  have len: "length (contents f) = f_count f" using assms by simp
  show "case fifo_read dst f of (r, g) \<Rightarrow>
      let n = min (length dst) (f_count f)
      in r = Inr (take n (contents f) @ drop n dst, n) \<and> fifo_ok g \<and> contents g = drop n (contents f)"
    using read_loop_ok [OF assms, of "length dst"] len
    by (cases "length dst \<le> f_count f") (auto simp: fifo_read_def copy_into_def min_def)
  show "case read_item f of (r, g) \<Rightarrow>
      r = Inr (if f_count f = 0 then None else Some (hd (contents f))) \<and> fifo_ok g
      \<and> contents g = tl (contents f)"
    using read_item_ok [OF assms] len assms by (cases "contents f") auto
qed

theorem read_correct_witness:
  "fst (fifo_read [9, 9, 9, 9, 9] \<lparr>f_buf = [3, 4, 1, 2::nat], f_head = 2, f_count = 3, f_dynamic = True\<rparr>)
   = Inr ([1, 2, 3, 9, 9], 3)"
proof -
  let ?f = "\<lparr>f_buf = [3, 4, 1, 2::nat], f_head = 2, f_count = 3, f_dynamic = True\<rparr>"
  have "fifo_ok ?f" "contents ?f = [1, 2, 3]" by code_simp+
  then show ?thesis
    using read_correct [where f = ?f and dst = "[9, 9, 9, 9, 9]"]
    by (cases "fifo_read [9, 9, 9, 9, 9] ?f") simp
qed

end
