(* ===== verification/SignalRing.thy ===== *)
theory SignalRing
  imports FutexMutex LinearFifo
begin

text \<open>
  \<^verbatim>\<open>src/threading/signal_ring.rs\<close>: the lock-free ring through which signal handlers hand signal numbers to
  the event loop. One 32-bit word holds the consumer's and the producers' 16-bit indices, so that one
  compare-and-swap claims a slot; the slot is written afterwards. Each call of \<^verbatim>\<open>enqueue\<close>, also one nested
  in another on the same thread, is a producer of its own.
\<close>

section \<open>State\<close>

type_synonym u16 = "16 word"

abbreviation FREE :: u8 where "FREE \<equiv> CHR 0x00"

definition unpack :: "u32 \<Rightarrow> u16 \<times> u16" where
  "unpack st = (ucast st, ucast (drop_bit 16 st))"

definition pack :: "u16 \<Rightarrow> u16 \<Rightarrow> u32" where
  "pack head tail = push_bit 16 (ucast tail) OR ucast head"

datatype producer =
    PIdle
  | PClaim u8 u32      \<comment> \<open>about to compare and swap the word it saw\<close>
  | PStore u8 u16      \<comment> \<open>about to write the slot of the index it claimed\<close>

datatype consumer =
    CIdle
  | CSwap u32          \<comment> \<open>about to take the slot of the head it saw\<close>
  | CAdvance u8 u16 u32 \<comment> \<open>about to move the head past the signal it took\<close>

record ring =
  slots :: "u8 list"
  rstate :: u32
  prods :: "tid \<Rightarrow> producer"
  cons :: consumer

datatype ring_event = Silent | Accept u8 | Reject | Deliver u8 | Empty | Unwritten

definition capacity_is_valid :: "nat \<Rightarrow> bool" where
  "capacity_is_valid cap \<longleftrightarrow> is_power_of_two cap \<and> cap \<le> 2 ^ 15"

definition ring_new :: "nat \<Rightarrow> ring" where
  "ring_new cap = \<lparr>slots = replicate cap FREE, rstate = 0, prods = (\<lambda>_. PIdle), cons = CIdle\<rparr>"

definition slot_of :: "ring \<Rightarrow> u16 \<Rightarrow> nat" where
  "slot_of r index = unat index mod length (slots r)"

section \<open>Instructions\<close>

text \<open>What \<^verbatim>\<open>enqueue\<close> does with a word it just read: it gives up when the ring is full.\<close>

definition saw :: "ring \<Rightarrow> tid \<Rightarrow> u8 \<Rightarrow> ring_event \<times> ring" where
  "saw r t signal =
     (let (head, tail) = unpack (rstate r)
      in if unat (tail - head) \<ge> length (slots r)
         then (Reject, r\<lparr>prods := (prods r)(t := PIdle)\<rparr>)
         else (Silent, r\<lparr>prods := (prods r)(t := PClaim signal (rstate r))\<rparr>))"

inductive ring_step :: "ring \<Rightarrow> ring_event \<Rightarrow> ring \<Rightarrow> bool" where
  enqueue_load: "prods r t = PIdle \<Longrightarrow> signal \<noteq> FREE \<Longrightarrow> saw r t signal = (e, r') \<Longrightarrow> ring_step r e r'"
| enqueue_claim: "prods r t = PClaim signal st \<Longrightarrow> rstate r = st \<Longrightarrow> unpack st = (head, tail) \<Longrightarrow>
    ring_step r (Accept signal)
      (r\<lparr>rstate := pack head (tail + 1), prods := (prods r)(t := PStore signal tail)\<rparr>)"
| enqueue_retry: "prods r t = PClaim signal st \<Longrightarrow> saw r t signal = (e, r') \<Longrightarrow> ring_step r e r'"
| enqueue_store: "prods r t = PStore signal tail \<Longrightarrow>
    ring_step r Silent
      (r\<lparr>slots := (slots r)[slot_of r tail := signal], prods := (prods r)(t := PIdle)\<rparr>)"
| dequeue_empty: "cons r = CIdle \<Longrightarrow> unpack (rstate r) = (head, tail) \<Longrightarrow> head = tail \<Longrightarrow> ring_step r Empty r"
| dequeue_load: "cons r = CIdle \<Longrightarrow> unpack (rstate r) = (head, tail) \<Longrightarrow> head \<noteq> tail \<Longrightarrow>
    ring_step r Silent (r\<lparr>cons := CSwap (rstate r)\<rparr>)"
| dequeue_swap: "cons r = CSwap st \<Longrightarrow> unpack st = (head, tail) \<Longrightarrow> slots r ! slot_of r head = signal \<Longrightarrow>
    ring_step r (if signal = FREE then Unwritten else Silent)
      (r\<lparr>slots := (slots r)[slot_of r head := FREE],
         cons := if signal = FREE then CIdle else CAdvance signal head st\<rparr>)"
| dequeue_advance: "cons r = CAdvance signal head st \<Longrightarrow> rstate r = st \<Longrightarrow> unpack st = (head', tail) \<Longrightarrow>
    ring_step r (Deliver signal) (r\<lparr>rstate := pack (head + 1) tail, cons := CIdle\<rparr>)"
| dequeue_retry: "cons r = CAdvance signal head st \<Longrightarrow>
    ring_step r Silent (r\<lparr>cons := CAdvance signal head (rstate r)\<rparr>)"

text \<open>The queue of accepted and not yet delivered signals that the ring stands for\<close>

fun signal_queue :: "nat \<Rightarrow> u8 list \<Rightarrow> ring_event \<Rightarrow> u8 list option" where
  "signal_queue cap q Silent = Some q"
| "signal_queue cap q (Accept s) = (if length q < cap then Some (q @ [s]) else None)"
| "signal_queue cap q Reject = (if length q = cap then Some q else None)"
| "signal_queue cap q (Deliver s) = (case q of [] \<Rightarrow> None | x # xs \<Rightarrow> if x = s then Some xs else None)"
| "signal_queue cap q Empty = (if q = [] then Some q else None)"
| "signal_queue cap q Unwritten = (if q = [] then None else Some q)"

section \<open>Indices\<close>

lemma unpack_pack [simp]: "unpack (pack h t) = (h, t)"
proof -
  have "ucast (pack h t) = h"
    by (rule bit_word_eqI) (auto simp: pack_def bit_simps)
  moreover have "ucast (drop_bit 16 (pack h t)) = t"
    by (rule bit_word_eqI) (auto simp: pack_def bit_simps dest: bit_imp_le_length)
  ultimately show ?thesis by (simp add: unpack_def)
qed

lemma capacity_dvd: "capacity_is_valid cap \<Longrightarrow> cap dvd 2 ^ 16" "capacity_is_valid cap \<Longrightarrow> 0 < cap \<and> cap < 2 ^ 16"
proof -
  assume "capacity_is_valid cap"
  then obtain k where k: "cap = 2 ^ k" "(2::nat) ^ k \<le> 2 ^ 15"
    by (auto simp: capacity_is_valid_def is_power_of_two_iff)
  then have "k \<le> 15" using power_le_imp_le_exp [of "2::nat" k 15] by simp
  then show "cap dvd 2 ^ 16" unfolding k(1) by (intro le_imp_power_dvd) simp
  show "0 < cap \<and> cap < 2 ^ 16" using k by simp
qed

text \<open>The slot of the \<open>i\<close>-th index after \<open>h\<close>: the 16-bit wrap-around does not show.\<close>

lemma unat_index_mod:
  assumes "capacity_is_valid cap"
  shows "unat (h + of_nat i :: u16) mod cap = (unat h + i) mod cap"
  using capacity_dvd(1) [OF assms]
  by (simp add: unat_word_ariths unsigned_of_nat take_bit_eq_mod mod_mod_cancel mod_add_right_eq)

lemma slot_inj:
  assumes "capacity_is_valid cap" "i < cap" "j < cap"
    and "unat (h + of_nat i :: u16) mod cap = unat (h + of_nat j :: u16) mod cap"
  shows "i = j"
  using add_mod_inj [of "unat h" i cap j] assms by (simp add: unat_index_mod)

section \<open>Simulation\<close>

text \<open>
  The ring stands for the queue \<open>q\<close>: its window of slots holds the signals of \<open>q\<close>, except for the slots
  that are claimed and not written, each of which has one producer about to write it, and for the
  slot the consumer has taken but not passed. All other slots are free.
\<close>

definition head_of :: "ring \<Rightarrow> u16" where
  "head_of r = fst (unpack (rstate r))"

definition tail_of :: "ring \<Rightarrow> u16" where
  "tail_of r = snd (unpack (rstate r))"

abbreviation nth_index :: "ring \<Rightarrow> nat \<Rightarrow> u16" where
  "nth_index r i \<equiv> head_of r + of_nat i"

definition taken :: "ring \<Rightarrow> bool" where
  "taken r \<longleftrightarrow> (case cons r of CAdvance _ _ _ \<Rightarrow> True | _ \<Rightarrow> False)"

definition window :: "ring \<Rightarrow> u8 list \<Rightarrow> bool" where
  "window r q \<longleftrightarrow>
     length q \<le> length (slots r) \<and> tail_of r = nth_index r (length q)
     \<and> (\<forall>i < length q. q ! i \<noteq> FREE \<and>
          (if taken r \<and> i = 0 then slots r ! slot_of r (nth_index r i) = FREE
           else slots r ! slot_of r (nth_index r i) = q ! i
             \<or> slots r ! slot_of r (nth_index r i) = FREE \<and> (\<exists>t. prods r t = PStore (q ! i) (nth_index r i))))
     \<and> (\<forall>k < length (slots r). (\<forall>i < length q. k \<noteq> slot_of r (nth_index r i)) \<longrightarrow> slots r ! k = FREE)"

definition producers_ok :: "ring \<Rightarrow> u8 list \<Rightarrow> bool" where
  "producers_ok r q \<longleftrightarrow>
     (\<forall>t s x. prods r t = PStore s x \<longrightarrow>
        (\<exists>i < length q. x = nth_index r i \<and> s = q ! i \<and> slots r ! slot_of r x = FREE \<and> \<not> (taken r \<and> i = 0)))
     \<and> (\<forall>t u s s' x. prods r t = PStore s x \<and> prods r u = PStore s' x \<longrightarrow> t = u)
     \<and> (\<forall>t s st. prods r t = PClaim s st \<longrightarrow>
          s \<noteq> FREE \<and> unat (snd (unpack st) - fst (unpack st)) < length (slots r))"

definition consumer_ok :: "ring \<Rightarrow> u8 list \<Rightarrow> bool" where
  "consumer_ok r q \<longleftrightarrow>
     (case cons r of
        CIdle \<Rightarrow> True
      | CSwap st \<Rightarrow> q \<noteq> [] \<and> fst (unpack st) = head_of r
      | CAdvance s h st \<Rightarrow> q \<noteq> [] \<and> s = q ! 0 \<and> h = head_of r \<and> fst (unpack st) = head_of r)"

definition ring_rel :: "nat \<Rightarrow> ring \<Rightarrow> u8 list \<Rightarrow> bool" where
  "ring_rel cap r q \<longleftrightarrow> length (slots r) = cap \<and> window r q \<and> producers_ok r q \<and> consumer_ok r q"

lemma ring_rel_new: "capacity_is_valid cap \<Longrightarrow> ring_rel cap (ring_new cap) []"
  by (auto simp: ring_rel_def window_def producers_ok_def consumer_ok_def ring_new_def head_of_def tail_of_def
      unpack_def)

lemma window_count:
  assumes "capacity_is_valid cap" "ring_rel cap r q"
  shows "unat (tail_of r - head_of r) = length q" "length q \<le> cap"
proof -
  show "length q \<le> cap" using assms(2) by (simp add: ring_rel_def window_def)
  then have "length q < 2 ^ 16" using capacity_dvd(2) [OF assms(1)] by simp
  then show "unat (tail_of r - head_of r) = length q"
    using assms(2) by (simp add: ring_rel_def window_def unsigned_of_nat take_bit_eq_mod)
qed

lemma index_simps [simp]:
  "head_of (r\<lparr>prods := f\<rparr>) = head_of r" "tail_of (r\<lparr>prods := f\<rparr>) = tail_of r"
  "head_of (r\<lparr>cons := c\<rparr>) = head_of r" "tail_of (r\<lparr>cons := c\<rparr>) = tail_of r"
  "head_of (r\<lparr>slots := x\<rparr>) = head_of r" "tail_of (r\<lparr>slots := x\<rparr>) = tail_of r"
  "head_of (r\<lparr>rstate := pack h t\<rparr>) = h" "tail_of (r\<lparr>rstate := pack h t\<rparr>) = t"
  "slot_of (r\<lparr>prods := f\<rparr>) i = slot_of r i" "slot_of (r\<lparr>cons := c\<rparr>) i = slot_of r i"
  "slot_of (r\<lparr>rstate := w\<rparr>) i = slot_of r i" "slot_of (r\<lparr>slots := (slots r)[k := v]\<rparr>) i = slot_of r i"
  "taken (r\<lparr>prods := f\<rparr>) = taken r" "taken (r\<lparr>slots := x\<rparr>) = taken r" "taken (r\<lparr>rstate := w\<rparr>) = taken r"
  by (simp_all add: head_of_def tail_of_def slot_of_def taken_def)

lemma slot_of_inj:
  assumes "capacity_is_valid cap" "length (slots r) = cap" "i < cap" "j < cap"
  shows "slot_of r (nth_index r i) = slot_of r (nth_index r j) \<longleftrightarrow> i = j"
  using slot_inj [OF assms(1,3,4), of "head_of r"] assms(2) by (auto simp: slot_of_def)

lemma nth_index_inj:
  assumes "capacity_is_valid cap" "length (slots r) = cap" "i \<le> cap" "j \<le> cap" "nth_index r i = nth_index r j"
  shows "i = j"
proof -
  have "i < 2 ^ 16" "j < 2 ^ 16" using assms(3,4) capacity_dvd(2) [OF assms(1)] by auto
  then have "unat (of_nat i :: u16) = i" "unat (of_nat j :: u16) = j" by (auto simp: unsigned_of_nat take_bit_eq_mod)
  moreover have "(of_nat i :: u16) = of_nat j" using assms(5) by simp
  ultimately show ?thesis by metis
qed

lemma slot_of_less: "capacity_is_valid cap \<Longrightarrow> length (slots r) = cap \<Longrightarrow> slot_of r x < cap"
  using capacity_dvd(2) [of cap] by (simp add: slot_of_def)

text \<open>A producer that neither owns nor gains a slot\<close>

lemma rel_producer:
  assumes "ring_rel cap r q" "\<And>s x. prods r t \<noteq> PStore s x" "\<And>s x. p \<noteq> PStore s x"
    and "\<And>s st. p = PClaim s st \<Longrightarrow> s \<noteq> FREE \<and> unat (snd (unpack st) - fst (unpack st)) < cap"
  shows "ring_rel cap (r\<lparr>prods := (prods r)(t := p)\<rparr>) q"
proof -
  have st: "((prods r)(t := p)) u = PStore s x \<longleftrightarrow> prods r u = PStore s x" for u s x using assms(2,3) by auto
  have "window (r\<lparr>prods := (prods r)(t := p)\<rparr>) q = window r q"
    by (simp add: window_def st del: fun_upd_apply)
  moreover have "producers_ok (r\<lparr>prods := (prods r)(t := p)\<rparr>) q"
    unfolding producers_ok_def
  proof (intro conjI)
    show "\<forall>u s w. prods (r\<lparr>prods := (prods r)(t := p)\<rparr>) u = PClaim s w \<longrightarrow>
        s \<noteq> FREE \<and> unat (snd (unpack w) - fst (unpack w)) < length (slots (r\<lparr>prods := (prods r)(t := p)\<rparr>))"
      using assms(1,4) by (auto simp: ring_rel_def producers_ok_def)
  qed (use assms(1) in \<open>simp_all add: ring_rel_def producers_ok_def st del: fun_upd_apply\<close>)
  moreover have "consumer_ok (r\<lparr>prods := (prods r)(t := p)\<rparr>) q = consumer_ok r q"
    by (simp add: consumer_ok_def split: consumer.split)
  ultimately show ?thesis using assms(1) by (simp add: ring_rel_def)
qed

lemma step_saw:
  assumes "capacity_is_valid cap" "ring_rel cap r q" "saw r t signal = (e, r')" "signal \<noteq> FREE"
    and "\<And>s x. prods r t \<noteq> PStore s x"
  shows "\<exists>q'. signal_queue cap q e = Some q' \<and> ring_rel cap r' q'"
proof -
  have c: "length (slots r) = cap" using assms(2) by (simp add: ring_rel_def)
  note n = window_count [OF assms(1,2)]
  show ?thesis
  proof (cases "length q \<ge> cap")
    case True
    then have "e = Reject" "r' = r\<lparr>prods := (prods r)(t := PIdle)\<rparr>"
      using assms(3) c n by (auto simp: saw_def head_of_def tail_of_def Let_def split: prod.splits)
    then show ?thesis using True n(2) rel_producer [OF assms(2,5), of PIdle] by simp
  next
    case False
    then have "e = Silent" "r' = r\<lparr>prods := (prods r)(t := PClaim signal (rstate r))\<rparr>"
      using assms(3) c n by (auto simp: saw_def head_of_def tail_of_def Let_def split: prod.splits)
    then show ?thesis
      using False n(1) rel_producer [OF assms(2,5), of "PClaim signal (rstate r)"] assms(4)
      by (simp add: head_of_def tail_of_def)
  qed
qed

text \<open>\<^verbatim>\<open>enqueue\<close>: the compare-and-swap claims the next index.\<close>

lemma windowD:
  assumes "window r q" "i < length q"
  shows "q ! i \<noteq> FREE"
    and "taken r \<Longrightarrow> i = 0 \<Longrightarrow> slots r ! slot_of r (nth_index r i) = FREE"
    and "\<not> (taken r \<and> i = 0) \<Longrightarrow> slots r ! slot_of r (nth_index r i) = q ! i
      \<or> slots r ! slot_of r (nth_index r i) = FREE \<and> (\<exists>t. prods r t = PStore (q ! i) (nth_index r i))"
  using assms unfolding window_def by auto

lemma windowI:
  assumes "length q \<le> length (slots r)" "tail_of r = nth_index r (length q)"
    and "\<And>i. i < length q \<Longrightarrow> q ! i \<noteq> FREE"
    and "taken r \<Longrightarrow> 0 < length q \<Longrightarrow> slots r ! slot_of r (nth_index r 0) = FREE"
    and "\<And>i. i < length q \<Longrightarrow> \<not> (taken r \<and> i = 0) \<Longrightarrow> slots r ! slot_of r (nth_index r i) = q ! i
      \<or> slots r ! slot_of r (nth_index r i) = FREE \<and> (\<exists>t. prods r t = PStore (q ! i) (nth_index r i))"
    and "\<And>k. k < length (slots r) \<Longrightarrow> (\<And>i. i < length q \<Longrightarrow> k \<noteq> slot_of r (nth_index r i)) \<Longrightarrow> slots r ! k = FREE"
  shows "window r q"
  unfolding window_def
proof (intro conjI allI impI)
  fix i assume i: "i < length q"
  show "if taken r \<and> i = 0 then slots r ! slot_of r (nth_index r i) = FREE
    else slots r ! slot_of r (nth_index r i) = q ! i
      \<or> slots r ! slot_of r (nth_index r i) = FREE \<and> (\<exists>t. prods r t = PStore (q ! i) (nth_index r i))"
  proof (cases "taken r \<and> i = 0")
    case True
    then show ?thesis using assms(4) i by auto
  next
    case False
    show ?thesis unfolding if_not_P [OF False] by (rule assms(5) [OF i False])
  qed
qed (use assms(1-3,6) in blast)+

lemma step_claim:
  assumes "capacity_is_valid cap" "ring_rel cap r q" "prods r t = PClaim signal st"
    and "rstate r = st" "unpack st = (head, tail)"
  shows "\<exists>q'. signal_queue cap q (Accept signal) = Some q'
    \<and> ring_rel cap (r\<lparr>rstate := pack head (tail + 1), prods := (prods r)(t := PStore signal tail)\<rparr>) q'"
proof -
  have R: "length (slots r) = cap" "window r q" "producers_ok r q" "consumer_ok r q"
    using assms(2) by (auto simp: ring_rel_def)
  have ht: "head = head_of r" "tail = tail_of r" using assms(4,5) by (auto simp: head_of_def tail_of_def)
  have s: "signal \<noteq> FREE" and full: "length q < cap"
    using R(1,3) assms(3-5) window_count(1) [OF assms(1,2)] ht unfolding producers_ok_def by force+
  have tl: "tail = nth_index r (length q)" using R(2) ht by (simp add: window_def)
  let ?r = "r\<lparr>rstate := pack head (tail + 1), prods := (prods r)(t := PStore signal tail)\<rparr>"
  have hd: "head_of ?r = head_of r" "tail_of ?r = tail + 1" "taken ?r = taken r" using ht by simp_all
  have slot: "slot_of ?r x = slot_of r x" "slots ?r = slots r" for x by (simp_all add: slot_of_def)
  have free: "slots r ! slot_of r tail = FREE"
  proof -
    have "slot_of r tail \<noteq> slot_of r (nth_index r i)" if "i < length q" for i
      using slot_of_inj [OF assms(1) R(1), of "length q" i] that full tl by auto
    then show ?thesis
      using R(1,2) slot_of_less [OF assms(1) R(1), of tail] unfolding window_def by blast
  qed
  have w: "window ?r (q @ [signal])"
  proof (rule windowI)
    fix i assume i: "i < length (q @ [signal])"
    show "(q @ [signal]) ! i \<noteq> FREE"
      using i windowD(1) [OF R(2), of i] s by (cases "i < length q") (auto simp: nth_append less_Suc_eq)
    show "slots ?r ! slot_of ?r (nth_index ?r i) = (q @ [signal]) ! i
      \<or> slots ?r ! slot_of ?r (nth_index ?r i) = FREE
        \<and> (\<exists>t. prods ?r t = PStore ((q @ [signal]) ! i) (nth_index ?r i))" if "\<not> (taken ?r \<and> i = 0)"
    proof (cases "i < length q")
      case True
      have k: "\<exists>u. prods ?r u = PStore (q ! i) (nth_index r i)" if ex: "\<exists>u. prods r u = PStore (q ! i) (nth_index r i)"
      proof -
        obtain u where "prods r u = PStore (q ! i) (nth_index r i)" using ex ..
        then have "prods ?r u = PStore (q ! i) (nth_index r i)" using assms(3) by auto
        then show ?thesis ..
      qed
      have n: "(q @ [signal]) ! i = q ! i" using True by (simp add: nth_append)
      show ?thesis using windowD(3) [OF R(2) True] that k unfolding hd slot n by blast
    next
      case False
      then have "i = length q" using i by simp
      then show ?thesis using free tl unfolding hd slot by auto
    qed
  next
    assume "taken ?r"
    then have "taken r" "0 < length q" using R(4) by (auto simp: taken_def consumer_ok_def split: consumer.splits)
    then show "slots ?r ! slot_of ?r (nth_index ?r 0) = FREE" using windowD(2) [OF R(2)] unfolding hd slot by blast
  next
    fix k assume k: "k < length (slots ?r)" "\<And>i. i < length (q @ [signal]) \<Longrightarrow> k \<noteq> slot_of ?r (nth_index ?r i)"
    have "k \<noteq> slot_of r (nth_index r i)" if "i < length q" for i using k(2) [of i] that unfolding hd slot by simp
    then show "slots ?r ! k = FREE" using R(2) k(1) unfolding window_def slot by blast
  qed (use full R(1) tl hd in \<open>simp_all add: add.assoc\<close>)
  have P: "\<exists>i < length q. x = nth_index r i \<and> s = q ! i \<and> slots r ! slot_of r x = FREE \<and> \<not> (taken r \<and> i = 0)"
    if "prods r u = PStore s x" for u s x
    using R(3) that unfolding producers_ok_def by blast
  have new: "x \<noteq> tail" if u: "prods r u = PStore s x" for u s x
  proof -
    obtain i where "i < length q" "x = nth_index r i" using P [OF u] by blast
    then show ?thesis using nth_index_inj [OF assms(1) R(1), of i "length q"] full tl by auto
  qed
  have p: "producers_ok ?r (q @ [signal])"
    unfolding producers_ok_def
  proof (intro conjI allI impI)
    fix u s x assume u: "prods ?r u = PStore s x"
    show "\<exists>i < length (q @ [signal]). x = nth_index ?r i \<and> s = (q @ [signal]) ! i
        \<and> slots ?r ! slot_of ?r x = FREE \<and> \<not> (taken ?r \<and> i = 0)"
    proof (cases "u = t")
      case True
      have "taken r \<Longrightarrow> q \<noteq> []" using R(4) by (auto simp: taken_def consumer_ok_def split: consumer.splits)
      then show ?thesis
        using True u tl free unfolding hd slot by (intro exI [of _ "length q"]) auto
    next
      case False
      then have "prods r u = PStore s x" using u by simp
      then obtain i where "i < length q" "x = nth_index r i" "s = q ! i" "slots r ! slot_of r x = FREE"
        "\<not> (taken r \<and> i = 0)" using P by blast
      then show ?thesis unfolding hd slot by (intro exI [of _ i]) (simp add: nth_append)
    qed
  next
    fix u v s s' x assume "prods ?r u = PStore s x \<and> prods ?r v = PStore s' x"
    then consider "u = t" "v = t" | "x = tail" "\<exists>s u. prods r u = PStore s x"
      | "prods r u = PStore s x" "prods r v = PStore s' x" by (auto split: if_splits)
    then show "u = v" using R(3) new unfolding producers_ok_def by cases blast+
  next
    fix u s st assume "prods ?r u = PClaim s st"
    then have "prods r u = PClaim s st" by (auto split: if_splits)
    then show "s \<noteq> FREE" "unat (snd (unpack st) - fst (unpack st)) < length (slots ?r)"
      using R(3) unfolding producers_ok_def slot by blast+
  qed
  have "consumer_ok ?r (q @ [signal])"
    using R(4) unfolding consumer_ok_def hd by (auto simp: nth_append split: consumer.splits)
  then show ?thesis using w p full R(1) by (simp add: ring_rel_def)
qed

text \<open>\<^verbatim>\<open>enqueue\<close>: the claimed slot is written.\<close>

lemma step_store:
  assumes "capacity_is_valid cap" "ring_rel cap r q" "prods r t = PStore signal tail"
  shows "ring_rel cap (r\<lparr>slots := (slots r)[slot_of r tail := signal], prods := (prods r)(t := PIdle)\<rparr>) q"
proof -
  have R: "length (slots r) = cap" "window r q" "producers_ok r q" "consumer_ok r q"
    using assms(2) by (auto simp: ring_rel_def)
  have P: "\<exists>i < length q. x = nth_index r i \<and> s = q ! i \<and> slots r ! slot_of r x = FREE \<and> \<not> (taken r \<and> i = 0)"
    if "prods r u = PStore s x" for u s x
    using R(3) that unfolding producers_ok_def by blast
  obtain j where j: "j < length q" "tail = nth_index r j" "signal = q ! j" "\<not> (taken r \<and> j = 0)"
    using P [OF assms(3)] by blast
  let ?r = "r\<lparr>slots := (slots r)[slot_of r tail := signal], prods := (prods r)(t := PIdle)\<rparr>"
  have hd: "head_of ?r = head_of r" "tail_of ?r = tail_of r" "taken ?r = taken r" "cons ?r = cons r" by simp_all
  have len: "length (slots ?r) = length (slots r)" by simp
  have slot: "slot_of ?r x = slot_of r x" for x by (simp add: slot_of_def)
  have q: "length q \<le> cap" using R(1,2) by (simp add: window_def)
  have at: "slots ?r ! slot_of r (nth_index r i) = (if i = j then signal else slots r ! slot_of r (nth_index r i))"
    if "i < length q" for i
    using slot_of_inj [OF assms(1) R(1), of i j] that j(1,2) q slot_of_less [OF assms(1) R(1)] R(1)
    by (auto simp: nth_list_update)
  have other: "prods ?r u = PStore (q ! i) (nth_index r i)"
    if "prods r u = PStore (q ! i) (nth_index r i)" "i < length q" "i \<noteq> j" for u i
    using that assms(3) j(2) nth_index_inj [OF assms(1) R(1), of i j] q j(1) by (cases "u = t") auto
  have w: "window ?r q"
  proof (rule windowI)
    fix i assume i: "i < length q" "\<not> (taken ?r \<and> i = 0)"
    show "slots ?r ! slot_of ?r (nth_index ?r i) = q ! i
      \<or> slots ?r ! slot_of ?r (nth_index ?r i) = FREE \<and> (\<exists>t. prods ?r t = PStore (q ! i) (nth_index ?r i))"
    proof (cases "i = j")
      case True
      then show ?thesis using at [OF i(1)] j(3) unfolding hd slot by simp
    next
      case False
      then show ?thesis
        using windowD(3) [OF R(2) i(1)] i(2) at [OF i(1)] other [OF _ i(1) False] unfolding hd slot by metis
    qed
  next
    assume "taken ?r" "0 < length q"
    then show "slots ?r ! slot_of ?r (nth_index ?r 0) = FREE"
      using windowD(2) [OF R(2), of 0] at [of 0] j(4) unfolding hd slot by (auto split: if_splits)
  next
    fix k assume k: "k < length (slots ?r)" "\<And>i. i < length q \<Longrightarrow> k \<noteq> slot_of ?r (nth_index ?r i)"
    then have "k \<noteq> slot_of r tail" using j(1,2) unfolding hd slot by simp
    then have "slots ?r ! k = slots r ! k" by simp
    then show "slots ?r ! k = FREE" using R(2) k unfolding window_def hd slot len by simp
  qed (use R(2) windowD(1) [OF R(2)] in \<open>simp_all add: window_def\<close>)
  have p: "producers_ok ?r q"
    unfolding producers_ok_def
  proof (intro conjI allI impI)
    fix u s x assume "prods ?r u = PStore s x"
    then have u: "u \<noteq> t" "prods r u = PStore s x" by (auto split: if_splits)
    then obtain i where i: "i < length q" "x = nth_index r i" "s = q ! i" "slots r ! slot_of r x = FREE"
      "\<not> (taken r \<and> i = 0)" using P by blast
    have "x \<noteq> tail" using u assms(3) R(3) unfolding producers_ok_def by blast
    then have "i \<noteq> j" using i(2) j(2) by auto
    then show "\<exists>i < length q. x = nth_index ?r i \<and> s = q ! i \<and> slots ?r ! slot_of ?r x = FREE
        \<and> \<not> (taken ?r \<and> i = 0)"
      using i at [OF i(1)] unfolding hd slot by metis
  next
    fix u v s s' x assume "prods ?r u = PStore s x \<and> prods ?r v = PStore s' x"
    then have "prods r u = PStore s x \<and> prods r v = PStore s' x" by (auto split: if_splits)
    then show "u = v" using R(3) unfolding producers_ok_def by blast
  next
    fix u s st assume "prods ?r u = PClaim s st"
    then have "prods r u = PClaim s st" by (auto split: if_splits)
    then show "s \<noteq> FREE" "unat (snd (unpack st) - fst (unpack st)) < length (slots ?r)"
      using R(3) unfolding producers_ok_def len by blast+
  qed
  have "consumer_ok ?r q" using R(4) unfolding consumer_ok_def hd .
  then show ?thesis using w p R(1) by (simp add: ring_rel_def)
qed

text \<open>\<^verbatim>\<open>dequeue\<close>: the signal is taken out of the slot of the head.\<close>

lemma step_swap:
  assumes "capacity_is_valid cap" "ring_rel cap r q" "cons r = CSwap st" "unpack st = (head, tail)"
    and "slots r ! slot_of r head = signal" "signal \<noteq> FREE"
  shows "ring_rel cap (r\<lparr>slots := (slots r)[slot_of r head := FREE], cons := CAdvance signal head st\<rparr>) q"
proof -
  have R: "length (slots r) = cap" "window r q" "producers_ok r q" "consumer_ok r q"
    using assms(2) by (auto simp: ring_rel_def)
  have c: "q \<noteq> []" "head = head_of r" using R(4) assms(3,4) by (auto simp: consumer_ok_def)
  have nt: "\<not> taken r" using assms(3) by (simp add: taken_def)
  have q0: "0 < length q" "length q \<le> cap" using c(1) R(1,2) by (auto simp: window_def)
  have s: "signal = q ! 0" using windowD(3) [OF R(2) q0(1)] nt assms(5,6) c(2) by simp
  let ?r = "r\<lparr>slots := (slots r)[slot_of r head := FREE], cons := CAdvance signal head st\<rparr>"
  have hd: "head_of ?r = head_of r" "tail_of ?r = tail_of r" "prods ?r = prods r" by simp_all
  have tk: "taken ?r" by (simp add: taken_def)
  have len: "length (slots ?r) = length (slots r)" by simp
  have slot: "slot_of ?r x = slot_of r x" for x by (simp add: slot_of_def)
  have at: "slots ?r ! slot_of r (nth_index r i) = (if i = 0 then FREE else slots r ! slot_of r (nth_index r i))"
    if "i < length q" for i
    using slot_of_inj [OF assms(1) R(1), of i 0] that q0 c(2) slot_of_less [OF assms(1) R(1)] R(1)
    by (auto simp: nth_list_update)
  have w: "window ?r q"
  proof (rule windowI)
    fix i assume i: "i < length q" "\<not> (taken ?r \<and> i = 0)"
    then have "i \<noteq> 0" using tk by simp
    then show "slots ?r ! slot_of ?r (nth_index ?r i) = q ! i
      \<or> slots ?r ! slot_of ?r (nth_index ?r i) = FREE \<and> (\<exists>t. prods ?r t = PStore (q ! i) (nth_index ?r i))"
      using windowD(3) [OF R(2) i(1)] at [OF i(1)] unfolding hd slot by metis
  next
    show "slots ?r ! slot_of ?r (nth_index ?r 0) = FREE" using at [OF q0(1)] unfolding hd slot by simp
  next
    fix k assume k: "k < length (slots ?r)" "\<And>i. i < length q \<Longrightarrow> k \<noteq> slot_of ?r (nth_index ?r i)"
    then have "k \<noteq> slot_of r head" using q0(1) c(2) unfolding hd slot by force
    then have "slots ?r ! k = slots r ! k" by simp
    then show "slots ?r ! k = FREE" using R(2) k unfolding window_def hd slot len by simp
  qed (use R(2) windowD(1) [OF R(2)] in \<open>simp_all add: window_def\<close>)
  have p: "producers_ok ?r q"
    unfolding producers_ok_def
  proof (intro conjI allI impI)
    fix u s' x assume "prods ?r u = PStore s' x"
    then obtain i where i: "i < length q" "x = nth_index r i" "s' = q ! i" "slots r ! slot_of r x = FREE"
      using R(3) unfolding producers_ok_def hd by blast
    have "i \<noteq> 0"
    proof
      assume "i = 0"
      then have "x = head" using i(2) c(2) by simp
      then show False using i(4) assms(5,6) by simp
    qed
    then show "\<exists>i < length q. x = nth_index ?r i \<and> s' = q ! i \<and> slots ?r ! slot_of ?r x = FREE
        \<and> \<not> (taken ?r \<and> i = 0)"
      using i at [OF i(1)] unfolding hd slot by metis
  next
    fix u v s s' x assume "prods ?r u = PStore s x \<and> prods ?r v = PStore s' x"
    then show "u = v" using R(3) unfolding producers_ok_def hd by blast
  next
    fix u s st assume "prods ?r u = PClaim s st"
    then show "s \<noteq> FREE" "unat (snd (unpack st) - fst (unpack st)) < length (slots ?r)"
      using R(3) unfolding producers_ok_def hd len by blast+
  qed
  have "consumer_ok ?r q" using c s assms(4) by (simp add: consumer_ok_def)
  then show ?thesis using w p R(1) by (simp add: ring_rel_def)
qed

text \<open>\<^verbatim>\<open>dequeue\<close>: the head moves past it.\<close>

lemma step_advance:
  assumes "capacity_is_valid cap" "ring_rel cap r q" "cons r = CAdvance signal head st"
    and "rstate r = st" "unpack st = (head', tail)"
  shows "q \<noteq> [] \<and> hd q = signal \<and> ring_rel cap (r\<lparr>rstate := pack (head + 1) tail, cons := CIdle\<rparr>) (tl q)"
proof -
  have R: "length (slots r) = cap" "window r q" "producers_ok r q" "consumer_ok r q"
    using assms(2) by (auto simp: ring_rel_def)
  have c: "q \<noteq> []" "head = head_of r" "signal = q ! 0" using R(4) assms(3) by (auto simp: consumer_ok_def)
  have tl: "tail = tail_of r" using assms(4,5) by (simp add: tail_of_def)
  obtain x xs where q: "q = x # xs" using c(1) by (cases q) auto
  have tk: "taken r" using assms(3) by (simp add: taken_def)
  let ?r = "r\<lparr>rstate := pack (head + 1) tail, cons := CIdle\<rparr>"
  have hd: "head_of ?r = head + 1" "tail_of ?r = tail" "prods ?r = prods r" "slots ?r = slots r" by simp_all
  have nt: "\<not> taken ?r" by (simp add: taken_def)
  have slot: "slot_of ?r x = slot_of r x" for x by (simp add: slot_of_def)
  have ix: "nth_index ?r i = nth_index r (Suc i)" for i unfolding hd c(2) by (simp add: algebra_simps)
  have w: "window ?r xs"
  proof (rule windowI)
    fix i assume "i < length xs"
    then have i: "Suc i < length q" by (simp add: q)
    show "xs ! i \<noteq> FREE" using windowD(1) [OF R(2) i] by (simp add: q)
    show "slots ?r ! slot_of ?r (nth_index ?r i) = xs ! i
      \<or> slots ?r ! slot_of ?r (nth_index ?r i) = FREE \<and> (\<exists>t. prods ?r t = PStore (xs ! i) (nth_index ?r i))"
      using windowD(3) [OF R(2) i] unfolding ix slot hd(3,4) q by (simp del: of_nat_Suc)
  next
    fix k assume k: "k < length (slots ?r)" "\<And>i. i < length xs \<Longrightarrow> k \<noteq> slot_of ?r (nth_index ?r i)"
    show "slots ?r ! k = FREE"
    proof (cases "k = slot_of r (nth_index r 0)")
      case True
      then show ?thesis using windowD(2) [OF R(2), of 0] tk c(1) unfolding hd by simp
    next
      case False
      have "k \<noteq> slot_of r (nth_index r i)" if "i < length q" for i
        using that False k(2) [of "i - 1"] unfolding ix slot q by (cases i) (auto simp del: of_nat_Suc)
      then show ?thesis using R(2) k(1) unfolding window_def hd by blast
    qed
  next
    have "tail_of r = nth_index r (Suc (length xs))" using R(2) by (simp add: window_def q)
    then show "tail_of ?r = nth_index ?r (length xs)" unfolding ix using tl hd by simp
  qed (use nt R(2) q in \<open>simp_all add: window_def\<close>)
  have p: "producers_ok ?r xs"
    unfolding producers_ok_def
  proof (intro conjI allI impI)
    fix u s y assume "prods ?r u = PStore s y"
    then obtain i where i: "i < length q" "y = nth_index r i" "s = q ! i" "slots r ! slot_of r y = FREE" "i \<noteq> 0"
      using R(3) tk unfolding producers_ok_def hd by blast
    then obtain j where j: "i = Suc j" by (cases i) auto
    show "\<exists>i < length xs. y = nth_index ?r i \<and> s = xs ! i \<and> slots ?r ! slot_of ?r y = FREE
        \<and> \<not> (taken ?r \<and> i = 0)"
      using i j nt unfolding ix slot hd(3,4) q by (intro exI [of _ j]) (simp del: of_nat_Suc)
  next
    fix u v s s' x assume "prods ?r u = PStore s x \<and> prods ?r v = PStore s' x"
    then show "u = v" using R(3) unfolding producers_ok_def hd by blast
  next
    fix u s st assume "prods ?r u = PClaim s st"
    then show "s \<noteq> FREE" "unat (snd (unpack st) - fst (unpack st)) < length (slots ?r)"
      using R(3) unfolding producers_ok_def hd by blast+
  qed
  have "consumer_ok ?r xs" by (simp add: consumer_ok_def)
  then show ?thesis using w p R(1) c(3) by (simp add: ring_rel_def q)
qed

lemma rel_consumer:
  assumes "ring_rel cap r q" "taken (r\<lparr>cons := c\<rparr>) = taken r" "consumer_ok (r\<lparr>cons := c\<rparr>) q"
  shows "ring_rel cap (r\<lparr>cons := c\<rparr>) q"
proof -
  have "window (r\<lparr>cons := c\<rparr>) q = window r q" "producers_ok (r\<lparr>cons := c\<rparr>) q = producers_ok r q"
    using assms(2) by (simp_all add: window_def producers_ok_def)
  then show ?thesis using assms by (simp add: ring_rel_def)
qed

lemma ring_step_rel:
  assumes "capacity_is_valid cap" "ring_rel cap r q" "ring_step r e r'"
  shows "\<exists>q'. signal_queue cap q e = Some q' \<and> ring_rel cap r' q'"
proof -
  note n = window_count [OF assms(1,2)]
  have empty: "head_of r = tail_of r \<longleftrightarrow> q = []"
  proof -
    have "unat (tail_of r - head_of r) = 0 \<longleftrightarrow> head_of r = tail_of r" by (auto simp: unat_eq_zero)
    then show ?thesis using n(1) by auto
  qed
  have c: "consumer_ok r q" "producers_ok r q" using assms(2) by (simp_all add: ring_rel_def)
  show ?thesis
    using assms(3)
  proof cases
    case (enqueue_load t signal)
    then show ?thesis by (intro step_saw [OF assms(1,2)]) auto
  next
    case (enqueue_claim t signal st head tail)
    then show ?thesis using step_claim [OF assms(1,2)] by simp
  next
    case (enqueue_retry t signal st)
    then have "signal \<noteq> FREE" using c(2) unfolding producers_ok_def by blast
    then show ?thesis using enqueue_retry by (intro step_saw [OF assms(1,2)]) auto
  next
    case (enqueue_store t signal tail)
    then show ?thesis using step_store [OF assms(1,2)] by simp
  next
    case (dequeue_empty head tail)
    then show ?thesis using empty assms(2) by (simp add: head_of_def tail_of_def)
  next
    case (dequeue_load head tail)
    then have "q \<noteq> []" using empty by (simp add: head_of_def tail_of_def)
    then have "ring_rel cap (r\<lparr>cons := CSwap (rstate r)\<rparr>) q"
      using dequeue_load by (intro rel_consumer [OF assms(2)]) (auto simp: taken_def consumer_ok_def head_of_def)
    then show ?thesis using dequeue_load by simp
  next
    case (dequeue_swap st head tail signal)
    show ?thesis
    proof (cases "signal = FREE")
      case True
      have "q \<noteq> []" using c(1) dequeue_swap by (simp add: consumer_ok_def)
      moreover have "(slots r)[slot_of r head := FREE] = slots r"
        using dequeue_swap True by (metis list_update_id)
      moreover have "ring_rel cap (r\<lparr>cons := CIdle\<rparr>) q"
        using dequeue_swap by (intro rel_consumer [OF assms(2)]) (auto simp: taken_def consumer_ok_def)
      ultimately show ?thesis using dequeue_swap True by simp
    next
      case False
      then show ?thesis using dequeue_swap step_swap [OF assms(1,2)] by simp
    qed
  next
    case (dequeue_advance signal head st head' tail)
    have "q \<noteq> [] \<and> hd q = signal \<and> ring_rel cap r' (tl q)"
      unfolding dequeue_advance(2) by (rule step_advance [OF assms(1,2) dequeue_advance(3-5)])
    then show ?thesis using dequeue_advance(1) by (cases q) auto
  next
    case (dequeue_retry signal head st)
    have "ring_rel cap (r\<lparr>cons := CAdvance signal head (rstate r)\<rparr>) q"
      using c(1) dequeue_retry
      by (intro rel_consumer [OF assms(2)]) (auto simp: taken_def consumer_ok_def head_of_def)
    then show ?thesis using dequeue_retry by simp
  qed
qed

section \<open>What the ring guarantees\<close>

text \<open>Every valid capacity is a power \<open>2 ^ (k mod 16)\<close>.\<close>

lemma capacity_power: "capacity_is_valid (2 ^ (k mod 16))"
proof -
  have "(2::nat) ^ (k mod 16) \<le> 2 ^ 15" by (rule power_increasing) auto
  then show ?thesis by (auto simp: capacity_is_valid_def is_power_of_two_iff)
qed

lemma capacity_powerE:
  assumes "capacity_is_valid cap"
  obtains k where "cap = 2 ^ (k mod 16)"
proof -
  obtain k where k: "cap = 2 ^ k" "(2::nat) ^ k \<le> 2 ^ 15"
    using assms by (auto simp: capacity_is_valid_def is_power_of_two_iff)
  then have "k \<le> 15" using power_le_imp_le_exp [of "2::nat" k 15] by simp
  then show thesis using k(1) by (intro that [of k]) simp
qed

interpretation signals: simulation ring_step "ring_new (2 ^ (k mod 16))" "\<lambda>_. True"
  "signal_queue (2 ^ (k mod 16))" "[]" "ring_rel (2 ^ (k mod 16))" for k
proof unfold_locales
  show "ring_rel (2 ^ (k mod 16)) (ring_new (2 ^ (k mod 16))) []" by (rule ring_rel_new [OF capacity_power])
qed (auto intro: ring_step_rel [OF capacity_power])

fun accepted :: "ring_event list \<Rightarrow> u8 list" where
  "accepted [] = []"
| "accepted (Accept s # es) = s # accepted es"
| "accepted (_ # es) = accepted es"

fun delivered :: "ring_event list \<Rightarrow> u8 list" where
  "delivered [] = []"
| "delivered (Deliver s # es) = s # delivered es"
| "delivered (_ # es) = delivered es"

lemma signal_queue_order:
  "accepts (signal_queue cap) q es = Some q' \<Longrightarrow> length q \<le> cap \<Longrightarrow>
   q @ accepted es = delivered es @ q' \<and> length q' \<le> cap"
proof (induction es arbitrary: q)
  case (Cons e es)
  obtain p where p: "signal_queue cap q e = Some p" "accepts (signal_queue cap) p es = Some q'"
    using Cons.prems(1) by (auto split: option.splits)
  have "length p \<le> cap" "q @ accepted (e # es) = delivered [e] @ p @ accepted es"
    "delivered (e # es) = delivered [e] @ delivered es"
    using p(1) Cons.prems(2) by (cases e; auto split: if_splits list.splits)+
  then show ?case using Cons.IH [OF p(2)] by simp
qed simp

lemma run_first_signal:
  "\<exists>r. run ring_step (ring_new 2) [Silent, Accept CHR ''a''] r"
proof -
  let ?r = "(ring_new 2)\<lparr>prods := (\<lambda>_. PIdle)(0 := PClaim CHR ''a'' 0)\<rparr>"
  have u: "unpack 0 = (0, 0)" by (simp add: unpack_def)
  have "saw (ring_new 2) 0 CHR ''a'' = (Silent, ?r)" by (simp add: saw_def ring_new_def u)
  then have "ring_step (ring_new 2) Silent ?r"
    by (rule ring_step.enqueue_load [rotated 2]) (simp_all add: ring_new_def)
  then have 1: "run ring_step (ring_new 2) [Silent] ?r" by (rule run_single [of ring_step])
  have "\<exists>r. ring_step ?r (Accept CHR ''a'') r"
    by (rule exI) (rule ring_step.enqueue_claim [of ?r 0 _ 0 0 0]; simp add: ring_new_def u)
  then show ?thesis using run_snoc [OF 1] by auto
qed

text \<open>
  C6. Every accepted signal is delivered exactly once and in the order of acceptance: in every run, with
  any number of concurrent and nested producers, stale views of the indices, weak failures and any
  number of 16-bit wrap-arounds, the accepted signals are the delivered ones followed by those still
  in the ring, of which there are at most \<^verbatim>\<open>CAPACITY\<close>. A signal is rejected only when the ring is full, and
  \<^verbatim>\<open>dequeue\<close> reports an empty ring only when it is empty.
\<close>

theorem signal_ring_exactly_once:
  assumes "capacity_is_valid cap" "run ring_step (ring_new cap) es r"
  shows "\<exists>q. accepts (signal_queue cap) [] es = Some q
    \<and> accepted es = delivered es @ q \<and> length q \<le> cap"
proof -
  obtain k where k: "cap = 2 ^ (k mod 16)" using capacity_powerE [OF assms(1)] .
  obtain q where "accepts (signal_queue cap) [] es = Some q"
    using signals.run_accepted [of k es r] assms(2) unfolding k by blast
  then show ?thesis using signal_queue_order [of cap "[]" es q] by auto
qed

theorem signal_ring_exactly_once_witness:
  "\<exists>q. accepts (signal_queue 2) [] [Silent, Accept CHR ''a''] = Some q \<and> length q \<le> 2"
proof -
  have "capacity_is_valid 2" using capacity_power [of 1] by simp
  moreover obtain r where "run ring_step (ring_new 2) [Silent, Accept CHR ''a''] r" using run_first_signal ..
  ultimately show ?thesis using signal_ring_exactly_once [of 2 "[Silent, Accept CHR ''a'']" r] by blast
qed

end
