(* ===== verification/Timespec.thy ===== *)
theory Timespec
  imports Bun_Prelude "HOL-Library.Signed_Division"
begin

text \<open>
  \<^verbatim>\<open>Timespec\<close> of \<^verbatim>\<open>src/bun_core/util.rs\<close>: the seconds and nanoseconds of every timer deadline. The fields
  are \<^verbatim>\<open>i64\<close>, here integers; the \<^verbatim>\<open>wrapping_\<close> operations wrap by \<open>wrap_i64\<close>, the saturating ones are written
  out. A normal time has \<open>0 \<le> nsec < 10\<^sup>9\<close> and denotes \<open>total_ns\<close> nanoseconds.
\<close>

section \<open>Machine arithmetic\<close>

definition wrap_i64 :: "int \<Rightarrow> int" where
  "wrap_i64 x = (x + 2 ^ 63) mod 2 ^ 64 - 2 ^ 63"

definition is_i64 :: "int \<Rightarrow> bool" where
  "is_i64 x \<longleftrightarrow> - (2 ^ 63) \<le> x \<and> x < 2 ^ 63"

definition saturating_u64 :: "int \<Rightarrow> int" where
  "saturating_u64 x = min x (2 ^ 64 - 1)"

lemma wrap_i64_id [simp]: "is_i64 x \<Longrightarrow> wrap_i64 x = x"
  by (simp add: wrap_i64_def is_i64_def)

lemma wrap_i64_range: "is_i64 (wrap_i64 x)"
  by (simp add: wrap_i64_def is_i64_def pos_mod_bound [of "2 ^ 64" "x + 2 ^ 63", simplified])

section \<open>Operations\<close>

record Timespec =
  sec :: int
  nsec :: int

definition NS_PER_S :: int where
  "NS_PER_S = 1000000000"

definition NS_PER_MS :: int where
  "NS_PER_MS = 1000000"

definition EPOCH :: Timespec where
  "EPOCH = \<lparr>sec = 0, nsec = 0\<rparr>"

definition ts_duration :: "Timespec \<Rightarrow> Timespec \<Rightarrow> Timespec" where
  "ts_duration t u =
     (let s = wrap_i64 (sec t - sec u); n = wrap_i64 (nsec t - nsec u) in
      if n < 0 then \<lparr>sec = wrap_i64 (s - 1), nsec = wrap_i64 (n + NS_PER_S)\<rparr> else \<lparr>sec = s, nsec = n\<rparr>)"

definition ts_order :: "Timespec \<Rightarrow> Timespec \<Rightarrow> ordering" where
  "ts_order t u = (case cmp (sec t) (sec u) of Equal \<Rightarrow> cmp (nsec t) (nsec u) | ord \<Rightarrow> ord)"

definition ts_greater :: "Timespec \<Rightarrow> Timespec \<Rightarrow> bool" where
  "ts_greater t u \<longleftrightarrow> ts_order t u = Greater"

definition ts_ns :: "Timespec \<Rightarrow> int" where
  "ts_ns t =
     (if sec t \<le> 0 then max (nsec t) 0
      else let s_ns = saturating_u64 (sec t * NS_PER_S); n = s_ns + max (nsec t) 0 in
           if n < 2 ^ 64 then n else 2 ^ 63 - 1)"

definition ts_ms :: "Timespec \<Rightarrow> int" where
  "ts_ms t = wrap_i64 (wrap_i64 (sec t * 1000) + nsec t div NS_PER_MS)"

definition ts_ms_unsigned :: "Timespec \<Rightarrow> int" where
  "ts_ms_unsigned t = ts_ns t div NS_PER_MS"

definition ts_add_ms :: "Timespec \<Rightarrow> int \<Rightarrow> Timespec" where
  "ts_add_ms t interval =
     (let sec_inc = interval sdiv 1000; nsec_inc = (interval smod 1000) * NS_PER_MS;
          s = wrap_i64 (sec t + sec_inc); n = wrap_i64 (nsec t + nsec_inc) in
      if NS_PER_S \<le> n then \<lparr>sec = wrap_i64 (s + 1), nsec = n - NS_PER_S\<rparr> else \<lparr>sec = s, nsec = n\<rparr>)"

definition ts_order_ignore_epoch :: "Timespec \<Rightarrow> Timespec \<Rightarrow> ordering" where
  "ts_order_ignore_epoch a b =
     (if a = b then Equal else if a = EPOCH then Greater else if b = EPOCH then Less else ts_order a b)"

definition ts_min_ignore_epoch :: "Timespec \<Rightarrow> Timespec \<Rightarrow> Timespec" where
  "ts_min_ignore_epoch a b = (if ts_order_ignore_epoch a b = Less then a else b)"

definition ts_from_ns :: "int \<Rightarrow> Timespec" where
  "ts_from_ns n = \<lparr>sec = n div NS_PER_S, nsec = n mod NS_PER_S\<rparr>"

section \<open>What a time denotes\<close>

definition ts_normal :: "Timespec \<Rightarrow> bool" where
  "ts_normal t \<longleftrightarrow> is_i64 (sec t) \<and> 0 \<le> nsec t \<and> nsec t < NS_PER_S"

definition total_ns :: "Timespec \<Rightarrow> int" where
  "total_ns t = sec t * NS_PER_S + nsec t"

lemmas ts_consts = NS_PER_S_def NS_PER_MS_def is_i64_def

lemma ts_order_total:
  assumes "ts_normal t" "ts_normal u"
  shows "ts_order t u = cmp (total_ns t) (total_ns u)"
proof -
  have "sec t < sec u \<Longrightarrow> total_ns t < total_ns u" "sec u < sec t \<Longrightarrow> total_ns u < total_ns t"
    using assms by (auto simp: ts_normal_def total_ns_def NS_PER_S_def)
  moreover have "sec t = sec u \<Longrightarrow> cmp (total_ns t) (total_ns u) = cmp (nsec t) (nsec u)"
    by (simp add: total_ns_def cmp_def)
  ultimately show ?thesis
    by (cases "sec t" "sec u" rule: linorder_cases) (auto simp: ts_order_def cmp_def)
qed

lemma ts_greater_total: "ts_normal t \<Longrightarrow> ts_normal u \<Longrightarrow> ts_greater t u \<longleftrightarrow> total_ns u < total_ns t"
  by (simp add: ts_greater_def ts_order_total cmp_def)

lemma ts_duration_total:
  assumes "ts_normal t" "ts_normal u" "is_i64 (sec t - sec u - 1)" "is_i64 (sec t - sec u)"
  shows "ts_normal (ts_duration t u) \<and> total_ns (ts_duration t u) = total_ns t - total_ns u"
  using assms by (auto simp: ts_duration_def ts_normal_def total_ns_def ts_consts Let_def wrap_i64_id)

lemma ts_add_ms_total:
  assumes "ts_normal t" "0 \<le> interval" "is_i64 interval" "is_i64 (sec t + interval div 1000 + 1)"
  shows "ts_normal (ts_add_ms t interval) \<and> total_ns (ts_add_ms t interval) = total_ns t + interval * NS_PER_MS"
proof -
  have q: "interval sdiv 1000 = interval div 1000" "interval smod 1000 = interval mod 1000"
    using assms(2) by (cases "interval = 0"; simp add: signed_divide_int_def signed_modulo_int_def)+
  define k r where "k = interval div 1000" and "r = interval mod 1000"
  have i: "interval = 1000 * k + r" "0 \<le> r" "r < 1000" "0 \<le> k"
    using assms(2) by (simp_all add: k_def r_def pos_imp_zdiv_nonneg_iff)
  have "wrap_i64 (sec t + k) = sec t + k" "wrap_i64 (nsec t + r * NS_PER_MS) = nsec t + r * NS_PER_MS"
    "wrap_i64 (sec t + k + 1) = sec t + k + 1"
    using assms i by (auto intro!: wrap_i64_id simp: ts_normal_def ts_consts k_def [symmetric])
  then show ?thesis
    using assms i unfolding ts_add_ms_def q Let_def k_def [symmetric] r_def [symmetric]
    by (auto simp: ts_normal_def total_ns_def ts_consts)
qed

lemma ts_from_ns_total: "is_i64 n \<Longrightarrow> ts_normal (ts_from_ns n) \<and> total_ns (ts_from_ns n) = n"
  by (auto simp: ts_from_ns_def ts_normal_def total_ns_def ts_consts)

lemma ts_ns_total:
  assumes "ts_normal t" "0 \<le> sec t" "total_ns t < 2 ^ 64"
  shows "ts_ns t = total_ns t"
  using assms by (auto simp: ts_ns_def ts_normal_def total_ns_def ts_consts saturating_u64_def Let_def)

lemma ts_ms_total:
  assumes "ts_normal t" "is_i64 (sec t * 1000)" "is_i64 (sec t * 1000 + 999)"
  shows "ts_ms t = total_ns t div NS_PER_MS"
proof -
  have "total_ns t div NS_PER_MS = sec t * 1000 + nsec t div NS_PER_MS"
    by (simp add: total_ns_def ts_consts)
  moreover have "is_i64 (sec t * 1000 + nsec t div NS_PER_MS)"
    using assms by (auto simp: ts_normal_def ts_consts)
  ultimately show ?thesis using assms(2) by (simp add: ts_ms_def)
qed

end
