(* ===== verification/PairingHeap.thy ===== *)
theory PairingHeap
  imports Bun_Prelude "HOL-Library.Monad_Syntax" "HOL-Library.Multiset"
begin

text \<open>
  \<^verbatim>\<open>src/io/heap.rs\<close>: the intrusive pairing heap behind the timers and the lifecycle scripts.

  A node is an address; the links \<^verbatim>\<open>child\<close>, \<^verbatim>\<open>prev\<close> and \<^verbatim>\<open>next\<close> that the element type embeds live in a
  store. \<^verbatim>\<open>prev\<close> of the leftmost child is its parent, \<^verbatim>\<open>prev\<close> of any other child is its left sibling. A
  read or a write through a null or dangling pointer has no result (\<open>None\<close>), and neither has a loop
  that does not end or a failed \<^verbatim>\<open>debug_assert!\<close>, so a theorem that an operation returns \<open>Some\<close> is also one of memory safety and of
  termination. The comparator \<^verbatim>\<open>HeapContext::less\<close> is the parameter \<open>lt\<close>.
\<close>

section \<open>Nodes and the store\<close>

type_synonym addr = u64

abbreviation null :: addr where
  "null \<equiv> 0"

record IntrusiveField =
  child :: addr
  prev :: addr
  "next" :: addr

definition IntrusiveField_default :: IntrusiveField where
  "IntrusiveField_default = \<lparr>child = null, prev = null, next = null\<rparr>"

type_synonym store = "addr \<Rightarrow> IntrusiveField option"

definition put :: "addr \<Rightarrow> (IntrusiveField \<Rightarrow> IntrusiveField) \<Rightarrow> store \<Rightarrow> store option" where
  "put p g h = (case h p of None \<Rightarrow> None | Some f \<Rightarrow> Some (h(p \<mapsto> g f)))"

definition set_child :: "addr \<Rightarrow> addr \<Rightarrow> store \<Rightarrow> store option" where
  "set_child p q = put p (child_update (\<lambda>_. q))"

definition set_prev :: "addr \<Rightarrow> addr \<Rightarrow> store \<Rightarrow> store option" where
  "set_prev p q = put p (prev_update (\<lambda>_. q))"

definition set_next :: "addr \<Rightarrow> addr \<Rightarrow> store \<Rightarrow> store option" where
  "set_next p q = put p (next_update (\<lambda>_. q))"

lemmas write_simps = set_child_def set_prev_def set_next_def put_def

record Intrusive =
  root :: addr
  nodes :: store

type_synonym less_fn = "addr \<Rightarrow> addr \<Rightarrow> bool"

section \<open>Operations\<close>

definition meld :: "less_fn \<Rightarrow> addr \<Rightarrow> addr \<Rightarrow> store \<Rightarrow> (addr \<times> store) option" where
  "meld lt a b h = do {
     af \<leftarrow> h a;
     if next af \<noteq> null then None
     else if lt a b then do {
        h \<leftarrow> set_prev b a h;
        bf \<leftarrow> h b;
        let b_next = next bf;
        h \<leftarrow> (if b_next \<noteq> null then do {
                h \<leftarrow> set_next a b_next h;
                h \<leftarrow> set_prev b_next a h;
                set_next b null h
              } else Some h);
        af \<leftarrow> h a;
        let a_child = child af;
        h \<leftarrow> (if a_child \<noteq> null then do {
                h \<leftarrow> set_next b a_child h;
                set_prev a_child b h
              } else Some h);
        h \<leftarrow> set_child a b h;
        Some (a, h)
      } else do {
        af \<leftarrow> h a;
        h \<leftarrow> set_prev b (prev af) h;
        h \<leftarrow> set_prev a b h;
        bf \<leftarrow> h b;
        let b_child = child bf;
        h \<leftarrow> (if b_child \<noteq> null then do {
                h \<leftarrow> set_next a b_child h;
                set_prev b_child a h
              } else Some h);
        h \<leftarrow> set_child b a h;
        Some (b, h)
      }
   }"

partial_function (option) merge_right :: "less_fn \<Rightarrow> addr \<Rightarrow> store \<Rightarrow> (addr \<times> store) option" where
  "merge_right lt a h = do {
     af \<leftarrow> h a;
     let b = next af;
     if b = null then Some (a, h) else do {
       h \<leftarrow> set_next a null h;
       (b, h) \<leftarrow> meld lt a b h;
       bf \<leftarrow> h b;
       let next_a = next bf;
       if next_a = null then Some (b, h) else merge_right lt next_a h
     }
   }"

partial_function (option) merge_left :: "less_fn \<Rightarrow> addr \<Rightarrow> store \<Rightarrow> (addr \<times> store) option" where
  "merge_left lt r h = do {
     rf \<leftarrow> h r;
     let b = prev rf;
     if b = null then Some (r, h) else do {
       h \<leftarrow> set_next b null h;
       (r, h) \<leftarrow> meld lt b r h;
       merge_left lt r h
     }
   }"

definition combine_siblings :: "less_fn \<Rightarrow> addr \<Rightarrow> store \<Rightarrow> (addr \<times> store) option" where
  "combine_siblings lt left h = do {
     h \<leftarrow> set_prev left null h;
     (r, h) \<leftarrow> merge_right lt left h;
     merge_left lt r h
   }"

definition insert_node :: "less_fn \<Rightarrow> addr \<Rightarrow> Intrusive \<Rightarrow> Intrusive option" where
  "insert_node lt v H =
     (if root H \<noteq> null then do {
        (r, h) \<leftarrow> meld lt v (root H) (nodes H);
        Some \<lparr>root = r, nodes = h\<rparr>
      } else Some (H\<lparr>root := v\<rparr>))"

definition peek :: "Intrusive \<Rightarrow> addr" where
  "peek H = root H"

definition delete_min :: "less_fn \<Rightarrow> Intrusive \<Rightarrow> (addr \<times> Intrusive) option" where
  "delete_min lt H =
     (if root H = null then Some (null, H) else do {
        let r = root H;
        rf \<leftarrow> nodes H r;
        (r', h) \<leftarrow> (if child rf \<noteq> null then combine_siblings lt (child rf) (nodes H)
                   else Some (null, nodes H));
        h \<leftarrow> put r (\<lambda>_. IntrusiveField_default) h;
        Some (r, \<lparr>root = r', nodes = h\<rparr>)
      })"

definition remove_node :: "less_fn \<Rightarrow> addr \<Rightarrow> Intrusive \<Rightarrow> Intrusive option" where
  "remove_node lt v H = do {
     vf \<leftarrow> nodes H v;
     let p = prev vf;
     if p = null then
       if root H \<noteq> v then None else do {
       (_, H) \<leftarrow> delete_min lt H;
       Some H
     } else do {
       let v_next = next vf;
       h \<leftarrow> (if v_next \<noteq> null then set_prev v_next p (nodes H) else Some (nodes H));
       pf \<leftarrow> h p;
       h \<leftarrow> (if child pf = v then set_child p v_next h else set_next p v_next h);
       h \<leftarrow> set_prev v null h;
       h \<leftarrow> set_next v null h;
       vf \<leftarrow> h v;
       let c = child vf;
       if c = null then Some (H\<lparr>nodes := h\<rparr>) else do {
         h \<leftarrow> set_child v null h;
         (x, h) \<leftarrow> combine_siblings lt c h;
         (r, h) \<leftarrow> meld lt x (root H) h;
         Some \<lparr>root = r, nodes = h\<rparr>
       }
     }
   }"

text \<open>
  \<^verbatim>\<open>for_each\<close>: \<open>climb_left\<close> is the innermost loop, \<open>climb\<close> the loop around it; its result is the node the
  walk goes on with, or \<open>null\<close> when the walk returns. The closure is a function on the state it captures.
\<close>

partial_function (option) climb_left :: "store \<Rightarrow> addr \<Rightarrow> addr \<Rightarrow> addr option" where
  "climb_left h node p =
     (if p = null then Some null else do {
        pf \<leftarrow> h p;
        if child pf \<noteq> node then climb_left h p (prev pf) else Some p
      })"

partial_function (option) climb :: "store \<Rightarrow> addr \<Rightarrow> addr option" where
  "climb h node = do {
     nf \<leftarrow> h node;
     if next nf \<noteq> null then Some (next nf) else do {
       p \<leftarrow> climb_left h node (prev nf);
       if p = null then Some null else climb h p
     }
   }"

partial_function (option) walk :: "store \<Rightarrow> (addr \<Rightarrow> 's \<Rightarrow> 's) \<Rightarrow> addr \<Rightarrow> 's \<Rightarrow> 's option" where
  "walk h f node s = do {
     let s = f node s;
     nf \<leftarrow> h node;
     if child nf \<noteq> null then walk h f (child nf) s else do {
       node \<leftarrow> climb h node;
       if node = null then Some s else walk h f node s
     }
   }"

definition for_each :: "(addr \<Rightarrow> 's \<Rightarrow> 's) \<Rightarrow> Intrusive \<Rightarrow> 's \<Rightarrow> 's option" where
  "for_each f H s = (if root H = null then Some s else walk (nodes H) f (root H) s)"

definition count_nodes :: "Intrusive \<Rightarrow> u64 option" where
  "count_nodes H = for_each (\<lambda>_ n. n + 1) H 0"

definition find_max :: "less_fn \<Rightarrow> Intrusive \<Rightarrow> addr option" where
  "find_max lt H = for_each (\<lambda>node m. if lt m node then node else m) H (root H)"

declare merge_right.simps [code] merge_left.simps [code] climb_left.simps [code] climb.simps [code]
  walk.simps [code]

section \<open>The trees a store holds\<close>

datatype tree = Node addr "tree list"

fun addr_of :: "tree \<Rightarrow> addr" where
  "addr_of (Node a _) = a"

fun kids :: "tree \<Rightarrow> tree list" where
  "kids (Node _ cs) = cs"

fun members :: "tree list \<Rightarrow> addr list" where
  "members [] = []"
| "members (Node a cs # ts) = a # members cs @ members ts"

definition tree_members :: "tree \<Rightarrow> addr list" where
  "tree_members t = addr_of t # members (kids t)"

lemma tree_members_Node [simp]: "tree_members (Node a cs) = a # members cs"
  by (simp add: tree_members_def)

lemma members_Cons [simp]: "members (t # ts) = tree_members t @ members ts"
  by (cases t) simp

declare members.simps(2) [simp del]

lemma addr_of_members: "addr_of t \<in> set (tree_members t)"
  by (cases t) simp

lemma members_append [simp]: "members (ts @ us) = members ts @ members us"
  by (induction ts rule: members.induct) simp_all

text \<open>\<open>siblings h l p ts\<close>: the list that starts at \<open>p\<close>, with the left neighbour \<open>l\<close>, is the forest \<open>ts\<close>.\<close>

fun siblings :: "store \<Rightarrow> addr \<Rightarrow> addr \<Rightarrow> tree list \<Rightarrow> bool" where
  "siblings h l p [] \<longleftrightarrow> p = null"
| "siblings h l p (Node a cs # ts) \<longleftrightarrow>
     p = a \<and> a \<noteq> null \<and>
     (case h a of None \<Rightarrow> False
      | Some f \<Rightarrow> prev f = l \<and> siblings h a (child f) cs \<and> siblings h a (next f) ts)"

lemma forest_induct [case_names Nil Cons]:
  assumes "P []" "\<And>a cs ts. P cs \<Longrightarrow> P ts \<Longrightarrow> P (Node a cs # ts)"
  shows "P ts"
proof (induction "size_list size ts" arbitrary: ts rule: less_induct)
  case less
  show ?case
  proof (cases ts)
    case (Cons t us)
    obtain a cs where t: "t = Node a cs" by (cases t)
    show ?thesis unfolding Cons t by (rule assms(2); rule less) (simp_all add: Cons t)
  qed (simp add: assms(1))
qed

lemma siblings_cong:
  "(\<And>x. x \<in> set (members ts) \<Longrightarrow> h' x = h x) \<Longrightarrow> siblings h' l p ts = siblings h l p ts"
proof (induction ts arbitrary: l p rule: forest_induct)
  case (Cons a cs ts)
  have "siblings h' a q cs = siblings h a q cs" "siblings h' a q ts = siblings h a q ts" for q
    using Cons.prems by (auto intro!: Cons.IH)
  then show ?case using Cons.prems by (auto split: option.splits)
qed simp

lemma siblings_head: "siblings h l p ts \<Longrightarrow> p = (case ts of [] \<Rightarrow> null | t # _ \<Rightarrow> addr_of t)"
  by (induction ts rule: forest_induct) auto

lemma siblings_null [simp]: "siblings h l null ts \<longleftrightarrow> ts = []"
  by (induction ts rule: forest_induct) auto

lemma siblings_members: "siblings h l p ts \<Longrightarrow> x \<in> set (members ts) \<Longrightarrow> x \<noteq> null \<and> h x \<noteq> None"
  by (induction ts arbitrary: l p rule: forest_induct) (auto split: option.splits)

lemma siblings_first: "siblings h l p ts \<Longrightarrow> p \<noteq> null \<Longrightarrow> p \<in> set (members ts) \<and> (\<exists>f. h p = Some f)"
  by (induction ts rule: forest_induct) (auto split: option.splits)

text \<open>Redirecting the left neighbour of the first node of a list\<close>

lemma siblings_relink:
  assumes "siblings h l p ts" "distinct (members ts)"
    and "\<And>x. x \<in> set (members ts) \<Longrightarrow> x \<noteq> p \<Longrightarrow> h' x = h x"
    and "h' p = map_option (prev_update (\<lambda>_. l')) (h p)"
  shows "siblings h' l' p ts"
proof (cases ts)
  case Nil
  then show ?thesis using assms(1) by simp
next
  case (Cons t us)
  obtain a cs where t: "t = Node a cs" by (cases t)
  have "siblings h' a q cs = siblings h a q cs" "siblings h' a q us = siblings h a q us" for q
    using assms(1-3) Cons t by (force intro!: siblings_cong split: option.splits)+
  then show ?thesis using assms(1,4) Cons t by (auto split: option.splits)
qed

section \<open>Melding\<close>

lemma meld_less:
  assumes "lt a b" "h a = Some af" "h b = Some bf" "h null = None" "next af = null" "a \<noteq> b"
    and "next bf \<noteq> null \<Longrightarrow> h (next bf) \<noteq> None" "next bf \<notin> {a, b}"
    and "child af \<noteq> null \<Longrightarrow> h (child af) \<noteq> None" "child af \<notin> {a, b}"
    and "next bf \<noteq> null \<Longrightarrow> child af \<noteq> next bf"
  shows "\<exists>h'. meld lt a b h = Some (a, h') \<and>
      h' a = Some (af\<lparr>child := b, next := next bf\<rparr>) \<and> h' b = Some (bf\<lparr>prev := a, next := child af\<rparr>) \<and>
      h' (next bf) = map_option (prev_update (\<lambda>_. a)) (h (next bf)) \<and>
      h' (child af) = map_option (prev_update (\<lambda>_. b)) (h (child af)) \<and>
      (\<forall>x. x \<notin> {a, b, next bf, child af} \<longrightarrow> h' x = h x)"
  using assms
  by (cases "next bf = null"; cases "child af = null"; clarsimp simp: meld_def write_simps Let_def)

lemma meld_not_less:
  assumes "\<not> lt a b" "h a = Some af" "h b = Some bf" "h null = None" "next af = null" "a \<noteq> b"
    and "child bf \<noteq> null \<Longrightarrow> h (child bf) \<noteq> None" "child bf \<notin> {a, b}"
  shows "\<exists>h'. meld lt a b h = Some (b, h') \<and>
      h' b = Some (bf\<lparr>prev := prev af, child := a\<rparr>) \<and> h' a = Some (af\<lparr>prev := b, next := child bf\<rparr>) \<and>
      h' (child bf) = map_option (prev_update (\<lambda>_. a)) (h (child bf)) \<and>
      (\<forall>x. x \<notin> {a, b, child bf} \<longrightarrow> h' x = h x)"
  using assms
  by (cases "child bf = null"; clarsimp simp: meld_def write_simps Let_def)

text \<open>One tree with given neighbours, and the frame outside the nodes an operation works on\<close>

definition tree_at :: "store \<Rightarrow> addr \<Rightarrow> addr \<Rightarrow> tree \<Rightarrow> bool" where
  "tree_at h l n t \<longleftrightarrow> addr_of t \<noteq> null \<and>
     (case h (addr_of t) of None \<Rightarrow> False
      | Some f \<Rightarrow> prev f = l \<and> next f = n \<and> siblings h (addr_of t) (child f) (kids t))"

abbreviation same_off :: "addr list \<Rightarrow> store \<Rightarrow> store \<Rightarrow> bool" where
  "same_off xs h h' \<equiv> \<forall>x. x \<notin> set xs \<longrightarrow> h' x = h x"

lemma siblings_Cons:
  "siblings h l p (t # ts) \<longleftrightarrow> p = addr_of t \<and> (\<exists>n. tree_at h l n t \<and> siblings h (addr_of t) n ts)"
  by (cases t) (auto simp: tree_at_def split: option.splits)

lemma tree_at_cong:
  "(\<And>x. x \<in> set (tree_members t) \<Longrightarrow> h' x = h x) \<Longrightarrow> tree_at h' l n t = tree_at h l n t"
proof (cases t)
  case (Node a cs)
  assume same: "\<And>x. x \<in> set (tree_members t) \<Longrightarrow> h' x = h x"
  then have "h' a = h a" "siblings h' a q cs = siblings h a q cs" for q
    by (auto intro!: siblings_cong simp: Node)
  then show ?thesis by (auto simp: tree_at_def Node split: option.splits)
qed

fun link :: "less_fn \<Rightarrow> tree \<Rightarrow> tree \<Rightarrow> tree" where
  "link lt (Node a as) (Node b bs) =
     (if lt a b then Node a (Node b bs # as) else Node b (Node a as # bs))"

lemma set_members_link [simp]: "set (tree_members (link lt s t)) = set (tree_members s) \<union> set (tree_members t)"
  by (cases s; cases t) auto

lemma distinct_members_link [simp]: "distinct (tree_members (link lt s t)) \<longleftrightarrow> distinct (tree_members s @ tree_members t)"
  by (cases s; cases t) auto

lemma meld_tree:
  assumes s: "tree_at h l null s" and t: "tree_at h l' n t" and rest: "siblings h (addr_of t) n rest"
    and dist: "distinct (members (s # t # rest))" and null: "h null = None"
  shows "\<exists>h'. meld lt (addr_of s) (addr_of t) h = Some (addr_of (link lt s t), h') \<and>
      tree_at h' l n (link lt s t) \<and> siblings h' (addr_of (link lt s t)) n rest \<and>
      same_off (members (s # t # rest)) h h'"
proof -
  obtain a as b bs where st: "s = Node a as" "t = Node b bs" by (cases s; cases t)
  obtain af where af: "h a = Some af" "prev af = l" "next af = null" "siblings h a (child af) as" "a \<noteq> null"
    using s by (auto simp: tree_at_def st split: option.splits)
  obtain bf where bf: "h b = Some bf" "next bf = n" "siblings h b (child bf) bs" "b \<noteq> null"
    using t by (auto simp: tree_at_def st split: option.splits)
  have rest': "siblings h b n rest" using rest st by simp
  have ca: "child af \<noteq> null \<Longrightarrow> child af \<in> set (members as) \<and> (\<exists>f. h (child af) = Some f)"
    using siblings_first [OF af(4)] .
  have cb: "child bf \<noteq> null \<Longrightarrow> child bf \<in> set (members bs) \<and> (\<exists>f. h (child bf) = Some f)"
    using siblings_first [OF bf(3)] .
  have cn: "n \<noteq> null \<Longrightarrow> n \<in> set (members rest) \<and> (\<exists>f. h n = Some f)"
    using siblings_first [OF rest'] .
  have d: "distinct (a # members as @ b # members bs @ members rest)" using dist by (simp add: st)
  have nn: "null \<notin> set (members as)" "null \<notin> set (members bs)" "null \<notin> set (members rest)"
    using siblings_members [OF af(4)] siblings_members [OF bf(3)] siblings_members [OF rest'] by blast+
  have or_null: "child af = null \<or> child af \<in> set (members as)"
    "child bf = null \<or> child bf \<in> set (members bs)" "n = null \<or> n \<in> set (members rest)"
    using ca cb cn by blast+
  show ?thesis
  proof (cases "lt a b")
    case True
    obtain h' where h': "meld lt a b h = Some (a, h')"
      "h' a = Some (af\<lparr>child := b, next := n\<rparr>)" "h' b = Some (bf\<lparr>prev := a, next := child af\<rparr>)"
      "h' n = map_option (prev_update (\<lambda>_. a)) (h n)"
      "h' (child af) = map_option (prev_update (\<lambda>_. b)) (h (child af))"
      "\<And>x. x \<notin> {a, b, n, child af} \<Longrightarrow> h' x = h x"
      using meld_less [of lt a b h af bf] True null d ca cn af bf by force
    have "siblings h' b (child af) as"
      using d nn or_null by (intro siblings_relink [OF af(4)] h') (auto intro!: h'(6))
    moreover have "siblings h' a n rest"
      using d nn or_null by (intro siblings_relink [OF rest'] h') (auto intro!: h'(6))
    moreover have "siblings h' b (child bf) bs = siblings h b (child bf) bs"
      using d nn or_null by (intro siblings_cong h'(6)) auto
    moreover have "same_off (members (s # t # rest)) h h'"
    proof (intro allI impI)
      fix x
      assume "x \<notin> set (members (s # t # rest))"
      then show "h' x = h x"
        using h' or_null null by (cases "x \<in> {n, child af}") (auto simp: st)
    qed
    ultimately show ?thesis using h'(1-3) True af bf by (simp add: st tree_at_def)
  next
    case False
    obtain h' where h': "meld lt a b h = Some (b, h')"
      "h' b = Some (bf\<lparr>prev := l, child := a\<rparr>)" "h' a = Some (af\<lparr>prev := b, next := child bf\<rparr>)"
      "h' (child bf) = map_option (prev_update (\<lambda>_. a)) (h (child bf))"
      "\<And>x. x \<notin> {a, b, child bf} \<Longrightarrow> h' x = h x"
      using meld_not_less [of lt a b h af bf] False null d cb af bf by force
    have "siblings h' a (child bf) bs"
      using d nn or_null by (intro siblings_relink [OF bf(3)] h') (auto intro!: h'(5))
    moreover have "siblings h' b n rest = siblings h b n rest"
      using d nn or_null by (intro siblings_cong h'(5)) auto
    moreover have "siblings h' a (child af) as = siblings h a (child af) as"
      using d nn or_null by (intro siblings_cong h'(5)) auto
    moreover have "same_off (members (s # t # rest)) h h'"
    proof (intro allI impI)
      fix x
      assume "x \<notin> set (members (s # t # rest))"
      then show "h' x = h x"
        using h' or_null null by (cases "x \<in> {child bf}") (auto simp: st)
    qed
    ultimately show ?thesis using h'(1-3) False af bf rest' by (simp add: st tree_at_def)
  qed
qed

section \<open>Combining siblings\<close>

fun pass1 :: "less_fn \<Rightarrow> tree list \<Rightarrow> tree list" where
  "pass1 lt (s # t # ts) = link lt s t # pass1 lt ts"
| "pass1 lt ts = ts"

definition pass2 :: "less_fn \<Rightarrow> tree \<Rightarrow> tree list \<Rightarrow> tree" where
  "pass2 lt = foldl (\<lambda>t s. link lt s t)"

definition merge_pairs :: "less_fn \<Rightarrow> tree list \<Rightarrow> tree" where
  "merge_pairs lt ts = (let us = rev (pass1 lt ts) in pass2 lt (hd us) (tl us))"

text \<open>
  Between the passes the trees form a chain through \<^verbatim>\<open>prev\<close>, the last one first. The \<^verbatim>\<open>next\<close> links of all
  but the last are stale.
\<close>

fun chain :: "store \<Rightarrow> addr \<Rightarrow> tree list \<Rightarrow> bool" where
  "chain h p [] \<longleftrightarrow> p = null"
| "chain h p (t # ts) \<longleftrightarrow> p = addr_of t \<and> (\<exists>l n. tree_at h l n t \<and> chain h l ts)"

lemma chain_cong:
  "(\<And>x. x \<in> set (members ts) \<Longrightarrow> h' x = h x) \<Longrightarrow> chain h p ts \<Longrightarrow> chain h' p ts"
proof (induction ts arbitrary: p)
  case (Cons t ts)
  have "tree_at h' l n t = tree_at h l n t" for l n
    using Cons.prems(1) by (intro tree_at_cong) simp
  moreover have "chain h l ts \<Longrightarrow> chain h' l ts" for l
    using Cons by simp
  ultimately show ?case using Cons.prems(2) by auto
qed simp

lemma tree_at_members: "tree_at h l n t \<Longrightarrow> x \<in> set (tree_members t) \<Longrightarrow> x \<noteq> null \<and> h x \<noteq> None"
  using siblings_members [of h _ _ "kids t" x] by (cases t) (auto simp: tree_at_def split: option.splits)

lemma tree_at_set_prev:
  assumes "tree_at h l n t" "distinct (tree_members t)"
  shows "\<exists>h'. set_prev (addr_of t) l' h = Some h' \<and> tree_at h' l' n t \<and> same_off [addr_of t] h h'"
proof -
  obtain a cs where t: "t = Node a cs" by (cases t)
  obtain f where f: "h a = Some f" using assms by (auto simp: tree_at_def t split: option.splits)
  have "siblings (h(a \<mapsto> f\<lparr>prev := l'\<rparr>)) a (child f) cs = siblings h a (child f) cs"
    using assms(2) by (intro siblings_cong) (auto simp: t)
  then show ?thesis using assms(1) f by (auto simp: tree_at_def t write_simps)
qed

lemma tree_at_set_next:
  assumes "tree_at h l n t" "distinct (tree_members t)"
  shows "\<exists>h'. set_next (addr_of t) n' h = Some h' \<and> tree_at h' l n' t \<and> same_off [addr_of t] h h'"
proof -
  obtain a cs where t: "t = Node a cs" by (cases t)
  obtain f where f: "h a = Some f" using assms by (auto simp: tree_at_def t split: option.splits)
  have "siblings (h(a \<mapsto> f\<lparr>next := n'\<rparr>)) a (child f) cs = siblings h a (child f) cs"
    using assms(2) by (intro siblings_cong) (auto simp: t)
  then show ?thesis using assms(1) f by (auto simp: tree_at_def t write_simps)
qed

lemma tree_at_field: "tree_at h l n t \<Longrightarrow> \<exists>f. h (addr_of t) = Some f \<and> prev f = l \<and> next f = n"
  by (auto simp: tree_at_def split: option.splits)

text \<open>What an operation does not touch keeps its shape.\<close>

lemma tree_at_off:
  "tree_at h l n t \<Longrightarrow> same_off xs h h' \<Longrightarrow> set xs \<inter> set (tree_members t) = {} \<Longrightarrow> tree_at h' l n t"
  by (subst tree_at_cong [of t h' h]) auto

lemma siblings_off:
  "siblings h l p ts \<Longrightarrow> same_off xs h h' \<Longrightarrow> set xs \<inter> set (members ts) = {} \<Longrightarrow> siblings h' l p ts"
  by (subst siblings_cong [of ts h' h]) auto

lemma chain_off:
  "chain h p ts \<Longrightarrow> same_off xs h h' \<Longrightarrow> set xs \<inter> set (members ts) = {} \<Longrightarrow> chain h' p ts"
  by (rule chain_cong [of ts h' h]) auto

lemma same_off_trans:
  "same_off xs h h1 \<Longrightarrow> same_off ys h1 h2 \<Longrightarrow> set xs \<subseteq> set zs \<Longrightarrow> set ys \<subseteq> set zs \<Longrightarrow> same_off zs h h2"
  by (metis subsetD)

lemma unlink_and_meld:
  assumes s: "tree_at h l m s" and t: "tree_at h l' n t" and rest: "siblings h (addr_of t) n rest"
    and dist: "distinct (members (s # t # rest))" and null: "h null = None"
  shows "\<exists>h1 h'. set_next (addr_of s) null h = Some h1 \<and>
      meld lt (addr_of s) (addr_of t) h1 = Some (addr_of (link lt s t), h') \<and>
      tree_at h' l n (link lt s t) \<and> siblings h' (addr_of (link lt s t)) n rest \<and>
      same_off (members (s # t # rest)) h h'"
proof -
  have d: "distinct (tree_members s)" "addr_of s \<notin> set (tree_members t)" "addr_of s \<notin> set (members rest)"
    using dist addr_of_members [of s] by auto
  obtain h1 where h1: "set_next (addr_of s) null h = Some h1" "tree_at h1 l null s" "same_off [addr_of s] h h1"
    using tree_at_set_next [OF s d(1)] by blast
  have "tree_at h1 l' n t" using d(2) by (intro tree_at_off [OF t h1(3)]) simp
  moreover have "siblings h1 (addr_of t) n rest" using d(3) by (intro siblings_off [OF rest h1(3)]) simp
  moreover have "h1 null = None" using null h1(3) s by (auto simp: tree_at_def)
  ultimately obtain h' where "meld lt (addr_of s) (addr_of t) h1 = Some (addr_of (link lt s t), h')"
    "tree_at h' l n (link lt s t)" "siblings h' (addr_of (link lt s t)) n rest"
    "same_off (members (s # t # rest)) h1 h'"
    using meld_tree [OF h1(2) _ _ dist, of l' n lt] by blast
  moreover have "same_off (members (s # t # rest)) h h'"
    by (rule same_off_trans [OF h1(3) calculation(4)]) (simp_all add: addr_of_members)
  ultimately show ?thesis using h1(1) by blast
qed

lemma mset_members_link [simp]:
  "mset (tree_members (link lt s t)) = mset (tree_members s) + mset (tree_members t)"
  by (cases s; cases t) simp

lemma mset_members_pass1 [simp]: "mset (members (pass1 lt ts)) = mset (members ts)"
  by (induction lt ts rule: pass1.induct) simp_all

lemma mset_members_rev [simp]: "mset (members (rev ts)) = mset (members ts)"
  by (induction ts) simp_all

lemma mset_members_pass2 [simp]: "mset (tree_members (pass2 lt t ts)) = mset (members (t # ts))"
  unfolding pass2_def by (induction ts arbitrary: t) simp_all

lemma pass1_eq_Nil [simp]: "pass1 lt ts = [] \<longleftrightarrow> ts = []"
  by (cases "(lt, ts)" rule: pass1.cases) simp_all

lemma mset_members_merge_pairs:
  assumes "ts \<noteq> []"
  shows "mset (tree_members (merge_pairs lt ts)) = mset (members ts)"
proof -
  have "hd (rev (pass1 lt ts)) # tl (rev (pass1 lt ts)) = rev (pass1 lt ts)"
    using assms by simp
  then show ?thesis
    using mset_members_pass2 [of lt "hd (rev (pass1 lt ts))" "tl (rev (pass1 lt ts))"]
    by (simp add: merge_pairs_def Let_def del: members_Cons)
qed

lemma merge_right_chain:
  assumes "siblings h l a ts" "ts \<noteq> []" "chain h l us" "distinct (members (ts @ us))" "h null = None"
  shows "\<exists>h' l' top below. merge_right lt a h = Some (addr_of top, h') \<and> rev (pass1 lt ts) @ us = top # below \<and>
      tree_at h' l' null top \<and> chain h' l' below \<and> same_off (members ts) h h'"
  using assms
proof (induction lt ts arbitrary: h l a us rule: pass1.induct [case_names Two Nil One])
  case (Two lt s t ts)
  obtain m n where a: "a = addr_of s" and s: "tree_at h l (addr_of t) s" and t: "tree_at h (addr_of s) n t"
    and rest: "siblings h (addr_of t) n ts"
    using Two.prems(1) by (auto simp: siblings_Cons)
  have d: "distinct (members (s # t # ts))" using Two.prems(4) by auto
  obtain h1 h2 where h1: "set_next a null h = Some h1"
    and h2: "meld lt a (addr_of t) h1 = Some (addr_of (link lt s t), h2)"
    "tree_at h2 l n (link lt s t)" "siblings h2 (addr_of (link lt s t)) n ts"
    "same_off (members (s # t # ts)) h h2"
    using unlink_and_meld [OF s t rest d Two.prems(5), of lt] a by blast
  have us: "chain h2 l us"
    using Two.prems(3,4) by (intro chain_off [OF _ h2(4)]) auto
  have run: "merge_right lt a h =
      (if n = null then Some (addr_of (link lt s t), h2) else merge_right lt n h2)"
    using s t h1 h2 a tree_at_field [OF s] tree_at_field [OF h2(2)]
    by (subst merge_right.simps) (auto simp: tree_at_def)
  show ?case
  proof (cases "ts = []")
    case True
    then have "n = null" using rest by simp
    then show ?thesis using run h2 us True by auto
  next
    case False
    then have "n \<noteq> null" using rest by auto
    have dist: "distinct (members (ts @ link lt s t # us))"
      using Two.prems(4) 
      by auto
    have "h2 null = None"
      using h2(4) Two.prems(5) siblings_members [OF Two.prems(1)] by force
    moreover have "chain h2 (addr_of (link lt s t)) (link lt s t # us)" using us h2(2) by auto
    ultimately obtain h3 l' top below where "merge_right lt n h2 = Some (addr_of top, h3)"
      "rev (pass1 lt ts) @ link lt s t # us = top # below"
      "tree_at h3 l' null top" "chain h3 l' below" "same_off (members ts) h2 h3"
      using Two.IH [OF h2(3) False _ dist] by blast
    moreover from this(5) have "same_off (members (s # t # ts)) h h3"
      using h2(4) by auto
    ultimately show ?thesis using run \<open>n \<noteq> null\<close> by auto
  qed
next
  case (One lt t)
  then have "tree_at h l null t" "a = addr_of t" by (auto simp: siblings_Cons)
  then show ?case using One.prems(3) by (subst merge_right.simps) (auto simp: tree_at_def split: option.splits)
qed simp

lemma merge_left_tree:
  assumes "tree_at h l null t" "chain h l ts" "distinct (members (t # ts))" "h null = None"
  shows "\<exists>h'. merge_left lt (addr_of t) h = Some (addr_of (pass2 lt t ts), h') \<and>
      tree_at h' null null (pass2 lt t ts) \<and> same_off (members (t # ts)) h h'"
  using assms
proof (induction ts arbitrary: h l t)
  case Nil
  then show ?case
    by (subst merge_left.simps) (auto simp: tree_at_def pass2_def split: option.splits)
next
  case (Cons s ts)
  obtain l' n where l: "l = addr_of s" "l \<noteq> null" and s: "tree_at h l' n s" and ts: "chain h l' ts"
    using Cons.prems(2) by (auto simp: tree_at_def)
  have d: "distinct (members [s, t])" "set (members [s, t]) \<inter> set (members ts) = {}"
    using Cons.prems(3) by auto
  obtain h1 h2 where h1: "set_next l null h = Some h1"
    and h2: "meld lt l (addr_of t) h1 = Some (addr_of (link lt s t), h2)"
    "tree_at h2 l' null (link lt s t)" "same_off (members [s, t]) h h2"
    using unlink_and_meld [OF s Cons.prems(1) _ d(1) Cons.prems(4), of lt] l by auto
  have ts2: "chain h2 l' ts" using d(2) by (intro chain_off [OF ts h2(3)])
  have "merge_left lt (addr_of t) h = merge_left lt (addr_of (link lt s t)) h2"
    using h1 h2 l tree_at_field [OF Cons.prems(1)] by (subst merge_left.simps) auto
  moreover have "distinct (members (link lt s t # ts))"
    using Cons.prems(3) d 
    by auto
  moreover have "h2 null = None"
    using h2(3) Cons.prems(4) tree_at_members [OF s] tree_at_members [OF Cons.prems(1)] by force
  ultimately obtain h3 where "merge_left lt (addr_of t) h = Some (addr_of (pass2 lt (link lt s t) ts), h3)"
    "tree_at h3 null null (pass2 lt (link lt s t) ts)" "same_off (members (link lt s t # ts)) h2 h3"
    using Cons.IH [OF h2(2) ts2] by auto
  moreover from this(3) have "same_off (members (t # s # ts)) h h3"
    using h2(3)
    by auto
  ultimately show ?case by (auto simp: pass2_def)
qed

lemma combine_siblings_tree:
  assumes "siblings h l p ts" "ts \<noteq> []" "distinct (members ts)" "h null = None"
  shows "\<exists>h'. combine_siblings lt p h = Some (addr_of (merge_pairs lt ts), h') \<and>
      tree_at h' null null (merge_pairs lt ts) \<and> same_off (members ts) h h'"
proof -
  obtain t us n where ts: "ts = t # us" and p: "p = addr_of t" and t: "tree_at h l n t"
    and us: "siblings h (addr_of t) n us"
    using assms(1,2) by (cases ts) (auto simp: siblings_Cons)
  obtain h1 where h1: "set_prev p null h = Some h1" "tree_at h1 null n t" "same_off [addr_of t] h h1"
    using tree_at_set_prev [OF t, of null] assms(3) p ts by auto
  have "siblings h1 (addr_of t) n us"
    using assms(3) ts addr_of_members [of t] by (intro siblings_off [OF us h1(3)]) auto
  then have sib: "siblings h1 null p ts" using h1(2) p by (auto simp: ts siblings_Cons)
  have null1: "h1 null = None" using h1(3) assms(4) t by (auto simp: tree_at_def)
  obtain h2 l' top below where h2: "merge_right lt p h1 = Some (addr_of top, h2)" "rev (pass1 lt ts) = top # below"
    "tree_at h2 l' null top" "chain h2 l' below" "same_off (members ts) h1 h2"
    using merge_right_chain [OF sib assms(2), of "[]" lt] assms(3) null1 by auto
  have mem: "mset (members (top # below)) = mset (members ts)"
    using h2(2) mset_members_pass1 [of lt ts] mset_members_rev [of "pass1 lt ts"] by metis
  have null2: "h2 null = None"
    using h2(5) null1 siblings_members [OF assms(1)] by force
  have "distinct (members (top # below))"
    using mem assms(3) mset_eq_imp_distinct_iff by metis
  then obtain h3 where "merge_left lt (addr_of top) h2 = Some (addr_of (pass2 lt top below), h3)"
    "tree_at h3 null null (pass2 lt top below)" "same_off (members (top # below)) h2 h3"
    using merge_left_tree [OF h2(3,4) _ null2] by blast
  moreover have "merge_pairs lt ts = pass2 lt top below" by (simp add: merge_pairs_def h2(2))
  moreover have "same_off (members ts) h h3"
  proof (rule same_off_trans [OF h1(3) same_off_trans [OF h2(5) calculation(3)]])
    show "set (members (top # below)) \<subseteq> set (members ts)" using mset_eq_setD [OF mem] by simp
  qed (simp_all add: ts addr_of_members)
  ultimately show ?thesis using h1(1) h2(1) by (auto simp: combine_siblings_def)
qed

end
