(* ===== verification/PairingHeapOps.thy ===== *)
theory PairingHeapOps
  imports PairingHeap
begin

text \<open>
  The operations of the pairing heap on whole trees: which tree each of them leaves in the store.
\<close>

definition represents :: "Intrusive \<Rightarrow> tree list \<Rightarrow> bool" where
  "represents H ts \<longleftrightarrow> siblings (nodes H) null (root H) ts \<and> length ts \<le> 1 \<and>
     distinct (members ts) \<and> nodes H null = None"

lemma siblings_unique: "siblings h l p ts \<Longrightarrow> siblings h l p us \<Longrightarrow> ts = us"
proof (induction ts arbitrary: l p us rule: forest_induct)
  case Nil
  then show ?case by simp
next
  case (Cons a cs ts)
  then obtain b ds us' where us: "us = Node b ds # us'" by (cases us) (auto split: option.splits elim: tree.exhaust)
  show ?case using Cons by (auto simp: us split: option.splits)
qed

lemma represents_unique: "represents H ts \<Longrightarrow> represents H us \<Longrightarrow> ts = us"
  by (auto simp: represents_def intro: siblings_unique)

lemma represents_Nil [simp]: "represents H [] \<longleftrightarrow> root H = null \<and> nodes H null = None"
  by (auto simp: represents_def)

lemma represents_single:
  "represents H [t] \<longleftrightarrow> root H = addr_of t \<and> tree_at (nodes H) null null t \<and>
     distinct (tree_members t) \<and> nodes H null = None"
  by (auto simp: represents_def siblings_Cons)

lemma represents_cases:
  assumes "represents H ts"
  obtains "ts = []" "root H = null" | t where "ts = [t]" "root H = addr_of t" "root H \<noteq> null"
  using assms by (cases ts) (auto simp: represents_def siblings_Cons tree_at_def)

lemma tree_at_default:
  "v \<noteq> null \<Longrightarrow> h v = Some IntrusiveField_default \<Longrightarrow> tree_at h null null (Node v [])"
  by (simp add: tree_at_def IntrusiveField_default_def)

lemma meld_roots:
  assumes "tree_at h null null s" "tree_at h null null t" "distinct (members [s, t])" "h null = None"
  shows "\<exists>h'. meld lt (addr_of s) (addr_of t) h = Some (addr_of (link lt s t), h') \<and>
      represents \<lparr>root = addr_of (link lt s t), nodes = h'\<rparr> [link lt s t] \<and> same_off (members [s, t]) h h'"
proof -
  obtain h' where h': "meld lt (addr_of s) (addr_of t) h = Some (addr_of (link lt s t), h')"
    "tree_at h' null null (link lt s t)" "same_off (members [s, t]) h h'"
    using meld_tree [OF assms(1,2) _ assms(3,4)] by auto
  moreover have "h' null = None"
    using h'(3) assms(4) tree_at_members [OF assms(1)] tree_at_members [OF assms(2)] by force
  ultimately show ?thesis using assms(3) by (auto simp: represents_single)
qed

section \<open>Insertion and deletion of the minimum\<close>

definition insert_tree :: "less_fn \<Rightarrow> addr \<Rightarrow> tree list \<Rightarrow> tree list" where
  "insert_tree lt v ts = (case ts of [] \<Rightarrow> [Node v []] | t # _ \<Rightarrow> [link lt (Node v []) t])"

definition combine_tree :: "less_fn \<Rightarrow> tree list \<Rightarrow> tree list" where
  "combine_tree lt cs = (if cs = [] then [] else [merge_pairs lt cs])"

lemma insert_node_represents:
  assumes "represents H ts" "nodes H v = Some IntrusiveField_default" "v \<notin> set (members ts)"
  shows "\<exists>H'. insert_node lt v H = Some H' \<and> represents H' (insert_tree lt v ts) \<and>
      same_off (v # members ts) (nodes H) (nodes H')"
proof -
  have v: "tree_at (nodes H) null null (Node v [])"
    using assms(1,2) by (intro tree_at_default) (auto simp: represents_def)
  from assms(1) show ?thesis
  proof (cases rule: represents_cases)
    case 1
    then show ?thesis
      using assms v by (auto simp: insert_node_def insert_tree_def represents_single)
  next
    case (2 t)
    then show ?thesis
      using meld_roots [OF v, of t lt] assms by (auto simp: insert_node_def insert_tree_def represents_single)
  qed
qed

lemma delete_min_empty: "root H = null \<Longrightarrow> delete_min lt H = Some (null, H)"
  by (simp add: delete_min_def)

lemma delete_min_represents:
  assumes "represents H [Node a cs]"
  shows "\<exists>H'. delete_min lt H = Some (a, H') \<and> represents H' (combine_tree lt cs) \<and>
      nodes H' a = Some IntrusiveField_default \<and> same_off (a # members cs) (nodes H) (nodes H')"
proof -
  have H: "root H = a" "tree_at (nodes H) null null (Node a cs)" "a \<notin> set (members cs)"
    "distinct (members cs)" "nodes H null = None"
    using assms by (auto simp: represents_single)
  obtain f where f: "nodes H a = Some f" "siblings (nodes H) a (child f) cs" "a \<noteq> null"
    using H(2) by (auto simp: tree_at_def split: option.splits)
  show ?thesis
  proof (cases "cs = []")
    case True
    then show ?thesis using H f by (auto simp: delete_min_def combine_tree_def put_def)
  next
    case False
    then have "child f \<noteq> null" using f(2) by auto
    obtain h' where h': "combine_siblings lt (child f) (nodes H) = Some (addr_of (merge_pairs lt cs), h')"
      "tree_at h' null null (merge_pairs lt cs)" "same_off (members cs) (nodes H) h'"
      using combine_siblings_tree [OF f(2) False H(4,5)] by blast
    have mem: "set (tree_members (merge_pairs lt cs)) = set (members cs)"
      "distinct (tree_members (merge_pairs lt cs))"
      using mset_members_merge_pairs [OF False, of lt] H(4) mset_eq_setD mset_eq_imp_distinct_iff by metis+
    have null: "h' null = None" using h'(3) H(5) siblings_members [OF f(2)] by force
    have "h' a = Some f" using h'(3) H(3) f(1) by simp
    moreover have "tree_at (h'(a \<mapsto> IntrusiveField_default)) null null (merge_pairs lt cs)"
      using mem H(3) by (intro tree_at_off [OF h'(2), of "[a]"]) auto
    ultimately show ?thesis
      using h' mem H(1) f \<open>child f \<noteq> null\<close> False null
      by (auto simp: delete_min_def combine_tree_def represents_single put_def)
  qed
qed

section \<open>Removal of a node\<close>

fun prune :: "addr \<Rightarrow> tree list \<Rightarrow> tree list" where
  "prune v [] = []"
| "prune v (Node a cs # ts) = (if a = v then ts else Node a (prune v cs) # prune v ts)"

fun kids_of :: "addr \<Rightarrow> tree list \<Rightarrow> tree list" where
  "kids_of v [] = []"
| "kids_of v (Node a cs # ts) = (if a = v then cs else kids_of v cs @ kids_of v ts)"

lemma prune_absent [simp]: "v \<notin> set (members ts) \<Longrightarrow> prune v ts = ts"
  by (induction ts rule: forest_induct) auto

lemma kids_of_absent [simp]: "v \<notin> set (members ts) \<Longrightarrow> kids_of v ts = []"
  by (induction ts rule: forest_induct) auto

lemma mset_prune:
  "v \<in> set (members ts) \<Longrightarrow> distinct (members ts) \<Longrightarrow>
   mset (members ts) = add_mset v (mset (members (prune v ts)) + mset (members (kids_of v ts)))"
proof (induction ts rule: forest_induct)
  case (Cons a cs ts)
  show ?case
  proof (cases "v \<in> set (members cs)")
    case True
    then have "v \<noteq> a" "v \<notin> set (members ts)" using Cons.prems(2) by auto
    then show ?thesis using Cons True by simp
  next
    case False
    then show ?thesis using Cons by auto
  qed
qed simp

lemma siblings_links:
  assumes "siblings h l p ts" "v \<in> set (members ts)" "h v = Some vf" "distinct (members ts)" "l \<notin> set (members ts)"
  shows "(prev vf = l \<and> v = p \<or> prev vf \<in> set (members (prune v ts))) \<and>
    (next vf = null \<or> next vf \<in> set (members (prune v ts)) \<and> next vf \<noteq> prev vf) \<and>
    siblings h v (child vf) (kids_of v ts)"
  using assms
proof (induction ts arbitrary: l p rule: forest_induct)
  case (Cons a cs ts)
  obtain f where f: "h a = Some f" "p = a" "prev f = l" "siblings h a (child f) cs" "siblings h a (next f) ts"
    using Cons.prems by (auto split: option.splits)
  consider "v = a" | "v \<in> set (members cs)" "v \<noteq> a" "v \<notin> set (members ts)"
    | "v \<in> set (members ts)" "v \<noteq> a" "v \<notin> set (members cs)"
    using Cons.prems by auto
  then show ?case
  proof cases
    case 1
    then show ?thesis using f Cons.prems(3,5) siblings_first [OF f(5)] by auto
  next
    case 2
    then show ?thesis using Cons.IH(1) [OF f(4)] Cons.prems by auto
  next
    case 3
    then show ?thesis using Cons.IH(2) [OF f(5)] Cons.prems by auto
  qed
qed simp

lemma siblings_first_prev: "siblings h l p ts \<Longrightarrow> ts \<noteq> [] \<Longrightarrow> h p = Some f \<Longrightarrow> prev f = l"
  by (cases ts) (auto simp: siblings_Cons tree_at_def)

lemma prune_subset: "set (members (prune v ts)) \<subseteq> set (members ts)"
  by (induction ts rule: forest_induct) auto

lemma siblings_neighbours:
  assumes "siblings h l p ts" "v \<in> set (members ts)" "h v = Some vf" "distinct (members ts)" "l \<notin> set (members ts)"
  shows "prev vf = l \<and> v = p \<or> prev vf \<in> set (members ts) \<and> v \<noteq> p"
    and "next vf = null \<or> next vf \<in> set (members ts)"
proof -
  have "ts \<noteq> []" using assms(2) by auto
  then show "prev vf = l \<and> v = p \<or> prev vf \<in> set (members ts) \<and> v \<noteq> p"
    using siblings_links [OF assms] siblings_first_prev [OF assms(1)] assms(3) prune_subset [of v ts] by auto
  show "next vf = null \<or> next vf \<in> set (members ts)"
    using siblings_links [OF assms] prune_subset [of v ts] by auto
qed

text \<open>\<open>prune\<close> on the store: the neighbours of \<open>v\<close> are linked past it.\<close>

definition bypass :: "addr \<Rightarrow> IntrusiveField \<Rightarrow> IntrusiveField \<Rightarrow> IntrusiveField" where
  "bypass v vf f = (if child f = v then f\<lparr>child := next vf\<rparr> else f\<lparr>next := next vf\<rparr>)"

lemma siblings_prune:
  assumes "siblings h l p ts" "v \<in> set (members ts)" "h v = Some vf" "distinct (members ts)" "l \<notin> set (members ts)"
    and "h' (next vf) = map_option (prev_update (\<lambda>_. prev vf)) (h (next vf))"
    and "prev vf \<in> set (members ts) \<Longrightarrow> h' (prev vf) = map_option (bypass v vf) (h (prev vf))"
    and "\<And>x. x \<notin> {v, next vf, prev vf} \<Longrightarrow> h' x = h x"
  shows "siblings h' l (if p = v then next vf else p) (prune v ts)"
  using assms(1,2,4,5,7)
proof (induction ts arbitrary: l p rule: forest_induct)
  case (Cons a cs ts)
  obtain f where f: "h a = Some f" "p = a" "prev f = l" "siblings h a (child f) cs" "siblings h a (next f) ts" "a \<noteq> null"
    using Cons.prems by (auto split: option.splits)
  consider "v = a" | "v \<in> set (members cs)" "v \<noteq> a" "v \<notin> set (members ts)"
    | "v \<in> set (members ts)" "v \<noteq> a" "v \<notin> set (members cs)"
    using Cons.prems by auto
  then show ?case
  proof cases
    case 1
    have "siblings h' l (next f) ts"
    proof (rule siblings_relink [OF f(5)])
      show "h' x = h x" if "x \<in> set (members ts)" "x \<noteq> next f" for x
        using that Cons.prems f 1 assms(3) by (intro assms(8)) auto
      show "h' (next f) = map_option (prev_update (\<lambda>_. l)) (h (next f))"
        using assms(6) 1 assms(3) f by simp
    qed (use Cons.prems in auto)
    then show ?thesis using 1 f assms(3) by simp
  next
    case 2
    have links: "prev vf = a \<and> v = child f \<or> prev vf \<in> set (members cs) \<and> v \<noteq> child f"
      "next vf = null \<or> next vf \<in> set (members cs)"
      using siblings_neighbours [OF f(4) 2(1) assms(3)] Cons.prems by auto
    have "siblings h' a (if child f = v then next vf else child f) (prune v cs)"
      using Cons 2 f(4) by auto
    moreover have "siblings h' a (next f) ts = siblings h a (next f) ts"
      using links Cons.prems 2 siblings_members [OF f(5)] by (intro siblings_cong assms(8)) auto
    moreover have "h' a = Some (if child f = v then f\<lparr>child := next vf\<rparr> else f)"
      using links Cons.prems 2 f assms(8) [of a] by (auto simp: bypass_def)
    ultimately show ?thesis using 2 f by (auto split: if_splits)
  next
    case 3
    have links: "prev vf = a \<and> v = next f \<or> prev vf \<in> set (members ts) \<and> v \<noteq> next f"
      "next vf = null \<or> next vf \<in> set (members ts)"
      using siblings_neighbours [OF f(5) 3(1) assms(3)] Cons.prems by auto
    have "siblings h' a (if next f = v then next vf else next f) (prune v ts)"
      using Cons 3 f(5) by auto
    moreover have "siblings h' a (child f) cs = siblings h a (child f) cs"
      using links Cons.prems 3 siblings_members [OF f(4)] by (intro siblings_cong assms(8)) auto
    moreover have "child f \<noteq> v"
      using 3 siblings_first [OF f(4)] siblings_members [OF f(5)] by auto
    then have "h' a = Some (if next f = v then f\<lparr>next := next vf\<rparr> else f)"
      using links Cons.prems 3 f assms(8) [of a] by (auto simp: bypass_def)
    ultimately show ?thesis using 3 f by (auto split: if_splits)
  qed
qed simp

lemma remove_node_detach:
  assumes "nodes H v = Some vf" "prev vf \<noteq> null" "nodes H (prev vf) = Some pf" "nodes H null = None"
    and "next vf \<noteq> null \<Longrightarrow> nodes H (next vf) \<noteq> None" "prev vf \<notin> {v, next vf}" "next vf \<noteq> v"
  shows "\<exists>h. remove_node lt v H =
        (if child vf = null then Some (H\<lparr>nodes := h\<rparr>) else do {
           h \<leftarrow> set_child v null h;
           (x, h) \<leftarrow> combine_siblings lt (child vf) h;
           (r, h) \<leftarrow> meld lt x (root H) h;
           Some \<lparr>root = r, nodes = h\<rparr>
         }) \<and>
      h v = Some (vf\<lparr>prev := null, next := null\<rparr>) \<and>
      h (next vf) = map_option (prev_update (\<lambda>_. prev vf)) (nodes H (next vf)) \<and>
      h (prev vf) = Some (bypass v vf pf) \<and>
      (\<forall>x. x \<notin> {v, next vf, prev vf} \<longrightarrow> h x = nodes H x)"
proof -
  let ?h1 = "(nodes H)(next vf := map_option (prev_update (\<lambda>_. prev vf)) (nodes H (next vf)))"
  let ?h = "?h1(prev vf \<mapsto> bypass v vf pf, v \<mapsto> vf\<lparr>prev := null, next := null\<rparr>)"
  show ?thesis
    using assms
    by (intro exI [of _ ?h], cases "next vf = null"; cases "child pf = v")
      (auto simp: remove_node_def write_simps bypass_def Let_def fun_upd_idem)
qed

definition remove_tree :: "less_fn \<Rightarrow> addr \<Rightarrow> tree \<Rightarrow> tree list" where
  "remove_tree lt v t =
     (if addr_of t = v then combine_tree lt (kids t)
      else if kids_of v [t] = [] then prune v [t]
      else [link lt (merge_pairs lt (kids_of v [t])) (hd (prune v [t]))])"

lemma prune_single: "addr_of t \<noteq> v \<Longrightarrow> \<exists>u. prune v [t] = [u] \<and> addr_of u = addr_of t"
  by (cases t) simp

lemma remove_root:
  assumes "represents H [t]" "addr_of t = v"
  shows "\<exists>H'. remove_node lt v H = Some H' \<and> represents H' (remove_tree lt v t) \<and>
      nodes H' v = Some IntrusiveField_default \<and> same_off (tree_members t) (nodes H) (nodes H')"
proof -
  obtain cs where t: "t = Node v cs" using assms(2) by (cases t) auto
  obtain H' where "delete_min lt H = Some (v, H')" "represents H' (combine_tree lt cs)"
    "nodes H' v = Some IntrusiveField_default" "same_off (v # members cs) (nodes H) (nodes H')"
    using delete_min_represents [of H v cs lt] assms(1) t by blast
  moreover have "\<exists>f. nodes H v = Some f \<and> prev f = null" "root H = v"
    using assms(1) t by (auto simp: represents_single tree_at_def split: option.splits)
  ultimately show ?thesis by (auto simp: remove_node_def remove_tree_def t)
qed

lemma remove_inner:
  assumes rep: "represents H [t]" and v: "v \<in> set (tree_members t)" "addr_of t \<noteq> v"
  shows "\<exists>H'. remove_node lt v H = Some H' \<and> represents H' (remove_tree lt v t) \<and>
      nodes H' v = Some IntrusiveField_default \<and> same_off (tree_members t) (nodes H) (nodes H')"
proof -
  let ?cs = "kids_of v [t]"
  have H: "siblings (nodes H) null (addr_of t) [t]" "distinct (members [t])" "nodes H null = None" "root H = addr_of t"
    using rep by (auto simp: represents_def siblings_Cons)
  have vm: "v \<in> set (members [t])" using v by simp
  have nn: "null \<notin> set (members [t])" using siblings_members [OF H(1)] by blast
  obtain vf where vf: "nodes H v = Some vf" "v \<noteq> null" using siblings_members [OF H(1) vm] by auto
  note links = siblings_links [OF H(1) vm vf(1) H(2) nn]
  have mem: "mset (tree_members t) = add_mset v (mset (members (prune v [t])) + mset (members ?cs))"
    using mset_prune [OF vm H(2)] by simp
  obtain u where u: "prune v [t] = [u]" "addr_of u = addr_of t" using prune_single [OF v(2)] by blast
  have mset_t: "mset (tree_members t) = mset (v # tree_members u @ members ?cs)" using mem u by simp
  have set_t: "set (tree_members t) = set (v # tree_members u @ members ?cs)"
    by (rule mset_eq_setD [OF mset_t])
  have d: "distinct (v # tree_members u @ members ?cs)"
    using H(2) mset_eq_imp_distinct_iff [OF mset_t] by simp
  have pv: "prev vf \<in> set (tree_members u)" "prev vf \<noteq> null"
    and nv: "next vf = null \<or> next vf \<in> set (tree_members u) \<and> next vf \<noteq> prev vf"
    using links v(2) u(1) nn set_t by auto
  obtain pf where pf: "nodes H (prev vf) = Some pf"
    using siblings_members [OF H(1), of "prev vf"] pv set_t by auto
  obtain h where h: "remove_node lt v H =
        (if child vf = null then Some (H\<lparr>nodes := h\<rparr>) else do {
           h \<leftarrow> set_child v null h;
           (x, h) \<leftarrow> combine_siblings lt (child vf) h;
           (r, h) \<leftarrow> meld lt x (root H) h;
           Some \<lparr>root = r, nodes = h\<rparr>
         })"
      "h v = Some (vf\<lparr>prev := null, next := null\<rparr>)"
      "h (next vf) = map_option (prev_update (\<lambda>_. prev vf)) (nodes H (next vf))"
      "h (prev vf) = Some (bypass v vf pf)"
      "\<And>x. x \<notin> {v, next vf, prev vf} \<Longrightarrow> h x = nodes H x"
    using remove_node_detach [OF vf(1) pv(2) pf H(3), of lt] pv nv d siblings_members [OF H(1)] set_t by force
  have "siblings h null (addr_of t) (prune v [t])"
    using siblings_prune [OF H(1) vm vf(1) H(2) nn h(3) _ h(5)] h(4) pf v(2) by auto
  then have tu: "tree_at h null null u" using u by (simp add: siblings_Cons)
  have cs: "siblings h v (child vf) ?cs"
    using links pv nv d siblings_members [of "nodes H" v "child vf" ?cs]
    by (subst siblings_cong [of _ h "nodes H"]) (auto intro!: h(5))
  have off: "same_off (tree_members t) (nodes H) h"
    using set_t pv nv H(3) vf(2) h(3) h(5) by (metis Un_iff insert_iff list.set(2) option.map(1) set_append empty_iff)
  have null: "h null = None" using off nn H(3) by simp
  show ?thesis
  proof (cases "?cs = []")
    case True
    then have "child vf = null" using cs by simp
    then show ?thesis
      using True h(1,2) u tu off null d H(4) v(2)
      by (auto simp: remove_tree_def represents_single IntrusiveField_default_def)
  next
    case False
    then have c0: "child vf \<noteq> null" using cs by auto
    let ?h1 = "h(v \<mapsto> IntrusiveField_default)" and ?m = "merge_pairs lt ?cs"
    have h1: "set_child v null h = Some ?h1" "same_off [v] h ?h1" "?h1 null = None"
      using h(2) vf(2) null by (auto simp: write_simps IntrusiveField_default_def)
    have "siblings ?h1 v (child vf) ?cs" using d by (intro siblings_off [OF cs h1(2)]) auto
    then obtain h2 where h2: "combine_siblings lt (child vf) ?h1 = Some (addr_of ?m, h2)"
      "tree_at h2 null null ?m" "same_off (members ?cs) ?h1 h2"
      using combine_siblings_tree [of ?h1 v "child vf" ?cs lt] False h1(3) d by auto
    have "tree_at h2 null null u"
      using d by (intro tree_at_off [OF tree_at_off [OF tu h1(2)] h2(3)]) auto
    moreover have m: "set (tree_members ?m) = set (members ?cs)" "distinct (tree_members ?m)"
      using mset_members_merge_pairs [OF False, of lt] d mset_eq_setD
        mset_eq_imp_distinct_iff [of "tree_members ?m" "members ?cs"] by auto
    moreover have "h2 null = None" using h2(3) h1(3) set_t nn by simp
    ultimately obtain h3 where h3: "meld lt (addr_of ?m) (addr_of u) h2 = Some (addr_of (link lt ?m u), h3)"
      "represents \<lparr>root = addr_of (link lt ?m u), nodes = h3\<rparr> [link lt ?m u]" "same_off (members [?m, u]) h2 h3"
      using meld_roots [OF h2(2), of u lt] d by auto
    have off2: "same_off (tree_members t) ?h1 h3"
      by (rule same_off_trans [OF h2(3) h3(3)]) (use m set_t in auto)
    have off3: "same_off (tree_members t) (nodes H) h3"
      by (rule same_off_trans [OF off same_off_trans [OF h1(2) off2]]) (use v in auto)
    have "h3 v = Some IntrusiveField_default" using h3(3) h2(3) m d by simp
    then show ?thesis
      using False c0 h(1) h1(1) h2(1) h3 off3 u v(2) H(4) by (simp add: remove_tree_def)
  qed
qed

text \<open>Removing any node of the heap\<close>

lemma remove_node_represents:
  assumes "represents H [t]" "v \<in> set (tree_members t)"
  shows "\<exists>H'. remove_node lt v H = Some H' \<and> represents H' (remove_tree lt v t) \<and>
      nodes H' v = Some IntrusiveField_default \<and> same_off (tree_members t) (nodes H) (nodes H')"
  using remove_root [OF assms(1)] remove_inner [OF assms] by blast

end
