(* ===== verification/PairingHeapSpec.thy ===== *)
theory PairingHeapSpec
  imports PairingHeapOps
begin

text \<open>
  What the pairing heap promises: the walk visits every node once, and under an order the root is a
  minimum, so that the heap is a priority queue.
\<close>

section \<open>Visiting every node\<close>

text \<open>How the walk goes on once the subtree of \<open>p\<close> is done\<close>

definition resume :: "store \<Rightarrow> (addr \<Rightarrow> 's \<Rightarrow> 's) \<Rightarrow> addr \<Rightarrow> 's \<Rightarrow> 's option" where
  "resume h f p s =
     (if p = null then Some s else do {
        n \<leftarrow> climb h p;
        if n = null then Some s else walk h f n s
      })"

lemma siblings_split:
  "siblings h l p (us @ t # ts) \<Longrightarrow>
   \<exists>n. tree_at h (if us = [] then l else addr_of (last us)) n t \<and> siblings h (addr_of t) n ts"
  by (induction us arbitrary: l p) (auto simp: siblings_Cons)

lemma siblings_head_append: "siblings h l p (us @ t # ts) \<Longrightarrow> p = addr_of (hd (us @ [t]))"
  by (cases us) (auto simp: siblings_Cons)

lemma climb_left_parent:
  assumes "siblings h P p (us @ t # ts)" "distinct (members (us @ t # ts))"
    and "P = null \<or> (\<exists>f. h P = Some f \<and> child f = p)"
  shows "climb_left h (addr_of t) (if us = [] then P else addr_of (last us)) = Some P"
  using assms(1,2)
proof (induction us arbitrary: t ts rule: rev_induct)
  case Nil
  then have "p = addr_of t" by (simp add: siblings_Cons)
  then show ?case using assms(3) by (subst climb_left.simps) auto
next
  case (snoc s us)
  obtain n where s: "tree_at h (if us = [] then P else addr_of (last us)) n s"
    using siblings_split [of h P p us s "t # ts"] snoc.prems(1) by auto
  then obtain f where f: "h (addr_of s) = Some f" "addr_of s \<noteq> null" "siblings h (addr_of s) (child f) (kids s)"
    "prev f = (if us = [] then P else addr_of (last us))"
    by (auto simp: tree_at_def split: option.splits)
  have "addr_of t \<notin> set (tree_members s)"
    using snoc.prems(2) addr_of_members [of t] by auto
  then have "child f \<noteq> addr_of t"
    using siblings_first [OF f(3)] siblings_split [OF snoc.prems(1)] by (auto simp: tree_members_def tree_at_def)
  then show ?case
    using f snoc.IH [of s "t # ts"] snoc.prems by (subst climb_left.simps) auto
qed

lemma walk_forest:
  assumes "siblings h P p (us @ ts)" "ts \<noteq> []" "distinct (members (us @ ts))"
    and "P = null \<or> (\<exists>f. h P = Some f \<and> child f = p)"
  shows "walk h f (addr_of (hd ts)) s = resume h f P (fold f (members ts) s)"
  using assms
proof (induction ts arbitrary: P p us s rule: forest_induct)
  case (Cons a cs ts)
  obtain n where a: "tree_at h (if us = [] then P else addr_of (last us)) n (Node a cs)" "siblings h a n ts"
    using siblings_split [OF Cons.prems(1)] by auto
  then obtain nf where nf: "h a = Some nf" "a \<noteq> null" "siblings h a (child nf) cs" "next nf = n"
    "prev nf = (if us = [] then P else addr_of (last us))"
    by (auto simp: tree_at_def split: option.splits)
  have "walk h f a s = resume h f a (fold f (members cs) (f a s))"
  proof (cases "cs = []")
    case True
    then have "child nf = null" using nf(3) by simp
    then show ?thesis using nf(1,2) True by (subst walk.simps) (simp add: resume_def Let_def)
  next
    case False
    then have c: "child nf \<noteq> null" "child nf = addr_of (hd cs)"
      using nf(3) siblings_head [OF nf(3)] by (auto split: list.splits)
    have "walk h f a s = walk h f (child nf) (f a s)" using nf(1) c(1) by (subst walk.simps) (simp add: Let_def)
    also have "\<dots> = resume h f a (fold f (members cs) (f a s))"
      using Cons.IH(1) [of a "child nf" "[]"] nf(1,3) False Cons.prems(3) c(2) by simp
    finally show ?thesis .
  qed
  also have "resume h f a s' = resume h f P (fold f (members ts) s')" for s'
  proof (cases "ts = []")
    case True
    then have "n = null" using a(2) by simp
    moreover have "climb_left h a (prev nf) = Some P"
      using climb_left_parent [OF Cons.prems(1,3,4)] nf(5) by simp
    ultimately have "climb h a = (if P = null then Some null else climb h P)"
      using nf(1,4) by (subst climb.simps) simp
    then show ?thesis using nf(2) True by (simp add: resume_def)
  next
    case False
    then have n: "n \<noteq> null" "n = addr_of (hd ts)"
      using a(2) siblings_head [OF a(2)] by (auto split: list.splits)
    have "climb h a = Some n" using nf(1,4) n(1) by (subst climb.simps) simp
    then have "resume h f a s' = walk h f n s'" using nf(2) n(1) by (simp add: resume_def)
    then show ?thesis
      using Cons.IH(2) [of P p "us @ [Node a cs]"] Cons.prems False n(2) by simp
  qed
  finally show ?case by simp
qed simp

lemma for_each_fold:
  assumes "represents H ts"
  shows "for_each f H s = Some (fold f (members ts) s)"
proof (cases "ts = []")
  case True
  then show ?thesis using assms by (simp add: for_each_def)
next
  case False
  then obtain t where "ts = [t]" "root H = addr_of t" "root H \<noteq> null"
    using assms by (auto elim: represents_cases)
  then show ?thesis
    using walk_forest [of "nodes H" null "root H" "[]" ts f s] assms
    by (simp add: for_each_def represents_def resume_def)
qed

lemma count_nodes_fold: "fold (\<lambda>_ n. n + 1) xs (k :: u64) = k + of_nat (length xs)"
  by (induction xs arbitrary: k) (simp_all add: algebra_simps)

text \<open>The addresses of the nodes are distinct and not null, so the counter does not wrap.\<close>

lemma distinct_addrs_length:
  assumes "distinct xs" "null \<notin> set xs"
  shows "length xs < 2 ^ 64"
proof -
  have "card (set xs) \<le> card (UNIV - {null :: addr})"
    using assms(2) by (intro card_mono) auto
  then show ?thesis
    using assms(1) by (simp add: distinct_card card_Diff_subset card_word)
qed

lemma count_nodes_exact:
  assumes "represents H ts"
  shows "\<exists>n. count_nodes H = Some n \<and> unat n = length (members ts)"
proof -
  have "null \<notin> set (members ts)" "distinct (members ts)"
    using assms siblings_members [of "nodes H" null "root H" ts null] by (auto simp: represents_def)
  then show ?thesis
    using distinct_addrs_length [of "members ts"] for_each_fold [OF assms, of "\<lambda>_ n. n + 1" "0 :: u64"]
    by (simp add: count_nodes_def count_nodes_fold unat_of_nat)
qed

section \<open>Structure\<close>

text \<open>
  What holds whatever the comparator answers: the heap stays well formed, no operation reads or writes
  through a null or dangling pointer or runs forever, and a node that is neither in the heap nor given
  to the operation is left alone.
\<close>

definition elems :: "Intrusive \<Rightarrow> addr set" where
  "elems H = {x. \<exists>ts. represents H ts \<and> x \<in> set (members ts)}"

definition well_formed :: "Intrusive \<Rightarrow> bool" where
  "well_formed H \<longleftrightarrow> (\<exists>ts. represents H ts)"

definition unlinked :: "Intrusive \<Rightarrow> addr \<Rightarrow> bool" where
  "unlinked H v \<longleftrightarrow> nodes H v = Some IntrusiveField_default \<and> v \<notin> elems H"

lemma elems_represents: "represents H ts \<Longrightarrow> elems H = set (members ts)"
  unfolding elems_def using represents_unique by blast

lemma well_formed_elems:
  assumes "well_formed H" "x \<in> elems H"
  shows "x \<noteq> null \<and> nodes H x \<noteq> None"
  using assms elems_represents siblings_members [of "nodes H" null "root H" _ x]
  by (fastforce simp: well_formed_def represents_def)

lemma well_formed_null: "well_formed H \<Longrightarrow> nodes H null = None"
  by (auto simp: well_formed_def represents_def)

lemma well_formed_root: "well_formed H \<Longrightarrow> root H = null \<longleftrightarrow> elems H = {}"
  unfolding well_formed_def
  by (metis elems_represents represents_cases list.set(1) members.simps(1) members_Cons addr_of_members
      append_Nil2 emptyE)

lemma well_formed_root_elem: "well_formed H \<Longrightarrow> root H \<noteq> null \<Longrightarrow> root H \<in> elems H"
  unfolding well_formed_def
  by (metis elems_represents represents_cases members.simps(1) members_Cons addr_of_members append_Nil2)

lemma well_formed_frame:
  assumes "well_formed H" "root H' = root H" "\<And>x. x \<in> elems H \<Longrightarrow> nodes H' x = nodes H x" "nodes H' null = None"
  shows "well_formed H' \<and> elems H' = elems H"
proof -
  obtain ts where ts: "represents H ts" using assms(1) by (auto simp: well_formed_def)
  have "siblings (nodes H') null (root H) ts = siblings (nodes H) null (root H) ts"
    using assms(3) elems_represents [OF ts] by (intro siblings_cong) auto
  then have "represents H' ts" using ts assms(2,4) by (simp add: represents_def)
  then show ?thesis using elems_represents ts by (auto simp: well_formed_def)
qed

lemma members_combine_tree: "set (members (combine_tree lt cs)) = set (members cs)"
  using mset_members_merge_pairs [of cs lt] by (auto simp: combine_tree_def dest: mset_eq_setD)

lemma members_remove_tree:
  assumes "distinct (tree_members t)" "v \<in> set (tree_members t)"
  shows "set (members (remove_tree lt v t)) = set (tree_members t) - {v}"
proof (cases "addr_of t = v")
  case True
  then show ?thesis
    using assms by (cases t) (auto simp: remove_tree_def members_combine_tree)
next
  case False
  let ?cs = "kids_of v [t]"
  obtain u where u: "prune v [t] = [u]" using prune_single [OF False] by blast
  have "mset (tree_members t) = mset (v # tree_members u @ members ?cs)"
    using mset_prune [of v "[t]"] assms u by simp
  then have "set (tree_members t) = set (v # tree_members u @ members ?cs)" "distinct (v # tree_members u @ members ?cs)"
    using assms(1) mset_eq_setD mset_eq_imp_distinct_iff by blast+
  then show ?thesis
    using False u mset_eq_setD [OF mset_members_merge_pairs [of ?cs lt]] by (auto simp: remove_tree_def)
qed

lemma insert_structure:
  assumes "well_formed H" "unlinked H v"
  shows "\<exists>H'. insert_node lt v H = Some H' \<and> well_formed H' \<and> elems H' = insert v (elems H) \<and>
      (\<forall>x. x \<notin> insert v (elems H) \<longrightarrow> nodes H' x = nodes H x)"
proof -
  obtain ts where ts: "represents H ts" using assms(1) by (auto simp: well_formed_def)
  note el = elems_represents [OF ts]
  obtain H' where H': "insert_node lt v H = Some H'" "represents H' (insert_tree lt v ts)"
    "same_off (v # members ts) (nodes H) (nodes H')"
    using insert_node_represents [OF ts, of v lt] assms(2) el by (auto simp: unlinked_def)
  have "set (members (insert_tree lt v ts)) = insert v (set (members ts))"
    using ts by (auto simp: insert_tree_def represents_def split: list.splits)
  then show ?thesis using H' el elems_represents [OF H'(2)] by (auto simp: well_formed_def)
qed

lemma delete_structure:
  assumes "well_formed H" "elems H \<noteq> {}"
  shows "\<exists>H'. delete_min lt H = Some (root H, H') \<and> well_formed H' \<and> elems H' = elems H - {root H} \<and>
      nodes H' (root H) = Some IntrusiveField_default \<and> (\<forall>x. x \<notin> elems H \<longrightarrow> nodes H' x = nodes H x)"
proof -
  obtain ts where ts: "represents H ts" using assms(1) by (auto simp: well_formed_def)
  note el = elems_represents [OF ts]
  obtain t where "ts = [t]" "root H = addr_of t"
    using ts assms(2) el by (cases rule: represents_cases) auto
  moreover obtain a cs where "t = Node a cs" by (cases t)
  ultimately have t: "ts = [Node a cs]" "root H = a" by simp_all
  obtain H' where H': "delete_min lt H = Some (a, H')" "represents H' (combine_tree lt cs)"
    "nodes H' a = Some IntrusiveField_default" "same_off (a # members cs) (nodes H) (nodes H')"
    using delete_min_represents ts t by blast
  moreover have "a \<notin> set (members cs)" using ts t by (simp add: represents_def)
  ultimately show ?thesis
    using t el elems_represents [OF H'(2)] by (auto simp: well_formed_def members_combine_tree)
qed

lemma remove_structure:
  assumes "well_formed H" "v \<in> elems H"
  shows "\<exists>H'. remove_node lt v H = Some H' \<and> well_formed H' \<and> elems H' = elems H - {v} \<and>
      nodes H' v = Some IntrusiveField_default \<and> (\<forall>x. x \<notin> elems H \<longrightarrow> nodes H' x = nodes H x)"
proof -
  obtain ts where ts: "represents H ts" using assms(1) by (auto simp: well_formed_def)
  note el = elems_represents [OF ts]
  obtain t where t: "ts = [t]" using ts assms(2) el by (cases rule: represents_cases) auto
  obtain H' where H': "remove_node lt v H = Some H'" "represents H' (remove_tree lt v t)"
    "nodes H' v = Some IntrusiveField_default" "same_off (tree_members t) (nodes H) (nodes H')"
    using remove_node_represents [of H t v lt] ts t assms(2) el by auto
  have "set (members (remove_tree lt v t)) = elems H - {v}"
    using members_remove_tree [of t v lt] ts t assms(2) el by (simp add: represents_def)
  then show ?thesis using H' t el elems_represents [OF H'(2)] by (auto simp: well_formed_def)
qed

section \<open>Order\<close>

text \<open>
  What the heap needs of the comparator, on the nodes it holds: no two nodes are each less than the
  other, and \<open>not less\<close> is transitive. Nodes are never compared with themselves, so nothing is asked there.
\<close>

definition weak_order_on :: "less_fn \<Rightarrow> addr set \<Rightarrow> bool" where
  "weak_order_on lt S \<longleftrightarrow>
     (\<forall>x \<in> S. \<forall>y \<in> S. x \<noteq> y \<longrightarrow> lt x y \<longrightarrow> \<not> lt y x) \<and>
     (\<forall>x \<in> S. \<forall>y \<in> S. \<forall>z \<in> S. x \<noteq> y \<longrightarrow> y \<noteq> z \<longrightarrow> x \<noteq> z \<longrightarrow> \<not> lt x y \<longrightarrow> \<not> lt y z \<longrightarrow> \<not> lt x z)"

lemma weak_order_subset: "weak_order_on lt S \<Longrightarrow> T \<subseteq> S \<Longrightarrow> weak_order_on lt T"
  unfolding weak_order_on_def by blast

lemma weak_order_asym: "weak_order_on lt S \<Longrightarrow> x \<in> S \<Longrightarrow> y \<in> S \<Longrightarrow> x \<noteq> y \<Longrightarrow> lt x y \<Longrightarrow> \<not> lt y x"
  unfolding weak_order_on_def by blast

lemma weak_order_trans:
  "weak_order_on lt S \<Longrightarrow> x \<in> S \<Longrightarrow> y \<in> S \<Longrightarrow> z \<in> S \<Longrightarrow> x \<noteq> y \<Longrightarrow> y \<noteq> z \<Longrightarrow> x \<noteq> z \<Longrightarrow>
   \<not> lt x y \<Longrightarrow> \<not> lt y z \<Longrightarrow> \<not> lt x z"
  unfolding weak_order_on_def by blast

fun heap_ordered :: "less_fn \<Rightarrow> tree list \<Rightarrow> bool" where
  "heap_ordered lt [] \<longleftrightarrow> True"
| "heap_ordered lt (Node a cs # ts) \<longleftrightarrow>
     (\<forall>c \<in> set cs. \<not> lt (addr_of c) a) \<and> heap_ordered lt cs \<and> heap_ordered lt ts"

definition tree_ordered :: "less_fn \<Rightarrow> tree \<Rightarrow> bool" where
  "tree_ordered lt t \<longleftrightarrow> (\<forall>c \<in> set (kids t). \<not> lt (addr_of c) (addr_of t)) \<and> heap_ordered lt (kids t)"

lemma tree_ordered_Node [simp]:
  "tree_ordered lt (Node a cs) \<longleftrightarrow> (\<forall>c \<in> set cs. \<not> lt (addr_of c) a) \<and> heap_ordered lt cs"
  by (simp add: tree_ordered_def)

lemma heap_ordered_Cons [simp]: "heap_ordered lt (t # ts) \<longleftrightarrow> tree_ordered lt t \<and> heap_ordered lt ts"
  by (cases t) auto

declare heap_ordered.simps(2) [simp del]

lemma heap_ordered_append [simp]: "heap_ordered lt (ts @ us) \<longleftrightarrow> heap_ordered lt ts \<and> heap_ordered lt us"
  by (induction ts rule: forest_induct) auto

lemma heap_ordered_link:
  assumes "tree_ordered lt s" "tree_ordered lt t" "weak_order_on lt S"
    and "addr_of s \<in> S" "addr_of t \<in> S" "addr_of s \<noteq> addr_of t"
  shows "tree_ordered lt (link lt s t)"
  using assms weak_order_asym [OF assms(3-6)] by (cases s; cases t) auto

lemma heap_ordered_pass1:
  assumes "heap_ordered lt ts" "weak_order_on lt (set (members ts))" "distinct (members ts)"
  shows "heap_ordered lt (pass1 lt ts)"
  using assms
proof (induction lt ts rule: pass1.induct)
  case (1 lt s t ts)
  have "tree_ordered lt (link lt s t)"
    using 1 addr_of_members [of s] addr_of_members [of t]
    by (intro heap_ordered_link [where S = "set (members (s # t # ts))"]) auto
  moreover have "heap_ordered lt (pass1 lt ts)"
    using 1 weak_order_subset [OF "1.prems"(2), of "set (members ts)"]
    by auto
  ultimately show ?case by simp
qed simp_all

lemma heap_ordered_pass2:
  assumes "heap_ordered lt (t # ts)" "weak_order_on lt (set (members (t # ts)))" "distinct (members (t # ts))"
  shows "tree_ordered lt (pass2 lt t ts)"
  using assms
proof (induction ts arbitrary: t)
  case (Cons s ts)
  have "tree_ordered lt (link lt s t)"
    using Cons.prems addr_of_members [of s] addr_of_members [of t]
    by (intro heap_ordered_link [where S = "set (members (t # s # ts))"]) auto
  then have "heap_ordered lt (link lt s t # ts)"
    using Cons.prems(1) by auto
  moreover have "weak_order_on lt (set (members (link lt s t # ts)))" "distinct (members (link lt s t # ts))"
    using Cons.prems(2,3) by (auto simp: Un_ac)
  ultimately show ?case using Cons.IH by (simp add: pass2_def)
qed (simp add: pass2_def)

lemma members_cong_mset: "mset xs = mset ys \<Longrightarrow> set xs = set ys \<and> distinct xs = distinct ys"
  using mset_eq_setD mset_eq_imp_distinct_iff by blast

lemma heap_ordered_rev [simp]: "heap_ordered lt (rev ts) = heap_ordered lt ts"
  by (induction ts) auto

lemma heap_ordered_combine:
  assumes "heap_ordered lt ts" "weak_order_on lt (set (members ts))" "distinct (members ts)"
  shows "heap_ordered lt (combine_tree lt ts)"
proof (cases "ts = []")
  case False
  then obtain u us where u: "rev (pass1 lt ts) = u # us" by (cases "rev (pass1 lt ts)") auto
  have "mset (members (u # us)) = mset (members ts)" by (simp add: u [symmetric] del: members_Cons)
  then have "set (members (u # us)) = set (members ts)" "distinct (members (u # us))"
    using assms(3) members_cong_mset by blast+
  moreover have "heap_ordered lt (u # us)" using heap_ordered_pass1 [OF assms] u heap_ordered_rev by metis
  ultimately have "tree_ordered lt (pass2 lt u us)" using heap_ordered_pass2 assms(2) by metis
  then show ?thesis using False by (simp add: combine_tree_def merge_pairs_def u)
qed (simp add: combine_tree_def)

text \<open>The root of an ordered tree is a least node.\<close>

lemma heap_ordered_above:
  assumes "heap_ordered lt ts" "\<forall>t \<in> set ts. \<not> lt (addr_of t) a"
    and "weak_order_on lt (insert a (set (members ts)))" "distinct (a # members ts)" "x \<in> set (members ts)"
  shows "\<not> lt x a"
  using assms
proof (induction ts arbitrary: a rule: forest_induct)
  case (Cons c ds ts)
  consider "x = c" | "x \<in> set (members ds)" | "x \<in> set (members ts)" using Cons.prems(5) by auto
  then show ?case
  proof cases
    case 1
    then show ?thesis using Cons.prems(2) by simp
  next
    case 2
    have "\<not> lt x c"
      using Cons.prems 2 by (intro Cons.IH(1)) (auto intro: weak_order_subset)
    then show ?thesis
      using weak_order_trans [OF Cons.prems(3), of x c a] Cons.prems 2 by auto
  next
    case 3
    then show ?thesis
      using Cons.prems by (intro Cons.IH(2)) (auto intro: weak_order_subset)
  qed
qed simp

lemma root_least:
  assumes "tree_ordered lt t" "weak_order_on lt (set (tree_members t))" "distinct (tree_members t)"
    and "x \<in> set (tree_members t)" "x \<noteq> addr_of t"
  shows "\<not> lt x (addr_of t)"
  using assms heap_ordered_above [of lt "kids t" "addr_of t" x] by (cases t) auto

lemma roots_prune: "addr_of ` set (prune v ts) \<subseteq> addr_of ` set ts"
  by (induction ts rule: forest_induct) auto

lemma heap_ordered_prune: "heap_ordered lt ts \<Longrightarrow> heap_ordered lt (prune v ts)"
proof (induction ts rule: forest_induct)
  case (Cons a cs ts)
  then show ?case using roots_prune [of v cs] by fastforce
qed simp

lemma heap_ordered_kids_of: "heap_ordered lt ts \<Longrightarrow> heap_ordered lt (kids_of v ts)"
  by (induction ts rule: forest_induct) auto

text \<open>The greatest node, by the fold of \<^verbatim>\<open>find_max\<close>\<close>

lemma find_max_fold:
  assumes "weak_order_on lt S" "insert m (set xs) \<subseteq> S" "P \<subseteq> S" "m \<in> P"
    and "\<forall>x \<in> P. x \<noteq> m \<longrightarrow> \<not> lt m x"
  shows "\<exists>r \<in> P \<union> set xs. fold (\<lambda>x m. if lt m x then x else m) xs m = r \<and>
      (\<forall>x \<in> P \<union> set xs. x \<noteq> r \<longrightarrow> \<not> lt r x)"
  using assms(2-)
proof (induction xs arbitrary: m P)
  case (Cons y xs)
  have new: "\<forall>x \<in> insert y P. x \<noteq> (if lt m y then y else m) \<longrightarrow> \<not> lt (if lt m y then y else m) x"
  proof (cases "lt m y \<and> y \<noteq> m")
    case True
    then have "\<not> lt y m" using weak_order_asym [OF assms(1), of m y] Cons.prems by auto
    moreover have "\<not> lt y x" if "x \<in> P" "x \<noteq> m" "x \<noteq> y" for x
      using weak_order_trans [OF assms(1), of y m x] calculation True that Cons.prems by auto
    ultimately show ?thesis using True by auto
  next
    case False
    then show ?thesis using Cons.prems(4) by auto
  qed
  have "\<exists>r \<in> insert y P \<union> set xs. fold (\<lambda>x m. if lt m x then x else m) xs (if lt m y then y else m) = r \<and>
      (\<forall>x \<in> insert y P \<union> set xs. x \<noteq> r \<longrightarrow> \<not> lt r x)"
    by (rule Cons.IH) (use Cons.prems new in auto)
  then show ?case by simp
qed simp

lemma remove_tree_spec:
  assumes "tree_ordered lt t" "weak_order_on lt (set (tree_members t))" "distinct (tree_members t)"
    and "v \<in> set (tree_members t)"
  shows "heap_ordered lt (remove_tree lt v t) \<and> set (members (remove_tree lt v t)) = set (tree_members t) - {v}"
proof (cases "addr_of t = v")
  case True
  then obtain cs where t: "t = Node v cs" by (cases t) auto
  have "set (members (combine_tree lt cs)) = set (members cs)"
    using mset_members_merge_pairs [of cs lt] by (auto simp: combine_tree_def dest: mset_eq_setD)
  then show ?thesis
    using assms t by (auto simp: remove_tree_def intro!: heap_ordered_combine intro: weak_order_subset)
next
  case False
  let ?cs = "kids_of v [t]"
  obtain u where u: "prune v [t] = [u]" "addr_of u = addr_of t" using prune_single [OF False] by blast
  have "mset (tree_members t) = mset (v # tree_members u @ members ?cs)"
    using mset_prune [of v "[t]"] assms(3,4) u by simp
  then have mem: "set (tree_members t) = set (v # tree_members u @ members ?cs)"
    "distinct (v # tree_members u @ members ?cs)"
    using assms(3) members_cong_mset by blast+
  have ord: "tree_ordered lt u" "heap_ordered lt ?cs"
    using heap_ordered_prune [of lt "[t]" v] heap_ordered_kids_of [of lt "[t]" v] assms(1) u by auto
  show ?thesis
  proof (cases "?cs = []")
    case True
    then show ?thesis using False u mem ord by (auto simp: remove_tree_def)
  next
    case False2: False
    have m: "set (tree_members (merge_pairs lt ?cs)) = set (members ?cs)" "tree_ordered lt (merge_pairs lt ?cs)"
      using mset_eq_setD [OF mset_members_merge_pairs [OF False2, of lt]] False2 mem assms(2)
        heap_ordered_combine [OF ord(2)] by (auto simp: combine_tree_def intro: weak_order_subset)
    have "tree_ordered lt (link lt (merge_pairs lt ?cs) u)"
      using m ord(1) mem addr_of_members [of u] addr_of_members [of "merge_pairs lt ?cs"]
      by (intro heap_ordered_link [OF _ _ assms(2)]) auto
    then show ?thesis using False False2 u m mem by (auto simp: remove_tree_def)
  qed
qed

section \<open>The heap as a priority queue\<close>

definition heap_inv :: "less_fn \<Rightarrow> Intrusive \<Rightarrow> bool" where
  "heap_inv lt H \<longleftrightarrow> (\<exists>ts. represents H ts \<and> heap_ordered lt ts)"

lemma insert_node_spec:
  assumes "heap_inv lt H" "unlinked H v" "weak_order_on lt (insert v (elems H))"
  shows "\<exists>H'. insert_node lt v H = Some H' \<and> heap_inv lt H' \<and> elems H' = insert v (elems H) \<and>
      (\<forall>w. unlinked H w \<longrightarrow> w \<noteq> v \<longrightarrow> unlinked H' w)"
proof -
  obtain ts where ts: "represents H ts" "heap_ordered lt ts" using assms(1) by (auto simp: heap_inv_def)
  note el = elems_represents [OF ts(1)]
  obtain H' where H': "insert_node lt v H = Some H'" "represents H' (insert_tree lt v ts)"
    "same_off (v # members ts) (nodes H) (nodes H')"
    using insert_node_represents [OF ts(1), of v lt] assms(2) el by (auto simp: unlinked_def)
  have mem: "set (members (insert_tree lt v ts)) = insert v (set (members ts))"
    using ts(1) by (auto simp: insert_tree_def represents_def split: list.splits)
  have "heap_ordered lt (insert_tree lt v ts)"
  proof (cases ts)
    case (Cons t us)
    then have "tree_ordered lt (link lt (Node v []) t)"
      using ts(2) assms(2,3) el addr_of_members [of t]
      by (intro heap_ordered_link [where S = "insert v (elems H)"]) (auto simp: unlinked_def)
    then show ?thesis by (simp add: insert_tree_def Cons)
  qed (simp add: insert_tree_def)
  then show ?thesis
    using H' mem el elems_represents [OF H'(2)] by (auto simp: heap_inv_def unlinked_def)
qed

lemma delete_min_spec:
  assumes "heap_inv lt H" "elems H \<noteq> {}" "weak_order_on lt (elems H)"
  shows "\<exists>x H'. delete_min lt H = Some (x, H') \<and> x = peek H \<and> x \<noteq> null \<and> x \<in> elems H \<and>
      (\<forall>y \<in> elems H. y \<noteq> x \<longrightarrow> \<not> lt y x) \<and> heap_inv lt H' \<and> elems H' = elems H - {x} \<and>
      unlinked H' x \<and> (\<forall>w. unlinked H w \<longrightarrow> unlinked H' w)"
proof -
  obtain ts where ts: "represents H ts" "heap_ordered lt ts" using assms(1) by (auto simp: heap_inv_def)
  note el = elems_represents [OF ts(1)]
  obtain a cs where t: "ts = [Node a cs]" "root H = a" "a \<noteq> null"
    using ts(1) assms(2) el by (cases rule: represents_cases) (auto elim: tree.exhaust, metis addr_of.simps tree.exhaust)
  obtain H' where H': "delete_min lt H = Some (a, H')" "represents H' (combine_tree lt cs)"
    "nodes H' a = Some IntrusiveField_default" "same_off (a # members cs) (nodes H) (nodes H')"
    using delete_min_represents ts(1) t by blast
  have d: "distinct (a # members cs)" using ts(1) t by (simp add: represents_def)
  have mem: "set (members (combine_tree lt cs)) = set (members cs)"
    using mset_members_merge_pairs [of cs lt] by (auto simp: combine_tree_def dest: mset_eq_setD)
  have "heap_ordered lt (combine_tree lt cs)"
    using ts(2) t d assms(3) el by (intro heap_ordered_combine) (auto intro: weak_order_subset)
  moreover have "\<forall>y \<in> elems H. y \<noteq> a \<longrightarrow> \<not> lt y a"
    using root_least [of lt "Node a cs"] ts(2) t d assms(3) el by auto
  ultimately show ?thesis
    using H' t mem d el elems_represents [OF H'(2)] by (auto simp: heap_inv_def unlinked_def peek_def)
qed

lemma remove_node_spec:
  assumes "heap_inv lt H" "v \<in> elems H" "weak_order_on lt (elems H)"
  shows "\<exists>H'. remove_node lt v H = Some H' \<and> heap_inv lt H' \<and> elems H' = elems H - {v} \<and>
      unlinked H' v \<and> (\<forall>w. unlinked H w \<longrightarrow> unlinked H' w)"
proof -
  obtain ts where ts: "represents H ts" "heap_ordered lt ts" using assms(1) by (auto simp: heap_inv_def)
  note el = elems_represents [OF ts(1)]
  obtain t where t: "ts = [t]" using ts(1) assms(2) el by (cases rule: represents_cases) auto
  obtain H' where H': "remove_node lt v H = Some H'" "represents H' (remove_tree lt v t)"
    "nodes H' v = Some IntrusiveField_default" "same_off (tree_members t) (nodes H) (nodes H')"
    using remove_node_represents [of H t v lt] ts(1) t assms(2) el by auto
  have "heap_ordered lt (remove_tree lt v t) \<and> set (members (remove_tree lt v t)) = elems H - {v}"
    using remove_tree_spec [of lt t v] ts t assms el by (simp add: represents_def)
  then show ?thesis
    using H' t el elems_represents [OF H'(2)] by (auto simp: heap_inv_def unlinked_def)
qed

section \<open>Priority queues\<close>

text \<open>
  The interface the timers use: a queue holds a set of nodes, \<open>pop\<close> takes out one that no other node is
  before. Every operation has a result on a queue in its invariant.
\<close>

locale priority_queue =
  fixes insert_op :: "'a \<Rightarrow> 'q \<Rightarrow> 'q option"
    and remove_op :: "'a \<Rightarrow> 'q \<Rightarrow> 'q option"
    and pop_op :: "'q \<Rightarrow> ('a option \<times> 'q) option"
    and holds :: "'q \<Rightarrow> 'a set"
    and free :: "'q \<Rightarrow> 'a \<Rightarrow> bool"
    and inv :: "'q \<Rightarrow> bool"
    and before :: "'a \<Rightarrow> 'a \<Rightarrow> bool"
    and comparable :: "'a set \<Rightarrow> bool"
  assumes finite_holds: "inv q \<Longrightarrow> finite (holds q)"
    and comparable_subset: "comparable S \<Longrightarrow> T \<subseteq> S \<Longrightarrow> comparable T"
    and insert_law: "inv q \<Longrightarrow> free q v \<Longrightarrow> comparable (insert v (holds q)) \<Longrightarrow>
      \<exists>q'. insert_op v q = Some q' \<and> inv q' \<and> holds q' = insert v (holds q) \<and>
        (\<forall>w. free q w \<longrightarrow> w \<noteq> v \<longrightarrow> free q' w)"
    and remove_law: "inv q \<Longrightarrow> v \<in> holds q \<Longrightarrow> comparable (holds q) \<Longrightarrow>
      \<exists>q'. remove_op v q = Some q' \<and> inv q' \<and> holds q' = holds q - {v} \<and>
        free q' v \<and> (\<forall>w. free q w \<longrightarrow> free q' w)"
    and pop_empty: "inv q \<Longrightarrow> holds q = {} \<Longrightarrow> pop_op q = Some (None, q)"
    and pop_law: "inv q \<Longrightarrow> holds q \<noteq> {} \<Longrightarrow> comparable (holds q) \<Longrightarrow>
      \<exists>x q'. pop_op q = Some (Some x, q') \<and> x \<in> holds q \<and> (\<forall>y \<in> holds q. y \<noteq> x \<longrightarrow> \<not> before y x) \<and>
        inv q' \<and> holds q' = holds q - {x} \<and> free q' x \<and> (\<forall>w. free q w \<longrightarrow> free q' w)"

text \<open>Popping until the queue is empty, with fuel, and inserting a list of nodes\<close>

fun drain :: "('q \<Rightarrow> ('a option \<times> 'q) option) \<Rightarrow> nat \<Rightarrow> 'q \<Rightarrow> ('a list \<times> 'q) option" where
  "drain pop 0 q = None"
| "drain pop (Suc n) q = do {
     (x, q') \<leftarrow> pop q;
     case x of None \<Rightarrow> Some ([], q')
     | Some x \<Rightarrow> do {
         (xs, q'') \<leftarrow> drain pop n q';
         Some (x # xs, q'')
       }
   }"

fun insert_all :: "('a \<Rightarrow> 'q \<Rightarrow> 'q option) \<Rightarrow> 'a list \<Rightarrow> 'q \<Rightarrow> 'q option" where
  "insert_all ins [] q = Some q"
| "insert_all ins (x # xs) q = do { q' \<leftarrow> ins x q; insert_all ins xs q' }"

context priority_queue
begin

lemma drain_sorted:
  assumes "inv q" "comparable (holds q)" "card (holds q) < n"
  shows "\<exists>xs q'. drain pop_op n q = Some (xs, q') \<and> inv q' \<and> holds q' = {} \<and>
      set xs = holds q \<and> distinct xs \<and> sorted_wrt (\<lambda>x y. \<not> before y x) xs"
  using assms
proof (induction n arbitrary: q)
  case (Suc n)
  show ?case
  proof (cases "holds q = {}")
    case True
    then show ?thesis using Suc.prems(1) pop_empty by simp
  next
    case False
    then obtain x q1 where x: "pop_op q = Some (Some x, q1)" "x \<in> holds q"
      "\<forall>y \<in> holds q. y \<noteq> x \<longrightarrow> \<not> before y x" "inv q1" "holds q1 = holds q - {x}"
      using pop_law Suc.prems by blast
    have "card (holds q1) < n"
      using Suc.prems(3) card_Diff1_less [OF finite_holds [OF Suc.prems(1)] x(2)] x(5) by simp
    moreover have "comparable (holds q1)" using comparable_subset [OF Suc.prems(2)] x(5) by simp
    ultimately obtain xs q' where "drain pop_op n q1 = Some (xs, q')" "inv q'" "holds q' = {}"
      "set xs = holds q1" "distinct xs" "sorted_wrt (\<lambda>x y. \<not> before y x) xs"
      using Suc.IH [OF x(4)] by blast
    then show ?thesis using x by auto
  qed
qed simp

lemma insert_all_holds:
  assumes "inv q" "\<forall>x \<in> set xs. free q x" "distinct xs" "comparable (set xs \<union> holds q)"
  shows "\<exists>q'. insert_all insert_op xs q = Some q' \<and> inv q' \<and> holds q' = set xs \<union> holds q"
  using assms
proof (induction xs arbitrary: q)
  case (Cons x xs)
  have "comparable (insert x (holds q))" by (rule comparable_subset [OF Cons.prems(4)]) auto
  then obtain q1 where q1: "insert_op x q = Some q1" "inv q1" "holds q1 = insert x (holds q)"
    "\<forall>w. free q w \<longrightarrow> w \<noteq> x \<longrightarrow> free q1 w"
    using insert_law [of q x] Cons.prems by auto
  moreover have "\<forall>y \<in> set xs. free q1 y" using Cons.prems q1(4) by auto
  ultimately show ?case using Cons.IH [of q1] Cons.prems by (auto simp: Un_ac)
qed simp

text \<open>Whatever order the nodes come in, they leave in the order of the comparator.\<close>

lemma insert_all_drain:
  assumes "inv q" "holds q = {}" "\<forall>x \<in> set xs. free q x" "distinct xs" "comparable (set xs)"
  shows "\<exists>q1 ys q2. insert_all insert_op xs q = Some q1 \<and> drain pop_op (Suc (length xs)) q1 = Some (ys, q2) \<and>
      holds q2 = {} \<and> set ys = set xs \<and> distinct ys \<and> sorted_wrt (\<lambda>x y. \<not> before y x) ys"
proof -
  obtain q1 where "insert_all insert_op xs q = Some q1" "inv q1" "holds q1 = set xs"
    using insert_all_holds [of q xs] assms by auto
  moreover have "card (set xs) < Suc (length xs)" using card_length [of xs] by simp
  ultimately show ?thesis using drain_sorted [of q1 "Suc (length xs)"] assms(5) by auto
qed

end

section \<open>What the operations promise\<close>

text \<open>Sample heaps: five unlinked nodes, and a root with two children\<close>

definition sample_store :: store where
  "sample_store = (\<lambda>a. if a = 0 \<or> 5 < a then None else Some IntrusiveField_default)"

definition empty_heap :: Intrusive where
  "empty_heap = \<lparr>root = null, nodes = sample_store\<rparr>"

definition three_heap :: Intrusive where
  "three_heap = \<lparr>root = 1, nodes = sample_store(1 \<mapsto> \<lparr>child = 2, prev = 0, next = 0\<rparr>,
     2 \<mapsto> \<lparr>child = 0, prev = 1, next = 3\<rparr>, 3 \<mapsto> \<lparr>child = 0, prev = 2, next = 0\<rparr>)\<rparr>"

lemma empty_heap_inv: "heap_inv lt empty_heap" "elems empty_heap = {}" "a \<in> {1, 2, 3, 4, 5} \<Longrightarrow> unlinked empty_heap a"
proof -
  have rep: "represents empty_heap []" by (simp add: empty_heap_def sample_store_def)
  then show "heap_inv lt empty_heap" unfolding heap_inv_def by (intro exI [of _ "[]"]) simp
  show el: "elems empty_heap = {}" using elems_represents [OF rep] by simp
  show "unlinked empty_heap a" if "a \<in> {1, 2, 3, 4, 5}"
    using that el by (auto simp: unlinked_def empty_heap_def sample_store_def)
qed

lemma three_heap_represents: "represents three_heap [Node 1 [Node 2 [], Node 3 []]]"
  by code_simp

lemma three_heap_facts: "well_formed three_heap" "elems three_heap = {1, 2, 3}" "unlinked three_heap 4"
proof -
  show "well_formed three_heap" using three_heap_represents unfolding well_formed_def by blast
  show el: "elems three_heap = {1, 2, 3}" using elems_represents [OF three_heap_represents] by auto
  have "nodes three_heap 4 = Some IntrusiveField_default" by code_simp
  then show "unlinked three_heap 4" using el by (simp add: unlinked_def)
qed

text \<open>
  C10. Whatever the comparator answers, on a well-formed heap every operation returns without a read or
  write through a null or dangling pointer and without a failed assertion, leaves a well-formed heap
  with exactly the node added or taken out, leaves every node outside the heap alone, and resets the
  links of a node that leaves it.
\<close>

theorem heap_operations_safe:
  assumes "well_formed H" "unlinked H v" "w \<in> elems H"
  shows "\<exists>H1 H2 H3. insert_node lt v H = Some H1 \<and> well_formed H1 \<and> elems H1 = insert v (elems H) \<and>
      (\<forall>x. x \<notin> insert v (elems H) \<longrightarrow> nodes H1 x = nodes H x) \<and>
      delete_min lt H = Some (peek H, H2) \<and> well_formed H2 \<and> elems H2 = elems H - {peek H} \<and>
      peek H \<in> elems H \<and> unlinked H2 (peek H) \<and> (\<forall>x. x \<notin> elems H \<longrightarrow> nodes H2 x = nodes H x) \<and>
      remove_node lt w H = Some H3 \<and> well_formed H3 \<and> elems H3 = elems H - {w} \<and>
      unlinked H3 w \<and> (\<forall>x. x \<notin> elems H \<longrightarrow> nodes H3 x = nodes H x)"
proof -
  have ne: "elems H \<noteq> {}" using assms(3) by blast
  then have "root H \<in> elems H" using well_formed_root well_formed_root_elem assms(1) by blast
  then show ?thesis
    using insert_structure [OF assms(1,2), of lt] delete_structure [OF assms(1) ne, of lt]
      remove_structure [OF assms(1,3), of lt]
    by (auto simp: peek_def unlinked_def)
qed

theorem heap_operations_safe_witness:
  "\<exists>H1 H2 H3. insert_node (<) 4 three_heap = Some H1 \<and> well_formed H1 \<and> elems H1 = insert 4 (elems three_heap) \<and>
      (\<forall>x. x \<notin> insert 4 (elems three_heap) \<longrightarrow> nodes H1 x = nodes three_heap x) \<and>
      delete_min (<) three_heap = Some (peek three_heap, H2) \<and> well_formed H2 \<and>
      elems H2 = elems three_heap - {peek three_heap} \<and>
      peek three_heap \<in> elems three_heap \<and> unlinked H2 (peek three_heap) \<and>
      (\<forall>x. x \<notin> elems three_heap \<longrightarrow> nodes H2 x = nodes three_heap x) \<and>
      remove_node (<) 2 three_heap = Some H3 \<and> well_formed H3 \<and> elems H3 = elems three_heap - {2} \<and>
      unlinked H3 2 \<and> (\<forall>x. x \<notin> elems three_heap \<longrightarrow> nodes H3 x = nodes three_heap x)"
  by (rule heap_operations_safe) (simp_all add: three_heap_facts)

text \<open>
  C11. The walk of \<^verbatim>\<open>for_each\<close>, which keeps no stack, ends and visits every node of a well-formed heap
  exactly once; \<^verbatim>\<open>count\<close> is the number of nodes and does not overflow.
\<close>

theorem for_each_visits_once:
  assumes "well_formed H"
  shows "\<exists>vs. distinct vs \<and> set vs = elems H \<and> (\<forall>f s. for_each f H s = Some (fold f vs (s :: 's))) \<and>
      (\<exists>n. count_nodes H = Some n \<and> unat n = card (elems H))"
proof -
  obtain ts where ts: "represents H ts" using assms by (auto simp: well_formed_def)
  moreover have "distinct (members ts)" using ts by (simp add: represents_def)
  ultimately show ?thesis
    using count_nodes_exact [OF ts] elems_represents [OF ts]
    by (intro exI [of _ "members ts"]) (simp add: for_each_fold distinct_card)
qed

theorem for_each_visits_once_witness:
  "\<exists>vs. distinct vs \<and> set vs = elems three_heap \<and>
      (\<forall>f s. for_each f three_heap s = Some (fold f vs (s :: addr list))) \<and>
      (\<exists>n. count_nodes three_heap = Some n \<and> unat n = card (elems three_heap))"
  by (rule for_each_visits_once) (rule three_heap_facts)

text \<open>
  Under an order, \<^verbatim>\<open>find_max\<close> returns a node that is less than no other node of the heap.
\<close>

theorem find_max_greatest:
  assumes "well_formed H" "elems H \<noteq> {}" "weak_order_on lt (elems H)"
  shows "\<exists>m. find_max lt H = Some m \<and> m \<in> elems H \<and> (\<forall>x \<in> elems H. x \<noteq> m \<longrightarrow> \<not> lt m x)"
proof -
  obtain ts where ts: "represents H ts" using assms(1) by (auto simp: well_formed_def)
  note el = elems_represents [OF ts]
  have root: "root H \<in> elems H" using well_formed_root well_formed_root_elem assms(1,2) by blast
  have un: "{root H} \<union> set (members ts) = elems H" using root el by blast
  have "\<exists>r \<in> {root H} \<union> set (members ts).
      fold (\<lambda>x m. if lt m x then x else m) (members ts) (root H) = r \<and>
      (\<forall>x \<in> {root H} \<union> set (members ts). x \<noteq> r \<longrightarrow> \<not> lt r x)"
    using el root by (intro find_max_fold [OF assms(3)]) auto
  then obtain r where r: "r \<in> elems H" "fold (\<lambda>x m. if lt m x then x else m) (members ts) (root H) = r"
    "\<forall>x \<in> elems H. x \<noteq> r \<longrightarrow> \<not> lt r x"
    unfolding un by blast
  have "find_max lt H = Some r" by (simp add: find_max_def for_each_fold [OF ts] r(2))
  then show ?thesis using r(1,3) by blast
qed

theorem find_max_greatest_witness:
  "\<exists>m. find_max (<) three_heap = Some m \<and> m \<in> elems three_heap \<and> (\<forall>x \<in> elems three_heap. x \<noteq> m \<longrightarrow> \<not> m < x)"
  by (rule find_max_greatest) (auto simp: three_heap_facts weak_order_on_def)

end
