(* ===== verification/EventLoopTimer.thy ===== *)
theory EventLoopTimer
  imports Timespec PairingHeapSpec
begin

text \<open>
  \<^verbatim>\<open>src/event_loop/EventLoopTimer.rs\<close> and the \<^verbatim>\<open>TimerHeap\<close> of \<^verbatim>\<open>src/runtime/timer/mod.rs\<close>: the timers of the
  event loop, the packed flags of the timers JavaScript sees, the order timers fire in, and the heap
  they wait in. The container that \<^verbatim>\<open>js_timer_flags_ptr\<close> recovers from the tag is represented by the flags
  it holds, a field of the timer.
\<close>

unbundle bit_operations_syntax

section \<open>Timers\<close>

datatype Tag =
    TimeoutObject | ImmediateObject | StatWatcherScheduler | UpgradedDuplex | DNSResolver
  | DnsSdConnection | WindowsNamedPipe | WTFTimer | PostgresSQLConnectionTimeout
  | PostgresSQLConnectionMaxLifetime | MySQLConnectionTimeout | MySQLConnectionMaxLifetime
  | ValkeyConnectionTimeout | ValkeyConnectionReconnect | SubprocessTimeout
  | DevServerSweepSourceMaps | DevServerMemoryVisualizerTick | AbortSignalTimeout | DateHeaderTimer
  | BunTest | EventLoopDelayMonitor | CronJob | GcRepeating | QuicEndpoint | UvTimer

definition allow_fake_timers :: "Tag \<Rightarrow> bool" where
  "allow_fake_timers tag \<longleftrightarrow> tag = TimeoutObject \<or> tag = AbortSignalTimeout \<or> tag = CronJob"

datatype State = PENDING | ACTIVE | CANCELLED | FIRED

datatype InHeap = InHeap_None | Regular | Fake

record EventLoopTimer =
  deadline :: Timespec
  t_state :: State
  t_tag :: Tag
  in_heap :: InHeap
  t_flags :: u32

section \<open>Packed flags\<close>

datatype Kind = SetTimeout | SetInterval | SetImmediate

definition EPOCH_MASK :: u32 where
  "EPOCH_MASK = push_bit 25 1 - 1"

definition KIND_MASK :: u32 where
  "KIND_MASK = push_bit 25 3"

definition TimerFlags_default :: u32 where
  "TimerFlags_default = push_bit 30 1"

definition flags_epoch :: "u32 \<Rightarrow> u32" where
  "flags_epoch f = f AND EPOCH_MASK"

definition set_epoch :: "u32 \<Rightarrow> u32 \<Rightarrow> u32" where
  "set_epoch v f = (f AND NOT EPOCH_MASK) OR (v AND EPOCH_MASK)"

fun kind_of :: "nat \<Rightarrow> Kind option" where
  "kind_of n = (if n = 0 then Some SetTimeout else if n = 1 then Some SetInterval
     else if n = 2 then Some SetImmediate else None)"

fun kind_bits :: "Kind \<Rightarrow> u32" where
  "kind_bits SetTimeout = 0"
| "kind_bits SetInterval = 1"
| "kind_bits SetImmediate = 2"

text \<open>\<open>None\<close> is the \<^verbatim>\<open>unreachable!()\<close> of the source.\<close>

definition flags_kind :: "u32 \<Rightarrow> Kind option" where
  "flags_kind f = kind_of (unat (drop_bit 25 (f AND KIND_MASK)))"

definition set_kind :: "Kind \<Rightarrow> u32 \<Rightarrow> u32" where
  "set_kind k f = (f AND NOT KIND_MASK) OR push_bit 25 (kind_bits k)"

text \<open>
  The five one-bit fields differ in the bit: \<open>27\<close> \<^verbatim>\<open>has_cleared_timer\<close>, \<open>28\<close> \<^verbatim>\<open>is_keeping_event_loop_alive\<close>,
  \<open>29\<close> \<^verbatim>\<open>has_accessed_primitive\<close>, \<open>30\<close> \<^verbatim>\<open>has_js_ref\<close>, \<open>31\<close> \<^verbatim>\<open>in_callback\<close>.
\<close>

definition timer_flag :: "nat \<Rightarrow> u32 \<Rightarrow> bool" where
  "timer_flag n f \<longleftrightarrow> f AND push_bit n 1 \<noteq> 0"

definition set_timer_flag :: "nat \<Rightarrow> bool \<Rightarrow> u32 \<Rightarrow> u32" where
  "set_timer_flag n v f = (if v then f OR push_bit n 1 else f AND NOT (push_bit n 1))"

definition has_cleared_timer :: "u32 \<Rightarrow> bool" where
  "has_cleared_timer = timer_flag 27"

definition set_has_cleared_timer :: "bool \<Rightarrow> u32 \<Rightarrow> u32" where
  "set_has_cleared_timer = set_timer_flag 27"

definition is_keeping_event_loop_alive :: "u32 \<Rightarrow> bool" where
  "is_keeping_event_loop_alive = timer_flag 28"

definition set_is_keeping_event_loop_alive :: "bool \<Rightarrow> u32 \<Rightarrow> u32" where
  "set_is_keeping_event_loop_alive = set_timer_flag 28"

definition has_accessed_primitive :: "u32 \<Rightarrow> bool" where
  "has_accessed_primitive = timer_flag 29"

definition set_has_accessed_primitive :: "bool \<Rightarrow> u32 \<Rightarrow> u32" where
  "set_has_accessed_primitive = set_timer_flag 29"

definition has_js_ref :: "u32 \<Rightarrow> bool" where
  "has_js_ref = timer_flag 30"

definition set_has_js_ref :: "bool \<Rightarrow> u32 \<Rightarrow> u32" where
  "set_has_js_ref = set_timer_flag 30"

definition in_callback :: "u32 \<Rightarrow> bool" where
  "in_callback = timer_flag 31"

definition set_in_callback :: "bool \<Rightarrow> u32 \<Rightarrow> u32" where
  "set_in_callback = set_timer_flag 31"

section \<open>The order of timers\<close>

definition is_js_timer :: "Tag \<Rightarrow> bool" where
  "is_js_timer tag \<longleftrightarrow> tag = TimeoutObject \<or> tag = ImmediateObject \<or> tag = AbortSignalTimeout"

definition js_timer_epoch :: "EventLoopTimer \<Rightarrow> u32 option" where
  "js_timer_epoch t = (if is_js_timer (t_tag t) then Some (flags_epoch (t_flags t)) else None)"

definition init_paused :: "Tag \<Rightarrow> EventLoopTimer" where
  "init_paused tag =
     \<lparr>deadline = EPOCH, t_state = PENDING, t_tag = tag, in_heap = InHeap_None, t_flags = TimerFlags_default\<rparr>"

definition U25_MAX :: u32 where
  "U25_MAX = push_bit 25 1 - 1"

definition collapsed_ns :: "EventLoopTimer \<Rightarrow> int" where
  "collapsed_ns t =
     (if js_timer_epoch t \<noteq> None then NS_PER_MS * (nsec (deadline t) sdiv NS_PER_MS) else nsec (deadline t))"

definition timer_less :: "EventLoopTimer \<Rightarrow> EventLoopTimer \<Rightarrow> bool" where
  "timer_less a b =
     (let sec_order = cmp (sec (deadline a)) (sec (deadline b)) in
      if sec_order \<noteq> Equal then sec_order = Less
      else let ord = cmp (collapsed_ns a) (collapsed_ns b) in
        case (ord, js_timer_epoch a, js_timer_epoch b) of
          (Equal, Some a_epoch, Some b_epoch) \<Rightarrow> (b_epoch - a_epoch) AND U25_MAX < U25_MAX div 2
        | _ \<Rightarrow> ord = Less)"

type_synonym timers = "addr \<Rightarrow> EventLoopTimer option"

text \<open>The comparator reads the timers the nodes are embedded in.\<close>

definition timer_lt :: "timers \<Rightarrow> less_fn" where
  "timer_lt objs a b = (case (objs a, objs b) of (Some s, Some t) \<Rightarrow> timer_less s t | _ \<Rightarrow> False)"

section \<open>The heap of timers\<close>

definition non_null :: "addr \<Rightarrow> addr option" where
  "non_null p = (if p = null then None else Some p)"

definition th_peek :: "Intrusive \<Rightarrow> addr option" where
  "th_peek H = non_null (peek H)"

definition th_insert :: "timers \<Rightarrow> addr \<Rightarrow> Intrusive \<Rightarrow> Intrusive option" where
  "th_insert objs = insert_node (timer_lt objs)"

definition th_remove :: "timers \<Rightarrow> addr \<Rightarrow> Intrusive \<Rightarrow> Intrusive option" where
  "th_remove objs = remove_node (timer_lt objs)"

definition th_delete_min :: "timers \<Rightarrow> Intrusive \<Rightarrow> (addr option \<times> Intrusive) option" where
  "th_delete_min objs H = do { (r, H) \<leftarrow> delete_min (timer_lt objs) H; Some (non_null r, H) }"

definition th_find_max :: "timers \<Rightarrow> Intrusive \<Rightarrow> addr option option" where
  "th_find_max objs H = do { r \<leftarrow> find_max (timer_lt objs) H; Some (non_null r) }"

definition th_count :: "Intrusive \<Rightarrow> u64 option" where
  "th_count H = count_nodes H"

interpretation tq: priority_queue "th_insert objs" "th_remove objs" "th_delete_min objs" elems unlinked
  "heap_inv (timer_lt objs)" "timer_lt objs" "weak_order_on (timer_lt objs)" for objs
proof
  show "finite (elems q)" if "heap_inv (timer_lt objs) q" for q
    using that elems_represents by (auto simp: heap_inv_def)
  show "weak_order_on (timer_lt objs) S \<Longrightarrow> T \<subseteq> S \<Longrightarrow> weak_order_on (timer_lt objs) T" for S T
    by (rule weak_order_subset)
  show "th_delete_min objs q = Some (None, q)" if inv: "heap_inv (timer_lt objs) q" and no: "elems q = {}" for q
  proof -
    obtain ts where ts: "represents q ts" using inv by (auto simp: heap_inv_def)
    have "root q = null"
      using ts no elems_represents [OF ts] by (cases rule: represents_cases) (auto simp: tree_members_def)
    then show ?thesis by (simp add: th_delete_min_def delete_min_empty non_null_def)
  qed
  show "\<exists>x q'. th_delete_min objs q = Some (Some x, q') \<and> x \<in> elems q \<and>
      (\<forall>y \<in> elems q. y \<noteq> x \<longrightarrow> \<not> timer_lt objs y x) \<and> heap_inv (timer_lt objs) q' \<and>
      elems q' = elems q - {x} \<and> unlinked q' x \<and> (\<forall>w. unlinked q w \<longrightarrow> unlinked q' w)"
    if "heap_inv (timer_lt objs) q" "elems q \<noteq> {}" "weak_order_on (timer_lt objs) (elems q)" for q
    using delete_min_spec [OF that] by (auto simp: th_delete_min_def non_null_def)
qed (unfold th_insert_def th_remove_def, rule insert_node_spec remove_node_spec; assumption)+

section \<open>Facts about the flags\<close>

lemma EPOCH_MASK_mask: "EPOCH_MASK = mask 25"
  by (simp add: EPOCH_MASK_def mask_eq_exp_minus_1 push_bit_eq_mult)

lemma flags_epoch_take_bit: "flags_epoch f = take_bit 25 f"
  by (simp add: flags_epoch_def EPOCH_MASK_mask take_bit_eq_mask)

lemma bit_set_epoch: "bit (set_epoch v f) n \<longleftrightarrow> (if n < 25 then bit v n else bit f n)"
  by (auto simp: set_epoch_def EPOCH_MASK_mask bit_simps dest: bit_imp_le_length)

lemma KIND_MASK_mask: "KIND_MASK = push_bit 25 (mask 2)"
  by (simp add: KIND_MASK_def mask_eq_exp_minus_1)

lemma bit_kind_bits: "bit (kind_bits k) n \<Longrightarrow> n < 2"
  by (cases k) (auto simp: bit_simps bit_numeral_rec split: nat.splits elim: ccontr)

lemma bit_set_kind:
  "bit (set_kind k f) n \<longleftrightarrow> (if 25 \<le> n \<and> n < 27 then bit (kind_bits k) (n - 25) else bit f n)"
  using bit_kind_bits [of k "n - 25"]
  by (auto simp: set_kind_def KIND_MASK_mask bit_simps dest: bit_imp_le_length)

lemma flags_kind_take_bit: "flags_kind f = kind_of (unat (take_bit 2 (drop_bit 25 f)))"
proof -
  have "drop_bit 25 (f AND KIND_MASK) = take_bit 2 (drop_bit 25 f)"
    by (rule bit_word_eqI) (auto simp: KIND_MASK_mask bit_simps)
  then show ?thesis by (simp add: flags_kind_def)
qed

lemma timer_flag_bit: "timer_flag n f \<longleftrightarrow> bit f n"
  by (simp add: timer_flag_def bit_iff_and_push_bit_not_eq_0)

lemma bit_set_timer_flag: "m < 32 \<Longrightarrow> bit (set_timer_flag m v f) n \<longleftrightarrow> (if n = m then v else bit f n)"
  by (auto simp: set_timer_flag_def bit_simps dest: bit_imp_le_length)

lemma flags_epoch_cong: "(\<And>n. n < 25 \<Longrightarrow> bit f n = bit g n) \<Longrightarrow> flags_epoch f = flags_epoch g"
  by (rule bit_word_eqI) (auto simp: flags_epoch_take_bit bit_simps)

lemma flags_kind_cong: "bit f 25 = bit g 25 \<Longrightarrow> bit f 26 = bit g 26 \<Longrightarrow> flags_kind f = flags_kind g"
proof -
  assume "bit f 25 = bit g 25" "bit f 26 = bit g 26"
  then have "take_bit 2 (drop_bit 25 f) = take_bit 2 (drop_bit 25 g)"
    by (intro bit_word_eqI) (auto simp: bit_simps less_Suc_eq numeral_2_eq_2)
  then show ?thesis by (simp add: flags_kind_take_bit)
qed

lemma flags_kind_set_kind: "flags_kind (set_kind k f) = Some k"
proof -
  have "take_bit 2 (drop_bit 25 (set_kind k f)) = kind_bits k"
    using bit_kind_bits [of k] by (intro bit_word_eqI) (auto simp: bit_simps bit_set_kind)
  then show ?thesis by (cases k) (simp_all add: flags_kind_take_bit)
qed

lemmas flag_defs = has_cleared_timer_def set_has_cleared_timer_def is_keeping_event_loop_alive_def
  set_is_keeping_event_loop_alive_def has_accessed_primitive_def set_has_accessed_primitive_def
  has_js_ref_def set_has_js_ref_def in_callback_def set_in_callback_def

end
