(* ===== verification/TimerOrder.thy ===== *)
theory TimerOrder
  imports EventLoopTimer
begin

text \<open>
  When the comparator of the timers is an order, and what the heap then promises about the order in
  which timers fire.
\<close>

unbundle bit_operations_syntax

section \<open>Epochs\<close>

text \<open>How many insertions after \<open>base\<close> an epoch was given out, modulo the 25 bits of the counter\<close>

definition age :: "u32 \<Rightarrow> u32 \<Rightarrow> int" where
  "age base e = (uint e - uint base) mod 2 ^ 25"

lemma uint_take_bit_25: "uint ((x - y) AND U25_MAX) = (uint x - uint y) mod 2 ^ 25" for x y :: u32
proof -
  have "U25_MAX = mask 25" by (simp add: U25_MAX_def mask_eq_exp_minus_1 push_bit_eq_mult)
  then have "(x - y) AND U25_MAX = take_bit 25 (x - y)" by (simp add: take_bit_eq_mask)
  then have "uint ((x - y) AND U25_MAX) = take_bit 25 (uint (x - y))"
    using unsigned_take_bit_eq [of 25 "x - y"] by simp
  also have "\<dots> = uint (x - y) mod 2 ^ 25" by (rule take_bit_eq_mod)
  also have "\<dots> = (uint x - uint y) mod 2 ^ 32 mod 2 ^ 25"
    by (simp add: uint_word_ariths(2))
  also have "\<dots> = (uint x - uint y) mod 2 ^ 25"
    by (rule mod_mod_cancel) simp
  finally show ?thesis .
qed

lemma epoch_less_iff:
  assumes "age base a < 2 ^ 24 - 1" "age base b < 2 ^ 24 - 1" "age base a \<noteq> age base b"
  shows "(b - a) AND U25_MAX < U25_MAX div 2 \<longleftrightarrow> age base a < age base b"
proof -
  have "(uint b - uint a) mod 2 ^ 25 = (age base b - age base a) mod 2 ^ 25"
    by (simp add: age_def mod_diff_eq)
  moreover have "0 \<le> age base a" "0 \<le> age base b" by (simp_all add: age_def)
  moreover have "(B - A) mod 2 ^ 25 = (if A < B then B - A else B - A + 2 ^ 25)"
    if "0 \<le> A" "0 \<le> B" "A < 2 ^ 24 - 1" "B < 2 ^ 24 - 1" "A \<noteq> B" for A B :: int
  proof (cases "A < B")
    case False
    have "(B - A) mod 2 ^ 25 = (B - A + 2 ^ 25) mod 2 ^ 25" by simp
    also have "\<dots> = B - A + 2 ^ 25" using that False by (intro mod_pos_pos_trivial) auto
    finally show ?thesis using False by simp
  qed (use that in simp)
  ultimately have "uint ((b - a) AND U25_MAX) =
      (if age base a < age base b then age base b - age base a else age base b - age base a + 2 ^ 25)"
    using assms uint_take_bit_25 [of b a] by simp
  moreover have "uint (U25_MAX div 2) = 16777215" by (simp add: U25_MAX_def)
  ultimately show ?thesis using assms \<open>0 \<le> age base a\<close> \<open>0 \<le> age base b\<close> by (auto simp: word_less_def)
qed

section \<open>Keys\<close>

definition timer_epoch_age :: "u32 \<Rightarrow> EventLoopTimer \<Rightarrow> int" where
  "timer_epoch_age base t = (case js_timer_epoch t of None \<Rightarrow> 0 | Some e \<Rightarrow> age base e)"

fun key_less :: "int \<times> int \<Rightarrow> int \<times> int \<Rightarrow> bool" where
  "key_less (a, b) (a', b') \<longleftrightarrow> a < a' \<or> a = a' \<and> b < b'"

definition is_js :: "EventLoopTimer \<Rightarrow> bool" where
  "is_js t \<longleftrightarrow> js_timer_epoch t \<noteq> None"

text \<open>
  When a timer is due, in nanoseconds: a JavaScript timer at the whole millisecond of its deadline, any other timer
  at its deadline exactly
\<close>

definition due_ns :: "EventLoopTimer \<Rightarrow> int" where
  "due_ns t =
     (let ns = sec (deadline t) * 1000000000 + nsec (deadline t)
      in if is_js t then ns - ns mod 1000000 else ns)"

definition timer_key :: "u32 \<Rightarrow> EventLoopTimer \<Rightarrow> int \<times> int" where
  "timer_key base t = (due_ns t, timer_epoch_age base t)"

text \<open>
  Timers are well spaced when their deadlines are normal times, the epochs of the JavaScript timers among them are
  distinct and lie in a window of less than half the counter, and no JavaScript timer ties with a timer of another kind.
\<close>

definition well_spaced_pair :: "u32 \<Rightarrow> EventLoopTimer \<Rightarrow> EventLoopTimer \<Rightarrow> bool" where
  "well_spaced_pair base s t \<longleftrightarrow>
     (is_js s \<and> is_js t \<longrightarrow> timer_epoch_age base s \<noteq> timer_epoch_age base t) \<and>
     (is_js s \<and> \<not> is_js t \<longrightarrow> due_ns s \<noteq> due_ns t)"

definition well_spaced :: "u32 \<Rightarrow> timers \<Rightarrow> addr set \<Rightarrow> bool" where
  "well_spaced base objs S \<longleftrightarrow>
     (\<forall>x \<in> S. case objs x of None \<Rightarrow> False | Some t \<Rightarrow>
        ts_normal (deadline t) \<and> timer_epoch_age base t < 2 ^ 24 - 1 \<and>
        (\<forall>y \<in> S - {x}. case objs y of None \<Rightarrow> False | Some u \<Rightarrow> well_spaced_pair base t u))"

lemma due_ns_collapsed:
  assumes "ts_normal (deadline t)"
  shows "due_ns t = sec (deadline t) * 1000000000 + collapsed_ns t" "0 \<le> collapsed_ns t" "collapsed_ns t < 1000000000"
proof -
  let ?s = "sec (deadline t)" and ?n = "nsec (deadline t)"
  have n: "0 \<le> ?n" "?n < 1000000000" using assms by (simp_all add: ts_normal_def NS_PER_S_def)
  have d: "?n sdiv 1000000 = ?n div 1000000" using n(1) by (cases "?n = 0") (simp_all add: signed_divide_int_def)
  have m: "(?s * 1000000000 + ?n) mod 1000000 = ?n mod 1000000"
    using mod_mult_self1 [of ?n "?s * 1000" 1000000] by (simp add: algebra_simps)
  have "1000000 * (?n div 1000000) = ?n - ?n mod 1000000" by (simp add: minus_mod_eq_mult_div)
  moreover have "0 \<le> ?n div 1000000" "1000000 * (?n div 1000000) \<le> ?n" using n(1) calculation by simp_all
  ultimately show "due_ns t = ?s * 1000000000 + collapsed_ns t" "0 \<le> collapsed_ns t" "collapsed_ns t < 1000000000"
    using n by (auto simp: due_ns_def collapsed_ns_def is_js_def NS_PER_MS_def d m Let_def)
qed

lemma due_ns_order:
  assumes "ts_normal (deadline s)" "ts_normal (deadline t)"
  shows "due_ns s < due_ns t \<longleftrightarrow> sec (deadline s) < sec (deadline t) \<or> sec (deadline s) = sec (deadline t) \<and> collapsed_ns s < collapsed_ns t"
    "due_ns s = due_ns t \<longleftrightarrow> sec (deadline s) = sec (deadline t) \<and> collapsed_ns s = collapsed_ns t"
  using due_ns_collapsed [OF assms(1)] due_ns_collapsed [OF assms(2)]
  by (cases "sec (deadline s)" "sec (deadline t)" rule: linorder_cases; simp)+

lemma timer_less_key:
  assumes "well_spaced_pair base s t" "well_spaced_pair base t s"
    and "timer_epoch_age base s < 2 ^ 24 - 1" "timer_epoch_age base t < 2 ^ 24 - 1"
    and "ts_normal (deadline s)" "ts_normal (deadline t)"
  shows "timer_less s t \<longleftrightarrow> key_less (timer_key base s) (timer_key base t)"
proof (cases "due_ns s = due_ns t")
  case False
  then show ?thesis
    using due_ns_order [OF assms(5,6)]
    by (auto simp: timer_less_def timer_key_def cmp_def split: option.splits)
next
  case True
  then have eq: "sec (deadline s) = sec (deadline t)" "collapsed_ns s = collapsed_ns t"
    using due_ns_order(2) [OF assms(5,6)] by simp_all
  have "is_js s \<longleftrightarrow> is_js t"
    using assms(1,2) True by (auto simp: well_spaced_pair_def)
  then consider "js_timer_epoch s = None" "js_timer_epoch t = None"
    | a b where "js_timer_epoch s = Some a" "js_timer_epoch t = Some b"
    by (auto simp: is_js_def)
  then show ?thesis
  proof cases
    case 1
    then show ?thesis using True eq by (simp add: timer_less_def timer_key_def cmp_def timer_epoch_age_def)
  next
    case (2 a b)
    then have "(b - a) AND U25_MAX < U25_MAX div 2 \<longleftrightarrow> age base a < age base b"
      using assms by (intro epoch_less_iff) (auto simp: timer_epoch_age_def well_spaced_pair_def is_js_def)
    then show ?thesis using True eq 2 by (simp add: timer_less_def timer_key_def cmp_def timer_epoch_age_def)
  qed
qed

lemma key_less_asym: "key_less k k' \<Longrightarrow> \<not> key_less k' k"
  by (cases k; cases k') auto

lemma key_less_negtrans: "\<not> key_less k k' \<Longrightarrow> \<not> key_less k' k'' \<Longrightarrow> \<not> key_less k k''"
  by (cases k; cases k'; cases k'') auto

definition fires_before :: "u32 \<Rightarrow> timers \<Rightarrow> addr \<Rightarrow> addr \<Rightarrow> bool" where
  "fires_before base objs v w \<longleftrightarrow>
     (case (objs v, objs w) of
        (Some s, Some t) \<Rightarrow> key_less (timer_key base s) (timer_key base t)
      | _ \<Rightarrow> False)"

lemma timer_lt_fires_before:
  assumes "well_spaced base objs S" "x \<in> S" "y \<in> S" "x \<noteq> y"
  shows "timer_lt objs x y = fires_before base objs x y"
proof -
  obtain s t where st: "objs x = Some s" "objs y = Some t"
    using assms by (fastforce simp: well_spaced_def split: option.splits)
  have "well_spaced_pair base s t" "well_spaced_pair base t s"
    "timer_epoch_age base s < 2 ^ 24 - 1" "timer_epoch_age base t < 2 ^ 24 - 1"
    "ts_normal (deadline s)" "ts_normal (deadline t)"
    using assms st unfolding well_spaced_def by (force split: option.splits)+
  then show ?thesis using timer_less_key st by (simp add: timer_lt_def fires_before_def)
qed

lemma timer_lt_weak_order:
  assumes "well_spaced base objs S"
  shows "weak_order_on (timer_lt objs) S"
  unfolding weak_order_on_def
proof (intro conjI ballI impI)
  note fb = timer_lt_fires_before [OF assms]
  have live: "\<exists>t. objs x = Some t" if "x \<in> S" for x
    using assms that by (force simp: well_spaced_def split: option.splits)
  show "\<not> timer_lt objs y x" if "x \<in> S" "y \<in> S" "x \<noteq> y" "timer_lt objs x y" for x y
    using that fb [of x y] fb [of y x] key_less_asym by (auto simp: fires_before_def split: option.splits)
  show "\<not> timer_lt objs x z"
    if "x \<in> S" "y \<in> S" "z \<in> S" "x \<noteq> y" "y \<noteq> z" "x \<noteq> z" "\<not> timer_lt objs x y" "\<not> timer_lt objs y z" for x y z
    using that fb [of x y] fb [of y z] fb [of x z] live [of y] key_less_negtrans
    by (auto simp: fires_before_def split: option.splits)
qed

section \<open>Timers leave the heap in order\<close>

lemma sorted_wrt_timer_lt:
  assumes "well_spaced base objs (set ws)" "distinct ws" "sorted_wrt (\<lambda>v w. \<not> timer_lt objs w v) ws"
  shows "sorted_wrt (\<lambda>v w. \<not> fires_before base objs w v) ws"
  unfolding sorted_wrt_iff_nth_less
proof (intro allI impI)
  fix i j
  assume ij: "i < j" "j < length ws"
  then have "ws ! j \<noteq> ws ! i" using assms(2) by (simp add: nth_eq_iff_index_eq)
  moreover have "\<not> timer_lt objs (ws ! j) (ws ! i)"
    using assms(3) ij by (auto simp: sorted_wrt_iff_nth_less)
  ultimately show "\<not> fires_before base objs (ws ! j) (ws ! i)"
    using timer_lt_fires_before [OF assms(1), of "ws ! j" "ws ! i"] ij by simp
qed

text \<open>
  C8. Timers inserted in any order into an empty heap and popped until it is empty come out once each,
  by the nanosecond at which they are due (a JavaScript timer at the whole millisecond of its deadline), and the
  JavaScript timers of one millisecond in the order in which they got their epochs, also when the counter of epochs has
  wrapped around in between. The epochs have to be distinct and to lie in a window of half the counter, the deadlines have to
  be normal times, and no timer of another kind may be due exactly at the millisecond of a JavaScript timer.
\<close>

theorem timers_fire_in_order:
  assumes "heap_inv (timer_lt objs) H" "elems H = {}" "\<forall>v \<in> set vs. unlinked H v" "distinct vs"
    and "well_spaced base objs (set vs)"
  shows "\<exists>H1 ws H2. insert_all (th_insert objs) vs H = Some H1 \<and>
      drain (th_delete_min objs) (Suc (length vs)) H1 = Some (ws, H2) \<and> elems H2 = {} \<and>
      set ws = set vs \<and> distinct ws \<and> sorted_wrt (\<lambda>v w. \<not> fires_before base objs w v) ws"
proof -
  obtain H1 ws H2 where run: "insert_all (th_insert objs) vs H = Some H1"
    "drain (th_delete_min objs) (Suc (length vs)) H1 = Some (ws, H2)" "elems H2 = {}"
    "set ws = set vs" "distinct ws" "sorted_wrt (\<lambda>v w. \<not> timer_lt objs w v) ws"
    using tq.insert_all_drain [OF assms(1-4) timer_lt_weak_order [OF assms(5)]] by blast
  moreover have "sorted_wrt (\<lambda>v w. \<not> fires_before base objs w v) ws"
    using sorted_wrt_timer_lt [of base objs ws] run(4-6) assms(5) by simp
  ultimately show ?thesis by blast
qed

text \<open>Sample timers on both sides of a wrapped counter\<close>

definition sample_timer :: "Tag \<Rightarrow> int \<Rightarrow> u32 \<Rightarrow> EventLoopTimer" where
  "sample_timer tag ms e =
     \<lparr>deadline = \<lparr>sec = 0, nsec = ms * 1000000\<rparr>, t_state = PENDING, t_tag = tag, in_heap = InHeap_None,
      t_flags = set_epoch e TimerFlags_default\<rparr>"

definition wrapped_timers :: timers where
  "wrapped_timers a =
     (if a = 1 then Some (sample_timer TimeoutObject 10 1) else if a = 2 then Some (sample_timer TimeoutObject 10 33554431)
      else if a = 3 then Some (sample_timer CronJob 5 0) else None)"

lemma wrapped_well_spaced: "well_spaced 33554430 wrapped_timers {1, 2, 3}"
  by code_simp

theorem timers_fire_in_order_witness:
  "\<exists>H1 ws H2. insert_all (th_insert wrapped_timers) [1, 2, 3] empty_heap = Some H1 \<and>
      drain (th_delete_min wrapped_timers) (Suc (length [1, 2, 3 :: addr])) H1 = Some (ws, H2) \<and> elems H2 = {} \<and>
      set ws = set [1, 2, 3] \<and> distinct ws \<and> sorted_wrt (\<lambda>v w. \<not> fires_before 33554430 wrapped_timers w v) ws"
  by (rule timers_fire_in_order [OF empty_heap_inv(1,2)]) (use empty_heap_inv(3) wrapped_well_spaced in auto)

text \<open>
  When another kind of timer is due exactly at such a millisecond the order is lost: of two
  \<^verbatim>\<open>setTimeout\<close> timers with the same deadline, the one inserted last is popped first. The comparator
  finds each of them equal to the cron job between them, and yet one of them less than the other.
\<close>

definition tie_timers :: timers where
  "tie_timers a =
     (if a = 1 then Some (sample_timer CronJob 0 0) else if a = 2 then Some (sample_timer CronJob 10 0)
      else if a = 3 then Some (sample_timer TimeoutObject 10 1) else if a = 4 then Some (sample_timer CronJob 0 0)
      else if a = 5 then Some (sample_timer TimeoutObject 10 2) else None)"

theorem tied_timers_out_of_order:
  "map_option fst (insert_all (th_insert tie_timers) [1, 2, 3, 4, 5] empty_heap \<bind>
     drain (th_delete_min tie_timers) 6) = Some [1, 4, 5, 2, 3] \<and>
   timer_lt tie_timers 3 5 \<and> \<not> weak_order_on (timer_lt tie_timers) {2, 3, 5}"
proof (intro conjI)
  show "map_option fst (insert_all (th_insert tie_timers) [1, 2, 3, 4, 5] empty_heap \<bind>
     drain (th_delete_min tie_timers) 6) = Some [1, 4, 5, 2, 3]"
    by code_simp
  show "timer_lt tie_timers 3 5" by code_simp
  show "\<not> weak_order_on (timer_lt tie_timers) {2, 3, 5}" by code_simp
qed

end
