(* ===== verification/TimerAll.thy ===== *)
theory TimerAll
  imports TimerOrder StateMachine
begin

text \<open>
  \<^verbatim>\<open>All\<close> of \<^verbatim>\<open>src/runtime/timer/mod.rs\<close> and the heap of \<^verbatim>\<open>src/runtime/test_runner/timers/FakeTimers.rs\<close>: the
  timers of one JavaScript thread, in a heap drained against the real clock and a heap for
  \<^verbatim>\<open>jest.useFakeTimers()\<close>. The two heaps share one store, since a timer embeds its links. The timers of
  WebKit, which other threads arm under a lock, and the handles of libuv on Windows are left out. Firing
  a timer runs JavaScript: the model goes up to the moment a timer is popped, and \<open>fired\<close> is the
  write to the state that every handler starts with.

  \<open>None\<close> is undefined behaviour, a loop that does not end or a failed \<^verbatim>\<open>debug_assert!\<close>.
\<close>

unbundle bit_operations_syntax

section \<open>State and operations\<close>

record All =
  epoch_counter :: u32
  timers_root :: addr
  fake_root :: addr
  fake_now :: "Timespec option"
  links :: store
  objs :: timers

definition regular :: "All \<Rightarrow> Intrusive" where
  "regular A = \<lparr>root = timers_root A, nodes = links A\<rparr>"

definition fakes :: "All \<Rightarrow> Intrusive" where
  "fakes A = \<lparr>root = fake_root A, nodes = links A\<rparr>"

definition set_regular :: "Intrusive \<Rightarrow> All \<Rightarrow> All" where
  "set_regular H A = A\<lparr>timers_root := root H, links := nodes H\<rparr>"

definition set_fakes :: "Intrusive \<Rightarrow> All \<Rightarrow> All" where
  "set_fakes H A = A\<lparr>fake_root := root H, links := nodes H\<rparr>"

definition modify_timer :: "addr \<Rightarrow> (EventLoopTimer \<Rightarrow> EventLoopTimer) \<Rightarrow> All \<Rightarrow> All option" where
  "modify_timer v g A = (case objs A v of None \<Rightarrow> None | Some t \<Rightarrow> Some (A\<lparr>objs := (objs A)(v \<mapsto> g t)\<rparr>))"

definition fake_is_active :: "All \<Rightarrow> bool" where
  "fake_is_active A \<longleftrightarrow> fake_now A \<noteq> None"

definition bump_epoch :: "addr \<Rightarrow> All \<Rightarrow> All option" where
  "bump_epoch v A = do {
     t \<leftarrow> objs A v;
     if is_js_timer (t_tag t) then
       let e = (epoch_counter A + 1) AND (push_bit 25 1 - 1) in
       modify_timer v (\<lambda>t. t\<lparr>t_flags := set_epoch e (t_flags t)\<rparr>) (A\<lparr>epoch_counter := e\<rparr>)
     else Some A
   }"

definition all_insert :: "addr \<Rightarrow> All \<Rightarrow> All option" where
  "all_insert v A = do {
     t \<leftarrow> objs A v;
     if t_tag t = WTFTimer then None else do {
       A \<leftarrow> bump_epoch v A;
       if fake_is_active A \<and> allow_fake_timers (t_tag t) then do {
         H \<leftarrow> th_insert (objs A) v (fakes A);
         modify_timer v (\<lambda>t. t\<lparr>t_state := ACTIVE, in_heap := Fake\<rparr>) (set_fakes H A)
       } else do {
         H \<leftarrow> th_insert (objs A) v (regular A);
         modify_timer v (\<lambda>t. t\<lparr>t_state := ACTIVE, in_heap := Regular\<rparr>) (set_regular H A)
       }
     }
   }"

definition all_remove :: "addr \<Rightarrow> All \<Rightarrow> All option" where
  "all_remove v A = do {
     t \<leftarrow> objs A v;
     A \<leftarrow> (case in_heap t of
            InHeap_None \<Rightarrow> None
          | Regular \<Rightarrow> do { H \<leftarrow> th_remove (objs A) v (regular A); Some (set_regular H A) }
          | Fake \<Rightarrow> do { H \<leftarrow> th_remove (objs A) v (fakes A); Some (set_fakes H A) });
     modify_timer v (\<lambda>t. t\<lparr>in_heap := InHeap_None, t_state := CANCELLED\<rparr>) A
   }"

definition all_update :: "addr \<Rightarrow> Timespec \<Rightarrow> All \<Rightarrow> All option" where
  "all_update v time A = do {
     t \<leftarrow> objs A v;
     A \<leftarrow> (if t_state t = ACTIVE then all_remove v A else Some A);
     A \<leftarrow> modify_timer v (\<lambda>t. t\<lparr>deadline := time\<rparr>) A;
     all_insert v A
   }"

text \<open>\<open>now\<close> is the reading of the clock that the first call of a drain takes and the others reuse.\<close>

definition all_next :: "Timespec \<Rightarrow> All \<Rightarrow> (addr option \<times> All) option" where
  "all_next now A =
     (case th_peek (regular A) of
        None \<Rightarrow> Some (None, A)
      | Some v \<Rightarrow> do {
          t \<leftarrow> objs A v;
          if ts_greater (deadline t) now then Some (None, A)
          else do {
            (deleted, H) \<leftarrow> th_delete_min (objs A) (regular A);
            if deleted \<noteq> Some v then None else Some (Some v, set_regular H A)
          }
        })"

text \<open>\<^verbatim>\<open>FakeTimers::execute_next\<close> up to the call of \<^verbatim>\<open>fire\<close>\<close>

definition fake_pop :: "All \<Rightarrow> (addr option \<times> All) option" where
  "fake_pop A = do { (timer, H) \<leftarrow> th_delete_min (objs A) (fakes A); Some (timer, set_fakes H A) }"

definition fired :: "addr \<Rightarrow> All \<Rightarrow> All option" where
  "fired v = modify_timer v (\<lambda>t. t\<lparr>t_state := FIRED\<rparr>)"

definition soonest :: "Timespec option \<Rightarrow> Timespec option \<Rightarrow> Timespec option" where
  "soonest a b =
     (case (a, b) of
        (Some a, Some b) \<Rightarrow> Some (if ts_greater a b then b else a)
      | _ \<Rightarrow> (if a \<noteq> None then a else b))"

text \<open>\<^verbatim>\<open>FakeTimers::clear\<close>: the owners to release, by kind\<close>

record ClearedTimers =
  pinned :: "addr list"
  signal_timeouts :: "addr list"
  cron_jobs :: "addr list"

definition ClearedTimers_default :: ClearedTimers where
  "ClearedTimers_default = \<lparr>pinned = [], signal_timeouts = [], cron_jobs = []\<rparr>"

definition push_owner :: "Tag \<Rightarrow> addr \<Rightarrow> ClearedTimers \<Rightarrow> ClearedTimers option" where
  "push_owner tag v c =
     (case tag of
        TimeoutObject \<Rightarrow> Some (c\<lparr>pinned := pinned c @ [v]\<rparr>)
      | AbortSignalTimeout \<Rightarrow> Some (c\<lparr>signal_timeouts := signal_timeouts c @ [v]\<rparr>)
      | CronJob \<Rightarrow> Some (c\<lparr>cron_jobs := cron_jobs c @ [v]\<rparr>)
      | _ \<Rightarrow> None)"

partial_function (option) clear_loop :: "ClearedTimers \<Rightarrow> All \<Rightarrow> (ClearedTimers \<times> All) option" where
  "clear_loop c A = do {
     (timer, H) \<leftarrow> th_delete_min (objs A) (fakes A);
     case timer of
       None \<Rightarrow> Some (c, set_fakes H A)
     | Some v \<Rightarrow> do {
         A \<leftarrow> modify_timer v (\<lambda>t. t\<lparr>in_heap := InHeap_None, t_state := CANCELLED\<rparr>) (set_fakes H A);
         t \<leftarrow> objs A v;
         c \<leftarrow> push_owner (t_tag t) v c;
         clear_loop c A
       }
   }"

declare clear_loop.simps [code]

definition fake_clear :: "All \<Rightarrow> (ClearedTimers \<times> All) option" where
  "fake_clear A = clear_loop ClearedTimers_default A"

definition all_init :: All where
  "all_init = \<lparr>epoch_counter = 0, timers_root = null, fake_root = null, fake_now = None,
     links = (\<lambda>_. None), objs = (\<lambda>_. None)\<rparr>"

text \<open>
  A thread's use of its timers: timers are allocated, and freed when they are not active; a timer that is
  not active can be inserted, an active one removed, any can be moved to another deadline; popped timers
  are in flight until their handler marks them as fired.
\<close>

datatype timer_event =
    Alloc addr | Free addr | Insert addr | Remove addr | Update addr
  | Pop "addr option" | PopFake "addr option" | Fired addr | Clear | SetNow

fun in_flight :: "addr option \<Rightarrow> addr set \<Rightarrow> addr set" where
  "in_flight None fl = fl"
| "in_flight (Some v) fl = insert v fl"

inductive all_step :: "addr set \<times> All \<Rightarrow> timer_event \<Rightarrow> addr set \<times> All \<Rightarrow> bool" where
  step_alloc: "v \<noteq> null \<Longrightarrow> objs A v = None \<Longrightarrow>
    all_step (fl, A) (Alloc v)
      (fl, A\<lparr>objs := (objs A)(v \<mapsto> init_paused tag), links := (links A)(v \<mapsto> IntrusiveField_default)\<rparr>)"
| step_free: "objs A v = Some t \<Longrightarrow> t_state t \<noteq> ACTIVE \<Longrightarrow> v \<notin> fl \<Longrightarrow>
    all_step (fl, A) (Free v) (fl, A\<lparr>objs := (objs A)(v := None), links := (links A)(v := None)\<rparr>)"
| step_insert: "objs A v = Some t \<Longrightarrow> t_state t \<noteq> ACTIVE \<Longrightarrow> v \<notin> fl \<Longrightarrow> all_insert v A = Some A' \<Longrightarrow>
    all_step (fl, A) (Insert v) (fl, A')"
| step_remove: "objs A v = Some t \<Longrightarrow> t_state t = ACTIVE \<Longrightarrow> v \<notin> fl \<Longrightarrow> all_remove v A = Some A' \<Longrightarrow>
    all_step (fl, A) (Remove v) (fl, A')"
| step_update: "objs A v = Some t \<Longrightarrow> v \<notin> fl \<Longrightarrow> all_update v time A = Some A' \<Longrightarrow>
    all_step (fl, A) (Update v) (fl, A')"
| step_pop: "all_next now A = Some (r, A') \<Longrightarrow> all_step (fl, A) (Pop r) (in_flight r fl, A')"
| step_pop_fake: "fake_pop A = Some (r, A') \<Longrightarrow> all_step (fl, A) (PopFake r) (in_flight r fl, A')"
| step_fired: "v \<in> fl \<Longrightarrow> fired v A = Some A' \<Longrightarrow> all_step (fl, A) (Fired v) (fl - {v}, A')"
| step_clear: "fake_clear A = Some (c, A') \<Longrightarrow> all_step (fl, A) Clear (fl, A')"
| step_set_now: "all_step (fl, A) SetNow (fl, A\<lparr>fake_now := n\<rparr>)"

section \<open>The invariant\<close>

text \<open>
  A timer is in the heap that \<^verbatim>\<open>in_heap\<close> names exactly when its state is \<^verbatim>\<open>ACTIVE\<close>. Between the pop and the
  handler a timer is in flight: out of the heap, with its state not yet \<^verbatim>\<open>FIRED\<close>. Only kinds with a
  release path are in the heap of fake timers.
\<close>

definition timer_ok :: "addr set \<Rightarrow> All \<Rightarrow> addr \<Rightarrow> EventLoopTimer \<Rightarrow> bool" where
  "timer_ok fl A v t \<longleftrightarrow>
     (v \<in> elems (regular A) \<longleftrightarrow> v \<notin> fl \<and> t_state t = ACTIVE \<and> in_heap t = Regular) \<and>
     (v \<in> elems (fakes A) \<longleftrightarrow> v \<notin> fl \<and> t_state t = ACTIVE \<and> in_heap t = Fake) \<and>
     (t_state t = ACTIVE \<longrightarrow> in_heap t \<noteq> InHeap_None) \<and>
     (v \<in> fl \<or> t_state t \<noteq> ACTIVE \<longrightarrow> links A v = Some IntrusiveField_default) \<and>
     (v \<in> elems (fakes A) \<longrightarrow> allow_fake_timers (t_tag t))"

definition all_inv :: "addr set \<Rightarrow> All \<Rightarrow> bool" where
  "all_inv fl A \<longleftrightarrow> well_formed (regular A) \<and> well_formed (fakes A) \<and> dom (objs A) = dom (links A) \<and>
     fl \<subseteq> dom (objs A) \<and> (\<forall>v t. objs A v = Some t \<longrightarrow> timer_ok fl A v t)"

lemma disjoint_heaps:
  assumes "all_inv fl A" "v \<in> elems (regular A)"
  shows "v \<notin> elems (fakes A)"
proof -
  have "links A v \<noteq> None"
    using well_formed_elems [of "regular A" v] assms by (auto simp: all_inv_def regular_def)
  moreover have "dom (objs A) = dom (links A)" using assms(1) by (simp add: all_inv_def)
  ultimately obtain t where "objs A v = Some t" by blast
  then show ?thesis using assms by (auto simp: all_inv_def timer_ok_def)
qed

lemma Intrusive_eta [simp]: "\<lparr>root = root H, nodes = nodes H\<rparr> = H"
  by (cases H) simp

lemma set_heap_simps [simp]:
  "objs (set_regular H A) = objs A" "objs (set_fakes H A) = objs A"
  "links (set_regular H A) = nodes H" "links (set_fakes H A) = nodes H"
  "regular (set_regular H A) = H" "fakes (set_fakes H A) = H"
  "nodes (regular A) = links A" "nodes (fakes A) = links A"
  "regular (A\<lparr>objs := os\<rparr>) = regular A" "fakes (A\<lparr>objs := os\<rparr>) = fakes A"
  "regular (A\<lparr>epoch_counter := e\<rparr>) = regular A" "fakes (A\<lparr>epoch_counter := e\<rparr>) = fakes A"
  by (simp_all add: set_regular_def set_fakes_def regular_def fakes_def)

lemma other_heap:
  assumes "all_inv fl A" "well_formed H" "\<And>x. x \<notin> X \<Longrightarrow> nodes H x = links A x"
  shows "X \<inter> elems (fakes A) = {} \<Longrightarrow>
      well_formed (fakes (set_regular H A)) \<and> elems (fakes (set_regular H A)) = elems (fakes A)"
    and "X \<inter> elems (regular A) = {} \<Longrightarrow>
      well_formed (regular (set_fakes H A)) \<and> elems (regular (set_fakes H A)) = elems (regular A)"
proof -
  note nullH = well_formed_null [OF assms(2)]
  show "well_formed (fakes (set_regular H A)) \<and> elems (fakes (set_regular H A)) = elems (fakes A)"
    if "X \<inter> elems (fakes A) = {}"
    using assms nullH that
    by (intro well_formed_frame) (auto simp: all_inv_def fakes_def set_regular_def)
  show "well_formed (regular (set_fakes H A)) \<and> elems (regular (set_fakes H A)) = elems (regular A)"
    if "X \<inter> elems (regular A) = {}"
    using assms nullH that
    by (intro well_formed_frame) (auto simp: all_inv_def regular_def set_fakes_def)
qed

text \<open>A step that changes one timer, its place in a heap and the links of that heap\<close>

lemma all_inv_step:
  assumes "all_inv fl A" "objs A v = Some t" "objs A' = (objs A)(v \<mapsto> t')"
    and "well_formed (regular A')" "well_formed (fakes A')" "dom (links A') = dom (links A)"
    and "elems (regular A') - {v} = elems (regular A) - {v}" "elems (fakes A') - {v} = elems (fakes A) - {v}"
    and "\<And>w. w \<noteq> v \<Longrightarrow> w \<notin> elems (regular A) \<Longrightarrow> w \<notin> elems (fakes A) \<Longrightarrow> links A' w = links A w"
    and "fl' - {v} = fl - {v}" "timer_ok fl' A' v t'"
  shows "all_inv fl' A'"
  unfolding all_inv_def
proof (intro conjI allI impI)
  show "dom (objs A') = dom (links A')"
    using assms(1-3,6) by (auto simp: all_inv_def)
  have "fl \<subseteq> dom (objs A)" using assms(1) unfolding all_inv_def by blast
  then show "fl' \<subseteq> dom (objs A')" using assms(2,3,10) by auto
  fix w u
  assume u: "objs A' w = Some u"
  show "timer_ok fl' A' w u"
  proof (cases "w = v")
    case True
    then show ?thesis using u assms(3,11) by simp
  next
    case False
    then have ok: "timer_ok fl A w u" using u assms(1,3) by (simp add: all_inv_def)
    have "w \<in> elems (regular A') \<longleftrightarrow> w \<in> elems (regular A)" "w \<in> elems (fakes A') \<longleftrightarrow> w \<in> elems (fakes A)"
      "w \<in> fl' \<longleftrightarrow> w \<in> fl"
      using False assms(7,8,10) by blast+
    then show ?thesis using ok assms(9) [OF False] by (auto simp: timer_ok_def)
  qed
qed (use assms in simp_all)

lemma dom_frame:
  "(\<And>x. x \<notin> X \<Longrightarrow> h' x = h x) \<Longrightarrow> (\<And>x. x \<in> X \<Longrightarrow> h' x \<noteq> None \<and> h x \<noteq> None) \<Longrightarrow> dom h' = dom h"
  by (auto simp: dom_def) metis+

text \<open>The operations of a heap of timers, with the nodes that exist\<close>

lemma th_insert_structure:
  assumes "well_formed H" "unlinked H v"
  shows "\<exists>H'. th_insert os v H = Some H' \<and> well_formed H' \<and> elems H' = insert v (elems H) \<and>
      (\<forall>x. x \<notin> insert v (elems H) \<longrightarrow> nodes H' x = nodes H x) \<and> dom (nodes H') = dom (nodes H)"
proof -
  obtain H' where H': "insert_node (timer_lt os) v H = Some H'" "well_formed H'" "elems H' = insert v (elems H)"
    "\<And>x. x \<notin> insert v (elems H) \<Longrightarrow> nodes H' x = nodes H x"
    using insert_structure [OF assms, of "timer_lt os"] by auto
  have "dom (nodes H') = dom (nodes H)"
  proof (rule dom_frame [OF H'(4)])
    fix x
    assume "x \<in> insert v (elems H)"
    then show "nodes H' x \<noteq> None \<and> nodes H x \<noteq> None"
      using well_formed_elems [OF H'(2), of x] well_formed_elems [OF assms(1), of x] H'(3) assms(2)
      by (auto simp: unlinked_def)
  qed
  then show ?thesis using H' by (auto simp: th_insert_def)
qed

lemma dom_removed:
  assumes "well_formed H" "well_formed H'" "elems H' = elems H - {v}" "nodes H' v \<noteq> None"
    and "\<And>x. x \<notin> elems H \<Longrightarrow> nodes H' x = nodes H x"
  shows "dom (nodes H') = dom (nodes H)"
proof (rule dom_frame [OF assms(5)])
  fix x
  assume "x \<in> elems H"
  then show "nodes H' x \<noteq> None \<and> nodes H x \<noteq> None"
    using well_formed_elems [OF assms(2), of x] well_formed_elems [OF assms(1), of x] assms(3,4) by auto
qed

lemma th_remove_structure:
  assumes "well_formed H" "v \<in> elems H"
  shows "\<exists>H'. th_remove os v H = Some H' \<and> well_formed H' \<and> elems H' = elems H - {v} \<and>
      nodes H' v = Some IntrusiveField_default \<and> (\<forall>x. x \<notin> elems H \<longrightarrow> nodes H' x = nodes H x) \<and>
      dom (nodes H') = dom (nodes H)"
proof -
  obtain H' where H': "remove_node (timer_lt os) v H = Some H'" "well_formed H'" "elems H' = elems H - {v}"
    "nodes H' v = Some IntrusiveField_default" "\<And>x. x \<notin> elems H \<Longrightarrow> nodes H' x = nodes H x"
    using remove_structure [OF assms, of "timer_lt os"] by auto
  have "dom (nodes H') = dom (nodes H)"
    by (rule dom_removed [OF assms(1) H'(2,3) _ H'(5)]) (simp add: H'(4))
  then show ?thesis using H' by (auto simp: th_remove_def)
qed

lemma th_delete_min_structure:
  assumes "well_formed H" "elems H \<noteq> {}"
  shows "\<exists>H'. th_delete_min os H = Some (Some (root H), H') \<and> root H \<in> elems H \<and> well_formed H' \<and>
      elems H' = elems H - {root H} \<and> nodes H' (root H) = Some IntrusiveField_default \<and>
      (\<forall>x. x \<notin> elems H \<longrightarrow> nodes H' x = nodes H x) \<and> dom (nodes H') = dom (nodes H)"
proof -
  obtain H' where H': "delete_min (timer_lt os) H = Some (root H, H')" "well_formed H'"
    "elems H' = elems H - {root H}" "nodes H' (root H) = Some IntrusiveField_default"
    "\<And>x. x \<notin> elems H \<Longrightarrow> nodes H' x = nodes H x"
    using delete_structure [OF assms, of "timer_lt os"] by auto
  have "dom (nodes H') = dom (nodes H)"
    by (rule dom_removed [OF assms(1) H'(2,3) _ H'(5)]) (simp add: H'(4))
  moreover have "root H \<noteq> null" "root H \<in> elems H"
    using well_formed_root well_formed_root_elem assms by blast+
  ultimately show ?thesis using H' by (auto simp: th_delete_min_def non_null_def)
qed

lemma th_delete_min_empty:
  "well_formed H \<Longrightarrow> elems H = {} \<Longrightarrow> th_delete_min os H = Some (None, H)"
  by (simp add: th_delete_min_def delete_min_empty non_null_def well_formed_root)

section \<open>The operations keep the invariant\<close>

lemma insert_regular:
  assumes inv: "all_inv fl A" and t: "objs A v = Some t" "t_state t \<noteq> ACTIVE" "v \<notin> fl"
  shows "\<exists>H. th_insert os v (regular A) = Some H \<and>
      all_inv fl (set_regular H A\<lparr>objs := (objs A)(v \<mapsto> t\<lparr>t_state := ACTIVE, in_heap := Regular\<rparr>)\<rparr>) \<and>
      elems H = insert v (elems (regular A)) \<and> elems (fakes (set_regular H A)) = elems (fakes A)"
proof -
  have "timer_ok fl A v t" using inv t(1) by (simp add: all_inv_def)
  then have v: "unlinked (regular A) v" "v \<notin> elems (fakes A)" "v \<notin> elems (regular A)"
    using t by (auto simp: timer_ok_def unlinked_def)
  have wf: "well_formed (regular A)" using inv by (simp add: all_inv_def)
  obtain H where H: "th_insert os v (regular A) = Some H" "well_formed H" "elems H = insert v (elems (regular A))"
    "\<And>x. x \<notin> insert v (elems (regular A)) \<Longrightarrow> nodes H x = links A x" "dom (nodes H) = dom (links A)"
    using th_insert_structure [OF wf v(1), of os] by auto
  have fk: "well_formed (fakes (set_regular H A))" "elems (fakes (set_regular H A)) = elems (fakes A)"
    using other_heap(1) [OF inv H(2,4)] v(2) disjoint_heaps [OF inv] by blast+
  have "all_inv fl (set_regular H A\<lparr>objs := (objs A)(v \<mapsto> t\<lparr>t_state := ACTIVE, in_heap := Regular\<rparr>)\<rparr>)"
    using t H fk v by (intro all_inv_step [OF inv t(1)]) (auto simp: timer_ok_def)
  then show ?thesis using H(1,3) fk(2) by blast
qed

lemma insert_fake:
  assumes inv: "all_inv fl A" and t: "objs A v = Some t" "t_state t \<noteq> ACTIVE" "v \<notin> fl" "allow_fake_timers (t_tag t)"
  shows "\<exists>H. th_insert os v (fakes A) = Some H \<and>
      all_inv fl (set_fakes H A\<lparr>objs := (objs A)(v \<mapsto> t\<lparr>t_state := ACTIVE, in_heap := Fake\<rparr>)\<rparr>) \<and>
      elems H = insert v (elems (fakes A)) \<and> elems (regular (set_fakes H A)) = elems (regular A)"
proof -
  have "timer_ok fl A v t" using inv t(1) by (simp add: all_inv_def)
  then have v: "unlinked (fakes A) v" "v \<notin> elems (fakes A)" "v \<notin> elems (regular A)"
    using t by (auto simp: timer_ok_def unlinked_def)
  have wf: "well_formed (fakes A)" using inv by (simp add: all_inv_def)
  obtain H where H: "th_insert os v (fakes A) = Some H" "well_formed H" "elems H = insert v (elems (fakes A))"
    "\<And>x. x \<notin> insert v (elems (fakes A)) \<Longrightarrow> nodes H x = links A x" "dom (nodes H) = dom (links A)"
    using th_insert_structure [OF wf v(1), of os] by auto
  have rg: "well_formed (regular (set_fakes H A))" "elems (regular (set_fakes H A)) = elems (regular A)"
    using other_heap(2) [OF inv H(2,4)] v(3) disjoint_heaps [OF inv] by blast+
  have "all_inv fl (set_fakes H A\<lparr>objs := (objs A)(v \<mapsto> t\<lparr>t_state := ACTIVE, in_heap := Fake\<rparr>)\<rparr>)"
    using t H rg v by (intro all_inv_step [OF inv t(1)]) (auto simp: timer_ok_def)
  then show ?thesis using H(1,3) rg(2) by blast
qed

text \<open>Taking a timer out of its heap\<close>

lemma leave_regular:
  assumes inv: "all_inv fl A" and t: "objs A v = Some t" "v \<in> elems (regular A)"
    and H: "well_formed H" "elems H = elems (regular A) - {v}" "nodes H v = Some IntrusiveField_default"
      "\<forall>x. x \<notin> elems (regular A) \<longrightarrow> nodes H x = links A x" "dom (nodes H) = dom (links A)"
    and t': "t_state t' \<noteq> ACTIVE \<or> v \<in> fl' \<and> in_heap t' \<noteq> InHeap_None" "fl' - {v} = fl - {v}"
  shows "all_inv fl' (set_regular H A\<lparr>objs := (objs A)(v \<mapsto> t')\<rparr>) \<and>
      elems (fakes (set_regular H A)) = elems (fakes A)"
proof -
  note v = disjoint_heaps [OF inv t(2)]
  have fk: "well_formed (fakes (set_regular H A))" "elems (fakes (set_regular H A)) = elems (fakes A)"
    using other_heap(1) [OF inv H(1), of "elems (regular A)"] H(4) disjoint_heaps [OF inv] by blast+
  have "all_inv fl' (set_regular H A\<lparr>objs := (objs A)(v \<mapsto> t')\<rparr>)"
    using t H fk v t' by (intro all_inv_step [OF inv t(1)]) (auto simp: timer_ok_def)
  then show ?thesis using fk(2) by blast
qed

lemma leave_fakes:
  assumes inv: "all_inv fl A" and t: "objs A v = Some t" "v \<in> elems (fakes A)"
    and H: "well_formed H" "elems H = elems (fakes A) - {v}" "nodes H v = Some IntrusiveField_default"
      "\<forall>x. x \<notin> elems (fakes A) \<longrightarrow> nodes H x = links A x" "dom (nodes H) = dom (links A)"
    and t': "t_state t' \<noteq> ACTIVE \<or> v \<in> fl' \<and> in_heap t' \<noteq> InHeap_None" "fl' - {v} = fl - {v}"
  shows "all_inv fl' (set_fakes H A\<lparr>objs := (objs A)(v \<mapsto> t')\<rparr>) \<and>
      elems (regular (set_fakes H A)) = elems (regular A)"
proof -
  have v: "v \<notin> elems (regular A)" using disjoint_heaps [OF inv] t(2) by blast
  have rg: "well_formed (regular (set_fakes H A))" "elems (regular (set_fakes H A)) = elems (regular A)"
    using other_heap(2) [OF inv H(1), of "elems (fakes A)"] H(4) disjoint_heaps [OF inv] by blast+
  have "all_inv fl' (set_fakes H A\<lparr>objs := (objs A)(v \<mapsto> t')\<rparr>)"
    using t H rg v t' by (intro all_inv_step [OF inv t(1)]) (auto simp: timer_ok_def)
  then show ?thesis using rg(2) by blast
qed

lemma all_inv_retime:
  assumes "all_inv fl A" "objs A v = Some t"
    and "t_state t' = t_state t" "in_heap t' = in_heap t" "t_tag t' = t_tag t"
  shows "all_inv fl (A\<lparr>epoch_counter := e, objs := (objs A)(v \<mapsto> t')\<rparr>)"
proof -
  have "timer_ok fl A v t" using assms(1,2) by (simp add: all_inv_def)
  then have "timer_ok fl (A\<lparr>epoch_counter := e, objs := (objs A)(v \<mapsto> t')\<rparr>) v t'"
    using assms(3-5) by (simp add: timer_ok_def)
  then show ?thesis
    using assms(1) by (intro all_inv_step [OF assms(1,2)]) (simp_all add: all_inv_def)
qed

definition next_epoch :: "Tag \<Rightarrow> u32 \<Rightarrow> u32" where
  "next_epoch tag e = (if is_js_timer tag then (e + 1) AND EPOCH_MASK else e)"

lemma bump_epoch_inv:
  assumes "all_inv fl A" "objs A v = Some t"
  shows "\<exists>t'. bump_epoch v A = Some (A\<lparr>epoch_counter := next_epoch (t_tag t) (epoch_counter A), objs := (objs A)(v \<mapsto> t')\<rparr>) \<and>
      t_state t' = t_state t \<and> in_heap t' = in_heap t \<and> t_tag t' = t_tag t \<and> deadline t' = deadline t \<and>
      (is_js_timer (t_tag t) \<longrightarrow> flags_epoch (t_flags t') = next_epoch (t_tag t) (epoch_counter A))"
proof (cases "is_js_timer (t_tag t)")
  case True
  have "flags_epoch (set_epoch (w AND EPOCH_MASK) f) = w AND EPOCH_MASK" for w f
    by (rule bit_word_eqI) (auto simp: flags_epoch_def set_epoch_def bit_simps)
  then show ?thesis
    using assms(2) True
    by (intro exI [of _ "t\<lparr>t_flags := set_epoch (next_epoch (t_tag t) (epoch_counter A)) (t_flags t)\<rparr>"])
      (simp add: bump_epoch_def modify_timer_def next_epoch_def EPOCH_MASK_def Let_def)
next
  case False
  then have "A\<lparr>epoch_counter := epoch_counter A, objs := (objs A)(v \<mapsto> t)\<rparr> = A"
    using assms(2) by (simp add: fun_upd_idem)
  then show ?thesis using assms(2) False by (intro exI [of _ t]) (simp add: bump_epoch_def next_epoch_def)
qed

text \<open>Which heap an insertion goes to\<close>

definition to_fake :: "All \<Rightarrow> Tag \<Rightarrow> bool" where
  "to_fake A tag \<longleftrightarrow> fake_is_active A \<and> allow_fake_timers tag"

lemma all_insert_spec:
  assumes "all_inv fl A" "objs A v = Some t" "t_state t \<noteq> ACTIVE" "v \<notin> fl" "t_tag t \<noteq> WTFTimer"
  shows "\<exists>A' t'. all_insert v A = Some A' \<and> all_inv fl A' \<and> objs A' = (objs A)(v \<mapsto> t') \<and>
      t_state t' = ACTIVE \<and> in_heap t' = (if to_fake A (t_tag t) then Fake else Regular) \<and>
      t_tag t' = t_tag t \<and> deadline t' = deadline t \<and> fake_now A' = fake_now A \<and>
      epoch_counter A' = next_epoch (t_tag t) (epoch_counter A) \<and>
      (is_js_timer (t_tag t) \<longrightarrow> flags_epoch (t_flags t') = epoch_counter A') \<and>
      elems (regular A') = (if to_fake A (t_tag t) then elems (regular A) else insert v (elems (regular A))) \<and>
      elems (fakes A') = (if to_fake A (t_tag t) then insert v (elems (fakes A)) else elems (fakes A))"
proof -
  let ?e = "next_epoch (t_tag t) (epoch_counter A)"
  obtain u where u: "bump_epoch v A = Some (A\<lparr>epoch_counter := ?e, objs := (objs A)(v \<mapsto> u)\<rparr>)"
    "t_state u = t_state t" "in_heap u = in_heap t" "t_tag u = t_tag t" "deadline u = deadline t"
    "is_js_timer (t_tag t) \<longrightarrow> flags_epoch (t_flags u) = ?e"
    using bump_epoch_inv [OF assms(1,2)] by blast
  let ?B = "A\<lparr>epoch_counter := ?e, objs := (objs A)(v \<mapsto> u)\<rparr>"
  have B: "all_inv fl ?B" "objs ?B v = Some u" "t_state u \<noteq> ACTIVE"
    using all_inv_retime [OF assms(1,2)] u(2-4) assms(3) by simp_all
  have heaps: "regular ?B = regular A" "fakes ?B = fakes A" by (simp_all add: regular_def fakes_def)
  show ?thesis
  proof (cases "to_fake A (t_tag t)")
    case True
    obtain H where H: "th_insert (objs ?B) v (fakes ?B) = Some H"
      "all_inv fl (set_fakes H ?B\<lparr>objs := (objs ?B)(v \<mapsto> u\<lparr>t_state := ACTIVE, in_heap := Fake\<rparr>)\<rparr>)"
      "elems H = insert v (elems (fakes ?B))" "elems (regular (set_fakes H ?B)) = elems (regular ?B)"
      using insert_fake [OF B assms(4), of "objs ?B"] True u(4) by (auto simp: to_fake_def)
    let ?A' = "set_fakes H ?B\<lparr>objs := (objs ?B)(v \<mapsto> u\<lparr>t_state := ACTIVE, in_heap := Fake\<rparr>)\<rparr>"
    have "all_insert v A = Some ?A'"
      using assms(2,5) u(1) H(1) True
      by (simp add: all_insert_def to_fake_def fake_is_active_def modify_timer_def)
    then show ?thesis
      using H u True heaps
      by (intro exI [of _ ?A'] exI [of _ "u\<lparr>t_state := ACTIVE, in_heap := Fake\<rparr>"]) (simp add: set_fakes_def regular_def fakes_def)
  next
    case False
    obtain H where H: "th_insert (objs ?B) v (regular ?B) = Some H"
      "all_inv fl (set_regular H ?B\<lparr>objs := (objs ?B)(v \<mapsto> u\<lparr>t_state := ACTIVE, in_heap := Regular\<rparr>)\<rparr>)"
      "elems H = insert v (elems (regular ?B))" "elems (fakes (set_regular H ?B)) = elems (fakes ?B)"
      using insert_regular [OF B assms(4), of "objs ?B"] by blast
    let ?A' = "set_regular H ?B\<lparr>objs := (objs ?B)(v \<mapsto> u\<lparr>t_state := ACTIVE, in_heap := Regular\<rparr>)\<rparr>"
    have "all_insert v A = Some ?A'"
      using assms(2,5) u(1) H(1) False
      by (auto simp: all_insert_def to_fake_def fake_is_active_def modify_timer_def)
    then show ?thesis
      using H u False heaps
      by (intro exI [of _ ?A'] exI [of _ "u\<lparr>t_state := ACTIVE, in_heap := Regular\<rparr>"]) (simp add: set_regular_def regular_def fakes_def)
  qed
qed

lemma all_remove_spec:
  assumes "all_inv fl A" "objs A v = Some t" "t_state t = ACTIVE" "v \<notin> fl"
  shows "\<exists>A'. all_remove v A = Some A' \<and> all_inv fl A' \<and>
      objs A' = (objs A)(v \<mapsto> t\<lparr>in_heap := InHeap_None, t_state := CANCELLED\<rparr>) \<and>
      fake_now A' = fake_now A \<and> epoch_counter A' = epoch_counter A \<and>
      elems (regular A') = elems (regular A) - {v} \<and> elems (fakes A') = elems (fakes A) - {v}"
proof -
  let ?t' = "t\<lparr>in_heap := InHeap_None, t_state := CANCELLED\<rparr>"
  have ok: "timer_ok fl A v t" and wf: "well_formed (regular A)" "well_formed (fakes A)"
    using assms(1,2) by (simp_all add: all_inv_def)
  show ?thesis
  proof (cases "in_heap t")
    case InHeap_None
    then show ?thesis using ok assms(3) by (simp add: timer_ok_def)
  next
    case Regular
    then have v: "v \<in> elems (regular A)" "v \<notin> elems (fakes A)" using ok assms(3,4) by (simp_all add: timer_ok_def)
    obtain H where H: "th_remove (objs A) v (regular A) = Some H" "well_formed H" "elems H = elems (regular A) - {v}"
      "nodes H v = Some IntrusiveField_default" "\<forall>x. x \<notin> elems (regular A) \<longrightarrow> nodes H x = links A x"
      "dom (nodes H) = dom (links A)"
      using th_remove_structure [OF wf(1) v(1), of "objs A"] by auto
    let ?A' = "set_regular H A\<lparr>objs := (objs A)(v \<mapsto> ?t')\<rparr>"
    have "all_inv fl ?A'" "elems (fakes (set_regular H A)) = elems (fakes A)"
      using leave_regular [OF assms(1,2) v(1) H(2-6), of ?t' fl] by simp_all
    moreover have "all_remove v A = Some ?A'"
      using assms(2) Regular H(1) by (simp add: all_remove_def modify_timer_def)
    ultimately show ?thesis
      using H(3) v(2) by (intro exI [of _ ?A']) (simp add: set_regular_def regular_def fakes_def)
  next
    case Fake
    then have v: "v \<in> elems (fakes A)" "v \<notin> elems (regular A)" using ok assms(3,4) by (simp_all add: timer_ok_def)
    obtain H where H: "th_remove (objs A) v (fakes A) = Some H" "well_formed H" "elems H = elems (fakes A) - {v}"
      "nodes H v = Some IntrusiveField_default" "\<forall>x. x \<notin> elems (fakes A) \<longrightarrow> nodes H x = links A x"
      "dom (nodes H) = dom (links A)"
      using th_remove_structure [OF wf(2) v(1), of "objs A"] by auto
    let ?A' = "set_fakes H A\<lparr>objs := (objs A)(v \<mapsto> ?t')\<rparr>"
    have "all_inv fl ?A'" "elems (regular (set_fakes H A)) = elems (regular A)"
      using leave_fakes [OF assms(1,2) v(1) H(2-6), of ?t' fl] by simp_all
    moreover have "all_remove v A = Some ?A'"
      using assms(2) Fake H(1) by (simp add: all_remove_def modify_timer_def)
    ultimately show ?thesis
      using H(3) v(2) by (intro exI [of _ ?A']) (simp add: set_fakes_def regular_def fakes_def)
  qed
qed

lemma all_update_spec:
  assumes "all_inv fl A" "objs A v = Some t" "v \<notin> fl" "t_tag t \<noteq> WTFTimer"
  shows "\<exists>A' t'. all_update v time A = Some A' \<and> all_inv fl A' \<and> objs A' = (objs A)(v \<mapsto> t') \<and>
      t_state t' = ACTIVE \<and> t_tag t' = t_tag t \<and> deadline t' = time \<and>
      epoch_counter A' = next_epoch (t_tag t) (epoch_counter A) \<and>
      (is_js_timer (t_tag t) \<longrightarrow> flags_epoch (t_flags t') = epoch_counter A') \<and>
      elems (regular A') = (if to_fake A (t_tag t) then elems (regular A) - {v} else insert v (elems (regular A))) \<and>
      elems (fakes A') = (if to_fake A (t_tag t) then insert v (elems (fakes A)) else elems (fakes A) - {v})"
proof -
  obtain B u where B: "(if t_state t = ACTIVE then all_remove v A else Some A) = Some B" "all_inv fl B"
    "objs B = (objs A)(v \<mapsto> u)" "t_state u \<noteq> ACTIVE" "t_tag u = t_tag t" "fake_now B = fake_now A"
    "epoch_counter B = epoch_counter A" "elems (regular B) = elems (regular A) - {v}" "elems (fakes B) = elems (fakes A) - {v}"
  proof (cases "t_state t = ACTIVE")
    case True
    then show ?thesis using all_remove_spec [OF assms(1,2) True assms(3)] that by fastforce
  next
    case False
    then have "v \<notin> elems (regular A)" "v \<notin> elems (fakes A)"
      using assms(1,2) by (auto simp: all_inv_def timer_ok_def)
    then show ?thesis using False assms by (intro that [of A t]) (auto simp: fun_upd_idem)
  qed
  let ?u = "u\<lparr>deadline := time\<rparr>"
  let ?C = "B\<lparr>objs := (objs B)(v \<mapsto> ?u)\<rparr>"
  have "all_inv fl ?C"
    using all_inv_retime [OF B(2), of v u ?u "epoch_counter B"] B(3) by simp
  moreover have "objs ?C v = Some ?u" "t_state ?u \<noteq> ACTIVE" "t_tag ?u \<noteq> WTFTimer"
    using B(4,5) assms(4) by simp_all
  ultimately obtain A' t' where A': "all_insert v ?C = Some A'" "all_inv fl A'" "objs A' = (objs ?C)(v \<mapsto> t')"
    "t_state t' = ACTIVE" "t_tag t' = t_tag ?u" "deadline t' = deadline ?u"
    "epoch_counter A' = next_epoch (t_tag ?u) (epoch_counter ?C)"
    "is_js_timer (t_tag ?u) \<longrightarrow> flags_epoch (t_flags t') = epoch_counter A'"
    "elems (regular A') = (if to_fake ?C (t_tag ?u) then elems (regular ?C) else insert v (elems (regular ?C)))"
    "elems (fakes A') = (if to_fake ?C (t_tag ?u) then insert v (elems (fakes ?C)) else elems (fakes ?C))"
    using all_insert_spec [of fl ?C v ?u] assms(3) by blast
  have "to_fake ?C (t_tag ?u) = to_fake A (t_tag t)"
    using B(5,6) by (simp add: to_fake_def fake_is_active_def)
  moreover have "all_update v time A = Some A'"
    using assms(2) B(1,3) A'(1) by (simp add: all_update_def modify_timer_def)
  ultimately show ?thesis
    using A' B by (intro exI [of _ A'] exI [of _ t']) auto
qed

lemma all_next_spec:
  assumes "all_inv fl A"
  shows "(elems (regular A) = {} \<longrightarrow> all_next now A = Some (None, A)) \<and>
    (elems (regular A) \<noteq> {} \<longrightarrow>
      (\<exists>t. objs A (timers_root A) = Some t \<and> timers_root A \<in> elems (regular A) \<and>
        (if ts_greater (deadline t) now then all_next now A = Some (None, A)
         else \<exists>A'. all_next now A = Some (Some (timers_root A), A') \<and> all_inv (insert (timers_root A) fl) A' \<and>
           objs A' = objs A \<and> elems (regular A') = elems (regular A) - {timers_root A} \<and>
           elems (fakes A') = elems (fakes A))))"
proof (cases "elems (regular A) = {}")
  case True
  then have "root (regular A) = null"
    using well_formed_root [of "regular A"] assms by (simp add: all_inv_def)
  then show ?thesis using True by (simp add: all_next_def th_peek_def peek_def non_null_def)
next
  case False
  let ?v = "timers_root A"
  have wf: "well_formed (regular A)" using assms by (simp add: all_inv_def)
  have root: "root (regular A) = ?v" by (simp add: regular_def)
  obtain H where H: "th_delete_min (objs A) (regular A) = Some (Some ?v, H)" "?v \<in> elems (regular A)" "well_formed H"
    "elems H = elems (regular A) - {?v}" "nodes H ?v = Some IntrusiveField_default"
    "\<forall>x. x \<notin> elems (regular A) \<longrightarrow> nodes H x = links A x" "dom (nodes H) = dom (links A)"
    using th_delete_min_structure [OF wf False, of "objs A"] root by auto
  have v: "?v \<noteq> null" "links A ?v \<noteq> None" using well_formed_elems [OF wf H(2)] by auto
  moreover have "dom (objs A) = dom (links A)" using assms by (simp add: all_inv_def)
  ultimately obtain t where t: "objs A ?v = Some t" by blast
  then have "t_state t = ACTIVE" "in_heap t = Regular"
    using assms H(2) by (auto simp: all_inv_def timer_ok_def)
  then have "all_inv (insert ?v fl) (set_regular H A\<lparr>objs := (objs A)(?v \<mapsto> t)\<rparr>)"
    "elems (fakes (set_regular H A)) = elems (fakes A)"
    using leave_regular [OF assms t H(2-7), of t "insert ?v fl"] by auto
  moreover have "set_regular H A\<lparr>objs := (objs A)(?v \<mapsto> t)\<rparr> = set_regular H A"
    using t by (simp add: set_regular_def fun_upd_idem)
  ultimately show ?thesis
    using False H t v root by (auto simp: all_next_def th_peek_def peek_def non_null_def)
qed

lemma fired_spec:
  assumes "all_inv fl A" "v \<in> fl" "objs A v = Some t"
  shows "\<exists>A'. fired v A = Some A' \<and> all_inv (fl - {v}) A'"
proof -
  have "timer_ok fl A v t" using assms(1,3) by (simp add: all_inv_def)
  then have "all_inv (fl - {v}) (A\<lparr>objs := (objs A)(v \<mapsto> t\<lparr>t_state := FIRED\<rparr>)\<rparr>)"
    using assms by (intro all_inv_step [OF assms(1,3)]) (auto simp: timer_ok_def all_inv_def)
  then show ?thesis using assms(3) by (simp add: fired_def modify_timer_def)
qed

definition owners :: "ClearedTimers \<Rightarrow> addr list" where
  "owners c = pinned c @ signal_timeouts c @ cron_jobs c"

definition cancelled :: "EventLoopTimer \<Rightarrow> EventLoopTimer" where
  "cancelled t = t\<lparr>in_heap := InHeap_None, t_state := CANCELLED\<rparr>"

lemma push_owner_spec:
  assumes "allow_fake_timers tag"
  shows "\<exists>c'. push_owner tag v c = Some c' \<and> mset (owners c') = add_mset v (mset (owners c))"
  using assms by (auto simp: allow_fake_timers_def push_owner_def owners_def)

lemma clear_step:
  assumes "all_inv fl A" "elems (fakes A) \<noteq> {}"
  shows "\<exists>A' t c'. clear_loop c A = clear_loop c' A' \<and> all_inv fl A' \<and> objs A (fake_root A) = Some t \<and>
      fake_root A \<in> elems (fakes A) \<and> objs A' = (objs A)(fake_root A \<mapsto> cancelled t) \<and>
      elems (fakes A') = elems (fakes A) - {fake_root A} \<and> elems (regular A') = elems (regular A) \<and>
      mset (owners c') = add_mset (fake_root A) (mset (owners c))"
proof -
  let ?v = "fake_root A"
  have wf: "well_formed (fakes A)" using assms by (simp add: all_inv_def)
  have root: "root (fakes A) = ?v" by (simp add: fakes_def)
  obtain H where H: "th_delete_min (objs A) (fakes A) = Some (Some ?v, H)" "?v \<in> elems (fakes A)" "well_formed H"
    "elems H = elems (fakes A) - {?v}" "nodes H ?v = Some IntrusiveField_default"
    "\<forall>x. x \<notin> elems (fakes A) \<longrightarrow> nodes H x = links A x" "dom (nodes H) = dom (links A)"
    using th_delete_min_structure [OF wf assms(2), of "objs A"] root by auto
  have "links A ?v \<noteq> None" using well_formed_elems [OF wf H(2)] by auto
  moreover have "dom (objs A) = dom (links A)" using assms by (simp add: all_inv_def)
  ultimately obtain t where t: "objs A ?v = Some t" by blast
  then have "allow_fake_timers (t_tag t)" using assms(1) H(2) by (auto simp: all_inv_def timer_ok_def)
  then obtain c' where c': "push_owner (t_tag t) ?v c = Some c'" "mset (owners c') = add_mset ?v (mset (owners c))"
    using push_owner_spec by blast
  let ?A' = "set_fakes H A\<lparr>objs := (objs A)(?v \<mapsto> cancelled t)\<rparr>"
  have inv: "all_inv fl ?A'" "elems (regular (set_fakes H A)) = elems (regular A)"
    using leave_fakes [OF assms(1) t H(2-7), of "cancelled t" fl] by (simp_all add: cancelled_def)
  have "clear_loop c A = clear_loop c' ?A'"
    using H(1) t c'(1) by (subst clear_loop.simps) (simp add: modify_timer_def cancelled_def)
  then show ?thesis
    using inv t H(2,4) c'(2)
    by (intro exI [of _ ?A'] exI [of _ t] exI [of _ c']) (simp add: set_fakes_def regular_def fakes_def)
qed

lemma clear_loop_spec:
  assumes "all_inv fl A" "finite (elems (fakes A))" "distinct (owners c)" "set (owners c) \<inter> elems (fakes A) = {}"
  shows "\<exists>c' A'. clear_loop c A = Some (c', A') \<and> all_inv fl A' \<and> elems (fakes A') = {} \<and>
      elems (regular A') = elems (regular A) \<and> distinct (owners c') \<and>
      set (owners c') = set (owners c) \<union> elems (fakes A) \<and>
      (\<forall>v. objs A' v = (if v \<in> elems (fakes A) then map_option cancelled (objs A v) else objs A v))"
  using assms
proof (induction "card (elems (fakes A))" arbitrary: c A)
  case 0
  then have "elems (fakes A) = {}" by simp
  moreover have "set_fakes (fakes A) A = A" by (simp add: set_fakes_def fakes_def)
  ultimately have "clear_loop c A = Some (c, A)"
    using th_delete_min_empty [of "fakes A" "objs A"] 0 by (subst clear_loop.simps) (simp add: all_inv_def)
  then show ?case using 0 \<open>elems (fakes A) = {}\<close> by simp
next
  case (Suc n)
  then have "elems (fakes A) \<noteq> {}" by auto
  then obtain A1 t c1 where step: "clear_loop c A = clear_loop c1 A1" "all_inv fl A1" "objs A (fake_root A) = Some t"
    "fake_root A \<in> elems (fakes A)" "objs A1 = (objs A)(fake_root A \<mapsto> cancelled t)"
    "elems (fakes A1) = elems (fakes A) - {fake_root A}" "elems (regular A1) = elems (regular A)"
    "mset (owners c1) = add_mset (fake_root A) (mset (owners c))"
    using clear_step [OF Suc.prems(1), of c] by blast
  have c1: "set (owners c1) = insert (fake_root A) (set (owners c))" "distinct (owners c1)"
    using step(4,8) Suc.prems(3,4) mset_eq_setD [of "owners c1" "fake_root A # owners c"]
      mset_eq_imp_distinct_iff [of "owners c1" "fake_root A # owners c"] by auto
  have "n = card (elems (fakes A1))" using Suc.hyps(2) Suc.prems(2) step(4,6) by simp
  moreover have fin: "finite (elems (fakes A1))" using Suc.prems(2) step(6) by simp
  moreover have disj: "set (owners c1) \<inter> elems (fakes A1) = {}" using Suc.prems(4) step(6) c1(1) by auto
  ultimately obtain c' A' where "clear_loop c1 A1 = Some (c', A')" "all_inv fl A'" "elems (fakes A') = {}"
    "elems (regular A') = elems (regular A1)" "distinct (owners c')"
    "set (owners c') = set (owners c1) \<union> elems (fakes A1)"
    "\<forall>v. objs A' v = (if v \<in> elems (fakes A1) then map_option cancelled (objs A1 v) else objs A1 v)"
    using Suc.hyps(1) [OF _ step(2) fin c1(2) disj] by blast
  then show ?case
    using step c1(1) by (intro exI [of _ c'] exI [of _ A']) auto
qed

lemma finite_elems: "well_formed H \<Longrightarrow> finite (elems H)"
  by (auto simp: well_formed_def elems_represents)

lemma fake_clear_spec:
  assumes "all_inv fl A"
  shows "\<exists>c A'. fake_clear A = Some (c, A') \<and> all_inv fl A' \<and> elems (fakes A') = {} \<and>
      elems (regular A') = elems (regular A) \<and> distinct (owners c) \<and> set (owners c) = elems (fakes A) \<and>
      (\<forall>v. objs A' v = (if v \<in> elems (fakes A) then map_option cancelled (objs A v) else objs A v))"
  using clear_loop_spec [OF assms, of ClearedTimers_default] assms
  by (auto simp: fake_clear_def owners_def ClearedTimers_default_def all_inv_def finite_elems)

lemma fake_pop_spec:
  assumes "all_inv fl A"
  shows "\<exists>r A'. fake_pop A = Some (r, A') \<and> all_inv (in_flight r fl) A'"
proof (cases "elems (fakes A) = {}")
  case True
  have "set_fakes (fakes A) A = A" by (simp add: set_fakes_def fakes_def)
  then have "fake_pop A = Some (None, A)"
    using th_delete_min_empty [OF _ True] assms by (simp add: fake_pop_def all_inv_def)
  then show ?thesis using assms by auto
next
  case False
  let ?v = "fake_root A"
  have wf: "well_formed (fakes A)" using assms by (simp add: all_inv_def)
  have root: "root (fakes A) = ?v" by (simp add: fakes_def)
  obtain H where H: "th_delete_min (objs A) (fakes A) = Some (Some ?v, H)" "?v \<in> elems (fakes A)" "well_formed H"
    "elems H = elems (fakes A) - {?v}" "nodes H ?v = Some IntrusiveField_default"
    "\<forall>x. x \<notin> elems (fakes A) \<longrightarrow> nodes H x = links A x" "dom (nodes H) = dom (links A)"
    using th_delete_min_structure [OF wf False, of "objs A"] root by auto
  have "links A ?v \<noteq> None" using well_formed_elems [OF wf H(2)] by auto
  moreover have "dom (objs A) = dom (links A)" using assms by (simp add: all_inv_def)
  ultimately obtain t where t: "objs A ?v = Some t" by blast
  then have "in_heap t = Fake" using assms H(2) by (auto simp: all_inv_def timer_ok_def)
  then have "all_inv (insert ?v fl) (set_fakes H A\<lparr>objs := (objs A)(?v \<mapsto> t)\<rparr>)"
    using leave_fakes [OF assms t H(2-7), of t "insert ?v fl"] by auto
  moreover have "set_fakes H A\<lparr>objs := (objs A)(?v \<mapsto> t)\<rparr> = set_fakes H A"
    using t by (simp add: set_fakes_def fun_upd_idem)
  ultimately show ?thesis using H(1) by (simp add: fake_pop_def)
qed

text \<open>Allocating and freeing a timer that is in no heap\<close>

lemma all_inv_cell:
  assumes "all_inv fl A" "v \<noteq> null" "v \<notin> elems (regular A)" "v \<notin> elems (fakes A)" "(o' = None) = (l' = None)"
    and "\<And>t. o' = Some t \<Longrightarrow> v \<notin> fl \<and> t_state t \<noteq> ACTIVE \<and> l' = Some IntrusiveField_default \<or>
      v \<in> fl \<and> l' = Some IntrusiveField_default \<and> in_heap t \<noteq> InHeap_None"
    and "o' = None \<Longrightarrow> v \<notin> fl"
  shows "all_inv fl (A\<lparr>objs := (objs A)(v := o'), links := (links A)(v := l')\<rparr>)"
proof -
  let ?A' = "A\<lparr>objs := (objs A)(v := o'), links := (links A)(v := l')\<rparr>"
  have wf: "well_formed (regular A)" "well_formed (fakes A)" using assms(1) by (simp_all add: all_inv_def)
  have reg: "well_formed (regular ?A') \<and> elems (regular ?A') = elems (regular A)"
    using assms(2,3) well_formed_null [OF wf(1)]
    by (intro well_formed_frame [OF wf(1)]) (auto simp: regular_def)
  have fk: "well_formed (fakes ?A') \<and> elems (fakes ?A') = elems (fakes A)"
    using assms(2,4) well_formed_null [OF wf(2)]
    by (intro well_formed_frame [OF wf(2)]) (auto simp: fakes_def)
  show ?thesis
    unfolding all_inv_def
  proof (intro conjI allI impI)
    show "dom (objs ?A') = dom (links ?A')" using assms(1,5) by (auto simp: all_inv_def)
    show "fl \<subseteq> dom (objs ?A')" using assms(1,7) by (auto simp: all_inv_def)
    fix w u
    assume u: "objs ?A' w = Some u"
    show "timer_ok fl ?A' w u"
    proof (cases "w = v")
      case True
      then show ?thesis using u assms(3,4,6) reg fk by (auto simp: timer_ok_def)
    next
      case False
      then have "timer_ok fl A w u" using u assms(1) by (simp add: all_inv_def)
      then show ?thesis using False reg fk by (simp add: timer_ok_def)
    qed
  qed (use reg fk in simp_all)
qed

lemma all_inv_fresh:
  assumes "all_inv fl A" "objs A v = None"
  shows "v \<notin> elems (regular A) \<and> v \<notin> elems (fakes A)"
proof -
  have "links A v = None" using assms by (auto simp: all_inv_def)
  then show ?thesis
    using well_formed_elems [of "regular A" v] well_formed_elems [of "fakes A" v] assms(1) by (auto simp: all_inv_def)
qed

lemma all_inv_idle:
  assumes "all_inv fl A" "objs A v = Some t" "t_state t \<noteq> ACTIVE"
  shows "v \<notin> elems (regular A) \<and> v \<notin> elems (fakes A) \<and> v \<noteq> null"
proof -
  have "links A v \<noteq> None" using assms(1,2) by (auto simp: all_inv_def)
  moreover have "links A null = None" using assms(1) well_formed_null [of "regular A"] by (simp add: all_inv_def)
  ultimately show ?thesis using assms by (auto simp: all_inv_def timer_ok_def)
qed

lemma all_insert_tag: "all_insert v A = Some A' \<Longrightarrow> objs A v = Some t \<Longrightarrow> t_tag t \<noteq> WTFTimer"
  by (auto simp: all_insert_def)

lemma all_update_tag:
  assumes "all_update v time A = Some A'" "objs A v = Some t"
  shows "t_tag t \<noteq> WTFTimer"
  using assms
  by (auto simp: all_update_def all_remove_def modify_timer_def all_insert_def Option.bind_eq_Some_conv
      split: if_splits option.splits InHeap.splits)

lemma all_step_inv:
  assumes "all_step s e s'" "all_inv (fst s) (snd s)"
  shows "all_inv (fst s') (snd s')"
  using assms
proof (induction rule: all_step.induct)
  case (step_alloc v A fl tag)
  have "t_state (init_paused tag) \<noteq> ACTIVE" "in_heap (init_paused tag) = InHeap_None" by (simp_all add: init_paused_def)
  moreover have "v \<notin> fl" using step_alloc by (auto simp: all_inv_def)
  ultimately show ?case
    using all_inv_cell [of fl A v "Some (init_paused tag)" "Some IntrusiveField_default"] step_alloc
      all_inv_fresh [of fl A v] by auto
next
  case (step_free A v t fl)
  then show ?case
    using all_inv_cell [of fl A v None None] all_inv_idle [of fl A v t] by simp
next
  case (step_insert A v t fl A')
  then show ?case using all_insert_spec [of fl A v t] all_insert_tag [of v A A' t] by auto
next
  case (step_remove A v t fl A')
  then show ?case using all_remove_spec [of fl A v t] by auto
next
  case (step_update A v t fl time A')
  then show ?case using all_update_spec [of fl A v t time] all_update_tag [of v time A A' t] by auto
next
  case (step_pop now A r A' fl)
  then show ?case
    using all_next_spec [of fl A now] by (cases "elems (regular A) = {}") (auto split: if_splits)
next
  case (step_pop_fake A r A' fl)
  then show ?case using fake_pop_spec [of fl A] by auto
next
  case (step_fired v fl A A')
  then have "objs A v \<noteq> None" by (auto simp: fired_def modify_timer_def split: option.splits)
  then show ?case using step_fired fired_spec [of fl A v] by auto
next
  case (step_clear A c A' fl)
  then show ?case using fake_clear_spec [of fl A] by auto
next
  case (step_set_now fl A n)
  have "regular (A\<lparr>fake_now := n\<rparr>) = regular A" "fakes (A\<lparr>fake_now := n\<rparr>) = fakes A"
    by (simp_all add: regular_def fakes_def)
  then show ?case using step_set_now unfolding all_inv_def timer_ok_def by auto
qed

lemma all_init_inv: "all_inv {} all_init"
proof -
  have "represents (regular all_init) []" "represents (fakes all_init) []"
    by (simp_all add: regular_def fakes_def all_init_def)
  then have "well_formed (regular all_init)" "well_formed (fakes all_init)"
    unfolding well_formed_def by blast+
  then show ?thesis by (simp add: all_inv_def all_init_def)
qed

interpretation timers: invariant_system all_step "({}, all_init)" "\<lambda>s. all_inv (fst s) (snd s)"
  using all_init_inv all_step_inv by unfold_locales auto

section \<open>What a thread can rely on\<close>

text \<open>
  C9. In every run of a thread, a timer is in the heap that its \<^verbatim>\<open>in_heap\<close> names exactly when its state is
  \<^verbatim>\<open>ACTIVE\<close> and it has not just been popped, so that it is in at most one heap; and every operation
  whose contract is met returns: insertion of a timer that is not active, removal of an active one,
  moving any timer, popping from either heap and clearing the fake timers.
\<close>

theorem timers_invariant:
  assumes "run all_step ({}, all_init) es (fl, A)"
  shows "(\<forall>v. objs A v = None \<longrightarrow> v \<notin> elems (regular A) \<union> elems (fakes A)) \<and>
    (\<forall>v t. objs A v = Some t \<longrightarrow>
      (v \<in> elems (regular A) \<longleftrightarrow> v \<notin> fl \<and> t_state t = ACTIVE \<and> in_heap t = Regular) \<and>
      (v \<in> elems (fakes A) \<longleftrightarrow> v \<notin> fl \<and> t_state t = ACTIVE \<and> in_heap t = Fake) \<and>
      (v \<notin> fl \<longrightarrow>
        (t_state t \<noteq> ACTIVE \<and> t_tag t \<noteq> WTFTimer \<longrightarrow> (\<exists>A'. all_insert v A = Some A')) \<and>
        (t_state t = ACTIVE \<longrightarrow> (\<exists>A'. all_remove v A = Some A')) \<and>
        (t_tag t \<noteq> WTFTimer \<longrightarrow> (\<forall>time. \<exists>A'. all_update v time A = Some A')))) \<and>
    (\<forall>now. \<exists>r A'. all_next now A = Some (r, A')) \<and> (\<exists>r A'. fake_pop A = Some (r, A')) \<and>
    (\<exists>c A'. fake_clear A = Some (c, A') \<and> elems (fakes A') = {} \<and> set (owners c) = elems (fakes A))"
proof -
  have inv: "all_inv fl A" using timers.run_inv [OF assms] by simp
  have ok: "timer_ok fl A v t" if "objs A v = Some t" for v t using inv that by (simp add: all_inv_def)
  have nxt: "\<forall>now. \<exists>r A'. all_next now A = Some (r, A')"
  proof
    fix now
    show "\<exists>r A'. all_next now A = Some (r, A')"
      using all_next_spec [OF inv, of now] by (cases "elems (regular A) = {}") (auto split: if_splits)
  qed
  have ops: "(v \<in> elems (regular A) \<longleftrightarrow> v \<notin> fl \<and> t_state t = ACTIVE \<and> in_heap t = Regular) \<and>
      (v \<in> elems (fakes A) \<longleftrightarrow> v \<notin> fl \<and> t_state t = ACTIVE \<and> in_heap t = Fake) \<and>
      (v \<notin> fl \<longrightarrow>
        (t_state t \<noteq> ACTIVE \<and> t_tag t \<noteq> WTFTimer \<longrightarrow> (\<exists>A'. all_insert v A = Some A')) \<and>
        (t_state t = ACTIVE \<longrightarrow> (\<exists>A'. all_remove v A = Some A')) \<and>
        (t_tag t \<noteq> WTFTimer \<longrightarrow> (\<forall>time. \<exists>A'. all_update v time A = Some A')))"
    if t: "objs A v = Some t" for v t
  proof (intro conjI impI allI)
    show "\<exists>A'. all_insert v A = Some A'" if "v \<notin> fl" "t_state t \<noteq> ACTIVE \<and> t_tag t \<noteq> WTFTimer"
      using all_insert_spec [OF inv t _ that(1)] that(2) by blast
    show "\<exists>A'. all_remove v A = Some A'" if "v \<notin> fl" "t_state t = ACTIVE"
      using all_remove_spec [OF inv t that(2,1)] by blast
    show "\<exists>A'. all_update v time A = Some A'" if "v \<notin> fl" "t_tag t \<noteq> WTFTimer" for time
      using all_update_spec [OF inv t that] by blast
  qed (use ok [OF t] in \<open>simp_all add: timer_ok_def\<close>)
  have fresh: "\<forall>v. objs A v = None \<longrightarrow> v \<notin> elems (regular A) \<union> elems (fakes A)"
    using all_inv_fresh [OF inv] by blast
  have pop: "\<exists>r A'. fake_pop A = Some (r, A')" using fake_pop_spec [OF inv] by blast
  have clr: "\<exists>c A'. fake_clear A = Some (c, A') \<and> elems (fakes A') = {} \<and> set (owners c) = elems (fakes A)"
    using fake_clear_spec [OF inv] by blast
  show ?thesis
    by (rule conjI [OF fresh conjI [OF _ conjI [OF nxt conjI [OF pop clr]]]], intro allI impI, rule ops)
qed

definition one_timer :: All where
  "one_timer = all_init\<lparr>objs := (objs all_init)(1 \<mapsto> init_paused TimeoutObject),
     links := (links all_init)(1 \<mapsto> IntrusiveField_default)\<rparr>"

lemma run_one_timer: "\<exists>A. run all_step ({}, all_init) [Alloc 1, Insert 1] ({}, A) \<and> elems (regular A) = {1}"
proof -
  have alloc: "run all_step ({}, all_init) [Alloc 1] ({}, one_timer)"
    unfolding one_timer_def by (rule run_single, rule step_alloc) (simp_all add: all_init_def)
  then have inv: "all_inv {} one_timer" using timers.run_inv by fastforce
  moreover have t: "objs one_timer 1 = Some (init_paused TimeoutObject)" by (simp add: one_timer_def)
  moreover have "\<not> to_fake one_timer TimeoutObject"
    by (simp add: to_fake_def fake_is_active_def one_timer_def all_init_def)
  moreover have "elems (regular one_timer) = {}"
    using elems_represents [of "regular one_timer" "[]"]
    by (simp add: regular_def one_timer_def all_init_def)
  ultimately obtain A where "all_insert 1 one_timer = Some A" "elems (regular A) = {1}"
    using all_insert_spec [of "{}" one_timer 1 "init_paused TimeoutObject"] by (auto simp: init_paused_def)
  then show ?thesis
    using run_snoc [OF alloc step_insert [OF t]] by (auto simp: init_paused_def)
qed

theorem timers_invariant_witness:
  "\<exists>A t. run all_step ({}, all_init) [Alloc 1, Insert 1] ({}, A) \<and> elems (regular A) = {1} \<and>
    objs A 1 = Some t \<and> t_state t = ACTIVE \<and> in_heap t = Regular \<and> (\<exists>A'. all_remove 1 A = Some A')"
proof -
  obtain A where A: "run all_step ({}, all_init) [Alloc 1, Insert 1] ({}, A)" "elems (regular A) = {1}"
    using run_one_timer by blast
  note inv = timers_invariant [OF A(1)]
  have "objs A 1 \<noteq> None" using conjunct1 [OF inv] A(2) by blast
  then obtain t where t: "objs A 1 = Some t" by blast
  note ok = conjunct1 [OF conjunct2 [OF inv], rule_format, OF t]
  have "t_state t = ACTIVE \<and> in_heap t = Regular" using conjunct1 [OF ok] A(2) by simp
  moreover from this have "\<exists>A'. all_remove 1 A = Some A'" using ok by simp
  ultimately show ?thesis using A t by blast
qed

end
