(* ===== verification/Vlq.thy ===== *)
theory Vlq
  imports Bun_Prelude
begin

text \<open>
  The module \<^verbatim>\<open>vlq\<close> of \<^verbatim>\<open>src/base64/lib.rs\<close>: the variable-length quantities of source maps, an \<^verbatim>\<open>i32\<close> as
  one to seven base64 digits of five bits each, least significant first, with the sign in the lowest
  bit. An \<^verbatim>\<open>i32\<close> is an integer in range; the bits are packed in a \<^verbatim>\<open>u32\<close>, a word. \<open>None\<close> is a panic:
  a slice out of range, or a failed \<^verbatim>\<open>debug_assert!\<close>.
\<close>

section \<open>Signed machine integers\<close>

definition is_i32 :: "int \<Rightarrow> bool" where
  "is_i32 x \<longleftrightarrow> - (2 ^ 31) \<le> x \<and> x < 2 ^ 31"

definition I32_MIN :: int where
  "I32_MIN = - (2 ^ 31)"

text \<open>\<^verbatim>\<open>value as u32\<close>, for a value that is not negative, and \<^verbatim>\<open>u32 as i32\<close>\<close>

definition i32_of_u32 :: "u32 \<Rightarrow> int" where
  "i32_of_u32 w = sint w"

section \<open>Encoding\<close>

definition BASE64 :: bytes where
  "BASE64 = ''ABCDEFGHIJKLMNOPQRSTUVWXYZabcdefghijklmnopqrstuvwxyz0123456789+/''"

definition VLQ_MAX_IN_BYTES :: nat where
  "VLQ_MAX_IN_BYTES = 7"

record VLQ =
  vlq_bytes :: bytes
  vlq_len :: nat

definition vlq_slice :: "VLQ \<Rightarrow> bytes" where
  "vlq_slice v = take (vlq_len v) (vlq_bytes v)"

function encode_loop :: "nat \<Rightarrow> u32 \<Rightarrow> bytes \<Rightarrow> nat \<Rightarrow> VLQ" where
  "encode_loop iter vlq bs len =
     (if iter < VLQ_MAX_IN_BYTES then
        let digit = vlq AND 31;
            vlq = drop_bit 5 vlq;
            digit = (if vlq \<noteq> 0 then digit OR 32 else digit);
            bs = bs[len := BASE64 ! unat digit];
            len = len + 1
        in if vlq = 0 then \<lparr>vlq_bytes = bs, vlq_len = len\<rparr> else encode_loop (iter + 1) vlq bs len
      else \<lparr>vlq_bytes = bs, vlq_len = 0\<rparr>)"
  by pat_completeness auto
termination by (relation "measure (\<lambda>(iter, _). VLQ_MAX_IN_BYTES - iter)") auto

declare encode_loop.simps [simp del]

definition encode_slow_path :: "int \<Rightarrow> VLQ" where
  "encode_slow_path value =
     encode_loop 0
       (if 0 \<le> value then push_bit 1 (word_of_int value) else push_bit 1 (word_of_int \<bar>value\<bar>) OR 1)
       (replicate VLQ_MAX_IN_BYTES (CHR 0x00)) 0"

definition VLQ_LOOKUP_TABLE :: "VLQ list" where
  "VLQ_LOOKUP_TABLE = map (\<lambda>i. encode_slow_path (int i)) [0..<256]"

definition vlq_encode :: "int \<Rightarrow> VLQ" where
  "vlq_encode value =
     (if 0 \<le> value \<and> value \<le> 255 then VLQ_LOOKUP_TABLE ! nat value else encode_slow_path value)"

section \<open>Decoding\<close>

record VLQResult =
  vlq_value :: int
  vlq_start :: nat

definition U7_MAX :: nat where
  "U7_MAX = 127"

definition BASE64_LUT :: "nat list" where
  "BASE64_LUT = fold (\<lambda>i bs. bs[of_char (BASE64 ! i) := i]) [0..<length BASE64] (replicate (U7_MAX + 1) U7_MAX)"

fun decode_loop :: "bool \<Rightarrow> nat \<Rightarrow> nat \<Rightarrow> bytes \<Rightarrow> u32 \<Rightarrow> nat \<Rightarrow> VLQResult option" where
  "decode_loop assert_valid start i [] vlq shift = Some \<lparr>vlq_value = 0, vlq_start = start\<rparr>"
| "decode_loop assert_valid start i (c # encoded) vlq shift =
     (if assert_valid \<and> \<not> of_char c < U7_MAX then None
      else let index = BASE64_LUT ! (of_char c mod 128) in
        if assert_valid \<and> index = U7_MAX then None
        else
          let index = (word_of_nat index :: u32);
              vlq = vlq OR push_bit (shift mod 32) (index AND 31)
          in if index AND 32 = 0
             then Some \<lparr>vlq_value = (if vlq AND 1 = 0 then i32_of_u32 (drop_bit 1 vlq) else - i32_of_u32 (drop_bit 1 vlq)),
                    vlq_start = start + i + 1\<rparr>
             else decode_loop assert_valid start (i + 1) encoded vlq (shift + 5))"

definition decode_impl :: "bool \<Rightarrow> bytes \<Rightarrow> nat \<Rightarrow> VLQResult option" where
  "decode_impl assert_valid encoded start =
     (if length encoded < start then None
      else decode_loop assert_valid start 0 (take (VLQ_MAX_IN_BYTES + 1) (drop start encoded)) 0 0)"

definition decode_vlq :: "bytes \<Rightarrow> nat \<Rightarrow> VLQResult option" where
  "decode_vlq = decode_impl False"

definition decode_vlq_assume_valid :: "bytes \<Rightarrow> nat \<Rightarrow> VLQResult option" where
  "decode_vlq_assume_valid = decode_impl True"

section \<open>The text of a number\<close>

text \<open>The specification: the digits of the sign-magnitude number, least significant first.\<close>

fun vlq_digits :: "nat \<Rightarrow> nat list" where
  "vlq_digits n = (if n < 32 then [n] else (n mod 32 + 32) # vlq_digits (n div 32))"

declare vlq_digits.simps [simp del]

definition vlq_text :: "nat \<Rightarrow> bytes" where
  "vlq_text n = map (\<lambda>d. BASE64 ! d) (vlq_digits n)"

definition sign_magnitude :: "int \<Rightarrow> nat" where
  "sign_magnitude v = (if 0 \<le> v then nat (2 * v) else nat (- 2 * v) + 1)"

lemma digits_bound: "d \<in> set (vlq_digits n) \<Longrightarrow> d < 64"
proof (induction n rule: vlq_digits.induct)
  case (1 n)
  then show ?case by (cases "n < 32") (auto simp: vlq_digits.simps [of n])
qed

lemma length_digits: "n < 32 ^ k \<Longrightarrow> 0 < k \<Longrightarrow> 0 < length (vlq_digits n) \<and> length (vlq_digits n) \<le> k"
proof (induction k arbitrary: n)
  case (Suc k)
  show ?case
  proof (cases "n < 32")
    case True
    then show ?thesis by (simp add: vlq_digits.simps)
  next
    case False
    then have "n div 32 < 32 ^ k" "0 < k" using Suc.prems by (auto simp: less_mult_imp_div_less) (cases k; simp)
    then have "length (vlq_digits (n div 32)) \<le> k" using Suc.IH by simp
    then show ?thesis using False by (subst (1 2) vlq_digits.simps) simp
  qed
qed simp

lemma length_vlq_text: "n < 2 ^ 32 \<Longrightarrow> 0 < length (vlq_text n) \<and> length (vlq_text n) \<le> 7"
  using length_digits [of n 7] by (simp add: vlq_text_def)

lemma unat_digit: "unat ((w :: u32) AND 31) = unat w mod 32"
proof -
  have "w AND 31 = take_bit 5 w" by (simp add: take_bit_eq_mask mask_numeral)
  then show ?thesis by (simp add: take_bit_eq_mod unat_mod)
qed

lemma or_shift_nat: "m < 2 ^ j \<Longrightarrow> m OR push_bit j d = m + d * 2 ^ j" for m d :: nat
proof -
  assume m: "m < 2 ^ j"
  have "\<not> bit m n" if "j \<le> n" for n
    using m that by (metis bit_take_bit_iff not_less take_bit_nat_eq_self)
  then have "m AND push_bit j d = 0" by (auto simp: bit_eq_iff bit_simps)
  then show ?thesis by (simp add: push_bit_eq_mult flip: disjunctive_add_eq_or)
qed

lemma or_shift: "m < 2 ^ j \<Longrightarrow> (word_of_nat m :: u32) OR push_bit j (word_of_nat d) = word_of_nat (m + d * 2 ^ j)"
  by (simp add: push_bit_of_nat or_shift_nat flip: of_nat_or_eq)

lemma unat_or_32: "m < 32 \<Longrightarrow> unat ((word_of_nat m :: u32) OR 32) = m + 32"
  using or_shift [of m 5 1] by (simp add: push_bit_eq_mult unat_word_ariths unat_of_nat)

section \<open>Encoding writes the text\<close>

lemma encode_loop_text:
  assumes "unat w < 32 ^ (VLQ_MAX_IN_BYTES - iter)" "iter < VLQ_MAX_IN_BYTES" "length bs = VLQ_MAX_IN_BYTES"
  shows "let v = encode_loop iter w bs iter in
    vlq_slice v = take iter bs @ vlq_text (unat w) \<and> vlq_len v = iter + length (vlq_text (unat w))
      \<and> length (vlq_bytes v) = VLQ_MAX_IN_BYTES"
  using assms
proof (induction "VLQ_MAX_IN_BYTES - iter" arbitrary: iter w bs)
  case (Suc n)
  let ?d = "unat w mod 32" and ?q = "drop_bit 5 w"
  have q: "unat ?q = unat w div 32" by (simp add: drop_bit_eq_div unat_div)
  then have q0: "?q = 0 \<longleftrightarrow> unat w < 32" by (metis div_eq_0_iff unat_eq_zero zero_neq_numeral)
  have d: "unat (w AND 31) = ?d" by (rule unat_digit)
  have d32: "unat ((w AND 31) OR 32) = ?d + 32"
    using unat_or_32 [of "unat (w AND 31)"] unfolding of_nat_unat by (simp add: d)
  show ?case
  proof (cases "?q = 0")
    case True
    then show ?thesis
      using Suc.prems q0 d
      by (simp add: encode_loop.simps [of iter] Let_def vlq_slice_def vlq_text_def vlq_digits.simps [of "unat w"]
          take_Suc_conv_app_nth)
  next
    case False
    let ?bs = "bs[iter := BASE64 ! (?d + 32)]"
    have "32 ^ (VLQ_MAX_IN_BYTES - iter) = 32 * (32 :: nat) ^ (VLQ_MAX_IN_BYTES - Suc iter)"
      using Suc.prems(2) by (simp add: Suc_diff_Suc flip: power_Suc)
    then have lt: "unat ?q < 32 ^ (VLQ_MAX_IN_BYTES - Suc iter)"
      using Suc.prems(1) q by (simp add: less_mult_imp_div_less mult.commute)
    have "\<not> unat w < 32" using False q0 by simp
    then have it: "Suc iter < VLQ_MAX_IN_BYTES" using Suc.prems(1,2) by (cases "VLQ_MAX_IN_BYTES - iter = 1") auto
    have "let v = encode_loop (Suc iter) ?q ?bs (Suc iter) in
       vlq_slice v = take (Suc iter) ?bs @ vlq_text (unat ?q) \<and> vlq_len v = Suc iter + length (vlq_text (unat ?q))
       \<and> length (vlq_bytes v) = VLQ_MAX_IN_BYTES"
      using Suc.hyps Suc.prems lt it by (intro Suc.hyps(1)) auto
    moreover have "vlq_text (unat w) = BASE64 ! (?d + 32) # vlq_text (unat ?q)"
      using False q0 q by (simp add: vlq_text_def vlq_digits.simps [of "unat w"])
    moreover have "encode_loop iter w bs iter = encode_loop (Suc iter) ?q ?bs (Suc iter)"
      using False Suc.prems(2) d32 by (simp add: encode_loop.simps [of iter] Let_def)
    ultimately show ?thesis using Suc.prems(2,3) by (simp add: Let_def take_Suc_conv_app_nth)
  qed
qed simp

text \<open>The \<^verbatim>\<open>u32\<close> that is written digit by digit. \<^verbatim>\<open>i32::MIN\<close> has no magnitude and wraps to minus zero.\<close>

lemma sign_magnitude_bound: "is_i32 v \<Longrightarrow> v \<noteq> I32_MIN \<Longrightarrow> sign_magnitude v < 2 ^ 32"
  by (auto simp: is_i32_def I32_MIN_def sign_magnitude_def)

lemma encode_slow_path_text:
  assumes "is_i32 v" "v \<noteq> I32_MIN"
  shows "vlq_slice (encode_slow_path v) = vlq_text (sign_magnitude v)
    \<and> vlq_len (encode_slow_path v) = length (vlq_text (sign_magnitude v))"
proof -
  let ?w = "if 0 \<le> v then push_bit 1 (word_of_int v) else push_bit 1 (word_of_int \<bar>v\<bar>) OR 1 :: u32"
  have "?w = word_of_nat (sign_magnitude v)"
  proof (cases "0 \<le> v")
    case True
    then have "sign_magnitude v = nat v * 2 ^ 1" by (simp add: sign_magnitude_def nat_mult_distrib)
    then show ?thesis
      using True or_shift [of 0 1 "nat v"] by simp
  next
    case False
    then have "sign_magnitude v = 1 + nat \<bar>v\<bar> * 2 ^ 1" by (simp add: sign_magnitude_def)
    then show ?thesis
      using False or_shift [of 1 1 "nat \<bar>v\<bar>"] by (simp add: or.commute)
  qed
  moreover have "unat (word_of_nat (sign_magnitude v) :: u32) = sign_magnitude v"
    using sign_magnitude_bound [OF assms] by (simp add: unat_of_nat)
  ultimately have w: "unat ?w = sign_magnitude v" by simp
  have "unat ?w < 32 ^ 7" using sign_magnitude_bound [OF assms] unfolding w by simp
  then show ?thesis
    using encode_loop_text [of ?w 0 "replicate 7 (CHR 0x00)"] unfolding w
    by (simp add: encode_slow_path_def VLQ_MAX_IN_BYTES_def Let_def)
qed

lemma vlq_encode_slow: "vlq_encode v = encode_slow_path v"
  by (auto simp: vlq_encode_def VLQ_LOOKUP_TABLE_def nth_map nat_less_iff)


section \<open>Decoding reads it back\<close>

lemma length_BASE64: "length BASE64 = 64"
  by (simp add: BASE64_def)

lemma BASE64_codes:
  "distinct (map of_char BASE64 :: nat list)" "list_all (\<lambda>c. of_char c < (123 :: nat)) BASE64"
  by (simp_all add: BASE64_def)

lemma fold_update_table:
  assumes "inj_on f {..<n}" "\<forall>i<n. f i < length xs" "d < n"
  shows "fold (\<lambda>i bs. bs[f i := i]) [0..<n] xs ! f d = d"
proof -
  have len: "length (fold (\<lambda>i bs. bs[f i := i]) is xs) = length xs" for "is"
    by (induction "is" arbitrary: xs) auto
  show ?thesis
    using assms
  proof (induction n)
    case (Suc n)
    show ?case
    proof (cases "d = n")
      case True
      then show ?thesis using Suc.prems len by simp
    next
      case False
      then have "f n \<noteq> f d" using Suc.prems by (auto simp: inj_on_def)
      moreover have "fold (\<lambda>i bs. bs[f i := i]) [0..<n] xs ! f d = d"
        using Suc False by (auto simp: inj_on_def)
      ultimately show ?thesis by simp
    qed
  qed simp
qed

lemma BASE64_LUT_inverse:
  assumes "d < 64"
  shows "of_char (BASE64 ! d) < (123 :: nat) \<and> BASE64_LUT ! of_char (BASE64 ! d) = d"
proof -
  have code: "\<forall>i<64. of_char (BASE64 ! i) < (123 :: nat)"
    using BASE64_codes(2) by (simp add: list_all_length length_BASE64)
  have "inj_on (\<lambda>i. of_char (BASE64 ! i) :: nat) {..<64}"
    using BASE64_codes(1) unfolding inj_on_def distinct_conv_nth by (metis length_BASE64 length_map lessThan_iff nth_map)
  then have "BASE64_LUT ! of_char (BASE64 ! d) = d"
    using fold_update_table [of "\<lambda>i. of_char (BASE64 ! i)" 64 "replicate 128 127" d] code assms
    by (force simp: BASE64_LUT_def length_BASE64 U7_MAX_def)
  then show ?thesis using code assms by simp
qed

lemma digit_and_31: "(word_of_nat d :: u32) AND 31 = word_of_nat (d mod 32)"
  by (simp add: word_unat_eq_iff unat_digit unat_of_nat mod_mod_cancel)

lemma digit_and_32: "d < 64 \<Longrightarrow> (word_of_nat d :: u32) AND 32 = 0 \<longleftrightarrow> d < 32"
proof -
  assume d: "d < 64"
  have "(word_of_nat d :: u32) AND 32 = 0 \<longleftrightarrow> \<not> bit (word_of_nat d :: u32) 5"
    using and_exp_eq_0_iff_not_bit [of "word_of_nat d :: u32" 5] by simp
  also have "\<dots> \<longleftrightarrow> even (d div 32)" unfolding bit_of_nat_iff by (simp add: bit_iff_odd possible_bit_word)
  also have "\<dots> \<longleftrightarrow> d < 32" using d div_nat_eqI [of 32 1 d] by (cases "d < 32") auto
  finally show ?thesis .
qed

text \<open>What a number of sign and magnitude denotes.\<close>

definition signed_value :: "u32 \<Rightarrow> int" where
  "signed_value w = (if w AND 1 = 0 then i32_of_u32 (drop_bit 1 w) else - i32_of_u32 (drop_bit 1 w))"

lemma decode_loop_digit:
  assumes "d < 64" "m < 2 ^ (5 * k)" "k < 7"
  shows "decode_loop av start k (BASE64 ! d # es) (word_of_nat m) (5 * k) =
    (let w = word_of_nat (m + d mod 32 * 2 ^ (5 * k)) in
     if d < 32 then Some \<lparr>vlq_value = signed_value w, vlq_start = start + k + 1\<rparr>
     else decode_loop av start (k + 1) es w (5 * (k + 1)))"
proof -
  have "BASE64_LUT ! (of_char (BASE64 ! d) mod 128) = d" "of_char (BASE64 ! d) < U7_MAX" "d \<noteq> U7_MAX"
    using BASE64_LUT_inverse [OF assms(1)] assms(1) by (auto simp: U7_MAX_def)
  moreover have "5 * k mod 32 = 5 * k" "5 * (k + 1) = 5 * k + 5" using assms(3) by simp_all
  ultimately show ?thesis
    by (simp only: decode_loop.simps Let_def digit_and_31 digit_and_32 [OF assms(1)] or_shift [OF assms(2)]
        signed_value_def simp_thms if_False)
qed

lemma decode_loop_text:
  assumes "m < 2 ^ (5 * k)" "m + n * 2 ^ (5 * k) < 2 ^ 32" "k < 7"
  shows "decode_loop av start k (vlq_text n @ rest) (word_of_nat m) (5 * k) =
     Some \<lparr>vlq_value = signed_value (word_of_nat (m + n * 2 ^ (5 * k))), vlq_start = start + k + length (vlq_text n)\<rparr>"
  using assms
proof (induction n arbitrary: m k rule: vlq_digits.induct)
  case (1 n)
  show ?case
  proof (cases "n < 32")
    case True
    then show ?thesis
      using decode_loop_digit [OF _ 1(2,4), of n av start rest] by (simp add: vlq_text_def vlq_digits.simps [of n])
  next
    case False
    let ?m = "m + n mod 32 * 2 ^ (5 * k)"
    have "n = n mod 32 + n div 32 * 32" by simp
    then have "n * 2 ^ (5 * k) = n mod 32 * 2 ^ (5 * k) + n div 32 * 32 * 2 ^ (5 * k)"
      by (metis add_mult_distrib)
    then have total: "?m + n div 32 * 2 ^ (5 * (k + 1)) = m + n * 2 ^ (5 * k)" by (simp add: power_add)
    have "n mod 32 * 2 ^ (5 * k) \<le> 31 * 2 ^ (5 * k)" by (rule mult_right_mono) simp_all
    moreover have "(2 :: nat) ^ (5 * (k + 1)) = 32 * 2 ^ (5 * k)" by (simp add: power_add)
    ultimately have m: "?m < 2 ^ (5 * (k + 1))" using 1(2) by linarith
    have "k \<noteq> 6" using 1(3) False by auto
    then have k: "k + 1 < 7" using 1(4) by simp
    have txt_n: "vlq_text n = BASE64 ! (n mod 32 + 32) # vlq_text (n div 32)"
      using False by (simp add: vlq_text_def vlq_digits.simps [of n])
    show ?thesis
      using 1(1) [OF False m _ k] 1(3) False decode_loop_digit [OF _ 1(2,4), of "n mod 32 + 32" av start "vlq_text (n div 32) @ rest"]
      unfolding txt_n total by (simp add: Let_def)
  qed
qed

lemma signed_value_sign_magnitude:
  assumes "is_i32 v" "v \<noteq> I32_MIN"
  shows "signed_value (word_of_nat (sign_magnitude v)) = v"
proof -
  let ?w = "word_of_nat (sign_magnitude v) :: u32"
  have w: "unat ?w = sign_magnitude v" using sign_magnitude_bound [OF assms] by (simp add: unat_of_nat)
  have "unat (drop_bit 1 ?w) = nat \<bar>v\<bar>"
    using w by (simp add: drop_bit_eq_div unat_div) (auto simp: sign_magnitude_def)
  then have mag: "uint (drop_bit 1 ?w) = \<bar>v\<bar>" by (metis abs_ge_zero int_nat_eq uint_nat)
  moreover have "\<bar>v\<bar> < 2 ^ 31" using assms by (auto simp: is_i32_def I32_MIN_def)
  ultimately have "sint (drop_bit 1 ?w) = \<bar>v\<bar>" by (simp add: signed_take_bit_int_eq_self sint_uint)
  moreover have "?w AND 1 = 0 \<longleftrightarrow> 0 \<le> v"
    using and_exp_eq_0_iff_not_bit [of ?w 0] unfolding bit_of_nat_iff
    by (auto simp: bit_0 sign_magnitude_def even_nat_iff)
  ultimately show ?thesis by (simp add: signed_value_def i32_of_u32_def)
qed


lemma decode_impl_text:
  assumes "n < 2 ^ 32"
  shows "decode_impl av (pre @ vlq_text n @ rest) (length pre) =
    Some \<lparr>vlq_value = signed_value (word_of_nat n), vlq_start = length pre + length (vlq_text n)\<rparr>"
proof -
  have "take (VLQ_MAX_IN_BYTES + 1) (vlq_text n @ rest) = vlq_text n @ take (VLQ_MAX_IN_BYTES + 1 - length (vlq_text n)) rest"
    using length_vlq_text [OF assms] by (simp add: VLQ_MAX_IN_BYTES_def)
  then show ?thesis
    using decode_loop_text [of 0 0 n av "length pre"] assms by (simp add: decode_impl_def)
qed

text \<open>The encoded form of an integer, and how both decoders read it wherever it stands.\<close>

lemma vlq_encode_text:
  "is_i32 v \<Longrightarrow> v \<noteq> I32_MIN \<Longrightarrow> vlq_slice (vlq_encode v) = vlq_text (sign_magnitude v)"
  by (simp add: vlq_encode_slow encode_slow_path_text)

lemma length_vlq_slice:
  assumes "is_i32 v" "v \<noteq> I32_MIN"
  shows "0 < length (vlq_slice (vlq_encode v)) \<and> length (vlq_slice (vlq_encode v)) \<le> 7"
  using length_vlq_text [OF sign_magnitude_bound [OF assms]] by (simp add: vlq_encode_text assms)

lemma decode_encode:
  assumes "is_i32 v" "v \<noteq> I32_MIN"
  shows "decode_impl av (pre @ vlq_slice (vlq_encode v) @ rest) (length pre) =
    Some \<lparr>vlq_value = v, vlq_start = length pre + length (vlq_slice (vlq_encode v))\<rparr>"
  using decode_impl_text [OF sign_magnitude_bound [OF assms]] assms
  by (simp add: vlq_encode_text signed_value_sign_magnitude)

text \<open>
  C21. Every \<^verbatim>\<open>i32\<close> but the least is encoded in one to seven base64 digits, and wherever they stand in a text
  both decoders read the value back and stop right behind them. \<^verbatim>\<open>i32::MIN\<close>, which has no magnitude,
  is written as minus zero. The table of small values agrees with the loop.
\<close>

theorem vlq_roundtrip:
  "(is_i32 v \<and> v \<noteq> I32_MIN \<longrightarrow>
     decode_vlq (pre @ vlq_slice (vlq_encode v) @ rest) (length pre) =
       Some \<lparr>vlq_value = v, vlq_start = length pre + vlq_len (vlq_encode v)\<rparr> \<and>
     decode_vlq_assume_valid (pre @ vlq_slice (vlq_encode v) @ rest) (length pre) =
       decode_vlq (pre @ vlq_slice (vlq_encode v) @ rest) (length pre) \<and>
     0 < vlq_len (vlq_encode v) \<and> vlq_len (vlq_encode v) \<le> VLQ_MAX_IN_BYTES) \<and>
   vlq_slice (vlq_encode I32_MIN) = ''B'' \<and> vlq_encode v = encode_slow_path v"
proof (intro conjI impI)
  assume v: "is_i32 v \<and> v \<noteq> I32_MIN"
  then have len: "vlq_len (vlq_encode v) = length (vlq_slice (vlq_encode v))"
    using encode_slow_path_text [of v] by (simp add: vlq_encode_slow)
  then show "0 < vlq_len (vlq_encode v)" "vlq_len (vlq_encode v) \<le> VLQ_MAX_IN_BYTES"
    using length_vlq_slice [of v] v by (simp_all add: VLQ_MAX_IN_BYTES_def)
  show "decode_vlq (pre @ vlq_slice (vlq_encode v) @ rest) (length pre) =
       Some \<lparr>vlq_value = v, vlq_start = length pre + vlq_len (vlq_encode v)\<rparr>"
    "decode_vlq_assume_valid (pre @ vlq_slice (vlq_encode v) @ rest) (length pre) =
       decode_vlq (pre @ vlq_slice (vlq_encode v) @ rest) (length pre)"
    using decode_encode [of v] v len by (simp_all add: decode_vlq_def decode_vlq_assume_valid_def)
next
  show "vlq_slice (vlq_encode I32_MIN) = ''B''"
    by (simp add: vlq_encode_slow encode_slow_path_def I32_MIN_def encode_loop.simps VLQ_MAX_IN_BYTES_def
        vlq_slice_def BASE64_def) (simp add: numeral_eq_Suc)
qed (rule vlq_encode_slow)

theorem vlq_roundtrip_witness:
  "decode_vlq (''AA'' @ vlq_slice (vlq_encode (- 123456)) @ '',A'') 2 =
     Some \<lparr>vlq_value = - 123456, vlq_start = 2 + vlq_len (vlq_encode (- 123456))\<rparr>"
  using conjunct1 [OF vlq_roundtrip [of "- 123456" "''AA''" "'',A''"]]
  by (simp add: is_i32_def I32_MIN_def numeral_2_eq_2)

end
