(* ===== verification/MultiArraySort.thy ===== *)
theory MultiArraySort
  imports Bun_Prelude "HOL-Library.Multiset"
begin

text \<open>
  The sorts of \<^verbatim>\<open>MultiArrayList\<close> (\<^verbatim>\<open>src/collections/multi_array_list.rs\<close>). The rows are only compared and
  swapped by their positions: \<open>row_lt rows i j\<close> is the context's \<^verbatim>\<open>less_than(i, j)\<close> on the rows as they are at
  that moment. The locale \<open>sort_context\<close> states what a context has to promise.
\<close>

section \<open>Operations\<close>

type_synonym 'a row_less = "'a list \<Rightarrow> nat \<Rightarrow> nat \<Rightarrow> bool"

definition swap_rows :: "nat \<Rightarrow> nat \<Rightarrow> 'a list \<Rightarrow> 'a list" where
  "swap_rows a b rows = rows[a := rows ! b, b := rows ! a]"

fun sink :: "'a row_less \<Rightarrow> nat \<Rightarrow> nat \<Rightarrow> 'a list \<Rightarrow> 'a list" where
  "sink row_lt a 0 rows = rows"
| "sink row_lt a (Suc j) rows =
     (if Suc j > a \<and> row_lt rows (Suc j) j then sink row_lt a j (swap_rows (Suc j) j rows) else rows)"

function sort_rows_from :: "'a row_less \<Rightarrow> nat \<Rightarrow> nat \<Rightarrow> nat \<Rightarrow> 'a list \<Rightarrow> 'a list" where
  "sort_rows_from row_lt a b i rows = (if i < b then sort_rows_from row_lt a b (i + 1) (sink row_lt a i rows) else rows)"
  by pat_completeness auto
termination by (relation "measure (\<lambda>(_, _, b, i, _). b - i)") auto

declare sort_rows_from.simps [simp del]

definition sort_context_rows :: "'a row_less \<Rightarrow> nat \<Rightarrow> nat \<Rightarrow> 'a list \<Rightarrow> 'a list" where
  "sort_context_rows row_lt a b rows = (if a \<ge> b then rows else sort_rows_from row_lt a b (a + 1) rows)"

definition sort_rows :: "'a row_less \<Rightarrow> 'a list \<Rightarrow> 'a list" where
  "sort_rows row_lt rows = sort_context_rows row_lt 0 (length rows) rows"

section \<open>Contexts that compare by a key\<close>

text \<open>A context compares neighbours by a key of their rows, and a row never precedes an equal one before it.\<close>

locale sort_context =
  fixes row_lt :: "'a row_less" and key :: "'a \<Rightarrow> 'k::linorder"
  assumes less_neighbour: "Suc j < length rows \<Longrightarrow> row_lt rows (Suc j) j \<longleftrightarrow> key (rows ! Suc j) < key (rows ! j)"
begin

text \<open>Insertion from the right: \<open>x\<close> moves left past the rows with greater keys.\<close>

fun place :: "'a \<Rightarrow> 'a list \<Rightarrow> 'a list" where
  "place x [] = [x]"
| "place x (y # ys) = (if key x < key y then y # place x ys else x # y # ys)"

lemma swap_neighbours: "swap_rows (Suc (length ys)) (length ys) (ys @ y # x # zs) = ys @ x # y # zs"
  by (simp add: swap_rows_def nth_append list_update_append)

lemma sink_place: "sink row_lt 0 (length ys) (ys @ x # zs) = rev (place x (rev ys)) @ zs"
proof (induction ys arbitrary: zs rule: rev_induct)
  case (snoc y ys)
  have "row_lt (ys @ y # x # zs) (Suc (length ys)) (length ys) \<longleftrightarrow> key x < key y"
    using less_neighbour [of "length ys" "ys @ y # x # zs"] by (simp add: nth_append)
  then show ?case using snoc [of "y # zs"] by (simp add: swap_neighbours)
qed simp

lemma mset_place: "mset (place x ys) = add_mset x (mset ys)"
  by (induction ys) auto

lemma sorted_place: "sorted (rev (map key ys)) \<Longrightarrow> sorted (rev (map key (place x ys)))"
proof -
  have "set (place x ys) = insert x (set ys)" for ys by (metis mset_place set_mset_add_mset_insert set_mset_mset)
  then show "sorted (rev (map key ys)) \<Longrightarrow> sorted (rev (map key (place x ys)))"
    by (induction ys) (auto simp: sorted_append)
qed

lemma filter_place:
  assumes "sorted (rev (map key ys))"
  shows "filter (\<lambda>r. k = key r) (rev (place x ys)) = filter (\<lambda>r. k = key r) (rev ys @ [x])"
  using assms by (induction ys) (auto simp: sorted_append)

text \<open>The sort is stable: it computes the library's stable sort by the key.\<close>

lemma sort_rows_from_sort_key:
  assumes "i \<le> length rows" "0 < i" "take i rows = sort_key key (take i rows0)" "drop i rows = drop i rows0"
  shows "sort_rows_from row_lt 0 (length rows) i rows = sort_key key rows0"
  using assms
proof (induction "length rows - i" arbitrary: i rows)
  case 0
  then have "i = length rows" by simp
  then show ?case using 0 by (simp add: sort_rows_from.simps)
next
  case (Suc n)
  let ?ys = "take i rows" and ?x = "rows ! i" and ?zs = "drop (Suc i) rows"
  have i: "i < length rows" using Suc.hyps(2) by simp
  have rows: "rows = ?ys @ ?x # ?zs" using i by (simp add: id_take_nth_drop)
  let ?r = "rev (place ?x (rev ?ys)) @ ?zs"
  have sink: "sink row_lt 0 i rows = ?r" using sink_place [of ?ys ?x ?zs] rows i by simp
  have len: "length (place ?x (rev ?ys)) = Suc i"
    using i arg_cong [OF mset_place [of ?x "rev ?ys"], of size] by simp
  have len0: "length rows = length rows0"
  proof -
    have "length (take i rows) = length (take i rows0)" unfolding Suc.prems(3) by simp
    moreover have "length (drop i rows) = length (drop i rows0)" unfolding Suc.prems(4) by simp
    ultimately show ?thesis using i by simp
  qed
  then have i0: "i < length rows0" "?x = rows0 ! i" "?zs = drop (Suc i) rows0"
    using i Suc.prems(4) Cons_nth_drop_Suc [of i rows] Cons_nth_drop_Suc [of i rows0] by (metis list.inject)+
  have "sort_key key (take (Suc i) rows0) = rev (place ?x (rev ?ys))"
  proof (rule properties_for_sort_key)
    show "mset (rev (place ?x (rev ?ys))) = mset (take (Suc i) rows0)"
      using i0 by (simp add: mset_place Suc.prems(3) take_Suc_conv_app_nth)
    have s: "sorted (rev (map key (rev ?ys)))" by (simp add: rev_map Suc.prems(3))
    then show "sorted (map key (rev (place ?x (rev ?ys))))" using sorted_place [OF s] by (simp add: rev_map)
    fix k
    show "filter (\<lambda>r. key k = key r) (rev (place ?x (rev ?ys))) = filter (\<lambda>r. key k = key r) (take (Suc i) rows0)"
      using filter_place [OF s, of "key k" ?x] i0 sort_key_stable [of key "key k" "take i rows0"]
      by (simp add: Suc.prems(3) take_Suc_conv_app_nth eq_commute [of "key k"])
  qed
  moreover have lenr: "length ?r = length rows" using len i by simp
  ultimately have "sort_rows_from row_lt 0 (length ?r) (Suc i) ?r = sort_key key rows0"
    using Suc.hyps(2) len len0 i i0 by (intro Suc.hyps(1)) auto
  then show ?case unfolding lenr using sink i by (subst sort_rows_from.simps) simp
qed

lemma sort_rows_sort_key: "sort_rows row_lt rows = sort_key key rows"
proof (cases rows)
  case (Cons r rs)
  then show ?thesis
    using sort_rows_from_sort_key [of 1 rows rows] by (simp add: sort_rows_def sort_context_rows_def)
qed (simp add: sort_rows_def sort_context_rows_def)

end

end
