(* ===== verification/SourceMapping.thy ===== *)
theory SourceMapping
  imports Vlq MultiArraySort "HOL-Library.Product_Lexorder"
begin

text \<open>
  \<^verbatim>\<open>src/sourcemap/Mapping.rs\<close>: the list of mappings of a source map, its parser and its lookups. Lines and
  columns are \<^verbatim>\<open>Ordinal\<close>s, that is \<^verbatim>\<open>i32\<close>s, here integers; the parser's \<^verbatim>\<open>wrapping_add\<close> is \<open>wrap_i32\<close>. The
  parser is the scalar loop, which decides every input below 128 bytes, the rest of a longer input that
  the vector kernel leaves, and all inputs when that kernel is switched off. Running out of memory is
  not modelled; \<open>Panic\<close> is a failed \<^verbatim>\<open>debug_assert!\<close>, an overflow or an index out of range.
\<close>

section \<open>Positions and mappings\<close>

definition wrap_i32 :: "int \<Rightarrow> int" where
  "wrap_i32 x = (x + 2 ^ 31) mod 2 ^ 32 - 2 ^ 31"

lemma wrap_i32_id [simp]: "is_i32 x \<Longrightarrow> wrap_i32 x = x"
  by (simp add: wrap_i32_def is_i32_def)

lemma wrap_i32_range: "is_i32 (wrap_i32 x)"
  by (simp add: wrap_i32_def is_i32_def pos_mod_bound [of "2 ^ 32" "x + 2 ^ 31", simplified])

type_synonym Ordinal = int

text \<open>\<^verbatim>\<open>from_zero_based\<close> asserts that the result is not negative.\<close>

definition add_scalar :: "Ordinal \<Rightarrow> int \<Rightarrow> Ordinal option" where
  "add_scalar x inc = (if 0 \<le> x + inc \<and> x + inc < 2 ^ 31 then Some (x + inc) else None)"

record LineColumnOffset =
  lines :: Ordinal
  columns :: Ordinal

definition START :: LineColumnOffset where
  "START = \<lparr>lines = 0, columns = 0\<rparr>"

record MappingWithoutName =
  generated :: LineColumnOffset
  original :: LineColumnOffset
  source_index :: int

record Mapping = MappingWithoutName +
  name_index :: int

definition to_named :: "MappingWithoutName \<Rightarrow> Mapping" where
  "to_named m = \<lparr>generated = generated m, original = original m, source_index = source_index m, name_index = - 1\<rparr>"

datatype ListValue =
    WithoutNames "MappingWithoutName list"
  | WithNames "Mapping list"

fun ensure_with_names :: "ListValue \<Rightarrow> ListValue" where
  "ensure_with_names (WithNames ms) = WithNames ms"
| "ensure_with_names (WithoutNames ms) = WithNames (map to_named ms)"

fun list_append :: "Mapping \<Rightarrow> ListValue \<Rightarrow> ListValue" where
  "list_append m (WithoutNames ms) =
     WithoutNames (ms @ [\<lparr>generated = generated m, original = original m, source_index = source_index m\<rparr>])"
| "list_append m (WithNames ms) = WithNames (ms @ [m])"

fun list_len :: "ListValue \<Rightarrow> nat" where
  "list_len (WithoutNames ms) = length ms"
| "list_len (WithNames ms) = length ms"

fun list_generated :: "ListValue \<Rightarrow> LineColumnOffset list" where
  "list_generated (WithoutNames ms) = map generated ms"
| "list_generated (WithNames ms) = map generated ms"

text \<open>The rows as \<^verbatim>\<open>find\<close> returns them\<close>

fun named :: "ListValue \<Rightarrow> Mapping list" where
  "named (WithoutNames ms) = map to_named ms"
| "named (WithNames ms) = ms"

section \<open>Sorting\<close>

definition offset_less :: "LineColumnOffset list \<Rightarrow> nat \<Rightarrow> nat \<Rightarrow> bool" where
  "offset_less offs a_index b_index =
     (let a = offs ! a_index; b = offs ! b_index in
      if lines a \<noteq> lines b then lines a < lines b
      else if columns a \<noteq> columns b then columns a < columns b
      else a_index < b_index)"

fun list_sort :: "ListValue \<Rightarrow> ListValue" where
  "list_sort (WithoutNames ms) = WithoutNames (sort_rows (\<lambda>rows. offset_less (map generated rows)) ms)"
| "list_sort (WithNames ms) = WithNames (sort_rows (\<lambda>rows. offset_less (map generated rows)) ms)"

section \<open>Lookup\<close>

definition at_or_before :: "LineColumnOffset \<Rightarrow> int \<Rightarrow> int \<Rightarrow> bool" where
  "at_or_before mapping line column \<longleftrightarrow>
     lines mapping < line \<or> lines mapping = line \<and> columns mapping \<le> column"

function search_loop :: "LineColumnOffset list \<Rightarrow> int \<Rightarrow> int \<Rightarrow> nat \<Rightarrow> nat \<Rightarrow> nat option" where
  "search_loop offs line column cnt index =
     (if cnt > 0 then
        let step = cnt div 2; i = index + step in
        if length offs \<le> i then None
        else if at_or_before (offs ! i) line column
        then search_loop offs line column (cnt - (step + 1)) (i + 1)
        else search_loop offs line column step index
      else Some index)"
  by pat_completeness auto
termination by (relation "measure (\<lambda>(_, _, _, cnt, _). cnt)") auto

declare search_loop.simps [simp del]

definition find_index_from_generated :: "LineColumnOffset list \<Rightarrow> int \<Rightarrow> int \<Rightarrow> nat option option" where
  "find_index_from_generated offs line column =
     (case search_loop offs line column (length offs) 0 of
        None \<Rightarrow> None
      | Some index \<Rightarrow> Some (if index > 0 \<and> lines (offs ! (index - 1)) = line then Some (index - 1) else None))"

definition find_closest_index :: "LineColumnOffset list \<Rightarrow> int \<Rightarrow> int \<Rightarrow> nat option option" where
  "find_closest_index offs line column =
     (case search_loop offs line column (length offs) 0 of
        None \<Rightarrow> None
      | Some index \<Rightarrow> Some (if index = 0 then None else Some (index - 1)))"

definition list_find :: "ListValue \<Rightarrow> int \<Rightarrow> int \<Rightarrow> Mapping option option" where
  "list_find l line column =
     map_option (map_option (\<lambda>i. named l ! i)) (find_index_from_generated (list_generated l) line column)"

definition list_find_closest :: "ListValue \<Rightarrow> int \<Rightarrow> int \<Rightarrow> Mapping option option" where
  "list_find_closest l line column =
     map_option (map_option (\<lambda>i. named l ! i)) (find_closest_index (list_generated l) line column)"

section \<open>Results of the parser\<close>

datatype sourcemap_error =
    MissingGeneratedColumnValue | InvalidGeneratedColumnValue
  | InvalidSourceIndexDelta | InvalidSourceIndexValue
  | MissingOriginalLine | InvalidOriginalLineValue
  | MissingOriginalColumnValue | InvalidOriginalColumnValue
  | InvalidNameIndexDelta

record ParseFail =
  loc :: int
  err :: sourcemap_error

datatype 'a outcome = Panic | Fail ParseFail | Done 'a

fun and_then :: "'a outcome \<Rightarrow> ('a \<Rightarrow> 'b outcome) \<Rightarrow> 'b outcome" where
  "and_then (Done x) f = f x"
| "and_then (Fail e) f = Fail e"
| "and_then Panic f = Panic"

lemma and_then_cong [fundef_cong]:
  "x = y \<Longrightarrow> (\<And>v. y = Done v \<Longrightarrow> f v = g v) \<Longrightarrow> and_then x f = and_then y g"
  by (cases y) auto

lemma and_then_Done: "and_then x f = Done y \<longleftrightarrow> (\<exists>v. x = Done v \<and> f v = Done y)"
  by (cases x) auto

fun or_panic :: "'a option \<Rightarrow> 'a outcome" where
  "or_panic None = Panic"
| "or_panic (Some x) = Done x"

lemma or_panic_Done: "or_panic x = Done y \<longleftrightarrow> x = Some y"
  by (cases x) auto

text \<open>The offset of the rest of the input, saturating at \<^verbatim>\<open>i32::MAX\<close>.\<close>

definition fail_at :: "sourcemap_error \<Rightarrow> nat \<Rightarrow> bytes \<Rightarrow> 'a outcome" where
  "fail_at e size_in remain =
     (let at = int (size_in - length remain) in Fail \<lparr>loc = (if at < 2 ^ 31 then at else 2 ^ 31 - 1), err = e\<rparr>)"

definition read_vlq :: "sourcemap_error \<Rightarrow> nat \<Rightarrow> bytes \<Rightarrow> (int \<times> bytes) outcome" where
  "read_vlq e size_in remain =
     and_then (or_panic (decode_vlq remain 0)) (\<lambda>r.
       if vlq_start r = 0 then fail_at e size_in remain
       else Done (vlq_value r, drop (vlq_start r) remain))"

section \<open>The parser\<close>

record ParseOptions =
  allow_names :: bool
  sort_option :: bool

record parse_state =
  p_generated :: LineColumnOffset
  p_original :: LineColumnOffset
  p_name_index :: int
  p_source_index :: int
  p_needs_sort :: bool
  p_has_names :: bool
  p_mapping :: ListValue

definition parse_init :: parse_state where
  "parse_init = \<lparr>p_generated = START, p_original = START, p_name_index = 0, p_source_index = 0,
     p_needs_sort = False, p_has_names = False, p_mapping = WithoutNames []\<rparr>"

definition HALF_USIZE :: nat where
  "HALF_USIZE = 4"

definition SEMICOLON_RUN :: bytes where
  "SEMICOLON_RUN = replicate HALF_USIZE (CHR '';'')"

function skip_runs :: "Ordinal \<Rightarrow> bytes \<Rightarrow> (Ordinal \<times> bytes) option" where
  "skip_runs line remain =
     (if take HALF_USIZE remain = SEMICOLON_RUN then
        case add_scalar line (int HALF_USIZE) of
          None \<Rightarrow> None
        | Some line \<Rightarrow> skip_runs line (drop HALF_USIZE remain)
      else Some (line, remain))"
  by pat_completeness auto
termination
proof (relation "measure (\<lambda>(_, remain). length remain)")
  fix line remain x
  assume "take HALF_USIZE remain = SEMICOLON_RUN"
  then have "remain \<noteq> []" by (auto simp: HALF_USIZE_def SEMICOLON_RUN_def)
  then show "((x, drop HALF_USIZE remain), line, remain) \<in> measure (\<lambda>(_, remain). length remain)"
    by (simp add: HALF_USIZE_def)
qed simp

declare skip_runs.simps [simp del]

fun skip_singles :: "Ordinal \<Rightarrow> bytes \<Rightarrow> (Ordinal \<times> bytes) option" where
  "skip_singles line [] = Some (line, [])"
| "skip_singles line (c # remain) =
     (if c = CHR '';'' then
        case add_scalar line 1 of None \<Rightarrow> None | Some line \<Rightarrow> skip_singles line remain
      else Some (line, c # remain))"

text \<open>The line breaks in front of a segment\<close>

definition line_breaks :: "parse_state \<Rightarrow> bytes \<Rightarrow> (parse_state \<times> bytes) outcome" where
  "line_breaks st remain =
     (if remain \<noteq> [] \<and> hd remain = CHR '';'' then
        and_then (or_panic (skip_runs (lines (p_generated st)) remain)) (\<lambda>(line, remain).
        and_then (or_panic (skip_singles line remain)) (\<lambda>(line, remain).
          Done (st\<lparr>p_generated := \<lparr>lines = line, columns = 0\<rparr>\<rparr>, remain)))
      else Done (st, remain))"

definition name_field :: "ParseOptions \<Rightarrow> nat \<Rightarrow> parse_state \<Rightarrow> bytes \<Rightarrow> (parse_state \<times> bytes) outcome" where
  "name_field options size_in st remain =
     (case remain of
        [] \<Rightarrow> Done (st, remain)
      | c # rest \<Rightarrow>
          if c = CHR '','' then Done (st, rest)
          else if c = CHR '';'' then Done (st, remain)
          else and_then (read_vlq InvalidNameIndexDelta size_in remain) (\<lambda>(delta, remain).
            let st = (if allow_names options then
                        st\<lparr>p_name_index := wrap_i32 (p_name_index st + delta),
                           p_mapping := (if p_has_names st then p_mapping st else ensure_with_names (p_mapping st)),
                           p_has_names := True\<rparr>
                      else st)
            in Done (st, if remain \<noteq> [] \<and> hd remain = CHR '','' then tl remain else remain)))"

definition append_row :: "parse_state \<Rightarrow> parse_state" where
  "append_row st =
     st\<lparr>p_mapping :=
          list_append \<lparr>generated = p_generated st, original = p_original st, source_index = p_source_index st,
              name_index = (if p_has_names st then p_name_index st else - 1)\<rparr> (p_mapping st)\<rparr>"

definition original_fields ::
  "ParseOptions \<Rightarrow> int \<Rightarrow> nat \<Rightarrow> parse_state \<Rightarrow> bytes \<Rightarrow> (parse_state \<times> bytes) outcome" where
  "original_fields options sources_count size_in st remain0 =
     and_then (read_vlq InvalidSourceIndexDelta size_in remain0) (\<lambda>(delta, remain1).
     let source = wrap_i32 (p_source_index st + delta) in
     if source < 0 \<or> source \<ge> sources_count then fail_at InvalidSourceIndexValue size_in remain0
     else and_then (read_vlq MissingOriginalLine size_in remain1) (\<lambda>(delta, remain2).
     let line = wrap_i32 (lines (p_original st) + delta) in
     if line < 0 then fail_at InvalidOriginalLineValue size_in remain1
     else and_then (read_vlq MissingOriginalColumnValue size_in remain2) (\<lambda>(delta, remain3).
     let column = wrap_i32 (columns (p_original st) + delta) in
     if column < 0 then fail_at InvalidOriginalColumnValue size_in remain2
     else and_then
       (name_field options size_in
          (st\<lparr>p_source_index := source, p_original := \<lparr>lines = line, columns = column\<rparr>\<rparr>) remain3)
       (\<lambda>(st, remain). Done (append_row st, remain)))))"

definition parse_segment ::
  "ParseOptions \<Rightarrow> int \<Rightarrow> nat \<Rightarrow> parse_state \<Rightarrow> bytes \<Rightarrow> (parse_state \<times> bytes) outcome" where
  "parse_segment options sources_count size_in st remain =
     and_then (read_vlq MissingGeneratedColumnValue size_in remain) (\<lambda>(delta, rest).
     let column = wrap_i32 (columns (p_generated st) + delta) in
     if column < 0 then fail_at InvalidGeneratedColumnValue size_in remain
     else
       let st = st\<lparr>p_needs_sort := p_needs_sort st \<or> delta < 0,
                   p_generated := (p_generated st)\<lparr>columns := column\<rparr>\<rparr>
       in case rest of
            [] \<Rightarrow> Done (st, rest)
          | c # after \<Rightarrow>
              if c = CHR '','' then Done (st, after)
              else if c = CHR '';'' then Done (st, rest)
              else original_fields options sources_count size_in st rest)"

lemma read_vlq_shorter: "read_vlq e size_in remain = Done (v, rest) \<Longrightarrow> length rest < length remain"
proof -
  assume "read_vlq e size_in remain = Done (v, rest)"
  then obtain r where r: "decode_vlq remain 0 = Some r" "0 < vlq_start r" "rest = drop (vlq_start r) remain"
    by (auto simp: read_vlq_def fail_at_def and_then_Done or_panic_Done Let_def split: if_splits)
  then have "remain \<noteq> []" by (auto simp: decode_vlq_def decode_impl_def)
  then show "length rest < length remain" using r by simp
qed

lemma name_field_shorter: "name_field options size_in st remain = Done (st', rest) \<Longrightarrow> length rest \<le> length remain"
  by (auto simp: name_field_def and_then_Done Let_def split: list.splits if_splits dest!: read_vlq_shorter)

lemma original_fields_shorter:
  "original_fields options n size_in st remain = Done (st', rest) \<Longrightarrow> length rest < length remain"
  by (auto simp: original_fields_def and_then_Done Let_def fail_at_def split: if_splits
      dest!: read_vlq_shorter name_field_shorter)

lemma parse_segment_shorter:
  "parse_segment options n size_in st remain = Done (st', rest) \<Longrightarrow> length rest < length remain"
  by (auto simp: parse_segment_def and_then_Done Let_def fail_at_def split: if_splits list.splits
      dest!: read_vlq_shorter original_fields_shorter)

lemma skip_runs_shorter: "skip_runs line remain = Some (line', rest) \<Longrightarrow> length rest \<le> length remain"
proof (induction line remain rule: skip_runs.induct)
  case (1 line remain)
  then show ?case by (fastforce simp: skip_runs.simps [of line remain] split: if_splits option.splits)
qed

lemma skip_singles_shorter: "skip_singles line remain = Some (line', rest) \<Longrightarrow> length rest \<le> length remain"
  by (induction line remain rule: skip_singles.induct) (auto split: if_splits option.splits)

lemma line_breaks_shorter: "line_breaks st remain = Done (st', rest) \<Longrightarrow> length rest \<le> length remain"
  by (auto simp: line_breaks_def and_then_Done or_panic_Done split: if_splits dest!: skip_runs_shorter skip_singles_shorter)

function mappings_loop :: "ParseOptions \<Rightarrow> int \<Rightarrow> nat \<Rightarrow> parse_state \<Rightarrow> bytes \<Rightarrow> parse_state outcome" where
  "mappings_loop options sources_count size_in st remain =
     (if remain = [] then Done st
      else and_then (line_breaks st remain) (\<lambda>(st, remain).
        if remain = [] then Done st
        else and_then (parse_segment options sources_count size_in st remain) (\<lambda>(st, remain).
          mappings_loop options sources_count size_in st remain)))"
  by pat_completeness auto
termination
  by (relation "measure (\<lambda>(_, _, _, _, remain). length remain)")
    (auto dest!: parse_segment_shorter line_breaks_shorter)

declare mappings_loop.simps [simp del]

definition parse_mappings :: "bytes \<Rightarrow> int \<Rightarrow> ParseOptions \<Rightarrow> ListValue outcome" where
  "parse_mappings bs sources_count options =
     and_then (mappings_loop options sources_count (length bs) parse_init bs) (\<lambda>st.
       Done (if p_needs_sort st \<and> sort_option options then list_sort (p_mapping st) else p_mapping st))"

end
