(* ===== verification/SourceMapLookup.thy ===== *)
theory SourceMapLookup
  imports SourceMapping
begin

text \<open>
  What the list of mappings promises: the parser only stores positions that are not negative and sources
  that exist, and with sorting requested the list is in order; sorting is stable; on a list in order the
  lookups find the last mapping at or before a position.
\<close>

section \<open>Rows\<close>

definition position :: "LineColumnOffset \<Rightarrow> int \<times> int" where
  "position p = (lines p, columns p)"

definition ordinal_ok :: "Ordinal \<Rightarrow> bool" where
  "ordinal_ok x \<longleftrightarrow> 0 \<le> x \<and> is_i32 x"

definition offset_ok :: "LineColumnOffset \<Rightarrow> bool" where
  "offset_ok p \<longleftrightarrow> ordinal_ok (lines p) \<and> ordinal_ok (columns p)"

definition row_ok :: "int \<Rightarrow> 'a MappingWithoutName_scheme \<Rightarrow> bool" where
  "row_ok n m \<longleftrightarrow> offset_ok (generated m) \<and> offset_ok (original m) \<and> 0 \<le> source_index m \<and> source_index m < n"

lemma position_less: "position a < position b \<longleftrightarrow> lines a < lines b \<or> lines a = lines b \<and> columns a < columns b"
  by (auto simp: position_def)

lemma at_or_before_iff: "at_or_before p line column \<longleftrightarrow> position p \<le> (line, column)"
  by (auto simp: at_or_before_def position_def)

lemma generated_to_named [simp]: "generated (to_named m) = generated m"
  by (simp add: to_named_def)

lemma row_ok_to_named [simp]: "row_ok n (to_named m) = row_ok n m"
  by (simp add: row_ok_def to_named_def)

lemma list_generated_named: "list_generated l = map generated (named l)"
  by (cases l) auto

lemma list_len_named: "list_len l = length (named l)"
  by (cases l) auto

lemma named_ensure_with_names [simp]: "named (ensure_with_names l) = named l"
  by (cases l) auto

lemma named_append:
  "\<exists>m'. named (list_append m l) = named l @ [m'] \<and> generated m' = generated m \<and> original m' = original m
     \<and> source_index m' = source_index m \<and> (name_index m = - 1 \<longrightarrow> m' = m)"
  by (cases l) (auto simp: to_named_def)

section \<open>Sorting\<close>

interpretation offsets: sort_context "\<lambda>rows. offset_less (map generated rows)" "\<lambda>m. position (generated m)"
  by unfold_locales (auto simp: offset_less_def position_less Let_def)

lemma sort_key_map: "sort_key f (map g xs) = map g (sort_key (\<lambda>x. f (g x)) xs)"
proof (rule properties_for_sort_key)
  show "sorted (map f (map g (sort_key (\<lambda>x. f (g x)) xs)))" by (simp add: comp_def)
  fix k
  have "filter (\<lambda>x. f (g x) = f k) (sort_key (\<lambda>x. f (g x)) xs) = filter (\<lambda>x. f (g x) = f k) xs"
    by (rule sort_key_stable)
  then show "filter (\<lambda>x. f k = f x) (map g (sort_key (\<lambda>x. f (g x)) xs)) = filter (\<lambda>x. f k = f x) (map g xs)"
    by (simp add: filter_map comp_def eq_commute [of "f k"])
qed (simp add: mset_map)

lemma named_list_sort: "named (list_sort l) = sort_key (\<lambda>m. position (generated m)) (named l)"
  by (cases l) (simp_all add: offsets.sort_rows_sort_key sort_key_map)

section \<open>Lookup\<close>

lemma search_loop_spec:
  assumes "sorted (map position offs)" "index + cnt \<le> length offs"
    "\<forall>j<index. at_or_before (offs ! j) line column"
    "\<forall>j. index + cnt \<le> j \<and> j < length offs \<longrightarrow> \<not> at_or_before (offs ! j) line column"
  shows "\<exists>i. search_loop offs line column cnt index = Some i \<and> i \<le> length offs \<and>
    (\<forall>j<i. at_or_before (offs ! j) line column) \<and>
    (\<forall>j. i \<le> j \<and> j < length offs \<longrightarrow> \<not> at_or_before (offs ! j) line column)"
  using assms
proof (induction offs line column cnt index rule: search_loop.induct)
  case (1 offs line column cnt index)
  show ?case
  proof (cases "cnt = 0")
    case True
    then show ?thesis using "1.prems" by (simp add: search_loop.simps [of offs line column 0 index])
  next
    case False
    let ?i = "index + cnt div 2"
    have i: "?i < length offs" using "1.prems"(2) False by linarith
    have mono: "position (offs ! j) \<le> position (offs ! k)" if "j \<le> k" "k < length offs" for j k
      using sorted_nth_mono [OF "1.prems"(1) that(1)] that by simp
    show ?thesis
    proof (cases "at_or_before (offs ! ?i) line column")
      case True
      have "\<forall>j<?i + 1. at_or_before (offs ! j) line column"
        using mono [OF _ i] True by (auto simp: at_or_before_iff less_Suc_eq_le intro: order_trans)
      moreover have "?i + 1 + (cnt - (cnt div 2 + 1)) = index + cnt" using False by simp
      ultimately show ?thesis
        using "1.IH"(1) [OF _ refl refl _ True] "1.prems" False i
        by (simp add: search_loop.simps [of offs line column cnt index] Let_def True)
    next
      case ge: False
      have "\<forall>j. ?i \<le> j \<and> j < length offs \<longrightarrow> \<not> at_or_before (offs ! j) line column"
        using mono [of ?i] ge by (meson at_or_before_iff order_trans)
      then show ?thesis
        using "1.IH"(2) [OF _ refl refl _ ge] "1.prems" False i
        by (simp add: search_loop.simps [of offs line column cnt index] Let_def ge)
    qed
  qed
qed

lemma search_loop_total:
  assumes "sorted (map position offs)"
  shows "\<exists>i. search_loop offs line column (length offs) 0 = Some i \<and> i \<le> length offs \<and>
    (\<forall>j<i. position (offs ! j) \<le> (line, column)) \<and>
    (\<forall>j. i \<le> j \<and> j < length offs \<longrightarrow> (line, column) < position (offs ! j))"
  using search_loop_spec [OF assms, of 0 "length offs" line column] unfolding at_or_before_iff not_le
  by force

text \<open>The last row at or before a position, with and without the condition that it is on the same line.\<close>

definition last_before :: "Mapping list \<Rightarrow> int \<times> int \<Rightarrow> nat \<Rightarrow> bool" where
  "last_before ms p i \<longleftrightarrow> i < length ms \<and> position (generated (ms ! i)) \<le> p \<and>
     (\<forall>j. i < j \<and> j < length ms \<longrightarrow> p < position (generated (ms ! j)))"

lemma find_closest_spec:
  assumes "sorted (map position (list_generated l))"
  shows "\<exists>r. list_find_closest l line column = Some r \<and>
    (case r of
       None \<Rightarrow> \<forall>m\<in>set (named l). (line, column) < position (generated m)
     | Some m \<Rightarrow> \<exists>i. last_before (named l) (line, column) i \<and> m = named l ! i)"
proof -
  obtain i where i: "search_loop (list_generated l) line column (length (list_generated l)) 0 = Some i"
    "i \<le> length (named l)" "\<forall>j<i. position (generated (named l ! j)) \<le> (line, column)"
    "\<forall>j. i \<le> j \<and> j < length (named l) \<longrightarrow> (line, column) < position (generated (named l ! j))"
    using search_loop_total [OF assms, of line column] by (auto simp: list_generated_named)
  show ?thesis
  proof (cases "i = 0")
    case True
    then show ?thesis
      using i by (auto simp: list_find_closest_def find_closest_index_def in_set_conv_nth)
  next
    case False
    then have "last_before (named l) (line, column) (i - 1)" using i by (auto simp: last_before_def)
    then show ?thesis using False i(1) by (auto simp: list_find_closest_def find_closest_index_def)
  qed
qed

lemma list_find_spec:
  assumes "sorted (map position (list_generated l))"
  shows "\<exists>r. list_find l line column = Some r \<and>
    (case r of
       None \<Rightarrow> \<forall>m\<in>set (named l). \<not> (lines (generated m) = line \<and> columns (generated m) \<le> column)
     | Some m \<Rightarrow> \<exists>i<length (named l). m = named l ! i \<and> lines (generated m) = line \<and> columns (generated m) \<le> column \<and>
         (\<forall>j. i < j \<and> j < length (named l) \<longrightarrow> (line, column) < position (generated (named l ! j))))"
proof -
  obtain i where i: "search_loop (list_generated l) line column (length (list_generated l)) 0 = Some i"
    "i \<le> length (named l)" "\<forall>j<i. position (generated (named l ! j)) \<le> (line, column)"
    "\<forall>j. i \<le> j \<and> j < length (named l) \<longrightarrow> (line, column) < position (generated (named l ! j))"
    using search_loop_total [OF assms, of line column] by (auto simp: list_generated_named)
  have gen: "list_generated l ! j = generated (named l ! j)" if "j < length (named l)" for j
    using that by (simp add: list_generated_named)
  show ?thesis
  proof (cases "i > 0 \<and> lines (generated (named l ! (i - 1))) = line")
    case True
    then have "columns (generated (named l ! (i - 1))) \<le> column"
      using i(3) [rule_format, of "i - 1"] by (auto simp: position_def)
    then show ?thesis
      using True i gen [of "i - 1"]
      by (intro exI [of _ "Some (named l ! (i - 1))"])
        (auto simp: list_find_def find_index_from_generated_def intro!: exI [of _ "i - 1"])
  next
    case False
    have "\<not> (lines (generated m) = line \<and> columns (generated m) \<le> column)" if m: "m \<in> set (named l)" for m
    proof
      assume on: "lines (generated m) = line \<and> columns (generated m) \<le> column"
      obtain j where j: "j < length (named l)" "m = named l ! j" using m by (auto simp: in_set_conv_nth)
      have "\<not> (line, column) < position (generated (named l ! j))" using on j(2) by (auto simp: position_def)
      then have "j < i" using i(4) j(1) not_le by blast
      then have "position (generated (named l ! j)) \<le> position (generated (named l ! (i - 1)))"
        using sorted_nth_mono [OF assms, of j "i - 1"] i(2) gen j(1) by (simp add: list_generated_named)
      moreover have "position (generated (named l ! (i - 1))) \<le> (line, column)" using i(3) \<open>j < i\<close> by simp
      ultimately have "lines (generated (named l ! (i - 1))) = line" using on j(2) by (auto simp: position_def)
      then show False using False \<open>j < i\<close> by simp
    qed
    then show ?thesis
      using False i gen [of "i - 1"]
      by (intro exI [of _ None]) (auto simp: list_find_def find_index_from_generated_def)
  qed
qed

section \<open>What the parser keeps\<close>

text \<open>Counting line breaks four at a time is counting them one by one.\<close>

lemma skip_runs_singles:
  "ordinal_ok line \<Longrightarrow>
   and_then (or_panic (skip_runs line remain)) (\<lambda>(line, remain). or_panic (skip_singles line remain)) =
     or_panic (skip_singles line remain)"
proof (induction line remain rule: skip_runs.induct)
  case (1 line remain)
  show ?case
  proof (cases "take HALF_USIZE remain = SEMICOLON_RUN")
    case True
    define rest where "rest = drop HALF_USIZE remain"
    have "remain = SEMICOLON_RUN @ rest" using True rest_def by (metis append_take_drop_id)
    then have remain: "remain = '';;;;'' @ rest" by (simp add: SEMICOLON_RUN_def HALF_USIZE_def numeral_eq_Suc)
    have "skip_singles line remain =
        (case add_scalar line (int HALF_USIZE) of None \<Rightarrow> None | Some line \<Rightarrow> skip_singles line rest)"
      using "1.prems" unfolding remain
      by (auto simp: add_scalar_def HALF_USIZE_def ordinal_ok_def add.assoc)
    moreover have "ordinal_ok l" if "add_scalar line (int HALF_USIZE) = Some l" for l
      using that by (auto simp: add_scalar_def ordinal_ok_def is_i32_def split: if_splits)
    ultimately show ?thesis
      using 1 True by (auto simp: skip_runs.simps [of line remain] rest_def split: option.splits)
  qed (simp add: skip_runs.simps [of line remain])
qed

lemma skip_singles_ok:
  assumes "skip_singles line remain = Some (line', rest)" "ordinal_ok line"
  shows "ordinal_ok line' \<and> line \<le> line' \<and> (remain \<noteq> [] \<and> hd remain = CHR '';'' \<longrightarrow> line < line')"
  using assms
proof (induction line remain rule: skip_singles.induct)
  case (2 line c remain)
  show ?case
  proof (cases "c = CHR '';''")
    case True
    then obtain l where l: "add_scalar line 1 = Some l" using 2(2) by (auto split: option.splits)
    then have "l = line + 1" "ordinal_ok l"
      using "2.prems"(2) by (auto simp: add_scalar_def ordinal_ok_def is_i32_def split: if_splits)
    then show ?thesis using 2 True l by auto
  qed (use 2 in auto)
qed simp

lemma line_breaks_eq:
  assumes "ordinal_ok (lines (p_generated st))"
  shows "line_breaks st remain =
    (if remain \<noteq> [] \<and> hd remain = CHR '';'' then
       and_then (or_panic (skip_singles (lines (p_generated st)) remain))
         (\<lambda>(line, remain). Done (st\<lparr>p_generated := \<lparr>lines = line, columns = 0\<rparr>\<rparr>, remain))
     else Done (st, remain))"
proof -
  let ?l = "lines (p_generated st)"
  have "and_then (or_panic (skip_runs ?l remain)) (\<lambda>(line, remain).
      and_then (or_panic (skip_singles line remain)) (\<lambda>(line, remain). Done (st\<lparr>p_generated := \<lparr>lines = line, columns = 0\<rparr>\<rparr>, remain)))
    = and_then (and_then (or_panic (skip_runs ?l remain)) (\<lambda>(line, remain). or_panic (skip_singles line remain)))
        (\<lambda>(line, remain). Done (st\<lparr>p_generated := \<lparr>lines = line, columns = 0\<rparr>\<rparr>, remain))"
    by (cases "skip_runs ?l remain") auto
  then show ?thesis unfolding line_breaks_def skip_runs_singles [OF assms] by simp
qed

lemma line_breaks_Done:
  assumes "ordinal_ok (lines (p_generated st))"
  shows "line_breaks st remain = Done (st', rest) \<longleftrightarrow>
    (if remain \<noteq> [] \<and> hd remain = CHR '';'' then
       \<exists>line. skip_singles (lines (p_generated st)) remain = Some (line, rest) \<and>
         st' = st\<lparr>p_generated := \<lparr>lines = line, columns = 0\<rparr>\<rparr>
     else st' = st \<and> rest = remain)"
  using assms by (auto simp: line_breaks_eq and_then_Done or_panic_Done)

text \<open>
  The invariant of the loop: positions are in range and rows are valid, and unless a column went back the
  rows are in order and not after the current position.
\<close>

definition rows_ordered :: "parse_state \<Rightarrow> bool" where
  "rows_ordered st \<longleftrightarrow> sorted (map (\<lambda>m. position (generated m)) (named (p_mapping st)) @ [position (p_generated st)])"

definition parse_inv :: "int \<Rightarrow> parse_state \<Rightarrow> bool" where
  "parse_inv n st \<longleftrightarrow> offset_ok (p_generated st) \<and> offset_ok (p_original st)
     \<and> (\<forall>m\<in>set (named (p_mapping st)). row_ok n m) \<and> (p_needs_sort st \<or> rows_ordered st)"

lemma parse_inv_init: "parse_inv n parse_init"
  by (simp add: parse_inv_def parse_init_def rows_ordered_def offset_ok_def ordinal_ok_def is_i32_def START_def)

lemma rows_ordered_advance:
  assumes "rows_ordered st" "position (p_generated st) \<le> position p"
  shows "rows_ordered (st\<lparr>p_generated := p\<rparr>)"
  using assms by (auto simp: rows_ordered_def sorted_append intro: order_trans)

lemma parse_inv_line_breaks:
  assumes "parse_inv n st" "line_breaks st remain = Done (st', rest)"
  shows "parse_inv n st'"
proof (cases "remain \<noteq> [] \<and> hd remain = CHR '';''")
  case True
  have ok: "ordinal_ok (lines (p_generated st))" using assms(1) by (simp add: parse_inv_def offset_ok_def)
  obtain line where line: "skip_singles (lines (p_generated st)) remain = Some (line, rest)"
    "st' = st\<lparr>p_generated := \<lparr>lines = line, columns = 0\<rparr>\<rparr>"
    using assms(2) True unfolding line_breaks_Done [OF ok] by auto
  then have "lines (p_generated st) < line" "ordinal_ok line"
    using skip_singles_ok [OF line(1) ok] True by auto
  then show ?thesis
    using assms(1) line(2) rows_ordered_advance [of st "\<lparr>lines = line, columns = 0\<rparr>"]
    by (auto simp: parse_inv_def offset_ok_def ordinal_ok_def is_i32_def position_def)
next
  case False
  then show ?thesis using assms by (auto simp: line_breaks_def)
qed

lemma name_field_keeps:
  assumes "name_field options size_in st remain = Done (st', rest)"
  shows "p_generated st' = p_generated st \<and> p_original st' = p_original st \<and> p_source_index st' = p_source_index st
    \<and> p_needs_sort st' = p_needs_sort st \<and> named (p_mapping st') = named (p_mapping st)"
  using assms by (auto simp: name_field_def and_then_Done Let_def split: list.splits if_splits)

lemma parse_inv_append_row:
  assumes "parse_inv n st" "0 \<le> p_source_index st" "p_source_index st < n"
  shows "parse_inv n (append_row st)"
proof -
  obtain m where "named (p_mapping (append_row st)) = named (p_mapping st) @ [m]" "generated m = p_generated st"
    "original m = p_original st" "source_index m = p_source_index st"
    using named_append unfolding append_row_def by (auto) (metis MappingWithoutName.select_convs)
  then show ?thesis
    using assms by (auto simp: parse_inv_def row_ok_def rows_ordered_def append_row_def sorted_append)
qed

lemma ordinal_ok_wrap: "\<not> wrap_i32 x < 0 \<Longrightarrow> ordinal_ok (wrap_i32 x)"
  using wrap_i32_range by (simp add: ordinal_ok_def)

lemma parse_inv_original_fields:
  assumes "original_fields options n size_in st remain = Done (st', rest)" "parse_inv n st"
  shows "parse_inv n st'"
proof -
  obtain source line column s r where
    s: "name_field options size_in (st\<lparr>p_source_index := source, p_original := \<lparr>lines = line, columns = column\<rparr>\<rparr>) r = Done (s, rest)"
    "st' = append_row s" "0 \<le> source" "source < n" "ordinal_ok line" "ordinal_ok column"
    using assms(1)
    by (auto simp: original_fields_def and_then_Done Let_def fail_at_def not_le ordinal_ok_wrap split: if_splits)
  have "parse_inv n s"
    using name_field_keeps [OF s(1)] assms(2) s(5,6) by (auto simp: parse_inv_def rows_ordered_def offset_ok_def)
  then show ?thesis
    using parse_inv_append_row [of n s] name_field_keeps [OF s(1)] s by simp
qed

lemma decode_loop_value:
  "decode_loop av start i cs w k = Some r \<Longrightarrow> - (2 ^ 31) \<le> vlq_value r \<and> vlq_value r \<le> 2 ^ 31"
proof (induction av start i cs w k rule: decode_loop.induct)
  case (2 av start i c encoded w k)
  have "- (2 ^ 31) \<le> sint x \<and> sint x < 2 ^ 31" for x :: u32
    using sint_greater_eq [of x] sint_less [of x] by simp
  then have "- (2 ^ 31) \<le> i32_of_u32 x \<and> i32_of_u32 x \<le> 2 ^ 31 \<and> - i32_of_u32 x \<le> 2 ^ 31 \<and> - (2 ^ 31) \<le> - i32_of_u32 x" for x
    by (auto simp: i32_of_u32_def less_imp_le) (smt (verit))
  then show ?case
    using 2 by (auto simp: Let_def split: if_splits)
qed auto

lemma read_vlq_value:
  "read_vlq e size_in remain = Done (v, rest) \<Longrightarrow> - (2 ^ 31) \<le> v \<and> v \<le> 2 ^ 31"
  by (auto simp: read_vlq_def fail_at_def and_then_Done or_panic_Done Let_def decode_vlq_def decode_impl_def
      split: if_splits dest!: decode_loop_value)

lemma wrap_i32_no_overflow:
  assumes "ordinal_ok x" "0 \<le> d" "d \<le> 2 ^ 31" "\<not> wrap_i32 (x + d) < 0"
  shows "wrap_i32 (x + d) = x + d"
proof (rule ccontr)
  assume "wrap_i32 (x + d) \<noteq> x + d"
  then have "\<not> is_i32 (x + d)" by auto
  then have "2 ^ 31 \<le> x + d" "x + d < 2 ^ 32" using assms by (auto simp: ordinal_ok_def is_i32_def)
  then have "(x + d + 2 ^ 31 - 2 ^ 32) mod 2 ^ 32 = x + d + 2 ^ 31 - 2 ^ 32"
    by (intro mod_pos_pos_trivial) auto
  then have "(x + d + 2 ^ 31) mod 2 ^ 32 = x + d + 2 ^ 31 - 2 ^ 32" by (simp only: minus_mod_self2)
  then show False using assms(4) \<open>x + d < 2 ^ 32\<close> by (simp add: wrap_i32_def)
qed

lemma parse_inv_segment:
  assumes "parse_segment options n size_in st remain = Done (st', rest)" "parse_inv n st"
  shows "parse_inv n st'"
proof -
  obtain delta r1 r2 where d: "read_vlq MissingGeneratedColumnValue size_in remain = Done (delta, r1)"
    "\<not> wrap_i32 (columns (p_generated st) + delta) < 0"
    and s: "let s = st\<lparr>p_needs_sort := p_needs_sort st \<or> delta < 0,
      p_generated := (p_generated st)\<lparr>columns := wrap_i32 (columns (p_generated st) + delta)\<rparr>\<rparr>
      in st' = s \<or> original_fields options n size_in s r2 = Done (st', rest)"
    using assms(1)
    by (auto simp: parse_segment_def and_then_Done Let_def fail_at_def split: if_splits list.splits)
  define col where "col = wrap_i32 (columns (p_generated st) + delta)"
  define st1 where "st1 = st\<lparr>p_needs_sort := p_needs_sort st \<or> delta < 0, p_generated := (p_generated st)\<lparr>columns := col\<rparr>\<rparr>"
  have col: "ordinal_ok col" using ordinal_ok_wrap d(2) by (simp add: col_def)
  have "parse_inv n st1"
  proof (cases "delta < 0")
    case True
    then show ?thesis using assms(2) col by (auto simp: parse_inv_def st1_def offset_ok_def)
  next
    case False
    then have "col = columns (p_generated st) + delta"
      using wrap_i32_no_overflow [of "columns (p_generated st)" delta] d(2) read_vlq_value [OF d(1)] assms(2)
      by (simp add: col_def parse_inv_def offset_ok_def)
    then have "position (p_generated st) \<le> position ((p_generated st)\<lparr>columns := col\<rparr>)"
      using False by (simp add: position_def)
    then have "rows_ordered st \<Longrightarrow> rows_ordered st1"
      using rows_ordered_advance by (auto simp: st1_def rows_ordered_def)
    then show ?thesis using assms(2) col by (auto simp: parse_inv_def st1_def offset_ok_def)
  qed
  then show ?thesis
    using s parse_inv_original_fields [of options n size_in st1 r2] unfolding col_def [symmetric] st1_def [symmetric]
    by (auto simp: Let_def)
qed

lemma parse_inv_loop:
  "mappings_loop options n size_in st remain = Done st' \<Longrightarrow> parse_inv n st \<Longrightarrow> parse_inv n st'"
proof (induction options n size_in st remain arbitrary: st' rule: mappings_loop.induct)
  case (1 options n size_in st remain)
  show ?case
  proof (cases "remain = []")
    case False
    then obtain s r where s: "line_breaks st remain = Done (s, r)"
      "if r = [] then st' = s else \<exists>t q. parse_segment options n size_in s r = Done (t, q) \<and> mappings_loop options n size_in t q = Done st'"
      using "1.prems"(1) unfolding mappings_loop.simps [of options n size_in st remain]
      by (auto simp: and_then_Done split: if_splits)
    have inv: "parse_inv n s" using parse_inv_line_breaks [OF "1.prems"(2) s(1)] .
    show ?thesis
    proof (cases "r = []")
      case True
      then show ?thesis using s inv by simp
    next
      case r: False
      then obtain t q where t: "parse_segment options n size_in s r = Done (t, q)" "mappings_loop options n size_in t q = Done st'"
        using s(2) by auto
      show ?thesis
        using "1.IH" [OF False s(1) refl r t(1) refl t(2) parse_inv_segment [OF t(1) inv]] .
    qed
  qed (use 1 in \<open>simp add: mappings_loop.simps\<close>)
qed

lemma parse_mappings_ok:
  assumes "parse_mappings bs n options = Done l"
  shows "(\<forall>m\<in>set (named l). row_ok n m) \<and> (sort_option options \<longrightarrow> sorted (map position (list_generated l)))"
proof -
  obtain st where st: "mappings_loop options n (length bs) parse_init bs = Done st"
    "l = (if p_needs_sort st \<and> sort_option options then list_sort (p_mapping st) else p_mapping st)"
    using assms by (auto simp: parse_mappings_def and_then_Done)
  have inv: "parse_inv n st" using parse_inv_loop [OF st(1) parse_inv_init] .
  have "sorted (map (\<lambda>m. position (generated m)) (named (list_sort (p_mapping st))))"
    by (simp add: named_list_sort)
  then show ?thesis
    using inv st(2) by (auto simp: parse_inv_def rows_ordered_def sorted_append list_generated_named named_list_sort comp_def)
qed

text \<open>
  C19. Whatever text is parsed, a stored mapping has lines and columns that are not negative and a source
  that exists. When sorting was asked for, the lookup of any position never fails, and finds the last
  mapping on that line at or before the column, or says that there is none.
\<close>

theorem parsed_lookup_correct:
  assumes "parse_mappings bs n options = Done l"
  shows "(\<forall>m\<in>set (named l). row_ok n m) \<and>
    (sort_option options \<longrightarrow> (\<exists>r. list_find l line column = Some r \<and>
      (case r of
         None \<Rightarrow> \<forall>m\<in>set (named l). \<not> (lines (generated m) = line \<and> columns (generated m) \<le> column)
       | Some m \<Rightarrow> \<exists>i<length (named l). m = named l ! i \<and> lines (generated m) = line \<and> columns (generated m) \<le> column \<and>
           (\<forall>j. i < j \<and> j < length (named l) \<longrightarrow> (line, column) < position (generated (named l ! j))))))"
  using parse_mappings_ok [OF assms] list_find_spec by blast

end
