(* ===== verification/SourceMapEmit.thy ===== *)
theory SourceMapEmit
  imports SourceMapLookup "HOL-Library.Monad_Syntax"
begin

text \<open>
  Writing source maps: \<^verbatim>\<open>append_mapping_to_buffer\<close> of \<^verbatim>\<open>src/sourcemap/lib.rs\<close> and the format \<^verbatim>\<open>VLQSourceMap\<close> of
  \<^verbatim>\<open>src/sourcemap/Chunk.rs\<close> without its internal builder. The theory relates texts of mappings to lists of
  items, line breaks and segments of differences: the parser runs through the items, and the writer
  appends one.
\<close>

section \<open>Operations\<close>

record SourceMapState =
  generated_line :: int
  generated_column :: int
  state_source :: int
  original_line :: int
  original_column :: int

definition state_default :: SourceMapState where
  "state_default = \<lparr>generated_line = 0, generated_column = 0, state_source = 0, original_line = 0, original_column = 0\<rparr>"

definition saturating_sub :: "int \<Rightarrow> int \<Rightarrow> int" where
  "saturating_sub x y = max (- (2 ^ 31)) (min (2 ^ 31 - 1) (x - y))"

definition append_mapping_to_buffer :: "bytes \<Rightarrow> u8 \<Rightarrow> SourceMapState \<Rightarrow> SourceMapState \<Rightarrow> bytes" where
  "append_mapping_to_buffer buffer last_byte prev_state current_state =
     (let needs_comma = (last_byte \<noteq> CHR 0x00 \<and> last_byte \<noteq> CHR '';'' \<and> last_byte \<noteq> CHR 0x22);
          vlqs = [vlq_encode (saturating_sub (generated_column current_state) (generated_column prev_state)),
                  vlq_encode (saturating_sub (state_source current_state) (state_source prev_state)),
                  vlq_encode (saturating_sub (original_line current_state) (original_line prev_state)),
                  vlq_encode (saturating_sub (original_column current_state) (original_column prev_state))]
      in buffer @ (if needs_comma then '','' else []) @ concat (map vlq_slice vlqs))"

record VLQSourceMap =
  vsm_data :: bytes
  vsm_count :: nat
  vsm_offset :: nat

definition vsm_init :: VLQSourceMap where
  "vsm_init = \<lparr>vsm_data = [], vsm_count = 0, vsm_offset = 0\<rparr>"

definition vsm_append_line_separator :: "VLQSourceMap \<Rightarrow> VLQSourceMap" where
  "vsm_append_line_separator m = m\<lparr>vsm_data := vsm_data m @ '';''\<rparr>"

definition vsm_append :: "SourceMapState \<Rightarrow> SourceMapState \<Rightarrow> VLQSourceMap \<Rightarrow> VLQSourceMap" where
  "vsm_append current_state prev_state m =
     (let last_byte = (if length (vsm_data m) > vsm_offset m then last (vsm_data m) else CHR 0x00)
      in m\<lparr>vsm_data := append_mapping_to_buffer (vsm_data m) last_byte prev_state current_state,
           vsm_count := vsm_count m + 1\<rparr>)"

definition should_ignore :: "VLQSourceMap \<Rightarrow> bool" where
  "should_ignore m \<longleftrightarrow> vsm_count m = 0"

definition last_byte_of :: "bytes \<Rightarrow> u8" where
  "last_byte_of j = (if j = [] then CHR 0x00 else last j)"

section \<open>Texts as lists of items\<close>

text \<open>A text of mappings is a list of line breaks and segments; the segments of a line are separated by commas.\<close>

datatype item = Break | Seg int int int int

fun render :: "bool \<Rightarrow> item list \<Rightarrow> bytes" where
  "render comma [] = []"
| "render comma (Break # its) = CHR '';'' # render False its"
| "render comma (Seg a b c d # its) =
     (if comma then '','' else []) @ vlq_slice (vlq_encode a) @ vlq_slice (vlq_encode b) @ vlq_slice (vlq_encode c)
       @ vlq_slice (vlq_encode d) @ render True its"

fun after_items :: "bool \<Rightarrow> item list \<Rightarrow> bool" where
  "after_items comma [] = comma"
| "after_items comma (Break # its) = after_items False its"
| "after_items comma (Seg _ _ _ _ # its) = after_items True its"

text \<open>What the items denote, from a state of the decoder: the states of their segments, and the last state.\<close>

fun advance :: "SourceMapState \<Rightarrow> item \<Rightarrow> SourceMapState" where
  "advance s Break = s\<lparr>generated_line := generated_line s + 1, generated_column := 0\<rparr>"
| "advance s (Seg a b c d) =
     s\<lparr>generated_column := generated_column s + a, state_source := state_source s + b,
       original_line := original_line s + c, original_column := original_column s + d\<rparr>"

fun states :: "SourceMapState \<Rightarrow> item list \<Rightarrow> SourceMapState list" where
  "states s [] = []"
| "states s (Break # its) = states (advance s Break) its"
| "states s (Seg a b c d # its) = advance s (Seg a b c d) # states (advance s (Seg a b c d)) its"

definition vlq_ok :: "int \<Rightarrow> bool" where
  "vlq_ok v \<longleftrightarrow> is_i32 v \<and> v \<noteq> I32_MIN"

fun item_ok :: "item \<Rightarrow> bool" where
  "item_ok Break = True"
| "item_ok (Seg a b c d) \<longleftrightarrow> vlq_ok a \<and> vlq_ok b \<and> vlq_ok c \<and> vlq_ok d"

definition state_ok :: "SourceMapState \<Rightarrow> bool" where
  "state_ok s \<longleftrightarrow> ordinal_ok (generated_line s) \<and> ordinal_ok (generated_column s) \<and> ordinal_ok (state_source s)
     \<and> ordinal_ok (original_line s) \<and> ordinal_ok (original_column s)"

text \<open>Every state on the way is in range.\<close>

fun items_ok :: "SourceMapState \<Rightarrow> item list \<Rightarrow> bool" where
  "items_ok s [] \<longleftrightarrow> state_ok s"
| "items_ok s (it # its) \<longleftrightarrow> state_ok s \<and> item_ok it \<and> items_ok (advance s it) its"

lemma render_append: "render comma (xs @ ys) = render comma xs @ render (after_items comma xs) ys"
  by (induction comma xs rule: render.induct) auto

lemma after_items_append: "after_items comma (xs @ ys) = after_items (after_items comma xs) ys"
  by (induction comma xs rule: after_items.induct) auto

lemma states_append: "states s (xs @ ys) = states s xs @ states (foldl advance s xs) ys"
  by (induction s xs rule: states.induct) auto

lemma items_ok_state: "items_ok s its \<Longrightarrow> state_ok s"
  by (cases its) auto

lemma items_ok_append: "items_ok s (xs @ ys) \<longleftrightarrow> items_ok s xs \<and> items_ok (foldl advance s xs) ys"
  by (induction xs arbitrary: s) (auto dest: items_ok_state)

section \<open>Parsing a rendered text\<close>

lemma read_vlq_encode:
  assumes "vlq_ok v"
  shows "read_vlq e size_in (vlq_slice (vlq_encode v) @ rest) = Done (v, rest)"
  using decode_encode [of v False "[]" rest] length_vlq_slice [of v] assms
  by (simp add: read_vlq_def decode_vlq_def vlq_ok_def)

text \<open>A segment starts with a base64 digit and not with a separator.\<close>

lemma vlq_text_hd:
  assumes "vlq_ok v"
  shows "\<exists>x xs. vlq_slice (vlq_encode v) = x # xs \<and> x \<in> set BASE64"
proof -
  have "length (vlq_slice (vlq_encode v)) > 0" using length_vlq_slice [of v] assms by (simp add: vlq_ok_def)
  moreover have "set (vlq_slice (vlq_encode v)) \<subseteq> set BASE64"
    using assms digits_bound [of _ "sign_magnitude v"] by (auto simp: vlq_encode_text vlq_ok_def vlq_text_def length_BASE64)
  ultimately show ?thesis by (cases "vlq_slice (vlq_encode v)") auto
qed

lemma BASE64_no_separator: "x \<in> set BASE64 \<Longrightarrow> x \<noteq> CHR '','' \<and> x \<noteq> CHR '';'' \<and> x \<noteq> CHR 0x22 \<and> x \<noteq> CHR 0x00"
  by (auto simp: BASE64_def)

definition strip_comma :: "bytes \<Rightarrow> bytes" where
  "strip_comma r = (if r \<noteq> [] \<and> hd r = CHR '','' then tl r else r)"

definition at_separator :: "bytes \<Rightarrow> bool" where
  "at_separator r \<longleftrightarrow> r = [] \<or> hd r = CHR '','' \<or> hd r = CHR '';''"

text \<open>The state of the parser that corresponds to a state of the decoder.\<close>

definition matches :: "parse_state \<Rightarrow> SourceMapState \<Rightarrow> bool" where
  "matches st s \<longleftrightarrow> p_generated st = \<lparr>lines = generated_line s, columns = generated_column s\<rparr>
     \<and> p_original st = \<lparr>lines = original_line s, columns = original_column s\<rparr> \<and> p_source_index st = state_source s
     \<and> \<not> p_has_names st"

definition mapping_of :: "SourceMapState \<Rightarrow> Mapping" where
  "mapping_of s = \<lparr>generated = \<lparr>lines = generated_line s, columns = generated_column s\<rparr>,
     original = \<lparr>lines = original_line s, columns = original_column s\<rparr>, source_index = state_source s, name_index = - 1\<rparr>"

lemma state_ok_wrap:
  assumes "state_ok s"
  shows "wrap_i32 (generated_column s) = generated_column s" "wrap_i32 (state_source s) = state_source s"
    "wrap_i32 (original_line s) = original_line s" "wrap_i32 (original_column s) = original_column s"
  using assms by (auto simp: state_ok_def ordinal_ok_def)

lemma original_fields_render:
  assumes "matches st s" "state_ok (advance s (Seg 0 b c d))" "vlq_ok b" "vlq_ok c" "vlq_ok d"
    "state_source s + b < n" "at_separator rest"
  shows "\<exists>st'. original_fields options n size_in st
      (vlq_slice (vlq_encode b) @ vlq_slice (vlq_encode c) @ vlq_slice (vlq_encode d) @ rest) = Done (st', strip_comma rest)
    \<and> matches st' (advance s (Seg 0 b c d)) \<and> named (p_mapping st') = named (p_mapping st) @ [mapping_of (advance s (Seg 0 b c d))]
    \<and> p_needs_sort st' = p_needs_sort st"
proof -
  let ?st = "st\<lparr>p_source_index := state_source s + b, p_original := \<lparr>lines = original_line s + c, columns = original_column s + d\<rparr>\<rparr>"
  have "name_field options size_in ?st rest = Done (?st, strip_comma rest)"
    using assms(7) by (cases rest) (auto simp: name_field_def strip_comma_def at_separator_def)
  moreover have "0 \<le> state_source s + b" "0 \<le> original_line s + c" "0 \<le> original_column s + d"
    using assms(2) by (auto simp: state_ok_def ordinal_ok_def)
  ultimately have "original_fields options n size_in st
      (vlq_slice (vlq_encode b) @ vlq_slice (vlq_encode c) @ vlq_slice (vlq_encode d) @ rest) = Done (append_row ?st, strip_comma rest)"
    using assms(1,6) state_ok_wrap [OF assms(2)]
    by (simp add: original_fields_def read_vlq_encode assms(3-5) matches_def Let_def)
  moreover obtain m where m: "named (p_mapping (append_row ?st)) = named (p_mapping st) @ [m]" "m = mapping_of (advance s (Seg 0 b c d))"
    using assms(1) named_append [of "mapping_of (advance s (Seg 0 b c d))" "p_mapping st"]
    by (auto simp: append_row_def matches_def mapping_of_def)
  ultimately show ?thesis using assms(1) by (auto simp: append_row_def matches_def)
qed

lemma parse_segment_render:
  assumes "matches st s" "state_ok s" "state_ok (advance s (Seg a b c d))" "item_ok (Seg a b c d)"
    "state_source s + b < n" "at_separator rest"
  shows "\<exists>st'. parse_segment options n size_in st
      (vlq_slice (vlq_encode a) @ vlq_slice (vlq_encode b) @ vlq_slice (vlq_encode c) @ vlq_slice (vlq_encode d) @ rest)
      = Done (st', strip_comma rest)
    \<and> matches st' (advance s (Seg a b c d)) \<and> named (p_mapping st') = named (p_mapping st) @ [mapping_of (advance s (Seg a b c d))]"
proof -
  let ?st = "st\<lparr>p_needs_sort := p_needs_sort st \<or> a < 0,
     p_generated := \<lparr>lines = generated_line s, columns = generated_column s + a\<rparr>\<rparr>"
  let ?s = "s\<lparr>generated_column := generated_column s + a\<rparr>"
  let ?r = "vlq_slice (vlq_encode b) @ vlq_slice (vlq_encode c) @ vlq_slice (vlq_encode d) @ rest"
  have adv: "advance ?s (Seg 0 b c d) = advance s (Seg a b c d)" by simp
  have ok: "vlq_ok a" "vlq_ok b" "vlq_ok c" "vlq_ok d" using assms(4) by auto
  obtain x xs where x: "vlq_slice (vlq_encode b) = x # xs" "x \<in> set BASE64" using vlq_text_hd [OF ok(2)] by blast
  have "parse_segment options n size_in st (vlq_slice (vlq_encode a) @ ?r) = original_fields options n size_in ?st ?r"
    using assms(1) state_ok_wrap [OF assms(3)] assms(3) BASE64_no_separator [OF x(2)]
    by (simp add: parse_segment_def read_vlq_encode [OF ok(1)] matches_def x(1) Let_def state_ok_def ordinal_ok_def)
  moreover have "matches ?st ?s" using assms(1) by (simp add: matches_def)
  ultimately show ?thesis
    using original_fields_render [of ?st ?s b c d n rest options size_in] assms(3,5,6) ok unfolding adv by auto
qed

lemma parse_loop_break:
  assumes "ordinal_ok (lines (p_generated st))" "lines (p_generated st) + 1 < 2 ^ 31"
  shows "mappings_loop options n size_in st (CHR '';'' # r) =
    mappings_loop options n size_in (st\<lparr>p_generated := \<lparr>lines = lines (p_generated st) + 1, columns = 0\<rparr>\<rparr>) r"
proof -
  let ?l = "lines (p_generated st) + 1"
  let ?st = "st\<lparr>p_generated := \<lparr>lines = ?l, columns = 0\<rparr>\<rparr>"
  have ok: "ordinal_ok ?l" "add_scalar (lines (p_generated st)) 1 = Some ?l"
    using assms by (auto simp: ordinal_ok_def is_i32_def add_scalar_def)
  have stop: "skip_singles ?l r = Some (?l, r)" if "\<not> (r \<noteq> [] \<and> hd r = CHR '';'')"
    using that by (cases r) auto
  have "line_breaks st (CHR '';'' # r) = line_breaks ?st r"
    using ok stop by (auto simp: line_breaks_eq [OF assms(1)] line_breaks_eq [of ?st])
  then show ?thesis
    by (cases "r = []") (simp_all add: mappings_loop.simps [of options n size_in st] mappings_loop.simps [of options n size_in ?st]
        line_breaks_def)
qed

text \<open>The parser runs through the items and stores the states of the segments.\<close>

lemma at_separator_render: "at_separator (render True its)"
  by (cases "(True, its)" rule: render.cases) (auto simp: at_separator_def)

lemma strip_comma_render: "strip_comma (render True its) = render False its"
  by (cases "(True, its)" rule: render.cases) (auto simp: strip_comma_def)

lemma parse_loop_render:
  assumes "matches st s" "items_ok s its" "\<forall>t\<in>set (states s its). state_source t < n"
  shows "\<exists>st'. mappings_loop options n size_in st (render False its) = Done st'
    \<and> named (p_mapping st') = named (p_mapping st) @ map mapping_of (states s its)"
  using assms
proof (induction its arbitrary: st s)
  case Nil
  then show ?case by (simp add: mappings_loop.simps)
next
  case (Cons it its)
  show ?case
  proof (cases it)
    case Break
    let ?st = "st\<lparr>p_generated := \<lparr>lines = lines (p_generated st) + 1, columns = 0\<rparr>\<rparr>"
    have l: "lines (p_generated st) = generated_line s" using Cons.prems(1) by (simp add: matches_def)
    have "state_ok (advance s it)" using Cons.prems(2) items_ok_state by auto
    then have "ordinal_ok (lines (p_generated st))" "lines (p_generated st) + 1 < 2 ^ 31"
      using Cons.prems(2) Break l by (auto simp: state_ok_def ordinal_ok_def is_i32_def)
    then have "mappings_loop options n size_in st (render False (it # its)) = mappings_loop options n size_in ?st (render False its)"
      using parse_loop_break Break by simp
    moreover have "matches ?st (advance s it)" using Cons.prems(1) Break by (simp add: matches_def)
    ultimately show ?thesis using Cons.IH [of ?st "advance s it"] Cons.prems(2,3) Break by auto
  next
    case (Seg a b c d)
    let ?r = "render True its"
    have ok: "items_ok (advance s it) its" "state_ok s" "item_ok it" "state_ok (advance s it)"
      using Cons.prems(2) items_ok_state by auto
    have src: "state_source s + b < n" using Cons.prems(3) Seg by simp
    obtain st' where st': "parse_segment options n size_in st (render False (it # its)) = Done (st', strip_comma ?r)"
      "matches st' (advance s it)" "named (p_mapping st') = named (p_mapping st) @ [mapping_of (advance s it)]"
      using parse_segment_render [OF Cons.prems(1) ok(2) ok(4) [unfolded Seg] ok(3) [unfolded Seg] src at_separator_render [of its]] Seg
      by auto
    obtain x xs where "render False (it # its) = x # xs" "x \<noteq> CHR '';''"
      using vlq_text_hd [of a] ok(3) Seg BASE64_no_separator by fastforce
    then show ?thesis
      using st' Cons.IH [OF st'(2) ok(1)] Cons.prems(3) Seg
      by (auto simp: mappings_loop.simps [of options n size_in st] line_breaks_def strip_comma_render)
  qed
qed

lemma matches_init: "matches parse_init state_default"
  by (simp add: matches_def parse_init_def state_default_def START_def)

lemma parse_mappings_render:
  assumes "items_ok state_default its" "\<forall>t\<in>set (states state_default its). state_source t < n"
  shows "\<exists>l. parse_mappings (render False its) n options = Done l \<and>
    named l = (let rows = map mapping_of (states state_default its) in
               if sort_option options then sort_key (\<lambda>m. position (generated m)) rows else rows)"
proof -
  obtain st where st: "mappings_loop options n (length (render False its)) parse_init (render False its) = Done st"
    "named (p_mapping st) = map mapping_of (states state_default its)"
    using parse_loop_render [OF matches_init assms, of options "length (render False its)"] by (auto simp: parse_init_def)
  have "parse_inv n st" using parse_inv_loop [OF st(1) parse_inv_init] .
  then have "p_needs_sort st \<or> sorted (map (\<lambda>m. position (generated m)) (named (p_mapping st)))"
    by (auto simp: parse_inv_def rows_ordered_def sorted_append)
  then show ?thesis
    using st by (auto simp: parse_mappings_def named_list_sort Let_def sort_key_id_if_sorted)
qed

section \<open>Emitting\<close>

lemma render_breaks: "render comma (replicate k Break @ its) = replicate k (CHR '';'') @ render (comma \<and> k = 0) its"
  by (induction k arbitrary: comma) auto

lemma set_vlq_slice: "vlq_ok v \<Longrightarrow> set (vlq_slice (vlq_encode v)) \<subseteq> set BASE64 \<and> vlq_slice (vlq_encode v) \<noteq> []"
proof -
  assume v: "vlq_ok v"
  have "set (vlq_slice (vlq_encode v)) \<subseteq> set BASE64"
    using v digits_bound [of _ "sign_magnitude v"] by (auto simp: vlq_encode_text vlq_ok_def vlq_text_def length_BASE64)
  then show ?thesis using vlq_text_hd [OF v] by auto
qed

definition prefix_ok :: "bytes \<Rightarrow> bool" where
  "prefix_ok p \<longleftrightarrow> p = [] \<or> last p = CHR 0x22"

definition needs_comma :: "u8 \<Rightarrow> bool" where
  "needs_comma last_byte \<longleftrightarrow> last_byte \<noteq> CHR 0x00 \<and> last_byte \<noteq> CHR '';'' \<and> last_byte \<noteq> CHR 0x22"

lemma needs_comma_render:
  assumes "prefix_ok p" "list_all item_ok its"
  shows "needs_comma (last_byte_of (p @ render False its)) \<longleftrightarrow> after_items False its"
  using assms(2)
proof (induction its rule: rev_induct)
  case Nil
  then show ?case using assms(1) by (auto simp: prefix_ok_def needs_comma_def last_byte_of_def)
next
  case (snoc it its)
  show ?case
  proof (cases it)
    case Break
    then show ?thesis by (simp add: render_append after_items_append last_byte_of_def needs_comma_def)
  next
    case (Seg a b c d)
    let ?d = "vlq_slice (vlq_encode d)"
    have "set ?d \<subseteq> set BASE64" "?d \<noteq> []" using set_vlq_slice [of d] snoc.prems Seg by auto
    then have "last ?d \<in> set BASE64" "?d \<noteq> []" using last_in_set by blast+
    then show ?thesis
      using Seg BASE64_no_separator by (auto simp: render_append after_items_append last_byte_of_def needs_comma_def)
  qed
qed

lemma items_ok_items: "items_ok s its \<Longrightarrow> list_all item_ok its"
  by (induction its arbitrary: s) auto

text \<open>The differences of two states in range are encoded without saturating.\<close>

definition delta_seg :: "SourceMapState \<Rightarrow> SourceMapState \<Rightarrow> item" where
  "delta_seg prev cur =
     Seg (generated_column cur - generated_column prev) (state_source cur - state_source prev)
       (original_line cur - original_line prev) (original_column cur - original_column prev)"

lemma delta_in_range:
  "ordinal_ok x \<Longrightarrow> ordinal_ok y \<Longrightarrow> saturating_sub x y = x - y \<and> vlq_ok (x - y)"
  by (auto simp: ordinal_ok_def is_i32_def saturating_sub_def vlq_ok_def I32_MIN_def)

lemma append_mapping_to_buffer_render:
  assumes "state_ok prev" "state_ok cur"
  shows "append_mapping_to_buffer buf lb prev cur = buf @ render (needs_comma lb) [delta_seg prev cur]"
    "item_ok (delta_seg prev cur)"
  using assms
  by (simp_all add: append_mapping_to_buffer_def delta_seg_def state_ok_def delta_in_range needs_comma_def Let_def)

lemma advance_delta_seg: "generated_line cur = generated_line prev \<Longrightarrow> advance prev (delta_seg prev cur) = cur"
  by (simp add: delta_seg_def)

text \<open>What a writer has emitted so far: the text of the items, which lead to the previous state.\<close>

definition emitted :: "VLQSourceMap \<Rightarrow> SourceMapState \<Rightarrow> item list \<Rightarrow> bool" where
  "emitted m prev its \<longleftrightarrow> vsm_data m = render False its \<and> vsm_offset m = 0 \<and> items_ok state_default its
     \<and> prev = foldl advance state_default its \<and> vsm_count m = length (states state_default its)"

lemma state_default_ok: "state_ok state_default"
  by (simp add: state_ok_def state_default_def ordinal_ok_def is_i32_def)

lemma emitted_init: "emitted vsm_init state_default []"
  by (simp add: emitted_def vsm_init_def state_default_ok)

lemma items_ok_last: "items_ok s its \<Longrightarrow> state_ok (foldl advance s its)"
  by (induction its arbitrary: s) auto

lemma emitted_append:
  assumes "emitted m prev its" "state_ok cur" "generated_line cur = generated_line prev"
  shows "emitted (vsm_append cur prev m) cur (its @ [delta_seg prev cur])"
    "states state_default (its @ [delta_seg prev cur]) = states state_default its @ [cur]"
proof -
  have prev: "state_ok prev" "foldl advance state_default its = prev"
    using assms(1) items_ok_last by (auto simp: emitted_def)
  have "(if length (vsm_data m) > vsm_offset m then last (vsm_data m) else CHR 0x00) = last_byte_of (render False its)"
    using assms(1) by (auto simp: emitted_def last_byte_of_def)
  moreover have "needs_comma (last_byte_of (render False its)) = after_items False its"
    using needs_comma_render [of "[]" its] assms(1) items_ok_items by (auto simp: emitted_def prefix_ok_def)
  ultimately have "vsm_data (vsm_append cur prev m) = render False (its @ [delta_seg prev cur])"
    using assms(1) append_mapping_to_buffer_render(1) [OF prev(1) assms(2)]
    by (simp add: vsm_append_def render_append emitted_def Let_def)
  moreover show st: "states state_default (its @ [delta_seg prev cur]) = states state_default its @ [cur]"
    using prev(2) advance_delta_seg [OF assms(3)] by (simp add: states_append delta_seg_def)
  moreover have "items_ok state_default (its @ [delta_seg prev cur])"
    using assms prev append_mapping_to_buffer_render(2) [OF prev(1) assms(2)] advance_delta_seg [OF assms(3)]
    by (auto simp: items_ok_append emitted_def)
  ultimately show "emitted (vsm_append cur prev m) cur (its @ [delta_seg prev cur])"
    using assms prev advance_delta_seg [OF assms(3)] by (simp add: emitted_def vsm_append_def Let_def)
qed

lemma emitted_line_separator:
  assumes "emitted m prev its" "generated_line prev + 1 < 2 ^ 31"
  shows "emitted (vsm_append_line_separator m) (advance prev Break) (its @ [Break])"
    "states state_default (its @ [Break]) = states state_default its"
proof -
  have "state_ok prev" using assms(1) items_ok_last by (auto simp: emitted_def)
  then have "state_ok (advance prev Break)" using assms(2) by (auto simp: state_ok_def ordinal_ok_def is_i32_def)
  then show "emitted (vsm_append_line_separator m) (advance prev Break) (its @ [Break])"
    using assms(1) items_ok_last
    by (auto simp: emitted_def vsm_append_line_separator_def render_append items_ok_append states_append)
qed (simp add: states_append)

lemma render_example: "render False [Seg 0 0 0 0, Break, Seg 4 0 2 3] = ''AAAA;IAEG''"
proof -
  have "vlq_slice (encode_slow_path 0) = ''A''" "vlq_slice (encode_slow_path 4) = ''I''" "vlq_slice (encode_slow_path 2) = ''E''"
    "vlq_slice (encode_slow_path 3) = ''G''"
    by code_simp+
  then show ?thesis by (simp add: vlq_encode_slow)
qed

theorem parsed_lookup_correct_witness:
  "\<exists>l r. parse_mappings ''AAAA;IAEG'' 1 \<lparr>allow_names = False, sort_option = True\<rparr> = Done l
    \<and> (\<forall>m\<in>set (named l). row_ok 1 m) \<and> list_find l 1 5 = Some r"
proof -
  let ?its = "[Seg 0 0 0 0, Break, Seg 4 0 2 3]"
  have "items_ok state_default ?its" "\<forall>t\<in>set (states state_default ?its). state_source t < 1"
    by (simp_all add: state_default_def state_ok_def ordinal_ok_def is_i32_def vlq_ok_def I32_MIN_def)
  from parse_mappings_render [OF this, of "\<lparr>allow_names = False, sort_option = True\<rparr>", unfolded render_example]
  obtain l where l: "parse_mappings ''AAAA;IAEG'' 1 \<lparr>allow_names = False, sort_option = True\<rparr> = Done l" by blast
  show ?thesis using parsed_lookup_correct [OF l, of 1 5] l by auto
qed

end
