(* ===== verification/SourceMapJoin.thy ===== *)
theory SourceMapJoin
  imports SourceMapEmit
begin

text \<open>
  Joining source maps: \<^verbatim>\<open>append_source_map_chunk\<close> of \<^verbatim>\<open>src/sourcemap/lib.rs\<close> and the loop of
  \<^verbatim>\<open>generate_source_map_for_chunk\<close> (\<^verbatim>\<open>src/bundler/LinkerContext.rs\<close>) that joins the chunks of a bundle. The
  chunks are printed in parallel, each from the zero state, and only the first segment of each is
  rewritten. A \<^verbatim>\<open>StringJoiner\<close> is the text pushed so far.
\<close>

section \<open>Operations\<close>

text \<open>\<^verbatim>\<open>+\<close> on \<^verbatim>\<open>i32\<close> panics on overflow.\<close>

definition add_i32 :: "int \<Rightarrow> int \<Rightarrow> int option" where
  "add_i32 x y = (if is_i32 (x + y) then Some (x + y) else None)"

definition append_source_map_chunk ::
  "bytes \<Rightarrow> SourceMapState \<Rightarrow> SourceMapState \<Rightarrow> bytes \<Rightarrow> bytes option" where
  "append_source_map_chunk j0 prev_end_state0 start_state0 source_map0 =
     (if generated_line start_state0 < 0 then None else
      let (j1, prev1) =
            (if generated_line start_state0 \<noteq> 0
             then (j0 @ replicate (nat (generated_line start_state0)) (CHR '';''), prev_end_state0\<lparr>generated_column := 0\<rparr>)
             else (j0, prev_end_state0));
          semicolons = length (takeWhile (\<lambda>c. c = CHR '';'') source_map0);
          (j2, source_map, prev_end_state, start_state) =
            (if 0 < semicolons \<and> semicolons < length source_map0
             then (j1 @ take semicolons source_map0, drop semicolons source_map0,
                   prev1\<lparr>generated_column := 0\<rparr>, start_state0\<lparr>generated_column := 0\<rparr>)
             else (j1, source_map0, prev1, start_state0))
      in do {
        r1 \<leftarrow> decode_vlq_assume_valid source_map 0;
        r2 \<leftarrow> decode_vlq_assume_valid source_map (vlq_start r1);
        r3 \<leftarrow> decode_vlq_assume_valid source_map (vlq_start r2);
        r4 \<leftarrow> decode_vlq_assume_valid source_map (vlq_start r3);
        src \<leftarrow> add_i32 (state_source start_state) (vlq_value r2);
        col \<leftarrow> add_i32 (generated_column start_state) (vlq_value r1);
        ol \<leftarrow> add_i32 (original_line start_state) (vlq_value r3);
        oc \<leftarrow> add_i32 (original_column start_state) (vlq_value r4);
        let start_state = start_state\<lparr>state_source := src, generated_column := col, original_line := ol, original_column := oc\<rparr>;
        Some (j2 @ append_mapping_to_buffer [] (last_byte_of j2) prev_end_state start_state
              @ drop (vlq_start r4) source_map)
      })"

record Chunk =
  chunk_buffer :: bytes
  end_state :: SourceMapState
  final_generated_column :: int
  chunk_should_ignore :: bool

record compile_result =
  result_chunk :: Chunk
  result_offset :: LineColumnOffset
  result_source :: int

definition link_chunk ::
  "bytes \<times> SourceMapState \<times> int \<Rightarrow> compile_result \<Rightarrow> (bytes \<times> SourceMapState \<times> int) option" where
  "link_chunk = (\<lambda>(j, prev_end_state, prev_column_offset) r. do {
     let chunk = result_chunk r;
     let offset = result_offset r;
     col \<leftarrow> (if lines offset = 0 then add_i32 (columns offset) prev_column_offset else Some (columns offset));
     let start_state = \<lparr>generated_line = lines offset, generated_column = col, state_source = result_source r,
                        original_line = 0, original_column = 0\<rparr>;
     j \<leftarrow> append_source_map_chunk j prev_end_state start_state (chunk_buffer chunk);
     let prev_end_state = (end_state chunk)\<lparr>state_source := result_source r\<rparr>;
     if generated_line prev_end_state = 0 then do {
       end_col \<leftarrow> add_i32 (generated_column prev_end_state) (generated_column start_state);
       final_col \<leftarrow> add_i32 (final_generated_column chunk) (generated_column start_state);
       Some (j, prev_end_state\<lparr>generated_column := end_col\<rparr>, final_col)
     } else Some (j, prev_end_state, final_generated_column chunk)
   })"

fun link_chunks ::
  "bytes \<times> SourceMapState \<times> int \<Rightarrow> compile_result list \<Rightarrow> (bytes \<times> SourceMapState \<times> int) option" where
  "link_chunks s [] = Some s"
| "link_chunks s (r # rs) = do { s \<leftarrow> link_chunk s r; link_chunks s rs }"

text \<open>The text between the quotes of the member \<^verbatim>\<open>mappings\<close>, which the prefix of the JSON ends with a quote in front of.\<close>

definition link_mappings :: "bytes \<Rightarrow> compile_result list \<Rightarrow> bytes option" where
  "link_mappings prefix results = do {
     (j, _, _) \<leftarrow> link_chunks (prefix, state_default, 0) results;
     Some (drop (length prefix) j)
   }"

section \<open>Joining as lists of items\<close>

text \<open>Where a state of a chunk lands when the chunk is placed at a line and column, with its own source.\<close>

definition place_state :: "int \<Rightarrow> int \<Rightarrow> int \<Rightarrow> SourceMapState \<Rightarrow> SourceMapState" where
  "place_state line col src s =
     s\<lparr>generated_line := line + generated_line s,
       generated_column := (if generated_line s = 0 then col + generated_column s else generated_column s),
       state_source := src + state_source s\<rparr>"

lemma state_source_place: "state_source (place_state line col src s) = src + state_source s"
  by (simp add: place_state_def)

lemma advance_place:
  "0 \<le> generated_line s \<Longrightarrow> advance (place_state line col src s) it = place_state line col src (advance s it)"
  by (cases it) (auto simp: place_state_def)

lemma line_advance: "generated_line s \<le> generated_line (advance s it)"
  by (cases it) auto

lemma states_Cons: "states s (it # its) = (if it = Break then [] else [advance s it]) @ states (advance s it) its"
  by (cases it) auto

lemma states_place:
  "0 \<le> generated_line s \<Longrightarrow>
   states (place_state line col src s) its = map (place_state line col src) (states s its)
   \<and> foldl advance (place_state line col src s) its = place_state line col src (foldl advance s its)"
proof (induction its arbitrary: s)
  case (Cons it its)
  have "0 \<le> generated_line (advance s it)" using Cons.prems line_advance [of s it] by linarith
  then show ?case using Cons.IH [of "advance s it"] advance_place [OF Cons.prems] by (simp add: states_Cons)
qed simp

lemma foldl_breaks:
  "foldl advance s (replicate k Break) =
     (if k = 0 then s else s\<lparr>generated_line := generated_line s + int k, generated_column := 0\<rparr>)"
  by (induction k arbitrary: s) auto

lemma states_breaks: "states s (replicate k Break @ its) = states (foldl advance s (replicate k Break)) its"
  by (induction k arbitrary: s) auto

lemma states_only_breaks [simp]: "states s (replicate k Break) = []"
  by (induction k arbitrary: s) auto

lemma takeWhile_replicate_append: "x \<noteq> a \<Longrightarrow> takeWhile (\<lambda>c. c = a) (replicate k a @ x # xs) = replicate k a"
  by (induction k) auto

lemma append_mapping_to_buffer_line:
  "append_mapping_to_buffer buf lb (P\<lparr>generated_line := x\<rparr>) (T\<lparr>generated_line := y\<rparr>) = append_mapping_to_buffer buf lb P T"
  by (simp add: append_mapping_to_buffer_def)

lemma decode_segment:
  fixes rest :: bytes
  assumes "item_ok (Seg a b c d)"
  defines "t \<equiv> vlq_slice (vlq_encode a) @ vlq_slice (vlq_encode b) @ vlq_slice (vlq_encode c) @ vlq_slice (vlq_encode d) @ rest"
  defines "la \<equiv> length (vlq_slice (vlq_encode a))"
  defines "lb \<equiv> la + length (vlq_slice (vlq_encode b))"
  defines "lc \<equiv> lb + length (vlq_slice (vlq_encode c))"
  defines "ld \<equiv> lc + length (vlq_slice (vlq_encode d))"
  shows "decode_vlq_assume_valid t 0 = Some \<lparr>vlq_value = a, vlq_start = la\<rparr>"
    "decode_vlq_assume_valid t la = Some \<lparr>vlq_value = b, vlq_start = lb\<rparr>"
    "decode_vlq_assume_valid t lb = Some \<lparr>vlq_value = c, vlq_start = lc\<rparr>"
    "decode_vlq_assume_valid t lc = Some \<lparr>vlq_value = d, vlq_start = ld\<rparr>" "drop ld t = rest"
proof -
  have ok: "vlq_ok a" "vlq_ok b" "vlq_ok c" "vlq_ok d" using assms(1) by auto
  note dec = decode_encode [where av = True, folded decode_vlq_assume_valid_def]
  show "decode_vlq_assume_valid t 0 = Some \<lparr>vlq_value = a, vlq_start = la\<rparr>"
    using dec [of a "[]"] ok(1) by (simp add: vlq_ok_def t_def la_def)
  show "decode_vlq_assume_valid t la = Some \<lparr>vlq_value = b, vlq_start = lb\<rparr>"
    using dec [of b "vlq_slice (vlq_encode a)"] ok(2) by (simp add: vlq_ok_def t_def la_def lb_def)
  show "decode_vlq_assume_valid t lb = Some \<lparr>vlq_value = c, vlq_start = lc\<rparr>"
    using dec [of c "vlq_slice (vlq_encode a) @ vlq_slice (vlq_encode b)"] ok(3) by (simp add: vlq_ok_def t_def la_def lb_def lc_def)
  show "decode_vlq_assume_valid t lc = Some \<lparr>vlq_value = d, vlq_start = ld\<rparr>"
    using dec [of d "vlq_slice (vlq_encode a) @ vlq_slice (vlq_encode b) @ vlq_slice (vlq_encode c)"] ok(4)
    by (simp add: vlq_ok_def t_def la_def lb_def lc_def ld_def add.assoc)
  show "drop ld t = rest" by (simp add: t_def la_def lb_def lc_def ld_def)
qed

text \<open>
  The rewritten first segment: after the line breaks in front of it, the decoder's state \<open>S\<close> of the text
  so far leads to the first state of the chunk, placed.
\<close>

lemma append_source_map_chunk_items:
  assumes "prefix_ok p" "items_ok state_default jits" "S = foldl advance state_default jits"
    and start: "0 \<le> generated_line start" "original_line start = 0" "original_column start = 0"
    and prev: "prev\<lparr>generated_line := generated_line S\<rparr> = S"
    and chunk: "its = replicate k Break @ Seg a b c d # rest" "items_ok state_default its"
    and first: "s1 = place_state (generated_line S + generated_line start) (generated_column start) (state_source start)
        (advance (foldl advance state_default (replicate k Break)) (Seg a b c d))"
      "state_ok s1"
  shows "\<exists>seg. append_source_map_chunk (p @ render False jits) prev start (render False its) =
      Some (p @ render False (jits @ replicate (nat (generated_line start)) Break @ replicate k Break @ seg # rest)) \<and>
    item_ok seg \<and> seg \<noteq> Break \<and> advance (foldl advance S (replicate (nat (generated_line start) + k) Break)) seg = s1"
proof -
  let ?gl = "generated_line start" and ?n = "nat (generated_line start) + k"
  let ?S = "foldl advance S (replicate ?n Break)"
  let ?seg = "delta_seg ?S s1"
  let ?text = "render False (Seg a b c d # rest)"
  have item: "item_ok (Seg a b c d)" "list_all item_ok jits" using chunk items_ok_items assms(2) by (auto simp: items_ok_append)
  have S: "state_ok S" using assms(2,3) items_ok_last by simp
  have s1: "generated_line s1 = generated_line S + ?gl + int k" "state_source s1 = state_source start + b"
    "generated_column s1 = (if k = 0 then generated_column start else 0) + a" "original_line s1 = c" "original_column s1 = d"
    using first(1) by (auto simp: foldl_breaks place_state_def state_default_def)
  have S': "state_ok ?S" "generated_line ?S = generated_line s1"
    using S first(2) s1(1) start(1) by (auto simp: foldl_breaks state_ok_def ordinal_ok_def is_i32_def)
  have add: "add_i32 (state_source start) b = Some (state_source s1)"
    "add_i32 (if k = 0 then generated_column start else 0) a = Some (generated_column s1)"
    "add_i32 0 c = Some (original_line s1)" "add_i32 0 d = Some (original_column s1)"
    using first(2) s1 by (auto simp: add_i32_def state_ok_def ordinal_ok_def)
  obtain x xs where x: "?text = x # xs" "x \<noteq> CHR '';''"
    using vlq_text_hd [of a] item(1) BASE64_no_separator by fastforce
  have tx: "render False its = replicate k (CHR '';'') @ ?text" unfolding chunk(1) render_breaks by simp
  have semis: "length (takeWhile (\<lambda>c. c = CHR '';'') (render False its)) = k" "k < length (render False its)"
    using x unfolding tx by (simp_all add: takeWhile_replicate_append)
  define j2 where "j2 = p @ render False (jits @ replicate ?n Break)"
  have j2: "p @ render False jits @ replicate (nat ?gl) (CHR '';'') @ replicate k (CHR '';'') = j2"
    by (simp add: j2_def render_append render_breaks [where its = "[]", simplified] replicate_add)
  have "list_all item_ok (jits @ replicate ?n Break)" using item(2) by (auto simp: list_all_iff)
  then have comma: "needs_comma (last_byte_of j2) = after_items False (jits @ replicate ?n Break)"
    unfolding j2_def by (rule needs_comma_render [OF assms(1)])
  have buf: "append_mapping_to_buffer [] (last_byte_of j2) P T = render (needs_comma (last_byte_of j2)) [?seg]"
    if "P\<lparr>generated_line := generated_line s1\<rparr> = ?S" "T\<lparr>generated_line := generated_line s1\<rparr> = s1" for P T
  proof -
    have "append_mapping_to_buffer [] (last_byte_of j2) P T = append_mapping_to_buffer [] (last_byte_of j2) ?S s1"
      using append_mapping_to_buffer_line [where P = P and T = T and x = "generated_line s1" and y = "generated_line s1"]
      unfolding that by (rule sym)
    then show ?thesis using append_mapping_to_buffer_render(1) [OF S'(1) first(2)] by simp
  qed
  have "append_source_map_chunk (p @ render False jits) prev start (render False its) =
      Some (j2 @ render (needs_comma (last_byte_of j2)) [?seg] @ render True rest)"
  proof -
    define P where "P = (if ?n = 0 then prev else prev\<lparr>generated_column := 0\<rparr>)"
    define T where "T = start\<lparr>state_source := state_source s1, generated_column := generated_column s1,
      original_line := original_line s1, original_column := original_column s1\<rparr>"
    have "generated_column S = generated_column prev" "state_source S = state_source prev"
      "original_line S = original_line prev" "original_column S = original_column prev"
      using prev by (metis SourceMapState.select_convs SourceMapState.surjective SourceMapState.update_convs(1))+
    then have "P\<lparr>generated_line := generated_line s1\<rparr> = ?S" "T\<lparr>generated_line := generated_line s1\<rparr> = s1"
      using s1(1) start(1) by (auto simp: P_def T_def foldl_breaks intro!: SourceMapState.equality)
    note buf = buf [OF this]
    define t where "t = ?text"
    define u where "u = render False its"
    obtain la lb lc ld where dec: "decode_vlq_assume_valid t 0 = Some \<lparr>vlq_value = a, vlq_start = la\<rparr>"
      "decode_vlq_assume_valid t la = Some \<lparr>vlq_value = b, vlq_start = lb\<rparr>"
      "decode_vlq_assume_valid t lb = Some \<lparr>vlq_value = c, vlq_start = lc\<rparr>"
      "decode_vlq_assume_valid t lc = Some \<lparr>vlq_value = d, vlq_start = ld\<rparr>" "drop ld t = render True rest"
      using decode_segment [OF item(1), of "render True rest"] by (simp add: t_def)
    have cut: "drop k u = t" "take k u = replicate k (CHR '';'')" "length (takeWhile (\<lambda>c. c = CHR '';'') u) = k" "k < length u"
      using semis unfolding u_def t_def tx by simp_all
    let ?j = "(p @ render False jits) @ replicate (nat ?gl) (CHR '';'') @ replicate k (CHR '';'')"
    have "append_source_map_chunk (p @ render False jits) prev start u =
        Some (?j @ append_mapping_to_buffer [] (last_byte_of ?j) P T @ render True rest)"
      using start add cut
      by (cases "?gl = 0"; cases "k = 0") (simp_all add: append_source_map_chunk_def P_def T_def dec)
    then show ?thesis unfolding append_assoc [of p] j2 buf u_def .
  qed
  moreover have "j2 @ render (needs_comma (last_byte_of j2)) [?seg] @ render True rest =
      p @ render False (jits @ replicate (nat ?gl) Break @ replicate k Break @ ?seg # rest)"
    unfolding comma by (simp add: j2_def render_append after_items_append replicate_add delta_seg_def)
  moreover have "item_ok ?seg" "?seg \<noteq> Break"
    using append_mapping_to_buffer_render(2) [OF S'(1) first(2)] by (simp_all add: delta_seg_def)
  moreover have "advance ?S ?seg = s1" using advance_delta_seg S'(2) by simp
  ultimately show ?thesis by auto
qed

section \<open>Linking the chunks of a bundle\<close>

text \<open>A chunk of one source, printed from the zero state, with at least one mapping, and the states it records.\<close>

definition chunk_items :: "Chunk \<Rightarrow> item list \<Rightarrow> bool" where
  "chunk_items c its \<longleftrightarrow> chunk_buffer c = render False its \<and> items_ok state_default its
     \<and> end_state c = foldl advance state_default its"

definition chunk_states :: "Chunk \<Rightarrow> SourceMapState list \<Rightarrow> bool" where
  "chunk_states c ss \<longleftrightarrow> (\<exists>its. chunk_items c its \<and> ss = states state_default its) \<and> ss \<noteq> []
     \<and> (\<forall>s\<in>set ss. state_source s = 0)"

text \<open>The position that text at \<open>b\<close> has when it follows text that ends at \<open>a\<close>\<close>

definition offset_plus :: "LineColumnOffset \<Rightarrow> LineColumnOffset \<Rightarrow> LineColumnOffset" where
  "offset_plus a b =
     (if lines b = 0 then \<lparr>lines = lines a, columns = columns a + columns b\<rparr>
      else \<lparr>lines = lines a + lines b, columns = columns b\<rparr>)"

definition chunk_end :: "Chunk \<Rightarrow> LineColumnOffset" where
  "chunk_end c = \<lparr>lines = generated_line (end_state c), columns = final_generated_column c\<rparr>"

text \<open>The rows of the linked map: those of each chunk, moved to where the chunk starts, with the chunk's source.\<close>

definition placed_row :: "LineColumnOffset \<Rightarrow> int \<Rightarrow> Mapping \<Rightarrow> Mapping" where
  "placed_row start src m = m\<lparr>generated := offset_plus start (generated m), source_index := src\<rparr>"

fun link_rows :: "LineColumnOffset \<Rightarrow> (compile_result \<times> SourceMapState list) list \<Rightarrow> Mapping list" where
  "link_rows cur [] = []"
| "link_rows cur ((r, ss) # rs) =
     (let start = offset_plus cur (result_offset r) in
      map (\<lambda>s. placed_row start (result_source r) (mapping_of s)) ss
      @ link_rows (offset_plus start (chunk_end (result_chunk r))) rs)"

text \<open>Every position fits its \<^verbatim>\<open>i32\<close>.\<close>

fun link_ok :: "int \<Rightarrow> LineColumnOffset \<Rightarrow> (compile_result \<times> SourceMapState list) list \<Rightarrow> bool" where
  "link_ok n cur [] \<longleftrightarrow> True"
| "link_ok n cur ((r, ss) # rs) \<longleftrightarrow>
     (let start = offset_plus cur (result_offset r) in
      chunk_states (result_chunk r) ss \<and> offset_ok (result_offset r) \<and> offset_ok start
      \<and> 0 \<le> result_source r \<and> result_source r < n \<and> is_i32 n
      \<and> (\<forall>s\<in>set ss. offset_ok (offset_plus start (generated (mapping_of s))))
      \<and> offset_ok (offset_plus start (chunk_end (result_chunk r)))
      \<and> link_ok n (offset_plus start (chunk_end (result_chunk r))) rs)"

lemma first_segment:
  assumes "states s its \<noteq> []"
  shows "\<exists>k a b c d rest. its = replicate k Break @ Seg a b c d # rest"
  using assms
proof (induction its arbitrary: s)
  case (Cons it its)
  show ?case
  proof (cases it)
    case Break
    then obtain k a b c d rest where "its = replicate k Break @ Seg a b c d # rest" using Cons.IH [of "advance s Break"] Cons.prems by auto
    then show ?thesis using Break by (intro exI [of _ "Suc k"]) auto
  next
    case (Seg a b c d)
    then have "it # its = replicate 0 Break @ Seg a b c d # its" by simp
    then show ?thesis by blast
  qed
qed simp

lemma items_ok_states: "items_ok s its \<Longrightarrow> t \<in> set (states s its) \<Longrightarrow> state_ok t"
proof (induction its arbitrary: s)
  case (Cons it its)
  then show ?case by (cases it) (auto dest: items_ok_state)
qed simp

lemma items_ok_intro:
  assumes "list_all item_ok its" "state_ok s" "\<forall>t\<in>set (states s its). state_ok t"
    "ordinal_ok (generated_line (foldl advance s its))"
  shows "items_ok s its"
  using assms
proof (induction its arbitrary: s)
  case (Cons it its)
  have mono: "generated_line t \<le> generated_line (foldl advance t xs)" for t xs
    by (induction xs arbitrary: t) (auto intro: order_trans [OF line_advance])
  have "state_ok (advance s it)"
  proof (cases it)
    case Break
    then have "generated_line s + 1 \<le> generated_line (foldl advance s (it # its))" using mono [of "advance s it" its] by simp
    then show ?thesis using Cons.prems(2,4) Break by (auto simp: state_ok_def ordinal_ok_def is_i32_def)
  next
    case (Seg a b c d)
    then show ?thesis using Cons.prems(3) by simp
  qed
  then show ?case using Cons.IH [of "advance s it"] Cons.prems by (cases it) auto
qed simp

lemma source_zero:
  assumes "\<forall>t\<in>set (states s its). state_source t = 0" "state_source s = 0"
  shows "state_source (foldl advance s its) = 0"
  using assms
proof (induction its arbitrary: s)
  case (Cons it its)
  then show ?case by (cases it) auto
qed simp

lemma mapping_of_place:
  "mapping_of (place_state (lines p) (columns p) src s) = placed_row p (src + state_source s) (mapping_of s)"
  by (simp add: place_state_def mapping_of_def placed_row_def offset_plus_def)

lemma link_chunk_items:
  assumes "prefix_ok p" "items_ok state_default jits" "S = foldl advance state_default jits"
    and prev: "prev\<lparr>generated_line := generated_line S\<rparr> = S" "lines cur = generated_line S"
    and ok: "link_ok n cur [(r, ss)]" "\<forall>t\<in>set (states state_default jits). state_source t < n"
    and start: "start = offset_plus cur (result_offset r)"
  shows "\<exists>jits' prev' S'. link_chunk (p @ render False jits, prev, columns cur) r =
      Some (p @ render False jits', prev', columns (offset_plus start (chunk_end (result_chunk r)))) \<and>
    items_ok state_default jits' \<and> S' = foldl advance state_default jits' \<and>
    prev'\<lparr>generated_line := generated_line S'\<rparr> = S' \<and>
    lines (offset_plus start (chunk_end (result_chunk r))) = generated_line S' \<and>
    (\<forall>t\<in>set (states state_default jits'). state_source t < n) \<and>
    map mapping_of (states state_default jits') =
      map mapping_of (states state_default jits) @ map (\<lambda>s. placed_row start (result_source r) (mapping_of s)) ss"
proof -
  let ?c = "result_chunk r" and ?o = "result_offset r"
  let ?place = "place_state (lines start) (columns start) (result_source r)"
  obtain its where its: "chunk_items ?c its" "ss = states state_default its" "ss \<noteq> []" "\<forall>s\<in>set ss. state_source s = 0"
    using ok(1) by (auto simp: chunk_states_def Let_def)
  obtain k a b c d rest where split: "its = replicate k Break @ Seg a b c d # rest"
    using first_segment its(2,3) by blast
  define f where "f = advance (foldl advance state_default (replicate k Break)) (Seg a b c d)"
  have ss: "ss = f # states f rest" and fin: "end_state ?c = foldl advance f rest"
    using its(1,2) by (simp_all add: split f_def states_breaks chunk_items_def states_Cons del: advance.simps)
  have items: "items_ok state_default its" "list_all item_ok rest" "0 \<le> generated_line f"
    using its(1) items_ok_items [of state_default its]
    by (auto simp: chunk_items_def split f_def foldl_breaks state_default_def)
  have lines: "lines start = generated_line S + lines ?o" "0 \<le> lines ?o"
    using start prev(2) ok(1) by (auto simp: offset_plus_def Let_def offset_ok_def ordinal_ok_def)
  have placed: "state_ok (?place t)" if t: "t \<in> set ss" for t
  proof -
    have "state_ok t" "state_source t = 0" using items_ok_states [OF items(1)] t its(2,4) by auto
    moreover have "offset_ok (offset_plus start (generated (mapping_of t)))" "0 \<le> result_source r" "result_source r < n" "is_i32 n"
      using ok(1) t start by (auto simp: Let_def)
    ultimately show ?thesis
      by (auto simp: state_ok_def place_state_def offset_plus_def mapping_of_def offset_ok_def ordinal_ok_def is_i32_def)
  qed
  have s1: "?place f = place_state (generated_line S + lines ?o) (columns start) (result_source r) f" using lines by simp
  let ?st = "\<lparr>generated_line = lines ?o, generated_column = columns start, state_source = result_source r,
      original_line = 0, original_column = 0\<rparr>"
  obtain seg where seg: "append_source_map_chunk (p @ render False jits) prev ?st (render False its) =
      Some (p @ render False (jits @ replicate (nat (lines ?o)) Break @ replicate k Break @ seg # rest))"
    "item_ok seg" "seg \<noteq> Break" "advance (foldl advance S (replicate (nat (lines ?o) + k) Break)) seg = ?place f"
    using append_source_map_chunk_items [OF assms(1-3) _ _ _ prev(1) split items(1), of ?st "?place f"] lines placed [of f] ss
    unfolding f_def [symmetric] s1 by auto
  define jits' where "jits' = jits @ replicate (nat (lines ?o)) Break @ replicate k Break @ seg # rest"
  have tail: "jits' = jits @ replicate (nat (lines ?o) + k) Break @ seg # rest"
    by (simp add: jits'_def replicate_add)
  have st: "states state_default jits' = states state_default jits @ map ?place ss"
    using seg(3,4) states_place [OF items(3), of "lines start" "columns start" "result_source r" rest] assms(3)
    by (simp add: tail states_append states_breaks states_Cons ss del: advance.simps)
  have S': "foldl advance state_default jits' = ?place (end_state ?c)"
    using seg(4) states_place [OF items(3), of "lines start" "columns start" "result_source r" rest] assms(3) fin
    by (simp add: tail)
  have end_ok: "offset_ok (offset_plus start (chunk_end ?c))" "offset_ok start" "result_source r < n" using ok(1) start by (simp_all add: Let_def)
  have end_line: "generated_line (?place (end_state ?c)) = lines (offset_plus start (chunk_end ?c))"
    by (simp add: place_state_def offset_plus_def chunk_end_def)
  have items': "items_ok state_default jits'"
  proof -
    have "state_ok S" using assms(2,3) items_ok_last by simp
    moreover have "list_all item_ok (replicate (nat (lines ?o) + k) Break @ seg # rest)"
      using seg(2) items(2) by (auto simp: list_all_iff)
    moreover have "states S (replicate (nat (lines ?o) + k) Break @ seg # rest) = map ?place ss"
      "foldl advance S (replicate (nat (lines ?o) + k) Break @ seg # rest) = ?place (end_state ?c)"
      using st S' assms(3) by (simp_all add: tail states_append)
    ultimately have "items_ok S (replicate (nat (lines ?o) + k) Break @ seg # rest)"
      using placed end_line end_ok(1) by (intro items_ok_intro) (auto simp: offset_ok_def)
    then show ?thesis using assms(2,3) by (simp add: tail items_ok_append)
  qed
  have src0: "state_source (end_state ?c) = 0"
    using source_zero [of state_default its] its by (simp add: chunk_items_def state_default_def)
  have place_end: "state_ok (?place (end_state ?c))" using items_ok_last [OF items'] S' by simp
  have cols: "columns (offset_plus start (chunk_end ?c)) =
      (if generated_line (end_state ?c) = 0 then final_generated_column ?c + columns start else final_generated_column ?c)"
    by (simp add: offset_plus_def chunk_end_def)
  have col: "(if lines ?o = 0 then add_i32 (columns ?o) (columns cur) else Some (columns ?o)) = Some (columns start)"
    using end_ok(2) start by (auto simp: offset_plus_def add_i32_def offset_ok_def ordinal_ok_def add.commute)
  have sums: "add_i32 (generated_column (end_state ?c)) (columns start) = Some (generated_column (end_state ?c) + columns start)"
    "add_i32 (final_generated_column ?c) (columns start) = Some (final_generated_column ?c + columns start)"
    if "generated_line (end_state ?c) = 0"
    using that place_end end_ok(1) cols
    by (auto simp: add_i32_def place_state_def state_ok_def ordinal_ok_def offset_ok_def add.commute)
  define prev' where "prev' = (end_state ?c)\<lparr>state_source := result_source r,
      generated_column := (if generated_line (end_state ?c) = 0 then generated_column (end_state ?c) + columns start
                           else generated_column (end_state ?c))\<rparr>"
  have "prev'\<lparr>generated_line := generated_line (?place (end_state ?c))\<rparr> = ?place (end_state ?c)"
    using src0 by (simp add: prev'_def place_state_def add.commute)
  moreover have "link_chunk (p @ render False jits, prev, columns cur) r =
      Some (p @ render False jits', prev', columns (offset_plus start (chunk_end ?c)))"
    using seg(1) its(1) col sums unfolding cols
    by (simp add: link_chunk_def chunk_items_def jits'_def prev'_def)
  moreover have "map mapping_of (states state_default jits') =
      map mapping_of (states state_default jits) @ map (\<lambda>s. placed_row start (result_source r) (mapping_of s)) ss"
    using its(4) by (simp add: st mapping_of_place)
  moreover have "\<forall>t\<in>set (states state_default jits'). state_source t < n"
    using its(4) ok(2) end_ok(3) by (auto simp: st state_source_place)
  ultimately show ?thesis
    using items' S' end_line by (intro exI [of _ jits'] exI [of _ prev'] exI [of _ "?place (end_state ?c)"]) simp
qed


lemma link_chunks_items:
  assumes "prefix_ok p" "items_ok state_default jits" "S = foldl advance state_default jits"
    "prev\<lparr>generated_line := generated_line S\<rparr> = S" "lines cur = generated_line S"
    "link_ok n cur rs" "\<forall>t\<in>set (states state_default jits). state_source t < n"
  shows "\<exists>jits' s. link_chunks (p @ render False jits, prev, columns cur) (map fst rs) = Some (p @ render False jits', s) \<and>
    items_ok state_default jits' \<and> (\<forall>t\<in>set (states state_default jits'). state_source t < n) \<and>
    map mapping_of (states state_default jits') = map mapping_of (states state_default jits) @ link_rows cur rs"
  using assms
proof (induction rs arbitrary: jits S prev cur)
  case (Cons rss rs)
  obtain r ss where rss: "rss = (r, ss)" by (cases rss)
  define start where "start = offset_plus cur (result_offset r)"
  define cur' where "cur' = offset_plus start (chunk_end (result_chunk r))"
  have ok: "link_ok n cur [(r, ss)]" "link_ok n cur' rs"
    using Cons.prems(6) by (auto simp: rss Let_def start_def cur'_def)
  obtain jits' prev' S' where j: "link_chunk (p @ render False jits, prev, columns cur) r = Some (p @ render False jits', prev', columns cur')"
    "items_ok state_default jits'" "S' = foldl advance state_default jits'" "prev'\<lparr>generated_line := generated_line S'\<rparr> = S'"
    "lines cur' = generated_line S'" "\<forall>t\<in>set (states state_default jits'). state_source t < n"
    "map mapping_of (states state_default jits') =
       map mapping_of (states state_default jits) @ map (\<lambda>s. placed_row start (result_source r) (mapping_of s)) ss"
    using link_chunk_items [OF Cons.prems(1-5) ok(1) Cons.prems(7) start_def] unfolding cur'_def by blast
  show ?case
    using Cons.IH [OF Cons.prems(1) j(2-5) ok(2) j(6)] j(1,7)
    by (auto simp: rss Let_def start_def cur'_def)
qed auto

text \<open>
  C18. Linking the chunks of a bundle: when every chunk holds the mappings of one source from the zero state
  and all positions fit, the joined text parses, and its rows are those of the chunks, each moved to where
  its chunk starts and with its chunk's source, in order.
\<close>

theorem linked_map_rows:
  assumes "prefix_ok p" "link_ok n START rs"
  shows "\<exists>t l. link_mappings p (map fst rs) = Some t \<and> parse_mappings t n \<lparr>allow_names = names, sort_option = False\<rparr> = Done l \<and>
    named l = link_rows START rs"
proof -
  obtain jits s where j: "link_chunks (p, state_default, 0) (map fst rs) = Some (p @ render False jits, s)"
    "items_ok state_default jits" "\<forall>t\<in>set (states state_default jits). state_source t < n"
    "map mapping_of (states state_default jits) = link_rows START rs"
    using link_chunks_items [OF assms(1), of "[]" state_default state_default START n rs] assms(2) state_default_ok
    by (auto simp: START_def state_default_def)
  then show ?thesis
    using parse_mappings_render [OF j(2,3), of "\<lparr>allow_names = names, sort_option = False\<rparr>"]
    by (cases s) (auto simp: link_mappings_def)
qed

theorem linked_map_rows_witness:
  "\<exists>t l. link_mappings [CHR 0x22]
      [\<lparr>result_chunk = \<lparr>chunk_buffer = ''AAAA'', end_state = state_default, final_generated_column = 3, chunk_should_ignore = False\<rparr>,
        result_offset = START, result_source = 0\<rparr>,
       \<lparr>result_chunk = \<lparr>chunk_buffer = ''AAAA'', end_state = state_default, final_generated_column = 5, chunk_should_ignore = False\<rparr>,
        result_offset = \<lparr>lines = 0, columns = 4\<rparr>, result_source = 1\<rparr>] = Some t
    \<and> parse_mappings t 2 \<lparr>allow_names = False, sort_option = False\<rparr> = Done l
    \<and> named l = [\<lparr>generated = START, original = START, source_index = 0, name_index = - 1\<rparr>,
        \<lparr>generated = \<lparr>lines = 0, columns = 7\<rparr>, original = START, source_index = 1, name_index = - 1\<rparr>]"
proof -
  let ?c = "\<lambda>n. \<lparr>chunk_buffer = ''AAAA'', end_state = state_default, final_generated_column = n, chunk_should_ignore = False\<rparr>"
  let ?rs = "[(\<lparr>result_chunk = ?c 3, result_offset = START, result_source = 0\<rparr>, [state_default]),
     (\<lparr>result_chunk = ?c 5, result_offset = \<lparr>lines = 0, columns = 4\<rparr>, result_source = 1\<rparr>, [state_default])]"
  have "vlq_slice (encode_slow_path 0) = ''A''" by code_simp
  then have "chunk_items (?c n) [Seg 0 0 0 0]" for n
    by (simp add: chunk_items_def vlq_encode_slow state_default_def state_ok_def ordinal_ok_def is_i32_def vlq_ok_def I32_MIN_def)
  then have "chunk_states (?c n) [state_default]" for n
    unfolding chunk_states_def by (intro conjI exI [of _ "[Seg 0 0 0 0]"]) (simp_all add: state_default_def)
  then have "link_ok 2 START ?rs"
    by (simp add: Let_def START_def state_default_def offset_ok_def offset_plus_def ordinal_ok_def is_i32_def mapping_of_def chunk_end_def)
  moreover have "prefix_ok [CHR 0x22]" by (simp add: prefix_ok_def)
  moreover have "link_rows START ?rs = [\<lparr>generated = START, original = START, source_index = 0, name_index = - 1\<rparr>,
        \<lparr>generated = \<lparr>lines = 0, columns = 7\<rparr>, original = START, source_index = 1, name_index = - 1\<rparr>]"
    by (simp add: START_def state_default_def offset_plus_def mapping_of_def chunk_end_def placed_row_def Let_def)
  ultimately show ?thesis using linked_map_rows [of "[CHR 0x22]" 2 ?rs False] by simp
qed

end
