(* ===== verification/Wtf8.thy ===== *)
theory Wtf8
  imports Bun_Prelude "HOL-Library.Monad_Syntax"
begin

text \<open>
  WTF-8, UTF-8 that also encodes unpaired surrogates, as \<^verbatim>\<open>src/bun_core\<close> reads and writes it: the length of
  a sequence from its first byte, \<^verbatim>\<open>encode_wtf8_rune\<close> (\<^verbatim>\<open>lib.rs\<close>), \<^verbatim>\<open>decode_wtf8_rune_t\<close>
  (\<^verbatim>\<open>string/immutable/unicode.rs\<close>) and the iterator \<^verbatim>\<open>CodepointIterator\<close> (\<^verbatim>\<open>string/immutable.rs\<close>). The search for
  the next control or non-ASCII byte is the scalar meaning of the vector kernel it calls. A \<^verbatim>\<open>CodePoint\<close> is
  an \<^verbatim>\<open>i32\<close>, here an integer.
\<close>

unbundle bit_operations_syntax

section \<open>Operations\<close>

definition wtf8_byte_sequence_length :: "u8 \<Rightarrow> nat" where
  "wtf8_byte_sequence_length first_byte =
     (let n = of_char first_byte :: nat in
      if n \<le> 0x7F then 1 else if 0xC0 \<le> n \<and> n \<le> 0xDF then 2 else if 0xE0 \<le> n \<and> n \<le> 0xEF then 3
      else if 0xF0 \<le> n \<and> n \<le> 0xF7 then 4 else 1)"

definition encode_wtf8_rune :: "nat \<Rightarrow> bytes" where
  "encode_wtf8_rune cp =
     (if cp < 0x80 then [char_of cp]
      else if cp < 0x800 then [char_of (0xC0 OR drop_bit 6 cp), char_of (0x80 OR (cp AND 0x3F))]
      else if cp < 0x10000 then
        [char_of (0xE0 OR drop_bit 12 cp), char_of (0x80 OR (drop_bit 6 cp AND 0x3F)), char_of (0x80 OR (cp AND 0x3F))]
      else
        [char_of (0xF0 OR drop_bit 18 cp), char_of (0x80 OR (drop_bit 12 cp AND 0x3F)),
         char_of (0x80 OR (drop_bit 6 cp AND 0x3F)), char_of (0x80 OR (cp AND 0x3F))])"

definition decode_wtf8_rune_t_multibyte :: "bytes \<Rightarrow> nat \<Rightarrow> int \<Rightarrow> int" where
  "decode_wtf8_rune_t_multibyte p len zero =
     (let p0 = of_char (p ! 0) :: nat; s1 = of_char (p ! 1) :: nat in
      if s1 AND 0xC0 \<noteq> 0x80 then zero
      else if len = 2 then
        let cp = push_bit 6 (p0 AND 0x1F) OR (s1 AND 0x3F) in
        if cp < 0x80 then zero else int cp
      else
        let s2 = of_char (p ! 2) :: nat in
        if s2 AND 0xC0 \<noteq> 0x80 then zero
        else if len = 3 then
          let cp = push_bit 12 (p0 AND 0x0F) OR push_bit 6 (s1 AND 0x3F) OR (s2 AND 0x3F) in
          if cp < 0x800 then zero else int cp
        else
          let s3 = of_char (p ! 3) :: nat in
          if s3 AND 0xC0 \<noteq> 0x80 then zero
          else
            let cp = push_bit 18 (p0 AND 0x07) OR push_bit 12 (s1 AND 0x3F) OR push_bit 6 (s2 AND 0x3F) OR (s3 AND 0x3F) in
            if cp < 0x10000 \<or> cp > 0x10FFFF then zero else int cp)"

definition decode_wtf8_rune_t :: "bytes \<Rightarrow> nat \<Rightarrow> int \<Rightarrow> int" where
  "decode_wtf8_rune_t p len zero =
     (if len = 0 then zero else if len = 1 then int (of_char (p ! 0)) else decode_wtf8_rune_t_multibyte p len zero)"

definition UNICODE_REPLACEMENT :: int where
  "UNICODE_REPLACEMENT = 0xFFFD"

text \<open>The four bytes that a decoder is given: the sequence, cut off at the end of the input and padded with zeros.\<close>

definition quad :: "nat \<Rightarrow> bytes \<Rightarrow> bytes" where
  "quad len tail = take len tail @ replicate (4 - min len (length tail)) (CHR 0x00)"

record Cursor =
  cur_i :: nat
  cur_width :: nat
  cur_c :: int

definition codepoint_next :: "bytes \<Rightarrow> Cursor \<Rightarrow> bool \<times> Cursor" where
  "codepoint_next bs cursor =
     (let pos = cur_i cursor + cur_width cursor in
      if pos \<ge> length bs then (False, cursor)
      else
        let tail = drop pos bs; first = hd tail in
        if of_char first < (0x80 :: nat) then (True, \<lparr>cur_i = pos, cur_width = 1, cur_c = int (of_char first)\<rparr>)
        else
          let len = wtf8_byte_sequence_length first; cp = decode_wtf8_rune_t (quad len tail) len (- 1) in
          if cp = - 1 then (True, \<lparr>cur_i = pos, cur_width = 1, cur_c = UNICODE_REPLACEMENT\<rparr>)
          else (True, \<lparr>cur_i = pos, cur_width = len, cur_c = cp\<rparr>))"

definition is_control_or_non_ascii :: "u8 \<Rightarrow> bool" where
  "is_control_or_non_ascii c \<longleftrightarrow> of_char c > (127 :: nat) \<or> of_char c < (0x20 :: nat)"

text \<open>\<^verbatim>\<open>None\<close> of the inner option: no such byte; the outer \<open>None\<close>: an offset past the end panics.\<close>

definition index_of_newline_or_non_ascii_check_start :: "bool \<Rightarrow> bytes \<Rightarrow> nat \<Rightarrow> nat option option" where
  "index_of_newline_or_non_ascii_check_start check_start input offset =
     (if length input < offset then None
      else
        let remaining = drop offset input in
        if remaining = [] then Some None
        else if check_start \<and> (of_char (hd remaining) > (127 :: nat)
               \<or> of_char (hd remaining) < (0x20 :: nat) \<and> hd remaining \<noteq> CHR 0x09) then Some (Some offset)
        else
          let i = length (takeWhile (\<lambda>c. \<not> is_control_or_non_ascii c) remaining) in
          Some (if i = length remaining then None else Some (i + offset)))"

definition index_of_newline_or_non_ascii :: "bytes \<Rightarrow> nat \<Rightarrow> nat option option" where
  "index_of_newline_or_non_ascii = index_of_newline_or_non_ascii_check_start True"

section \<open>Bits and arithmetic\<close>

lemma and_masks:
  fixes n :: nat
  shows "n AND 0x3F = n mod 64" "n AND 0x1F = n mod 32" "n AND 0x0F = n mod 16" "n AND 0x07 = n mod 8"
  using take_bit_eq_mask [of 6 n] take_bit_eq_mask [of 5 n] take_bit_eq_mask [of 4 n] take_bit_eq_mask [of 3 n]
  by (simp_all add: take_bit_eq_mod mask_numeral)

lemma and_C0: "n AND 0xC0 = 64 * (n div 64 mod 4)" for n :: nat
proof -
  have "n AND push_bit k m = push_bit k (drop_bit k n AND m)" for k m :: nat by (auto simp: bit_eq_iff bit_simps)
  from this [of 6 3] have "n AND 0xC0 = push_bit 6 (drop_bit 6 n AND 3)" by (simp add: push_bit_eq_mult)
  moreover have "m AND 3 = m mod 4" for m :: nat
    using take_bit_eq_mask [of 2 m] by (simp add: take_bit_eq_mod mask_eq_exp_minus_1)
  ultimately show ?thesis by (simp add: push_bit_eq_mult drop_bit_eq_div)
qed

lemma or_high: "m < 2 ^ j \<Longrightarrow> push_bit j d OR m = m + d * 2 ^ j" for m d :: nat
proof -
  assume m: "m < 2 ^ j"
  have "\<not> bit m n" if "j \<le> n" for n
    using m that by (metis bit_take_bit_iff not_less take_bit_nat_eq_self)
  then have "push_bit j d AND m = 0" by (auto simp: bit_eq_iff bit_simps)
  then show ?thesis by (simp add: push_bit_eq_mult flip: disjunctive_add_eq_or)
qed

lemma or_lead:
  fixes m :: nat
  shows "m < 128 \<Longrightarrow> 0x80 OR m = m + 128" "m < 64 \<Longrightarrow> 0xC0 OR m = m + 192" "m < 32 \<Longrightarrow> 0xE0 OR m = m + 224"
    "m < 16 \<Longrightarrow> 0xF0 OR m = m + 240"
  using or_high [of m 7 1] or_high [of m 6 3] or_high [of m 5 7] or_high [of m 4 15] by (simp_all add: push_bit_eq_mult)

lemmas wtf8_bits = and_masks and_C0 or_lead drop_bit_eq_div

section \<open>Decoding what was encoded\<close>

definition is_code_point :: "nat \<Rightarrow> bool" where
  "is_code_point cp \<longleftrightarrow> cp \<le> 0x10FFFF"

lemma length_encode: "length (encode_wtf8_rune cp) \<in> {1, 2, 3, 4}"
  by (simp add: encode_wtf8_rune_def)

lemma of_char_char_of_small: "n < 256 \<Longrightarrow> of_char (char_of n :: char) = (n :: nat)"
  by simp

text \<open>The codes of the bytes of a sequence\<close>

lemma encode_codes:
  assumes "is_code_point cp"
  shows "encode_wtf8_rune cp = map char_of
    (if cp < 0x80 then [cp]
     else if cp < 0x800 then [cp div 64 + 192, cp mod 64 + 128]
     else if cp < 0x10000 then [cp div 4096 + 224, cp div 64 mod 64 + 128, cp mod 64 + 128]
     else [cp div 262144 + 240, cp div 4096 mod 64 + 128, cp div 64 mod 64 + 128, cp mod 64 + 128])"
proof -
  have m: "x mod 64 < 128" for x :: nat using mod_less_divisor [of 64 x] by linarith
  have "cp < 0x800 \<Longrightarrow> cp div 64 < 64" "cp < 0x10000 \<Longrightarrow> cp div 4096 < 32" "cp div 262144 < 16"
    using assms by (simp_all add: is_code_point_def less_mult_imp_div_less)
  then show ?thesis by (simp add: encode_wtf8_rune_def and_masks drop_bit_eq_div or_lead m)
qed

lemma lead_bounds:
  assumes "is_code_point cp"
  shows "cp < 0x800 \<Longrightarrow> cp div 64 < 32" "cp < 0x10000 \<Longrightarrow> cp div 4096 < 16" "cp div 262144 < 5"
  using assms by (simp_all add: is_code_point_def less_mult_imp_div_less)

lemma encode_lead:
  assumes "is_code_point cp"
  shows "wtf8_byte_sequence_length (hd (encode_wtf8_rune cp)) = length (encode_wtf8_rune cp)"
  using lead_bounds [OF assms]
  by (auto simp: encode_codes [OF assms] wtf8_byte_sequence_length_def Let_def)

lemma split_code_point:
  fixes cp :: nat
  shows "cp mod 64 + cp div 64 * 64 = cp"
    "cp mod 64 + cp div 64 mod 64 * 64 + cp div 4096 * 4096 = cp"
    "cp mod 64 + cp div 64 mod 64 * 64 + cp div 4096 mod 64 * 4096 + cp div 262144 * 262144 = cp"
proof -
  have d: "cp div 4096 = cp div 64 div 64" "cp div 262144 = cp div 64 div 64 div 64" by (simp_all add: div_mult2_eq [symmetric])
  have m: "x mod 64 + x div 64 * 64 = x" for x :: nat by simp
  show "cp mod 64 + cp div 64 * 64 = cp" by (rule m)
  then show "cp mod 64 + cp div 64 mod 64 * 64 + cp div 4096 * 4096 = cp"
    using m [of "cp div 64"] unfolding d by linarith
  then show "cp mod 64 + cp div 64 mod 64 * 64 + cp div 4096 mod 64 * 4096 + cp div 262144 * 262144 = cp"
    using m [of "cp div 64 div 64"] unfolding d by linarith
qed

lemma cont_byte:
  fixes x :: nat
  assumes "x < 64"
  shows "of_char (char_of (x + 128) :: char) = x + 128" "(x + 128) AND 0xC0 = 0x80" "(x + 128) AND 0x3F = x"
proof -
  have "(x + 128) div 64 = 2" using assms by (auto intro!: div_nat_eqI)
  then show "(x + 128) AND 0xC0 = 0x80" by (simp add: and_C0)
  show "(x + 128) AND 0x3F = x" using assms by (simp add: and_masks mod_nat_eqI)
qed (use assms in simp)

lemma decode_two:
  assumes "a < 32" "b < 64" "0x80 \<le> b + a * 64"
  shows "decode_wtf8_rune_t (char_of (a + 192) # char_of (b + 128) # pad) (Suc (Suc 0)) zero = int (b + a * 64)"
proof -
  have "(a + 192) AND 0x1F = a" using assms(1) by (simp add: and_masks mod_nat_eqI)
  moreover have "push_bit 6 a OR b = b + a * 64" using or_high [of b 6 a] assms(2) by simp
  ultimately show ?thesis
    using assms cont_byte [OF assms(2)]
    by (simp add: decode_wtf8_rune_t_def decode_wtf8_rune_t_multibyte_def Let_def del: push_bit_and)
qed

lemma decode_three:
  assumes "a < 16" "b < 64" "c < 64" "0x800 \<le> c + b * 64 + a * 4096"
  shows "decode_wtf8_rune_t (char_of (a + 224) # char_of (b + 128) # char_of (c + 128) # pad) (Suc (Suc (Suc 0))) zero = int (c + b * 64 + a * 4096)"
proof -
  have "(a + 224) AND 0x0F = a" using assms(1) by (simp add: and_masks mod_nat_eqI)
  moreover have "push_bit 6 b OR c = c + b * 64" using or_high [of c 6 b] assms(3) by simp
  moreover have "push_bit 12 a OR (c + b * 64) = c + b * 64 + a * 4096" using or_high [of "c + b * 64" 12 a] assms(2,3) by simp
  ultimately show ?thesis
    using assms cont_byte [OF assms(2)] cont_byte [OF assms(3)]
    by (simp add: decode_wtf8_rune_t_def decode_wtf8_rune_t_multibyte_def Let_def numeral_2_eq_2 del: push_bit_and)
qed

lemma decode_four:
  assumes "a < 8" "b < 64" "c < 64" "d < 64" "0x10000 \<le> d + c * 64 + b * 4096 + a * 262144"
    "d + c * 64 + b * 4096 + a * 262144 \<le> 0x10FFFF"
  shows "decode_wtf8_rune_t (char_of (a + 240) # char_of (b + 128) # char_of (c + 128) # char_of (d + 128) # pad) (Suc (Suc (Suc (Suc 0)))) zero =
    int (d + c * 64 + b * 4096 + a * 262144)"
proof -
  have "(a + 240) AND 0x07 = a" using assms(1) by (simp add: and_masks mod_nat_eqI)
  moreover have "push_bit 6 c OR d = d + c * 64" using or_high [of d 6 c] assms(4) by simp
  moreover have "push_bit 12 b OR (d + c * 64) = d + c * 64 + b * 4096" using or_high [of "d + c * 64" 12 b] assms(3,4) by simp
  moreover have "push_bit 18 a OR (d + c * 64 + b * 4096) = d + c * 64 + b * 4096 + a * 262144"
    using or_high [of "d + c * 64 + b * 4096" 18 a] assms(2,3,4) by simp
  ultimately show ?thesis
    using assms cont_byte [OF assms(2)] cont_byte [OF assms(3)] cont_byte [OF assms(4)]
    by (simp add: decode_wtf8_rune_t_def decode_wtf8_rune_t_multibyte_def Let_def numeral_2_eq_2 numeral_3_eq_3 del: push_bit_and)
qed

lemma decode_encode_rune:
  assumes "is_code_point cp"
  shows "decode_wtf8_rune_t (encode_wtf8_rune cp @ pad) (length (encode_wtf8_rune cp)) zero = int cp"
proof -
  note b = lead_bounds [OF assms]
  have m: "x mod 64 < 64" for x :: nat by simp
  consider "cp < 0x80" | "0x80 \<le> cp" "cp < 0x800" | "0x800 \<le> cp" "cp < 0x10000" | "0x10000 \<le> cp" by linarith
  then show ?thesis
  proof cases
    case 1
    then show ?thesis by (simp add: encode_codes [OF assms] decode_wtf8_rune_t_def)
  next
    case 2
    have "encode_wtf8_rune cp = [char_of (cp div 64 + 192), char_of (cp mod 64 + 128)]"
      using 2 by (simp add: encode_codes [OF assms])
    then show ?thesis using decode_two [OF b(1) [OF 2(2)] m [of cp]] 2(1) split_code_point(1) [of cp] by simp
  next
    case 3
    have "encode_wtf8_rune cp = [char_of (cp div 4096 + 224), char_of (cp div 64 mod 64 + 128), char_of (cp mod 64 + 128)]"
      using 3 by (simp add: encode_codes [OF assms])
    then show ?thesis
      using decode_three [OF b(2) [OF 3(2)] m [of "cp div 64"] m [of cp]] 3(1) unfolding split_code_point(2) by simp
  next
    case 4
    have "encode_wtf8_rune cp = [char_of (cp div 262144 + 240), char_of (cp div 4096 mod 64 + 128),
        char_of (cp div 64 mod 64 + 128), char_of (cp mod 64 + 128)]"
      using 4 by (simp add: encode_codes [OF assms])
    moreover have "cp div 262144 < 8" using b(3) by simp
    ultimately show ?thesis
      using decode_four [OF _ m [of "cp div 4096"] m [of "cp div 64"] m [of cp], of "cp div 262144"] 4 assms
      unfolding split_code_point(3) by (simp add: is_code_point_def)
  qed
qed

text \<open>The iterator over an encoded text yields the code points one by one.\<close>

lemma quad_encode:
  assumes "is_code_point cp"
  shows "\<exists>pad. quad (length (encode_wtf8_rune cp)) (encode_wtf8_rune cp @ rest) = encode_wtf8_rune cp @ pad"
  by (simp add: quad_def)

lemma hd_encode_ascii: "is_code_point cp \<Longrightarrow> of_char (hd (encode_wtf8_rune cp)) < (0x80 :: nat) \<longleftrightarrow> cp < 0x80"
  using lead_bounds [of cp] by (auto simp: encode_codes)

lemma codepoint_next_encode:
  assumes "is_code_point cp" "cur_i cursor + cur_width cursor = length pre"
  shows "codepoint_next (pre @ encode_wtf8_rune cp @ rest) cursor =
    (True, \<lparr>cur_i = length pre, cur_width = length (encode_wtf8_rune cp), cur_c = int cp\<rparr>)"
proof -
  have ne: "encode_wtf8_rune cp \<noteq> []" using length_encode [of cp] by auto
  have hd: "hd (encode_wtf8_rune cp @ rest) = hd (encode_wtf8_rune cp)" using ne by simp
  show ?thesis
  proof (cases "cp < 0x80")
    case True
    then show ?thesis
      using assms(2) ne by (simp add: codepoint_next_def encode_wtf8_rune_def Let_def)
  next
    case False
    obtain pad where "quad (length (encode_wtf8_rune cp)) (encode_wtf8_rune cp @ rest) = encode_wtf8_rune cp @ pad"
      using quad_encode [OF assms(1)] by blast
    then have "decode_wtf8_rune_t (quad (length (encode_wtf8_rune cp)) (encode_wtf8_rune cp @ rest)) (length (encode_wtf8_rune cp)) (- 1) = int cp"
      using decode_encode_rune [OF assms(1)] by simp
    then show ?thesis
      using assms(2) ne False hd_encode_ascii [OF assms(1)] encode_lead [OF assms(1)] hd
      by (simp add: codepoint_next_def Let_def)
  qed
qed

section \<open>Iterating\<close>

text \<open>The loop \<^verbatim>\<open>while iter.next(&mut cursor)\<close> and the code points it sees\<close>

lemma codepoint_next_advances:
  assumes "codepoint_next bs cursor = (True, cursor')"
  shows "cur_i cursor + cur_width cursor < cur_i cursor' + cur_width cursor' \<and> cur_i cursor + cur_width cursor < length bs"
  using assms by (auto simp: codepoint_next_def Let_def wtf8_byte_sequence_length_def split: if_splits)

function code_points :: "bytes \<Rightarrow> Cursor \<Rightarrow> int list" where
  "code_points bs cursor =
     (case codepoint_next bs cursor of (True, cursor') \<Rightarrow> cur_c cursor' # code_points bs cursor' | (False, _) \<Rightarrow> [])"
  by pat_completeness auto
termination
  by (relation "measure (\<lambda>(bs, cursor). length bs - (cur_i cursor + cur_width cursor))")
    (auto dest!: sym [of "(True, _)"] codepoint_next_advances)

declare code_points.simps [simp del]

lemma code_points_encode:
  assumes "list_all is_code_point cps" "cur_i cursor + cur_width cursor = length pre"
  shows "code_points (pre @ concat (map encode_wtf8_rune cps)) cursor = map int cps"
  using assms
proof (induction cps arbitrary: pre cursor)
  case Nil
  then show ?case by (simp add: code_points.simps codepoint_next_def)
next
  case (Cons c cs)
  let ?e = "encode_wtf8_rune c"
  have "codepoint_next (pre @ ?e @ concat (map encode_wtf8_rune cs)) cursor = (True, \<lparr>cur_i = length pre, cur_width = length ?e, cur_c = int c\<rparr>)"
    using codepoint_next_encode Cons.prems by simp
  then show ?case
    using Cons.IH [of "\<lparr>cur_i = length pre, cur_width = length ?e, cur_c = int c\<rparr>" "pre @ ?e"] Cons.prems
    by (subst code_points.simps) simp
qed

text \<open>
  C22. WTF-8 round trip: what is encoded code point by code point is read back by the decoder, whatever
  stands behind a sequence, and by the iterator, surrogates and the null character included.
\<close>

theorem wtf8_roundtrip:
  assumes "list_all is_code_point cps"
  shows "code_points (concat (map encode_wtf8_rune cps)) \<lparr>cur_i = 0, cur_width = 0, cur_c = 0\<rparr> = map int cps
    \<and> (\<forall>cp\<in>set cps. \<forall>pad zero. decode_wtf8_rune_t (encode_wtf8_rune cp @ pad) (length (encode_wtf8_rune cp)) zero = int cp)"
  using code_points_encode [OF assms, of _ "[]"] decode_encode_rune assms by (auto simp: list_all_iff)

theorem wtf8_roundtrip_witness:
  "code_points (concat (map encode_wtf8_rune [0, 97, 233, 0xD800, 0x1F600])) \<lparr>cur_i = 0, cur_width = 0, cur_c = 0\<rparr>
     = [0, 97, 233, 0xD800, 0x1F600]"
  using wtf8_roundtrip [of "[0, 97, 233, 0xD800, 0x1F600]"] by (simp add: is_code_point_def)

end
