(* ===== verification/SourceMapText.thy ===== *)
theory SourceMapText
  imports SourceMapJoin Wtf8
begin

text \<open>
  Counting lines and columns of text: \<^verbatim>\<open>LineColumnOffset\<close> of \<^verbatim>\<open>src/sourcemap/lib.rs\<close>, which places the parts of a
  bundle. Columns count UTF-16 code units. \<open>None\<close> is a panic. The reference is a walk over code points.
\<close>

section \<open>Operations on positions\<close>

definition lco_add :: "LineColumnOffset \<Rightarrow> LineColumnOffset \<Rightarrow> LineColumnOffset option" where
  "lco_add a b =
     (if lines b = 0 then do { c \<leftarrow> add_scalar (columns a) (columns b); Some (a\<lparr>columns := c\<rparr>) }
      else do { l \<leftarrow> add_scalar (lines a) (lines b); Some \<lparr>lines = l, columns = columns b\<rparr> })"

definition comes_before :: "LineColumnOffset \<Rightarrow> LineColumnOffset \<Rightarrow> bool" where
  "comes_before a b \<longleftrightarrow> lines a < lines b \<or> lines a = lines b \<and> columns a < columns b"

definition is_newline :: "int \<Rightarrow> bool" where
  "is_newline c \<longleftrightarrow> c = 0x0D \<or> c = 0x0A \<or> c = 0x2028 \<or> c = 0x2029"

definition utf16_width :: "int \<Rightarrow> int" where
  "utf16_width c = (if c > 0xFFFF then 2 else 1)"

lemma index_of_bounds:
  assumes "index_of_newline_or_non_ascii_check_start cs input offset = Some (Some i)"
  shows "offset \<le> i \<and> i < length input"
proof -
  let ?k = "length (takeWhile (\<lambda>c. \<not> is_control_or_non_ascii c) (drop offset input))"
  have "?k \<le> length (drop offset input)" by (rule length_takeWhile_le)
  moreover have "offset \<le> length input" "drop offset input \<noteq> []" "i = offset \<or> i = ?k + offset \<and> ?k \<noteq> length (drop offset input)"
    using assms by (auto simp: index_of_newline_or_non_ascii_check_start_def Let_def split: if_splits)
  ultimately show ?thesis by auto
qed

function advance_loop :: "bytes \<Rightarrow> nat \<Rightarrow> LineColumnOffset \<Rightarrow> LineColumnOffset option" where
  "advance_loop input offset this =
     (case index_of_newline_or_non_ascii input offset of
        None \<Rightarrow> None
      | Some None \<Rightarrow> do {
          c \<leftarrow> add_scalar (columns this) (int (length (drop offset input)));
          Some (this\<lparr>columns := c\<rparr>)
        }
      | Some (Some i) \<Rightarrow> do {
          c \<leftarrow> add_scalar (columns this) (wrap_i32 (int (i - offset)));
          let this = this\<lparr>columns := c\<rparr>;
          let cursor = snd (codepoint_next input \<lparr>cur_i = i, cur_width = 0, cur_c = 0\<rparr>);
          if cur_width cursor = 0 then do {
            c \<leftarrow> add_scalar (columns this) 1;
            advance_loop input (i + 1) (this\<lparr>columns := c\<rparr>)
          }
          else if is_newline (cur_c cursor) then
            if cur_c cursor = 0x0D \<and> length input > i + 1 \<and> input ! (i + 1) = CHR 0x0A then do {
              c \<leftarrow> add_scalar (columns this) 1;
              advance_loop input (i + cur_width cursor) (this\<lparr>columns := c\<rparr>)
            }
            else do {
              l \<leftarrow> add_scalar (lines this) 1;
              advance_loop input (i + cur_width cursor) \<lparr>lines = l, columns = 0\<rparr>
            }
          else do {
            c \<leftarrow> add_scalar (columns this) (utf16_width (cur_c cursor));
            advance_loop input (i + cur_width cursor) (this\<lparr>columns := c\<rparr>)
          }
        })"
  by pat_completeness auto
termination
  by (relation "measure (\<lambda>(input, offset, _). length input + 1 - offset)")
    (auto simp: index_of_newline_or_non_ascii_def dest!: index_of_bounds)

declare advance_loop.simps [simp del]

definition lco_advance :: "bytes \<Rightarrow> LineColumnOffset \<Rightarrow> LineColumnOffset option" where
  "lco_advance input this = advance_loop input 0 this"

section \<open>Lines and columns of a text\<close>

text \<open>The specification, on code points\<close>

definition next_position :: "nat \<Rightarrow> nat list \<Rightarrow> LineColumnOffset \<Rightarrow> LineColumnOffset" where
  "next_position c cs p =
     (if is_newline (int c) then
        if c = 0x0D \<and> cs \<noteq> [] \<and> hd cs = 0x0A then p\<lparr>columns := columns p + 1\<rparr>
        else \<lparr>lines = lines p + 1, columns = 0\<rparr>
      else p\<lparr>columns := columns p + utf16_width (int c)\<rparr>)"

fun walk_text :: "nat list \<Rightarrow> LineColumnOffset \<Rightarrow> LineColumnOffset" where
  "walk_text [] p = p"
| "walk_text (c # cs) p = walk_text cs (next_position c cs p)"

text \<open>The position of the code point at an index\<close>

fun walk_to :: "nat \<Rightarrow> nat list \<Rightarrow> LineColumnOffset \<Rightarrow> LineColumnOffset" where
  "walk_to 0 cs p = p"
| "walk_to (Suc k) [] p = p"
| "walk_to (Suc k) (c # cs) p = walk_to k cs (next_position c cs p)"

lemma walk_to_Suc:
  "k < length cps \<Longrightarrow> walk_to (Suc k) cps p = next_position (cps ! k) (drop (Suc k) cps) (walk_to k cps p)"
proof (induction k cps p rule: walk_to.induct)
  case (1 cs p)
  then show ?case by (cases cs) auto
qed auto

definition encode_text :: "nat list \<Rightarrow> bytes" where
  "encode_text cps = concat (map encode_wtf8_rune cps)"

lemma encode_text_simps [simp]: "encode_text [] = []" "encode_text (c # cs) = encode_wtf8_rune c @ encode_text cs"
  by (simp_all add: encode_text_def)

definition printable :: "nat \<Rightarrow> bool" where
  "printable c \<longleftrightarrow> 0x20 \<le> c \<and> c < 0x80"

lemma encode_ascii: "c < 0x80 \<Longrightarrow> encode_wtf8_rune c = [char_of c]"
  by (simp add: encode_wtf8_rune_def)

lemma encode_not_Nil [simp]: "encode_wtf8_rune c \<noteq> []"
  using length_encode [of c] by auto

lemma utf16_width_le: "1 \<le> utf16_width (int c) \<and> utf16_width (int c) \<le> int (length (encode_wtf8_rune c))"
  by (auto simp: utf16_width_def encode_wtf8_rune_def)

lemma is_control_encode:
  assumes "is_code_point c"
  shows "is_control_or_non_ascii (hd (encode_wtf8_rune c)) \<longleftrightarrow> \<not> printable c"
proof (cases "c < 0x80")
  case True
  then show ?thesis by (auto simp: encode_ascii is_control_or_non_ascii_def printable_def)
next
  case False
  then show ?thesis using hd_encode_ascii [OF assms] by (auto simp: is_control_or_non_ascii_def printable_def)
qed

lemma hd_encode_char: "is_code_point c \<Longrightarrow> n < 0x80 \<Longrightarrow> hd (encode_wtf8_rune c) = char_of n \<longleftrightarrow> c = n"
proof (cases "c < 0x80")
  case True
  then show "n < 0x80 \<Longrightarrow> ?thesis" by (auto simp: encode_ascii dest!: arg_cong [of _ _ "of_char :: char \<Rightarrow> nat"])
next
  case False
  assume c: "is_code_point c" and n: "n < 0x80"
  then have "\<not> of_char (hd (encode_wtf8_rune c)) < (0x80 :: nat)" using hd_encode_ascii False by simp
  then show ?thesis using False n by auto
qed

text \<open>The search stops at the first code point that is not printable ASCII.\<close>

lemma index_of_stop:
  assumes "is_code_point c" "\<not> printable c"
  shows "index_of_newline_or_non_ascii (pre @ encode_wtf8_rune c @ rest) (length pre) = Some (Some (length pre))"
proof -
  have h: "hd (encode_wtf8_rune c @ rest) = hd (encode_wtf8_rune c)" by simp
  obtain x xs where "encode_wtf8_rune c @ rest = x # xs" "is_control_or_non_ascii x"
    using is_control_encode [OF assms(1)] assms(2) h by (metis append_is_Nil_conv encode_not_Nil list.collapse)
  then show ?thesis
    by (auto simp: index_of_newline_or_non_ascii_def index_of_newline_or_non_ascii_check_start_def Let_def)
qed

lemma index_of_skip:
  assumes "printable c"
  shows "index_of_newline_or_non_ascii (pre @ char_of c # rest) (length pre) =
    index_of_newline_or_non_ascii (pre @ char_of c # rest) (length pre + 1)"
proof -
  have c: "\<not> is_control_or_non_ascii (char_of c)" "of_char (char_of c :: char) = c"
    using assms by (auto simp: is_control_or_non_ascii_def printable_def)
  show ?thesis
  proof (cases rest)
    case Nil
    then show ?thesis
      using c assms by (auto simp: index_of_newline_or_non_ascii_def index_of_newline_or_non_ascii_check_start_def printable_def)
  next
    case (Cons x xs)
    then show ?thesis
      using c assms
      by (auto simp: index_of_newline_or_non_ascii_def index_of_newline_or_non_ascii_check_start_def Let_def printable_def
          is_control_or_non_ascii_def)
  qed
qed

lemma advance_loop_skip:
  assumes "printable c" "0 \<le> columns p" "columns p + 1 + int (length rest) < 2 ^ 31"
  shows "advance_loop (pre @ char_of c # rest) (length pre) p =
    advance_loop (pre @ char_of c # rest) (length pre + 1) (p\<lparr>columns := columns p + 1\<rparr>)"
proof -
  let ?t = "pre @ char_of c # rest" and ?n = "length pre"
  show ?thesis
  proof (cases "index_of_newline_or_non_ascii ?t (?n + 1)")
    case None
    then show ?thesis using index_of_skip [OF assms(1)] by (simp add: advance_loop.simps [of ?t])
  next
    case (Some r)
    show ?thesis
    proof (cases r)
      case r: None
      then show ?thesis using Some index_of_skip [OF assms(1)]
        by (simp add: advance_loop.simps [of ?t] add_scalar_def add.commute add.left_commute)
    next
      case r: (Some i)
      then have i: "?n + 1 \<le> i" "i < length ?t"
        using Some index_of_bounds [of True ?t "?n + 1" i] by (auto simp: index_of_newline_or_non_ascii_def)
      then have "int (i - ?n) = 1 + int (i - (?n + 1))" by simp
      moreover have "is_i32 (int (i - ?n))" "is_i32 (int (i - (?n + 1)))" using i assms(2,3) by (auto simp: is_i32_def)
      ultimately have "add_scalar (columns p) (wrap_i32 (int (i - ?n))) = add_scalar (columns p + 1) (wrap_i32 (int (i - (?n + 1))))"
        by (simp add: add_scalar_def add.assoc)
      then show ?thesis
        using Some r index_of_skip [OF assms(1)] by (simp add: advance_loop.simps [of ?t ?n] advance_loop.simps [of ?t "Suc ?n"])
    qed
  qed
qed

lemma char_of_LF: "char_of (10 :: nat) = CHR 0x0A"
  by code_simp

lemma followed_by_LF:
  assumes "list_all is_code_point cs"
  shows "length (pre @ x # encode_text cs) > length pre + 1 \<and> (pre @ x # encode_text cs) ! (length pre + 1) = CHR 0x0A
    \<longleftrightarrow> cs \<noteq> [] \<and> hd cs = 0x0A"
proof (cases cs)
  case (Cons d ds)
  then have "(pre @ x # encode_text cs) ! (length pre + 1) = hd (encode_wtf8_rune d)"
    by (simp add: nth_append hd_conv_nth)
  moreover have "hd (encode_wtf8_rune d) = CHR 0x0A \<longleftrightarrow> d = 0x0A"
    using hd_encode_char [of d 10] assms Cons char_of_LF by simp
  ultimately show ?thesis using Cons by simp
qed simp

lemma advance_loop_walk:
  assumes "list_all is_code_point cps" "0 \<le> lines p" "0 \<le> columns p"
    "lines p + int (length (encode_text cps)) < 2 ^ 31" "columns p + int (length (encode_text cps)) < 2 ^ 31"
  shows "advance_loop (pre @ encode_text cps) (length pre) p = Some (walk_text cps p)"
  using assms
proof (induction cps arbitrary: pre p)
  case Nil
  then show ?case
    by (simp add: advance_loop.simps index_of_newline_or_non_ascii_def index_of_newline_or_non_ascii_check_start_def add_scalar_def)
next
  case (Cons c cs)
  let ?e = "encode_wtf8_rune c" and ?t = "pre @ encode_wtf8_rune c @ encode_text cs" and ?n = "length pre"
  have c: "is_code_point c" and cs: "list_all is_code_point cs" using Cons.prems(1) by simp_all
  have len: "1 \<le> int (length ?e)" using length_encode [of c] by auto
  have t: "?t = (pre @ ?e) @ encode_text cs" "length (pre @ ?e) = ?n + length ?e" by simp_all
  note IH = Cons.IH [OF cs, of _ "pre @ ?e", unfolded t(2), folded t(1)]
  show ?case
  proof (cases "printable c")
    case True
    then have e: "?e = [char_of c]" "\<not> is_newline (int c)" "utf16_width (int c) = 1"
      by (auto simp: encode_ascii printable_def is_newline_def utf16_width_def)
    have "advance_loop ?t ?n p = advance_loop ?t (?n + 1) (p\<lparr>columns := columns p + 1\<rparr>)"
      using advance_loop_skip [OF True Cons.prems(3), of "encode_text cs" pre] Cons.prems(5) e(1) by simp
    also have "\<dots> = Some (walk_text cs (p\<lparr>columns := columns p + 1\<rparr>))"
      using IH [of "p\<lparr>columns := columns p + 1\<rparr>"] Cons.prems e(1) by simp
    finally show ?thesis using e by (simp add: next_position_def)
  next
    case False
    have idx: "index_of_newline_or_non_ascii ?t ?n = Some (Some ?n)" using index_of_stop [OF c False] .
    have cur: "codepoint_next ?t \<lparr>cur_i = ?n, cur_width = 0, cur_c = 0\<rparr> =
        (True, \<lparr>cur_i = ?n, cur_width = length ?e, cur_c = int c\<rparr>)"
      using codepoint_next_encode [OF c, of "\<lparr>cur_i = ?n, cur_width = 0, cur_c = 0\<rparr>" pre "encode_text cs"] by simp
    have step: "advance_loop ?t ?n p =
       (if is_newline (int c) then
          if c = 0x0D \<and> cs \<noteq> [] \<and> hd cs = 0x0A
          then advance_loop ?t (?n + length ?e) (p\<lparr>columns := columns p + 1\<rparr>)
          else advance_loop ?t (?n + length ?e) \<lparr>lines = lines p + 1, columns = 0\<rparr>
        else advance_loop ?t (?n + length ?e) (p\<lparr>columns := columns p + utf16_width (int c)\<rparr>))"
    proof -
      have crlf: "(c = 0x0D \<and> length ?t > ?n + 1 \<and> ?t ! (?n + 1) = CHR 0x0A) \<longleftrightarrow> (c = 0x0D \<and> cs \<noteq> [] \<and> hd cs = 0x0A)"
        using followed_by_LF [OF cs, of pre "char_of c"] by (auto simp: encode_ascii)
      have "add_scalar (columns p) 0 = Some (columns p)" "add_scalar (columns p) 1 = Some (columns p + 1)"
        "add_scalar (lines p) 1 = Some (lines p + 1)"
        "add_scalar (columns p) (utf16_width (int c)) = Some (columns p + utf16_width (int c))"
        using Cons.prems(2-5) len utf16_width_le [of c] by (auto simp: add_scalar_def)
      moreover have "wrap_i32 0 = 0" by (simp add: wrap_i32_def)
      ultimately show ?thesis
        using crlf by (simp add: advance_loop.simps [of ?t ?n] idx cur Let_def)
    qed
    have r: "advance_loop ?t (?n + length ?e) (p\<lparr>columns := columns p + 1\<rparr>) = Some (walk_text cs (p\<lparr>columns := columns p + 1\<rparr>))"
      "advance_loop ?t (?n + length ?e) \<lparr>lines = lines p + 1, columns = 0\<rparr> = Some (walk_text cs \<lparr>lines = lines p + 1, columns = 0\<rparr>)"
      "advance_loop ?t (?n + length ?e) (p\<lparr>columns := columns p + utf16_width (int c)\<rparr>) =
        Some (walk_text cs (p\<lparr>columns := columns p + utf16_width (int c)\<rparr>))"
      using IH Cons.prems len utf16_width_le [of c] by simp_all
    show ?thesis unfolding encode_text_simps step r walk_text.simps next_position_def by (simp split: if_splits)
  qed
qed

section \<open>Reading code points\<close>

lemma wtf8_length_pos: "0 < wtf8_byte_sequence_length c"
  by (simp add: wtf8_byte_sequence_length_def Let_def)

lemma wtf8_length_step: "i + wtf8_byte_sequence_length c \<le> j \<Longrightarrow> i < j"
  using wtf8_length_pos [of c] by linarith

lemma decode_at:
  assumes "is_code_point c"
  shows "wtf8_byte_sequence_length ((pre @ encode_wtf8_rune c @ rest) ! length pre) = length (encode_wtf8_rune c)"
    "decode_wtf8_rune_t (quad (length (encode_wtf8_rune c)) (encode_wtf8_rune c @ rest)) (length (encode_wtf8_rune c)) z = int c"
proof -
  have "(pre @ encode_wtf8_rune c @ rest) ! length pre = hd (encode_wtf8_rune c)" by (simp add: nth_append hd_conv_nth)
  then show "wtf8_byte_sequence_length ((pre @ encode_wtf8_rune c @ rest) ! length pre) = length (encode_wtf8_rune c)"
    using encode_lead [OF assms] by simp
  obtain pad where "quad (length (encode_wtf8_rune c)) (encode_wtf8_rune c @ rest) = encode_wtf8_rune c @ pad"
    using quad_encode [OF assms] by blast
  then show "decode_wtf8_rune_t (quad (length (encode_wtf8_rune c)) (encode_wtf8_rune c @ rest)) (length (encode_wtf8_rune c)) z = int c"
    using decode_encode_rune [OF assms] by simp
qed

lemma index_of_end: "index_of_newline_or_non_ascii t (length t) = Some None"
  by (simp add: index_of_newline_or_non_ascii_def index_of_newline_or_non_ascii_check_start_def)

text \<open>
  C23. The scan that places the parts of a bundle counts lines and columns as the reference does: every line end,
  a carriage return before a line feed not among them, starts a line, and every other code point
  takes one column, or two outside the basic plane.
\<close>

theorem lco_advance_correct:
  assumes "list_all is_code_point cps" "0 \<le> lines p" "0 \<le> columns p"
    "lines p + int (length (encode_text cps)) < 2 ^ 31" "columns p + int (length (encode_text cps)) < 2 ^ 31"
  shows "lco_advance (encode_text cps) p = Some (walk_text cps p)"
  using advance_loop_walk [OF assms, of "[]"] by (simp add: lco_advance_def)

theorem lco_advance_correct_witness:
  "lco_advance (encode_text [97, 13, 10, 233, 128512]) START = Some \<lparr>lines = 1, columns = 3\<rparr>"
proof -
  let ?cps = "[97, 13, 10, 233, 128512]"
  have "list_all is_code_point ?cps" "int (length (encode_text ?cps)) < 2 ^ 31"
    by (simp_all add: is_code_point_def encode_wtf8_rune_def)
  moreover have "walk_text ?cps START = \<lparr>lines = 1, columns = 3\<rparr>"
    by (simp add: next_position_def is_newline_def utf16_width_def START_def)
  ultimately show ?thesis using lco_advance_correct [of ?cps START] by (simp add: START_def)
qed

end
