(* ===== verification/LineOffsetTables.thy ===== *)
theory LineOffsetTables
  imports SourceMapText
begin

text \<open>
  \<^verbatim>\<open>src/sourcemap/LineOffsetTable.rs\<close>: for every line of a source the offset of its first byte and, from the first
  byte that is not ASCII on, the column of every byte. The printer finds the line of a byte offset by
  binary search, with the line of the previous mapping as a hint. \<open>None\<close> is a panic.
\<close>

section \<open>Operations\<close>

record LineOffsetTable =
  columns_for_non_ascii :: "int list"
  byte_offset_to_first_non_ascii :: nat
  byte_offset_to_start_of_line :: nat

definition I32_MAX :: nat where
  "I32_MAX = 0x7FFFFFFF"

function find_line_loop :: "nat list \<Rightarrow> nat \<Rightarrow> nat \<Rightarrow> nat \<Rightarrow> nat" where
  "find_line_loop offsets loc_start line n =
     (if n > 0 then
        let step = n div 2; i = line + step in
        if offsets ! i \<le> loc_start then find_line_loop offsets loc_start (i + 1) (n - step - 1)
        else find_line_loop offsets loc_start line step
      else line)"
  by pat_completeness auto
termination by (relation "measure (\<lambda>(_, _, _, n). n)") auto

declare find_line_loop.simps [simp del]

definition find_line :: "nat list \<Rightarrow> int \<Rightarrow> int option" where
  "find_line offsets start =
     (if start < 0 then None
      else
        let line = find_line_loop offsets (nat start) 0 (length offsets) in
        if line > I32_MAX then None else Some (int line - 1))"

definition find_line_with_hint :: "nat list \<Rightarrow> int \<Rightarrow> nat \<Rightarrow> int option" where
  "find_line_with_hint offsets start hint =
     (let loc_start = nat (start mod 2 ^ 32); len = length offsets in
      if hint < len \<and> offsets ! hint \<le> loc_start then
        if hint + 1 = len \<or> loc_start < offsets ! (hint + 1) then Some (wrap_i32 (int hint))
        else if hint + 2 = len \<or> loc_start < offsets ! (hint + 2) then add_i32 (wrap_i32 (int hint)) 1
        else if hint + 3 = len \<or> loc_start < offsets ! (hint + 3) then add_i32 (wrap_i32 (int hint)) 2
        else find_line offsets start
      else find_line offsets start)"

record table_state =
  t_list :: "LineOffsetTable list"
  t_column :: int
  t_first_non_ascii :: nat
  t_column_byte_offset :: nat
  t_line_byte_offset :: nat
  t_columns :: "int list"

definition table_init :: table_state where
  "table_init = \<lparr>t_list = [], t_column = 0, t_first_non_ascii = I32_MAX, t_column_byte_offset = 0,
     t_line_byte_offset = 0, t_columns = []\<rparr>"

definition sub_u32 :: "nat \<Rightarrow> nat \<Rightarrow> nat option" where
  "sub_u32 x y = (if y \<le> x then Some (x - y) else None)"

text \<open>The columns of the bytes up to an offset into the line are the current one.\<close>

definition extend_columns :: "nat \<Rightarrow> table_state \<Rightarrow> table_state option" where
  "extend_columns line_bytes_so_far st = do {
     k \<leftarrow> sub_u32 line_bytes_so_far (t_column_byte_offset st);
     Some (st\<lparr>t_columns := t_columns st @ replicate (k + 1) (t_column st), t_column_byte_offset := line_bytes_so_far + 1\<rparr>)
   }"

text \<open>The part of a round before the columns are extended: the start of the line and its first non-ASCII byte\<close>

definition mark_line :: "nat \<Rightarrow> int \<Rightarrow> table_state \<Rightarrow> table_state option" where
  "mark_line offset c st =
     (let st = (if t_column st = 0 then st\<lparr>t_line_byte_offset := offset\<rparr> else st) in
      if c > 0x7F \<and> t_first_non_ascii st = I32_MAX then do {
        k \<leftarrow> sub_u32 offset (t_line_byte_offset st);
        Some (st\<lparr>t_column_byte_offset := k, t_first_non_ascii := k\<rparr>)
      }
      else Some st)"

definition push_row :: "table_state \<Rightarrow> table_state" where
  "push_row st = st\<lparr>t_list := t_list st @ [\<lparr>columns_for_non_ascii = t_columns st,
     byte_offset_to_first_non_ascii = t_first_non_ascii st, byte_offset_to_start_of_line = t_line_byte_offset st\<rparr>]\<rparr>"

definition next_row :: "table_state \<Rightarrow> table_state" where
  "next_row st = (push_row st)\<lparr>t_column := 0, t_first_non_ascii := I32_MAX, t_column_byte_offset := 0,
     t_line_byte_offset := 0, t_columns := []\<rparr>"

text \<open>The second \<^verbatim>\<open>match\<close>: the state after the code point, and how many bytes it takes\<close>

definition count_code_point :: "int \<Rightarrow> nat \<Rightarrow> bytes \<Rightarrow> table_state \<Rightarrow> (table_state \<times> nat) option" where
  "count_code_point c cp_len remaining st =
     (if is_newline c then
        if c = 0x0D \<and> length remaining > 1 \<and> remaining ! 1 = CHR 0x0A
        then do { col \<leftarrow> add_i32 (t_column st) 1; Some (st\<lparr>t_column := col\<rparr>, 1) }
        else Some (next_row st, cp_len)
      else do { col \<leftarrow> add_i32 (t_column st) (utf16_width c); Some (st\<lparr>t_column := col\<rparr>, cp_len) })"

definition lead_code_point :: "bytes \<Rightarrow> int" where
  "lead_code_point remaining =
     (let len = wtf8_byte_sequence_length (hd remaining) in
      if len = 1 then int (of_char (hd remaining)) else decode_wtf8_rune_t (quad len remaining) len 0)"

lemma count_code_point_pos: "count_code_point c k r st = Some (st', n) \<Longrightarrow> 0 < k \<Longrightarrow> 0 < n"
  by (auto simp: count_code_point_def Option.bind_eq_Some_conv split: if_splits)

lemma check_start_bounds:
  "index_of_newline_or_non_ascii_check_start False r k = Some (Some j) \<Longrightarrow> k \<le> j \<and> j < length r"
  by (rule index_of_bounds)

function generate_loop :: "bytes \<Rightarrow> bytes \<Rightarrow> table_state \<Rightarrow> table_state option" where
  "generate_loop contents remaining st =
     (if remaining = [] then Some st
      else
        let cp_len = min (wtf8_byte_sequence_length (hd remaining)) (length remaining);
            c = lead_code_point remaining;
            offset = length contents - length remaining
        in do {
          st \<leftarrow> mark_line offset c st;
          if t_first_non_ascii st = I32_MAX \<and> 14 \<le> c \<and> c \<le> 127 then
            (case index_of_newline_or_non_ascii_check_start False remaining cp_len of
               None \<Rightarrow> None
             | Some (Some j) \<Rightarrow> do {
                 col \<leftarrow> add_i32 (t_column st) (int j);
                 generate_loop contents (drop j remaining) (st\<lparr>t_column := col\<rparr>)
               }
             | Some None \<Rightarrow> do {
                 col \<leftarrow> add_i32 (t_column st) (int (length remaining));
                 Some (st\<lparr>t_column := col\<rparr>)
               })
          else do {
            st \<leftarrow> (if t_first_non_ascii st \<noteq> I32_MAX
                  then do { k \<leftarrow> sub_u32 offset (t_line_byte_offset st); extend_columns k st } else Some st);
            (st, n) \<leftarrow> count_code_point c cp_len remaining st;
            generate_loop contents (drop n remaining) st
          }
        })"
  by pat_completeness auto
termination
proof (relation "measure (\<lambda>(_, remaining, _). length remaining)", goal_cases)
  case 1
  show ?case by simp
next
  case (2 contents remaining st cp_len c offset st' r j col)
  then show ?case using check_start_bounds [of remaining cp_len j] wtf8_length_pos [of "hd remaining"] by auto
next
  case (3 contents remaining st cp_len c offset st' st'' p st3 n)
  then show ?case using count_code_point_pos [of c cp_len remaining st'' st3 n] wtf8_length_pos [of "hd remaining"] by auto
qed

declare generate_loop.simps [simp del]

text \<open>The capacity that the approximate number of lines reserves is not part of the state.\<close>

definition generate :: "bytes \<Rightarrow> int \<Rightarrow> LineOffsetTable list option" where
  "generate contents approximate_line_count = do {
     st \<leftarrow> generate_loop contents contents table_init;
     let st = (if t_column st = 0 then st\<lparr>t_line_byte_offset := length contents\<rparr> else st);
     st \<leftarrow> (if t_columns st \<noteq> [] then do {
              k \<leftarrow> sub_u32 (length contents) (t_line_byte_offset st);
              extend_columns k st
            } else Some st);
     Some (t_list (push_row st))
   }"

section \<open>Finding the line\<close>

text \<open>The last line that starts at or before an offset, as a number of lines\<close>

definition splits_at :: "nat list \<Rightarrow> nat \<Rightarrow> nat \<Rightarrow> bool" where
  "splits_at offsets k n \<longleftrightarrow> n \<le> length offsets \<and> (\<forall>i<n. offsets ! i \<le> k) \<and> (\<forall>i<length offsets. n \<le> i \<longrightarrow> k < offsets ! i)"

lemma splits_at_unique: "splits_at offsets k m \<Longrightarrow> splits_at offsets k n \<Longrightarrow> m = n"
  unfolding splits_at_def by (metis leD linorder_neqE_nat nat_le_linear order_less_le_trans)

lemma splits_at_sorted:
  assumes "sorted offsets" "n < length offsets" "offsets ! n \<le> k" "n + 1 = length offsets \<or> k < offsets ! (n + 1)"
  shows "splits_at offsets k (n + 1)"
proof -
  have "offsets ! i \<le> k" if "i < n + 1" for i
    using sorted_nth_mono [OF assms(1), of i n] that assms(2,3) by simp
  moreover have "k < offsets ! i" if "i < length offsets" "n + 1 \<le> i" for i
    using sorted_nth_mono [OF assms(1), of "n + 1" i] that assms(4) by auto
  ultimately show ?thesis using assms(2) by (simp add: splits_at_def)
qed

lemma find_line_loop_splits:
  assumes "sorted offsets" "line + n \<le> length offsets" "\<forall>i<line. offsets ! i \<le> k"
    "\<forall>i<length offsets. line + n \<le> i \<longrightarrow> k < offsets ! i"
  shows "splits_at offsets k (find_line_loop offsets k line n)"
  using assms
proof (induction offsets k line n rule: find_line_loop.induct)
  case (1 offsets k line n)
  note sorted = sorted_nth_mono [OF 1(3)]
  show ?case
  proof (cases "n > 0")
    case False
    then show ?thesis using 1 by (simp add: find_line_loop.simps splits_at_def)
  next
    case True
    let ?i = "line + n div 2"
    have i: "?i < length offsets" "?i < line + n" using True 1 by auto
    show ?thesis
    proof (cases "offsets ! ?i \<le> k")
      case le: True
      then have "\<forall>j<?i + 1. offsets ! j \<le> k"
        using sorted i by (metis Suc_eq_plus1 less_Suc_eq_le order_trans)
      moreover have "?i + 1 + (n - n div 2 - 1) = line + n" using True by simp
      ultimately show ?thesis
        using 1 True le by (simp add: find_line_loop.simps [of offsets k line n] Let_def)
    next
      case False
      then have "\<forall>j<length offsets. ?i \<le> j \<longrightarrow> k < offsets ! j"
        using sorted by (meson leI order_less_le_trans)
      then show ?thesis
        using 1 True False i by (simp add: find_line_loop.simps [of offsets k line n] Let_def)
    qed
  qed
qed

lemma find_line_splits:
  assumes "sorted offsets" "splits_at offsets k n" "n \<le> I32_MAX"
  shows "find_line offsets (int k) = Some (int n - 1)"
proof -
  have "splits_at offsets k (find_line_loop offsets k 0 (length offsets))"
    using find_line_loop_splits [OF assms(1)] by simp
  then show ?thesis using splits_at_unique [OF _ assms(2)] assms(3) by (simp add: find_line_def)
qed

lemma find_line_hint:
  assumes "sorted offsets" "length offsets \<le> I32_MAX" "0 \<le> start" "start < 2 ^ 31"
  shows "find_line_with_hint offsets start hint = find_line offsets start"
proof -
  let ?k = "nat start"
  have k: "start mod 2 ^ 32 = start" using assms(3,4) by simp
  have found: "find_line offsets start = Some (int n)" if "n < length offsets" "offsets ! n \<le> ?k"
    "n + 1 = length offsets \<or> ?k < offsets ! (n + 1)" for n
    using find_line_splits [OF assms(1) splits_at_sorted [OF assms(1) that]] that(1) assms(2,3) by simp
  have "wrap_i32 (int hint) = int hint" if "hint < length offsets"
    using that assms(2) by (simp add: is_i32_def I32_MAX_def)
  moreover have "add_i32 (int hint) m = Some (int hint + m)" if "int hint + m < int (length offsets)" "0 \<le> m" for m
    using that assms(2) by (auto simp: add_i32_def is_i32_def I32_MAX_def)
  ultimately show ?thesis
    using found [of hint] found [of "hint + 1"] found [of "hint + 2"]
    unfolding find_line_with_hint_def k Let_def by (auto simp: not_less numeral_3_eq_3)
qed

section \<open>One code point at a time\<close>

text \<open>A round of the loop, for a code point and those that follow\<close>

definition table_step :: "nat \<Rightarrow> nat \<Rightarrow> nat list \<Rightarrow> table_state \<Rightarrow> table_state option" where
  "table_step offset c cs st = do {
     st \<leftarrow> mark_line offset (int c) st;
     st \<leftarrow> (if t_first_non_ascii st \<noteq> I32_MAX
           then do { k \<leftarrow> sub_u32 offset (t_line_byte_offset st); extend_columns k st } else Some st);
     Some (if is_newline (int c) \<and> \<not> (c = 0x0D \<and> cs \<noteq> [] \<and> hd cs = 0x0A) then next_row st
           else st\<lparr>t_column := t_column st + utf16_width (int c)\<rparr>)
   }"

definition first_stop :: "bytes \<Rightarrow> nat option" where
  "first_stop r = (let i = length (takeWhile (\<lambda>c. \<not> is_control_or_non_ascii c) r) in if i = length r then None else Some i)"

lemma check_start_first_stop:
  "index_of_newline_or_non_ascii_check_start False (x # r) (Suc 0) = Some (map_option Suc (first_stop r))"
  by (auto simp: index_of_newline_or_non_ascii_check_start_def first_stop_def Let_def)

lemma first_stop_printable: "printable d \<Longrightarrow> first_stop (char_of d # r) = map_option Suc (first_stop r)"
  by (auto simp: first_stop_def is_control_or_non_ascii_def printable_def Let_def)

lemma first_stop_encode:
  assumes "is_code_point d" "\<not> printable d"
  shows "first_stop (encode_wtf8_rune d @ r) = Some 0"
proof -
  obtain x xs where "encode_wtf8_rune d = x # xs" by (cases "encode_wtf8_rune d") auto
  then show ?thesis using is_control_encode [OF assms(1)] assms(2) by (simp add: first_stop_def)
qed

lemma lead_code_point_encode:
  assumes "is_code_point c"
  shows "lead_code_point (encode_wtf8_rune c @ rest) = int c"
    "wtf8_byte_sequence_length (hd (encode_wtf8_rune c @ rest)) = length (encode_wtf8_rune c)"
proof -
  show len: "wtf8_byte_sequence_length (hd (encode_wtf8_rune c @ rest)) = length (encode_wtf8_rune c)"
    using decode_at(1) [OF assms, of "[]" rest] by (simp add: hd_conv_nth)
  show "lead_code_point (encode_wtf8_rune c @ rest) = int c"
  proof (cases "c < 0x80")
    case True
    then show ?thesis using len by (simp add: lead_code_point_def encode_ascii)
  next
    case False
    then have "length (encode_wtf8_rune c) \<noteq> 1" by (simp add: encode_wtf8_rune_def)
    then show ?thesis using decode_at(2) [OF assms, of rest 0] len by (simp add: lead_code_point_def Let_def)
  qed
qed

lemma mark_line_later: "t_column st \<noteq> 0 \<Longrightarrow> c \<le> 0x7F \<Longrightarrow> mark_line offset c st = Some st"
  by (simp add: mark_line_def)

lemma mark_line_column: "mark_line offset c st = Some st' \<Longrightarrow> t_column st' = t_column st"
  by (auto simp: mark_line_def Let_def Option.bind_eq_Some_conv split: if_splits)

text \<open>A run of printable characters is taken at once.\<close>

lemma generate_run:
  fixes c :: nat
  assumes "14 \<le> c" "c \<le> 127" "list_all is_code_point cs" "0 \<le> t_column st" "t_first_non_ascii st = I32_MAX"
    "t_column st + 1 + int (length (encode_text cs)) < 2 ^ 31"
  shows "(case first_stop (encode_text cs) of
       None \<Rightarrow> do { col \<leftarrow> add_i32 (t_column st) (int (Suc (length (encode_text cs)))); Some (st\<lparr>t_column := col\<rparr>) }
     | Some j \<Rightarrow> do {
         col \<leftarrow> add_i32 (t_column st) (int (Suc j));
         generate_loop contents (drop j (encode_text cs)) (st\<lparr>t_column := col\<rparr>)
       }) = generate_loop contents (encode_text cs) (st\<lparr>t_column := t_column st + 1\<rparr>)"
proof (cases cs)
  case Nil
  then show ?thesis using assms(4,6) by (simp add: first_stop_def generate_loop.simps add_i32_def is_i32_def)
next
  case (Cons d ds)
  then have d: "is_code_point d" using assms(3) by simp
  show ?thesis
  proof (cases "printable d")
    case False
    then show ?thesis using Cons first_stop_encode [OF d] assms(4,6) by (simp add: add_i32_def is_i32_def)
  next
    case True
    let ?st = "st\<lparr>t_column := t_column st + 1\<rparr>" and ?r = "encode_text ds"
    have e: "encode_text cs = char_of d # ?r" "14 \<le> d" "d \<le> 127"
      using True Cons by (auto simp: printable_def encode_ascii)
    have lead: "lead_code_point (char_of d # ?r) = int d" "wtf8_byte_sequence_length (char_of d) = 1"
      using lead_code_point_encode [OF d, of ?r] e(3) by (simp_all add: encode_ascii)
    have mark: "mark_line offset (int d) ?st = Some ?st" for offset using mark_line_later assms(4) e(3) by simp
    have "generate_loop contents (char_of d # ?r) ?st =
        (case index_of_newline_or_non_ascii_check_start False (char_of d # ?r) 1 of
           None \<Rightarrow> None
         | Some (Some j) \<Rightarrow> do {
             col \<leftarrow> add_i32 (t_column ?st) (int j);
             generate_loop contents (drop j (char_of d # ?r)) (?st\<lparr>t_column := col\<rparr>)
           }
         | Some None \<Rightarrow> do {
             col \<leftarrow> add_i32 (t_column ?st) (int (length (char_of d # ?r)));
             Some (?st\<lparr>t_column := col\<rparr>)
           })"
      using e assms(5) by (simp add: generate_loop.simps [of contents "char_of d # ?r"] lead mark Let_def)
    moreover have "j \<le> length ?r" if "first_stop ?r = Some j" for j
      using that length_takeWhile_le [of _ ?r] by (auto simp: first_stop_def Let_def split: if_splits)
    ultimately show ?thesis
      using assms(4,6) e(1) True
      by (auto simp: check_start_first_stop first_stop_printable add_i32_def is_i32_def ac_simps split: option.splits)
  qed
qed

lemma generate_loop_step:
  assumes "is_code_point c" "list_all is_code_point cs" "0 \<le> t_column st"
    "t_column st + int (length (encode_text (c # cs))) < 2 ^ 31" "length contents = offset + length (encode_text (c # cs))"
  shows "generate_loop contents (encode_text (c # cs)) st = do { st \<leftarrow> table_step offset c cs st; generate_loop contents (encode_text cs) st }"
proof (cases "mark_line offset (int c) st")
  case None
  then show ?thesis
    using lead_code_point_encode [OF assms(1), of "encode_text cs"] assms(5)
    by (simp add: generate_loop.simps [of contents "encode_wtf8_rune c @ encode_text cs"] table_step_def)
next
  case (Some st1)
  let ?r = "encode_wtf8_rune c @ encode_text cs" and ?n = "length (encode_wtf8_rune c)"
  note lead = lead_code_point_encode [OF assms(1), of "encode_text cs"]
  have col: "t_column st1 = t_column st" using mark_line_column [OF Some] .
  have crlf: "(c = 0x0D \<and> length ?r > 1 \<and> ?r ! 1 = CHR 0x0A) \<longleftrightarrow> (c = 0x0D \<and> cs \<noteq> [] \<and> hd cs = 0x0A)"
    using followed_by_LF [OF assms(2), of "[]" "char_of c"] by (auto simp: encode_ascii)
  show ?thesis
  proof (cases "t_first_non_ascii st1 = I32_MAX \<and> 14 \<le> c \<and> c \<le> 127")
    case True
    then have e: "?r = char_of c # encode_text cs" "\<not> is_newline (int c)" "utf16_width (int c) = 1" "?n = Suc 0"
      by (auto simp: encode_ascii is_newline_def utf16_width_def)
    have "table_step offset c cs st = Some (st1\<lparr>t_column := t_column st1 + 1\<rparr>)"
      using Some True e by (simp add: table_step_def)
    moreover have "generate_loop contents ?r st = (case first_stop (encode_text cs) of
       None \<Rightarrow> do { col \<leftarrow> add_i32 (t_column st1) (int (Suc (length (encode_text cs)))); Some (st1\<lparr>t_column := col\<rparr>) }
     | Some j \<Rightarrow> do {
         col \<leftarrow> add_i32 (t_column st1) (int (Suc j));
         generate_loop contents (drop j (encode_text cs)) (st1\<lparr>t_column := col\<rparr>)
       })"
      using lead [unfolded e(1)] assms(5) Some True e(4) unfolding e(1)
      by (simp add: generate_loop.simps [of contents "char_of c # encode_text cs"] check_start_first_stop Let_def split: option.splits)
    moreover have "length ?r = Suc (length (encode_text cs))" unfolding e(1) by simp
    ultimately show ?thesis
      using generate_run [of c cs st1 contents] True assms(2-4) col by simp
  next
    case False
    have num: "(14 \<le> int c \<and> int c \<le> 127) = (14 \<le> c \<and> c \<le> 127)" by auto
    let ?ext = "if t_first_non_ascii st1 \<noteq> I32_MAX
                then do { k \<leftarrow> sub_u32 offset (t_line_byte_offset st1); extend_columns k st1 } else Some st1"
    have "generate_loop contents ?r st = do {
        st \<leftarrow> ?ext;
        (st, n) \<leftarrow> count_code_point (int c) ?n ?r st;
        generate_loop contents (drop n ?r) st
      }"
      using lead assms(5) Some False by (auto simp: generate_loop.simps [of contents ?r] num Let_def)
    moreover have "count_code_point (int c) ?n ?r st2 =
        Some (if is_newline (int c) \<and> \<not> (c = 0x0D \<and> cs \<noteq> [] \<and> hd cs = 0x0A) then next_row st2
           else st2\<lparr>t_column := t_column st2 + utf16_width (int c)\<rparr>, ?n)" if "t_column st2 = t_column st" for st2
    proof -
      have "add_i32 (t_column st2) (utf16_width (int c)) = Some (t_column st2 + utf16_width (int c))"
        using that assms(3,4) utf16_width_le [of c] by (simp add: add_i32_def is_i32_def)
      moreover have "?n = 1 \<and> utf16_width (int c) = 1" if "c = 0x0D" using that by (simp add: encode_ascii utf16_width_def)
      ultimately show ?thesis using crlf by (auto simp: count_code_point_def)
    qed
    moreover have "t_column st2 = t_column st" if "?ext = Some st2" for st2
      using that col by (auto simp: extend_columns_def Option.bind_eq_Some_conv split: if_splits)
    ultimately show ?thesis
      using Some by (cases ?ext) (auto simp: table_step_def)
  qed
qed

section \<open>The table places every code point\<close>

lemma lines_walk_to: "lines (walk_to k cps p) \<le> lines p + int k"
  by (induction k cps p rule: walk_to.induct) (force simp: next_position_def split: if_splits)+

definition byte_offset :: "nat list \<Rightarrow> nat \<Rightarrow> nat" where
  "byte_offset cps k = length (encode_text (take k cps))"

lemma byte_offset_simps [simp]:
  "byte_offset cps 0 = 0"
  "k < length cps \<Longrightarrow> byte_offset cps (Suc k) = byte_offset cps k + length (encode_wtf8_rune (cps ! k))"
  "byte_offset cps (length cps) = length (encode_text cps)"
  by (simp_all add: byte_offset_def encode_text_def take_Suc_conv_app_nth)

lemma length_encode_text: "length cps \<le> length (encode_text cps)"
proof (induction cps)
  case (Cons c cs)
  then show ?case using length_encode [of c] by auto
qed simp

lemma encode_text_append: "encode_text (xs @ ys) = encode_text xs @ encode_text ys"
  by (simp add: encode_text_def)

lemma byte_offset_le: "byte_offset cps k \<le> length (encode_text cps)"
  unfolding byte_offset_def by (metis append_take_drop_id encode_text_append le_add1 length_append)

lemma byte_offset_mono: "j < k \<Longrightarrow> k \<le> length cps \<Longrightarrow> byte_offset cps j < byte_offset cps k"
proof (induction k)
  case (Suc k)
  then show ?case
    using length_encode [of "cps ! k"] by (cases "j = k") (auto simp: le_neq_implies_less)
qed simp

text \<open>What a row says of a byte: its column\<close>

definition cell :: "nat \<Rightarrow> int list \<Rightarrow> nat \<Rightarrow> int \<Rightarrow> bool" where
  "cell first cols rel col \<longleftrightarrow>
     rel < first \<and> col = int rel \<or> first \<le> rel \<and> rel - first < length cols \<and> cols ! (rel - first) = col"

lemma cell_append: "cell first cols rel col \<Longrightarrow> cell first (cols @ later) rel col"
  by (auto simp: cell_def nth_append)

text \<open>A table places a byte: it is on the line found and its column is the one of the row.\<close>

definition places :: "LineOffsetTable list \<Rightarrow> nat \<Rightarrow> LineColumnOffset \<Rightarrow> bool" where
  "places rows at p \<longleftrightarrow>
     (let l = nat (lines p) in
      0 \<le> lines p \<and> l < length rows \<and> byte_offset_to_start_of_line (rows ! l) \<le> at
      \<and> (l + 1 < length rows \<longrightarrow> at < byte_offset_to_start_of_line (rows ! (l + 1)))
      \<and> cell (byte_offset_to_first_non_ascii (rows ! l)) (columns_for_non_ascii (rows ! l))
          (at - byte_offset_to_start_of_line (rows ! l)) (columns p))"

text \<open>The rows of a state, the one under construction included; it starts at the current offset when it is empty.\<close>

definition line_start :: "nat \<Rightarrow> table_state \<Rightarrow> nat" where
  "line_start at st = (if t_column st = 0 then at else t_line_byte_offset st)"

definition all_rows :: "nat \<Rightarrow> table_state \<Rightarrow> LineOffsetTable list" where
  "all_rows at st = t_list (push_row (st\<lparr>t_line_byte_offset := line_start at st\<rparr>))"

definition table_inv :: "nat list \<Rightarrow> nat \<Rightarrow> table_state \<Rightarrow> bool" where
  "table_inv cps k st \<longleftrightarrow>
     (let at = byte_offset cps k; start = line_start at st; p = walk_to k cps START in
      lines p = int (length (t_list st)) \<and> columns p = t_column st \<and> 0 \<le> t_column st
      \<and> start \<le> at \<and> t_column st \<le> int (at - start)
      \<and> sorted (map byte_offset_to_start_of_line (all_rows at st))
      \<and> (\<forall>j<k. places (all_rows at st) (byte_offset cps j) (walk_to j cps START))
      \<and> (\<forall>r\<in>set (all_rows at st). byte_offset_to_first_non_ascii r \<le> I32_MAX)
      \<and> (if t_first_non_ascii st = I32_MAX then t_columns st = [] \<and> t_column st = int (at - start)
         else t_columns st \<noteq> [] \<and> t_column_byte_offset st = t_first_non_ascii st + length (t_columns st)
           \<and> t_column_byte_offset st \<le> at - start))"

lemma places_snoc:
  assumes "places rows b p" "b < byte_offset_to_start_of_line row"
  shows "places (rows @ [row]) b p"
  using assms by (auto simp: places_def Let_def nth_append)

lemma places_last:
  assumes "places (rows @ [row]) b p" "byte_offset_to_start_of_line row' = byte_offset_to_start_of_line row"
    "\<And>rel col. byte_offset_to_start_of_line row \<le> b \<Longrightarrow> rel = b - byte_offset_to_start_of_line row \<Longrightarrow>
       cell (byte_offset_to_first_non_ascii row) (columns_for_non_ascii row) rel col \<Longrightarrow>
       cell (byte_offset_to_first_non_ascii row') (columns_for_non_ascii row') rel col"
  shows "places (rows @ [row']) b p"
  using assms by (auto simp: places_def Let_def nth_append split: if_splits)

lemma all_rows_eq:
  "all_rows at st = t_list st @ [\<lparr>columns_for_non_ascii = t_columns st, byte_offset_to_first_non_ascii = t_first_non_ascii st,
     byte_offset_to_start_of_line = line_start at st\<rparr>]"
  by (simp add: all_rows_def push_row_def)

text \<open>The first half of a round records the column of the code point.\<close>

lemma mark_and_extend:
  assumes "table_inv cps k st" "byte_offset cps k < I32_MAX"
  defines "at \<equiv> byte_offset cps k" and "start \<equiv> line_start (byte_offset cps k) st"
  obtains st1 st2 where "mark_line at c st = Some st1"
    "(if t_first_non_ascii st1 \<noteq> I32_MAX
      then do { k \<leftarrow> sub_u32 at (t_line_byte_offset st1); extend_columns k st1 } else Some st1) = Some st2"
    "t_list st2 = t_list st" "t_column st2 = t_column st" "t_line_byte_offset st2 = start"
    "t_first_non_ascii st2 \<le> I32_MAX" "cell (t_first_non_ascii st2) (t_columns st2) (at - start) (t_column st)"
    "\<And>rel col. rel < at - start \<Longrightarrow> cell (t_first_non_ascii st) (t_columns st) rel col \<Longrightarrow>
       cell (t_first_non_ascii st2) (t_columns st2) rel col"
    "if t_first_non_ascii st2 = I32_MAX then t_columns st2 = [] \<and> t_column st = int (at - start) \<and> c \<le> 0x7F
     else t_columns st2 \<noteq> [] \<and> t_column_byte_offset st2 = t_first_non_ascii st2 + length (t_columns st2)
       \<and> t_column_byte_offset st2 = at - start + 1"
proof -
  have inv: "start \<le> at" "at < I32_MAX" "t_first_non_ascii st \<le> I32_MAX"
    "if t_first_non_ascii st = I32_MAX then t_columns st = [] \<and> t_column st = int (at - start)
     else t_columns st \<noteq> [] \<and> t_column_byte_offset st = t_first_non_ascii st + length (t_columns st)
       \<and> t_column_byte_offset st \<le> at - start"
    using assms(1,2) by (auto simp: table_inv_def at_def start_def Let_def all_rows_eq)
  let ?st0 = "st\<lparr>t_line_byte_offset := start\<rparr>"
  let ?row = "\<lambda>first cols. ?st0\<lparr>t_first_non_ascii := first, t_columns := cols, t_column_byte_offset := at - start + 1\<rparr>"
  have st0: "(if t_column st = 0 then st\<lparr>t_line_byte_offset := at\<rparr> else st) = ?st0"
    by (simp add: start_def at_def line_start_def)
  have mark: "mark_line at c st = (if c > 0x7F \<and> t_first_non_ascii st = I32_MAX
      then Some (?st0\<lparr>t_column_byte_offset := at - start, t_first_non_ascii := at - start\<rparr>) else Some ?st0)"
    using inv by (simp add: mark_line_def st0 Let_def sub_u32_def)
  consider (ascii) "t_first_non_ascii st = I32_MAX" "c \<le> 0x7F" | (first) "t_first_non_ascii st = I32_MAX" "c > 0x7F"
    | (later) "t_first_non_ascii st \<noteq> I32_MAX" by linarith
  then show thesis
  proof cases
    case ascii
    show thesis by (rule that [of ?st0 ?st0]) (use ascii inv mark in \<open>auto simp: cell_def\<close>)
  next
    case first
    show thesis
      by (rule that [of "?st0\<lparr>t_column_byte_offset := at - start, t_first_non_ascii := at - start\<rparr>" "?row (at - start) [t_column st]"])
        (use first inv mark in \<open>auto simp: cell_def sub_u32_def extend_columns_def\<close>)
  next
    case later
    let ?cols = "t_columns st @ replicate (at - start - t_column_byte_offset st + 1) (t_column st)"
    have cbo: "t_column_byte_offset st = t_first_non_ascii st + length (t_columns st)" "t_column_byte_offset st \<le> at - start"
      using later inv by auto
    show thesis
    proof (rule that [of ?st0 "?row (t_first_non_ascii st) ?cols"])
      show "cell (t_first_non_ascii (?row (t_first_non_ascii st) ?cols)) (t_columns (?row (t_first_non_ascii st) ?cols)) (at - start) (t_column st)"
        using cbo by (auto simp: cell_def nth_append simp del: replicate.simps)
      show "\<And>rel col. rel < at - start \<Longrightarrow> cell (t_first_non_ascii st) (t_columns st) rel col \<Longrightarrow>
          cell (t_first_non_ascii (?row (t_first_non_ascii st) ?cols)) (t_columns (?row (t_first_non_ascii st) ?cols)) rel col"
        using cell_append by simp
    qed (use later inv mark cbo in \<open>auto simp: sub_u32_def extend_columns_def\<close>)
  qed
qed

text \<open>A round keeps the invariant.\<close>

lemma sorted_starts_snoc:
  "sorted (map byte_offset_to_start_of_line (rows @ [row])) \<longleftrightarrow>
     sorted (map byte_offset_to_start_of_line rows)
     \<and> (\<forall>r\<in>set rows. byte_offset_to_start_of_line r \<le> byte_offset_to_start_of_line row)"
  by (simp add: sorted_append)

lemma table_inv_fields:
  assumes "table_inv cps k st"
  shows "lines (walk_to k cps START) = int (length (t_list st))" "columns (walk_to k cps START) = t_column st"
    "0 \<le> t_column st" "line_start (byte_offset cps k) st \<le> byte_offset cps k"
    "t_column st \<le> int (byte_offset cps k - line_start (byte_offset cps k) st)"
    "sorted (map byte_offset_to_start_of_line (all_rows (byte_offset cps k) st))"
    "\<And>j. j < k \<Longrightarrow> places (all_rows (byte_offset cps k) st) (byte_offset cps j) (walk_to j cps START)"
    "\<And>r. r \<in> set (all_rows (byte_offset cps k) st) \<Longrightarrow> byte_offset_to_first_non_ascii r \<le> I32_MAX"
  using assms unfolding table_inv_def Let_def by blast+

lemma marked_rows:
  assumes "table_inv cps k st" "k \<le> length cps" "byte_offset cps k < I32_MAX"
  defines "at \<equiv> byte_offset cps k" and "start \<equiv> line_start (byte_offset cps k) st"
  obtains st1 st2 where "mark_line at c st = Some st1"
    "(if t_first_non_ascii st1 \<noteq> I32_MAX
      then do { k \<leftarrow> sub_u32 at (t_line_byte_offset st1); extend_columns k st1 } else Some st1) = Some st2"
    "t_list st2 = t_list st" "t_column st2 = t_column st" "t_line_byte_offset st2 = start"
    "if t_first_non_ascii st2 = I32_MAX then t_columns st2 = [] \<and> t_column st = int (at - start) \<and> c \<le> 0x7F
     else t_columns st2 \<noteq> [] \<and> t_column_byte_offset st2 = t_first_non_ascii st2 + length (t_columns st2)
       \<and> t_column_byte_offset st2 = at - start + 1"
    "sorted (map byte_offset_to_start_of_line (t_list (push_row st2)))"
    "\<And>r. r \<in> set (t_list (push_row st2)) \<Longrightarrow> byte_offset_to_start_of_line r \<le> start \<and> byte_offset_to_first_non_ascii r \<le> I32_MAX"
    "\<And>j. j < Suc k \<Longrightarrow> places (t_list (push_row st2)) (byte_offset cps j) (walk_to j cps START)"
proof (rule mark_and_extend [OF assms(1,3), of c], fold at_def start_def)
  note inv = table_inv_fields [OF assms(1), folded at_def, folded start_def]
  fix st1 st2
  assume st: "mark_line at c st = Some st1"
    "(if t_first_non_ascii st1 \<noteq> I32_MAX
      then do { k \<leftarrow> sub_u32 at (t_line_byte_offset st1); extend_columns k st1 } else Some st1) = Some st2"
    and st2: "t_list st2 = t_list st" "t_column st2 = t_column st" "t_line_byte_offset st2 = start"
      "t_first_non_ascii st2 \<le> I32_MAX" "cell (t_first_non_ascii st2) (t_columns st2) (at - start) (t_column st)"
      "\<And>rel col. rel < at - start \<Longrightarrow> cell (t_first_non_ascii st) (t_columns st) rel col \<Longrightarrow>
         cell (t_first_non_ascii st2) (t_columns st2) rel col"
    and cases: "if t_first_non_ascii st2 = I32_MAX then t_columns st2 = [] \<and> t_column st = int (at - start) \<and> c \<le> 0x7F
       else t_columns st2 \<noteq> [] \<and> t_column_byte_offset st2 = t_first_non_ascii st2 + length (t_columns st2)
         \<and> t_column_byte_offset st2 = at - start + 1"
  have rows: "t_list (push_row st2) = t_list st @ [\<lparr>columns_for_non_ascii = t_columns st2,
      byte_offset_to_first_non_ascii = t_first_non_ascii st2, byte_offset_to_start_of_line = start\<rparr>]"
    by (simp add: push_row_def st2)
  show thesis
  proof (rule that [OF st st2(1-3) cases])
    show "sorted (map byte_offset_to_start_of_line (t_list (push_row st2)))"
      "\<And>r. r \<in> set (t_list (push_row st2)) \<Longrightarrow> byte_offset_to_start_of_line r \<le> start \<and> byte_offset_to_first_non_ascii r \<le> I32_MAX"
      using inv(6,8) st2(4) unfolding all_rows_eq rows sorted_starts_snoc by (auto simp: start_def at_def)
    fix j
    assume j: "j < Suc k"
    show "places (t_list (push_row st2)) (byte_offset cps j) (walk_to j cps START)"
    proof (cases "j = k")
      case True
      then show ?thesis using inv(1,2,4) st2(5) by (simp add: places_def Let_def rows nth_append at_def start_def)
    next
      case False
      then have less: "j < k" "byte_offset cps j < at" using j assms(2) byte_offset_mono [of j k cps] by (auto simp: at_def)
      show ?thesis unfolding rows
        by (rule places_last [OF inv(7) [OF less(1), unfolded all_rows_eq]]) (use less st2(6) in \<open>auto simp: start_def at_def\<close>)
    qed
  qed
qed

lemma table_step_inv:
  assumes "table_inv cps k st" "k < length cps" "byte_offset cps k < I32_MAX"
  shows "\<exists>st'. table_step (byte_offset cps k) (cps ! k) (drop (Suc k) cps) st = Some st' \<and> table_inv cps (Suc k) st'"
proof (rule marked_rows [OF assms(1) less_imp_le [OF assms(2)] assms(3), of "int (cps ! k)"])
  let ?c = "cps ! k" and ?cs = "drop (Suc k) cps" and ?at = "byte_offset cps k" and ?start = "line_start (byte_offset cps k) st"
  let ?at' = "byte_offset cps (Suc k)" and ?p = "walk_to k cps START"
  note inv = table_inv_fields [OF assms(1)]
  have at': "?at' = ?at + length (encode_wtf8_rune ?c)" "?at < ?at'" using assms(2) byte_offset_mono [of k "Suc k" cps] by auto
  fix st1 st2
  assume st: "mark_line ?at (int ?c) st = Some st1"
    "(if t_first_non_ascii st1 \<noteq> I32_MAX
      then do { k \<leftarrow> sub_u32 ?at (t_line_byte_offset st1); extend_columns k st1 } else Some st1) = Some st2"
    and st2: "t_list st2 = t_list st" "t_column st2 = t_column st" "t_line_byte_offset st2 = ?start"
      "if t_first_non_ascii st2 = I32_MAX then t_columns st2 = [] \<and> t_column st = int (?at - ?start) \<and> int ?c \<le> 0x7F
       else t_columns st2 \<noteq> [] \<and> t_column_byte_offset st2 = t_first_non_ascii st2 + length (t_columns st2)
         \<and> t_column_byte_offset st2 = ?at - ?start + 1"
    and sorted: "sorted (map byte_offset_to_start_of_line (t_list (push_row st2)))"
    and starts: "\<And>r. r \<in> set (t_list (push_row st2)) \<Longrightarrow> byte_offset_to_start_of_line r \<le> ?start \<and> byte_offset_to_first_non_ascii r \<le> I32_MAX"
    and placed: "\<And>j. j < Suc k \<Longrightarrow> places (t_list (push_row st2)) (byte_offset cps j) (walk_to j cps START)"
  let ?rows = "t_list (push_row st2)"
  have succ: "walk_to (Suc k) cps START = next_position ?c ?cs ?p" using walk_to_Suc [OF assms(2)] .
  show ?thesis
  proof (cases "is_newline (int ?c) \<and> \<not> (?c = 0x0D \<and> ?cs \<noteq> [] \<and> hd ?cs = 0x0A)")
    case True
    let ?st' = "next_row st2"
    let ?row = "\<lparr>columns_for_non_ascii = [], byte_offset_to_first_non_ascii = I32_MAX, byte_offset_to_start_of_line = ?at'\<rparr>"
    have "table_step ?at ?c ?cs st = Some ?st'" using st True by (simp add: table_step_def)
    moreover have p: "walk_to (Suc k) cps START = \<lparr>lines = lines ?p + 1, columns = 0\<rparr>" unfolding succ next_position_def using True by auto
    moreover have all: "all_rows ?at' ?st' = ?rows @ [?row]"
      by (simp add: all_rows_eq next_row_def line_start_def)
    moreover have "places (?rows @ [?row]) (byte_offset cps j) (walk_to j cps START)" if "j < Suc k" for j
      using places_snoc [OF placed [OF that]] byte_offset_mono [OF that] assms(2) by simp
    moreover have "sorted (map byte_offset_to_start_of_line (?rows @ [?row]))"
      unfolding sorted_starts_snoc using sorted starts inv(4) at'(2) by fastforce
    moreover have "t_column ?st' = 0" "t_first_non_ascii ?st' = I32_MAX" "t_columns ?st' = []" "length (t_list ?st') = Suc (length (t_list st))"
      "line_start ?at' ?st' = ?at'"
      using st2(1) by (simp_all add: next_row_def push_row_def line_start_def)
    ultimately show ?thesis using inv(1) starts unfolding table_inv_def Let_def by (simp add: all)
  next
    case False
    let ?w = "utf16_width (int ?c)"
    let ?st' = "st2\<lparr>t_column := t_column st2 + ?w\<rparr>"
    have w: "1 \<le> ?w" "?w \<le> int (length (encode_wtf8_rune ?c))" using utf16_width_le [of ?c] by auto
    have "table_step ?at ?c ?cs st = Some ?st'" using st False by (auto simp: table_step_def)
    moreover have p: "walk_to (Suc k) cps START = ?p\<lparr>columns := columns ?p + ?w\<rparr>" unfolding succ next_position_def using False
      by (auto simp: utf16_width_def)
    moreover have ls: "line_start ?at' ?st' = ?start" using w inv(3) st2 by (simp add: line_start_def)
    moreover have all: "all_rows ?at' ?st' = ?rows" using ls st2(1,3) by (simp add: all_rows_eq push_row_def)
    moreover have "?w = 1 \<and> length (encode_wtf8_rune ?c) = 1" if "int ?c \<le> 0x7F" using that by (simp add: encode_ascii utf16_width_def)
    ultimately show ?thesis
      using inv(1-5) sorted starts placed w st2(1,2,4) at' unfolding table_inv_def Let_def by (auto simp: ls all)
  qed
qed

lemma table_inv_init: "table_inv cps 0 table_init"
  by (simp add: table_inv_def table_init_def START_def line_start_def all_rows_eq Let_def)

lemma generate_loop_inv:
  assumes "list_all is_code_point cps" "length (encode_text cps) < I32_MAX" "table_inv cps k st" "k \<le> length cps"
  shows "\<exists>st'. generate_loop (encode_text cps) (encode_text (drop k cps)) st = Some st' \<and> table_inv cps (length cps) st'"
  using assms(3,4)
proof (induction "length cps - k" arbitrary: k st)
  case 0
  then show ?case by (simp add: generate_loop.simps)
next
  case (Suc n)
  let ?at = "byte_offset cps k" and ?c = "cps ! k" and ?cs = "drop (Suc k) cps"
  have k: "k < length cps" using Suc.hyps(2) by simp
  have d: "drop k cps = ?c # ?cs" using k by (rule Cons_nth_drop_Suc [symmetric])
  have len: "length (encode_text cps) = ?at + length (encode_text (?c # ?cs))"
    unfolding d [symmetric] byte_offset_def encode_text_def by (metis append_take_drop_id concat_append length_append map_append)
  have ok: "is_code_point ?c" "list_all is_code_point ?cs" using assms(1) k by (auto simp: list_all_iff dest: in_set_dropD)
  have col: "0 \<le> t_column st" "t_column st \<le> int ?at" using Suc.prems(1) by (auto simp: table_inv_def Let_def)
  then have "t_column st + int (length (encode_text (?c # ?cs))) < 2 ^ 31" using len assms(2) by (auto simp: I32_MAX_def simp del: encode_text_simps)
  note step = generate_loop_step [OF ok col(1) this len]
  have "?at < I32_MAX" using len assms(2) length_encode [of ?c] by (auto simp: I32_MAX_def)
  then obtain st' where st': "table_step ?at ?c ?cs st = Some st'" "table_inv cps (Suc k) st'"
    using table_step_inv [OF Suc.prems(1) k] by blast
  have "n = length cps - Suc k" "Suc k \<le> length cps" using Suc.hyps(2) k by simp_all
  then show ?case using Suc.hyps(1) [OF _ st'(2)] step st'(1) unfolding d by simp
qed

text \<open>The final table is sorted and places every code point and the end of the text.\<close>

lemma generate_places:
  assumes "list_all is_code_point cps" "length (encode_text cps) < I32_MAX"
  shows "\<exists>rows. generate (encode_text cps) n = Some rows \<and> sorted (map byte_offset_to_start_of_line rows)
    \<and> length rows \<le> I32_MAX \<and> (\<forall>r\<in>set rows. byte_offset_to_first_non_ascii r \<le> I32_MAX)
    \<and> (\<forall>k\<le>length cps. places rows (byte_offset cps k) (walk_to k cps START))"
proof -
  let ?at = "length (encode_text cps)"
  obtain st where st: "generate_loop (encode_text cps) (encode_text cps) table_init = Some st" "table_inv cps (length cps) st"
    using generate_loop_inv [OF assms table_inv_init] by auto
  show ?thesis
  proof (rule marked_rows [OF st(2) order_refl, of 0, unfolded byte_offset_simps, OF assms(2)])
    fix st1 st2
    assume mark: "mark_line ?at 0 st = Some st1"
      and ext: "(if t_first_non_ascii st1 \<noteq> I32_MAX
        then do { k \<leftarrow> sub_u32 ?at (t_line_byte_offset st1); extend_columns k st1 } else Some st1) = Some st2"
      and list: "t_list st2 = t_list st"
      and rows: "sorted (map byte_offset_to_start_of_line (t_list (push_row st2)))"
      "\<And>r. r \<in> set (t_list (push_row st2)) \<Longrightarrow>
         byte_offset_to_start_of_line r \<le> line_start ?at st \<and> byte_offset_to_first_non_ascii r \<le> I32_MAX"
      "\<And>j. j < Suc (length cps) \<Longrightarrow> places (t_list (push_row st2)) (byte_offset cps j) (walk_to j cps START)"
    have st1: "st1 = (if t_column st = 0 then st\<lparr>t_line_byte_offset := ?at\<rparr> else st)"
      using mark by (simp add: mark_line_def)
    then have "t_columns st1 \<noteq> [] \<longleftrightarrow> t_first_non_ascii st1 \<noteq> I32_MAX"
      using st(2) by (auto simp: table_inv_def Let_def split: if_splits)
    then have "generate (encode_text cps) n = Some (t_list (push_row st2))"
      using ext by (auto simp: generate_def st(1) Let_def Option.bind_eq_Some_conv simp flip: st1 split: if_splits)
    moreover have "length (t_list (push_row st2)) \<le> I32_MAX"
      using table_inv_fields(1) [OF st(2)] lines_walk_to [of "length cps" cps START] length_encode_text [of cps] assms(2) list
      by (simp add: push_row_def START_def)
    ultimately show ?thesis using rows by auto
  qed
qed

section \<open>Properties\<close>

text \<open>
  Looking around the line of the previous mapping first gives the same line as the binary search.
\<close>

theorem find_line_with_hint_eq:
  assumes "sorted offsets" "length offsets \<le> I32_MAX" "0 \<le> start" "start < 2 ^ 31"
  shows "find_line_with_hint offsets start hint = find_line offsets start"
  using assms by (rule find_line_hint)

theorem find_line_with_hint_eq_witness: "find_line_with_hint [0, 4, 9] 5 0 = find_line [0, 4, 9] 5 \<and> find_line [0, 4, 9] 5 = Some 1"
  using find_line_with_hint_eq [of "[0, 4, 9]" 5 0] by (simp add: I32_MAX_def find_line_def find_line_loop.simps Let_def)

end
