(* ===== verification/SourceMapBuilder.thy ===== *)
theory SourceMapBuilder
  imports LineOffsetTables
begin

text \<open>
  The builder of \<^verbatim>\<open>src/sourcemap/Chunk.rs\<close>, which the printer calls before it prints a node: it scans what was
  printed since the last mapping, finds the original position in the line offset table and emits a
  mapping. \<open>None\<close> is a panic; a failed allocation and the internal format of the runtime are left out.
\<close>

section \<open>Operations\<close>

datatype LineOffsetTables =
    No_Tables | Borrowed "LineOffsetTable list" | Deferred bytes int | Owned "LineOffsetTable list"

fun tables_rows :: "LineOffsetTables \<Rightarrow> LineOffsetTable list" where
  "tables_rows (Borrowed rows) = rows"
| "tables_rows (Owned rows) = rows"
| "tables_rows No_Tables = []"
| "tables_rows (Deferred _ _) = []"

definition tables_columns :: "LineOffsetTables \<Rightarrow> nat list \<times> nat list" where
  "tables_columns t = (map byte_offset_to_start_of_line (tables_rows t), map byte_offset_to_first_non_ascii (tables_rows t))"

definition at_index :: "'a list \<Rightarrow> nat \<Rightarrow> 'a option" where
  "at_index xs i = (if i < length xs then Some (xs ! i) else None)"

record NewBuilder =
  b_source_map :: VLQSourceMap
  line_offset_tables :: LineOffsetTables
  prev_state :: SourceMapState
  last_generated_update :: nat
  b_generated_column :: int
  prev_loc :: int
  has_prev_state :: bool
  byte_offset_list :: "nat list"
  first_non_ascii_list :: "nat list"
  line_starts_with_mapping :: bool
  cover_lines_without_mappings :: bool

definition LOC_EMPTY :: int where
  "LOC_EMPTY = - 1"

text \<open>The default builder with its table and whether it covers lines without mappings\<close>

definition builder_init :: "LineOffsetTables \<Rightarrow> bool \<Rightarrow> NewBuilder" where
  "builder_init tables covers_lines =
     \<lparr>b_source_map = vsm_init, line_offset_tables = tables, prev_state = state_default, last_generated_update = 0,
      b_generated_column = 0, prev_loc = LOC_EMPTY, has_prev_state = False, byte_offset_list = [], first_non_ascii_list = [],
      line_starts_with_mapping = False, cover_lines_without_mappings = covers_lines\<rparr>"

definition append_mapping_without_remapping :: "SourceMapState \<Rightarrow> NewBuilder \<Rightarrow> NewBuilder" where
  "append_mapping_without_remapping current_state b =
     b\<lparr>b_source_map := vsm_append current_state (prev_state b) (b_source_map b),
       prev_state := current_state, has_prev_state := True\<rparr>"

text \<open>The previous mapping again, at the start of its line\<close>

definition repeat_at_line_start :: "NewBuilder \<Rightarrow> NewBuilder" where
  "repeat_at_line_start b = append_mapping_without_remapping ((prev_state b)\<lparr>generated_column := 0\<rparr>) b"

definition needs_mapping :: "NewBuilder \<Rightarrow> bool" where
  "needs_mapping b \<longleftrightarrow> cover_lines_without_mappings b \<and> \<not> line_starts_with_mapping b \<and> has_prev_state b"

definition begin_line :: "NewBuilder \<Rightarrow> NewBuilder option" where
  "begin_line b = do {
     l \<leftarrow> add_i32 (generated_line (prev_state b)) 1;
     Some (b\<lparr>prev_state := (prev_state b)\<lparr>generated_line := l, generated_column := 0\<rparr>,
             b_generated_column := 0, b_source_map := vsm_append_line_separator (b_source_map b),
             line_starts_with_mapping := False\<rparr>)
   }"

lemma begin_line_keeps: "begin_line b = Some b' \<Longrightarrow> last_generated_update b' = last_generated_update b"
  by (auto simp: begin_line_def Option.bind_eq_Some_conv)

lemma repeat_keeps [simp]: "last_generated_update (repeat_at_line_start b) = last_generated_update b"
  by (simp add: repeat_at_line_start_def append_mapping_without_remapping_def)

function update_loop :: "bytes \<Rightarrow> nat \<Rightarrow> bool \<Rightarrow> NewBuilder \<Rightarrow> NewBuilder option" where
  "update_loop output i needs b =
     (let at = last_generated_update b; text = drop at output in
      if i < length text then
        let len = wtf8_byte_sequence_length (text ! i);
            c = decode_wtf8_rune_t (quad len (drop i text)) len UNICODE_REPLACEMENT;
            i = i + len
        in if 14 \<le> c \<and> c \<le> 127 then
             (case index_of_newline_or_non_ascii text i of
                None \<Rightarrow> None
              | Some (Some j) \<Rightarrow> do {
                  col \<leftarrow> add_i32 (b_generated_column b) (int (j - i) + 1);
                  update_loop output j needs (b\<lparr>b_generated_column := col\<rparr>)
                }
              | Some None \<Rightarrow> do {
                  col \<leftarrow> add_i32 (b_generated_column b) (int (length (drop i text)) + 1);
                  Some (b\<lparr>b_generated_column := col\<rparr>)
                })
           else if is_newline c then
             if c = 0x0D \<and> at + i + 1 < length output \<and> output ! (at + i + 1) = CHR 0x0A
             then update_loop output i needs b
             else do {
               b \<leftarrow> begin_line (if needs then repeat_at_line_start b else b);
               update_loop output i (needs_mapping b) b
             }
           else do {
             col \<leftarrow> add_i32 (b_generated_column b) (utf16_width c);
             update_loop output i needs (b\<lparr>b_generated_column := col\<rparr>)
           }
      else Some b)"
  by pat_completeness auto
termination
  by (relation "measure (\<lambda>(output, i, _, b). length output - last_generated_update b - i)")
    (use wtf8_length_pos in \<open>auto simp: index_of_newline_or_non_ascii_def diff_less_mono2 dest!: index_of_bounds begin_line_keeps wtf8_length_step\<close>)

declare update_loop.simps [simp del]

definition update_generated_line_and_column_slow :: "bytes \<Rightarrow> NewBuilder \<Rightarrow> NewBuilder option" where
  "update_generated_line_and_column_slow output b = do {
     b \<leftarrow> update_loop output 0 (needs_mapping b) b;
     Some (b\<lparr>last_generated_update := length output\<rparr>)
   }"

definition update_generated_line_and_column :: "bytes \<Rightarrow> NewBuilder \<Rightarrow> NewBuilder option" where
  "update_generated_line_and_column output b =
     (if length output < last_generated_update b then None
      else
        let text = drop (last_generated_update b) output;
            pure_ascii = (if length text < 16 then \<not> list_ex is_control_or_non_ascii text
                          else index_of_newline_or_non_ascii text 0 = Some None)
        in if pure_ascii then do {
             col \<leftarrow> add_i32 (b_generated_column b) (int (length text));
             Some (b\<lparr>b_generated_column := col, last_generated_update := length output\<rparr>)
           }
           else update_generated_line_and_column_slow output b)"

definition resolve_tables :: "LineOffsetTables \<Rightarrow> LineOffsetTables option" where
  "resolve_tables t = (case t of Deferred contents n \<Rightarrow> map_option Owned (generate contents n) | _ \<Rightarrow> Some t)"

text \<open>The line and column of a location, from the cached columns of the table\<close>

definition original_position :: "NewBuilder \<Rightarrow> int \<Rightarrow> (int \<times> int) option" where
  "original_position b start = do {
     line \<leftarrow> find_line_with_hint (byte_offset_list b) start (nat (original_line (prev_state b) mod 2 ^ 32));
     let idx = nat (max line 0);
     line_offset \<leftarrow> at_index (byte_offset_list b) idx;
     column \<leftarrow> add_i32 start (- wrap_i32 (int line_offset));
     first_non_ascii \<leftarrow> at_index (first_non_ascii_list b) idx;
     if column \<ge> wrap_i32 (int first_non_ascii) then do {
       row \<leftarrow> at_index (tables_rows (line_offset_tables b)) idx;
       let cols = columns_for_non_ascii row;
       if cols \<noteq> [] then do {
         k \<leftarrow> sub_u32 (nat (column mod 2 ^ 32)) first_non_ascii;
         column \<leftarrow> at_index cols k;
         Some (line, column)
       }
       else Some (line, column)
     }
     else Some (line, column)
   }"

definition emit_mapping :: "int \<Rightarrow> int \<Rightarrow> NewBuilder \<Rightarrow> NewBuilder" where
  "emit_mapping line column b =
     (let b = (if cover_lines_without_mappings b \<and> \<not> line_starts_with_mapping b \<and> b_generated_column b > 0 \<and> has_prev_state b
               then repeat_at_line_start b else b)
      in (append_mapping_without_remapping
            ((prev_state b)\<lparr>generated_column := max (b_generated_column b) 0, original_line := max line 0,
               original_column := max column 0\<rparr>) b)\<lparr>line_starts_with_mapping := True\<rparr>)"

definition add_source_mapping :: "int \<Rightarrow> bytes \<Rightarrow> NewBuilder \<Rightarrow> NewBuilder option" where
  "add_source_mapping start output b =
     (if prev_loc b = start \<or> start = LOC_EMPTY then Some b
      else do {
        let b = b\<lparr>prev_loc := start\<rparr>;
        tables \<leftarrow> resolve_tables (line_offset_tables b);
        let b = b\<lparr>line_offset_tables := tables\<rparr>;
        if tables_rows tables = [] then Some b
        else do {
          let b = (if length (byte_offset_list b) \<noteq> length (tables_rows tables)
                   then b\<lparr>byte_offset_list := fst (tables_columns tables), first_non_ascii_list := snd (tables_columns tables)\<rparr>
                   else b);
          (line, column) \<leftarrow> original_position b start;
          b \<leftarrow> update_generated_line_and_column output b;
          Some (emit_mapping line column b)
        }
      })"

definition generate_chunk :: "bytes \<Rightarrow> NewBuilder \<Rightarrow> Chunk option" where
  "generate_chunk output b = do {
     b \<leftarrow> update_generated_line_and_column output b;
     Some \<lparr>chunk_buffer = vsm_data (b_source_map b), end_state = prev_state b, final_generated_column = b_generated_column b,
           chunk_should_ignore = should_ignore (b_source_map b)\<rparr>
   }"

section \<open>The builder keeps track\<close>

definition builder_position :: "NewBuilder \<Rightarrow> LineColumnOffset" where
  "builder_position b = \<lparr>lines = generated_line (prev_state b), columns = b_generated_column b\<rparr>"

text \<open>One round of the loop at a code point, for each of its three arms\<close>

lemma update_loop_end: "update_loop (old @ t) (length t) needs b = Some b" if "last_generated_update b = length old"
  using that by (simp add: update_loop.simps Let_def)

lemma update_loop_step:
  fixes pre rest :: bytes
  assumes "is_code_point c" "last_generated_update b = length old"
  defines "t \<equiv> pre @ encode_wtf8_rune c @ rest" and "k \<equiv> length pre + length (encode_wtf8_rune c)"
  shows "update_loop (old @ t) (length pre) needs b =
    (if 14 \<le> c \<and> c \<le> 127 then
       (case index_of_newline_or_non_ascii t k of
          None \<Rightarrow> None
        | Some (Some j) \<Rightarrow> do {
            col \<leftarrow> add_i32 (b_generated_column b) (int (j - k) + 1);
            update_loop (old @ t) j needs (b\<lparr>b_generated_column := col\<rparr>)
          }
        | Some None \<Rightarrow> do {
            col \<leftarrow> add_i32 (b_generated_column b) (int (length (drop k t)) + 1);
            Some (b\<lparr>b_generated_column := col\<rparr>)
          })
     else if is_newline (int c) then
       if c = 0x0D \<and> length old + k + 1 < length (old @ t) \<and> (old @ t) ! (length old + k + 1) = CHR 0x0A
       then update_loop (old @ t) k needs b
       else do {
         b \<leftarrow> begin_line (if needs then repeat_at_line_start b else b);
         update_loop (old @ t) k (needs_mapping b) b
       }
     else do {
       col \<leftarrow> add_i32 (b_generated_column b) (utf16_width (int c));
       update_loop (old @ t) k needs (b\<lparr>b_generated_column := col\<rparr>)
     })"
proof -
  have at: "drop (length old) (old @ t) = t" "last_generated_update b = length old" using assms(2) by simp_all
  have d: "length pre < length t" "drop (length pre) t = encode_wtf8_rune c @ rest" by (simp_all add: t_def)
  have len: "wtf8_byte_sequence_length (t ! length pre) = length (encode_wtf8_rune c)"
    using decode_at(1) [OF assms(1)] by (simp add: t_def)
  have num: "(14 \<le> int c \<and> int c \<le> 127) = (14 \<le> c \<and> c \<le> 127)" "(int c = 13) = (c = 13)" by auto
  show ?thesis
    by (subst update_loop.simps) (simp only: Let_def at d len decode_at(2) [OF assms(1)] num simp_thms if_True k_def [symmetric])
qed

text \<open>Printable runs: the loop takes them at once, one column for each byte.\<close>

lemma update_loop_ascii:
  fixes pre :: bytes and c :: nat
  assumes "14 \<le> c" "c \<le> 127" "last_generated_update b = length old" "list_all is_code_point cs"
    "0 \<le> b_generated_column b" "b_generated_column b + 1 + int (length (encode_text cs)) < 2 ^ 31"
  defines "t \<equiv> pre @ char_of c # encode_text cs"
  shows "update_loop (old @ t) (length pre) needs b =
    update_loop (old @ t) (length pre + 1) needs (b\<lparr>b_generated_column := b_generated_column b + 1\<rparr>)"
proof -
  let ?b = "b\<lparr>b_generated_column := b_generated_column b + 1\<rparr>" and ?k = "length pre + 1" and ?n = "b_generated_column b"
  have c: "is_code_point c" "encode_wtf8_rune c = [char_of c]" using assms(2) by (auto simp: is_code_point_def encode_ascii)
  have t: "t = pre @ encode_wtf8_rune c @ encode_text cs" "t = (pre @ [char_of c]) @ encode_text cs" "length (pre @ [char_of c]) = ?k"
    using c by (simp_all add: t_def)
  note step = update_loop_step [OF c(1) assms(3), of pre "encode_text cs" needs, folded t(1)]
  show ?thesis
  proof (cases cs)
    case Nil
    then have "index_of_newline_or_non_ascii t ?k = Some None" "length t = ?k" using index_of_end [of t] by (simp_all add: t_def)
    then show ?thesis
      using step assms(1,2,3,5,6) c update_loop_end [of ?b old t needs] Nil by (simp add: add_i32_def is_i32_def)
  next
    case (Cons d ds)
    have d: "is_code_point d" using assms(4) Cons by simp
    show ?thesis
    proof (cases "printable d")
      case False
      have "index_of_newline_or_non_ascii t ?k = Some (Some ?k)"
        using index_of_stop [OF d False, of "pre @ [char_of c]" "encode_text ds"] Cons by (simp add: t_def)
      then show ?thesis using step assms(1,2,5,6) c by (simp add: add_i32_def is_i32_def)
    next
      case True
      then have e: "encode_wtf8_rune d = [char_of d]" "14 \<le> d \<and> d \<le> 127" by (auto simp: printable_def encode_ascii)
      have td: "t = (pre @ [char_of c]) @ encode_wtf8_rune d @ encode_text ds" using Cons by (simp add: t_def)
      have idx: "index_of_newline_or_non_ascii t ?k = index_of_newline_or_non_ascii t (?k + 1)"
        using index_of_skip [OF True, of "pre @ [char_of c]" "encode_text ds"] e Cons by (simp add: t_def)
      have len: "length t = ?k + 1 + length (encode_text ds)" using e Cons by (simp add: t_def)
      note step' = update_loop_step [OF d, of ?b old "pre @ [char_of c]" "encode_text ds" needs, folded td]
      show ?thesis
      proof (cases "index_of_newline_or_non_ascii t (?k + 1)")
        case None
        then show ?thesis using step step' assms(1-3) c e idx by simp
      next
        case (Some r)
        show ?thesis
        proof (cases r)
          case r: None
          then show ?thesis
            using Some step step' assms(1-3,5,6) c e idx len Cons by (simp add: add_i32_def is_i32_def)
        next
          case r: (Some j)
          then have "?k + 1 \<le> j" "j < length t"
            using Some index_of_bounds [of True t "?k + 1" j] by (simp_all add: index_of_newline_or_non_ascii_def)
          then have "add_i32 ?n (int (j - ?k) + 1) = Some (?n + (int (j - ?k) + 1))"
            "add_i32 (?n + 1) (int (j - (?k + 1)) + 1) = Some (?n + (int (j - ?k) + 1))"
            using assms(5,6) len e Cons by (auto simp: add_i32_def is_i32_def)
          then show ?thesis using Some r step step' assms(1-3) c e idx by simp
        qed
      qed
    qed
  qed
qed

text \<open>
  The rows of a builder cover its mappings: they are the mappings in order, with the last row repeated at the
  start of a line here and there.
\<close>

inductive covers :: "SourceMapState list \<Rightarrow> SourceMapState list \<Rightarrow> bool" where
  covers_Nil: "covers [] []"
| covers_mapping: "covers ms rs \<Longrightarrow> covers (ms @ [s]) (rs @ [s])"
| covers_repeat: "covers ms rs \<Longrightarrow> rs \<noteq> [] \<Longrightarrow> covers ms (rs @ [(last rs)\<lparr>generated_line := l, generated_column := 0\<rparr>])"

text \<open>Every line after the one of the first row starts with a row, up to a line, which counts when it has started.\<close>

definition line_covered :: "SourceMapState list \<Rightarrow> int \<Rightarrow> bool \<Rightarrow> bool" where
  "line_covered rows line started \<longleftrightarrow>
     (\<forall>l. rows \<noteq> [] \<and> generated_line (hd rows) < l \<and> (l < line \<or> started \<and> l = line)
        \<longrightarrow> (\<exists>r\<in>set rows. generated_line r = l \<and> generated_column r = 0))"

lemma line_covered_snoc: "rows \<noteq> [] \<Longrightarrow> line_covered rows line started \<Longrightarrow> line_covered (rows @ [r]) line started"
  by (auto simp: line_covered_def)

lemma line_covered_start:
  assumes "rows = [] \<or> line_covered rows line False" "generated_line r = line" "rows = [] \<or> generated_column r = 0"
  shows "line_covered (rows @ [r]) line True"
  using assms by (cases "rows = []") (fastforce simp: line_covered_def)+

lemma line_covered_next: "line_covered rows line True \<Longrightarrow> line_covered rows (line + 1) False"
  by (auto simp: line_covered_def)

text \<open>What a builder has recorded, when the row of the current line is settled or not\<close>

definition row_position :: "SourceMapState \<Rightarrow> int \<times> int" where
  "row_position s = (generated_line s, generated_column s)"

definition same_original :: "SourceMapState \<Rightarrow> SourceMapState \<Rightarrow> bool" where
  "same_original s t \<longleftrightarrow> state_source s = state_source t \<and> original_line s = original_line t \<and> original_column s = original_column t"

lemma same_original_repeat:
  "same_original s t \<Longrightarrow> s\<lparr>generated_column := c\<rparr> = t\<lparr>generated_line := generated_line s, generated_column := c\<rparr>"
  by (cases s; cases t) (simp add: same_original_def)

definition recorded :: "SourceMapState list \<Rightarrow> bool \<Rightarrow> NewBuilder \<Rightarrow> SourceMapState list \<Rightarrow> bool" where
  "recorded ms started b rows \<longleftrightarrow>
     covers ms rows \<and> (cover_lines_without_mappings b \<or> rows = ms) \<and> (has_prev_state b \<longleftrightarrow> rows \<noteq> [])
     \<and> (rows \<noteq> [] \<longrightarrow> same_original (prev_state b) (last rows))
     \<and> sorted (map row_position rows)
     \<and> (\<forall>r\<in>set rows. state_source r = 0 \<and>
          (generated_line r < generated_line (prev_state b) \<or>
           generated_line r = generated_line (prev_state b) \<and> started \<and> generated_column r \<le> b_generated_column b))
     \<and> (cover_lines_without_mappings b \<longrightarrow> line_covered rows (generated_line (prev_state b)) started)
     \<and> 0 \<le> b_generated_column b \<and> state_source (prev_state b) = 0"

definition tracks :: "SourceMapState list \<Rightarrow> bool \<Rightarrow> NewBuilder \<Rightarrow> bool" where
  "tracks ms started b \<longleftrightarrow>
     (\<exists>its. emitted (b_source_map b) (prev_state b) its \<and> recorded ms started b (states state_default its))"

lemma tracks_state: "tracks ms started b \<Longrightarrow> state_ok (prev_state b) \<and> 0 \<le> b_generated_column b"
  by (auto simp: tracks_def recorded_def emitted_def dest: items_ok_last)

lemma tracks_column:
  assumes "tracks ms started b" "b_generated_column b \<le> col"
  shows "tracks ms started (b\<lparr>b_generated_column := col\<rparr>)"
  using assms unfolding tracks_def recorded_def by fastforce

lemma sorted_snoc_row:
  "sorted (map row_position rows) \<Longrightarrow> \<forall>r\<in>set rows. row_position r \<le> row_position s \<Longrightarrow> sorted (map row_position (rows @ [s]))"
  by (simp add: sorted_append)

text \<open>Repeating the last row at the start of the line settles the line.\<close>

lemma tracks_repeat:
  assumes "tracks ms False b" "cover_lines_without_mappings b" "has_prev_state b"
  shows "tracks ms True (repeat_at_line_start b)"
proof -
  obtain its where its: "emitted (b_source_map b) (prev_state b) its" "recorded ms False b (states state_default its)"
    using assms(1) by (auto simp: tracks_def)
  let ?rows = "states state_default its" and ?s = "(prev_state b)\<lparr>generated_column := 0\<rparr>"
  have "state_ok ?s" using tracks_state [OF assms(1)] by (auto simp: state_ok_def ordinal_ok_def is_i32_def)
  note emit = emitted_append [OF its(1) this]
  have rows: "?rows \<noteq> []" using its(2) assms(3) by (simp add: recorded_def)
  have s: "?s = (last ?rows)\<lparr>generated_line := generated_line (prev_state b), generated_column := 0\<rparr>"
    using its(2) rows same_original_repeat by (simp add: recorded_def)
  have "covers ms (?rows @ [?s])" unfolding s using covers_repeat rows its(2) by (simp add: recorded_def)
  moreover have "line_covered (?rows @ [?s]) (generated_line (prev_state b)) True"
    using its(2) assms(2) by (intro line_covered_start) (auto simp: recorded_def)
  moreover have "sorted (map row_position (?rows @ [?s]))"
    using its(2) by (intro sorted_snoc_row) (auto simp: recorded_def row_position_def)
  ultimately have "recorded ms True (repeat_at_line_start b) (?rows @ [?s])"
    using its(2) assms(2) unfolding recorded_def
    by (auto simp: repeat_at_line_start_def append_mapping_without_remapping_def same_original_def)
  then show ?thesis
    using emit unfolding tracks_def by (fastforce simp: repeat_at_line_start_def append_mapping_without_remapping_def)
qed

text \<open>A new line, once the old one is settled\<close>

lemma tracks_begin_line:
  assumes "tracks ms started b" "cover_lines_without_mappings b \<and> has_prev_state b \<Longrightarrow> started"
    "generated_line (prev_state b) + 1 < 2 ^ 31"
  obtains b' where "begin_line b = Some b'" "tracks ms False b'" "line_starts_with_mapping b' = False"
    "builder_position b' = \<lparr>lines = generated_line (prev_state b) + 1, columns = 0\<rparr>"
proof -
  obtain its where its: "emitted (b_source_map b) (prev_state b) its" "recorded ms started b (states state_default its)"
    using assms(1) by (auto simp: tracks_def)
  let ?rows = "states state_default its" and ?l = "generated_line (prev_state b)"
  let ?b = "b\<lparr>prev_state := (prev_state b)\<lparr>generated_line := ?l + 1, generated_column := 0\<rparr>,
             b_generated_column := 0, b_source_map := vsm_append_line_separator (b_source_map b), line_starts_with_mapping := False\<rparr>"
  note emit = emitted_line_separator [OF its(1) assms(3)]
  have "add_i32 ?l 1 = Some (?l + 1)"
    using tracks_state [OF assms(1)] assms(3) by (auto simp: add_i32_def is_i32_def state_ok_def ordinal_ok_def)
  then have "begin_line b = Some ?b" by (simp add: begin_line_def)
  moreover have "line_covered ?rows (?l + 1) False" if "cover_lines_without_mappings b"
  proof (cases "?rows = []")
    case False
    then have "started" using assms(2) that its(2) by (simp add: recorded_def)
    then show ?thesis using its(2) that by (intro line_covered_next) (simp add: recorded_def)
  qed (simp add: line_covered_def)
  then have "recorded ms False ?b ?rows"
    using its(2) unfolding recorded_def by (auto simp: same_original_def)
  then have "tracks ms False ?b" using emit unfolding tracks_def by fastforce
  ultimately show thesis by (rule that) (simp_all add: builder_position_def)
qed

text \<open>A mapping at the current position\<close>

lemma tracks_mapping:
  assumes "tracks ms started b" "cover_lines_without_mappings b \<and> has_prev_state b \<and> b_generated_column b > 0 \<Longrightarrow> started"
    "cur = (prev_state b)\<lparr>generated_column := b_generated_column b, original_line := ol, original_column := oc\<rparr>" "state_ok cur"
  shows "tracks (ms @ [cur]) True (append_mapping_without_remapping cur b)"
proof -
  obtain its where its: "emitted (b_source_map b) (prev_state b) its" "recorded ms started b (states state_default its)"
    using assms(1) by (auto simp: tracks_def)
  let ?rows = "states state_default its" and ?b = "append_mapping_without_remapping cur b"
  have line: "generated_line cur = generated_line (prev_state b)" using assms(3) by simp
  note emit = emitted_append [OF its(1) assms(4) line]
  have "covers (ms @ [cur]) (?rows @ [cur])" using its(2) covers_mapping by (simp add: recorded_def)
  moreover have "line_covered (?rows @ [cur]) (generated_line (prev_state b)) True" if "cover_lines_without_mappings b"
  proof (cases "started \<and> ?rows \<noteq> []")
    case True
    then show ?thesis using its(2) that by (intro line_covered_snoc) (auto simp: recorded_def)
  next
    case False
    then have "?rows = [] \<or> generated_column cur = 0"
      using assms(2,3) that its(2) by (auto simp: recorded_def)
    then show ?thesis using its(2) that False line by (intro line_covered_start) (auto simp: recorded_def)
  qed
  moreover have "sorted (map row_position (?rows @ [cur]))"
    using its(2) assms(3) by (intro sorted_snoc_row) (auto simp: recorded_def row_position_def)
  ultimately have "recorded (ms @ [cur]) True ?b (?rows @ [cur])"
    using its(2) assms(3) unfolding recorded_def by (auto simp: append_mapping_without_remapping_def same_original_def)
  then show ?thesis
    using emit unfolding tracks_def by (fastforce simp: append_mapping_without_remapping_def)
qed

section \<open>Scanning the output\<close>

definition builder_env :: "NewBuilder \<Rightarrow> LineOffsetTables \<times> int \<times> nat list \<times> nat list \<times> bool" where
  "builder_env b = (line_offset_tables b, prev_loc b, byte_offset_list b, first_non_ascii_list b, cover_lines_without_mappings b)"

definition builder_keeps :: "NewBuilder \<Rightarrow> NewBuilder \<Rightarrow> bool" where
  "builder_keeps b b' \<longleftrightarrow> builder_env b' = builder_env b \<and> last_generated_update b' = last_generated_update b
     \<and> same_original (prev_state b') (prev_state b)"

lemma builder_keeps_trans: "builder_keeps a b \<Longrightarrow> builder_keeps b c \<Longrightarrow> builder_keeps a c"
  by (simp add: builder_keeps_def same_original_def)

lemma builder_keeps_column: "builder_keeps b (b\<lparr>b_generated_column := c\<rparr>)"
  by (simp add: builder_keeps_def builder_env_def same_original_def)

lemma builder_keeps_repeat: "builder_keeps b (repeat_at_line_start b)"
  by (simp add: builder_keeps_def builder_env_def same_original_def repeat_at_line_start_def append_mapping_without_remapping_def)

lemma builder_keeps_begin_line: "begin_line b = Some b' \<Longrightarrow> builder_keeps b b'"
  by (auto simp: builder_keeps_def builder_env_def same_original_def begin_line_def Option.bind_eq_Some_conv)

text \<open>The end of a line: the line is settled first when it has to be.\<close>

lemma end_of_line:
  assumes "tracks ms (line_starts_with_mapping b) b" "generated_line (prev_state b) + 1 < 2 ^ 31"
  obtains b' where "begin_line (if needs_mapping b then repeat_at_line_start b else b) = Some b'"
    "tracks ms (line_starts_with_mapping b') b'" "builder_keeps b b'"
    "builder_position b' = \<lparr>lines = generated_line (prev_state b) + 1, columns = 0\<rparr>"
proof -
  let ?b = "if needs_mapping b then repeat_at_line_start b else b"
  have line: "generated_line (prev_state ?b) = generated_line (prev_state b)" "builder_keeps b ?b"
    using builder_keeps_repeat [of b]
    by (auto simp: repeat_at_line_start_def append_mapping_without_remapping_def builder_keeps_def same_original_def)
  have "tracks ms (needs_mapping b \<or> line_starts_with_mapping b) ?b"
    using assms(1) tracks_repeat [of ms b] by (auto simp: needs_mapping_def)
  moreover have "needs_mapping b \<or> line_starts_with_mapping b" if "cover_lines_without_mappings ?b \<and> has_prev_state ?b"
    using that by (auto simp: needs_mapping_def split: if_splits)
  ultimately obtain b' where "begin_line ?b = Some b'" "tracks ms False b'" "line_starts_with_mapping b' = False"
    "builder_position b' = \<lparr>lines = generated_line (prev_state ?b) + 1, columns = 0\<rparr>"
    using tracks_begin_line [of ms _ ?b] assms(2) line by metis
  then show thesis using that [of b'] line builder_keeps_trans [OF line(2) builder_keeps_begin_line] by simp
qed

lemma update_loop_walk:
  assumes "list_all is_code_point cps" "0x0D \<notin> set cps" "tracks ms (line_starts_with_mapping b) b" "last_generated_update b = length old"
    "b_generated_column b + int (length (encode_text cps)) < 2 ^ 31"
    "generated_line (prev_state b) + int (length (encode_text cps)) < 2 ^ 31"
  shows "\<exists>b'. update_loop (old @ pre @ encode_text cps) (length pre) (needs_mapping b) b = Some b' \<and> tracks ms (line_starts_with_mapping b') b'
    \<and> builder_position b' = walk_text cps (builder_position b) \<and> builder_keeps b b'"
  using assms
proof (induction cps arbitrary: pre b)
  case Nil
  then show ?case
    using update_loop_end [of b old pre] by (simp add: builder_keeps_def same_original_def)
next
  case (Cons c cs)
  let ?e = "encode_wtf8_rune c" and ?t = "pre @ encode_wtf8_rune c @ encode_text cs" and ?n = "b_generated_column b"
  have c: "is_code_point c" "c \<noteq> 0x0D" and cs: "list_all is_code_point cs" "0x0D \<notin> set cs" using Cons.prems(1,2) by auto
  have col: "0 \<le> ?n" using tracks_state [OF Cons.prems(3)] by simp
  have len: "1 \<le> int (length ?e)" using length_encode [of c] by auto
  have IH: "\<exists>b'. update_loop (old @ ?t) (length pre + length ?e) (needs_mapping b1) b1 = Some b' \<and> tracks ms (line_starts_with_mapping b') b'
      \<and> builder_position b' = walk_text cs (builder_position b1) \<and> builder_keeps b b'"
    if "tracks ms (line_starts_with_mapping b1) b1" "builder_keeps b b1"
      "b_generated_column b1 + int (length (encode_text cs)) < 2 ^ 31"
      "generated_line (prev_state b1) + int (length (encode_text cs)) < 2 ^ 31" for b1
    using Cons.IH [OF cs that(1) _ that(3,4), of "pre @ ?e"] that(2) Cons.prems(4) builder_keeps_trans [OF that(2)]
    by (auto simp: builder_keeps_def)
  have wider: "\<exists>b'. update_loop (old @ ?t) (length pre + length ?e) (needs_mapping b) (b\<lparr>b_generated_column := ?n + w\<rparr>) = Some b'
      \<and> tracks ms (line_starts_with_mapping b') b' \<and> builder_position b' = walk_text cs ((builder_position b)\<lparr>columns := ?n + w\<rparr>)
      \<and> builder_keeps b b'"
    if "0 \<le> w" "w \<le> int (length ?e)" for w
    using IH [of "b\<lparr>b_generated_column := ?n + w\<rparr>"] tracks_column [OF Cons.prems(3), of "?n + w"] that Cons.prems(5,6)
      builder_keeps_column
    by (simp add: needs_mapping_def builder_position_def)
  note step = update_loop_step [OF c(1) Cons.prems(4), of pre "encode_text cs" "needs_mapping b"]
  consider (ascii) "14 \<le> c \<and> c \<le> 127" | (newline) "is_newline (int c)" "\<not> (14 \<le> c \<and> c \<le> 127)"
    | (other) "\<not> is_newline (int c)" "\<not> (14 \<le> c \<and> c \<le> 127)" by blast
  then show ?case
  proof cases
    case ascii
    then have e: "?e = [char_of c]" "\<not> is_newline (int c)" "utf16_width (int c) = 1"
      by (auto simp: encode_ascii is_newline_def utf16_width_def)
    have "update_loop (old @ ?t) (length pre) (needs_mapping b) b =
        update_loop (old @ ?t) (length pre + 1) (needs_mapping b) (b\<lparr>b_generated_column := ?n + 1\<rparr>)"
      using update_loop_ascii [of c b old cs pre "needs_mapping b"] ascii Cons.prems(4,5) cs col e by simp
    then show ?thesis using wider [of 1] e by (simp add: next_position_def builder_position_def)
  next
    case newline
    obtain b1 where b1: "begin_line (if needs_mapping b then repeat_at_line_start b else b) = Some b1"
      "tracks ms (line_starts_with_mapping b1) b1" "builder_keeps b b1"
      "builder_position b1 = \<lparr>lines = generated_line (prev_state b) + 1, columns = 0\<rparr>"
      using end_of_line [OF Cons.prems(3)] Cons.prems(6) len by auto
    then have "update_loop (old @ ?t) (length pre) (needs_mapping b) b = update_loop (old @ ?t) (length pre + length ?e) (needs_mapping b1) b1"
      unfolding step using newline c by auto
    moreover have "b_generated_column b1 = 0" "generated_line (prev_state b1) = generated_line (prev_state b) + 1"
      using b1(4) by (simp_all add: builder_position_def)
    ultimately show ?thesis
      using IH [OF b1(2,3)] Cons.prems(5,6) len col b1(4) newline c by (simp add: next_position_def builder_position_def)
  next
    case other
    have w: "1 \<le> utf16_width (int c)" "utf16_width (int c) \<le> int (length ?e)" using utf16_width_le [of c] by auto
    then have "add_i32 ?n (utf16_width (int c)) = Some (?n + utf16_width (int c))"
      using Cons.prems(5) col by (simp add: add_i32_def is_i32_def)
    then have "update_loop (old @ ?t) (length pre) (needs_mapping b) b =
        update_loop (old @ ?t) (length pre + length ?e) (needs_mapping b) (b\<lparr>b_generated_column := ?n + utf16_width (int c)\<rparr>)"
      unfolding step using other by auto
    then show ?thesis using wider [OF _ w(2)] w(1) other by (simp add: next_position_def builder_position_def)
  qed
qed

text \<open>The fast path for a window of printable ASCII\<close>

lemma index_of_none: "index_of_newline_or_non_ascii t 0 = Some None \<longleftrightarrow> \<not> list_ex is_control_or_non_ascii t"
proof -
  have "length (takeWhile (\<lambda>c. \<not> is_control_or_non_ascii c) t) = length t \<longleftrightarrow> \<not> list_ex is_control_or_non_ascii t"
    by (induction t) auto
  moreover have "\<not> is_control_or_non_ascii (hd t) \<Longrightarrow> \<not> of_char (hd t) > (127 :: nat) \<and> \<not> of_char (hd t) < (0x20 :: nat)"
    by (simp add: is_control_or_non_ascii_def)
  moreover have "is_control_or_non_ascii (hd t) \<Longrightarrow> t \<noteq> [] \<Longrightarrow> list_ex is_control_or_non_ascii t" by (cases t) auto
  ultimately show ?thesis
    by (auto simp: index_of_newline_or_non_ascii_def index_of_newline_or_non_ascii_check_start_def Let_def)
qed

lemma walk_printable:
  assumes "list_all is_code_point cps" "\<not> list_ex is_control_or_non_ascii (encode_text cps)"
  shows "walk_text cps p = p\<lparr>columns := columns p + int (length (encode_text cps))\<rparr>"
  using assms
proof (induction cps arbitrary: p)
  case (Cons c cs)
  have "hd (encode_wtf8_rune c) \<in> set (encode_text (c # cs))" by simp
  then have "printable c" using Cons.prems is_control_encode [of c] by (auto simp: list_ex_iff)
  then have "encode_wtf8_rune c = [char_of c]" "\<not> is_newline (int c)" "utf16_width (int c) = 1"
    by (auto simp: encode_ascii printable_def is_newline_def utf16_width_def)
  then show ?case using Cons by (simp add: next_position_def)
qed simp

lemma update_correct:
  assumes "list_all is_code_point cps" "0x0D \<notin> set cps" "tracks ms (line_starts_with_mapping b) b" "last_generated_update b = length old"
    "b_generated_column b + int (length (encode_text cps)) < 2 ^ 31"
    "generated_line (prev_state b) + int (length (encode_text cps)) < 2 ^ 31"
  obtains b' where "update_generated_line_and_column (old @ encode_text cps) b = Some b'" "tracks ms (line_starts_with_mapping b') b'"
    "builder_position b' = walk_text cps (builder_position b)" "builder_env b' = builder_env b"
    "last_generated_update b' = length (old @ encode_text cps)" "same_original (prev_state b') (prev_state b)"
proof (cases "list_ex is_control_or_non_ascii (encode_text cps)")
  case False
  let ?col = "b_generated_column b + int (length (encode_text cps))"
  let ?b = "b\<lparr>b_generated_column := ?col, last_generated_update := length (old @ encode_text cps)\<rparr>"
  have "tracks ms (line_starts_with_mapping b) (b\<lparr>b_generated_column := ?col\<rparr>)" using tracks_column [OF assms(3), of ?col] by simp
  then have "tracks ms (line_starts_with_mapping ?b) ?b" by (simp add: tracks_def recorded_def)
  moreover have "update_generated_line_and_column (old @ encode_text cps) b = Some ?b"
    using False assms(4,5) tracks_state [OF assms(3)] index_of_none [of "encode_text cps"]
    by (simp add: update_generated_line_and_column_def Let_def add_i32_def is_i32_def)
  ultimately show thesis
    using that [of ?b] walk_printable [OF assms(1) False] by (simp add: builder_position_def builder_env_def same_original_def)
next
  case True
  obtain b1 where b1: "update_loop (old @ encode_text cps) 0 (needs_mapping b) b = Some b1" "tracks ms (line_starts_with_mapping b1) b1"
    "builder_position b1 = walk_text cps (builder_position b)" "builder_keeps b b1"
    using update_loop_walk [OF assms, of "[]"] by auto
  let ?b = "b1\<lparr>last_generated_update := length (old @ encode_text cps)\<rparr>"
  have "tracks ms (line_starts_with_mapping ?b) ?b" using b1(2) by (simp add: tracks_def recorded_def)
  moreover have "update_generated_line_and_column (old @ encode_text cps) b = Some ?b"
    using True assms(4) b1(1) index_of_none [of "encode_text cps"]
    by (simp add: update_generated_line_and_column_def update_generated_line_and_column_slow_def Let_def)
  ultimately show thesis
    using that [of ?b] b1(3,4) by (simp add: builder_position_def builder_env_def builder_keeps_def)
qed

section \<open>The original position\<close>

text \<open>The cached columns are those of the table, which is not empty.\<close>

definition resolved :: "NewBuilder \<Rightarrow> LineOffsetTable list \<Rightarrow> bool" where
  "resolved b rows \<longleftrightarrow> tables_rows (line_offset_tables b) = rows \<and> byte_offset_list b = map byte_offset_to_start_of_line rows
     \<and> first_non_ascii_list b = map byte_offset_to_first_non_ascii rows"

lemma original_position_placed:
  assumes "resolved b rows" "sorted (map byte_offset_to_start_of_line rows)" "places rows at p" "length rows \<le> I32_MAX"
    "at < I32_MAX" "\<forall>r\<in>set rows. byte_offset_to_first_non_ascii r \<le> I32_MAX"
  shows "original_position b (int at) = Some (lines p, columns p)"
proof -
  let ?l = "nat (lines p)" and ?offs = "map byte_offset_to_start_of_line rows"
  let ?row = "rows ! ?l"
  let ?start = "byte_offset_to_start_of_line ?row"
  have p: "0 \<le> lines p" "?l < length rows" "?start \<le> at" "?l + 1 < length rows \<longrightarrow> at < byte_offset_to_start_of_line (rows ! (?l + 1))"
    "cell (byte_offset_to_first_non_ascii ?row) (columns_for_non_ascii ?row) (at - ?start) (columns p)"
    using assms(3) by (auto simp: places_def Let_def)
  have "find_line ?offs (int at) = Some (int (?l + 1) - 1)"
    by (rule find_line_splits [OF assms(2) splits_at_sorted [OF assms(2)]])
      (use p(2-4) assms(4) in \<open>cases "?l + 1 < length rows"; auto\<close>)+
  then have line: "find_line_with_hint ?offs (int at) hint = Some (lines p)" for hint
    using find_line_hint [OF assms(2), of "int at" hint] assms(4,5) p(1) by (simp add: I32_MAX_def)
  have first: "byte_offset_to_first_non_ascii ?row \<le> I32_MAX" using assms(6) p(2) by simp
  then have wrap: "wrap_i32 (int (byte_offset_to_first_non_ascii ?row)) = int (byte_offset_to_first_non_ascii ?row)"
    "wrap_i32 (int ?start) = int ?start" "add_i32 (int at) (- int ?start) = Some (int (at - ?start))"
    using assms(5) p(3) by (simp_all add: is_i32_def I32_MAX_def add_i32_def)
  have rel: "nat (int (at - ?start) mod 2 ^ 32) = at - ?start" using assms(5) by (simp add: I32_MAX_def)
  have idx: "nat (max (lines p) 0) = ?l" using p(1) by simp
  have cols: "at_index (byte_offset_list b) ?l = Some ?start" "at_index (tables_rows (line_offset_tables b)) ?l = Some ?row"
    "at_index (first_non_ascii_list b) ?l = Some (byte_offset_to_first_non_ascii ?row)" "byte_offset_list b = ?offs"
    using assms(1) p(2) by (simp_all add: resolved_def at_index_def)
  note found = line [folded cols(4)]
  show ?thesis
  proof (cases "at - ?start < byte_offset_to_first_non_ascii ?row")
    case True
    then have "columns p = int (at - ?start)" using p(5) by (simp add: cell_def)
    then show ?thesis using True unfolding original_position_def by (simp add: found idx cols(1-3) wrap Let_def del: of_nat_diff)
  next
    case False
    let ?k = "at - ?start - byte_offset_to_first_non_ascii ?row"
    have "?k < length (columns_for_non_ascii ?row)" "columns_for_non_ascii ?row ! ?k = columns p"
      using False p(5) by (auto simp: cell_def)
    then have "at_index (columns_for_non_ascii ?row) ?k = Some (columns p)" "columns_for_non_ascii ?row \<noteq> []" by (auto simp: at_index_def)
    then show ?thesis
      using False unfolding original_position_def
      by (simp add: found idx cols(1-3) wrap rel [simplified] sub_u32_def Let_def not_less del: of_nat_diff)
  qed
qed

text \<open>
  C20. The line offset table of a source, as the builder reads it, gives the line and column of every code
  point of the source and of its end, whatever line the previous mapping was on.
\<close>

theorem line_offset_table_positions:
  assumes "list_all is_code_point src" "length (encode_text src) < I32_MAX" "k \<le> length src"
  shows "\<exists>rows. generate (encode_text src) n = Some rows \<and>
    (\<forall>b. resolved b rows \<longrightarrow>
       original_position b (int (byte_offset src k)) = Some (lines (walk_to k src START), columns (walk_to k src START)))"
proof -
  obtain rows where rows: "generate (encode_text src) n = Some rows" "sorted (map byte_offset_to_start_of_line rows)"
    "length rows \<le> I32_MAX" "\<forall>r\<in>set rows. byte_offset_to_first_non_ascii r \<le> I32_MAX"
    "places rows (byte_offset src k) (walk_to k src START)"
    using generate_places [OF assms(1,2)] assms(3) by blast
  have "byte_offset src k < I32_MAX" using byte_offset_le [of src k] assms(2) by simp
  then show ?thesis using rows original_position_placed by blast
qed

theorem line_offset_table_positions_witness:
  "\<exists>rows. generate (encode_text [97, 10, 233, 98]) 1 = Some rows \<and>
    (\<forall>b. resolved b rows \<longrightarrow> original_position b 4 = Some (1, 1))"
proof -
  let ?src = "[97, 10, 233, 98]"
  have "list_all is_code_point ?src" "length (encode_text ?src) < I32_MAX" "(3 :: nat) \<le> length ?src"
    by (simp_all add: is_code_point_def encode_wtf8_rune_def I32_MAX_def)
  moreover have "walk_to 3 ?src START = \<lparr>lines = 1, columns = 1\<rparr>" "byte_offset ?src 3 = 4" by code_simp+
  ultimately show ?thesis using line_offset_table_positions [of ?src 3 1] by simp
qed

end
