(* ===== verification/SourceMapPrinted.thy ===== *)
theory SourceMapPrinted
  imports SourceMapBuilder
begin

text \<open>
  What a printer gets from the builder: it prints text and announces source locations, and the chunk parses
  back to the generated positions of the announcements with the positions of the locations in the source.
\<close>

section \<open>Printing with announcements\<close>

text \<open>A printer prints code points and announces code points of the source by their index.\<close>

datatype event = Print "nat list" | Map nat

fun run_events :: "nat list \<Rightarrow> event list \<Rightarrow> bytes \<times> NewBuilder \<Rightarrow> (bytes \<times> NewBuilder) option" where
  "run_events src [] s = Some s"
| "run_events src (Print cps # es) (output, b) = run_events src es (output @ encode_text cps, b)"
| "run_events src (Map k # es) (output, b) =
     do { b \<leftarrow> add_source_mapping (int (byte_offset src k)) output b; run_events src es (output, b) }"

definition print_chunk :: "nat list \<Rightarrow> int \<Rightarrow> bool \<Rightarrow> event list \<Rightarrow> Chunk option" where
  "print_chunk src n covers_lines es = do {
     (output, b) \<leftarrow> run_events src es ([], builder_init (Deferred (encode_text src) n) covers_lines);
     generate_chunk output b
   }"

fun printed :: "event list \<Rightarrow> nat list" where
  "printed [] = []"
| "printed (Print cps # es) = cps @ printed es"
| "printed (Map k # es) = printed es"

text \<open>The mappings that the announcements ask for; one that repeats the location before it asks for none.\<close>

definition mark :: "nat list \<Rightarrow> nat list \<Rightarrow> nat \<Rightarrow> SourceMapState" where
  "mark src before k =
     (let g = walk_text before START; p = walk_to k src START in
      \<lparr>generated_line = lines g, generated_column = columns g, state_source = 0, original_line = lines p, original_column = columns p\<rparr>)"

fun marks :: "nat list \<Rightarrow> nat list \<Rightarrow> nat option \<Rightarrow> event list \<Rightarrow> SourceMapState list" where
  "marks src before prev [] = []"
| "marks src before prev (Print cps # es) = marks src (before @ cps) prev es"
| "marks src before prev (Map k # es) =
     (if prev = Some k then marks src before prev es else mark src before k # marks src before (Some k) es)"

fun event_ok :: "nat list \<Rightarrow> event \<Rightarrow> bool" where
  "event_ok src (Print cps) \<longleftrightarrow> list_all is_code_point cps \<and> 0x0D \<notin> set cps"
| "event_ok src (Map k) \<longleftrightarrow> k \<le> length src"

section \<open>Bounds of positions\<close>

lemma next_position_bounds:
  assumes "0 \<le> lines p" "0 \<le> columns p"
  shows "0 \<le> lines (next_position c cs p)" "0 \<le> columns (next_position c cs p)"
    "lines (next_position c cs p) \<le> lines p + int (length (encode_wtf8_rune c))"
    "columns (next_position c cs p) \<le> columns p + int (length (encode_wtf8_rune c))"
  using assms utf16_width_le [of c] length_encode [of c] by (auto simp: next_position_def)

lemma walk_to_bounds:
  assumes "0 \<le> lines p" "0 \<le> columns p"
  shows "0 \<le> lines (walk_to k cps p) \<and> 0 \<le> columns (walk_to k cps p)
    \<and> lines (walk_to k cps p) \<le> lines p + int (length (encode_text cps))
    \<and> columns (walk_to k cps p) \<le> columns p + int (length (encode_text cps))"
  using assms
proof (induction k cps p rule: walk_to.induct)
  case (3 k c cs p)
  then show ?case using next_position_bounds [OF 3(2,3), of c cs] by fastforce
qed auto

lemma walk_conv: "walk_text cps p = walk_to (length cps) cps p"
  by (induction cps p rule: walk_text.induct) auto

lemmas walk_bounds = walk_to_bounds [of START, unfolded START_def LineColumnOffset.simps, OF order_refl order_refl, folded START_def]

lemma walk_append: "0x0D \<notin> set xs \<Longrightarrow> walk_text (xs @ ys) p = walk_text ys (walk_text xs p)"
  by (induction xs arbitrary: p) (auto simp: next_position_def)

lemma byte_offset_eq_iff: "j \<le> length cps \<Longrightarrow> k \<le> length cps \<Longrightarrow> byte_offset cps j = byte_offset cps k \<longleftrightarrow> j = k"
  using byte_offset_mono [of j k cps] byte_offset_mono [of k j cps] by (metis less_irrefl linorder_neqE_nat)

section \<open>The invariant of a run\<close>

definition source_ok :: "nat list \<Rightarrow> bool" where
  "source_ok src \<longleftrightarrow> list_all is_code_point src \<and> length (encode_text src) < I32_MAX"

definition tables_inv :: "nat list \<Rightarrow> NewBuilder \<Rightarrow> bool" where
  "tables_inv src b \<longleftrightarrow> (\<exists>n. line_offset_tables b = Deferred (encode_text src) n \<and> byte_offset_list b = []) \<or>
     (\<exists>n rows. line_offset_tables b = Owned rows \<and> generate (encode_text src) n = Some rows \<and> resolved b rows)"

definition run_inv :: "nat list \<Rightarrow> nat list \<Rightarrow> nat option \<Rightarrow> SourceMapState list \<Rightarrow> NewBuilder \<Rightarrow> bool" where
  "run_inv src before prev ms b \<longleftrightarrow> tracks ms (line_starts_with_mapping b) b \<and> tables_inv src b
     \<and> (case prev of None \<Rightarrow> prev_loc b = LOC_EMPTY | Some k \<Rightarrow> k \<le> length src \<and> prev_loc b = int (byte_offset src k))
     \<and> (\<exists>scanned rest. before = scanned @ rest \<and> last_generated_update b = length (encode_text scanned)
          \<and> builder_position b = walk_text scanned START)"

lemma run_inv_init: "run_inv src [] None [] (builder_init (Deferred (encode_text src) n) covers_lines)"
  using emitted_init covers_Nil
  by (force simp: run_inv_def builder_init_def tables_inv_def builder_position_def START_def state_default_def
      tracks_def recorded_def line_covered_def intro!: exI [of _ "[]"])

lemma run_inv_print: "run_inv src before prev ms b \<Longrightarrow> run_inv src (before @ cps) prev ms b"
  by (force simp: run_inv_def)

text \<open>Scanning catches up with the output.\<close>

lemma run_inv_update:
  assumes "run_inv src before prev ms b" "list_all is_code_point before" "0x0D \<notin> set before" "length (encode_text before) < I32_MAX"
  obtains b' where "update_generated_line_and_column (encode_text before) b = Some b'" "tracks ms (line_starts_with_mapping b') b'"
    "builder_position b' = walk_text before START" "builder_env b' = builder_env b"
    "last_generated_update b' = length (encode_text before)"
proof -
  obtain scanned rest where b: "before = scanned @ rest" "last_generated_update b = length (encode_text scanned)"
    "builder_position b = walk_text scanned START" and tr: "tracks ms (line_starts_with_mapping b) b"
    using assms(1) by (auto simp: run_inv_def)
  have pos: "b_generated_column b = columns (walk_text scanned START)" "generated_line (prev_state b) = lines (walk_text scanned START)"
    using b(3) by (auto simp: builder_position_def dest: arg_cong [of _ _ columns] arg_cong [of _ _ lines])
  have len: "length (encode_text before) = length (encode_text scanned) + length (encode_text rest)"
    using b(1) by (simp add: encode_text_append)
  have "b_generated_column b + int (length (encode_text rest)) < 2 ^ 31" "generated_line (prev_state b) + int (length (encode_text rest)) < 2 ^ 31"
    using walk_bounds [of "length scanned" scanned] pos len assms(4) by (auto simp: walk_conv I32_MAX_def START_def)
  moreover have "list_all is_code_point rest" "0x0D \<notin> set rest" "0x0D \<notin> set scanned" using assms(2,3) b(1) by auto
  ultimately show thesis
    using update_correct [of rest ms b "encode_text scanned"] tr b(2,3) that b(1) walk_append [of scanned rest START]
    by (metis encode_text_append)
qed

text \<open>The table is generated by the first announcement and resolves every code point of the source.\<close>

definition with_tables :: "LineOffsetTable list \<Rightarrow> NewBuilder \<Rightarrow> NewBuilder" where
  "with_tables rows b =
     (let b = b\<lparr>line_offset_tables := Owned rows\<rparr> in
      if length (byte_offset_list b) \<noteq> length rows
      then b\<lparr>byte_offset_list := map byte_offset_to_start_of_line rows, first_non_ascii_list := map byte_offset_to_first_non_ascii rows\<rparr>
      else b)"

lemma with_tables_simps [simp]:
  "tracks ms started (with_tables rows b) = tracks ms started b" "line_starts_with_mapping (with_tables rows b) = line_starts_with_mapping b"
  "prev_loc (with_tables rows b) = prev_loc b" "last_generated_update (with_tables rows b) = last_generated_update b"
  "builder_position (with_tables rows b) = builder_position b" "line_offset_tables (with_tables rows b) = Owned rows"
  by (simp_all add: with_tables_def Let_def tracks_def recorded_def builder_position_def)

lemma resolve:
  assumes "tables_inv src b" "source_ok src"
  obtains rows where "resolve_tables (line_offset_tables b) = Some (Owned rows)" "rows \<noteq> []" "tables_inv src (with_tables rows b)"
    "\<And>b' k. builder_env b' = builder_env (with_tables rows b) \<Longrightarrow> k \<le> length src \<Longrightarrow>
       original_position b' (int (byte_offset src k)) = Some (lines (walk_to k src START), columns (walk_to k src START))"
proof -
  obtain n rows where rows: "resolve_tables (line_offset_tables b) = Some (Owned rows)" "generate (encode_text src) n = Some rows"
    "byte_offset_list b = [] \<or> resolved b rows"
    using assms(1) generate_places assms(2) unfolding tables_inv_def source_ok_def resolve_tables_def
    by (metis LineOffsetTables.simps(18) LineOffsetTables.simps(19) option.map(2))
  have g: "sorted (map byte_offset_to_start_of_line rows)" "length rows \<le> I32_MAX"
    "\<forall>r\<in>set rows. byte_offset_to_first_non_ascii r \<le> I32_MAX"
    "\<And>k. k \<le> length src \<Longrightarrow> places rows (byte_offset src k) (walk_to k src START)"
    using generate_places [of src n] assms(2) rows(2) by (auto simp: source_ok_def)
  have ne: "rows \<noteq> []" using g(4) [of 0] by (auto simp: places_def Let_def)
  have res: "resolved (with_tables rows b) rows" using rows(3) ne by (auto simp: with_tables_def resolved_def Let_def)
  have "original_position b' (int (byte_offset src k)) = Some (lines (walk_to k src START), columns (walk_to k src START))"
    if "builder_env b' = builder_env (with_tables rows b)" "k \<le> length src" for b' k
  proof (rule original_position_placed [OF _ g(1) g(4) [OF that(2)] g(2) _ g(3)])
    show "resolved b' rows" using res that(1) by (auto simp: resolved_def builder_env_def)
    show "byte_offset src k < I32_MAX" using byte_offset_le [of src k] assms(2) by (simp add: source_ok_def)
  qed
  then show thesis using that rows ne res by (auto simp: tables_inv_def)
qed

text \<open>Emitting at the current position\<close>

lemma emit_mapping_tracks:
  assumes "tracks ms (line_starts_with_mapping b) b" "ordinal_ok line" "ordinal_ok column" "b_generated_column b < 2 ^ 31"
  defines "cur \<equiv> \<lparr>generated_line = generated_line (prev_state b), generated_column = b_generated_column b, state_source = 0,
     original_line = line, original_column = column\<rparr>"
  shows "tracks (ms @ [cur]) True (emit_mapping line column b)" "builder_env (emit_mapping line column b) = builder_env b"
    "line_starts_with_mapping (emit_mapping line column b)" "last_generated_update (emit_mapping line column b) = last_generated_update b"
    "builder_position (emit_mapping line column b) = builder_position b"
proof -
  let ?again = "cover_lines_without_mappings b \<and> \<not> line_starts_with_mapping b \<and> b_generated_column b > 0 \<and> has_prev_state b"
  let ?b = "if ?again then repeat_at_line_start b else b"
  have tr: "tracks ms (?again \<or> line_starts_with_mapping b) ?b"
    using assms(1) tracks_repeat [of ms b] by (cases ?again) auto
  have same: "generated_line (prev_state ?b) = generated_line (prev_state b)" "b_generated_column ?b = b_generated_column b"
    "builder_env ?b = builder_env b" "last_generated_update ?b = last_generated_update b"
    by (simp_all add: repeat_at_line_start_def append_mapping_without_remapping_def builder_env_def)
  have src: "state_source (prev_state ?b) = 0" using tr by (auto simp: tracks_def recorded_def)
  have pos: "0 \<le> b_generated_column b" using tracks_state [OF assms(1)] by simp
  have cur: "cur = (prev_state ?b)\<lparr>generated_column := b_generated_column ?b, original_line := line, original_column := column\<rparr>"
    using src same by (simp add: cur_def)
  have mx: "max line 0 = line" "max column 0 = column" "max (b_generated_column ?b) 0 = b_generated_column ?b"
    using assms(2,3) pos same(2) by (simp_all add: ordinal_ok_def)
  have emit: "emit_mapping line column b = (append_mapping_without_remapping cur ?b)\<lparr>line_starts_with_mapping := True\<rparr>"
    unfolding emit_mapping_def cur Let_def mx by (rule refl)
  have "state_ok cur"
    using tracks_state [OF assms(1)] assms(2-4) pos by (auto simp: cur_def state_ok_def ordinal_ok_def is_i32_def)
  moreover have "?again \<or> line_starts_with_mapping b" if "cover_lines_without_mappings ?b \<and> has_prev_state ?b \<and> b_generated_column ?b > 0"
    using that by (cases ?again) auto
  ultimately have "tracks (ms @ [cur]) True (append_mapping_without_remapping cur ?b)"
    using tracks_mapping [OF tr _ cur] by blast
  then show "tracks (ms @ [cur]) True (emit_mapping line column b)"
    unfolding emit by (simp add: tracks_def recorded_def)
  show "builder_env (emit_mapping line column b) = builder_env b" "line_starts_with_mapping (emit_mapping line column b)"
    "last_generated_update (emit_mapping line column b) = last_generated_update b"
    "builder_position (emit_mapping line column b) = builder_position b"
    unfolding emit using same
    by (simp_all add: append_mapping_without_remapping_def builder_env_def builder_position_def cur_def)
qed

lemma run_inv_mapping:
  assumes "run_inv src before prev ms b" "source_ok src" "k \<le> length src"
    "list_all is_code_point before" "0x0D \<notin> set before" "length (encode_text before) < I32_MAX" "prev \<noteq> Some k"
  shows "\<exists>b'. add_source_mapping (int (byte_offset src k)) (encode_text before) b = Some b'
    \<and> run_inv src before (Some k) (ms @ [mark src before k]) b' \<and> cover_lines_without_mappings b' = cover_lines_without_mappings b"
proof -
  let ?at = "int (byte_offset src k)" and ?p = "walk_to k src START" and ?g = "walk_text before START"
  let ?b = "b\<lparr>prev_loc := ?at\<rparr>"
  have new: "prev_loc b \<noteq> ?at" "?at \<noteq> LOC_EMPTY"
    using assms(1,3,7) byte_offset_eq_iff [of _ src k] by (auto simp: run_inv_def LOC_EMPTY_def split: option.splits)
  have inv: "tables_inv src ?b" "run_inv src before (Some k) ms ?b"
    using assms(1,3) by (auto simp: run_inv_def tables_inv_def resolved_def tracks_def recorded_def builder_position_def)
  obtain rows where rows: "resolve_tables (line_offset_tables ?b) = Some (Owned rows)" "rows \<noteq> []" "tables_inv src (with_tables rows ?b)"
    "\<And>b' k. builder_env b' = builder_env (with_tables rows ?b) \<Longrightarrow> k \<le> length src \<Longrightarrow>
       original_position b' (int (byte_offset src k)) = Some (lines (walk_to k src START), columns (walk_to k src START))"
    using resolve [OF inv(1) assms(2)] by blast
  let ?b1 = "with_tables rows ?b"
  have "run_inv src before (Some k) ms ?b1" using inv(2) rows(3) by (simp add: run_inv_def)
  then obtain b2 where b2: "update_generated_line_and_column (encode_text before) ?b1 = Some b2" "tracks ms (line_starts_with_mapping b2) b2"
    "builder_position b2 = ?g" "builder_env b2 = builder_env ?b1" "last_generated_update b2 = length (encode_text before)"
    using run_inv_update [OF _ assms(4-6)] by blast
  have pos: "generated_line (prev_state b2) = lines ?g" "b_generated_column b2 = columns ?g"
    using b2(3) by (auto simp: builder_position_def dest: arg_cong [of _ _ columns] arg_cong [of _ _ lines])
  have bounds: "ordinal_ok (lines ?p)" "ordinal_ok (columns ?p)" "b_generated_column b2 < 2 ^ 31"
    using walk_bounds [of k src] walk_bounds [of "length before" before] assms(2,6) pos(2)
    by (auto simp: ordinal_ok_def is_i32_def source_ok_def I32_MAX_def START_def walk_conv)
  note emit = emit_mapping_tracks [OF b2(2) bounds, unfolded pos]
  let ?b' = "emit_mapping (lines ?p) (columns ?p) b2"
  have "add_source_mapping ?at (encode_text before) b = Some ?b'"
    using new rows(1,2) rows(4) [of ?b1 k] assms(3) b2(1)
    by (simp add: add_source_mapping_def with_tables_def tables_columns_def Let_def cong: if_cong)
  moreover have "mark src before k = \<lparr>generated_line = lines ?g, generated_column = columns ?g, state_source = 0,
      original_line = lines ?p, original_column = columns ?p\<rparr>"
    by (simp add: mark_def Let_def)
  moreover have env: "builder_env ?b' = builder_env ?b1" using emit(2) b2(4) by simp
  then have "prev_loc ?b' = ?at" "tables_inv src ?b'" "cover_lines_without_mappings ?b' = cover_lines_without_mappings b"
    using rows(3) by (auto simp: builder_env_def tables_inv_def resolved_def with_tables_def Let_def split: if_splits)
  ultimately show ?thesis
    using emit(1,3-5) b2(3,5) assms(3) by (auto simp: run_inv_def)
qed

lemma run_correct:
  assumes "run_inv src before prev ms b" "source_ok src" "list_all (event_ok src) es"
    "list_all is_code_point before" "0x0D \<notin> set before" "length (encode_text (before @ printed es)) < I32_MAX"
  shows "\<exists>b' prev'. run_events src es (encode_text before, b) = Some (encode_text (before @ printed es), b')
    \<and> run_inv src (before @ printed es) prev' (ms @ marks src before prev es) b'
    \<and> cover_lines_without_mappings b' = cover_lines_without_mappings b"
  using assms
proof (induction es arbitrary: before prev ms b)
  case Nil
  then show ?case by auto
next
  case (Cons e es)
  show ?case
  proof (cases e)
    case (Print cps)
    then show ?thesis
      using Cons.IH [OF run_inv_print [OF Cons.prems(1), of cps] assms(2)] Cons.prems
      by (simp add: encode_text_append [symmetric])
  next
    case (Map k)
    have len: "length (encode_text before) < I32_MAX" using Cons.prems(6) by (simp add: encode_text_append)
    show ?thesis
    proof (cases "prev = Some k")
      case True
      then have "prev_loc b = int (byte_offset src k)" using Cons.prems(1) by (simp add: run_inv_def)
      then show ?thesis using Cons.IH [OF Cons.prems(1) assms(2)] Cons.prems Map True by (simp add: add_source_mapping_def)
    next
      case False
      obtain b' where b': "add_source_mapping (int (byte_offset src k)) (encode_text before) b = Some b'"
        "run_inv src before (Some k) (ms @ [mark src before k]) b'" "cover_lines_without_mappings b' = cover_lines_without_mappings b"
        using run_inv_mapping [OF Cons.prems(1) assms(2) _ Cons.prems(4,5) len False] Cons.prems(3) Map by auto
      then show ?thesis using Cons.IH [OF b'(2) assms(2)] Cons.prems Map False by simp
    qed
  qed
qed

text \<open>The chunk of a run: its text is that of items whose states cover the mappings.\<close>

lemma print_chunk_items:
  assumes "source_ok src" "list_all (event_ok src) es" "length (encode_text (printed es)) < I32_MAX"
  shows "\<exists>c its. print_chunk src n covers_lines es = Some c \<and> chunk_items c its \<and> covers (marks src [] None es) (states state_default its)
    \<and> (\<not> covers_lines \<longrightarrow> states state_default its = marks src [] None es)
    \<and> (covers_lines \<longrightarrow> line_covered (states state_default its) (lines (walk_text (printed es) START)) False)
    \<and> sorted (map row_position (states state_default its)) \<and> (\<forall>s\<in>set (states state_default its). state_source s = 0)
    \<and> chunk_end c = walk_text (printed es) START \<and> (chunk_should_ignore c \<longleftrightarrow> states state_default its = [])"
proof -
  let ?b = "builder_init (Deferred (encode_text src) n) covers_lines" and ?ms = "marks src [] None es"
  have printed_ok: "list_all is_code_point (printed es) \<and> 0x0D \<notin> set (printed es)"
    using assms(2) by (induction es rule: printed.induct) auto
  obtain b prev where b: "run_events src es ([], ?b) = Some (encode_text (printed es), b)" "run_inv src (printed es) prev ?ms b"
    "cover_lines_without_mappings b = covers_lines"
    using run_correct [OF run_inv_init [of src n covers_lines] assms(1,2)] assms(3) by (auto simp: builder_init_def)
  then obtain b' where b': "update_generated_line_and_column (encode_text (printed es)) b = Some b'" "tracks ?ms (line_starts_with_mapping b') b'"
    "builder_position b' = walk_text (printed es) START" "builder_env b' = builder_env b"
    using run_inv_update [OF b(2)] printed_ok assms(3) by blast
  moreover have covers: "cover_lines_without_mappings b' = covers_lines" using b'(4) b(3) by (simp add: builder_env_def)
  ultimately obtain its where its: "emitted (b_source_map b') (prev_state b') its" "recorded ?ms (line_starts_with_mapping b') b' (states state_default its)"
    by (auto simp: tracks_def)
  have line: "generated_line (prev_state b') = lines (walk_text (printed es) START)"
    using b'(3) by (auto simp: builder_position_def dest: arg_cong [of _ _ lines])
  show ?thesis
    using b(1) b'(1,3) covers its line
    by (auto simp: print_chunk_def generate_chunk_def chunk_items_def chunk_end_def builder_position_def emitted_def recorded_def
        should_ignore_def line_covered_def)
qed

text \<open>
  C17. Text without a carriage return, printed with announced locations, parses back: the rows of the chunk are the
  announcements, less those that repeat the location announced just before them, each at the line and column of the text
  printed before it and with the line and column of its location in the source, in order; where lines without mappings are to be covered, the row before is
  repeated at the start of a line, and every line between the first row and the last line starts with a
  row; the end of the chunk is the end of the text. Lines and columns are counted by code point, in UTF-16 units;
  source and printed text are below 2 GiB.
\<close>

theorem printed_map_correct:
  assumes "source_ok src" "list_all (event_ok src) es" "length (encode_text (printed es)) < I32_MAX"
  shows "\<exists>c l rows. print_chunk src n covers_lines es = Some c \<and> parse_mappings (chunk_buffer c) 1 options = Done l
    \<and> named l = map mapping_of rows \<and> covers (marks src [] None es) rows \<and> (\<not> covers_lines \<longrightarrow> rows = marks src [] None es)
    \<and> (covers_lines \<longrightarrow> line_covered rows (lines (walk_text (printed es) START)) False)
    \<and> chunk_end c = walk_text (printed es) START"
proof -
  obtain c its where c: "print_chunk src n covers_lines es = Some c" "chunk_items c its"
    "covers (marks src [] None es) (states state_default its)" "\<not> covers_lines \<longrightarrow> states state_default its = marks src [] None es"
    "covers_lines \<longrightarrow> line_covered (states state_default its) (lines (walk_text (printed es) START)) False"
    "sorted (map row_position (states state_default its))" "\<forall>s\<in>set (states state_default its). state_source s = 0"
    "chunk_end c = walk_text (printed es) START"
    using print_chunk_items [OF assms] by blast
  have "sorted (map (\<lambda>m. position (generated m)) (map mapping_of (states state_default its)))"
    using c(6) by (simp add: position_def mapping_of_def row_position_def [abs_def] comp_def)
  then have "sort_key (\<lambda>m. position (generated m)) (map mapping_of (states state_default its)) = map mapping_of (states state_default its)"
    by (rule sort_key_id_if_sorted)
  then obtain l where "parse_mappings (chunk_buffer c) 1 options = Done l" "named l = map mapping_of (states state_default its)"
    using parse_mappings_render [of its 1 options] c(2,7) by (auto simp: chunk_items_def Let_def split: if_splits)
  then show ?thesis using c by blast
qed

theorem printed_map_correct_witness:
  "\<exists>c l. print_chunk [97, 10, 233, 98] 1 False [Map 0, Print [120, 10, 121], Map 3] = Some c
     \<and> parse_mappings (chunk_buffer c) 1 \<lparr>allow_names = False, sort_option = True\<rparr> = Done l
     \<and> named l = [\<lparr>generated = START, original = START, source_index = 0, name_index = - 1\<rparr>,
         \<lparr>generated = \<lparr>lines = 1, columns = 1\<rparr>, original = \<lparr>lines = 1, columns = 1\<rparr>, source_index = 0, name_index = - 1\<rparr>]
     \<and> chunk_end c = \<lparr>lines = 1, columns = 1\<rparr>"
proof -
  let ?src = "[97, 10, 233, 98]" and ?es = "[Map 0, Print [120, 10, 121], Map 3]"
  have "source_ok ?src" "list_all (event_ok ?src) ?es" "length (encode_text (printed ?es)) < I32_MAX"
    by (simp_all add: source_ok_def is_code_point_def encode_wtf8_rune_def I32_MAX_def)
  note correct = printed_map_correct [OF this, of 1 False "\<lparr>allow_names = False, sort_option = True\<rparr>"]
  have "map mapping_of (marks ?src [] None ?es) = [
     \<lparr>generated = START, original = START, source_index = 0, name_index = - 1\<rparr>,
     \<lparr>generated = \<lparr>lines = 1, columns = 1\<rparr>, original = \<lparr>lines = 1, columns = 1\<rparr>, source_index = 0, name_index = - 1\<rparr>]"
    "walk_text (printed ?es) START = \<lparr>lines = 1, columns = 1\<rparr>"
    by code_simp+
  then show ?thesis using correct by auto
qed

text \<open>
  A carriage return in the printed text: the builder looks for the line feed one byte too far, so a carriage
  return and a line feed count as two line ends, and a carriage return is lost when the byte after the next
  one is a line feed. The scan of a bundle's parts counts one and two line ends.
\<close>

theorem carriage_return_counted_twice:
  "map_option (\<lambda>b. (vsm_data (b_source_map b), builder_position b))
     (update_generated_line_and_column [CHR 0x0D, CHR 0x0A] (builder_init No_Tables True)) = Some ('';;'', \<lparr>lines = 2, columns = 0\<rparr>)
   \<and> map_option (\<lambda>b. (vsm_data (b_source_map b), builder_position b))
     (update_generated_line_and_column [CHR 0x0D, CHR ''x'', CHR 0x0A] (builder_init No_Tables True)) = Some ('';'', \<lparr>lines = 1, columns = 0\<rparr>)
   \<and> lco_advance [CHR 0x0D, CHR 0x0A] START = Some \<lparr>lines = 1, columns = 0\<rparr>
   \<and> lco_advance [CHR 0x0D, CHR ''x'', CHR 0x0A] START = Some \<lparr>lines = 2, columns = 0\<rparr>"
  by code_simp

end
