(* ===== verification/RespReader.thy ===== *)
theory RespReader
  imports Core_Strings
begin

text \<open>
  The reply reader of the Valkey client, \<^verbatim>\<open>ValkeyReader\<close> of \<^verbatim>\<open>src/valkey/valkey_protocol.rs\<close>: a parser for the protocols
  RESP2 and RESP3 over a buffer that may end in the middle of a reply, which is the error \<open>InvalidResponse\<close>.
  A method on \<^verbatim>\<open>&mut self\<close> that returns a \<^verbatim>\<open>Result\<close> is a function from the reader to an error or a value and the
  reader, which is kept when an error is returned. What the parser needs of the platform is a record of
  parameters: the parsing of floating point numbers, and the sizes of its two element types.
\<close>

section \<open>Data\<close>

datatype RedisError =
    AuthenticationFailed | ConnectionClosed | InvalidArgument | InvalidArray | InvalidAttribute | InvalidBigNumber
  | InvalidBlobError | InvalidBoolean | InvalidBulkString | InvalidCommand | InvalidDouble | InvalidErrorString
  | InvalidInteger | InvalidMap | InvalidNull | InvalidPush | InvalidResponse | InvalidResponseType | InvalidSet
  | InvalidSimpleString | InvalidVerbatimString | JSError | OutOfMemory | UnsupportedProtocol | ConnectionTimeout
  | IdleTimeout | NestingDepthExceeded | LineTooLong | ServerError

datatype RESPType =
    TSimpleString | TError | TInteger | TBulkString | TArray | TNull | TDouble | TBoolean | TBlobError
  | TVerbatimString | TMap | TSet | TAttribute | TPush | TBigNumber

definition from_byte :: "u8 \<Rightarrow> RESPType option" where
  "from_byte byte =
     (if byte = CHR ''+'' then Some TSimpleString
      else if byte = CHR ''-'' then Some TError
      else if byte = CHR '':'' then Some TInteger
      else if byte = CHR ''$'' then Some TBulkString
      else if byte = CHR ''*'' then Some TArray
      else if byte = CHR ''_'' then Some TNull
      else if byte = CHR '','' then Some TDouble
      else if byte = CHR ''#'' then Some TBoolean
      else if byte = CHR ''!'' then Some TBlobError
      else if byte = CHR ''='' then Some TVerbatimString
      else if byte = CHR ''%'' then Some TMap
      else if byte = CHR ''~'' then Some TSet
      else if byte = CHR ''|'' then Some TAttribute
      else if byte = CHR ''>'' then Some TPush
      else if byte = CHR ''('' then Some TBigNumber
      else None)"

record VerbatimString =
  vs_format :: bytes
  vs_content :: bytes

datatype 'f RESPValue =
    RSimpleString bytes | RError bytes | RInteger int | RBulkString "bytes option" | RArray "'f RESPValue list"
  | RNull | RDouble 'f | RBoolean bool | RVerbatimString VerbatimString
  | RMap "('f RESPValue \<times> 'f RESPValue) list" | RSet "'f RESPValue list"
  | RAttribute "('f RESPValue \<times> 'f RESPValue) list" "'f RESPValue" | RPush bytes "'f RESPValue list" | RBigNumber bytes

record 'f platform =
  parse_f64 :: "bytes \<Rightarrow> 'f option"
  f64_infinity :: 'f
  f64_neg_infinity :: 'f
  f64_nan :: 'f
  size_of_value :: nat
  size_of_entry :: nat

record ValkeyReader =
  r_buffer :: bytes
  r_pos :: nat
  prealloc_budget :: nat
  crlf_skip :: nat

definition reader_init :: "bytes \<Rightarrow> ValkeyReader" where
  "reader_init buf = \<lparr>r_buffer = buf, r_pos = 0, prealloc_budget = length buf, crlf_skip = 0\<rparr>"

section \<open>Methods that may fail\<close>

type_synonym 'a reading = "ValkeyReader \<Rightarrow> (RedisError + 'a) \<times> ValkeyReader"

definition ok_with :: "'a \<Rightarrow> 'a reading" where
  "ok_with x r = (Inr x, r)"

definition throw :: "RedisError \<Rightarrow> 'a reading" where
  "throw e r = (Inl e, r)"

definition next_do :: "'a reading \<Rightarrow> ('a \<Rightarrow> 'b reading) \<Rightarrow> 'b reading" where
  "next_do m f r = (case m r of (Inl e, r') \<Rightarrow> (Inl e, r') | (Inr x, r') \<Rightarrow> f x r')"

section \<open>Reading\<close>

definition MAX_NESTING_DEPTH :: nat where
  "MAX_NESTING_DEPTH = 128"

definition MAX_BULK_LEN :: int where
  "MAX_BULK_LEN = 512 * 1024 * 1024"

definition MAX_LINE_LEN :: nat where
  "MAX_LINE_LEN = nat MAX_BULK_LEN"

definition read_byte :: "u8 reading" where
  "read_byte r =
     (if r_pos r \<ge> length (r_buffer r) then (Inl InvalidResponse, r)
      else (Inr (r_buffer r ! r_pos r), r\<lparr>r_pos := r_pos r + 1\<rparr>))"

function crlf_from :: "bytes \<Rightarrow> nat \<Rightarrow> nat \<Rightarrow> nat option" where
  "crlf_from buf limit i =
     (if i < limit then
        if buf ! i = CHR 0x0D \<and> length buf > i + 1 \<and> buf ! (i + 1) = CHR 0x0A then Some i
        else crlf_from buf limit (i + 1)
      else None)"
  by pat_completeness auto
termination by (relation "measure (\<lambda>(_, limit, i). limit - i)") auto

declare crlf_from.simps [simp del]

definition read_until_crlf :: "bytes reading" where
  "read_until_crlf r =
     (let buf = drop (r_pos r) (r_buffer r);
          limit = min (length buf) (MAX_LINE_LEN + 1);
          start = min (crlf_skip r) limit;
          r = r\<lparr>crlf_skip := 0\<rparr>
      in case crlf_from buf limit start of
           Some i \<Rightarrow> (Inr (take i buf), r\<lparr>r_pos := r_pos r + i + 2\<rparr>)
         | None \<Rightarrow> (Inl (if length buf > MAX_LINE_LEN + 1 then LineTooLong else InvalidResponse), r))"

text \<open>\<^verbatim>\<open>parse_int::<i64>\<close> of \<^verbatim>\<open>src/bun_core/fmt.rs\<close>, for a signed type of \<open>w\<close> bits\<close>

definition parse_int :: "nat \<Rightarrow> bytes \<Rightarrow> nat \<Rightarrow> parse_int_error + int" where
  "parse_int w buf radix =
     (if buf = [] then Inl InvalidCharacter
      else
        let (neg, rest) = (if hd buf = CHR ''+'' then (False, tl buf) else if hd buf = CHR ''-'' then (True, tl buf) else (False, buf));
            (digits, radix) = auto_radix rest radix
        in case parse_with_sign digits radix of
             Inl e \<Rightarrow> Inl e
           | Inr acc \<Rightarrow>
               if neg then
                 if acc > 2 ^ 127 then Inl Overflow
                 else if acc \<le> 2 ^ (w - 1) then Inr (- int acc) else Inl Overflow
               else if acc < 2 ^ (w - 1) then Inr (int acc) else Inl Overflow)"

definition read_integer :: "int reading" where
  "read_integer = next_do read_until_crlf (\<lambda>str.
     case parse_int 64 str 10 of Inl _ \<Rightarrow> throw InvalidInteger | Inr n \<Rightarrow> ok_with n)"

definition read_double :: "'f platform \<Rightarrow> 'f reading" where
  "read_double p = next_do read_until_crlf (\<lambda>str.
     if str = ''inf'' then ok_with (f64_infinity p)
     else if str = ''-inf'' then ok_with (f64_neg_infinity p)
     else if str = ''nan'' then ok_with (f64_nan p)
     else case parse_f64 p str of Some d \<Rightarrow> ok_with d | None \<Rightarrow> throw InvalidDouble)"

definition read_boolean :: "bool reading" where
  "read_boolean = next_do read_until_crlf (\<lambda>str.
     if length str \<noteq> 1 then throw InvalidBoolean
     else if hd str = CHR ''t'' then ok_with True
     else if hd str = CHR ''f'' then ok_with False
     else throw InvalidBoolean)"

text \<open>A payload of a given length and the line end behind it\<close>

definition read_payload :: "RedisError \<Rightarrow> nat \<Rightarrow> bytes reading" where
  "read_payload invalid len r =
     (if r_pos r + len > length (r_buffer r) then (Inl InvalidResponse, r)
      else
        let str = take len (drop (r_pos r) (r_buffer r))
        in next_do read_until_crlf (\<lambda>crlf. if crlf \<noteq> [] then throw invalid else ok_with str) (r\<lparr>r_pos := r_pos r + len\<rparr>))"

definition read_verbatim_string :: "VerbatimString reading" where
  "read_verbatim_string = next_do read_integer (\<lambda>len.
     if \<not> (0 \<le> len \<and> len \<le> MAX_BULK_LEN) then throw InvalidVerbatimString
     else next_do (read_payload InvalidVerbatimString (nat len)) (\<lambda>content_with_format.
       if length content_with_format < 4 \<or> content_with_format ! 3 \<noteq> CHR '':'' then throw InvalidVerbatimString
       else ok_with \<lparr>vs_format = take 3 content_with_format, vs_content = drop 4 content_with_format\<rparr>))"

definition take_prealloc_budget :: "nat \<Rightarrow> nat \<Rightarrow> nat reading" where
  "take_prealloc_budget len element_size r =
     (let cap = min len (prealloc_budget r div max element_size 1)
      in (Inr cap, r\<lparr>prealloc_budget := prealloc_budget r - cap * element_size\<rparr>))"

definition reserve :: "nat \<Rightarrow> nat \<Rightarrow> 'a reading \<Rightarrow> 'a reading" where
  "reserve len element_size m = next_do (take_prealloc_budget len element_size) (\<lambda>_. m)"

fun push_kind :: "'f RESPValue \<Rightarrow> bytes option" where
  "push_kind (RSimpleString str) = Some str"
| "push_kind (RBulkString (Some str)) = Some str"
| "push_kind _ = None"

function read_value_with_depth :: "'f platform \<Rightarrow> nat \<Rightarrow> 'f RESPValue reading" and
  read_typed :: "'f platform \<Rightarrow> nat \<Rightarrow> RESPType \<Rightarrow> 'f RESPValue reading" and
  read_values :: "'f platform \<Rightarrow> nat \<Rightarrow> nat \<Rightarrow> 'f RESPValue list reading" and
  read_entries :: "'f platform \<Rightarrow> nat \<Rightarrow> nat \<Rightarrow> ('f RESPValue \<times> 'f RESPValue) list reading"
where
  "read_value_with_depth p depth = next_do read_byte (\<lambda>type_byte.
     case from_byte type_byte of None \<Rightarrow> throw InvalidResponseType | Some ty \<Rightarrow> read_typed p depth ty)"
| "read_typed p depth TSimpleString = next_do read_until_crlf (\<lambda>str. ok_with (RSimpleString str))"
| "read_typed p depth TError = next_do read_until_crlf (\<lambda>str. ok_with (RError str))"
| "read_typed p depth TInteger = next_do read_integer (\<lambda>int. ok_with (RInteger int))"
| "read_typed p depth TBulkString = next_do read_integer (\<lambda>len.
     if len < 0 then ok_with (RBulkString None)
     else if len > MAX_BULK_LEN then throw InvalidBulkString
     else next_do (read_payload InvalidBulkString (nat len)) (\<lambda>str. ok_with (RBulkString (Some str))))"
| "read_typed p depth TArray =
     (if depth \<ge> MAX_NESTING_DEPTH then throw NestingDepthExceeded
      else next_do read_integer (\<lambda>len.
        if len < 0 then ok_with RNull
        else reserve (nat len) (size_of_value p)
          (next_do (read_values p (nat len) (depth + 1)) (\<lambda>array. ok_with (RArray array)))))"
| "read_typed p depth TNull = next_do read_until_crlf (\<lambda>str. if str \<noteq> [] then throw InvalidNull else ok_with RNull)"
| "read_typed p depth TDouble = next_do (read_double p) (\<lambda>d. ok_with (RDouble d))"
| "read_typed p depth TBoolean = next_do read_boolean (\<lambda>b. ok_with (RBoolean b))"
| "read_typed p depth TBlobError = next_do read_integer (\<lambda>len.
     if \<not> (0 \<le> len \<and> len \<le> MAX_BULK_LEN) then throw InvalidBlobError
     else next_do (read_payload InvalidBlobError (nat len)) (\<lambda>str. ok_with (RError str)))"
| "read_typed p depth TVerbatimString = next_do read_verbatim_string (\<lambda>v. ok_with (RVerbatimString v))"
| "read_typed p depth TMap =
     (if depth \<ge> MAX_NESTING_DEPTH then throw NestingDepthExceeded
      else next_do read_integer (\<lambda>len.
        if len < 0 then throw InvalidMap
        else reserve (nat len) (size_of_entry p)
          (next_do (read_entries p (nat len) (depth + 1)) (\<lambda>entries. ok_with (RMap entries)))))"
| "read_typed p depth TSet =
     (if depth \<ge> MAX_NESTING_DEPTH then throw NestingDepthExceeded
      else next_do read_integer (\<lambda>len.
        if len < 0 then throw InvalidSet
        else reserve (nat len) (size_of_value p)
          (next_do (read_values p (nat len) (depth + 1)) (\<lambda>set. ok_with (RSet set)))))"
| "read_typed p depth TAttribute =
     (if depth \<ge> MAX_NESTING_DEPTH then throw NestingDepthExceeded
      else next_do read_integer (\<lambda>len.
        if len < 0 then throw InvalidAttribute
        else reserve (nat len) (size_of_entry p)
          (next_do (read_entries p (nat len) (depth + 1)) (\<lambda>attrs.
           next_do (read_value_with_depth p (depth + 1)) (\<lambda>value. ok_with (RAttribute attrs value))))))"
| "read_typed p depth TPush =
     (if depth \<ge> MAX_NESTING_DEPTH then throw NestingDepthExceeded
      else next_do read_integer (\<lambda>len.
        if len \<le> 0 then throw InvalidPush
        else next_do (read_value_with_depth p (depth + 1)) (\<lambda>push_type.
          case push_kind push_type of
            None \<Rightarrow> throw InvalidPush
          | Some kind \<Rightarrow>
              reserve (nat (len - 1)) (size_of_value p)
                (next_do (read_values p (nat (len - 1)) (depth + 1)) (\<lambda>data. ok_with (RPush kind data))))))"
| "read_typed p depth TBigNumber = next_do read_until_crlf (\<lambda>str. ok_with (RBigNumber str))"
| "read_values p 0 depth = ok_with []"
| "read_values p (Suc n) depth =
     next_do (read_value_with_depth p depth) (\<lambda>v. next_do (read_values p n depth) (\<lambda>vs. ok_with (v # vs)))"
| "read_entries p 0 depth = ok_with []"
| "read_entries p (Suc n) depth =
     next_do (read_value_with_depth p depth) (\<lambda>k. next_do (read_value_with_depth p depth) (\<lambda>v.
       next_do (read_entries p n depth) (\<lambda>es. ok_with ((k, v) # es))))"
  by pat_completeness auto
termination
  by (relation "measures [\<lambda>x. MAX_NESTING_DEPTH - (case x of Inl (Inl (_, depth)) \<Rightarrow> depth | Inl (Inr (_, depth, _)) \<Rightarrow> depth
        | Inr (Inl (_, _, depth)) \<Rightarrow> depth | Inr (Inr (_, _, depth)) \<Rightarrow> depth),
      \<lambda>x. case x of Inl (Inl _) \<Rightarrow> 1 | Inl (Inr _) \<Rightarrow> 0 | Inr (Inl (_, n, _)) \<Rightarrow> n + 2 | Inr (Inr (_, n, _)) \<Rightarrow> n + 2]") auto

declare read_value_with_depth.simps [simp del]
declare read_typed.simps [simp del]

definition read_value :: "'f platform \<Rightarrow> 'f RESPValue reading" where
  "read_value p r = read_value_with_depth p 0 (r\<lparr>prealloc_budget := length (r_buffer r) - r_pos r\<rparr>)"


section \<open>Reading a buffer that grows\<close>

text \<open>
  What a method promises to a caller that holds only a part of what the server sends: it stays inside the buffer,
  and every outcome except \<open>InvalidResponse\<close> is final, since more bytes behind the buffer do not change it.
\<close>

definition extends :: "bytes \<Rightarrow> ValkeyReader \<Rightarrow> ValkeyReader \<Rightarrow> bool" where
  "extends t r r2 \<longleftrightarrow> r_buffer r2 = r_buffer r @ t \<and> r_pos r2 = r_pos r \<and> crlf_skip r2 = crlf_skip r"

definition inside :: "ValkeyReader \<Rightarrow> bool" where
  "inside r \<longleftrightarrow> r_pos r \<le> length (r_buffer r)"

locale streaming_method =
  fixes m :: "ValkeyReader \<Rightarrow> (RedisError + 'a) \<times> ValkeyReader"
  assumes stays_inside: "inside r \<Longrightarrow> m r = (x, r') \<Longrightarrow>
      r_buffer r' = r_buffer r \<and> r_pos r \<le> r_pos r' \<and> inside r' \<and> (crlf_skip r = 0 \<longrightarrow> crlf_skip r' = 0)"
    and final: "inside r \<Longrightarrow> extends t r r2 \<Longrightarrow> m r = (x, r') \<Longrightarrow> x \<noteq> Inl InvalidResponse \<Longrightarrow>
      \<exists>r2'. m r2 = (x, r2') \<and> extends t r' r2'"
begin

lemma extended:
  assumes "inside r" "m r = (x, r')" "x \<noteq> Inl InvalidResponse"
    and "r_buffer r2 = r_buffer r @ t" "r_pos r2 = r_pos r" "crlf_skip r2 = crlf_skip r"
  shows "fst (m r2) = x" "r_pos (snd (m r2)) = r_pos r'"
  using final[of r t r2 x r'] assms by (auto simp: extends_def)

lemma truncated:
  assumes "inside r" "m r = (Inr x, r')" and k: "r_pos r \<le> k" "k < r_pos r'"
    and r2: "r_buffer r2 = take k (r_buffer r)" "r_pos r2 = r_pos r" "crlf_skip r2 = crlf_skip r"
  shows "fst (m r2) = Inl InvalidResponse"
proof (rule ccontr)
  assume n: "fst (m r2) \<noteq> Inl InvalidResponse"
  have i: "inside r2" using assms by (simp add: inside_def)
  obtain y r2' where m2: "m r2 = (y, r2')" by (cases "m r2")
  have "extends (drop k (r_buffer r)) r2 r" using r2 by (simp add: extends_def)
  from final[OF i this m2] n m2 assms(2) have "r_pos r' = r_pos r2'" by (auto simp: extends_def)
  moreover have "r_pos r2' \<le> k" using stays_inside[OF i m2] r2(1) by (simp add: inside_def) (metis length_take min.bounded_iff)
  ultimately show False using k by simp
qed

end

lemma streaming_ok: "streaming_method (ok_with x)"
  by unfold_locales (auto simp: ok_with_def)

lemma streaming_throw: "streaming_method (throw e)"
  by unfold_locales (auto simp: throw_def)

lemma streaming_next_do:
  assumes m: "streaming_method m" and f: "\<And>x. streaming_method (f x)"
  shows "streaming_method (next_do m f)"
proof
  fix r x r' assume a: "inside r" "next_do m f r = (x, r')"
  obtain y r1 where y: "m r = (y, r1)" by (cases "m r")
  note 1 = streaming_method.stays_inside[OF m a(1) y]
  show "r_buffer r' = r_buffer r \<and> r_pos r \<le> r_pos r' \<and> inside r' \<and> (crlf_skip r = 0 \<longrightarrow> crlf_skip r' = 0)"
  proof (cases y)
    case Inl
    then show ?thesis using a y 1 by (auto simp: next_do_def)
  next
    case (Inr z)
    then have "f z r1 = (x, r')" using a y by (simp add: next_do_def)
    with streaming_method.stays_inside[OF f, of r1 z x r'] 1 show ?thesis by auto
  qed
next
  fix r t r2 x r' assume a: "inside r" "extends t r r2" "next_do m f r = (x, r')" "x \<noteq> Inl InvalidResponse"
  obtain y r1 where y: "m r = (y, r1)" by (cases "m r")
  note 1 = streaming_method.stays_inside[OF m a(1) y] and 2 = streaming_method.final[OF m a(1,2) y]
  show "\<exists>r2'. next_do m f r2 = (x, r2') \<and> extends t r' r2'"
  proof (cases y)
    case (Inl e)
    then have "x = Inl e" "r' = r1" using a y by (simp_all add: next_do_def)
    moreover from this obtain r3 where "m r2 = (Inl e, r3)" "extends t r1 r3" using a(4) 2 Inl by auto
    ultimately show ?thesis by (simp add: next_do_def)
  next
    case (Inr z)
    then have z: "f z r1 = (x, r')" using a y by (simp add: next_do_def)
    obtain r3 where r3: "m r2 = (Inr z, r3)" "extends t r1 r3" using 2 Inr by auto
    then show ?thesis
      using streaming_method.final[OF f, of r1 t r3 z x r'] 1 z a(4) by (auto simp: next_do_def)
  qed
qed

lemma streaming_read_byte: "streaming_method read_byte"
  by unfold_locales (auto simp: read_byte_def inside_def extends_def nth_append split: if_splits)

text \<open>Looking for the end of a line\<close>

definition line_end :: "bytes \<Rightarrow> nat \<Rightarrow> bool" where
  "line_end buf i \<longleftrightarrow> i + 1 < length buf \<and> buf ! i = CHR 0x0D \<and> buf ! (i + 1) = CHR 0x0A"

lemma crlf_from_Some_iff:
  "crlf_from buf limit i = Some j \<longleftrightarrow> i \<le> j \<and> j < limit \<and> line_end buf j \<and> (\<forall>k. i \<le> k \<and> k < j \<longrightarrow> \<not> line_end buf k)"
proof (induction buf limit i rule: crlf_from.induct)
  case (1 buf limit i)
  show ?case
  proof (cases "i < limit \<and> \<not> line_end buf i")
    case True
    then have "crlf_from buf limit i = crlf_from buf limit (i + 1)"
      by (subst crlf_from.simps) (auto simp: line_end_def)
    moreover have "(crlf_from buf limit (i + 1) = Some j) =
        (i + 1 \<le> j \<and> j < limit \<and> line_end buf j \<and> (\<forall>k. i + 1 \<le> k \<and> k < j \<longrightarrow> \<not> line_end buf k))"
      using 1 True by (auto simp: line_end_def)
    ultimately show ?thesis using True by (metis Suc_eq_plus1 le_eq_less_or_eq less_eq_Suc_le not_less_eq_eq)
  next
    case False
    then show ?thesis by (subst crlf_from.simps) (auto simp: line_end_def le_less)
  qed
qed

lemma crlf_from_None_iff: "crlf_from buf limit i = None \<longleftrightarrow> (\<forall>j. i \<le> j \<and> j < limit \<longrightarrow> \<not> line_end buf j)"
proof
  assume "crlf_from buf limit i = None"
  show "\<forall>j. i \<le> j \<and> j < limit \<longrightarrow> \<not> line_end buf j"
  proof (intro allI impI notI)
    fix j assume j: "i \<le> j \<and> j < limit" "line_end buf j"
    define n where "n = (LEAST k. i \<le> k \<and> line_end buf k)"
    have "i \<le> n \<and> line_end buf n" "n \<le> j" "\<forall>k. i \<le> k \<and> k < n \<longrightarrow> \<not> line_end buf k"
      using j LeastI[of "\<lambda>k. i \<le> k \<and> line_end buf k" j] Least_le[of "\<lambda>k. i \<le> k \<and> line_end buf k" j]
        not_less_Least[of _ "\<lambda>k. i \<le> k \<and> line_end buf k"] unfolding n_def by blast+
    then have "crlf_from buf limit i = Some n"
      unfolding crlf_from_Some_iff using j by (meson le_less_trans)
    then show False using \<open>crlf_from buf limit i = None\<close> by simp
  qed
next
  assume "\<forall>j. i \<le> j \<and> j < limit \<longrightarrow> \<not> line_end buf j"
  then show "crlf_from buf limit i = None" using crlf_from_Some_iff[of buf limit i] by (metis not_None_eq)
qed

lemma line_end_append: "i + 1 < length buf \<Longrightarrow> line_end (buf @ t) i = line_end buf i"
  by (simp add: line_end_def nth_append)


lemma crlf_from_beyond: "limit \<le> i \<Longrightarrow> crlf_from buf limit i = None"
  by (subst crlf_from.simps) simp

lemma read_until_crlf_eq:
  assumes "inside r"
  shows "read_until_crlf r =
    (case crlf_from (drop (r_pos r) (r_buffer r)) (min (length (r_buffer r) - r_pos r) (MAX_LINE_LEN + 1)) (crlf_skip r) of
       Some i \<Rightarrow> (Inr (take i (drop (r_pos r) (r_buffer r))), r\<lparr>crlf_skip := 0, r_pos := r_pos r + i + 2\<rparr>)
     | None \<Rightarrow> (Inl (if length (r_buffer r) - r_pos r > MAX_LINE_LEN + 1 then LineTooLong else InvalidResponse),
         r\<lparr>crlf_skip := 0\<rparr>))"
proof -
  let ?b = "drop (r_pos r) (r_buffer r)" and ?l = "min (length (r_buffer r) - r_pos r) (MAX_LINE_LEN + 1)"
  have "crlf_from ?b ?l (min (crlf_skip r) ?l) = crlf_from ?b ?l (crlf_skip r)"
    using crlf_from_beyond[of ?l "crlf_skip r" ?b] crlf_from_beyond[of ?l ?l ?b]
    by (cases "crlf_skip r \<le> ?l") (simp_all only: min_absorb1 min_absorb2 nat_le_linear order_refl not_le less_imp_le)
  then show ?thesis by (simp add: read_until_crlf_def Let_def split: option.split)
qed

lemma streaming_read_until_crlf: "streaming_method read_until_crlf"
proof
  fix r x r' assume "inside r" "read_until_crlf r = (x, r')"
  then show "r_buffer r' = r_buffer r \<and> r_pos r \<le> r_pos r' \<and> inside r' \<and> (crlf_skip r = 0 \<longrightarrow> crlf_skip r' = 0)"
    by (auto simp: read_until_crlf_eq inside_def crlf_from_Some_iff line_end_def split: option.splits)
next
  fix r t r2 x r'
  assume a: "inside r" "extends t r r2" "read_until_crlf r = (x, r')" "x \<noteq> Inl InvalidResponse"
  let ?b = "drop (r_pos r) (r_buffer r)"
  have i2: "inside r2" and b2: "drop (r_pos r2) (r_buffer r2) = ?b @ t" using a(1,2) by (simp_all add: inside_def extends_def)
  show "\<exists>r2'. read_until_crlf r2 = (x, r2') \<and> extends t r' r2'"
  proof (cases "crlf_from ?b (min (length (r_buffer r) - r_pos r) (MAX_LINE_LEN + 1)) (crlf_skip r)")
    case (Some i)
    then have "crlf_from (?b @ t) (min (length (r_buffer r2) - r_pos r2) (MAX_LINE_LEN + 1)) (crlf_skip r2) = Some i"
      using a(1,2) unfolding crlf_from_Some_iff by (auto simp: extends_def line_end_def nth_append)
    moreover have "i < length ?b" using Some by (simp add: crlf_from_Some_iff)
    ultimately show ?thesis using a i2 b2 Some by (auto simp: read_until_crlf_eq extends_def)
  next
    case None
    then have l: "length (r_buffer r) - r_pos r > MAX_LINE_LEN + 1" and x: "x = Inl LineTooLong" "r' = r\<lparr>crlf_skip := 0\<rparr>"
      using a by (auto simp: read_until_crlf_eq split: if_splits)
    then have "crlf_from (?b @ t) (min (length (r_buffer r2) - r_pos r2) (MAX_LINE_LEN + 1)) (crlf_skip r2) = None"
      using a(1,2) None unfolding crlf_from_None_iff by (auto simp: extends_def line_end_append)
    then show ?thesis using a i2 b2 l x by (auto simp: read_until_crlf_eq extends_def)
  qed
qed


lemmas streaming_basic = streaming_ok streaming_throw streaming_next_do streaming_read_byte streaming_read_until_crlf

lemma streaming_read_integer: "streaming_method read_integer"
  unfolding read_integer_def by (intro streaming_basic) (auto split: sum.split intro: streaming_basic)

lemma streaming_read_double: "streaming_method (read_double p)"
  unfolding read_double_def by (intro streaming_basic) (auto split: option.split intro: streaming_basic)

lemma streaming_read_boolean: "streaming_method read_boolean"
  unfolding read_boolean_def by (intro streaming_basic) (auto intro: streaming_basic)

lemma streaming_with_budget:
  assumes "streaming_method m"
  shows "streaming_method (\<lambda>r. m (r\<lparr>prealloc_budget := b r\<rparr>))"
proof
  fix r x r' assume a: "inside r" "m (r\<lparr>prealloc_budget := b r\<rparr>) = (x, r')"
  have "inside (r\<lparr>prealloc_budget := b r\<rparr>)" using a(1) by (simp add: inside_def)
  from streaming_method.stays_inside[OF assms this a(2)]
  show "r_buffer r' = r_buffer r \<and> r_pos r \<le> r_pos r' \<and> inside r' \<and> (crlf_skip r = 0 \<longrightarrow> crlf_skip r' = 0)" by simp
next
  fix r t r2 x r'
  assume a: "inside r" "extends t r r2" "m (r\<lparr>prealloc_budget := b r\<rparr>) = (x, r')" "x \<noteq> Inl InvalidResponse"
  have "inside (r\<lparr>prealloc_budget := b r\<rparr>)" "extends t (r\<lparr>prealloc_budget := b r\<rparr>) (r2\<lparr>prealloc_budget := b r2\<rparr>)"
    using a(1,2) by (simp_all add: inside_def extends_def)
  from streaming_method.final[OF assms this a(3,4)]
  show "\<exists>r2'. m (r2\<lparr>prealloc_budget := b r2\<rparr>) = (x, r2') \<and> extends t r' r2'" .
qed

lemma reserve_eq: "reserve len element_size m = (\<lambda>r. m (r\<lparr>prealloc_budget :=
    prealloc_budget r - min len (prealloc_budget r div max element_size 1) * element_size\<rparr>))"
  by (simp add: fun_eq_iff reserve_def next_do_def take_prealloc_budget_def Let_def)

lemma streaming_reserve: "streaming_method m \<Longrightarrow> streaming_method (reserve len element_size m)"
  unfolding reserve_eq by (rule streaming_with_budget)

text \<open>The bytes of a payload, without the end of the line\<close>

definition take_payload :: "nat \<Rightarrow> bytes reading" where
  "take_payload len r =
     (if r_pos r + len > length (r_buffer r) then (Inl InvalidResponse, r)
      else (Inr (take len (drop (r_pos r) (r_buffer r))), r\<lparr>r_pos := r_pos r + len\<rparr>))"

lemma read_payload_eq:
  "read_payload invalid len = next_do (take_payload len) (\<lambda>str.
     next_do read_until_crlf (\<lambda>crlf. if crlf \<noteq> [] then throw invalid else ok_with str))"
  by (auto simp: fun_eq_iff read_payload_def next_do_def take_payload_def Let_def)

lemma streaming_take_payload: "streaming_method (take_payload len)"
  by unfold_locales (auto simp: take_payload_def inside_def extends_def split: if_splits)

lemma streaming_read_payload: "streaming_method (read_payload invalid len)"
  unfolding read_payload_eq by (intro streaming_basic streaming_take_payload) (auto intro: streaming_basic)

lemma streaming_read_verbatim_string: "streaming_method read_verbatim_string"
  unfolding read_verbatim_string_def
  by (intro streaming_basic streaming_read_integer) (auto intro!: streaming_basic streaming_read_payload)

lemmas streaming_intros = streaming_basic streaming_read_integer streaming_read_double streaming_read_boolean
  streaming_reserve streaming_read_payload streaming_read_verbatim_string

text \<open>Induction over the nesting, which is bounded\<close>

lemma nesting_induct:
  assumes "\<And>depth. (depth < MAX_NESTING_DEPTH \<Longrightarrow> P (Suc depth)) \<Longrightarrow> P depth"
  shows "P depth"
  by (induction "MAX_NESTING_DEPTH - depth" arbitrary: depth rule: less_induct) (rule assms, simp)

lemma streaming_read_values:
  assumes "streaming_method (read_value_with_depth p depth)"
  shows "streaming_method (read_values p n depth)" "streaming_method (read_entries p n depth)"
  using assms by (induction n) (simp_all add: streaming_basic)

lemma streaming_read_typed:
  assumes "depth < MAX_NESTING_DEPTH \<Longrightarrow> streaming_method (read_value_with_depth p (Suc depth))"
  shows "streaming_method (read_typed p depth ty)"
  using assms
  by (cases ty) (auto simp: read_typed.simps split: option.split intro!: streaming_intros streaming_read_values)

lemma streaming_read_value_with_depth: "streaming_method (read_value_with_depth p depth)"
proof (induction depth rule: nesting_induct)
  case (1 depth)
  then show ?case
    by (subst read_value_with_depth.simps, intro streaming_next_do[OF streaming_read_byte])
      (auto split: option.split intro!: streaming_throw streaming_read_typed)
qed

interpretation reply: streaming_method "read_value p" for p :: "'f platform"
  using streaming_with_budget[OF streaming_read_value_with_depth[of p 0]] by (simp add: read_value_def[abs_def])

end
