(* ===== verification/RespScanner.thy ===== *)
theory RespScanner
  imports RespReader
begin

text \<open>
  The scanner that finds the end of a reply before the parser runs, \<^verbatim>\<open>ReplyScanner\<close> of \<^verbatim>\<open>src/valkey/valkey_protocol.rs\<close>. It
  keeps its position and the number of values each open aggregate still lacks, so that a reply that arrives in many
  pieces is not read from its start again. The stack of the source is a \<^verbatim>\<open>Vec\<close> with the outermost aggregate first; here
  it is a list whose head is its last element. The lemmas show that the scanner finds exactly the end that the parser
  finds, and that stopping for more data and going on is the same as starting over.
\<close>

section \<open>The scanner\<close>

datatype ScanResult = Complete | NeedMoreData

record ReplyScanner =
  s_pos :: nat
  s_stack :: "nat list"
  s_crlf_skip :: nat

definition scanner_default :: ReplyScanner where
  "scanner_default = \<lparr>s_pos = 0, s_stack = [], s_crlf_skip = 0\<rparr>"

definition scanner_reset :: "ReplyScanner \<Rightarrow> ReplyScanner" where
  "scanner_reset s = s\<lparr>s_pos := 0, s_stack := [], s_crlf_skip := 0\<rparr>"

definition u64_max :: nat where
  "u64_max = 2 ^ 64 - 1"

definition u64_saturating_mul :: "nat \<Rightarrow> nat \<Rightarrow> nat" where
  "u64_saturating_mul a b = min (a * b) u64_max"

definition u64_saturating_add :: "nat \<Rightarrow> nat \<Rightarrow> nat" where
  "u64_saturating_add a b = min (a + b) u64_max"

text \<open>The part of \<open>scan_one\<close> that skips a payload and the line end behind it\<close>

definition scan_payload :: "RedisError \<Rightarrow> nat \<Rightarrow> nat option reading" where
  "scan_payload invalid len r =
     (if length (r_buffer r) - r_pos r < len + 2 then (Inl InvalidResponse, r)
      else if r_buffer r ! (r_pos r + len) \<noteq> CHR 0x0D \<or> r_buffer r ! (r_pos r + len + 1) \<noteq> CHR 0x0A then (Inl invalid, r)
      else (Inr None, r\<lparr>r_pos := r_pos r + (len + 2)\<rparr>))"

definition scan_blob :: "RESPType \<Rightarrow> nat option reading" where
  "scan_blob ty =
     (let invalid = (case ty of TBlobError \<Rightarrow> InvalidBlobError | TVerbatimString \<Rightarrow> InvalidVerbatimString | _ \<Rightarrow> InvalidBulkString)
      in next_do read_integer (\<lambda>len.
        if len < 0 then if ty = TBulkString then ok_with None else throw invalid
        else if len > MAX_BULK_LEN then throw invalid
        else scan_payload invalid (nat len)))"

definition scan_aggregate :: "RESPType \<Rightarrow> nat \<Rightarrow> nat option reading" where
  "scan_aggregate ty depth =
     (if depth \<ge> MAX_NESTING_DEPTH then throw NestingDepthExceeded
      else next_do read_integer (\<lambda>len.
        case ty of
          TMap \<Rightarrow> if len < 0 then throw InvalidMap else ok_with (Some (u64_saturating_mul (nat len) 2))
        | TAttribute \<Rightarrow>
            if len < 0 then throw InvalidAttribute
            else ok_with (Some (u64_saturating_add (u64_saturating_mul (nat len) 2) 1))
        | TSet \<Rightarrow> if len < 0 then throw InvalidSet else ok_with (Some (nat len))
        | TPush \<Rightarrow> if len \<le> 0 then throw InvalidPush else ok_with (Some (nat len))
        | _ \<Rightarrow> if len < 0 then ok_with (Some 0) else ok_with (Some (nat len))))"

definition scan_typed :: "nat \<Rightarrow> RESPType \<Rightarrow> nat option reading" where
  "scan_typed depth ty =
     (if ty \<in> {TSimpleString, TError, TInteger, TDouble, TBoolean, TBigNumber} then
        next_do read_until_crlf (\<lambda>_. ok_with None)
      else if ty = TNull then
        next_do read_until_crlf (\<lambda>str. if str \<noteq> [] then throw InvalidNull else ok_with None)
      else if ty \<in> {TBulkString, TBlobError, TVerbatimString} then scan_blob ty
      else scan_aggregate ty depth)"

definition scan_one :: "nat \<Rightarrow> nat option reading" where
  "scan_one depth = next_do read_byte (\<lambda>type_byte.
     case from_byte type_byte of None \<Rightarrow> throw InvalidResponseType | Some ty \<Rightarrow> scan_typed depth ty)"

text \<open>One value is complete: the aggregates it completes are closed\<close>

fun unwind :: "nat list \<Rightarrow> nat list" where
  "unwind [] = []"
| "unwind (remaining # stack) = (if remaining - 1 > 0 then (remaining - 1) # stack else unwind stack)"

definition scan_reader :: "bytes \<Rightarrow> ReplyScanner \<Rightarrow> ValkeyReader" where
  "scan_reader buf s = \<lparr>r_buffer = buf, r_pos = s_pos s, prealloc_budget = 0, crlf_skip = s_crlf_skip s\<rparr>"

lemma streaming_scan_payload: "streaming_method (scan_payload invalid len)"
  by unfold_locales (auto simp: scan_payload_def inside_def extends_def nth_append split: if_splits)

lemma streaming_scan_one_rest: "streaming_method (scan_blob ty)" "streaming_method (scan_aggregate ty depth)"
  unfolding scan_blob_def scan_aggregate_def Let_def
  by (auto split: RESPType.split intro!: streaming_intros streaming_scan_payload)

lemma streaming_scan_typed: "streaming_method (scan_typed depth ty)"
  unfolding scan_typed_def by (auto intro!: streaming_intros streaming_scan_one_rest)

lemma streaming_scan_one: "streaming_method (scan_one depth)"
  unfolding scan_one_def
  by (intro streaming_next_do[OF streaming_read_byte]) (auto split: option.split intro!: streaming_intros streaming_scan_typed)

interpretation element: streaming_method "scan_one depth" for depth
  by (rule streaming_scan_one)

lemma scan_one_advances:
  assumes "scan_one depth r = (Inr c, r')"
  shows "r_pos r < r_pos r'" "r_pos r' \<le> length (r_buffer r)"
proof -
  have i: "r_pos r < length (r_buffer r)"
    using assms by (auto simp: scan_one_def next_do_def read_byte_def split: if_splits)
  then show "r_pos r' \<le> length (r_buffer r)"
    using element.stays_inside[of r depth "Inr c" r'] assms by (auto simp: inside_def)
  let ?r = "r\<lparr>r_pos := r_pos r + 1\<rparr>"
  obtain ty where "scan_typed depth ty ?r = (Inr c, r')"
    using assms i by (auto simp: scan_one_def next_do_def read_byte_def throw_def split: option.splits)
  then show "r_pos r < r_pos r'"
    using streaming_method.stays_inside[OF streaming_scan_typed, of ?r] i by (fastforce simp: inside_def)
qed

function scan_reply :: "bytes \<Rightarrow> ReplyScanner \<Rightarrow> (RedisError + ScanResult) \<times> ReplyScanner" where
  "scan_reply buf s =
     (case scan_one (length (s_stack s)) (scan_reader buf s) of
        (Inl err, reader) \<Rightarrow>
          if err = InvalidResponse then
            (Inr NeedMoreData,
             s\<lparr>s_crlf_skip := (if r_pos reader = s_pos s + 1 then length buf - r_pos reader - 1 else 0)\<rparr>)
          else (Inl err, s)
      | (Inr children, reader) \<Rightarrow>
          let s1 = s\<lparr>s_crlf_skip := 0, s_pos := r_pos reader\<rparr>
          in if children \<noteq> None \<and> the children > 0 then scan_reply buf (s1\<lparr>s_stack := the children # s_stack s\<rparr>)
             else
               let s2 = s1\<lparr>s_stack := unwind (s_stack s)\<rparr>
               in if s_stack s2 = [] then (Inr Complete, s2) else scan_reply buf s2)"
  by pat_completeness auto
termination
proof (relation "measure (\<lambda>(buf, s). length buf - s_pos s)", simp)
  fix buf :: bytes and s :: ReplyScanner and x r c
  assume "(x, r) = scan_one (length (s_stack s)) (scan_reader buf s)" "x = Inr c"
  then have "s_pos s < r_pos r" "r_pos r \<le> length buf"
    using scan_one_advances[of "length (s_stack s)" "scan_reader buf s" c r] by (simp_all add: scan_reader_def)
  then show "\<And>s1. s1 = s\<lparr>s_crlf_skip := 0, s_pos := r_pos r\<rparr> \<Longrightarrow>
      ((buf, s1\<lparr>s_stack := the c # s_stack s\<rparr>), buf, s) \<in> measure (\<lambda>(buf, s). length buf - s_pos s)"
    and "\<And>s1 s2. s1 = s\<lparr>s_crlf_skip := 0, s_pos := r_pos r\<rparr> \<Longrightarrow> s2 = s1\<lparr>s_stack := unwind (s_stack s)\<rparr> \<Longrightarrow>
      ((buf, s2), buf, s) \<in> measure (\<lambda>(buf, s). length buf - s_pos s)"
    by auto
qed

declare scan_reply.simps [simp del]


section \<open>The scanner and the parser\<close>

lemma next_do_Inr: "next_do m f r = (Inr y, r') \<longleftrightarrow> (\<exists>x r1. m r = (Inr x, r1) \<and> f x r1 = (Inr y, r'))"
  by (auto simp: next_do_def split: prod.splits sum.splits)

lemma next_do_Inl:
  "next_do m f r = (Inl e, r') \<longleftrightarrow> m r = (Inl e, r') \<or> (\<exists>x r1. m r = (Inr x, r1) \<and> f x r1 = (Inl e, r'))"
  by (auto simp: next_do_def split: prod.splits sum.splits)

lemma ok_with_iff [simp]: "ok_with x r = (Inr y, r') \<longleftrightarrow> x = y \<and> r = r'" "ok_with x r \<noteq> (Inl e, r')"
  by (auto simp: ok_with_def)

lemma throw_iff [simp]: "throw x r = (Inl e, r') \<longleftrightarrow> x = e \<and> r = r'" "throw x r \<noteq> (Inr y, r')"
  by (auto simp: throw_def)

text \<open>The elementary methods take no notice of the budget for preallocation\<close>

abbreviation without_budget :: "ValkeyReader \<Rightarrow> ValkeyReader" where
  "without_budget r \<equiv> r\<lparr>prealloc_budget := 0\<rparr>"

lemma read_byte_blind: "read_byte r = (x, r') \<Longrightarrow> read_byte (without_budget r) = (x, without_budget r')"
  by (auto simp: read_byte_def split: if_splits)

lemma read_until_crlf_blind: "read_until_crlf r = (x, r') \<Longrightarrow> read_until_crlf (without_budget r) = (x, without_budget r')"
  by (auto simp: read_until_crlf_def Let_def split: option.splits)

lemma read_integer_blind: "read_integer r = (x, r') \<Longrightarrow> read_integer (without_budget r) = (x, without_budget r')"
  by (auto simp: read_integer_def next_do_def ok_with_def throw_def dest: read_until_crlf_blind split: prod.splits sum.splits)

lemmas blind = read_byte_blind read_until_crlf_blind read_integer_blind

lemma parse_int_less:
  assumes "parse_int w buf radix = Inr n"
  shows "n < 2 ^ (w - 1)"
proof -
  have "- int acc < 2 ^ (w - 1)" for acc
    using zero_less_power[of "2 :: int" "w - 1"] by linarith
  with assms show ?thesis by (auto simp: parse_int_def Let_def split: if_splits prod.splits sum.splits)
qed

lemma read_integer_Inr:
  "read_integer r = (Inr n, r') \<longleftrightarrow> (\<exists>str. read_until_crlf r = (Inr str, r') \<and> parse_int 64 str 10 = Inr n)"
proof -
  have "(case parse_int 64 str 10 of Inl _ \<Rightarrow> throw InvalidInteger | Inr n \<Rightarrow> ok_with n) r1 = (Inr n, r') \<longleftrightarrow>
      parse_int 64 str 10 = Inr n \<and> r1 = r'" for str r1
    by (cases "parse_int 64 str 10") auto
  then show ?thesis by (auto simp: read_integer_def next_do_Inr)
qed

lemma read_integer_less: "read_integer r = (Inr n, r') \<Longrightarrow> n < 2 ^ 63"
  using parse_int_less[of 64 _ 10 n] by (auto simp: read_integer_Inr)

lemma children_not_saturated:
  assumes "n < 2 ^ 63"
  shows "u64_saturating_mul (nat n) 2 = nat n * 2" "u64_saturating_add (nat n * 2) 1 = nat n * 2 + 1"
proof -
  have "nat n < 2 ^ 63" using assms by (simp add: nat_less_iff)
  then show "u64_saturating_mul (nat n) 2 = nat n * 2" "u64_saturating_add (nat n * 2) 1 = nat n * 2 + 1"
    by (simp_all add: u64_saturating_mul_def u64_saturating_add_def u64_max_def)
qed


text \<open>Where the scanner goes on when a value is complete and \<open>k\<close> values of the next aggregate are missing\<close>

abbreviation scanning :: "nat \<Rightarrow> nat list \<Rightarrow> ReplyScanner" where
  "scanning pos st \<equiv> \<lparr>s_pos = pos, s_stack = st, s_crlf_skip = 0\<rparr>"

definition after_value :: "bytes \<Rightarrow> nat \<Rightarrow> nat list \<Rightarrow> (RedisError + ScanResult) \<times> ReplyScanner" where
  "after_value buf pos st =
     (if unwind st = [] then (Inr Complete, scanning pos []) else scan_reply buf (scanning pos (unwind st)))"

definition go_on :: "bytes \<Rightarrow> nat \<Rightarrow> nat \<Rightarrow> nat list \<Rightarrow> (RedisError + ScanResult) \<times> ReplyScanner" where
  "go_on buf pos k st = (if k = 0 then after_value buf pos st else scan_reply buf (scanning pos (k # st)))"

lemma after_value_Cons: "after_value buf pos (k # st) = go_on buf pos (k - 1) st"
  by (simp add: after_value_def go_on_def)

lemma scan_reply_step:
  assumes "scan_one (length st) (without_budget r) = (Inr c, r1)" "crlf_skip r = 0"
  shows "scan_reply (r_buffer r) (scanning (r_pos r) st) = go_on (r_buffer r) (r_pos r1) (case c of None \<Rightarrow> 0 | Some n \<Rightarrow> n) st"
proof -
  have "scan_reader (r_buffer r) (scanning (r_pos r) st) = without_budget r" using assms(2) by (simp add: scan_reader_def)
  then show ?thesis
    using assms(1) by (subst scan_reply.simps) (auto simp: Let_def go_on_def after_value_def split: option.split)
qed

lemma scan_reply_stuck:
  assumes "scan_one (length st) (without_budget r) = (Inl e, r1)" "crlf_skip r = 0"
  shows "fst (scan_reply (r_buffer r) (scanning (r_pos r) st)) \<noteq> Inr Complete"
proof -
  have "scan_reader (r_buffer r) (scanning (r_pos r) st) = without_budget r" using assms(2) by (simp add: scan_reader_def)
  then show ?thesis using assms(1) by (subst scan_reply.simps) (simp add: Let_def)
qed

lemma scan_one_typed:
  "read_byte r = (Inr b, r0) \<Longrightarrow> from_byte b = Some ty \<Longrightarrow> scan_one d (without_budget r) = scan_typed d ty (without_budget r0)"
  by (simp add: scan_one_def next_do_def read_byte_blind)

text \<open>Payloads: the parser looks for the next line end, the scanner at the two bytes behind the payload\<close>

lemma read_payload_Inr:
  assumes "read_payload invalid len r = (Inr str, r')" "inside r" "crlf_skip r = 0"
  shows "scan_payload e len (without_budget r) = (Inr None, without_budget r')"
proof -
  let ?r = "r\<lparr>r_pos := r_pos r + len\<rparr>"
  obtain crlf r1 where l: "r_pos r + len \<le> length (r_buffer r)" "read_until_crlf ?r = (Inr crlf, r1)"
    "(if crlf \<noteq> [] then throw invalid else ok_with str) r1 = (Inr str, r')"
    using assms(1) by (auto simp: read_payload_def next_do_Inr Let_def split: if_splits)
  then have "crlf = []" "r1 = r'" by (auto split: if_splits)
  with l assms(3) have "line_end (drop (r_pos r + len) (r_buffer r)) 0" "r' = ?r\<lparr>crlf_skip := 0, r_pos := r_pos r + len + 2\<rparr>"
    by (auto simp: read_until_crlf_eq inside_def crlf_from_Some_iff split: option.splits)
  with assms(3) show ?thesis by (auto simp: scan_payload_def line_end_def)
qed

lemma read_payload_stuck:
  assumes "read_payload invalid len r = (Inl InvalidResponse, r')" "invalid \<noteq> InvalidResponse" "inside r" "crlf_skip r = 0"
  shows "\<exists>e' r2. scan_payload e len (without_budget r) = (Inl e', r2)"
proof (cases "length (r_buffer r) - r_pos r < len + 2")
  case True
  then show ?thesis by (auto simp: scan_payload_def)
next
  case False
  let ?r = "r\<lparr>r_pos := r_pos r + len\<rparr>"
  have l: "r_pos r + len + 2 \<le> length (r_buffer r)" using False by simp
  then have "\<exists>r1. read_until_crlf ?r = (Inl InvalidResponse, r1)"
    using assms(1,2) by (auto simp: read_payload_def next_do_Inl Let_def split: if_splits)
  then have "crlf_from (drop (r_pos r + len) (r_buffer r)) (min (length (r_buffer r) - (r_pos r + len)) (MAX_LINE_LEN + 1)) 0 = None"
    using l assms(4) by (auto simp: read_until_crlf_eq inside_def split: option.splits)
  then have "\<not> line_end (drop (r_pos r + len) (r_buffer r)) 0" using l by (auto simp: crlf_from_None_iff)
  then show ?thesis using l by (auto simp: scan_payload_def line_end_def)
qed


lemmas keeps_read_byte = streaming_method.stays_inside[OF streaming_read_byte]
lemmas keeps_read_integer = streaming_method.stays_inside[OF streaming_read_integer]
lemmas keeps_value = streaming_method.stays_inside[OF streaming_read_value_with_depth]
lemmas keeps_values = streaming_method.stays_inside[OF streaming_read_values(1)[OF streaming_read_value_with_depth]]
lemmas keeps_entries = streaming_method.stays_inside[OF streaming_read_values(2)[OF streaming_read_value_with_depth]]

text \<open>The scanner follows a value that the parser reads at this depth\<close>

definition scans :: "'f platform \<Rightarrow> nat \<Rightarrow> bool" where
  "scans p depth \<longleftrightarrow> (\<forall>st r v r'. length st = depth \<longrightarrow> inside r \<longrightarrow> crlf_skip r = 0 \<longrightarrow>
     read_value_with_depth p depth r = (Inr v, r') \<longrightarrow>
     scan_reply (r_buffer r) (scanning (r_pos r) st) = after_value (r_buffer r) (r_pos r') st)"

lemma scans_next:
  assumes "scans p (Suc (length st))" "read_value_with_depth p (Suc (length st)) r = (Inr v, r')"
    and "inside r" "crlf_skip r = 0" "0 < k"
  shows "go_on (r_buffer r) (r_pos r) k st = go_on (r_buffer r) (r_pos r') (k - 1) st"
  using assms by (auto simp: scans_def go_on_def[of _ _ k] after_value_Cons)

lemma scans_values:
  assumes "scans p (Suc (length st))" "read_values p n (Suc (length st)) r = (Inr vs, r')" "inside r" "crlf_skip r = 0"
  shows "go_on (r_buffer r) (r_pos r) (n + k) st = go_on (r_buffer r) (r_pos r') k st"
  using assms(2-)
proof (induction n arbitrary: r vs)
  case (Suc n)
  then obtain v r1 vs' where v: "read_value_with_depth p (Suc (length st)) r = (Inr v, r1)"
    and vs: "read_values p n (Suc (length st)) r1 = (Inr vs', r')"
    by (auto simp: next_do_Inr)
  note 1 = keeps_value[OF Suc.prems(2) v]
  have "go_on (r_buffer r) (r_pos r) (Suc n + k) st = go_on (r_buffer r) (r_pos r1) (n + k) st"
    using scans_next[OF assms(1) v Suc.prems(2,3), of "Suc n + k"] by simp
  also have "\<dots> = go_on (r_buffer r) (r_pos r') k st" using Suc.IH[OF vs] 1 Suc.prems(3) by simp
  finally show ?case .
qed simp

lemma scans_entries:
  assumes "scans p (Suc (length st))" "read_entries p n (Suc (length st)) r = (Inr es, r')" "inside r" "crlf_skip r = 0"
  shows "go_on (r_buffer r) (r_pos r) (n * 2 + k) st = go_on (r_buffer r) (r_pos r') k st"
  using assms(2-)
proof (induction n arbitrary: r es)
  case (Suc n)
  then obtain a r1 b r2 es' where a: "read_value_with_depth p (Suc (length st)) r = (Inr a, r1)"
    and b: "read_value_with_depth p (Suc (length st)) r1 = (Inr b, r2)"
    and es: "read_entries p n (Suc (length st)) r2 = (Inr es', r')"
    by (auto simp: next_do_Inr)
  note 1 = keeps_value[OF Suc.prems(2) a]
  with Suc.prems(3) have r1: "inside r1" "crlf_skip r1 = 0" "r_buffer r1 = r_buffer r" by auto
  note 2 = keeps_value[OF r1(1) b]
  have "go_on (r_buffer r) (r_pos r) (Suc n * 2 + k) st = go_on (r_buffer r) (r_pos r1) (Suc (n * 2 + k)) st"
    using scans_next[OF assms(1) a Suc.prems(2,3), of "Suc n * 2 + k"] by simp
  also have "\<dots> = go_on (r_buffer r) (r_pos r2) (n * 2 + k) st"
    using scans_next[OF assms(1) b r1(1,2), of "Suc (n * 2 + k)"] r1(3) by simp
  also have "\<dots> = go_on (r_buffer r) (r_pos r') k st" using Suc.IH[OF es] 2 r1 by simp
  finally show ?case .
qed simp

text \<open>What the scanner does behind the type byte of a value that the parser reads\<close>

lemma scan_line:
  assumes "read_typed p d ty r = (Inr v, r')" "ty \<in> {TSimpleString, TError, TInteger, TDouble, TBoolean, TBigNumber, TNull}"
  shows "scan_typed d ty (without_budget r) = (Inr None, without_budget r')"
proof -
  have "\<exists>x. read_until_crlf r = (Inr x, r') \<and> (ty = TNull \<longrightarrow> x = [])"
    using assms by (auto simp: read_typed.simps next_do_Inr read_integer_Inr read_double_def read_boolean_def
      split: if_splits option.splits sum.splits)
  then obtain x where "read_until_crlf r = (Inr x, r')" "ty = TNull \<longrightarrow> x = []" by blast
  with read_until_crlf_blind[OF this(1)] show ?thesis using assms(2) by (auto simp: scan_typed_def next_do_def ok_with_def)
qed

lemma scan_bulk:
  assumes "read_typed p d ty r = (Inr v, r')" "ty \<in> {TBulkString, TBlobError, TVerbatimString}" "inside r" "crlf_skip r = 0"
  shows "scan_typed d ty (without_budget r) = (Inr None, without_budget r')"
proof -
  have "\<exists>len r1. read_integer r = (Inr len, r1) \<and> len \<le> MAX_BULK_LEN \<and>
      ((len < 0 \<and> ty = TBulkString \<and> r1 = r') \<or> (0 \<le> len \<and> (\<exists>e str. read_payload e (nat len) r1 = (Inr str, r'))))"
    using assms(1,2) by (fastforce simp: read_typed.simps next_do_Inr read_verbatim_string_def MAX_BULK_LEN_def split: if_splits)
  then obtain len r1 where l: "read_integer r = (Inr len, r1)" "len \<le> MAX_BULK_LEN"
    and "(len < 0 \<and> ty = TBulkString \<and> r1 = r') \<or> (0 \<le> len \<and> (\<exists>e str. read_payload e (nat len) r1 = (Inr str, r')))"
    by blast
  moreover have "inside r1" "crlf_skip r1 = 0" using keeps_read_integer[OF assms(3) l(1)] assms(4) by auto
  ultimately show ?thesis
    using assms(2) read_integer_blind[OF l(1)]
    by (auto simp: scan_typed_def scan_blob_def next_do_def ok_with_def dest: read_payload_Inr)
qed


text \<open>An aggregate: the number of values the scanner expects are those that the parser reads\<close>

lemma inside_budget [simp]: "inside (r\<lparr>prealloc_budget := b\<rparr>) = inside r"
  by (simp add: inside_def)

lemma scan_aggregate_header:
  assumes "ty \<in> {TArray, TMap, TSet, TAttribute, TPush}" "d < MAX_NESTING_DEPTH" "read_integer r = (Inr len, r1)"
    and "(ty \<in> {TMap, TSet, TAttribute} \<longrightarrow> 0 \<le> len) \<and> (ty = TPush \<longrightarrow> 0 < len)"
  shows "scan_typed d ty (without_budget r) =
    (Inr (Some (case ty of TMap \<Rightarrow> nat len * 2 | TAttribute \<Rightarrow> nat len * 2 + 1 | _ \<Rightarrow> nat len)), without_budget r1)"
  using assms children_not_saturated[OF read_integer_less[OF assms(3)]] read_integer_blind[OF assms(3)]
  by (auto simp: scan_typed_def scan_aggregate_def next_do_def ok_with_def throw_def)

lemma scan_aggregate_follows:
  assumes v: "read_typed p (length st) ty r = (Inr v, r')" and ty: "ty \<in> {TArray, TMap, TSet, TAttribute, TPush}"
    and r: "inside r" "crlf_skip r = 0" and scans: "length st < MAX_NESTING_DEPTH \<Longrightarrow> scans p (Suc (length st))"
  shows "\<exists>c r1. scan_typed (length st) ty (without_budget r) = (Inr (Some c), without_budget r1) \<and>
    go_on (r_buffer r) (r_pos r1) c st = after_value (r_buffer r) (r_pos r') st"
proof -
  have d: "length st < MAX_NESTING_DEPTH" using v ty by (auto simp: read_typed.simps split: if_splits)
  then obtain len r1 where l: "read_integer r = (Inr len, r1)"
    using v ty by (auto simp: read_typed.simps next_do_Inr)
  have r1: "inside r1" "crlf_skip r1 = 0" "r_buffer r1 = r_buffer r" using keeps_read_integer[OF r(1) l] r(2) by auto
  note one = scans_next[OF scans[OF d]]
    and many = scans_values[OF scans[OF d], where k = 0, simplified] and entries = scans_entries[OF scans[OF d]]
  let ?c = "case ty of TMap \<Rightarrow> nat len * 2 | TAttribute \<Rightarrow> nat len * 2 + 1 | _ \<Rightarrow> nat len"
  have "scan_typed (length st) ty (without_budget r) = (Inr (Some ?c), without_budget r1)"
    using scan_aggregate_header[OF ty d l] v ty d l by (auto simp: read_typed.simps next_do_Inr split: if_splits)
  moreover have "go_on (r_buffer r) (r_pos r1) ?c st = go_on (r_buffer r) (r_pos r') 0 st"
  proof (cases ty)
    case TArray
    then show ?thesis
      using v d l r1 by (fastforce simp: read_typed.simps next_do_Inr reserve_eq dest: many split: if_splits)
  next
    case TSet
    then show ?thesis
      using v d l r1 by (fastforce simp: read_typed.simps next_do_Inr reserve_eq dest: many split: if_splits)
  next
    case TMap
    then show ?thesis
      using v d l r1 by (fastforce simp: read_typed.simps next_do_Inr reserve_eq dest: entries[where k = 0] split: if_splits)
  next
    case TAttribute
    then obtain attrs r2 val rb where e: "read_entries p (nat len) (Suc (length st)) rb = (Inr attrs, r2)"
      and w: "read_value_with_depth p (Suc (length st)) r2 = (Inr val, r')"
      and rb: "inside rb" "crlf_skip rb = 0" "r_buffer rb = r_buffer r" "r_pos rb = r_pos r1"
      using v d l r1 by (fastforce simp: read_typed.simps next_do_Inr reserve_eq split: if_splits)
    have "inside r2" "crlf_skip r2 = 0" "r_buffer r2 = r_buffer r" using keeps_entries[OF rb(1) e] rb by auto
    then show ?thesis using entries[OF e rb(1,2), of 1] one[OF w, of 1] rb TAttribute by simp
  next
    case TPush
    then obtain kind r2 rb data where k: "read_value_with_depth p (Suc (length st)) r1 = (Inr kind, r2)" and len: "0 < len"
      and vs: "read_values p (nat (len - 1)) (Suc (length st)) rb = (Inr data, r')"
      and rb: "r_buffer rb = r_buffer r2" "r_pos rb = r_pos r2" "crlf_skip rb = crlf_skip r2"
      using v d l by (fastforce simp: read_typed.simps next_do_Inr reserve_eq split: if_splits option.splits)
    have "inside r2" "crlf_skip r2 = 0" "r_buffer r2 = r_buffer r" using keeps_value[OF r1(1) k] r1 by auto
    then show ?thesis
      using one[OF k r1(1,2), of "nat len"] many[OF vs] rb len r1(3) TPush
      by (simp add: inside_def nat_diff_distrib)
  qed (use ty in auto)
  ultimately show ?thesis by (auto simp: go_on_def)
qed

lemma scans_all: "scans p depth"
proof (induction depth rule: nesting_induct)
  case (1 depth)
  show ?case
    unfolding scans_def
  proof (intro allI impI)
    fix st :: "nat list" and r v r'
    assume d: "length st = depth" and r: "inside r" "crlf_skip r = 0" and v: "read_value_with_depth p depth r = (Inr v, r')"
    then obtain b r0 ty where b: "read_byte r = (Inr b, r0)" "from_byte b = Some ty" and ty: "read_typed p depth ty r0 = (Inr v, r')"
      by (subst (asm) read_value_with_depth.simps) (auto simp: next_do_Inr split: option.splits)
    have r0: "inside r0" "crlf_skip r0 = 0" "r_buffer r0 = r_buffer r" using keeps_read_byte[OF r(1) b(1)] r(2) by auto
    have "\<exists>c r1. scan_typed depth ty (without_budget r0) = (Inr c, without_budget r1) \<and>
        go_on (r_buffer r) (r_pos r1) (case c of None \<Rightarrow> 0 | Some n \<Rightarrow> n) st = after_value (r_buffer r) (r_pos r') st"
    proof (cases "ty \<in> {TArray, TMap, TSet, TAttribute, TPush}")
      case True
      then show ?thesis using scan_aggregate_follows[of p st ty r0 v r'] ty r0 d 1 by force
    next
      case False
      then have "scan_typed depth ty (without_budget r0) = (Inr None, without_budget r')"
        using scan_line[OF ty] scan_bulk[OF ty _ r0(1,2)] by (cases ty) auto
      then show ?thesis by (force simp: go_on_def)
    qed
    then show "scan_reply (r_buffer r) (scanning (r_pos r) st) = after_value (r_buffer r) (r_pos r') st"
      using scan_reply_step[of st r] scan_one_typed[OF b] r(2) d by force
  qed
qed


text \<open>Where the parser runs out of bytes, the scanner does not find the end of the value\<close>

definition stuck :: "'f platform \<Rightarrow> nat \<Rightarrow> bool" where
  "stuck p depth \<longleftrightarrow> (\<forall>st r r'. length st = depth \<longrightarrow> inside r \<longrightarrow> crlf_skip r = 0 \<longrightarrow>
     read_value_with_depth p depth r = (Inl InvalidResponse, r') \<longrightarrow>
     fst (scan_reply (r_buffer r) (scanning (r_pos r) st)) \<noteq> Inr Complete)"

lemma stuck_next:
  assumes "stuck p (Suc (length st))" "read_value_with_depth p (Suc (length st)) r = (Inl InvalidResponse, r')"
    and "inside r" "crlf_skip r = 0" "0 < k"
  shows "fst (go_on (r_buffer r) (r_pos r) k st) \<noteq> Inr Complete"
  using assms by (auto simp: stuck_def go_on_def)

lemma stuck_values:
  assumes "stuck p (Suc (length st))" "read_values p n (Suc (length st)) r = (Inl InvalidResponse, r')" "inside r" "crlf_skip r = 0"
  shows "fst (go_on (r_buffer r) (r_pos r) (n + k) st) \<noteq> Inr Complete"
  using assms(2-)
proof (induction n arbitrary: r)
  case (Suc n)
  from Suc.prems(1) consider "read_value_with_depth p (Suc (length st)) r = (Inl InvalidResponse, r')"
    | v r1 where "read_value_with_depth p (Suc (length st)) r = (Inr v, r1)" "read_values p n (Suc (length st)) r1 = (Inl InvalidResponse, r')"
    by (auto simp: next_do_Inl)
  then show ?case
  proof cases
    case 1
    then show ?thesis using stuck_next[OF assms(1) 1 Suc.prems(2,3)] by simp
  next
    case 2
    have "inside r1" "crlf_skip r1 = 0" "r_buffer r1 = r_buffer r" using keeps_value[OF Suc.prems(2) 2(1)] Suc.prems(3) by auto
    then show ?thesis
      using scans_next[OF scans_all 2(1) Suc.prems(2,3), of "Suc n + k"] Suc.IH[OF 2(2)] by simp
  qed
qed simp

lemma stuck_entries:
  assumes "stuck p (Suc (length st))" "read_entries p n (Suc (length st)) r = (Inl InvalidResponse, r')" "inside r" "crlf_skip r = 0"
  shows "fst (go_on (r_buffer r) (r_pos r) (n * 2 + k) st) \<noteq> Inr Complete"
  using assms(2-)
proof (induction n arbitrary: r)
  case (Suc n)
  let ?read = "read_value_with_depth p (Suc (length st))"
  from Suc.prems(1) consider "?read r = (Inl InvalidResponse, r')"
    | a r1 where "?read r = (Inr a, r1)" "?read r1 = (Inl InvalidResponse, r')"
    | a r1 b r2 where "?read r = (Inr a, r1)" "?read r1 = (Inr b, r2)" "read_entries p n (Suc (length st)) r2 = (Inl InvalidResponse, r')"
    by (auto simp: next_do_Inl)
  then show ?case
  proof cases
    case 1
    then show ?thesis using stuck_next[OF assms(1) 1 Suc.prems(2,3)] by simp
  next
    case 2
    have "inside r1" "crlf_skip r1 = 0" "r_buffer r1 = r_buffer r" using keeps_value[OF Suc.prems(2) 2(1)] Suc.prems(3) by auto
    then show ?thesis
      using scans_next[OF scans_all 2(1) Suc.prems(2,3), of "Suc n * 2 + k"] stuck_next[OF assms(1) 2(2), of "Suc (n * 2 + k)"] by simp
  next
    case 3
    have r1: "inside r1" "crlf_skip r1 = 0" "r_buffer r1 = r_buffer r" using keeps_value[OF Suc.prems(2) 3(1)] Suc.prems(3) by auto
    have r2: "inside r2" "crlf_skip r2 = 0" "r_buffer r2 = r_buffer r" using keeps_value[OF r1(1) 3(2)] r1 by auto
    show ?thesis
      using scans_next[OF scans_all 3(1) Suc.prems(2,3), of "Suc n * 2 + k"]
        scans_next[OF scans_all 3(2) r1(1,2), of "Suc (n * 2 + k)"] Suc.IH[OF 3(3) r2(1,2)] r1 r2 by simp
  qed
qed simp

lemma read_integer_stuck: "read_integer r = (Inl InvalidResponse, r') \<longleftrightarrow> read_until_crlf r = (Inl InvalidResponse, r')"
proof -
  have "(case parse_int 64 str 10 of Inl _ \<Rightarrow> throw InvalidInteger | Inr n \<Rightarrow> ok_with n) r1 \<noteq> (Inl InvalidResponse, r')" for str r1
    by (cases "parse_int 64 str 10") auto
  then show ?thesis by (auto simp: read_integer_def next_do_Inl)
qed

lemma line_stuck:
  assumes "read_typed p d ty r = (Inl InvalidResponse, r')" "ty \<in> {TSimpleString, TError, TInteger, TDouble, TBoolean, TBigNumber, TNull}"
  shows "\<exists>e r1. scan_typed d ty (without_budget r) = (Inl e, r1)"
proof -
  have "read_until_crlf r = (Inl InvalidResponse, r')"
    using assms by (auto simp: read_typed.simps next_do_Inl read_integer_stuck read_double_def read_boolean_def
      split: if_splits option.splits)
  from read_until_crlf_blind[OF this] show ?thesis using assms(2) by (auto simp: scan_typed_def next_do_def)
qed

lemma bulk_stuck:
  assumes "read_typed p d ty r = (Inl InvalidResponse, r')" "ty \<in> {TBulkString, TBlobError, TVerbatimString}" "inside r" "crlf_skip r = 0"
  shows "\<exists>e r1. scan_typed d ty (without_budget r) = (Inl e, r1)"
proof (cases "read_integer r = (Inl InvalidResponse, r')")
  case True
  from read_integer_blind[OF this] show ?thesis using assms(2) by (auto simp: scan_typed_def scan_blob_def next_do_def Let_def)
next
  case False
  then have "\<exists>len r1 e. read_integer r = (Inr len, r1) \<and> 0 \<le> len \<and> len \<le> MAX_BULK_LEN \<and> e \<noteq> InvalidResponse \<and>
      read_payload e (nat len) r1 = (Inl InvalidResponse, r')"
    using assms(1,2) by (fastforce simp: read_typed.simps next_do_Inl read_verbatim_string_def split: if_splits)
  then obtain len r1 e where l: "read_integer r = (Inr len, r1)" "0 \<le> len" "len \<le> MAX_BULK_LEN"
    and e: "e \<noteq> InvalidResponse" "read_payload e (nat len) r1 = (Inl InvalidResponse, r')" by blast
  have "inside r1" "crlf_skip r1 = 0" using keeps_read_integer[OF assms(3) l(1)] assms(4) by auto
  from read_payload_stuck[OF e(2,1) this] show ?thesis
    using read_integer_blind[OF l(1)] l(2,3) assms(2) by (auto simp: scan_typed_def scan_blob_def next_do_def Let_def)
qed


lemma aggregate_stuck:
  assumes v: "read_typed p (length st) ty r = (Inl InvalidResponse, r')" and ty: "ty \<in> {TArray, TMap, TSet, TAttribute, TPush}"
    and r: "inside r" "crlf_skip r = 0" and stuck: "length st < MAX_NESTING_DEPTH \<Longrightarrow> stuck p (Suc (length st))"
  shows "(\<exists>e r1. scan_typed (length st) ty (without_budget r) = (Inl e, r1)) \<or>
    (\<exists>c r1. scan_typed (length st) ty (without_budget r) = (Inr (Some c), without_budget r1) \<and>
      fst (go_on (r_buffer r) (r_pos r1) c st) \<noteq> Inr Complete)"
proof (cases "read_integer r = (Inl InvalidResponse, r') \<or> \<not> length st < MAX_NESTING_DEPTH")
  case True
  then show ?thesis
    using ty read_integer_blind[of r "Inl InvalidResponse" r'] by (auto simp: scan_typed_def scan_aggregate_def next_do_def throw_def)
next
  case False
  then have d: "length st < MAX_NESTING_DEPTH" by simp
  then obtain len r1 where l: "read_integer r = (Inr len, r1)"
    using v ty False by (auto simp: read_typed.simps next_do_Inl)
  have r1: "inside r1" "crlf_skip r1 = 0" "r_buffer r1 = r_buffer r" using keeps_read_integer[OF r(1) l] r(2) by auto
  note one = stuck_next[OF stuck[OF d]]
    and many = stuck_values[OF stuck[OF d], where k = 0, simplified] and entries = stuck_entries[OF stuck[OF d]]
  let ?c = "case ty of TMap \<Rightarrow> nat len * 2 | TAttribute \<Rightarrow> nat len * 2 + 1 | _ \<Rightarrow> nat len"
  have "scan_typed (length st) ty (without_budget r) = (Inr (Some ?c), without_budget r1)"
    using scan_aggregate_header[OF ty d l] v ty d l by (auto simp: read_typed.simps next_do_Inl split: if_splits)
  moreover have "fst (go_on (r_buffer r) (r_pos r1) ?c st) \<noteq> Inr Complete"
  proof (cases ty)
    case TArray
    then show ?thesis
      using v d l r1 by (fastforce simp: read_typed.simps next_do_Inl reserve_eq dest: many split: if_splits)
  next
    case TSet
    then show ?thesis
      using v d l r1 by (fastforce simp: read_typed.simps next_do_Inl reserve_eq dest: many split: if_splits)
  next
    case TMap
    then show ?thesis
      using v d l r1 by (fastforce simp: read_typed.simps next_do_Inl reserve_eq dest: entries[where k = 0] split: if_splits)
  next
    case TAttribute
    let ?rb = "r1\<lparr>prealloc_budget := prealloc_budget r1 - min (nat len) (prealloc_budget r1 div max (size_of_entry p) 1) * size_of_entry p\<rparr>"
    have rb: "inside ?rb" "crlf_skip ?rb = 0" "r_buffer ?rb = r_buffer r" "r_pos ?rb = r_pos r1" using r1 by simp_all
    from v d l TAttribute consider "read_entries p (nat len) (Suc (length st)) ?rb = (Inl InvalidResponse, r')"
      | attrs r2 where "read_entries p (nat len) (Suc (length st)) ?rb = (Inr attrs, r2)"
          "read_value_with_depth p (Suc (length st)) r2 = (Inl InvalidResponse, r')"
      by (auto simp: read_typed.simps next_do_Inl reserve_eq split: if_splits)
    then show ?thesis
    proof cases
      case 1
      then show ?thesis using entries[OF 1 rb(1,2), of 1] rb TAttribute by simp
    next
      case 2
      have "inside r2" "crlf_skip r2 = 0" "r_buffer r2 = r_buffer r" using keeps_entries[OF rb(1) 2(1)] rb by auto
      then show ?thesis using scans_entries[OF scans_all 2(1) rb(1,2), of 1] one[OF 2(2), of 1] rb TAttribute by simp
    qed
  next
    case TPush
    with v d l have len: "0 < len" by (auto simp: read_typed.simps next_do_Inl split: if_splits)
    from v d l TPush consider "read_value_with_depth p (Suc (length st)) r1 = (Inl InvalidResponse, r')"
      | kind r2 rb where "read_value_with_depth p (Suc (length st)) r1 = (Inr kind, r2)"
          "read_values p (nat (len - 1)) (Suc (length st)) rb = (Inl InvalidResponse, r')"
          "r_buffer rb = r_buffer r2" "r_pos rb = r_pos r2" "crlf_skip rb = crlf_skip r2"
      by (fastforce simp: read_typed.simps next_do_Inl reserve_eq split: if_splits option.splits)
    then show ?thesis
    proof cases
      case 1
      then show ?thesis using one[OF 1 r1(1,2), of "nat len"] len r1(3) TPush by simp
    next
      case 2
      have "inside r2" "crlf_skip r2 = 0" "r_buffer r2 = r_buffer r" using keeps_value[OF r1(1) 2(1)] r1 by auto
      then show ?thesis
        using scans_next[OF scans_all 2(1) r1(1,2), of "nat len"] many[OF 2(2)] 2(3-5) len r1(3) TPush
        by (simp add: inside_def nat_diff_distrib)
    qed
  qed (use ty in auto)
  ultimately show ?thesis by blast
qed

lemma stuck_all: "stuck p depth"
proof (induction depth rule: nesting_induct)
  case (1 depth)
  show ?case
    unfolding stuck_def
  proof (intro allI impI)
    fix st :: "nat list" and r r'
    assume d: "length st = depth" and r: "inside r" "crlf_skip r = 0"
      and v: "read_value_with_depth p depth r = (Inl InvalidResponse, r')"
    show "fst (scan_reply (r_buffer r) (scanning (r_pos r) st)) \<noteq> Inr Complete"
    proof (cases "read_byte r = (Inl InvalidResponse, r')")
      case True
      from read_byte_blind[OF this] have "scan_one (length st) (without_budget r) = (Inl InvalidResponse, without_budget r')"
        by (simp add: scan_one_def next_do_def)
      then show ?thesis using scan_reply_stuck r(2) by blast
    next
      case False
      with v obtain b r0 ty where b: "read_byte r = (Inr b, r0)" "from_byte b = Some ty"
        and ty: "read_typed p depth ty r0 = (Inl InvalidResponse, r')"
        by (subst (asm) read_value_with_depth.simps) (auto simp: next_do_Inl split: option.splits)
      have r0: "inside r0" "crlf_skip r0 = 0" "r_buffer r0 = r_buffer r" using keeps_read_byte[OF r(1) b(1)] r(2) by auto
      have "(\<exists>e r1. scan_typed depth ty (without_budget r0) = (Inl e, r1)) \<or>
          (\<exists>c r1. scan_typed depth ty (without_budget r0) = (Inr (Some c), without_budget r1) \<and>
            fst (go_on (r_buffer r) (r_pos r1) c st) \<noteq> Inr Complete)"
        using aggregate_stuck[of p st ty r0 r'] line_stuck[OF ty] bulk_stuck[OF ty _ r0(1,2)] ty r0 d 1 by (cases ty) auto
      then show ?thesis
        using scan_reply_step[of st r] scan_reply_stuck[of st r] scan_one_typed[OF b] r(2) d by fastforce
    qed
  qed
qed

end
