(* ===== verification/RespStream.thy ===== *)
theory RespStream
  imports RespScanner
begin

text \<open>
  The scanner on a buffer that grows. A scan that asks for more data keeps a position, a stack and a number of bytes
  that need not be looked at again; going on from there gives what a scan of the longer buffer from its start gives.
\<close>

section \<open>One element at a time\<close>

lemma scan_reply_Inl:
  assumes "scan_one (length (s_stack s)) (scan_reader buf s) = (Inl e, r)"
  shows "scan_reply buf s =
    (if e = InvalidResponse then
       (Inr NeedMoreData, s\<lparr>s_crlf_skip := (if r_pos r = s_pos s + 1 then length buf - r_pos r - 1 else 0)\<rparr>)
     else (Inl e, s))"
  using assms by (subst scan_reply.simps) simp

lemma scan_reply_Inr:
  assumes "scan_one (length (s_stack s)) (scan_reader buf s) = (Inr c, r)"
  shows "scan_reply buf s = go_on buf (r_pos r) (case c of None \<Rightarrow> 0 | Some n \<Rightarrow> n) (s_stack s)"
proof (cases s)
  case (fields pos st skip)
  with assms show ?thesis
    by (subst scan_reply.simps) (auto simp: Let_def go_on_def after_value_def split: option.split)
qed

lemma scan_reply_induct:
  assumes "\<And>s. (\<And>c r st. scan_one (length (s_stack s)) (scan_reader buf s) = (Inr c, r) \<Longrightarrow> P (scanning (r_pos r) st)) \<Longrightarrow> P s"
  shows "P s"
proof (induction "length buf - s_pos s" arbitrary: s rule: less_induct)
  case less
  show ?case
  proof (rule assms)
    fix c r st assume "scan_one (length (s_stack s)) (scan_reader buf s) = (Inr c, r)"
    from scan_one_advances[OF this] show "P (scanning (r_pos r) st)"
      by (intro less) (simp add: scan_reader_def diff_less_mono2)
  qed
qed

lemma go_on_cases:
  obtains "go_on buf pos k st = (Inr Complete, scanning pos [])" "\<And>buf. go_on buf pos k st = (Inr Complete, scanning pos [])"
  | st' where "\<And>buf. go_on buf pos k st = scan_reply buf (scanning pos st')"
  by (cases "k = 0"; cases "unwind st = []") (auto simp: go_on_def after_value_def)

lemma inside_scan_reader [simp]: "inside (scan_reader buf s) \<longleftrightarrow> s_pos s \<le> length buf"
  by (simp add: inside_def scan_reader_def)

lemma scan_one_inside: "scan_one d (scan_reader buf s) = (Inr c, r) \<Longrightarrow> r_pos r \<le> length buf"
  using scan_one_advances(2)[of d "scan_reader buf s" c r] by (simp add: scan_reader_def)

section \<open>Final outcomes\<close>

lemma scan_one_final:
  assumes "scan_one d (scan_reader buf s) = (y, r)" "y \<noteq> Inl InvalidResponse" "s_pos s \<le> length buf"
  obtains r2 where "scan_one d (scan_reader (buf @ t) s) = (y, r2)" "r_pos r2 = r_pos r"
proof -
  have "extends t (scan_reader buf s) (scan_reader (buf @ t) s)" by (simp add: extends_def scan_reader_def)
  from element.final[OF _ this assms(1,2)] assms(3) show ?thesis using that by (auto simp: extends_def)
qed

lemma scan_reply_final:
  assumes "scan_reply buf s = (x, s')" "x \<noteq> Inr NeedMoreData" "s_pos s \<le> length buf"
  shows "scan_reply (buf @ t) s = (x, s')"
  using assms
proof (induction s rule: scan_reply_induct[where buf = buf])
  case (1 s)
  obtain y r where y: "scan_one (length (s_stack s)) (scan_reader buf s) = (y, r)"
    by (cases "scan_one (length (s_stack s)) (scan_reader buf s)")
  have "y \<noteq> Inl InvalidResponse" using 1(2,3) y scan_reply_Inl[of s buf] by auto
  from scan_one_final[OF y this 1(4)] obtain r2
    where r2: "scan_one (length (s_stack s)) (scan_reader (buf @ t) s) = (y, r2)" "r_pos r2 = r_pos r" .
  show ?case
  proof (cases y)
    case (Inl e)
    then show ?thesis using 1(2,3) y r2 by (auto simp: scan_reply_Inl split: if_splits)
  next
    case (Inr c)
    let ?k = "case c of None \<Rightarrow> 0 | Some n \<Rightarrow> n"
    have "go_on buf (r_pos r) ?k (s_stack s) = (x, s')" using 1(2) scan_reply_Inr[OF y[unfolded Inr]] by simp
    then have "go_on (buf @ t) (r_pos r) ?k (s_stack s) = (x, s')"
      using 1(1)[OF y[unfolded Inr] _ 1(3)] scan_one_inside[OF y[unfolded Inr]]
      by (cases rule: go_on_cases[of buf "r_pos r" ?k "s_stack s"]) auto
    then show ?thesis using scan_reply_Inr[OF r2(1)[unfolded Inr]] r2(2) by simp
  qed
qed


section \<open>Going on\<close>

text \<open>The scanner has looked for a line end in the bytes it will skip, and found none\<close>

definition scanned :: "bytes \<Rightarrow> ReplyScanner \<Rightarrow> bool" where
  "scanned buf s \<longleftrightarrow> s_pos s \<le> length buf \<and> (\<forall>i < s_crlf_skip s. i + 1 < length buf - (s_pos s + 1) \<and>
     \<not> line_end (drop (s_pos s + 1) buf) i)"

lemma scanned_scanning [simp]: "scanned buf (scanning pos st) \<longleftrightarrow> pos \<le> length buf"
  by (simp add: scanned_def)

lemma scanned_append: "scanned buf s \<Longrightarrow> scanned (buf @ t) s"
  by (auto simp: scanned_def line_end_append)

lemma read_until_crlf_skip:
  assumes "inside r" "\<forall>i < crlf_skip r. \<not> line_end (drop (r_pos r) (r_buffer r)) i"
  shows "read_until_crlf r = read_until_crlf (r\<lparr>crlf_skip := 0\<rparr>)"
proof -
  let ?b = "drop (r_pos r) (r_buffer r)" and ?l = "min (length (r_buffer r) - r_pos r) (MAX_LINE_LEN + 1)"
  have "crlf_from ?b ?l (crlf_skip r) = crlf_from ?b ?l 0"
  proof (cases "crlf_from ?b ?l 0")
    case None
    then have "crlf_from ?b ?l (crlf_skip r) = None" unfolding crlf_from_None_iff by simp
    then show ?thesis using None by simp
  next
    case (Some j)
    then have "crlf_from ?b ?l (crlf_skip r) = Some j" using assms(2) unfolding crlf_from_Some_iff by (metis le0 not_le)
    then show ?thesis using Some by simp
  qed
  then show ?thesis using assms(1) by (simp add: read_until_crlf_eq inside_def split: option.split)
qed

text \<open>Every element starts with a type byte and a line, and only the line depends on the bytes that are skipped\<close>

definition line_first :: "'a reading \<Rightarrow> bool" where
  "line_first m \<longleftrightarrow> (\<exists>f. m = next_do read_until_crlf f \<and> (\<forall>x. streaming_method (f x)))"

lemma line_first_next_do:
  "(\<And>x. streaming_method (f x)) \<Longrightarrow> line_first (next_do read_until_crlf f)"
  "(\<And>x. streaming_method (g x)) \<Longrightarrow> line_first (next_do read_integer g)"
proof -
  show "line_first (next_do read_until_crlf f)" if "\<And>x. streaming_method (f x)" using that by (auto simp: line_first_def)
  let ?f = "\<lambda>str. next_do (case parse_int 64 str 10 of Inl _ \<Rightarrow> throw InvalidInteger | Inr n \<Rightarrow> ok_with n) g"
  assume g: "\<And>x. streaming_method (g x)"
  have "next_do read_integer g = next_do read_until_crlf ?f"
    by (auto simp: fun_eq_iff next_do_def read_integer_def split: prod.splits sum.splits)
  moreover have "streaming_method (?f str)" for str using g by (auto intro!: streaming_basic split: sum.split)
  ultimately show "line_first (next_do read_integer g)" by (auto simp: line_first_def)
qed

lemma scan_typed_line: "line_first (scan_typed d ty) \<or> scan_typed d ty = throw NestingDepthExceeded"
  by (cases ty) (auto simp: scan_typed_def scan_blob_def scan_aggregate_def Let_def
    intro!: line_first_next_do streaming_basic streaming_scan_payload)

lemma scan_one_skip:
  assumes "scanned buf s"
  shows "\<exists>x r r0. scan_one d (scan_reader buf s) = (x, r) \<and>
    scan_one d (scan_reader buf (scanning (s_pos s) (s_stack s))) = (x, r0) \<and> r_pos r = r_pos r0"
proof (cases "s_pos s < length buf")
  case False
  then show ?thesis by (simp add: scan_one_def next_do_def read_byte_def scan_reader_def)
next
  case True
  let ?r = "(scan_reader buf s)\<lparr>r_pos := s_pos s + 1\<rparr>"
  show ?thesis
  proof (cases "from_byte (buf ! s_pos s)")
    case None
    then show ?thesis using True by (simp add: scan_one_def next_do_def read_byte_def scan_reader_def throw_def)
  next
    case (Some ty)
    have "read_until_crlf ?r = read_until_crlf (?r\<lparr>crlf_skip := 0\<rparr>)"
      using assms True by (intro read_until_crlf_skip) (auto simp: scanned_def scan_reader_def inside_def)
    then have "scan_typed d ty ?r = scan_typed d ty (?r\<lparr>crlf_skip := 0\<rparr>) \<or> scan_typed d ty = throw NestingDepthExceeded"
      using scan_typed_line[of d ty] by (auto simp: next_do_def line_first_def)
    then have "\<exists>x r r0. scan_typed d ty ?r = (x, r) \<and> scan_typed d ty (?r\<lparr>crlf_skip := 0\<rparr>) = (x, r0) \<and> r_pos r = r_pos r0"
      by (cases "scan_typed d ty (?r\<lparr>crlf_skip := 0\<rparr>)") (auto simp: throw_def)
    then show ?thesis using True Some by (auto simp: scan_one_def next_do_def read_byte_def scan_reader_def)
  qed
qed

text \<open>Two scans with the same outcome, and the same state if there was no error\<close>

definition same_scan :: "(RedisError + ScanResult) \<times> ReplyScanner \<Rightarrow> (RedisError + ScanResult) \<times> ReplyScanner \<Rightarrow> bool" where
  "same_scan a b \<longleftrightarrow> fst a = fst b \<and> (isl (fst a) \<or> snd a = snd b)"

lemma scan_reply_skip:
  assumes "scanned buf s"
  shows "same_scan (scan_reply buf s) (scan_reply buf (scanning (s_pos s) (s_stack s)))"
proof -
  obtain x r r0 where x: "scan_one (length (s_stack s)) (scan_reader buf s) = (x, r)"
    "scan_one (length (s_stack s)) (scan_reader buf (scanning (s_pos s) (s_stack s))) = (x, r0)" "r_pos r = r_pos r0"
    using scan_one_skip[OF assms] by blast
  show ?thesis
    using x by (cases x; cases s) (simp_all add: same_scan_def scan_reply_Inl scan_reply_Inr)
qed

lemma read_until_crlf_advances: "read_until_crlf r = (Inr x, r') \<Longrightarrow> inside r \<Longrightarrow> r_pos r + 2 \<le> r_pos r'"
  by (auto simp: read_until_crlf_eq split: option.splits)

lemma no_line_end:
  assumes "scan_one d (scan_reader buf s) = (Inl InvalidResponse, r)" "r_pos r = s_pos s + 1" "scanned buf s"
  shows "\<not> line_end (drop (s_pos s + 1) buf) i"
proof -
  let ?r0 = "scan_reader buf (scanning (s_pos s) (s_stack s))"
  obtain r' where r': "scan_one d ?r0 = (Inl InvalidResponse, r')" "r_pos r' = s_pos s + 1"
    using scan_one_skip[OF assms(3), of d] assms(1,2) by auto
  let ?r1 = "?r0\<lparr>r_pos := s_pos s + 1\<rparr>"
  have l: "s_pos s < length buf"
    using r' by (auto simp: scan_one_def next_do_def read_byte_def scan_reader_def split: if_splits)
  then have i: "inside ?r1" by (simp add: inside_def scan_reader_def)
  obtain ty where "scan_typed d ty ?r1 = (Inl InvalidResponse, r')"
    using r'(1) l by (auto simp: scan_one_def next_do_def read_byte_def scan_reader_def throw_def split: option.splits)
  then obtain f :: "bytes \<Rightarrow> nat option reading" where f: "next_do read_until_crlf f ?r1 = (Inl InvalidResponse, r')" and "\<forall>x. streaming_method (f x)"
    using scan_typed_line[of d ty] by (auto simp: line_first_def)
  then have fs: "\<And>x. streaming_method (f x)" by blast
  have "\<exists>r2. read_until_crlf ?r1 = (Inl InvalidResponse, r2)"
  proof (rule ccontr)
    assume "\<nexists>r2. read_until_crlf ?r1 = (Inl InvalidResponse, r2)"
    with f obtain x r2 where x: "read_until_crlf ?r1 = (Inr x, r2)" "f x r2 = (Inl InvalidResponse, r')"
      by (auto simp: next_do_Inl)
    have "r_pos r2 > s_pos s + 1" "inside r2"
      using read_until_crlf_advances[OF x(1) i] streaming_method.stays_inside[OF streaming_read_until_crlf i x(1)] by simp_all
    then show False using streaming_method.stays_inside[OF fs _ x(2)] r'(2) by auto
  qed
  then have "crlf_from (drop (s_pos s + 1) buf) (length buf - (s_pos s + 1)) 0 = None"
    using i by (auto simp: read_until_crlf_eq scan_reader_def split: option.splits if_splits)
  then show ?thesis by (auto simp: crlf_from_None_iff line_end_def)
qed

lemma scanned_after:
  assumes "scan_reply buf s = (Inr NeedMoreData, s')" "scanned buf s"
  shows "scanned buf s'"
  using assms
proof (induction s rule: scan_reply_induct[where buf = buf])
  case (1 s)
  obtain y r where y: "scan_one (length (s_stack s)) (scan_reader buf s) = (y, r)"
    by (cases "scan_one (length (s_stack s)) (scan_reader buf s)")
  show ?case
  proof (cases y)
    case (Inl e)
    then have e: "e = InvalidResponse" using 1(2) y by (auto simp: scan_reply_Inl split: if_splits)
    from no_line_end[OF y[unfolded Inl e] _ 1(3)] 1(2,3) y show ?thesis
      by (cases "r_pos r = s_pos s + 1") (auto simp: Inl e scan_reply_Inl scanned_def)
  next
    case (Inr c)
    with y scan_one_inside have "r_pos r \<le> length buf" by blast
    then show ?thesis
      using 1(1)[OF y[unfolded Inr]] 1(2) scan_reply_Inr[OF y[unfolded Inr]]
      by (cases rule: go_on_cases[of buf "r_pos r" "case c of None \<Rightarrow> 0 | Some n \<Rightarrow> n" "s_stack s"]) auto
  qed
qed

text \<open>Going on with more bytes is the same as a scan of all bytes from the start\<close>

lemma same_scan_trans [trans]: "same_scan a b \<Longrightarrow> same_scan b c \<Longrightarrow> same_scan a c"
  by (auto simp: same_scan_def)

lemma same_scan_sym: "same_scan a b \<Longrightarrow> same_scan b a"
  by (auto simp: same_scan_def)

lemma scan_reply_go_on:
  assumes "scan_reply buf s = (Inr NeedMoreData, s')" "scanned buf s"
  shows "same_scan (scan_reply (buf @ t) s') (scan_reply (buf @ t) s)"
  using assms
proof (induction s rule: scan_reply_induct[where buf = buf])
  case (1 s)
  obtain y r where y: "scan_one (length (s_stack s)) (scan_reader buf s) = (y, r)"
    by (cases "scan_one (length (s_stack s)) (scan_reader buf s)")
  show ?case
  proof (cases y)
    case (Inl e)
    then have e: "s_pos s' = s_pos s" "s_stack s' = s_stack s" using 1(2) y by (auto simp: scan_reply_Inl split: if_splits)
    have "same_scan (scan_reply (buf @ t) s') (scan_reply (buf @ t) (scanning (s_pos s) (s_stack s)))"
      using scan_reply_skip[OF scanned_append[OF scanned_after[OF 1(2,3)]]] e by simp
    also have "same_scan (scan_reply (buf @ t) (scanning (s_pos s) (s_stack s))) (scan_reply (buf @ t) s)"
      using scan_reply_skip[OF scanned_append[OF 1(3)]] by (rule same_scan_sym)
    finally show ?thesis .
  next
    case (Inr c)
    let ?k = "case c of None \<Rightarrow> 0 | Some n \<Rightarrow> n"
    have p: "r_pos r \<le> length buf" using y Inr scan_one_inside by blast
    obtain r2 where r2: "scan_one (length (s_stack s)) (scan_reader (buf @ t) s) = (y, r2)" "r_pos r2 = r_pos r"
      using scan_one_final[OF y, of t] Inr 1(3) by (auto simp: scanned_def)
    have "same_scan (scan_reply (buf @ t) s') (go_on (buf @ t) (r_pos r) ?k (s_stack s))"
      using 1(1)[OF y[unfolded Inr]] 1(2) p scan_reply_Inr[OF y[unfolded Inr]]
      by (cases rule: go_on_cases[of buf "r_pos r" ?k "s_stack s"]) auto
    then show ?thesis using scan_reply_Inr[OF r2(1)[unfolded Inr]] r2(2) by simp
  qed
qed

end
