(* ===== verification/RespCommand.thy ===== *)
theory RespCommand
  imports RespStream SemverRoundTrip
begin

text \<open>
  Commands and their form on the wire, \<^verbatim>\<open>src/runtime/valkey_jsc/ValkeyCommand.rs\<close>, and the kinds of the push messages
  that answer a subscription, \<^verbatim>\<open>SubscriptionPushMessage\<close> of \<^verbatim>\<open>src/valkey/valkey_protocol.rs\<close>. A command is sent as an array
  of bulk strings, and the lemmas show that the reader of replies gives back exactly the name and the arguments.
  An argument stands for the bytes that its \<^verbatim>\<open>slice\<close> method returns.
\<close>

unbundle bit_operations_syntax

section \<open>Metadata\<close>

type_synonym Meta = "8 word"

definition RETURN_AS_BOOL :: Meta where "RETURN_AS_BOOL = 1"
definition SUPPORTS_AUTO_PIPELINING :: Meta where "SUPPORTS_AUTO_PIPELINING = 2"
definition RETURN_AS_BUFFER :: Meta where "RETURN_AS_BUFFER = 4"
definition SUBSCRIPTION_REQUEST :: Meta where "SUBSCRIPTION_REQUEST = 8"

definition meta_default :: Meta where
  "meta_default = SUPPORTS_AUTO_PIPELINING"

text \<open>The operations of \<^verbatim>\<open>bitflags\<close>\<close>

definition meta_contains :: "Meta \<Rightarrow> Meta \<Rightarrow> bool" where
  "meta_contains m flag \<longleftrightarrow> m AND flag = flag"

definition meta_insert :: "Meta \<Rightarrow> Meta \<Rightarrow> Meta" where
  "meta_insert m flag = m OR flag"

definition meta_remove :: "Meta \<Rightarrow> Meta \<Rightarrow> Meta" where
  "meta_remove m flag = m AND NOT flag"

definition meta_set :: "Meta \<Rightarrow> Meta \<Rightarrow> bool \<Rightarrow> Meta" where
  "meta_set m flag b = (if b then meta_insert m flag else meta_remove m flag)"

section \<open>Commands\<close>

datatype Args = Slices "bytes list" | ArgList "bytes list" | Raw "bytes list"

record Command =
  cmd_name :: bytes
  cmd_args :: Args
  cmd_meta :: Meta

fun args_len :: "Args \<Rightarrow> nat" where
  "args_len (Slices args) = length args"
| "args_len (ArgList args) = length args"
| "args_len (Raw args) = length args"

definition CRLF :: bytes where
  "CRLF = [CHR 0x0D, CHR 0x0A]"

definition write_bulk :: "bytes \<Rightarrow> bytes" where
  "write_bulk str = ''$'' @ decimal (length str) @ CRLF @ str @ CRLF"

fun write_args :: "Args \<Rightarrow> bytes" where
  "write_args (Slices args) = concat (map write_bulk args)"
| "write_args (ArgList args) = concat (map write_bulk args)"
| "write_args (Raw args) = concat (map write_bulk args)"

definition command_write :: "Command \<Rightarrow> bytes" where
  "command_write c = ''*'' @ decimal (1 + args_len (cmd_args c)) @ CRLF @ write_bulk (cmd_name c) @ write_args (cmd_args c)"

definition byte_length :: "Command \<Rightarrow> nat" where
  "byte_length c = length (command_write c)"

definition serialize :: "Command \<Rightarrow> bytes" where
  "serialize c = command_write c"

definition AUTO_PIPELINE_DISALLOWED_COMMANDS :: "bytes list" where
  "AUTO_PIPELINE_DISALLOWED_COMMANDS =
     [''AUTH'', ''EXEC'', ''INFO'', ''QUIT'', ''MULTI'', ''WATCH'', ''SCRIPT'', ''SELECT'', ''CLUSTER'', ''DISCARD'',
      ''UNWATCH'', ''PIPELINE'', ''SUBSCRIBE'', ''PSUBSCRIBE'', ''UNSUBSCRIBE'', ''UNPSUBSCRIBE'']"

text \<open>\<^verbatim>\<open>eql_case_insensitive_ascii\<close> with its length check; the comparison itself is the C library's \<^verbatim>\<open>strncasecmp\<close>\<close>

definition eql_case_insensitive_ascii :: "bytes \<Rightarrow> bytes \<Rightarrow> bool" where
  "eql_case_insensitive_ascii a b \<longleftrightarrow> length a = length b \<and> map to_ascii_lowercase a = map to_ascii_lowercase b"

definition is_subscription_command :: "bytes \<Rightarrow> bool" where
  "is_subscription_command name \<longleftrightarrow>
     list_ex (eql_case_insensitive_ascii name)
       [''SUBSCRIBE'', ''PSUBSCRIBE'', ''SSUBSCRIBE'', ''UNSUBSCRIBE'', ''PUNSUBSCRIBE'', ''SUNSUBSCRIBE'']"

definition meta_check :: "Meta \<Rightarrow> Command \<Rightarrow> Meta" where
  "meta_check m c =
     (let new = meta_set m SUPPORTS_AUTO_PIPELINING (cmd_name c \<notin> set AUTO_PIPELINE_DISALLOWED_COMMANDS)
      in if is_subscription_command (cmd_name c) then meta_insert new SUBSCRIPTION_REQUEST else new)"

section \<open>Push messages\<close>

datatype SubscriptionPushMessage = Message | Subscribe | Unsubscribe | PatternMessage

definition SUBSCRIPTION_PUSH_MESSAGES :: "(bytes \<times> SubscriptionPushMessage) list" where
  "SUBSCRIPTION_PUSH_MESSAGES = [(''message'', Message), (''subscribe'', Subscribe), (''unsubscribe'', Unsubscribe)]"

definition push_from_bytes :: "bytes \<Rightarrow> SubscriptionPushMessage option" where
  "push_from_bytes bytes =
     (case map_of SUBSCRIPTION_PUSH_MESSAGES bytes of
        Some kind \<Rightarrow> Some kind
      | None \<Rightarrow>
          (case bytes of
             [] \<Rightarrow> None
           | c # base \<Rightarrow>
               if c = CHR ''p'' \<or> c = CHR ''s'' then
                 (case map_of SUBSCRIPTION_PUSH_MESSAGES base of
                    Some Subscribe \<Rightarrow> Some Subscribe
                  | Some Unsubscribe \<Rightarrow> Some Unsubscribe
                  | Some Message \<Rightarrow> Some PatternMessage
                  | _ \<Rightarrow> None)
               else None))"

definition is_reply_kind :: "bytes \<Rightarrow> bool" where
  "is_reply_kind kind =
     (case kind of
        [] \<Rightarrow> False
      | c # base \<Rightarrow> (c = CHR ''p'' \<or> c = CHR ''s'') \<and> push_from_bytes base \<in> {Some Subscribe, Some Unsubscribe})"

section \<open>A command is read back\<close>

fun args_list :: "Args \<Rightarrow> bytes list" where
  "args_list (Slices args) = args"
| "args_list (ArgList args) = args"
| "args_list (Raw args) = args"

lemma write_args_eq: "write_args a = concat (map write_bulk (args_list a))" "args_len a = length (args_list a)"
  by (cases a; simp)+

lemma length_decimal: "0 < k \<Longrightarrow> n < 10 ^ k \<Longrightarrow> length (decimal n) \<le> k"
proof (induction n arbitrary: k rule: decimal.induct)
  case (1 n)
  show ?case
  proof (cases "n < 10")
    case True
    then show ?thesis using 1(2) by (subst decimal.simps) simp
  next
    case False
    then obtain j where j: "k = Suc j" "0 < j" using 1(2,3) by (cases k; cases "k - 1") auto
    then have "n div 10 < 10 ^ j" using 1(3) by (simp add: less_mult_imp_div_less mult.commute)
    then show ?thesis using 1(1)[OF False j(2)] j False by (subst decimal.simps) simp
  qed
qed

lemma decimal_line:
  assumes "n < 2 ^ 63"
  shows "length (decimal n) \<le> MAX_LINE_LEN" "CHR 0x0D \<notin> set (decimal n)"
proof -
  have "n < 10 ^ 19" using assms by simp
  then show "length (decimal n) \<le> MAX_LINE_LEN" using length_decimal[of 19 n] by (simp add: MAX_LINE_LEN_def MAX_BULK_LEN_def)
  show "CHR 0x0D \<notin> set (decimal n)"
    using decimal_digits[of n] by (auto simp: list_all_iff is_ascii_digit_def less_eq_char_def)
qed

lemma parse_int_decimal:
  assumes "n < 2 ^ 63"
  shows "parse_int 64 (decimal n) 10 = Inr (int n)"
proof -
  have d: "list_all is_ascii_digit (decimal n)" "decimal n \<noteq> []" using decimal_digits by auto
  have n: "c \<notin> set (decimal n)" if "\<not> is_ascii_digit c" for c using d(1) that by (auto simp: list_all_iff)
  have "hd (decimal n) \<noteq> c" "last (decimal n) \<noteq> c" if "\<not> is_ascii_digit c" for c
    using n[OF that] d(2) hd_in_set last_in_set by metis+
  moreover have "parse_digits 10 0 (decimal n) = Inr n" using assms by (intro parse_decimal) simp
  ultimately show ?thesis
    using d(2) assms by (simp add: parse_int_def auto_radix_def parse_with_sign_def is_ascii_digit_def less_eq_char_def)
qed

lemma read_line:
  assumes "drop (r_pos r) (r_buffer r) = line @ CRLF @ rest" "CHR 0x0D \<notin> set line" "length line \<le> MAX_LINE_LEN" "crlf_skip r = 0"
  shows "read_until_crlf r = (Inr line, r\<lparr>r_pos := r_pos r + length line + 2\<rparr>)"
proof -
  let ?b = "drop (r_pos r) (r_buffer r)"
  have len: "length (r_buffer r) - r_pos r = length line + 2 + length rest"
    using arg_cong[OF assms(1), of length] by (simp add: CRLF_def)
  have "\<not> line_end ?b k" if "k < length line" for k
  proof -
    have "line ! k \<noteq> CHR 0x0D" using assms(2) nth_mem[OF that] by metis
    then show ?thesis using that by (simp add: assms(1) line_end_def nth_append)
  qed
  then have "crlf_from ?b (min (length (r_buffer r) - r_pos r) (MAX_LINE_LEN + 1)) 0 = Some (length line)"
    unfolding crlf_from_Some_iff using assms(3) len by (auto simp: assms(1) line_end_def nth_append CRLF_def)
  moreover have "inside r" using len by (simp add: inside_def)
  ultimately show ?thesis using assms(1,4) by (simp add: read_until_crlf_eq)
qed


lemma read_number:
  assumes "drop (r_pos r) (r_buffer r) = decimal n @ CRLF @ rest" "n < 2 ^ 63" "crlf_skip r = 0"
  shows "read_integer r = (Inr (int n), r\<lparr>r_pos := r_pos r + length (decimal n) + 2\<rparr>)"
  using read_line[OF assms(1) decimal_line(2,1)[OF assms(2)] assms(3)] parse_int_decimal[OF assms(2)]
  by (simp add: read_integer_Inr)

lemma read_byte_Cons:
  assumes "drop (r_pos r) (r_buffer r) = c # rest"
  shows "read_byte r = (Inr c, r\<lparr>r_pos := r_pos r + 1\<rparr>)"
proof -
  have "r_pos r < length (r_buffer r)" using assms by (metis drop_all list.distinct(1) not_le)
  then show ?thesis using assms by (simp add: read_byte_def nth_via_drop)
qed

text \<open>After a part of the text, the reader is at the rest of it\<close>

lemma drop_at:
  assumes "drop k xs = a @ b"
  shows "drop (k + length a) xs = b" "drop (length a + k) xs = b"
  using arg_cong[OF assms, of "drop (length a)"] by (simp_all add: add.commute)

lemma read_bulk:
  assumes at: "drop (r_pos r) (r_buffer r) = write_bulk str @ rest" and "int (length str) \<le> MAX_BULK_LEN" "crlf_skip r = 0"
  shows "read_value_with_depth p d r = (Inr (RBulkString (Some str)), r\<lparr>r_pos := r_pos r + length (write_bulk str)\<rparr>)"
proof -
  have l: "length str < 2 ^ 63" using assms(2) by (simp add: MAX_BULK_LEN_def)
  have b: "drop (r_pos r) (r_buffer r) = CHR ''$'' # decimal (length str) @ CRLF @ str @ CRLF @ rest"
    using at by (simp add: write_bulk_def)
  let ?r1 = "r\<lparr>r_pos := r_pos r + 1\<rparr>" and ?n = "r_pos r + 1 + length (decimal (length str)) + 2"
  have d1: "drop (r_pos ?r1) (r_buffer ?r1) = decimal (length str) @ CRLF @ str @ CRLF @ rest"
    using drop_at(1)[of "r_pos r" _ "''$''"] b by simp
  have n: "read_integer ?r1 = (Inr (int (length str)), r\<lparr>r_pos := ?n\<rparr>)"
    using read_number[OF d1 l] assms(3) by simp
  have d2: "drop ?n (r_buffer r) = str @ CRLF @ rest"
    using drop_at(1)[of "r_pos r + 1" _ "decimal (length str) @ CRLF"] d1 by (simp add: CRLF_def add.assoc)
  have d3: "drop (?n + length str) (r_buffer r) = [] @ CRLF @ rest" using drop_at(1)[OF d2] by simp
  have "?n + length str \<le> length (r_buffer r)" using d3 by (metis CRLF_def append_Nil append_is_Nil_conv drop_all list.distinct(1) nat_le_linear)
  moreover have "take (length str) (drop ?n (r_buffer r)) = str" using d2 by simp
  moreover have "read_until_crlf (r\<lparr>r_pos := ?n + length str\<rparr>) = (Inr [], r\<lparr>r_pos := ?n + length str + 2\<rparr>)"
    using read_line[of "r\<lparr>r_pos := ?n + length str\<rparr>" "[]" rest] d3 assms(3) by simp
  ultimately have "read_payload InvalidBulkString (length str) (r\<lparr>r_pos := ?n\<rparr>) = (Inr str, r\<lparr>r_pos := ?n + length str + 2\<rparr>)"
    by (simp add: read_payload_def next_do_def ok_with_def)
  moreover have "length (write_bulk str) = length (decimal (length str)) + length str + 5" by (simp add: write_bulk_def CRLF_def)
  ultimately show ?thesis
    using n assms(2) read_byte_Cons[OF b]
    by (subst read_value_with_depth.simps)
      (simp add: next_do_def from_byte_def read_typed.simps ok_with_def ac_simps)
qed

lemma read_bulks:
  assumes "drop (r_pos r) (r_buffer r) = concat (map write_bulk strs) @ rest"
    and "\<forall>str \<in> set strs. int (length str) \<le> MAX_BULK_LEN" "crlf_skip r = 0"
  shows "read_values p (length strs) d r =
    (Inr (map (\<lambda>str. RBulkString (Some str)) strs), r\<lparr>r_pos := r_pos r + length (concat (map write_bulk strs))\<rparr>)"
  using assms
proof (induction strs arbitrary: r)
  case (Cons str strs)
  let ?r1 = "r\<lparr>r_pos := r_pos r + length (write_bulk str)\<rparr>"
  have at: "drop (r_pos r) (r_buffer r) = write_bulk str @ concat (map write_bulk strs) @ rest" using Cons(2) by simp
  have "read_value_with_depth p d r = (Inr (RBulkString (Some str)), ?r1)"
    using Cons(3,4) by (intro read_bulk[OF at]) auto
  moreover have "read_values p (length strs) d ?r1 = (Inr (map (\<lambda>str. RBulkString (Some str)) strs),
      ?r1\<lparr>r_pos := r_pos ?r1 + length (concat (map write_bulk strs))\<rparr>)"
    using drop_at(1)[OF at] Cons(3,4) by (intro Cons(1)) auto
  ultimately show ?case by (simp add: next_do_def ok_with_def add.assoc)
qed (simp add: ok_with_def)

lemma read_command:
  assumes "cmd = cmd_name c # args_list (cmd_args c)" "length cmd < 2 ^ 63" "\<forall>str \<in> set cmd. int (length str) \<le> MAX_BULK_LEN"
  shows "\<exists>r. read_value p (reader_init (serialize c @ rest)) = (Inr (RArray (map (\<lambda>str. RBulkString (Some str)) cmd)), r) \<and>
    r_pos r = length (serialize c)"
proof -
  let ?r = "(reader_init (serialize c @ rest))" and ?n = "length (decimal (length cmd)) + 3"
  have s: "serialize c = ''*'' @ decimal (length cmd) @ CRLF @ concat (map write_bulk cmd)"
    using assms(1) by (simp add: serialize_def command_write_def write_args_eq)
  have b: "drop (r_pos ?r) (r_buffer ?r) = CHR ''*'' # decimal (length cmd) @ CRLF @ concat (map write_bulk cmd) @ rest"
    by (simp add: reader_init_def s)
  have n: "read_integer (?r\<lparr>r_pos := 1\<rparr>) = (Inr (int (length cmd)), ?r\<lparr>r_pos := ?n\<rparr>)"
    using read_number[of "?r\<lparr>r_pos := 1\<rparr>" "length cmd" "concat (map write_bulk cmd) @ rest"] b assms(2)
    by (simp add: reader_init_def s)
  have "drop ?n (serialize c @ rest) = concat (map write_bulk cmd) @ rest"
    using drop_at(1)[of 0 "serialize c @ rest" "''*'' @ decimal (length cmd) @ CRLF"] by (simp add: s CRLF_def eval_nat_numeral)
  then have "read_values p (length cmd) 1 (?r\<lparr>r_pos := ?n, prealloc_budget := m\<rparr>) =
      (Inr (map (\<lambda>str. RBulkString (Some str)) cmd), ?r\<lparr>r_pos := ?n + length (concat (map write_bulk cmd)), prealloc_budget := m\<rparr>)" for m
    using read_bulks[of "?r\<lparr>r_pos := ?n, prealloc_budget := m\<rparr>" cmd rest p 1] assms(3) by (simp add: reader_init_def)
  moreover have "length (serialize c) = ?n + length (concat (map write_bulk cmd))" by (simp add: s CRLF_def)
  ultimately show ?thesis
    using n read_byte_Cons[OF b]
    by (simp add: read_value_def read_value_with_depth.simps[of p 0] next_do_def from_byte_def read_typed.simps reserve_eq ok_with_def
      reader_init_def MAX_NESTING_DEPTH_def)
qed


section \<open>Properties\<close>

definition example_platform :: "nat platform" where
  "example_platform = \<lparr>parse_f64 = (\<lambda>_. None), f64_infinity = 0, f64_neg_infinity = 0, f64_nan = 0, size_of_value = 32, size_of_entry = 64\<rparr>"

text \<open>C15. A command that is sent is an array of bulk strings that a reader of the protocol takes apart into exactly the name and the
  arguments, byte for byte, and it stops behind it, whatever follows: no argument can be read as a part of the protocol.\<close>

theorem command_roundtrip:
  assumes "cmd = cmd_name c # args_list (cmd_args c)" "length cmd < 2 ^ 63" "\<forall>str \<in> set cmd. int (length str) \<le> MAX_BULK_LEN"
  shows "\<exists>r. read_value p (reader_init (serialize c @ rest)) = (Inr (RArray (map (\<lambda>str. RBulkString (Some str)) cmd)), r) \<and>
    r_pos r = byte_length c"
  using read_command[OF assms, of p rest] by (simp add: byte_length_def serialize_def)

theorem command_roundtrip_witness:
  "\<exists>r. read_value example_platform (reader_init (serialize \<lparr>cmd_name = ''GET'', cmd_args = Raw [[CHR 0x0D, CHR 0x0A]], cmd_meta = 0\<rparr> @ ''x'')) =
    (Inr (RArray [RBulkString (Some ''GET''), RBulkString (Some [CHR 0x0D, CHR 0x0A])]), r) \<and>
    r_pos r = byte_length \<lparr>cmd_name = ''GET'', cmd_args = Raw [[CHR 0x0D, CHR 0x0A]], cmd_meta = 0\<rparr>"
  using command_roundtrip[of "[''GET'', [CHR 0x0D, CHR 0x0A]]" "\<lparr>cmd_name = ''GET'', cmd_args = Raw [[CHR 0x0D, CHR 0x0A]], cmd_meta = 0\<rparr>"
    example_platform "''x''"]
  by (simp add: MAX_BULK_LEN_def)

text \<open>The list of commands that must not be pipelined names one that does not exist, so that the one it means is pipelined\<close>

lemma punsubscribe_is_pipelined:
  "meta_contains (meta_check meta_default \<lparr>cmd_name = ''PUNSUBSCRIBE'', cmd_args = Raw [], cmd_meta = meta_default\<rparr>) SUPPORTS_AUTO_PIPELINING \<and>
   \<not> meta_contains (meta_check meta_default \<lparr>cmd_name = ''PSUBSCRIBE'', cmd_args = Raw [], cmd_meta = meta_default\<rparr>) SUPPORTS_AUTO_PIPELINING"
  by (simp add: meta_check_def meta_set_def meta_insert_def meta_remove_def meta_contains_def meta_default_def SUPPORTS_AUTO_PIPELINING_def
    SUBSCRIPTION_REQUEST_def AUTO_PIPELINE_DISALLOWED_COMMANDS_def is_subscription_command_def eql_case_insensitive_ascii_def)

end
