(* ===== verification/OffsetByteList.thy ===== *)
theory OffsetByteList
  imports Bun_Prelude
begin

text \<open>
  The byte queue \<^verbatim>\<open>OffsetByteList\<close> of \<^verbatim>\<open>src/collections/vec_ext.rs\<close>: a vector that is written at its end and consumed at its
  front by moving an offset, which is compacted when the consumed part is at least as long as the rest. It implements
  a plain sequence of bytes.
\<close>

record OffsetByteList =
  byte_list :: bytes
  obl_head :: nat

definition obl_default :: OffsetByteList where
  "obl_default = \<lparr>byte_list = [], obl_head = 0\<rparr>"

definition obl_write :: "bytes \<Rightarrow> OffsetByteList \<Rightarrow> OffsetByteList" where
  "obl_write bytes b = b\<lparr>byte_list := byte_list b @ bytes\<rparr>"

definition obl_remaining :: "OffsetByteList \<Rightarrow> bytes" where
  "obl_remaining b = drop (obl_head b) (byte_list b)"

definition obl_consume :: "nat \<Rightarrow> OffsetByteList \<Rightarrow> OffsetByteList" where
  "obl_consume n b =
     (let head = obl_head b + n
      in if head \<ge> length (byte_list b) then b\<lparr>obl_head := 0, byte_list := []\<rparr>
         else if head \<ge> length (byte_list b) - head then b\<lparr>byte_list := drop head (byte_list b), obl_head := 0\<rparr>
         else b\<lparr>obl_head := head\<rparr>)"

definition obl_len :: "OffsetByteList \<Rightarrow> nat" where
  "obl_len b = length (byte_list b) - obl_head b"

definition obl_clear_and_free :: "OffsetByteList \<Rightarrow> OffsetByteList" where
  "obl_clear_and_free b = obl_default"

section \<open>A queue of bytes\<close>

definition obl_ok :: "OffsetByteList \<Rightarrow> bool" where
  "obl_ok b \<longleftrightarrow> obl_head b \<le> length (byte_list b)"

locale byte_queue =
  fixes ok_queue :: "'q \<Rightarrow> bool" and contents :: "'q \<Rightarrow> bytes"
    and write_queue :: "bytes \<Rightarrow> 'q \<Rightarrow> 'q" and consume_queue :: "nat \<Rightarrow> 'q \<Rightarrow> 'q" and clear_queue :: "'q \<Rightarrow> 'q"
  assumes contents_write: "ok_queue q \<Longrightarrow> contents (write_queue bs q) = contents q @ bs"
    and contents_consume: "contents (consume_queue n q) = drop n (contents q)"
    and contents_clear: "contents (clear_queue q) = []"
    and write_ok: "ok_queue q \<Longrightarrow> ok_queue (write_queue bs q)"
    and consume_ok: "ok_queue q \<Longrightarrow> ok_queue (consume_queue n q)"
    and clear_ok: "ok_queue (clear_queue q)"
begin

text \<open>What is written is what comes out, in order: a run of writes and of consumption of prefixes\<close>

fun run_queue :: "(bytes + nat) list \<Rightarrow> 'q \<Rightarrow> 'q" where
  "run_queue [] q = q"
| "run_queue (Inl bs # ops) q = run_queue ops (write_queue bs q)"
| "run_queue (Inr n # ops) q = run_queue ops (consume_queue n q)"

fun written :: "(bytes + nat) list \<Rightarrow> bytes" where
  "written [] = []"
| "written (Inl bs # ops) = bs @ written ops"
| "written (Inr n # ops) = written ops"

fun consumed :: "(bytes + nat) list \<Rightarrow> nat" where
  "consumed [] = 0"
| "consumed (Inl bs # ops) = consumed ops"
| "consumed (Inr n # ops) = n + consumed ops"

fun within :: "(bytes + nat) list \<Rightarrow> nat \<Rightarrow> bool" where
  "within [] len = True"
| "within (Inl bs # ops) len = within ops (len + length bs)"
| "within (Inr n # ops) len = (n \<le> len \<and> within ops (len - n))"

lemma run_queue_contents:
  "ok_queue q \<Longrightarrow> within ops (length (contents q)) \<Longrightarrow>
     ok_queue (run_queue ops q) \<and> contents (run_queue ops q) = drop (consumed ops) (contents q @ written ops)"
  by (induction ops q rule: run_queue.induct)
    (auto simp: contents_write contents_consume write_ok consume_ok add.commute)

end

interpretation obl: byte_queue obl_ok obl_remaining obl_write obl_consume obl_clear_and_free
  by unfold_locales
    (auto simp: obl_ok_def obl_remaining_def obl_write_def obl_consume_def obl_clear_and_free_def obl_default_def Let_def add.commute)

lemma obl_len_eq: "obl_len b = length (obl_remaining b)"
  by (simp add: obl_len_def obl_remaining_def)

end
