(* ===== verification/ValkeyClient.thy ===== *)
theory ValkeyClient
  imports RespCommand OffsetByteList
begin

text \<open>
  The connection of the Valkey client, \<^verbatim>\<open>ValkeyClient\<close> of \<^verbatim>\<open>src/runtime/valkey_jsc/valkey.rs\<close>: commands wait in a queue, are
  put in flight when their bytes go to the write buffer or the socket, and the replies that arrive are paired with
  the commands in flight in order. A buffer stands for what its \<^verbatim>\<open>remaining\<close> method returns (\<^verbatim>\<open>OffsetByteList\<close>
  refines it). A promise is a number; the outcomes of settled promises are a list. The script's own code runs when the
  event loop scope is left after a reply; it is a parameter that says which commands it sends then and whether it
  disconnects. Three fields are histories that the code does not keep: \<open>replies\<close>, the replies handled, \<open>placed\<close>, the
  commands put in flight on this connection with their bytes, and \<open>events\<close>, the calls of the script's handlers.
  Timers, the reference counts that keep the event loop alive, TLS handshakes, the promise of \<^verbatim>\<open>connect\<close> itself, a
  script that dials anew, replies that do not convert to JavaScript values and exceptions of a virtual machine that is
  being terminated are left out.
\<close>

section \<open>Data\<close>

datatype Status = NeverConnected | Disconnected | Connecting | Connected

record ConnectionFlags =
  is_manually_closed :: bool
  is_selecting_db_internal :: bool
  enable_offline_queue :: bool
  enable_auto_reconnect :: bool
  is_reconnecting :: bool
  failed :: bool
  enable_auto_pipelining :: bool
  finalized :: bool

definition flags_default :: ConnectionFlags where
  "flags_default = \<lparr>is_manually_closed = False, is_selecting_db_internal = False, enable_offline_queue = True,
     enable_auto_reconnect = True, is_reconnecting = False, failed = False, enable_auto_pipelining = True, finalized = False\<rparr>"

record Promise =
  pr_meta :: Meta
  pr_id :: nat

record PromisePair =
  pair_meta :: Meta
  pair_promise :: Promise

record Entry =
  serialized_data :: bytes
  entry_meta :: Meta
  entry_promise :: Promise

text \<open>How a promise was settled: by a reply, with the flag that asks for a buffer, by a number or undefined, or by an error\<close>

datatype 'f settlement =
    Resolved "'f RESPValue" bool | ResolvedNumber nat | ResolvedUndefined
  | RejectedReply "'f RESPValue" | Rejected bytes RedisError

text \<open>A socket with what it has taken; \<open>takes\<close> are the results of the next writes, which take all when it is empty\<close>

record Socket =
  sock_id :: nat
  sock_open :: bool
  sock_sent :: bytes
  sock_takes :: "int list"

definition detached :: Socket where
  "detached = \<lparr>sock_id = 0, sock_open = False, sock_sent = [], sock_takes = []\<rparr>"

datatype 'f notice = OnConnect "'f RESPValue" | OnMessage "'f RESPValue list" | OnClose | OnReconnect nat

record SubscriptionCtx =
  is_subscriber :: bool
  original_enable_offline_queue :: bool
  original_enable_auto_pipelining :: bool

record DeferredFailure =
  df_message :: bytes
  df_err :: RedisError
  df_in_flight :: "PromisePair list"
  df_queue :: "Entry list"

record 'f ValkeyClient =
  socket :: Socket
  status :: Status
  write_buffer :: bytes
  read_buffer :: bytes
  reply_scanner :: ReplyScanner
  in_flight :: "PromisePair list"
  queue :: "Entry list"
  username :: bytes
  password :: bytes
  database :: nat
  retry_attempts :: nat
  max_retries :: nat
  flags :: ConnectionFlags
  flusher_registered :: bool
  subscription :: SubscriptionCtx
  receive_handlers :: nat
  context_stopped :: bool
  deferred :: "DeferredFailure list"
  next_promise :: nat
  settled :: "(nat \<times> 'f settlement) list"
  replies :: "'f RESPValue list"
  placed :: "(nat \<times> bytes) list"
  events :: "'f notice list"

type_synonym 'f client_update = "'f ValkeyClient \<Rightarrow> 'f ValkeyClient"

datatype action = SendCommand Command | Disconnect

record 'f world =
  world_platform :: "'f platform"
  script :: "'f ValkeyClient \<Rightarrow> action list"

section \<open>Sockets and buffers\<close>

definition socket_write :: "bytes \<Rightarrow> Socket \<Rightarrow> int \<times> Socket" where
  "socket_write data s =
     (if \<not> sock_open s then (0, s)
      else case sock_takes s of
        [] \<Rightarrow> (int (length data), s\<lparr>sock_sent := sock_sent s @ data\<rparr>)
      | n # ns \<Rightarrow> (min n (int (length data)), s\<lparr>sock_sent := sock_sent s @ take (nat n) data, sock_takes := ns\<rparr>))"

definition flush_data :: "'f ValkeyClient \<Rightarrow> bool \<times> 'f ValkeyClient" where
  "flush_data c =
     (let chunk = write_buffer c
      in if chunk = [] then (False, c)
         else
           let (wrote, s) = socket_write chunk (socket c);
               c = c\<lparr>socket := s\<rparr>;
               c = (if wrote > 0 then c\<lparr>write_buffer := drop (nat wrote) chunk\<rparr> else c)
           in (write_buffer c \<noteq> [], c))"

definition connection_ready :: "'f ValkeyClient \<Rightarrow> bool" where
  "connection_ready c \<longleftrightarrow> status c = Connected \<and> \<not> is_selecting_db_internal (flags c)"

definition supports_auto_pipelining :: "Meta \<Rightarrow> bool" where
  "supports_auto_pipelining m = meta_contains m SUPPORTS_AUTO_PIPELINING"

definition register_auto_flusher :: "'f client_update" where
  "register_auto_flusher c = c\<lparr>flusher_registered := True\<rparr>"

definition unregister_auto_flusher :: "'f client_update" where
  "unregister_auto_flusher c = c\<lparr>flusher_registered := False\<rparr>"

section \<open>Sending\<close>

text \<open>The command moves to those in flight; its place in their order is recorded\<close>

definition put_in_flight :: "Entry \<Rightarrow> 'f client_update" where
  "put_in_flight e c = c\<lparr>
     in_flight := in_flight c @ [\<lparr>pair_meta = entry_meta e, pair_promise = entry_promise e\<rparr>],
     placed := placed c @ [(pr_id (entry_promise e), serialized_data e)]\<rparr>"

definition drain_queue :: "'f ValkeyClient \<Rightarrow> bool \<times> 'f ValkeyClient" where
  "drain_queue c =
     (case queue c of
        [] \<Rightarrow> (False, c)
      | offline_cmd # rest \<Rightarrow>
          if in_flight c \<noteq> [] \<and> \<not> supports_auto_pipelining (entry_meta offline_cmd) then (False, c)
          else
            let c = put_in_flight offline_cmd (c\<lparr>queue := rest\<rparr>);
                data = serialized_data offline_cmd
            in if connection_ready c \<and> write_buffer c = [] then
                 let (wrote, s) = socket_write data (socket c);
                     unwritten = drop (nat (max wrote 0)) data
                 in (True, c\<lparr>socket := s, write_buffer := (if unwritten \<noteq> [] then write_buffer c @ unwritten else write_buffer c)\<rparr>)
               else (True, c\<lparr>write_buffer := write_buffer c @ data\<rparr>))"

definition send_next_command :: "'f client_update" where
  "send_next_command c =
     (let c = (if write_buffer c = [] \<and> connection_ready c then
                 (case queue c of
                    head # _ \<Rightarrow>
                      if \<not> supports_auto_pipelining (entry_meta head) then
                        if in_flight c = [] then
                          let c = snd (drain_queue c)
                          in (case queue c of
                                head # _ \<Rightarrow> if supports_auto_pipelining (entry_meta head) then register_auto_flusher c else c
                              | [] \<Rightarrow> c)
                        else c
                      else register_auto_flusher c
                  | [] \<Rightarrow> if in_flight c = [] then snd (drain_queue c) else c)
               else c)
      in snd (flush_data c))"

definition on_writable :: "'f client_update" where
  "on_writable c = send_next_command c"

fun take_pipelineable :: "Entry list \<Rightarrow> 'f client_update" where
  "take_pipelineable [] c = c\<lparr>queue := []\<rparr>"
| "take_pipelineable (cmd # rest) c =
     (if supports_auto_pipelining (entry_meta cmd) then
        take_pipelineable rest ((put_in_flight cmd c)\<lparr>write_buffer := write_buffer c @ serialized_data cmd\<rparr>)
      else c\<lparr>queue := cmd # rest\<rparr>)"

definition on_auto_flush :: "'f ValkeyClient \<Rightarrow> bool \<times> 'f ValkeyClient" where
  "on_auto_flush c =
     (if status c \<noteq> Connected then (False, c\<lparr>flusher_registered := False\<rparr>)
      else
        let c = take_pipelineable (queue c) c;
            c = snd (flush_data c);
            have_more = (queue c \<noteq> [])
        in (have_more, c\<lparr>flusher_registered := have_more\<rparr>))"

definition enqueue :: "Command \<Rightarrow> Promise \<Rightarrow> 'f client_update" where
  "enqueue command promise c =
     (let pipelines = supports_auto_pipelining (cmd_meta command);
          can_pipeline = (pipelines \<and> enable_auto_pipelining (flags c));
          must_wait_for_queue = (\<not> pipelines \<and> queue c \<noteq> []);
          entry = \<lparr>serialized_data = serialize command, entry_meta = cmd_meta command, entry_promise = promise\<rparr>
      in if queue c \<noteq> [] \<or> (\<not> can_pipeline \<and> in_flight c \<noteq> []) \<or> \<not> connection_ready c \<or> must_wait_for_queue \<or> can_pipeline then
           let c = c\<lparr>queue := queue c @ [entry]\<rparr>
           in if status c = Connected \<and> can_pipeline then register_auto_flusher c else c
         else
           snd (flush_data (put_in_flight entry (c\<lparr>write_buffer := write_buffer c @ command_write command\<rparr>))))"

definition settle :: "Promise \<Rightarrow> 'f settlement \<Rightarrow> 'f client_update" where
  "settle promise outcome c = c\<lparr>settled := settled c @ [(pr_id promise, outcome)]\<rparr>"

definition send_rejection :: "'f ValkeyClient \<Rightarrow> bytes option" where
  "send_rejection c =
     (if failed (flags c) then Some ''Connection has failed''
      else if status c \<noteq> Connected \<and> \<not> enable_offline_queue (flags c) then
        Some ''Connection is closed and offline queue is disabled''
      else None)"

definition send :: "Command \<Rightarrow> 'f client_update" where
  "send command c =
     (let checked_command = command\<lparr>cmd_meta := meta_check (cmd_meta command) command\<rparr>;
          promise = \<lparr>pr_meta = cmd_meta checked_command, pr_id = next_promise c\<rparr>;
          c = c\<lparr>next_promise := next_promise c + 1\<rparr>
      in case send_rejection c of
           Some message \<Rightarrow> settle promise (Rejected message ConnectionClosed) c
         | None \<Rightarrow>
             let c = enqueue checked_command promise c
             in if enable_auto_pipelining (flags c) \<and> supports_auto_pipelining (cmd_meta checked_command) \<and>
                   status c = Connected \<and> queue c \<noteq> []
                then register_auto_flusher c else c)"


section \<open>Failing and closing\<close>

fun reject_pairs :: "PromisePair list \<Rightarrow> 'f settlement \<Rightarrow> 'f client_update" where
  "reject_pairs [] e c = c"
| "reject_pairs (pair # pending) e c = reject_pairs pending e (settle (pair_promise pair) e c)"

fun reject_entries :: "Entry list \<Rightarrow> 'f settlement \<Rightarrow> 'f client_update" where
  "reject_entries [] e c = c"
| "reject_entries (cmd # entries) e c = reject_entries entries e (settle (entry_promise cmd) e c)"

definition reject_all_pending_commands :: "'f settlement \<Rightarrow> 'f client_update" where
  "reject_all_pending_commands e c =
     reject_entries (queue c) e (reject_pairs (in_flight c) e (c\<lparr>in_flight := [], queue := []\<rparr>))"

definition run_deferred_failure :: "DeferredFailure \<Rightarrow> 'f client_update" where
  "run_deferred_failure d c =
     reject_entries (df_queue d) (Rejected (df_message d) (df_err d))
       (reject_pairs (df_in_flight d) (Rejected (df_message d) (df_err d)) c)"

definition reject_in_flight_commands :: "bytes \<Rightarrow> RedisError \<Rightarrow> 'f client_update" where
  "reject_in_flight_commands message err c =
     (if in_flight c = [] then c
      else if finalized (flags c) then
        c\<lparr>deferred := deferred c @ [\<lparr>df_message = message, df_err = err, df_in_flight = in_flight c, df_queue = []\<rparr>], in_flight := []\<rparr>
      else reject_pairs (in_flight c) (Rejected message err) (c\<lparr>in_flight := []\<rparr>))"

text \<open>The delay doubles with every attempt, up to two seconds\<close>

function delay_loop :: "nat \<Rightarrow> nat \<Rightarrow> nat \<Rightarrow> nat" where
  "delay_loop attempt delay i = (if i < attempt then delay_loop attempt (min (delay * 2) 2000) (i + 1) else delay)"
  by pat_completeness auto
termination by (relation "measure (\<lambda>(attempt, _, i). attempt - i)") auto

declare delay_loop.simps [simp del]

definition get_reconnect_delay :: "'f ValkeyClient \<Rightarrow> nat" where
  "get_reconnect_delay c = (if retry_attempts c = 0 then 50 else delay_loop (min (retry_attempts c) 10) 50 1)"

lemma delay_loop_eq: "delay_loop attempt (min d 2000) i = min (d * 2 ^ (attempt - i)) 2000"
proof (induction "attempt - i" arbitrary: d i)
  case 0
  then show ?case by (subst delay_loop.simps) simp
next
  case (Suc n)
  then have "i < attempt" "n = attempt - (i + 1)" by simp_all
  have "delay_loop attempt (min d 2000) i = delay_loop attempt (min (d * 2) 2000) (i + 1)"
    using \<open>i < attempt\<close> by (subst delay_loop.simps) (simp add: min_def)
  also have "\<dots> = min (d * 2 * 2 ^ (attempt - (i + 1))) 2000" using Suc.hyps(1)[OF \<open>n = attempt - (i + 1)\<close>] .
  also have "d * 2 * 2 ^ (attempt - (i + 1)) = d * 2 ^ (attempt - i)"
    using \<open>i < attempt\<close> by (simp add: Suc_diff_Suc flip: power_Suc)
  finally show ?case .
qed

text \<open>The delay is never 0, so that the test for it in \<^verbatim>\<open>on_close\<close> never holds\<close>

lemma get_reconnect_delay_eq: "get_reconnect_delay c = min (50 * 2 ^ (min (retry_attempts c) 10 - 1)) 2000"
  using delay_loop_eq[of "min (retry_attempts c) 10" 50 1] by (simp add: get_reconnect_delay_def)

lemma reject_pairs_eq: "reject_pairs ps e c = c\<lparr>settled := settled c @ map (\<lambda>p. (pr_id (pair_promise p), e)) ps\<rparr>"
  by (induction ps arbitrary: c) (simp_all add: settle_def)

lemma reject_entries_eq: "reject_entries es e c = c\<lparr>settled := settled c @ map (\<lambda>p. (pr_id (entry_promise p), e)) es\<rparr>"
  by (induction es arbitrary: c) (simp_all add: settle_def)

lemma reject_all_eq: "reject_all_pending_commands e c = c\<lparr>in_flight := [], queue := [],
    settled := settled c @ map (\<lambda>p. (pr_id (pair_promise p), e)) (in_flight c) @ map (\<lambda>p. (pr_id (entry_promise p), e)) (queue c)\<rparr>"
  by (simp add: reject_all_pending_commands_def reject_pairs_eq reject_entries_eq)

text \<open>
  \<^verbatim>\<open>fail\<close> closes the socket, whose close event has been handled when \<^verbatim>\<open>close\<close> returns, and the handler of that event
  may fail the client in its turn. It ends because the socket is closed once and the client fails once.
\<close>

function fail :: "bytes \<Rightarrow> RedisError \<Rightarrow> 'f client_update" and
  close :: "'f client_update" and
  on_close :: "'f client_update"
where
  "fail message err c =
     (if failed (flags c) then c
      else if finalized (flags c) then
        if queue c \<noteq> [] \<or> in_flight c \<noteq> [] then
          c\<lparr>deferred := deferred c @ [\<lparr>df_message = message, df_err = err, df_in_flight = in_flight c, df_queue = queue c\<rparr>],
            in_flight := [], queue := []\<rparr>
        else c
      else
        let c = c\<lparr>flags := (flags c)\<lparr>failed := True, is_reconnecting := False\<rparr>\<rparr>;
            c = reject_all_pending_commands (Rejected message err) c
        in close c)"
| "close c =
     (if \<not> sock_open (socket c) then c
      else on_close (c\<lparr>socket := detached, status := Disconnected\<rparr>))"
| "on_close c =
     (let c = unregister_auto_flusher c;
          c = c\<lparr>write_buffer := [], read_buffer := [], reply_scanner := scanner_reset (reply_scanner c)\<rparr>
      in if is_manually_closed (flags c) \<or> failed (flags c) \<or> context_stopped c \<or> \<not> enable_auto_reconnect (flags c) then
           let c = fail ''Connection closed'' ConnectionClosed c in c\<lparr>events := events c @ [OnClose]\<rparr>
         else
           let c = c\<lparr>retry_attempts := retry_attempts c + 1\<rparr>;
               delay_ms = get_reconnect_delay c
           in if delay_ms = 0 \<or> retry_attempts c > max_retries c then
                let c = fail ''Max reconnection attempts reached'' ConnectionClosed c in c\<lparr>events := events c @ [OnClose]\<rparr>
              else
                let c = c\<lparr>flags := (flags c)\<lparr>is_reconnecting := True, is_selecting_db_internal := False\<rparr>\<rparr>;
                    c = reject_in_flight_commands ''Connection closed'' ConnectionClosed c
                in c\<lparr>events := events c @ [OnReconnect (get_reconnect_delay c)]\<rparr>)"
  by pat_completeness auto
termination
  by (relation "measures [\<lambda>x. let c = (case x of Inl (_, _, c) \<Rightarrow> c | Inr (Inl c) \<Rightarrow> c | Inr (Inr c) \<Rightarrow> c)
        in (if sock_open (socket c) then 1 else 0) + (if failed (flags c) then 0 else 1),
      \<lambda>x. case x of Inr (Inr _) \<Rightarrow> 1 | _ \<Rightarrow> 0]")
    (auto simp: reject_all_eq detached_def unregister_auto_flusher_def)

declare fail.simps [simp del] close.simps [simp del] on_close.simps [simp del]

definition disconnect :: "'f client_update" where
  "disconnect c =
     (let c = unregister_auto_flusher (c\<lparr>flags := (flags c)\<lparr>is_manually_closed := True\<rparr>\<rparr>)
      in if status c = Connected \<or> status c = Connecting then close c
         else if status c = Disconnected \<and> is_reconnecting (flags c) then on_close c
         else c)"

text \<open>The method \<^verbatim>\<open>close\<close> of the script, which does nothing to a client that is neither connected nor about to be\<close>

definition js_close :: "'f client_update" where
  "js_close c =
     (if status c = NeverConnected \<or> status c = Disconnected \<and> \<not> is_reconnecting (flags c) then c else disconnect c)"

definition act :: "action \<Rightarrow> 'f client_update" where
  "act a c = (case a of SendCommand command \<Rightarrow> send command c | Disconnect \<Rightarrow> js_close c)"

text \<open>The event loop scope is left, and the reactions of the script run\<close>

definition run_script :: "'f world \<Rightarrow> 'f client_update" where
  "run_script w c = fold act (script w c) c"


section \<open>Replies\<close>

definition on_valkey_connect :: "'f world \<Rightarrow> 'f RESPValue \<Rightarrow> 'f client_update" where
  "on_valkey_connect w value c = on_writable (run_script w (c\<lparr>events := events c @ [OnConnect value]\<rparr>))"

definition on_valkey_message :: "'f world \<Rightarrow> 'f RESPValue list \<Rightarrow> 'f client_update" where
  "on_valkey_message w value c =
     (if \<not> is_subscriber (subscription c) then c
      else if length value < 2 then c
      else on_writable (run_script w (c\<lparr>events := events c @ [OnMessage value]\<rparr>)))"

definition add_subscription :: "'f client_update" where
  "add_subscription c =
     (let sub = subscription c;
          sub = (if \<not> is_subscriber sub then
                   sub\<lparr>original_enable_offline_queue := enable_offline_queue (flags c),
                       original_enable_auto_pipelining := enable_auto_pipelining (flags c)\<rparr>
                 else sub)
      in c\<lparr>subscription := sub\<lparr>is_subscriber := True\<rparr>\<rparr>)"

definition remove_subscription :: "'f client_update" where
  "remove_subscription c =
     (if receive_handlers c = 0 then
        let sub = subscription c
        in c\<lparr>flags := (flags c)\<lparr>enable_offline_queue := original_enable_offline_queue sub,
                               enable_auto_pipelining := original_enable_auto_pipelining sub\<rparr>,
             subscription := sub\<lparr>is_subscriber := False\<rparr>\<rparr>
      else c)"

definition hello_accepted :: "'f world \<Rightarrow> 'f RESPValue \<Rightarrow> 'f client_update" where
  "hello_accepted w value c =
     on_valkey_connect w value
       (c\<lparr>status := Connected, flags := (flags c)\<lparr>is_reconnecting := False\<rparr>, retry_attempts := 0\<rparr>)"

fun wrong_protocol :: "'f RESPValue \<times> 'f RESPValue \<Rightarrow> bool" where
  "wrong_protocol (RSimpleString key, RInteger proto_version) \<longleftrightarrow> key = ''proto'' \<and> proto_version \<noteq> 3"
| "wrong_protocol _ \<longleftrightarrow> False"

definition handle_hello_response :: "'f world \<Rightarrow> 'f RESPValue \<Rightarrow> 'f client_update" where
  "handle_hello_response w value c =
     (case value of
        RError err \<Rightarrow> fail err AuthenticationFailed c
      | RSimpleString str \<Rightarrow>
          if str = ''OK'' then hello_accepted w value c
          else fail ''Authentication failed (unexpected response)'' AuthenticationFailed c
      | RMap entries \<Rightarrow>
          if list_ex wrong_protocol entries then fail ''Server does not support RESP3'' UnsupportedProtocol c
          else hello_accepted w value c
      | _ \<Rightarrow> fail ''Authentication failed with unexpected response'' AuthenticationFailed c)"

definition settle_pair :: "PromisePair option \<Rightarrow> 'f settlement \<Rightarrow> 'f client_update" where
  "settle_pair pair outcome c = (case pair of None \<Rightarrow> c | Some p \<Rightarrow> settle (pair_promise p) outcome c)"

datatype SubscribeHandled = Handled | Fallthrough

definition handle_subscribe_response ::
  "'f world \<Rightarrow> 'f RESPValue \<Rightarrow> PromisePair option \<Rightarrow> 'f ValkeyClient \<Rightarrow> SubscribeHandled \<times> 'f ValkeyClient" where
  "handle_subscribe_response w value pair c =
     (case value of
        RError _ \<Rightarrow> (Handled, run_script w (settle_pair pair (RejectedReply value) c))
      | RPush kind data \<Rightarrow>
          let sub_count = receive_handlers c;
              is_pattern_or_sharded = is_reply_kind kind
          in (case push_from_bytes kind of
                Some Message \<Rightarrow> (Handled, run_script w (on_valkey_message w data c))
              | Some PatternMessage \<Rightarrow> (Handled, run_script w c)
              | Some Subscribe \<Rightarrow>
                  let c = on_writable (add_subscription c)
                  in (Handled, run_script w (settle_pair pair
                        (if is_pattern_or_sharded then Resolved value False else ResolvedNumber sub_count) c))
              | Some Unsubscribe \<Rightarrow>
                  let c = remove_subscription (on_writable c)
                  in (Handled, run_script w (settle_pair pair
                        (if is_pattern_or_sharded then Resolved value False else ResolvedUndefined) c))
              | None \<Rightarrow> (Handled, run_script w (fail ''Push message is not a subscription message.'' InvalidResponseType c)))
      | _ \<Rightarrow> (Fallthrough, run_script w c))"

definition should_consume_promise_pair :: "'f RESPValue \<Rightarrow> 'f ValkeyClient \<Rightarrow> bool" where
  "should_consume_promise_pair value c =
     (case value of
        RPush kind _ \<Rightarrow>
          (case push_from_bytes kind of
             Some Message \<Rightarrow> False
           | Some PatternMessage \<Rightarrow> False
           | Some _ \<Rightarrow> (case in_flight c of [] \<Rightarrow> False | pair # _ \<Rightarrow> meta_contains (pair_meta pair) SUBSCRIPTION_REQUEST)
           | None \<Rightarrow> is_reply_kind kind)
      | _ \<Rightarrow> True)"

definition pop_in_flight :: "'f ValkeyClient \<Rightarrow> PromisePair option \<times> 'f ValkeyClient" where
  "pop_in_flight c = (case in_flight c of [] \<Rightarrow> (None, c) | pair # rest \<Rightarrow> (Some pair, c\<lparr>in_flight := rest\<rparr>))"

definition handle_select_response :: "'f RESPValue \<Rightarrow> 'f client_update" where
  "handle_select_response value c =
     (let c = c\<lparr>flags := (flags c)\<lparr>is_selecting_db_internal := False\<rparr>\<rparr>
      in case value of
           RError err_str \<Rightarrow> fail err_str InvalidCommand c
         | RSimpleString ok_str \<Rightarrow>
             if ok_str \<noteq> ''OK'' then fail ''SELECT command failed with non-OK response'' InvalidResponse c
             else send_next_command c
         | _ \<Rightarrow> fail ''Received non-SELECT response while in the SELECT state.'' InvalidResponse c)"

text \<open>A reply to a regular command\<close>

definition handle_regular_response :: "'f world \<Rightarrow> 'f RESPValue \<Rightarrow> PromisePair option \<Rightarrow> 'f client_update" where
  "handle_regular_response w value pair_maybe c =
     (case pair_maybe of
        None \<Rightarrow> c
      | Some pair \<Rightarrow>
          let value = (case value of
                         RInteger int_value \<Rightarrow>
                           if meta_contains (pair_meta pair) RETURN_AS_BOOL then RBoolean (int_value > 0) else value
                       | _ \<Rightarrow> value)
          in run_script w
               (case value of
                  RError _ \<Rightarrow> settle (pair_promise pair) (RejectedReply value) c
                | _ \<Rightarrow> settle (pair_promise pair) (Resolved value (meta_contains (pr_meta (pair_promise pair)) RETURN_AS_BUFFER)) c))"

text \<open>A reply and the pair it is for, if it is for one\<close>

definition handle_paired_response :: "'f world \<Rightarrow> 'f RESPValue \<Rightarrow> PromisePair option \<Rightarrow> 'f client_update" where
  "handle_paired_response w value pair_maybe c =
     (let request_is_subscribe = (case pair_maybe of None \<Rightarrow> False | Some p \<Rightarrow> meta_contains (pair_meta p) SUBSCRIPTION_REQUEST)
      in if is_subscriber (subscription c) \<or> request_is_subscribe then
           (case value of
              RError err \<Rightarrow>
                if is_subscriber (subscription c) then fail err ServerError c
                else handle_regular_response w value pair_maybe c
            | RPush kind _ \<Rightarrow>
                if push_from_bytes kind \<noteq> None then
                  let (handled, c) = handle_subscribe_response w value pair_maybe c
                  in if handled = Handled then c else handle_regular_response w value pair_maybe c
                else fail ''Unexpected push message kind without promise'' InvalidResponseType c
            | _ \<Rightarrow> handle_regular_response w value pair_maybe c)
         else handle_regular_response w value pair_maybe c)"

definition dispatch_response :: "'f world \<Rightarrow> 'f RESPValue \<Rightarrow> 'f client_update" where
  "dispatch_response w value c =
     (if status c \<noteq> Connected then handle_hello_response w value c
      else if is_selecting_db_internal (flags c) then handle_select_response value c
      else
        let (pair_maybe, c) = (if should_consume_promise_pair value c then pop_in_flight c else (None, c))
        in handle_paired_response w value pair_maybe c)"

definition handle_response :: "'f world \<Rightarrow> 'f RESPValue \<Rightarrow> 'f client_update" where
  "handle_response w value c = dispatch_response w value (c\<lparr>replies := replies c @ [value]\<rparr>)"

section \<open>Opening a connection\<close>

definition hello_command :: "'f ValkeyClient \<Rightarrow> Command" where
  "hello_command c =
     \<lparr>cmd_name = ''HELLO'',
      cmd_args = Raw (if username c \<noteq> [] \<or> password c \<noteq> [] then
                        [''3'', ''AUTH'', if username c \<noteq> [] then username c else ''default'', password c]
                      else [''3'']),
      cmd_meta = meta_default\<rparr>"

definition select_command :: "nat \<Rightarrow> Command" where
  "select_command db = \<lparr>cmd_name = ''SELECT'', cmd_args = Raw [decimal db], cmd_meta = meta_default\<rparr>"

definition authenticate :: "'f client_update" where
  "authenticate c =
     (let c = c\<lparr>write_buffer := write_buffer c @ command_write (hello_command c)\<rparr>
      in if database c > 0 then
           c\<lparr>write_buffer := write_buffer c @ command_write (select_command (database c)),
             flags := (flags c)\<lparr>is_selecting_db_internal := True\<rparr>\<rparr>
         else c)"

definition start :: "'f client_update" where
  "start c = snd (flush_data (authenticate c))"

definition on_open :: "Socket \<Rightarrow> bool \<Rightarrow> 'f client_update" where
  "on_open s is_tcp c =
     (let c = c\<lparr>socket := s, write_buffer := [], read_buffer := [], reply_scanner := scanner_reset (reply_scanner c),
                flags := (flags c)\<lparr>failed := False, is_selecting_db_internal := False\<rparr>, placed := []\<rparr>
      in if is_tcp then start c else c)"


text \<open>The part of \<^verbatim>\<open>connect\<close> of \<^verbatim>\<open>js_valkey.rs\<close> that changes this state: a dial begins\<close>

definition begin_dial :: "'f client_update" where
  "begin_dial c = c\<lparr>status := Connecting\<rparr>"

section \<open>Relations that every operation respects\<close>

text \<open>
  What holds for the elementary updates of a client holds for the operations that are made of them. The relation is
  instantiated with what the reader of replies relies on and with the preservation of the invariant; \<open>greeted\<close> is what
  it needs of a client whose handshake is accepted.
\<close>

locale sending_relation =
  fixes R :: "'f ValkeyClient \<Rightarrow> 'f ValkeyClient \<Rightarrow> bool"
  assumes refl: "R c c"
    and trans: "R a b \<Longrightarrow> R b c \<Longrightarrow> R a c"
    and flush: "R c (snd (flush_data c))"
    and drain: "connection_ready c \<Longrightarrow> R c (snd (drain_queue c))"
    and register: "R c (register_auto_flusher c)"
begin

lemma send_next_command: "R c (send_next_command c)"
proof -
  have r: "R c (case queue d of head # _ \<Rightarrow> if supports_auto_pipelining (entry_meta head) then register_auto_flusher d else d | [] \<Rightarrow> d)"
    if "R c d" for d
    using that trans[OF that register] by (auto split: list.split)
  have "R c (if write_buffer c = [] \<and> connection_ready c then
      (case queue c of
         head # _ \<Rightarrow>
           if \<not> supports_auto_pipelining (entry_meta head) then
             if in_flight c = [] then
               let c = snd (drain_queue c)
               in (case queue c of head # _ \<Rightarrow> if supports_auto_pipelining (entry_meta head) then register_auto_flusher c else c
                   | [] \<Rightarrow> c)
             else c
           else register_auto_flusher c
       | [] \<Rightarrow> if in_flight c = [] then snd (drain_queue c) else c)
      else c)"
  proof (cases "write_buffer c = [] \<and> connection_ready c")
    case True
    then have "R c (snd (drain_queue c))" using drain by blast
    with r[OF this] show ?thesis using True refl register by (cases "queue c") (simp_all add: Let_def)
  qed (simp only: if_False refl)
  then show ?thesis unfolding send_next_command_def Let_def by (rule trans[OF _ flush])
qed

lemma on_writable: "R c (on_writable c)"
  by (simp add: on_writable_def send_next_command)

end

locale client_relation = sending_relation R for R :: "'f ValkeyClient \<Rightarrow> 'f ValkeyClient \<Rightarrow> bool" +
  fixes greeted :: "'f ValkeyClient \<Rightarrow> bool"
  assumes send: "R c (send command c)"
    and fail: "R c (fail message err c)"
    and close: "R c (close c)"
    and on_close: "status c = Disconnected \<Longrightarrow> R c (on_close c)"
    and unregister: "R c (unregister_auto_flusher c)"
    and event: "R c (c\<lparr>events := es\<rparr>)"
    and manual: "R c (c\<lparr>flags := (flags c)\<lparr>is_manually_closed := True\<rparr>\<rparr>)"
    and selected: "R c (c\<lparr>flags := (flags c)\<lparr>is_selecting_db_internal := False\<rparr>\<rparr>)"
    and accepted: "greeted c \<Longrightarrow>
      R c (c\<lparr>status := Connected, flags := (flags c)\<lparr>is_reconnecting := False\<rparr>, retry_attempts := 0\<rparr>)"
begin

lemma disconnect: "R c (disconnect c)"
proof -
  let ?d = "unregister_auto_flusher (c\<lparr>flags := (flags c)\<lparr>is_manually_closed := True\<rparr>\<rparr>)"
  have "R c ?d" by (rule trans[OF manual unregister])
  then show ?thesis using trans[OF _ close] trans[OF _ on_close] by (auto simp: disconnect_def Let_def)
qed

lemma act: "R c (act a c)"
  by (cases a) (simp_all add: act_def js_close_def send disconnect refl)

lemma run_actions: "R c (fold act as c)"
  by (induction as arbitrary: c) (auto intro: refl trans[OF act])

lemma run_script: "R c (run_script w c)"
  by (simp add: run_script_def run_actions)

lemma on_valkey_connect: "R c (on_valkey_connect w v c)"
  unfolding on_valkey_connect_def by (intro trans[OF trans[OF event run_script] on_writable])

lemma on_valkey_message: "R c (on_valkey_message w vs c)"
  unfolding on_valkey_message_def using refl trans[OF trans[OF event run_script] on_writable] by auto

lemma hello: "greeted c \<Longrightarrow> R c (handle_hello_response w v c)"
  unfolding handle_hello_response_def hello_accepted_def
  by (auto split: RESPValue.split intro!: fail trans[OF accepted on_valkey_connect])

lemma select: "R c (handle_select_response v c)"
  unfolding handle_select_response_def Let_def
  by (auto split: RESPValue.split intro!: trans[OF selected] fail send_next_command)

end

end
