(* ===== verification/ValkeyData.thy ===== *)
theory ValkeyData
  imports ValkeyClient
begin

text \<open>
  The data that arrives at a connection, \<^verbatim>\<open>on_data\<close> of \<^verbatim>\<open>src/runtime/valkey_jsc/valkey.rs\<close>: it is read directly while no
  partial reply is held, and through the read buffer and the scanner otherwise. The lemmas show that the replies that
  are handled do not depend on how the bytes of the server are cut into pieces.
\<close>

section \<open>What handling a reply leaves alone\<close>

definition same_connection :: "'f ValkeyClient \<Rightarrow> 'f ValkeyClient \<Rightarrow> bool" where
  "same_connection c c' \<longleftrightarrow> read_buffer c' = read_buffer c \<and> reply_scanner c' = reply_scanner c \<and>
     sock_id (socket c') = sock_id (socket c) \<and> sock_open (socket c') = sock_open (socket c)"

definition status_ok :: "'f ValkeyClient \<Rightarrow> bool" where
  "status_ok c \<longleftrightarrow> (status c = Disconnected \<longrightarrow> \<not> sock_open (socket c)) \<and> (status c = Connected \<longrightarrow> sock_open (socket c)) \<and>
     (sock_open (socket c) \<longleftrightarrow> sock_id (socket c) \<noteq> 0) \<and> (failed (flags c) \<longrightarrow> \<not> sock_open (socket c)) \<and> \<not> finalized (flags c)"

text \<open>Either the read side and the socket are the same, or the socket has been closed\<close>

definition undisturbed :: "'f ValkeyClient \<Rightarrow> 'f ValkeyClient \<Rightarrow> bool" where
  "undisturbed c c' \<longleftrightarrow> (status_ok c \<longrightarrow> status_ok c' \<and> (same_connection c c' \<or> \<not> sock_open (socket c')))"

text \<open>The read buffer is the same or empty, in any state\<close>

definition shrinks :: "'f ValkeyClient \<Rightarrow> 'f ValkeyClient \<Rightarrow> bool" where
  "shrinks c c' \<longleftrightarrow> read_buffer c' = read_buffer c \<or> read_buffer c' = []"

lemma socket_write_keeps [simp]:
  "sock_id (snd (socket_write data s)) = sock_id s" "sock_open (snd (socket_write data s)) = sock_open s"
  by (auto simp: socket_write_def split: list.split)

text \<open>The updates that have nothing to do with the read side\<close>

definition beside :: "'f ValkeyClient \<Rightarrow> 'f ValkeyClient \<Rightarrow> bool" where
  "beside c c' \<longleftrightarrow> same_connection c c' \<and> status c' = status c \<and> finalized (flags c') = finalized (flags c)"

definition aside :: "'f ValkeyClient \<Rightarrow> 'f ValkeyClient \<Rightarrow> bool" where
  "aside c c' \<longleftrightarrow> beside c c' \<and> failed (flags c') = failed (flags c)"

lemmas beside_defs = beside_def same_connection_def
lemmas aside_defs = aside_def beside_def same_connection_def

lemma aside_flush_data: "aside c (snd (flush_data c))"
  by (auto simp: flush_data_def aside_defs Let_def case_prod_beta)

lemma aside_drain: "aside c (snd (drain_queue c))"
  by (auto simp: drain_queue_def aside_defs put_in_flight_def Let_def case_prod_beta split: list.split)

lemma aside_put_in_flight: "aside c (put_in_flight e (c\<lparr>write_buffer := b\<rparr>))"
  by (simp add: aside_defs put_in_flight_def)

lemma aside_trans: "aside a b \<Longrightarrow> aside b c \<Longrightarrow> aside a c"
  by (simp add: aside_defs)

lemma aside_enqueue: "aside c (enqueue command promise c)"
proof -
  have "aside c (c\<lparr>queue := q\<rparr>)" "aside c (register_auto_flusher (c\<lparr>queue := q\<rparr>))" for q
    by (simp_all add: aside_defs register_auto_flusher_def)
  then show ?thesis
    by (auto simp: enqueue_def Let_def intro: aside_trans[OF aside_put_in_flight aside_flush_data])
qed

lemma aside_send: "aside c (send command c)"
proof -
  have n: "aside c (c\<lparr>next_promise := n\<rparr>)" for n by (simp add: aside_defs)
  have s: "aside d (settle p e d)" "aside d (register_auto_flusher d)" for d :: "'a ValkeyClient" and p e
    by (simp_all add: aside_defs settle_def register_auto_flusher_def)
  show ?thesis
    using aside_trans[OF n s(1)] aside_trans[OF n aside_enqueue] aside_trans[OF aside_trans[OF n aside_enqueue] s(2)]
    by (auto simp: send_def Let_def split: option.split)
qed

lemma aside_relations: "aside c c' \<Longrightarrow> undisturbed c c'" "aside c c' \<Longrightarrow> shrinks c c'"
  by (auto simp: aside_defs undisturbed_def shrinks_def status_ok_def)

lemma beside_relations: "beside c c' \<Longrightarrow> \<not> sock_open (socket c) \<Longrightarrow> undisturbed c c'" "beside c c' \<Longrightarrow> shrinks c c'"
  by (auto simp: beside_defs undisturbed_def shrinks_def status_ok_def)

lemma beside_trans: "beside a b \<Longrightarrow> beside b c \<Longrightarrow> beside a c"
  by (simp add: beside_defs)

lemma undisturbed_trans: "undisturbed a b \<Longrightarrow> undisturbed b c \<Longrightarrow> undisturbed a c"
  by (auto simp: undisturbed_def same_connection_def)

lemma shrinks_trans: "shrinks a b \<Longrightarrow> shrinks b c \<Longrightarrow> shrinks a c"
  by (auto simp: shrinks_def)

lemma fail_closed:
  assumes "\<not> sock_open (socket c)"
  shows "beside c (fail message err c)"
  using assms by (subst fail.simps) (auto simp: Let_def close.simps reject_all_eq beside_defs)

lemma reject_in_flight_aside: "aside c (reject_in_flight_commands message err c)"
  by (simp add: reject_in_flight_commands_def aside_defs reject_pairs_eq)

lemma on_close_closed:
  assumes "\<not> sock_open (socket c)"
  shows "beside (c\<lparr>read_buffer := [], reply_scanner := scanner_reset (reply_scanner c)\<rparr>) (on_close c)"
proof -
  let ?P = "\<lambda>d. beside (c\<lparr>read_buffer := [], reply_scanner := scanner_reset (reply_scanner c)\<rparr>) d"
  have f: "?P (fail m e d)" if "?P d" for m e d
    by (rule beside_trans[OF that fail_closed]) (use that assms in \<open>simp add: beside_defs\<close>)
  have e: "?P (d\<lparr>events := es\<rparr>)" if "?P d" for d es using that by (simp add: beside_defs)
  have r: "?P (reject_in_flight_commands m e d)" if "?P d" for m e d
    using that reject_in_flight_aside[of d m e] by (simp add: aside_defs beside_defs)
  show ?thesis
    by (subst on_close.simps, unfold Let_def)
      (auto intro!: f e r simp: beside_def[of _ "_\<lparr>flags := _\<rparr>"] beside_def[of _ "_\<lparr>reply_scanner := _\<rparr>"]
        beside_def[of _ "_\<lparr>retry_attempts := _\<rparr>"] same_connection_def unregister_auto_flusher_def)
qed

lemma close_closed: "\<not> sock_open (socket (close c))"
  using on_close_closed[of "c\<lparr>socket := detached, status := Disconnected\<rparr>"]
  by (auto simp: close.simps[of c] beside_defs detached_def)

text \<open>The client is failed before its socket is closed\<close>

lemma close_undisturbed:
  "undisturbed c (close c)" "undisturbed c (close (c\<lparr>flags := (flags c)\<lparr>failed := b, is_reconnecting := b'\<rparr>\<rparr>))" "shrinks c (close c)"
  using on_close_closed[of "c\<lparr>socket := detached, status := Disconnected\<rparr>"]
    on_close_closed[of "c\<lparr>flags := (flags c)\<lparr>failed := b, is_reconnecting := b'\<rparr>, socket := detached, status := Disconnected\<rparr>"]
  by (auto simp: undisturbed_def shrinks_def close.simps beside_defs status_ok_def detached_def)

lemma fail_cases:
  assumes "\<not> failed (flags c)" "\<not> finalized (flags c)"
  shows "\<exists>d. aside c d \<and> fail message err c = close (d\<lparr>flags := (flags d)\<lparr>failed := True, is_reconnecting := False\<rparr>\<rparr>)"
proof (intro exI conjI)
  let ?d = "reject_all_pending_commands (Rejected message err) c"
  show "aside c ?d" by (simp add: aside_defs reject_all_eq)
  show "fail message err c = close (?d\<lparr>flags := (flags ?d)\<lparr>failed := True, is_reconnecting := False\<rparr>\<rparr>)"
    using assms by (subst fail.simps, cases c) (simp add: Let_def reject_all_eq)
qed

lemma fail_still:
  assumes "failed (flags c) \<or> finalized (flags c)"
  shows "aside c (fail message err c)"
  using assms by (subst fail.simps) (auto simp: aside_defs)

lemma fail_undisturbed: "undisturbed c (fail message err c)"
proof (cases "failed (flags c) \<or> finalized (flags c)")
  case True
  then show ?thesis using fail_still aside_relations by blast
next
  case False
  then obtain d where d: "aside c d" "fail message err c = close (d\<lparr>flags := (flags d)\<lparr>failed := True, is_reconnecting := False\<rparr>\<rparr>)"
    using fail_cases by blast
  then show ?thesis using undisturbed_trans[OF aside_relations(1)[OF d(1)] close_undisturbed(2)] by simp
qed

lemma fail_shrinks: "shrinks c (fail message err c)"
proof (cases "failed (flags c) \<or> finalized (flags c)")
  case True
  then show ?thesis using fail_still aside_relations by blast
next
  case False
  then obtain d where d: "aside c d" "fail message err c = close (d\<lparr>flags := (flags d)\<lparr>failed := True, is_reconnecting := False\<rparr>\<rparr>)"
    using fail_cases by blast
  then have "shrinks d (fail message err c)"
    using close_undisturbed(3)[of "d\<lparr>flags := (flags d)\<lparr>failed := True, is_reconnecting := False\<rparr>\<rparr>"] by (simp add: shrinks_def)
  then show ?thesis using shrinks_trans[OF aside_relations(2)[OF d(1)]] by blast
qed

lemma fail_closes:
  assumes "\<not> failed (flags c)" "\<not> finalized (flags c)"
  shows "\<not> sock_open (socket (fail message err c))"
  using fail_cases[OF assms, of message err] close_closed by fastforce

lemma on_close_undisturbed: "status c = Disconnected \<Longrightarrow> undisturbed c (on_close c)"
  using on_close_closed[of c] by (auto simp: undisturbed_def beside_defs status_ok_def)

lemma aside_updates:
  "aside c c" "aside c (register_auto_flusher c)" "aside c (unregister_auto_flusher c)" "aside c (c\<lparr>events := es\<rparr>)"
  "aside c (c\<lparr>flags := (flags c)\<lparr>is_manually_closed := b\<rparr>\<rparr>)" "aside c (c\<lparr>flags := (flags c)\<lparr>is_selecting_db_internal := b\<rparr>\<rparr>)"
  "aside c (add_subscription c)" "aside c (remove_subscription c)" "aside c (c\<lparr>replies := vs\<rparr>)"
  "aside c (settle p e c)" "aside c (snd (pop_in_flight c))"
  by (simp_all add: aside_defs register_auto_flusher_def unregister_auto_flusher_def add_subscription_def
    remove_subscription_def settle_def pop_in_flight_def Let_def split: list.split)

lemmas aside_all = aside_updates aside_flush_data aside_drain aside_send

lemmas undisturbed_basic = aside_all[THEN aside_relations(1)] fail_undisturbed close_undisturbed(1) on_close_undisturbed

lemma on_close_shrinks: "shrinks c (on_close c)"
proof -
  have f: "read_buffer (fail m e d) = []" if "read_buffer d = []" for m e and d :: "'a ValkeyClient"
    using that fail_shrinks[where c = d] by (auto simp: shrinks_def)
  have r: "read_buffer (reject_in_flight_commands m e d) = read_buffer d" for m e and d :: "'a ValkeyClient"
    using reject_in_flight_aside[of d] by (simp add: aside_defs)
  show ?thesis unfolding shrinks_def by (subst (2) on_close.simps) (simp add: Let_def f r)
qed

lemmas shrinks_basic = aside_all[THEN aside_relations(2)] fail_shrinks close_undisturbed(3) on_close_shrinks

section \<open>A reply is handled\<close>

locale answering_relation = client_relation R greeted
  for R :: "'f ValkeyClient \<Rightarrow> 'f ValkeyClient \<Rightarrow> bool" and greeted :: "'f ValkeyClient \<Rightarrow> bool" +
  assumes settle: "R c (settle p e c)"
    and pop: "R c (snd (pop_in_flight c))"
begin

lemma settle_pair: "R c (settle_pair p e c)"
  by (simp add: settle_pair_def refl settle split: option.split)

lemma regular_response: "R c (handle_regular_response w v p c)"
  unfolding handle_regular_response_def Let_def
  by (auto split: option.split RESPValue.split intro!: refl trans[OF settle run_script])

lemma plain_dispatch:
  assumes "greeted c" "\<And>kind data. v \<noteq> RPush kind data"
  shows "R c (dispatch_response w v c)"
proof -
  have "R c (handle_paired_response w v p c)" for c p
    using assms(2) by (cases v) (auto simp: handle_paired_response_def Let_def intro: fail regular_response)
  then show ?thesis
    unfolding dispatch_response_def Let_def case_prod_beta by (auto intro: hello[OF assms(1)] select trans[OF pop])
qed

end

text \<open>A relation that entering and leaving the subscriber mode respect too holds for every reply\<close>

locale settling_relation = answering_relation R greeted
  for R :: "'f ValkeyClient \<Rightarrow> 'f ValkeyClient \<Rightarrow> bool" and greeted :: "'f ValkeyClient \<Rightarrow> bool" +
  assumes subscribed: "R c (add_subscription c)" "R c (remove_subscription c)"
begin

lemma subscribe_response: "R c (snd (handle_subscribe_response w v p c))"
  unfolding handle_subscribe_response_def Let_def
  by (auto split: RESPValue.split option.split SubscriptionPushMessage.split
    intro!: trans[OF _ run_script] refl settle_pair on_valkey_message fail
      trans[OF trans[OF subscribed(1) on_writable] settle_pair] trans[OF trans[OF on_writable subscribed(2)] settle_pair])

lemma paired_response: "R c (handle_paired_response w v p c)"
  unfolding handle_paired_response_def Let_def case_prod_beta
  by (cases v) (auto intro: fail regular_response subscribe_response trans[OF subscribe_response regular_response])

lemma dispatch: "greeted c \<Longrightarrow> R c (dispatch_response w v c)"
  unfolding dispatch_response_def Let_def case_prod_beta
  by (auto intro: hello select trans[OF pop paired_response] paired_response)

end

interpretation besides: sending_relation "aside :: 'f ValkeyClient \<Rightarrow> 'f ValkeyClient \<Rightarrow> bool"
  by unfold_locales (rule aside_all | rule aside_trans, assumption, assumption)+

interpretation steady: settling_relation "undisturbed :: 'f ValkeyClient \<Rightarrow> 'f ValkeyClient \<Rightarrow> bool" "\<lambda>c. sock_open (socket c)"
proof
  show "undisturbed a c" if "undisturbed a b" "undisturbed b c" for a b c :: "'f ValkeyClient"
    using that by (rule undisturbed_trans)
  show "undisturbed c (c\<lparr>status := Connected, flags := (flags c)\<lparr>is_reconnecting := False\<rparr>, retry_attempts := 0\<rparr>)"
    if "sock_open (socket c)" for c :: "'f ValkeyClient"
    using that by (auto simp: undisturbed_def same_connection_def status_ok_def)
qed (rule undisturbed_basic | assumption)+

interpretation shrinking: settling_relation "shrinks :: 'f ValkeyClient \<Rightarrow> 'f ValkeyClient \<Rightarrow> bool" "\<lambda>_. True"
proof
  show "shrinks a c" if "shrinks a b" "shrinks b c" for a b c :: "'f ValkeyClient"
    using that by (rule shrinks_trans)
  show "shrinks c (c\<lparr>status := Connected, flags := (flags c)\<lparr>is_reconnecting := False\<rparr>, retry_attempts := 0\<rparr>)" for c :: "'f ValkeyClient"
    by (simp add: shrinks_def)
qed (rule shrinks_basic | simp)+

text \<open>A client becomes a subscriber only by a push message\<close>

definition calm :: "'f ValkeyClient \<Rightarrow> 'f ValkeyClient \<Rightarrow> bool" where
  "calm c c' \<longleftrightarrow> replies c' = replies c \<and> subscription c' = subscription c"

lemma calm_close:
  fixes c d e :: "'f ValkeyClient"
  shows "calm c (fail message err c)" "calm d (close d)" "calm e (on_close e)"
proof (induction message err c and d and e rule: fail_close_on_close.induct)
  case (1 message err c)
  then show ?case by (subst fail.simps) (auto simp: calm_def Let_def reject_all_eq)
next
  case (2 c)
  then show ?case by (subst close.simps) (auto simp: calm_def)
next
  case (3 c)
  then show ?case
    by (subst on_close.simps) (auto simp: calm_def Let_def unregister_auto_flusher_def reject_in_flight_commands_def reject_pairs_eq)
qed

lemma calm_flush: "calm c (snd (flush_data c))" "calm c (snd (drain_queue c))" "calm c (put_in_flight e c)"
  by (auto simp: calm_def flush_data_def drain_queue_def put_in_flight_def Let_def case_prod_beta split: list.split)

lemma calm_enqueue: "calm c (enqueue command promise c)"
  by (simp add: enqueue_def calm_def Let_def register_auto_flusher_def calm_flush[unfolded calm_def])

lemma calm_send: "calm c (send command c)"
  by (simp add: send_def calm_def Let_def register_auto_flusher_def settle_def calm_enqueue[unfolded calm_def] split: option.split)

interpretation calming: answering_relation "calm :: 'f ValkeyClient \<Rightarrow> 'f ValkeyClient \<Rightarrow> bool" "\<lambda>_. True"
proof
  show "calm a c" if "calm a b" "calm b c" for a b c :: "'f ValkeyClient" using that by (simp add: calm_def)
qed (rule calm_close calm_flush calm_send | simp add: calm_def register_auto_flusher_def unregister_auto_flusher_def
  settle_def pop_in_flight_def Let_def split: list.split)+

text \<open>The history of replies is written in one place\<close>

definition quiet :: "'f ValkeyClient \<Rightarrow> 'f ValkeyClient \<Rightarrow> bool" where
  "quiet c c' \<longleftrightarrow> replies c' = replies c"

lemma calm_quiet: "calm c c' \<Longrightarrow> quiet c c'"
  by (simp add: calm_def quiet_def)

interpretation silent: settling_relation "quiet :: 'f ValkeyClient \<Rightarrow> 'f ValkeyClient \<Rightarrow> bool" "\<lambda>_. True"
proof
  show "quiet a c" if "quiet a b" "quiet b c" for a b c :: "'f ValkeyClient" using that by (simp add: quiet_def)
qed (rule calm_quiet, rule calm_close calm_flush calm_send | simp add: quiet_def register_auto_flusher_def unregister_auto_flusher_def
  add_subscription_def remove_subscription_def settle_def pop_in_flight_def Let_def split: list.split)+

text \<open>What handling a reply does to the read side and to the history\<close>

lemma handle_response_undisturbed: "sock_open (socket c) \<Longrightarrow> undisturbed c (handle_response w v c)"
  unfolding handle_response_def
  by (rule undisturbed_trans[OF aside_relations(1)[OF aside_updates(9)] steady.dispatch]) simp

lemma handle_response_shrinks: "shrinks c (handle_response w v c)"
  unfolding handle_response_def
  by (rule shrinks_trans[OF aside_relations(2)[OF aside_updates(9)] shrinking.dispatch]) simp

lemma handle_response_replies: "replies (handle_response w v c) = replies c @ [v]"
  using silent.dispatch[of "c\<lparr>replies := replies c @ [v]\<rparr>" w v] by (simp add: handle_response_def quiet_def)

section \<open>Data\<close>

text \<open>A partial reply is held: the data is added to the buffer, and the parser runs once the scanner has found an end\<close>

function process_buffer :: "'f world \<Rightarrow> nat \<Rightarrow> 'f client_update" where
  "process_buffer w sock c =
     (if read_buffer c = [] then c
      else case scan_reply (read_buffer c) (reply_scanner c) of
        (Inl err, s) \<Rightarrow> fail ''Failed to read data (buffer path)'' err (c\<lparr>reply_scanner := s\<rparr>)
      | (Inr NeedMoreData, s) \<Rightarrow> c\<lparr>reply_scanner := s\<rparr>
      | (Inr Complete, s) \<Rightarrow>
          let c = c\<lparr>reply_scanner := s\<rparr>
          in (case read_value (world_platform w) (reader_init (read_buffer c)) of
                (Inl err, _) \<Rightarrow> fail ''Failed to read data (buffer path)'' err c
              | (Inr value, reader) \<Rightarrow>
                  let bytes_consumed = r_pos reader
                  in if bytes_consumed = 0 then
                       fail ''Parser consumed 0 bytes unexpectedly (buffer path)'' InvalidResponse c
                     else
                       let c = c\<lparr>read_buffer := drop bytes_consumed (read_buffer c), reply_scanner := scanner_reset (reply_scanner c)\<rparr>;
                           c = handle_response w value c
                       in if sock_id (socket c) \<noteq> sock then c
                          else process_buffer w sock (send_next_command c)))"
  by pat_completeness auto
termination
proof (relation "measure (\<lambda>(_, _, c). length (read_buffer c))", simp)
  fix w :: "'f world" and sock :: nat and c :: "'f ValkeyClient" and s x reader v k c1 c2 c3
  assume "read_buffer c \<noteq> []" "c1 = c\<lparr>reply_scanner := s\<rparr>" "k = r_pos reader" "k \<noteq> 0"
    and "c2 = c1\<lparr>read_buffer := drop k (read_buffer c1), reply_scanner := scanner_reset (reply_scanner c1)\<rparr>"
    and c3: "c3 = handle_response w v c2"
  then have "length (read_buffer c2) < length (read_buffer c)" by simp
  moreover have "shrinks c2 (send_next_command c3)"
    unfolding c3 by (rule shrinks_trans[OF handle_response_shrinks shrinking.send_next_command])
  ultimately show "((w, sock, send_next_command c3), w, sock, c) \<in> measure (\<lambda>(_, _, c). length (read_buffer c))"
    by (auto simp: shrinks_def)
qed

declare process_buffer.simps [simp del]

text \<open>No partial reply is held: the replies are read from the data itself\<close>

function process_slice :: "'f world \<Rightarrow> nat \<Rightarrow> bytes \<Rightarrow> 'f client_update" where
  "process_slice w sock data c =
     (if data = [] then c
      else case read_value (world_platform w) (reader_init data) of
        (Inl err, _) \<Rightarrow>
          if err = InvalidResponse then
            c\<lparr>reply_scanner := scanner_reset (reply_scanner c), read_buffer := read_buffer c @ data\<rparr>
          else fail ''Failed to read data (stack path)'' err c
      | (Inr value, reader) \<Rightarrow>
          let bytes_consumed = r_pos reader
          in if bytes_consumed = 0 then fail ''Parser consumed 0 bytes unexpectedly (stack path)'' InvalidResponse c
             else
               let c = handle_response w value c
               in if sock_id (socket c) \<noteq> sock then c
                  else process_slice w sock (drop bytes_consumed data) (send_next_command c))"
  by pat_completeness auto
termination by (relation "measure (\<lambda>(_, _, data, _). length data)") auto

declare process_slice.simps [simp del]

definition on_data :: "'f world \<Rightarrow> bytes \<Rightarrow> 'f client_update" where
  "on_data w data c =
     (let sock = sock_id (socket c)
      in if read_buffer c \<noteq> [] then process_buffer w sock (c\<lparr>read_buffer := read_buffer c @ data\<rparr>)
         else process_slice w sock data c)"

end
