(* ===== verification/ValkeyChunks.thy ===== *)
theory ValkeyChunks
  imports ValkeyData
begin

text \<open>
  The replies that are handled are those of the byte stream, however it is cut into pieces: \<open>replies_in\<close> reads replies
  from the stream as long as there is one, and the lemmas compare \<^verbatim>\<open>on_data\<close> with it, for the path through the buffer and
  for the path without.
\<close>

section \<open>The replies of a stream\<close>

lemma read_value_consumes:
  assumes "read_value p (reader_init data) = (Inr v, r)"
  shows "0 < r_pos r" "r_pos r \<le> length data"
proof -
  have i: "inside (reader_init data)" by (simp add: inside_def reader_init_def)
  from reply.stays_inside[OF i assms] show "r_pos r \<le> length data" by (auto simp: inside_def reader_init_def)
  obtain r1 b where b: "read_byte (reader_init data) = (Inr b, r1)" "r_pos r1 = 1"
    and "\<exists>ty. read_typed p 0 ty r1 = (Inr v, r)"
    using assms
    by (auto simp: read_value_def read_value_with_depth.simps[of p 0] next_do_Inr read_byte_def reader_init_def
      split: if_splits option.splits)
  then obtain ty where ty: "read_typed p 0 ty r1 = (Inr v, r)" by blast
  have "inside r1" using keeps_read_byte[OF i b(1)] by simp
  from streaming_method.stays_inside[OF streaming_read_typed[OF streaming_read_value_with_depth] this ty] b(2)
  show "0 < r_pos r" by simp
qed

lemma read_value_Nil: "fst (read_value p (reader_init [])) = Inl InvalidResponse"
  by (simp add: read_value_def read_value_with_depth.simps[of p 0] next_do_def read_byte_def reader_init_def)

function replies_in :: "'f platform \<Rightarrow> bytes \<Rightarrow> 'f RESPValue list \<times> bytes" where
  "replies_in p data =
     (case read_value p (reader_init data) of
        (Inl _, _) \<Rightarrow> ([], data)
      | (Inr v, r) \<Rightarrow> let (vs, rest) = replies_in p (drop (r_pos r) data) in (v # vs, rest))"
  by pat_completeness auto
termination
proof (relation "measure (\<lambda>(_, data). length data)", simp)
  fix p :: "'f platform" and data x r v
  assume "(x, r) = read_value p (reader_init data)" "x = Inr v"
  from read_value_consumes[of p data v r] this
  show "((p, drop (r_pos r) data), p, data) \<in> measure (\<lambda>(_, data). length data)" by simp
qed

declare replies_in.simps [simp del]

lemma replies_in_Inl: "read_value p (reader_init data) = (Inl e, r) \<Longrightarrow> replies_in p data = ([], data)"
  by (subst replies_in.simps) simp

lemma replies_in_Inr:
  "read_value p (reader_init data) = (Inr v, r) \<Longrightarrow>
     replies_in p data = (v # fst (replies_in p (drop (r_pos r) data)), snd (replies_in p (drop (r_pos r) data)))"
  by (subst replies_in.simps) (simp add: case_prod_beta)

lemma read_value_append:
  assumes "read_value p (reader_init data) = (Inr v, r)"
  shows "\<exists>r2. read_value p (reader_init (data @ t)) = (Inr v, r2) \<and> r_pos r2 = r_pos r"
proof -
  have "inside (reader_init data)" by (simp add: inside_def reader_init_def)
  from reply.extended[OF this assms, of "reader_init (data @ t)" t] show ?thesis
    by (cases "read_value p (reader_init (data @ t))") (simp add: reader_init_def)
qed

text \<open>More data adds replies at the end\<close>

lemma replies_in_append:
  "replies_in p (a @ b) = (fst (replies_in p a) @ fst (replies_in p (snd (replies_in p a) @ b)), snd (replies_in p (snd (replies_in p a) @ b)))"
proof (induction p a rule: replies_in.induct)
  case (1 p a)
  show ?case
  proof (cases "read_value p (reader_init a)")
    case (Pair x r)
    show ?thesis
    proof (cases x)
      case (Inl e)
      then show ?thesis using Pair by (simp add: replies_in_Inl)
    next
      case (Inr v)
      note v = Pair[unfolded Inr]
      obtain r2 where r2: "read_value p (reader_init (a @ b)) = (Inr v, r2)" "r_pos r2 = r_pos r"
        using read_value_append[OF v] by blast
      have "drop (r_pos r) (a @ b) = drop (r_pos r) a @ b" using read_value_consumes(2)[OF v] by simp
      then show ?thesis
        using 1[OF v[symmetric]] by (simp add: replies_in_Inr[OF v] replies_in_Inr[OF r2(1)] r2(2))
    qed
  qed
qed

section \<open>The scanner at the start of a reply\<close>

lemma scan_finds_end:
  assumes "read_value p (reader_init data) = (Inr v, r)"
  shows "scan_reply data scanner_default = (Inr Complete, scanning (r_pos r) [])"
proof -
  let ?r = "reader_init data\<lparr>prealloc_budget := length data\<rparr>"
  have "read_value_with_depth p 0 ?r = (Inr v, r)" using assms by (simp add: read_value_def reader_init_def)
  moreover have "inside ?r" "crlf_skip ?r = 0" "r_buffer ?r = data" "r_pos ?r = 0" by (simp_all add: inside_def reader_init_def)
  ultimately have "scan_reply data (scanning 0 []) = after_value data (r_pos r) []"
    using scans_all[of p 0] unfolding scans_def by (metis list.size(3))
  then show ?thesis by (simp add: after_value_def scanner_default_def)
qed

lemma scan_finds_no_end:
  assumes "read_value p (reader_init data) = (Inl InvalidResponse, r)"
  shows "fst (scan_reply data scanner_default) \<noteq> Inr Complete"
proof -
  let ?r = "reader_init data\<lparr>prealloc_budget := length data\<rparr>"
  have "read_value_with_depth p 0 ?r = (Inl InvalidResponse, r)" using assms by (simp add: read_value_def reader_init_def)
  moreover have "inside ?r" "crlf_skip ?r = 0" "r_buffer ?r = data" "r_pos ?r = 0" by (simp_all add: inside_def reader_init_def)
  ultimately have "fst (scan_reply data (scanning 0 [])) \<noteq> Inr Complete"
    using stuck_all[of p 0] unfolding stuck_def by (metis list.size(3))
  then show ?thesis by (simp add: scanner_default_def)
qed

lemma scanner_reset_eq: "scanner_reset s = scanner_default"
  by (cases s) (simp add: scanner_reset_def scanner_default_def)


section \<open>Pieces of the stream\<close>

text \<open>The scanner agrees with a scan of the buffer from its start, now and when more bytes have arrived\<close>

definition in_step :: "'f ValkeyClient \<Rightarrow> bool" where
  "in_step c \<longleftrightarrow> scanned (read_buffer c) (reply_scanner c) \<and>
     (\<forall>t. same_scan (scan_reply (read_buffer c @ t) (reply_scanner c)) (scan_reply (read_buffer c @ t) scanner_default))"

lemma in_step_default: "reply_scanner c = scanner_default \<Longrightarrow> in_step c"
  by (simp add: in_step_def same_scan_def scanner_default_def)

text \<open>Bytes that are not the beginning of a reply, whatever follows them\<close>

definition broken :: "'f platform \<Rightarrow> bytes \<Rightarrow> bool" where
  "broken p data \<longleftrightarrow> (\<forall>t v r. read_value p (reader_init (data @ t)) \<noteq> (Inr v, r))"

text \<open>
  How a client comes to have read \<open>data\<close>: it has handled all its replies and holds the rest; or it has handled all of
  them and was failed because of the rest; or it handled a reply that made it close the connection.
\<close>

definition reads :: "'f world \<Rightarrow> bytes \<Rightarrow> 'f ValkeyClient \<Rightarrow> 'f ValkeyClient \<Rightarrow> bool" where
  "reads w data c c' \<longleftrightarrow>
     (let (vs, rest) = replies_in (world_platform w) data
      in status_ok c' \<and>
         (sock_open (socket c') \<and> sock_id (socket c') = sock_id (socket c) \<and> replies c' = replies c @ vs \<and>
            read_buffer c' = rest \<and> (rest \<noteq> [] \<longrightarrow> in_step c') \<or>
          \<not> sock_open (socket c') \<and> replies c' = replies c @ vs \<and> broken (world_platform w) rest \<or>
          \<not> sock_open (socket c') \<and> (\<exists>n < length vs. \<exists>d. replies c' = replies c @ take (Suc n) vs \<and>
            sock_open (socket d) \<and> c' = handle_response w (vs ! n) d)))"

lemma fail_reads:
  assumes "status_ok c" "sock_open (socket c)" "broken (world_platform w) data"
  shows "reads w data c (fail message err c)"
proof -
  have "read_value (world_platform w) (reader_init data) \<noteq> (Inr v, r)" for v r
    using assms(3) by (metis append_Nil2 broken_def)
  then have "replies_in (world_platform w) data = ([], data)"
    by (cases "read_value (world_platform w) (reader_init data)"; cases "fst (read_value (world_platform w) (reader_init data))")
      (auto intro: replies_in_Inl)
  moreover have "status_ok (fail message err c)" using assms(1) fail_undisturbed[of c] by (auto simp: undisturbed_def)
  moreover have "\<not> sock_open (socket (fail message err c))" using assms by (intro fail_closes) (auto simp: status_ok_def)
  moreover have "replies (fail message err c) = replies c" using calm_close(1)[of c] by (simp add: calm_def)
  ultimately show ?thesis using assms(3) by (simp add: reads_def)
qed

lemma read_error_broken:
  assumes "read_value p (reader_init data) = (Inl e, r)" "e \<noteq> InvalidResponse"
  shows "broken p data"
proof -
  have "inside (reader_init data)" by (simp add: inside_def reader_init_def)
  from reply.extended(1)[OF this assms(1)] assms(2) have "fst (read_value p (reader_init (data @ t))) = Inl e" for t
    by (simp add: reader_init_def)
  then show ?thesis unfolding broken_def by (metis Inl_Inr_False fst_conv)
qed

lemma scan_error_broken:
  assumes "fst (scan_reply data scanner_default) = Inl e"
  shows "broken p data"
  unfolding broken_def
proof (intro allI notI)
  fix t v r assume "read_value p (reader_init (data @ t)) = (Inr v, r)"
  then have "scan_reply (data @ t) scanner_default = (Inr Complete, scanning (r_pos r) [])" by (rule scan_finds_end)
  moreover have "scan_reply (data @ t) scanner_default = (Inl e, snd (scan_reply data scanner_default))"
    using assms by (intro scan_reply_final) (auto simp: scanner_default_def prod_eq_iff)
  ultimately show False by simp
qed

text \<open>One reply is handled, and the next command is sent\<close>

lemma handled_cases:
  assumes "status_ok c" "sock_open (socket c)"
  obtains "sock_id (socket (handle_response w v c)) \<noteq> sock_id (socket c)" "\<not> sock_open (socket (handle_response w v c))"
      "status_ok (handle_response w v c)"
  | "sock_id (socket (handle_response w v c)) = sock_id (socket c)" "aside (handle_response w v c) (send_next_command (handle_response w v c))"
      "same_connection c (send_next_command (handle_response w v c))" "status_ok (send_next_command (handle_response w v c))"
      "replies (send_next_command (handle_response w v c)) = replies c @ [v]"
proof -
  let ?c = "handle_response w v c"
  have u: "status_ok ?c" "same_connection c ?c \<or> \<not> sock_open (socket ?c)"
    using handle_response_undisturbed[OF assms(2), of w v] assms(1) by (auto simp: undisturbed_def)
  have a: "aside ?c (send_next_command ?c)" by (rule besides.send_next_command)
  have q: "replies (send_next_command ?c) = replies c @ [v]"
    using silent.send_next_command[of ?c] by (simp add: quiet_def handle_response_replies)
  show ?thesis
  proof (cases "sock_id (socket ?c) = sock_id (socket c)")
    case True
    with u assms have "same_connection c ?c" by (auto simp: status_ok_def)
    with a have "same_connection c (send_next_command ?c)" by (simp add: aside_defs)
    moreover have "status_ok (send_next_command ?c)" using aside_relations(1)[OF a] u(1) by (simp add: undisturbed_def)
    ultimately show ?thesis using that(2) True a q by blast
  next
    case False
    with u have "\<not> sock_open (socket ?c)" by (auto simp: same_connection_def)
    with False u that(1) show ?thesis by blast
  qed
qed

lemma reads_hung_up:
  assumes "read_value (world_platform w) (reader_init data) = (Inr v, r)" "status_ok d" "sock_open (socket d)" "replies d = replies c"
    "\<not> sock_open (socket (handle_response w v d))" "status_ok (handle_response w v d)"
  shows "reads w data c (handle_response w v d)"
  using assms by (auto simp: reads_def replies_in_Inr[OF assms(1)] handle_response_replies Let_def intro!: exI[of _ 0])

lemma reads_Cons:
  assumes "read_value (world_platform w) (reader_init data) = (Inr v, r)" "reads w (drop (r_pos r) data) c1 c'"
    "replies c1 = replies c @ [v]" "sock_id (socket c1) = sock_id (socket c)"
  shows "reads w data c c'"
proof -
  obtain vs rest where vs: "replies_in (world_platform w) (drop (r_pos r) data) = (vs, rest)" by fastforce
  then have all: "replies_in (world_platform w) data = (v # vs, rest)" using replies_in_Inr[OF assms(1)] by simp
  show ?thesis
    using assms(2-) unfolding reads_def vs all by (auto simp: Let_def intro!: exI[of _ "Suc _"])
qed

lemma process_slice_reads:
  assumes "status_ok c" "sock_open (socket c)" "sock = sock_id (socket c)" "read_buffer c = []"
  shows "reads w data c (process_slice w sock data c)"
  using assms
proof (induction "length data" arbitrary: data c rule: less_induct)
  case less
  let ?p = "world_platform w"
  obtain x r where x: "read_value ?p (reader_init data) = (x, r)" by (cases "read_value ?p (reader_init data)")
  show ?case
  proof (cases x)
    case (Inl e)
    note e = x[unfolded Inl]
    show ?thesis
    proof (cases "e = InvalidResponse")
      case True
      then have "process_slice w sock data c =
          (if data = [] then c else c\<lparr>reply_scanner := scanner_default, read_buffer := data\<rparr>)"
        using e less by (subst process_slice.simps) (simp add: scanner_reset_eq)
      then show ?thesis
        using less by (auto simp: reads_def replies_in_Inl[OF e] status_ok_def in_step_default)
    next
      case False
      then have "data \<noteq> []" using e read_value_Nil[of ?p] by auto
      then have "process_slice w sock data c = fail ''Failed to read data (stack path)'' e c"
        using e False by (subst process_slice.simps) simp
      then show ?thesis using fail_reads[OF less(2,3) read_error_broken[OF e False]] by simp
    qed
  next
    case (Inr v)
    note v = x[unfolded Inr]
    have d: "data \<noteq> []" "r_pos r \<noteq> 0" using read_value_consumes[OF v] by auto
    let ?c = "handle_response w v c"
    have step: "process_slice w sock data c =
        (if sock_id (socket ?c) \<noteq> sock then ?c else process_slice w sock (drop (r_pos r) data) (send_next_command ?c))"
      using v d by (subst process_slice.simps) (simp add: Let_def)
    show ?thesis
    proof (cases rule: handled_cases[OF less(2,3), of w v])
      case 1
      then show ?thesis using reads_hung_up[OF v less(2,3), of c] step less(4) by simp
    next
      case 2
      have "reads w (drop (r_pos r) data) (send_next_command ?c) (process_slice w sock (drop (r_pos r) data) (send_next_command ?c))"
        using less(3-) 2 d by (intro less(1)) (auto simp: same_connection_def)
      from reads_Cons[OF v this, of c] 2 have "reads w data c (process_slice w sock (drop (r_pos r) data) (send_next_command ?c))"
        by (simp add: same_connection_def)
      then show ?thesis using step 2 less(4) by simp
    qed
  qed
qed


lemma process_buffer_reads:
  assumes "status_ok c" "sock_open (socket c)" "sock = sock_id (socket c)" "read_buffer c \<noteq> [] \<longrightarrow> in_step c"
  shows "reads w (read_buffer c) c (process_buffer w sock c)"
  using assms
proof (induction "length (read_buffer c)" arbitrary: c rule: less_induct)
  case less
  let ?p = "world_platform w" and ?b = "read_buffer c"
  obtain y s where y: "scan_reply ?b (reply_scanner c) = (y, s)" by (cases "scan_reply ?b (reply_scanner c)")
  obtain x r where x: "read_value ?p (reader_init ?b) = (x, r)" by (cases "read_value ?p (reader_init ?b)")
  show ?case
  proof (cases "?b = []")
    case True
    then have "replies_in ?p ?b = ([], [])" using x read_value_Nil[of ?p] by (auto intro: replies_in_Inl)
    then show ?thesis using True less by (subst process_buffer.simps) (simp add: reads_def)
  next
    case False
    then have step: "scanned ?b (reply_scanner c)" "\<And>t. same_scan (scan_reply (?b @ t) (reply_scanner c)) (scan_reply (?b @ t) scanner_default)"
      using less(5) by (auto simp: in_step_def)
    have fresh: "fst (scan_reply ?b scanner_default) = y" using step(2)[of "[]"] y by (simp add: same_scan_def)
    have c1: "status_ok (c\<lparr>reply_scanner := s\<rparr>)" "sock_open (socket (c\<lparr>reply_scanner := s\<rparr>))" using less(2,3) by (simp_all add: status_ok_def)
    have fails: "reads w ?b c (fail m e (c\<lparr>reply_scanner := s\<rparr>))" if "broken ?p ?b" for m e
      using fail_reads[OF c1 that, of m e] by (simp add: reads_def)
    show ?thesis
    proof (cases "y = Inr Complete \<and> (\<exists>v. x = Inr v)")
      case True
      then obtain v where v: "read_value ?p (reader_init ?b) = (Inr v, r)" using x by blast
      have d: "r_pos r \<noteq> 0" using read_value_consumes[OF v] by auto
      let ?c2 = "c\<lparr>reply_scanner := scanner_default, read_buffer := drop (r_pos r) ?b\<rparr>"
      let ?c3 = "handle_response w v ?c2"
      have "c\<lparr>reply_scanner := s, read_buffer := drop (r_pos r) ?b, reply_scanner := scanner_reset s\<rparr> = ?c2" by (cases c) (simp add: scanner_reset_eq)
      then have run: "process_buffer w sock c =
          (if sock_id (socket ?c3) \<noteq> sock then ?c3 else process_buffer w sock (send_next_command ?c3))"
        using v d y True False by (subst process_buffer.simps) (simp add: Let_def)
      have c2: "status_ok ?c2" "sock_open (socket ?c2)" using less(2,3) by (simp_all add: status_ok_def)
      show ?thesis
      proof (cases rule: handled_cases[OF c2, of w v])
        case 1
        then show ?thesis using reads_hung_up[OF v c2, of c] run less(4) by simp
      next
        case 2
        let ?c4 = "send_next_command ?c3"
        have b4: "read_buffer ?c4 = drop (r_pos r) ?b" "reply_scanner ?c4 = scanner_default" using 2(3) by (simp_all add: same_connection_def)
        have "reads w (read_buffer ?c4) ?c4 (process_buffer w sock ?c4)"
          using less(3-) 2 b4 d False in_step_default[of ?c4] by (intro less(1)) (auto simp: same_connection_def)
        then have "reads w (drop (r_pos r) ?b) ?c4 (process_buffer w sock ?c4)" using b4 by simp
        from reads_Cons[OF v this, of c] 2 have "reads w ?b c (process_buffer w sock ?c4)" by (simp add: same_connection_def)
        then show ?thesis using run 2 less(4) by simp
      qed
    next
      case other: False
      consider (err) e where "y = Inl e" | (more) "y = Inr NeedMoreData" | (bad) e where "y = Inr Complete" "x = Inl e"
        using other by (cases y; cases x) (auto intro: ScanResult.exhaust)
      then show ?thesis
      proof cases
        case err
        then have "process_buffer w sock c = fail ''Failed to read data (buffer path)'' e (c\<lparr>reply_scanner := s\<rparr>)"
          using y False by (subst process_buffer.simps) simp
        moreover have "broken ?p ?b" using fresh err by (intro scan_error_broken) simp
        ultimately show ?thesis using fails by simp
      next
        case more
        have n: "replies_in ?p ?b = ([], ?b)"
          using x fresh more scan_finds_end[of ?p ?b] by (cases x) (auto intro: replies_in_Inl)
        have "same_scan (scan_reply (?b @ t) s) (scan_reply (?b @ t) scanner_default)" for t
          using same_scan_trans[OF scan_reply_go_on step(2)] y more step(1) by blast
        then have "in_step (c\<lparr>reply_scanner := s\<rparr>)" using scanned_after y more step(1) by (auto simp: in_step_def)
        moreover have "process_buffer w sock c = c\<lparr>reply_scanner := s\<rparr>"
          using y more False by (subst process_buffer.simps) simp
        ultimately show ?thesis using c1 n by (simp add: reads_def)
      next
        case bad
        then have "process_buffer w sock c = fail ''Failed to read data (buffer path)'' e (c\<lparr>reply_scanner := s\<rparr>)"
          using x y False by (subst process_buffer.simps) (simp add: Let_def)
        moreover have "e \<noteq> InvalidResponse" using scan_finds_no_end[of ?p ?b] fresh bad x by auto
        moreover from this have "broken ?p ?b" using read_error_broken x bad by blast
        ultimately show ?thesis using fails by simp
      qed
    qed
  qed
qed


lemma on_data_reads:
  assumes "status_ok c" "sock_open (socket c)" "read_buffer c \<noteq> [] \<longrightarrow> in_step c"
  shows "reads w (read_buffer c @ data) c (on_data w data c)"
proof (cases "read_buffer c = []")
  case True
  then show ?thesis using process_slice_reads[OF assms(1,2) refl True, of w data] by (simp add: on_data_def Let_def)
next
  case False
  let ?c = "c\<lparr>read_buffer := read_buffer c @ data\<rparr>"
  have "in_step ?c" using assms(3) False by (simp add: in_step_def scanned_append)
  then have "reads w (read_buffer ?c) ?c (process_buffer w (sock_id (socket c)) ?c)"
    using assms(1,2) by (intro process_buffer_reads) (simp_all add: status_ok_def)
  then show ?thesis using False by (simp add: on_data_def Let_def reads_def)
qed

text \<open>The pieces in which the data of a connection arrives, until it is closed\<close>

fun feed :: "'f world \<Rightarrow> bytes list \<Rightarrow> 'f client_update" where
  "feed w [] c = c"
| "feed w (data # rest) c = (let c = on_data w data c in if sock_open (socket c) then feed w rest c else c)"

lemma broken_append: "broken p data \<Longrightarrow> broken p (data @ t)"
  by (simp add: broken_def)

lemma replies_in_broken: "broken p data \<Longrightarrow> replies_in p data = ([], data)"
  using replies_in_Inl[of p data] unfolding broken_def by (metis append_Nil2 old.sum.exhaust surj_pair)

lemma reads_then:
  assumes first: "reads w a c c1" and then_reads: "sock_open (socket c1) \<Longrightarrow> reads w (read_buffer c1 @ b) c1 c'"
    and closed: "\<not> sock_open (socket c1) \<Longrightarrow> c' = c1"
  shows "reads w (a @ b) c c'"
proof -
  let ?p = "world_platform w"
  obtain vs rest where a: "replies_in ?p a = (vs, rest)" by fastforce
  obtain vs' rest' where b: "replies_in ?p (rest @ b) = (vs', rest')" by fastforce
  have ab: "replies_in ?p (a @ b) = (vs @ vs', rest')" using replies_in_append[of ?p a b] a b by simp
  show ?thesis
  proof (cases "sock_open (socket c1)")
    case True
    then have c1: "sock_id (socket c1) = sock_id (socket c)" "replies c1 = replies c @ vs" "read_buffer c1 = rest"
      using first by (auto simp: reads_def a Let_def)
    have "reads w (rest @ b) c1 c'" using then_reads[OF True] c1(3) by simp
    moreover have "\<exists>n < length (vs @ vs'). \<exists>d. replies c' = replies c @ take (Suc n) (vs @ vs') \<and>
        sock_open (socket d) \<and> c' = handle_response w ((vs @ vs') ! n) d"
      if "n < length vs'" "replies c' = replies c1 @ take (Suc n) vs'" "sock_open (socket d)" "c' = handle_response w (vs' ! n) d" for n d
      using that c1(2) by (intro exI[of _ "length vs + n"] conjI exI[of _ d]) simp_all
    ultimately show ?thesis using c1(1,2) unfolding reads_def ab by (auto simp: b Let_def)
  next
    case False
    then consider "replies c1 = replies c @ vs" "broken ?p rest"
      | n d where "n < length vs" "replies c1 = replies c @ take (Suc n) vs" "sock_open (socket d)" "c1 = handle_response w (vs ! n) d"
      using first by (auto simp: reads_def a Let_def)
    then show ?thesis
    proof cases
      case 1
      then have "vs' = []" "rest' = rest @ b" using b replies_in_broken[OF broken_append[OF 1(2)]] by auto
      then show ?thesis
        using 1 first False closed by (simp add: reads_def a ab Let_def broken_append)
    next
      case 2
      then have "n < length (vs @ vs')" "(vs @ vs') ! n = vs ! n" "take (Suc n) (vs @ vs') = take (Suc n) vs"
        by (simp_all add: nth_append)
      then have "\<exists>n < length (vs @ vs'). \<exists>d. replies c1 = replies c @ take (Suc n) (vs @ vs') \<and>
          sock_open (socket d) \<and> c1 = handle_response w ((vs @ vs') ! n) d"
        using 2 by (intro exI[of _ n] conjI exI[of _ d]) (simp_all add: nth_append)
      then show ?thesis using first False closed by (simp add: reads_def a ab Let_def)
    qed
  qed
qed

lemma replies_in_rest: "replies_in p (snd (replies_in p a)) = ([], snd (replies_in p a))"
  using replies_in_append[of p a "[]"] by (simp add: prod_eq_iff)

lemma feed_reads:
  assumes "status_ok c" "sock_open (socket c)" "read_buffer c \<noteq> [] \<longrightarrow> in_step c"
    and "replies_in (world_platform w) (read_buffer c) = ([], read_buffer c)"
  shows "reads w (read_buffer c @ concat ds) c (feed w ds c)"
  using assms
proof (induction ds arbitrary: c)
  case Nil
  then show ?case by (simp add: reads_def)
next
  case (Cons data ds)
  let ?c = "on_data w data c"
  have first: "reads w (read_buffer c @ data) c ?c" using Cons.prems(1-3) by (rule on_data_reads)
  then have "sock_open (socket ?c) \<Longrightarrow> reads w (read_buffer ?c @ concat ds) ?c (feed w ds ?c)"
    using replies_in_rest[of "world_platform w" "read_buffer c @ data"]
    by (intro Cons.IH) (auto simp: reads_def Let_def split: prod.splits)
  then show ?case using reads_then[OF first, of "concat ds" "feed w (data # ds) c"] by (simp add: Let_def)
qed


section \<open>Properties\<close>

definition example_world :: "nat world" where
  "example_world = \<lparr>world_platform = example_platform, script = (\<lambda>_. [])\<rparr>"

definition example_client :: "nat ValkeyClient" where
  "example_client = \<lparr>socket = detached, status = NeverConnected, write_buffer = [], read_buffer = [], reply_scanner = scanner_default,
     in_flight = [], queue = [], username = [], password = [], database = 0, retry_attempts = 0, max_retries = 20,
     flags = flags_default, flusher_registered = False,
     subscription = \<lparr>is_subscriber = False, original_enable_offline_queue = True, original_enable_auto_pipelining = True\<rparr>,
     receive_handlers = 0, context_stopped = False, deferred = [], next_promise = 0, settled = [], replies = [], placed = [], events = []\<rparr>"

definition example_socket :: Socket where
  "example_socket = \<lparr>sock_id = 1, sock_open = True, sock_sent = [], sock_takes = [3]\<rparr>"

lemmas example_defs = example_client_def example_socket_def example_world_def example_platform_def flags_default_def detached_def

text \<open>C14. The scanner and the parser agree on where a reply ends: where the parser reads a reply, the scanner finds its end at the
  position that the parser reaches, and where the scanner finds the end of a reply, the parser does not run out of bytes. A scanner
  that asked for more data goes on with it to the same outcome, and without an error to the same state, as a scan of everything from the
  start; so it does after any number of pieces.\<close>

theorem scanner_agrees_with_parser:
  "(read_value p (reader_init data) = (Inr v, r) \<longrightarrow>
      scan_reply data scanner_default = (Inr Complete, \<lparr>s_pos = r_pos r, s_stack = [], s_crlf_skip = 0\<rparr>)) \<and>
   (fst (scan_reply data scanner_default) = Inr Complete \<longrightarrow> fst (read_value p (reader_init data)) \<noteq> Inl InvalidResponse) \<and>
   (scan_reply data scanner_default = (Inr NeedMoreData, s) \<longrightarrow>
      same_scan (scan_reply (data @ rest) s) (scan_reply (data @ rest) scanner_default))"
  using scan_finds_end[of p data v r] scan_finds_no_end[of p data] scan_reply_go_on[of data scanner_default s rest]
  by (cases "read_value p (reader_init data)") (auto simp: scanner_default_def scanned_def)

lemma read_status: "\<exists>r. read_value p (reader_init (''+OK'' @ CRLF)) = (Inr (RSimpleString ''OK''), r) \<and> r_pos r = 5"
proof -
  let ?r = "\<lambda>b. reader_init (''+OK'' @ CRLF)\<lparr>prealloc_budget := b\<rparr>"
  have "read_byte (?r b) = (Inr CHR ''+'', (?r b)\<lparr>r_pos := 1\<rparr>)" for b by (simp add: read_byte_def reader_init_def)
  moreover have "read_until_crlf ((?r b)\<lparr>r_pos := 1\<rparr>) = (Inr ''OK'', (?r b)\<lparr>r_pos := 5\<rparr>)" for b
    using read_line[of "(?r b)\<lparr>r_pos := 1\<rparr>" "''OK''" "[]"] by (simp add: reader_init_def MAX_LINE_LEN_def MAX_BULK_LEN_def)
  ultimately show ?thesis
    by (simp add: read_value_def read_value_with_depth.simps[of p 0] next_do_def from_byte_def read_typed.simps ok_with_def reader_init_def)
qed

theorem scanner_agrees_with_parser_witness:
  "scan_reply (''+OK'' @ CRLF) scanner_default = (Inr Complete, \<lparr>s_pos = 5, s_stack = [], s_crlf_skip = 0\<rparr>) \<and>
   fst (read_value example_platform (reader_init (''+OK'' @ CRLF))) \<noteq> Inl InvalidResponse"
proof -
  obtain r where "read_value example_platform (reader_init (''+OK'' @ CRLF)) = (Inr (RSimpleString ''OK''), r)" "r_pos r = 5"
    using read_status by blast
  with scanner_agrees_with_parser[of example_platform "''+OK'' @ CRLF" "RSimpleString ''OK''" r] show ?thesis by simp
qed

text \<open>C12. The data of a server may arrive in any pieces: an open connection that holds no partial reply has handled, after any sequence of
  pieces, exactly the replies of the whole stream and holds what follows them, until it is closed. It is closed by the handling of a reply of
  the stream, or when the stream continues with bytes that are not the beginning of a reply whatever may come after them.\<close>

theorem data_in_any_pieces:
  assumes "status_ok c" "sock_open (socket c)" "read_buffer c = []"
    and "c' = feed w pieces c" "replies_in (world_platform w) (concat pieces) = (vs, rest)"
  shows "sock_open (socket c') \<and> replies c' = replies c @ vs \<and> read_buffer c' = rest \<or>
    \<not> sock_open (socket c') \<and> replies c' = replies c @ vs \<and>
      (\<forall>t v r. read_value (world_platform w) (reader_init (rest @ t)) \<noteq> (Inr v, r)) \<or>
    \<not> sock_open (socket c') \<and> (\<exists>n < length vs. \<exists>d. replies c' = replies c @ take (Suc n) vs \<and>
      sock_open (socket d) \<and> c' = handle_response w (vs ! n) d)"
proof -
  have "replies_in (world_platform w) [] = ([], [])" using read_value_Nil[of "world_platform w"]
    by (cases "read_value (world_platform w) (reader_init [])") (auto intro: replies_in_Inl)
  then have "reads w (concat pieces) c c'" using feed_reads[of c w pieces] assms(1-4) by simp
  then show ?thesis using assms(5) unfolding reads_def broken_def by auto
qed


theorem data_in_any_pieces_witness:
  "let c = example_client\<lparr>socket := example_socket, status := Connected\<rparr>; c' = feed example_world [''+O'', ''K'' @ [CHR 0x0D], [CHR 0x0A]] c
   in sock_open (socket c') \<and> replies c' = [RSimpleString ''OK''] \<and> read_buffer c' = [] \<or>
      \<not> sock_open (socket c') \<and> replies c' = [RSimpleString ''OK''] \<and>
        (\<forall>t v r. read_value example_platform (reader_init t) \<noteq> (Inr v, r)) \<or>
      \<not> sock_open (socket c') \<and> (\<exists>n < 1. \<exists>d. replies c' = take (Suc n) [RSimpleString ''OK''] \<and>
        sock_open (socket d) \<and> c' = handle_response example_world ([RSimpleString ''OK''] ! n) d)"
proof -
  let ?c = "example_client\<lparr>socket := example_socket, status := Connected\<rparr>" and ?pieces = "[''+O'', ''K'' @ [CHR 0x0D], [CHR 0x0A]]"
  have c: "status_ok ?c" "sock_open (socket ?c)" "read_buffer ?c = []" by (simp_all add: example_defs status_ok_def)
  have p: "concat ?pieces = ''+OK'' @ CRLF" by (simp add: CRLF_def)
  obtain r where r: "read_value (world_platform example_world) (reader_init (''+OK'' @ CRLF)) = (Inr (RSimpleString ''OK''), r)" "r_pos r = 5"
    using read_status by blast
  have "replies_in (world_platform example_world) [] = ([], [])" using read_value_Nil[of "world_platform example_world"]
    by (cases "read_value (world_platform example_world) (reader_init [])") (auto intro: replies_in_Inl)
  then have "replies_in (world_platform example_world) (concat ?pieces) = ([RSimpleString ''OK''], [])"
    unfolding p using replies_in_Inr[OF r(1)] r(2) by (simp add: CRLF_def)
  from data_in_any_pieces[OF c refl this] show ?thesis by (simp add: Let_def example_defs)
qed

end
