(* ===== verification/ValkeyPairing.thy ===== *)
theory ValkeyPairing
  imports ValkeyChunks "HOL-Library.Sublist" "HOL-Library.Multiset"
begin

text \<open>
  Commands and replies are paired in order, and every promise is settled once: the invariant of the queues, the
  settled promises and the bytes on the wire, and that every operation of the client keeps it. It also shows where a
  promise is lost.
\<close>

section \<open>The invariant\<close>

definition flight_ids :: "'f ValkeyClient \<Rightarrow> nat list" where
  "flight_ids c = map (\<lambda>p. pr_id (pair_promise p)) (in_flight c)"

definition queue_ids :: "'f ValkeyClient \<Rightarrow> nat list" where
  "queue_ids c = map (\<lambda>e. pr_id (entry_promise e)) (queue c)"

definition deferred_ids :: "DeferredFailure \<Rightarrow> nat list" where
  "deferred_ids d = map (\<lambda>p. pr_id (pair_promise p)) (df_in_flight d) @ map (\<lambda>e. pr_id (entry_promise e)) (df_queue d)"

text \<open>All promises that the client knows of, settled or not\<close>

definition known_ids :: "'f ValkeyClient \<Rightarrow> nat list" where
  "known_ids c = map fst (settled c) @ concat (map deferred_ids (deferred c)) @ flight_ids c @ queue_ids c"

text \<open>Every promise is known once, except those of \<open>D\<close>; what waits is in the order in which it was sent\<close>

definition ledger :: "nat set \<Rightarrow> 'f ValkeyClient \<Rightarrow> bool" where
  "ledger D c \<longleftrightarrow> distinct (known_ids c) \<and> set (known_ids c) \<inter> D = {} \<and> set (known_ids c) \<union> D = {..<next_promise c} \<and>
     sorted_wrt (<) (flight_ids c @ queue_ids c) \<and> (failed (flags c) \<longrightarrow> in_flight c = [] \<and> queue c = [])"

text \<open>The bytes that the server has or will get are the handshake \<open>H\<close> and the commands in the order of the queue in flight\<close>

definition wired :: "bytes \<Rightarrow> 'f ValkeyClient \<Rightarrow> bool" where
  "wired H c \<longleftrightarrow>
     (status c = Connected \<longrightarrow> sock_open (socket c)) \<and> (status c = Disconnected \<longrightarrow> \<not> sock_open (socket c)) \<and>
     (status c \<noteq> Connected \<longrightarrow> in_flight c = []) \<and>
     (sock_open (socket c) \<longrightarrow> sock_sent (socket c) @ write_buffer c = H @ concat (map snd (placed c)) \<and>
        suffix (flight_ids c) (map fst (placed c)))"

definition sound :: "nat set \<Rightarrow> bytes \<Rightarrow> 'f ValkeyClient \<Rightarrow> bool" where
  "sound D H c \<longleftrightarrow> ledger D c \<and> wired H c"

lemmas id_defs = known_ids_def flight_ids_def queue_ids_def

section \<open>Elementary updates\<close>

lemma ledger_cong:
  assumes "ledger D c" "mset (known_ids c') = mset (known_ids c)" "next_promise c' = next_promise c"
    "sorted_wrt (<) (flight_ids c' @ queue_ids c')" "failed (flags c') \<Longrightarrow> in_flight c' = [] \<and> queue c' = []"
  shows "ledger D c'"
proof -
  have "set (known_ids c') = set (known_ids c)" "distinct (known_ids c') = distinct (known_ids c)"
    using assms(2) by (metis set_mset_mset, metis mset_eq_imp_distinct_iff)
  then show ?thesis using assms by (simp add: ledger_def)
qed

text \<open>An update of fields that the invariant does not speak of\<close>

lemma sound_cong:
  assumes "sound D H c"
    "(settled c', deferred c', in_flight c', queue c', next_promise c', socket c', write_buffer c', placed c') =
     (settled c, deferred c, in_flight c, queue c, next_promise c, socket c, write_buffer c, placed c)"
    "failed (flags c') = failed (flags c)"
    "status c' = status c \<or> sock_open (socket c) \<and> status c' = Connected"
  shows "sound D H c'"
  using assms by (auto simp: sound_def ledger_def wired_def id_defs)

lemma socket_write_split:
  assumes "socket_write data s = (wrote, s')"
  shows "sock_open s' = sock_open s" "sock_open s \<Longrightarrow> sock_sent s' @ drop (nat wrote) data = sock_sent s @ data"
    "sock_open s \<Longrightarrow> wrote \<le> 0 \<Longrightarrow> sock_sent s' = sock_sent s"
  using assms by (auto simp: socket_write_def min_def split: if_splits list.splits)

lemma sound_flush:
  assumes "sound D H c"
  shows "sound D H (snd (flush_data c))"
proof (cases "write_buffer c = []")
  case False
  obtain wrote s' where w: "socket_write (write_buffer c) (socket c) = (wrote, s')" by fastforce
  let ?b = "if wrote > 0 then drop (nat wrote) (write_buffer c) else write_buffer c"
  have e: "snd (flush_data c) = c\<lparr>socket := s', write_buffer := ?b\<rparr>"
    using False w by (simp add: flush_data_def Let_def)
  have "sock_open (socket c) \<Longrightarrow> sock_sent s' @ ?b = sock_sent (socket c) @ write_buffer c"
    using socket_write_split[OF w] by (cases "wrote > 0") auto
  then show ?thesis
    using assms socket_write_split(1)[OF w] unfolding e by (auto simp: sound_def ledger_def wired_def id_defs)
qed (use assms in \<open>simp add: flush_data_def\<close>)

text \<open>The first command of the queue, or a command that finds it empty, is put in flight\<close>

lemma sound_place:
  assumes "ledger D c" "wired H c" "queue c = e # es" "status c = Connected"
    "sock_sent s' @ b = sock_sent (socket c) @ write_buffer c @ serialized_data e" "sock_open s'"
  shows "sound D H ((put_in_flight e (c\<lparr>queue := es\<rparr>))\<lparr>socket := s', write_buffer := b\<rparr>)"
proof -
  let ?c = "(put_in_flight e (c\<lparr>queue := es\<rparr>))\<lparr>socket := s', write_buffer := b\<rparr>"
  have "known_ids ?c = known_ids c" "flight_ids ?c @ queue_ids ?c = flight_ids c @ queue_ids c"
    using assms(3) by (simp_all add: id_defs put_in_flight_def)
  then have "ledger D ?c" using assms(1,3) by (simp add: ledger_def put_in_flight_def)
  moreover have "wired H ?c"
    using assms(2,4-6) by (auto simp: wired_def put_in_flight_def flight_ids_def suffix_def)
  ultimately show ?thesis by (simp add: sound_def)
qed

lemma sound_drain:
  assumes "connection_ready c" "sound D H c"
  shows "sound D H (snd (drain_queue c))"
proof (cases "queue c")
  case Nil
  then show ?thesis using assms(2) by (simp add: drain_queue_def)
next
  case (Cons e es)
  have st: "status c = Connected" "sock_open (socket c)" "ledger D c" "wired H c"
    using assms by (auto simp: connection_ready_def sound_def wired_def)
  show ?thesis
  proof (cases "in_flight c \<noteq> [] \<and> \<not> supports_auto_pipelining (entry_meta e)")
    case True
    then show ?thesis using assms(2) Cons by (simp add: drain_queue_def)
  next
    case False
    obtain wrote s' where w: "socket_write (serialized_data e) (socket c) = (wrote, s')" by fastforce
    have sent: "sock_sent s' @ drop (nat (max wrote 0)) (serialized_data e) = sock_sent (socket c) @ serialized_data e"
      using socket_write_split[OF w] st(2) by (cases "wrote > 0") (auto simp: max_def)
    show ?thesis
    proof (cases "write_buffer c = []")
      case True
      then have "snd (drain_queue c) = (put_in_flight e (c\<lparr>queue := es\<rparr>))\<lparr>socket := s', write_buffer := drop (nat (max wrote 0)) (serialized_data e)\<rparr>"
        using Cons False assms(1) w by (cases c) (auto simp: drain_queue_def Let_def put_in_flight_def connection_ready_def)
      then show ?thesis
        using sound_place[OF st(3,4) Cons st(1), of s' "drop (nat (max wrote 0)) (serialized_data e)"] sent True socket_write_split(1)[OF w] st(2)
        by simp
    next
      case nonempty: False
      then have "snd (drain_queue c) = (put_in_flight e (c\<lparr>queue := es\<rparr>))\<lparr>socket := socket c, write_buffer := write_buffer c @ serialized_data e\<rparr>"
        using Cons False by (cases c) (auto simp: drain_queue_def Let_def put_in_flight_def)
      then show ?thesis using sound_place[OF st(3,4) Cons st(1), of "socket c" "write_buffer c @ serialized_data e"] st(2) by simp
    qed
  qed
qed


section \<open>Sending\<close>

lemma ledger_less: "ledger D c \<Longrightarrow> x \<in> set (known_ids c) \<Longrightarrow> x < next_promise c"
  unfolding ledger_def by blast

lemma ledger_pending_less: "ledger D c \<Longrightarrow> x \<in> set (flight_ids c @ queue_ids c) \<Longrightarrow> x < next_promise c"
  using ledger_less[of D c x] by (simp add: known_ids_def)

lemma ledger_D: "ledger D c \<Longrightarrow> next_promise c \<notin> D"
  unfolding ledger_def by (metis Un_iff lessThan_iff less_irrefl)

text \<open>A new promise waits at the end of the queue\<close>

lemma ledger_enqueue:
  assumes "ledger D c" "\<not> failed (flags c)" "pr_id (entry_promise e) = next_promise c"
  shows "ledger D (c\<lparr>next_promise := Suc (next_promise c), queue := queue c @ [e]\<rparr>)"
proof -
  let ?c = "c\<lparr>next_promise := Suc (next_promise c), queue := queue c @ [e]\<rparr>"
  have k: "known_ids ?c = known_ids c @ [next_promise c]" "flight_ids ?c @ queue_ids ?c = (flight_ids c @ queue_ids c) @ [next_promise c]"
    using assms(3) by (simp_all add: id_defs)
  have "next_promise c \<notin> set (known_ids c)" "next_promise c \<notin> D" using ledger_less[OF assms(1)] ledger_D[OF assms(1)] by auto
  moreover have "\<forall>x \<in> set (flight_ids c @ queue_ids c). x < next_promise c" using ledger_pending_less[OF assms(1)] by blast
  ultimately show ?thesis
    using assms(1,2) unfolding ledger_def k by (auto simp: sorted_wrt_append lessThan_Suc)
qed

lemma ledger_reject_new:
  assumes "ledger D c"
  shows "ledger D (settle \<lparr>pr_meta = m, pr_id = next_promise c\<rparr> e (c\<lparr>next_promise := Suc (next_promise c)\<rparr>))" (is "ledger D ?c")
proof -
  have k: "mset (known_ids ?c) = mset (known_ids c @ [next_promise c])" "flight_ids ?c = flight_ids c" "queue_ids ?c = queue_ids c"
    by (simp_all add: id_defs settle_def)
  have "set (known_ids ?c) = insert (next_promise c) (set (known_ids c))" "distinct (known_ids ?c) = distinct (known_ids c @ [next_promise c])"
    using k(1) by (metis Un_insert_right list.simps(15) set_append set_mset_mset sup_bot_right empty_set, metis mset_eq_imp_distinct_iff)
  moreover have "next_promise c \<notin> set (known_ids c)" "next_promise c \<notin> D" using ledger_less[OF assms(1)] ledger_D[OF assms(1)] by auto
  ultimately show ?thesis
    using assms unfolding ledger_def k(2,3) by (auto simp: settle_def lessThan_Suc)
qed

lemma sound_send:
  assumes "sound D H c"
  shows "sound D H (send command c)"
proof -
  let ?cmd = "command\<lparr>cmd_meta := meta_check (cmd_meta command) command\<rparr>"
  let ?e = "\<lparr>serialized_data = serialize ?cmd, entry_meta = cmd_meta ?cmd, entry_promise = \<lparr>pr_meta = cmd_meta ?cmd, pr_id = next_promise c\<rparr>\<rparr>"
  let ?c = "c\<lparr>next_promise := Suc (next_promise c)\<rparr>"
  have l: "ledger D c" "wired H c" using assms by (auto simp: sound_def)
  have reg: "sound D H (register_auto_flusher d)" if "sound D H d" for d
    by (rule sound_cong[OF that]) (simp_all add: register_auto_flusher_def)
  show ?thesis
  proof (cases "send_rejection ?c")
    case (Some message)
    have "sound D H (settle (entry_promise ?e) (Rejected message ConnectionClosed) ?c)"
      using ledger_reject_new[OF l(1)] l(2) by (simp add: sound_def wired_def settle_def flight_ids_def)
    then show ?thesis using Some by (simp add: send_def Let_def)
  next
    case None
    then have nf: "\<not> failed (flags c)" by (auto simp: send_rejection_def split: if_splits)
    have q: "ledger D (?c\<lparr>queue := queue c @ [?e]\<rparr>)" using ledger_enqueue[OF l(1) nf, of ?e] by simp
    have "sound D H (enqueue ?cmd (entry_promise ?e) ?c)"
    proof (cases "queue c = [] \<and> connection_ready c \<and> enqueue ?cmd (entry_promise ?e) ?c =
        snd (flush_data (put_in_flight ?e (?c\<lparr>write_buffer := write_buffer c @ command_write ?cmd\<rparr>)))")
      case True
      then have st: "status c = Connected" "sock_open (socket c)" using l(2) by (auto simp: connection_ready_def wired_def)
      have "sound D H ((put_in_flight ?e (?c\<lparr>queue := []\<rparr>))\<lparr>socket := socket c, write_buffer := write_buffer c @ command_write ?cmd\<rparr>)"
        using sound_place[OF q, of H ?e "[]" "socket c" "write_buffer c @ command_write ?cmd"] l(2) True st
        by (simp add: wired_def serialize_def flight_ids_def)
      moreover have "(put_in_flight ?e (?c\<lparr>queue := []\<rparr>))\<lparr>socket := socket c, write_buffer := write_buffer c @ command_write ?cmd\<rparr> =
          put_in_flight ?e (?c\<lparr>write_buffer := write_buffer c @ command_write ?cmd\<rparr>)"
        using True by (cases c) (simp add: put_in_flight_def)
      ultimately show ?thesis using True sound_flush by metis
    next
      case False
      have s: "sound D H (?c\<lparr>queue := queue c @ [?e]\<rparr>)" using q l(2) by (simp add: sound_def wired_def flight_ids_def)
      have "enqueue ?cmd (entry_promise ?e) ?c \<in>
          {?c\<lparr>queue := queue c @ [?e]\<rparr>, register_auto_flusher (?c\<lparr>queue := queue c @ [?e]\<rparr>)}"
        using False by (auto simp: enqueue_def Let_def connection_ready_def)
      then show ?thesis using s reg[OF s] by auto
    qed
    then show ?thesis using None reg by (auto simp: send_def Let_def)
  qed
qed


section \<open>Failing and closing\<close>

lemma ledger_update:
  assumes "ledger D c"
    "(settled c', deferred c', in_flight c', queue c', next_promise c') = (settled c, deferred c, in_flight c, queue c, next_promise c)"
    "failed (flags c') = failed (flags c)"
  shows "ledger D c'"
  using assms by (simp add: ledger_def id_defs)

lemma ledger_reject_all:
  assumes "ledger D c"
  shows "ledger D (reject_all_pending_commands e (c\<lparr>flags := f\<rparr>))"
  by (rule ledger_cong[OF assms]) (simp_all add: reject_all_eq id_defs comp_def)

lemma fail_closed_ledger:
  assumes "ledger D c" "\<not> sock_open (socket c)"
  shows "ledger D (fail message err c) \<and> in_flight (fail message err c) = [] \<and> queue (fail message err c) = []"
proof (cases "failed (flags c)")
  case True
  then have "fail message err c = c" by (subst fail.simps) simp
  then show ?thesis using assms(1) True by (simp add: ledger_def)
next
  case nf: False
  show ?thesis
  proof (cases "finalized (flags c)")
    case True
    then have e: "fail message err c = (if queue c \<noteq> [] \<or> in_flight c \<noteq> [] then
        c\<lparr>deferred := deferred c @ [\<lparr>df_message = message, df_err = err, df_in_flight = in_flight c, df_queue = queue c\<rparr>], in_flight := [], queue := []\<rparr>
        else c)"
      using nf by (subst fail.simps) simp
    have "ledger D (fail message err c)"
      unfolding e by (rule ledger_cong[OF assms(1)]) (use assms(1) in \<open>auto simp: id_defs deferred_ids_def ledger_def\<close>)
    then show ?thesis by (simp add: e)
  next
    case False
    let ?d = "reject_all_pending_commands (Rejected message err) (c\<lparr>flags := (flags c)\<lparr>failed := True, is_reconnecting := False\<rparr>\<rparr>)"
    have "fail message err c = ?d"
      using nf False assms(2) by (subst fail.simps) (simp add: Let_def close.simps reject_all_eq)
    then show ?thesis using ledger_reject_all[OF assms(1)] by (simp add: reject_all_eq)
  qed
qed

lemma reject_in_flight_ledger:
  assumes "ledger D c"
  shows "ledger D (reject_in_flight_commands message err c) \<and> in_flight (reject_in_flight_commands message err c) = []"
proof -
  have q: "sorted_wrt (<) (queue_ids c)" "failed (flags c) \<longrightarrow> queue c = []" using assms by (simp_all add: ledger_def sorted_wrt_append)
  have "ledger D (reject_pairs (in_flight c) (Rejected message err) (c\<lparr>in_flight := []\<rparr>))"
    by (rule ledger_cong[OF assms]) (use q in \<open>simp_all add: reject_pairs_eq id_defs comp_def\<close>)
  moreover have "ledger D (c\<lparr>deferred := deferred c @ [\<lparr>df_message = message, df_err = err, df_in_flight = in_flight c, df_queue = []\<rparr>], in_flight := []\<rparr>)"
    by (rule ledger_cong[OF assms]) (use q in \<open>simp_all add: id_defs deferred_ids_def\<close>)
  ultimately show ?thesis using assms by (simp add: reject_in_flight_commands_def reject_pairs_eq)
qed

lemma on_close_ledger:
  assumes "ledger D c" "\<not> sock_open (socket c)"
  shows "ledger D (on_close c) \<and> in_flight (on_close c) = []"
proof -
  let ?c = "(unregister_auto_flusher c)\<lparr>write_buffer := [], read_buffer := [], reply_scanner := scanner_reset (reply_scanner c)\<rparr>"
  have c: "ledger D ?c" "\<not> sock_open (socket ?c)" using assms(2) ledger_update[OF assms(1)] by (simp_all add: unregister_auto_flusher_def)
  have r: "ledger D (?c\<lparr>retry_attempts := n\<rparr>)" "\<not> sock_open (socket (?c\<lparr>retry_attempts := n\<rparr>))"
    "ledger D (?c\<lparr>retry_attempts := n, flags := (flags ?c)\<lparr>is_reconnecting := True, is_selecting_db_internal := False\<rparr>\<rparr>)" for n
    using c(2) ledger_update[OF c(1)] by simp_all
  have e: "ledger D (d\<lparr>events := es\<rparr>)" if "ledger D d" for d :: "'a ValkeyClient" and es
    by (rule ledger_update[OF that]) simp_all
  have s: "reply_scanner (unregister_auto_flusher c) = reply_scanner c" by (simp add: unregister_auto_flusher_def)
  show ?thesis
    unfolding on_close.simps[of c] Let_def s
    using fail_closed_ledger[OF c] fail_closed_ledger[OF r(1,2)] reject_in_flight_ledger[OF r(3)] e by simp
qed

lemma sound_close: "ledger D c \<Longrightarrow> wired H c \<or> sock_open (socket c) \<Longrightarrow> sound D H (close c)"
proof (cases "sock_open (socket c)")
  case True
  assume "ledger D c"
  let ?c = "c\<lparr>socket := detached, status := Disconnected\<rparr>"
  have "ledger D ?c" by (rule ledger_update[OF \<open>ledger D c\<close>]) simp_all
  from on_close_ledger[OF this] have "ledger D (on_close ?c)" "in_flight (on_close ?c) = []" by (simp_all add: detached_def)
  moreover have "status (on_close ?c) = Disconnected" "\<not> sock_open (socket (on_close ?c))"
    using on_close_closed[of ?c] by (simp_all add: beside_defs detached_def)
  ultimately show ?thesis using True by (subst close.simps) (simp add: sound_def wired_def)
next
  case False
  assume "ledger D c" "wired H c \<or> sock_open (socket c)"
  then show ?thesis using False by (subst close.simps) (simp add: sound_def)
qed

lemma sound_on_close: "status c = Disconnected \<Longrightarrow> sound D H c \<Longrightarrow> sound D H (on_close c)"
  using on_close_ledger[of D c] on_close_closed[of c] by (auto simp: sound_def wired_def beside_defs)

lemma sound_fail:
  assumes "sound D H c"
  shows "sound D H (fail message err c)"
proof (cases "sock_open (socket c)")
  case closed: False
  have "status c \<noteq> Connected" using assms closed by (auto simp: sound_def wired_def)
  then show ?thesis
    using fail_closed_ledger[of D c] fail_closed[OF closed, of message err] closed assms by (auto simp: sound_def wired_def beside_defs)
next
  case True
  show ?thesis
  proof (cases "failed (flags c) \<or> finalized (flags c)")
    case still: True
    have "fail message err c = (if failed (flags c) \<or> queue c = [] \<and> in_flight c = [] then c else
        c\<lparr>deferred := deferred c @ [\<lparr>df_message = message, df_err = err, df_in_flight = in_flight c, df_queue = queue c\<rparr>], in_flight := [], queue := []\<rparr>)"
      using still by (subst fail.simps) auto
    moreover have "ledger D (c\<lparr>deferred := deferred c @ [\<lparr>df_message = message, df_err = err, df_in_flight = in_flight c, df_queue = queue c\<rparr>],
        in_flight := [], queue := []\<rparr>)"
      by (rule ledger_cong[of D c]) (use assms in \<open>simp_all add: id_defs deferred_ids_def sound_def\<close>)
    ultimately show ?thesis using assms by (simp add: sound_def wired_def flight_ids_def)
  next
    case False
    let ?d = "reject_all_pending_commands (Rejected message err) (c\<lparr>flags := (flags c)\<lparr>failed := True, is_reconnecting := False\<rparr>\<rparr>)"
    have "fail message err c = close ?d" using False by (subst fail.simps) (simp add: Let_def)
    moreover have "ledger D ?d" using assms ledger_reject_all by (auto simp: sound_def)
    moreover have "sock_open (socket ?d)" using True by (simp add: reject_all_eq)
    ultimately show ?thesis using sound_close by metis
  qed
qed

definition keeps :: "nat set \<Rightarrow> bytes \<Rightarrow> 'f ValkeyClient \<Rightarrow> 'f ValkeyClient \<Rightarrow> bool" where
  "keeps D H c c' \<longleftrightarrow> (sound D H c \<longrightarrow> sound D H c')"

interpretation keeping: client_relation "keeps D H :: 'f ValkeyClient \<Rightarrow> 'f ValkeyClient \<Rightarrow> bool" "\<lambda>c. sock_open (socket c)"
proof
  show "keeps D H c (close c)" for c :: "'f ValkeyClient" using sound_close[of D c H] by (auto simp: keeps_def sound_def)
qed (auto simp: keeps_def sound_flush sound_drain sound_send sound_fail sound_on_close register_auto_flusher_def unregister_auto_flusher_def
    intro: sound_cong)

lemma keeps_subscription: "keeps D H c (add_subscription c)" "keeps D H c (remove_subscription c)"
  by (auto simp: keeps_def intro!: sound_cong[of D H c] simp: add_subscription_def remove_subscription_def Let_def)

section \<open>Replies\<close>

lemma sound_settle:
  assumes "sound (insert (pr_id p) D) H c" "pr_id p \<notin> D"
  shows "sound D H (settle p e c)"
proof -
  have l: "ledger (insert (pr_id p) D) c" "wired H c" using assms(1) by (simp_all add: sound_def)
  have k: "set (known_ids (settle p e c)) = insert (pr_id p) (set (known_ids c))"
    "distinct (known_ids (settle p e c)) = (pr_id p \<notin> set (known_ids c) \<and> distinct (known_ids c))"
    by (auto simp: id_defs settle_def)
  have "ledger D (settle p e c)"
    using l(1) assms(2) unfolding ledger_def k by (auto simp: settle_def flight_ids_def queue_ids_def)
  then show ?thesis using l(2) by (simp add: sound_def wired_def settle_def flight_ids_def)
qed

lemma sound_pop:
  assumes "sound D H c" "in_flight c = p # ps"
  shows "sound (insert (pr_id (pair_promise p)) D) H (c\<lparr>in_flight := ps\<rparr>) \<and> pr_id (pair_promise p) \<notin> D"
proof -
  let ?k = "pr_id (pair_promise p)" and ?c = "c\<lparr>in_flight := ps\<rparr>"
  have l: "ledger D c" "wired H c" using assms(1) by (simp_all add: sound_def)
  have k: "set (known_ids c) = insert ?k (set (known_ids ?c))" "distinct (known_ids c) = (?k \<notin> set (known_ids ?c) \<and> distinct (known_ids ?c))"
    "flight_ids c = ?k # flight_ids ?c" "queue_ids ?c = queue_ids c"
    using assms(2) by (auto simp: id_defs)
  have n: "?k \<notin> D" using l(1) k(1) unfolding ledger_def by blast
  have "ledger (insert ?k D) ?c" using l(1) assms(2) n unfolding ledger_def k by auto
  moreover have "suffix (flight_ids ?c) xs" if "suffix (flight_ids c) xs" for xs using that k(3) by (simp add: suffix_ConsD)
  then have "wired H ?c" using l(2) assms(2) by (auto simp: wired_def)
  ultimately show ?thesis using n by (simp add: sound_def)
qed

text \<open>A promise that has been taken from the queue is in hand until it is settled\<close>

definition in_hand :: "nat set \<Rightarrow> PromisePair option \<Rightarrow> nat set" where
  "in_hand D pair = (case pair of None \<Rightarrow> D | Some p \<Rightarrow> insert (pr_id (pair_promise p)) D)"

definition new_hand :: "nat set \<Rightarrow> PromisePair option \<Rightarrow> bool" where
  "new_hand D pair = (case pair of None \<Rightarrow> True | Some p \<Rightarrow> pr_id (pair_promise p) \<notin> D)"

lemma sound_settle_pair:
  "sound (in_hand D pair) H c \<Longrightarrow> new_hand D pair \<Longrightarrow> sound D H (settle_pair pair e c)"
  by (cases pair) (simp_all add: settle_pair_def in_hand_def new_hand_def sound_settle)

lemma sound_script: "sound D H c \<Longrightarrow> sound D H (run_script w c)"
  using keeping.run_script[of D H c w] by (simp add: keeps_def)

lemma sound_regular:
  assumes "sound (in_hand D pair) H c" "new_hand D pair"
  shows "sound D H (handle_regular_response w v pair c)"
proof (cases pair)
  case None
  then show ?thesis using assms(1) by (simp add: handle_regular_response_def in_hand_def)
next
  case (Some p)
  then have "sound D H (settle (pair_promise p) e c)" for e
    using sound_settle_pair[OF assms] by (simp add: settle_pair_def)
  then show ?thesis using Some by (auto simp: handle_regular_response_def Let_def sound_script split: RESPValue.split)
qed

lemma sound_subscribe:
  assumes "sound (in_hand D pair) H c" "new_hand D pair" "push_from_bytes kind \<noteq> None"
    "push_from_bytes kind \<in> {Some Message, Some PatternMessage} \<longrightarrow> pair = None"
  shows "fst (handle_subscribe_response w (RPush kind data) pair c) = Handled"
    "sound D H (snd (handle_subscribe_response w (RPush kind data) pair c))"
proof -
  let ?D = "in_hand D pair"
  have "sound ?D H (on_writable (add_subscription c))" "sound ?D H (remove_subscription (on_writable c))" "sound ?D H (on_valkey_message w data c)"
    using keeping.trans[OF keeps_subscription(1) keeping.on_writable, of ?D H c] keeping.trans[OF keeping.on_writable keeps_subscription(2), of ?D H c]
      keeping.on_valkey_message[of ?D H c w data] assms(1) by (simp_all add: keeps_def)
  then show "sound D H (snd (handle_subscribe_response w (RPush kind data) pair c))"
    using assms(1,3,4) sound_settle_pair[OF _ assms(2)]
    by (auto simp: handle_subscribe_response_def Let_def in_hand_def intro!: sound_script split: option.splits SubscriptionPushMessage.splits)
  show "fst (handle_subscribe_response w (RPush kind data) pair c) = Handled"
    by (simp add: handle_subscribe_response_def Let_def split: option.split SubscriptionPushMessage.split)
qed

text \<open>The two replies after which the promise that was taken is dropped\<close>

definition forgets :: "'f RESPValue \<Rightarrow> 'f ValkeyClient \<Rightarrow> bool" where
  "forgets v c = (case v of
     RError _ \<Rightarrow> is_subscriber (subscription c) | RPush kind _ \<Rightarrow> push_from_bytes kind = None | _ \<Rightarrow> False)"

lemma sound_paired:
  assumes "sound (in_hand D pair) H c" "new_hand D pair"
    "\<And>kind data. v = RPush kind data \<Longrightarrow> push_from_bytes kind \<in> {Some Message, Some PatternMessage} \<Longrightarrow> pair = None"
  shows "forgets v c \<or> sound D H (handle_paired_response w v pair c)" "sound (in_hand D pair) H (handle_paired_response w v pair c) \<or> sound D H (handle_paired_response w v pair c)"
proof -
  have f: "sound (in_hand D pair) H (fail m e c)" for m e using assms(1) by (rule sound_fail)
  note s = sound_subscribe[OF assms(1,2)] and r = sound_regular[OF assms(1,2)]
  show "forgets v c \<or> sound D H (handle_paired_response w v pair c)"
    using assms(3) r s by (cases v) (auto simp: handle_paired_response_def forgets_def Let_def case_prod_beta)
  show "sound (in_hand D pair) H (handle_paired_response w v pair c) \<or> sound D H (handle_paired_response w v pair c)"
    using assms(3) f r s by (cases v) (auto simp: handle_paired_response_def Let_def case_prod_beta)
qed


lemma sound_replies: "sound D H c \<Longrightarrow> sound D H (c\<lparr>replies := vs\<rparr>)"
  by (erule sound_cong) simp_all

lemma sound_dispatch:
  assumes "sound D H c" "sock_open (socket c)"
  shows "forgets v c \<or> sound D H (dispatch_response w v c)" "\<exists>D'. D \<subseteq> D' \<and> sound D' H (dispatch_response w v c)"
proof -
  let ?pop = "if should_consume_promise_pair v c then pop_in_flight c else (None, c)"
  have h: "sound D H (handle_hello_response w v c)" "sound D H (handle_select_response v c)"
    using keeping.hello[of c D H w v] keeping.select[of D H c v] assms by (simp_all add: keeps_def)
  have p: "sound (in_hand D (fst ?pop)) H (snd ?pop)" "new_hand D (fst ?pop)" "forgets v (snd ?pop) = forgets v c"
    using assms(1) sound_pop[OF assms(1)]
    by (auto simp: pop_in_flight_def in_hand_def new_hand_def forgets_def split: list.split RESPValue.split)
  have m: "fst ?pop = None" if "v = RPush kind data" "push_from_bytes kind \<in> {Some Message, Some PatternMessage}" for kind data
    using that by (auto simp: should_consume_promise_pair_def)
  have s: "forgets v (snd ?pop) \<or> sound D H (handle_paired_response w v (fst ?pop) (snd ?pop))"
    "sound (in_hand D (fst ?pop)) H (handle_paired_response w v (fst ?pop) (snd ?pop)) \<or> sound D H (handle_paired_response w v (fst ?pop) (snd ?pop))"
    using sound_paired[OF p(1,2), of v w] m by blast+
  show "forgets v c \<or> sound D H (dispatch_response w v c)"
    using h s(1) p(3) by (auto simp: dispatch_response_def case_prod_beta)
  have "D \<subseteq> in_hand D (fst ?pop)" by (auto simp: in_hand_def split: option.split)
  then show "\<exists>D'. D \<subseteq> D' \<and> sound D' H (dispatch_response w v c)"
    using h s(2) by (auto simp: dispatch_response_def case_prod_beta)
qed

lemma forgets_replies: "forgets v (c\<lparr>replies := vs\<rparr>) = forgets v c"
  by (cases v) (simp_all add: forgets_def)

lemma sound_handle_response:
  assumes "sound D H c" "sock_open (socket c)"
  shows "forgets v c \<or> sound D H (handle_response w v c)" "\<exists>D'. D \<subseteq> D' \<and> sound D' H (handle_response w v c)"
  using sound_dispatch[OF sound_replies[OF assms(1)], where v = v and w = w] assms(2) by (simp_all add: handle_response_def forgets_replies)

fun is_push :: "'f RESPValue \<Rightarrow> bool" where
  "is_push (RPush _ _) \<longleftrightarrow> True"
| "is_push _ \<longleftrightarrow> False"

text \<open>The invariant for some promises that have been lost, which only happens once the server has sent a push message\<close>

definition consistent :: "bytes \<Rightarrow> 'f ValkeyClient \<Rightarrow> bool" where
  "consistent H c \<longleftrightarrow> status_ok c \<and> (is_subscriber (subscription c) \<longrightarrow> list_ex is_push (replies c)) \<and>
     (\<exists>D. sound D H c \<and> (D = {} \<or> list_ex is_push (replies c)))"

lemma consistent_keeps: "consistent H c \<Longrightarrow> undisturbed c c' \<Longrightarrow> (\<And>D. keeps D H c c') \<Longrightarrow> calm c c' \<Longrightarrow> consistent H c'"
  by (auto simp: consistent_def undisturbed_def keeps_def calm_def)

lemma consistent_fail: "consistent H c \<Longrightarrow> consistent H (fail m e c)"
  by (erule consistent_keeps[OF _ fail_undisturbed keeping.fail calming.fail])

lemma subscription_handle:
  assumes "\<not> is_push v"
  shows "subscription (handle_response w v c) = subscription c"
proof -
  have "v \<noteq> RPush kind data" for kind data using assms by auto
  then have "calm (c\<lparr>replies := replies c @ [v]\<rparr>) (handle_response w v c)"
    unfolding handle_response_def by (intro calming.plain_dispatch) simp_all
  then show ?thesis by (simp add: calm_def)
qed

lemma forgets_push: "forgets v c \<Longrightarrow> is_push v \<or> is_subscriber (subscription c)"
  by (cases v) (simp_all add: forgets_def)

lemma consistent_handle:
  assumes "consistent H c" "sock_open (socket c)"
  shows "consistent H (handle_response w v c)"
proof -
  let ?c = "handle_response w v c"
  obtain D where c: "status_ok c" "is_subscriber (subscription c) \<Longrightarrow> list_ex is_push (replies c)"
    "sound D H c" "D = {} \<or> list_ex is_push (replies c)"
    using assms(1) by (auto simp: consistent_def)
  have ok: "status_ok ?c" using handle_response_undisturbed[OF assms(2), of w v] c(1) by (simp add: undisturbed_def)
  have r: "list_ex is_push (replies ?c) \<longleftrightarrow> list_ex is_push (replies c) \<or> is_push v" by (simp add: handle_response_replies)
  obtain D' where D': "sound D' H ?c" using sound_handle_response(2)[OF c(3) assms(2), where v = v and w = w] by blast
  show ?thesis
  proof (cases "list_ex is_push (replies ?c)")
    case True
    then show ?thesis using ok D' by (auto simp: consistent_def)
  next
    case False
    then have "\<not> forgets v c" "D = {}" "\<not> is_subscriber (subscription ?c)"
      using forgets_push[of v c] c(2,4) r subscription_handle[of v w c] by auto
    then show ?thesis using ok sound_handle_response(1)[OF c(3) assms(2), of v w] by (auto simp: consistent_def)
  qed
qed

lemma consistent_send_next: "consistent H c \<Longrightarrow> consistent H (send_next_command c)"
  by (erule consistent_keeps[OF _ steady.send_next_command keeping.send_next_command calming.send_next_command])

lemma consistent_read_side:
  "consistent H (c\<lparr>reply_scanner := s\<rparr>) = consistent H c" "consistent H (c\<lparr>read_buffer := b\<rparr>) = consistent H c"
  by (simp_all add: consistent_def status_ok_def sound_def ledger_def wired_def id_defs)

lemma consistent_process_slice:
  assumes "consistent H c" "sock_open (socket c)" "sock = sock_id (socket c)"
  shows "consistent H (process_slice w sock data c)"
  using assms
proof (induction "length data" arbitrary: data c rule: less_induct)
  case less
  obtain x r where x: "read_value (world_platform w) (reader_init data) = (x, r)" by fastforce
  show ?case
  proof (cases x)
    case (Inl e)
    then show ?thesis
      using x less(2) by (subst process_slice.simps) (simp add: consistent_read_side consistent_fail)
  next
    case (Inr v)
    note v = x[unfolded Inr]
    have d: "data \<noteq> []" "r_pos r \<noteq> 0" using read_value_consumes[OF v] by auto
    let ?c = "handle_response w v c"
    have step: "process_slice w sock data c =
        (if sock_id (socket ?c) \<noteq> sock then ?c else process_slice w sock (drop (r_pos r) data) (send_next_command ?c))"
      using v d by (subst process_slice.simps) (simp add: Let_def)
    have c: "consistent H ?c" using less(2,3) by (rule consistent_handle)
    have ok: "status_ok c" using less(2) by (simp add: consistent_def)
    show ?thesis
    proof (cases rule: handled_cases[OF ok less(3), of w v])
      case 1
      then show ?thesis using step less(4) c by simp
    next
      case 2
      then have "consistent H (process_slice w sock (drop (r_pos r) data) (send_next_command ?c))"
        using less(3,4) d consistent_send_next[OF c] by (intro less(1)) (auto simp: same_connection_def)
      then show ?thesis using step 2 less(4) by simp
    qed
  qed
qed


lemma consistent_process_buffer:
  assumes "consistent H c" "sock_open (socket c)" "sock = sock_id (socket c)"
  shows "consistent H (process_buffer w sock c)"
  using assms
proof (induction "length (read_buffer c)" arbitrary: c rule: less_induct)
  case less
  let ?b = "read_buffer c"
  obtain y s where y: "scan_reply ?b (reply_scanner c) = (y, s)" by fastforce
  obtain x r where x: "read_value (world_platform w) (reader_init ?b) = (x, r)" by fastforce
  show ?case
  proof (cases "?b \<noteq> [] \<and> y = Inr Complete \<and> (\<exists>v. x = Inr v)")
    case True
    then obtain v where v: "read_value (world_platform w) (reader_init ?b) = (Inr v, r)" using x by blast
    have d: "r_pos r \<noteq> 0" using read_value_consumes[OF v] by auto
    let ?c2 = "c\<lparr>reply_scanner := s, read_buffer := drop (r_pos r) ?b, reply_scanner := scanner_reset s\<rparr>"
    let ?c3 = "handle_response w v ?c2"
    have run: "process_buffer w sock c = (if sock_id (socket ?c3) \<noteq> sock then ?c3 else process_buffer w sock (send_next_command ?c3))"
      using v d y True by (subst process_buffer.simps) (simp add: Let_def)
    have c2: "consistent H ?c2" "sock_open (socket ?c2)" using less(2,3) by (simp_all add: consistent_read_side)
    have ok: "status_ok ?c2" using c2(1) by (simp add: consistent_def)
    have c3: "consistent H ?c3" using c2 by (rule consistent_handle)
    show ?thesis
    proof (cases rule: handled_cases[OF ok c2(2), of w v])
      case 1
      then show ?thesis using run less(4) c3 by simp
    next
      case 2
      then have "read_buffer (send_next_command ?c3) = drop (r_pos r) ?b" by (simp add: same_connection_def)
      then have "consistent H (process_buffer w sock (send_next_command ?c3))"
        using 2 less(3,4) d True consistent_send_next[OF c3] by (intro less(1)) (auto simp: same_connection_def)
      then show ?thesis using run 2 less(4) by simp
    qed
  next
    case False
    then show ?thesis
      using y x less(2) by (subst process_buffer.simps, cases y)
        (auto simp: Let_def consistent_read_side intro!: consistent_fail split: sum.split ScanResult.split)
  qed
qed

lemma consistent_on_data:
  assumes "consistent H c" "sock_open (socket c)"
  shows "consistent H (on_data w data c)"
  using assms consistent_process_slice[OF assms refl] consistent_process_buffer[of H "c\<lparr>read_buffer := read_buffer c @ data\<rparr>" "sock_id (socket c)" w]
  by (simp add: on_data_def Let_def consistent_read_side)

section \<open>Runs of a connection\<close>

lemma sound_take_pipelineable:
  assumes "sound D H c" "status c = Connected" "queue c = es"
  shows "sound D H (take_pipelineable es c)"
  using assms
proof (induction es arbitrary: c)
  case Nil
  then show ?case by (cases c) simp
next
  case (Cons e es)
  have st: "ledger D c" "wired H c" "sock_open (socket c)" using Cons.prems by (auto simp: sound_def wired_def)
  let ?c = "(put_in_flight e (c\<lparr>queue := es\<rparr>))\<lparr>socket := socket c, write_buffer := write_buffer c @ serialized_data e\<rparr>"
  have s: "sound D H ?c" using sound_place[OF st(1,2) Cons.prems(3,2)] st(3) by simp
  have q: "take_pipelineable es d = take_pipelineable es (d\<lparr>queue := q\<rparr>)" for d :: "'a ValkeyClient" and q
  proof (induction es arbitrary: d)
    case (Cons e es)
    show ?case
      using Cons[of "(put_in_flight e d)\<lparr>write_buffer := write_buffer d @ serialized_data e\<rparr>"] by (cases d) (simp add: put_in_flight_def)
  qed (cases d, simp)
  show ?case
  proof (cases "supports_auto_pipelining (entry_meta e)")
    case True
    have "take_pipelineable (e # es) c = take_pipelineable es ?c"
      using True q[of "(put_in_flight e c)\<lparr>write_buffer := write_buffer c @ serialized_data e\<rparr>" es] by (cases c) (simp add: put_in_flight_def)
    then show ?thesis using Cons.IH[OF s] Cons.prems by (simp add: put_in_flight_def)
  next
    case False
    then show ?thesis using Cons.prems by (cases c) simp
  qed
qed

lemma aside_take_pipelineable: "aside c (take_pipelineable es c)"
proof (induction es arbitrary: c)
  case (Cons e es)
  have "aside c ((put_in_flight e c)\<lparr>write_buffer := b\<rparr>)" for b by (simp add: aside_defs put_in_flight_def)
  from aside_trans[OF this Cons] show ?case by (simp add: aside_defs)
qed (simp add: aside_defs)

lemma calm_take_pipelineable: "calm c (take_pipelineable es c)"
proof (induction es arbitrary: c)
  case (Cons e es)
  have "calm c ((put_in_flight e c)\<lparr>write_buffer := b\<rparr>)" for b by (simp add: calm_def put_in_flight_def)
  from calming.trans[OF this Cons] show ?case by (simp add: calm_def)
qed (simp add: calm_def)

lemma status_ok_take: "status_ok c \<Longrightarrow> status_ok (take_pipelineable es c)"
  using aside_relations(1)[OF aside_take_pipelineable] by (auto simp: undisturbed_def)

lemma consistent_auto_flush:
  assumes "consistent H c"
  shows "consistent H (snd (on_auto_flush c))"
proof -
  have f: "consistent H (d\<lparr>flusher_registered := b\<rparr>) = consistent H d" for d :: "'a ValkeyClient" and b
    by (simp add: consistent_def status_ok_def sound_def ledger_def wired_def id_defs)
  have "consistent H (take_pipelineable (queue c) c)" if "status c = Connected"
    using assms that sound_take_pipelineable[OF _ that refl] status_ok_take[of c] calm_take_pipelineable[of c "queue c"]
    unfolding consistent_def calm_def by metis
  then have "consistent H (snd (flush_data (take_pipelineable (queue c) c)))" if "status c = Connected"
    using that by (intro consistent_keeps[OF _ steady.flush keeping.flush calming.flush]) simp
  then show ?thesis using assms by (auto simp: on_auto_flush_def Let_def f)
qed


text \<open>What happens to an open connection: the script sends a command, data arrives, the deferred flush runs, the socket takes more, the peer hangs up\<close>

datatype happening = Issued Command | Arrived bytes | Flushed | Writable | HungUp

definition happen :: "'f world \<Rightarrow> happening \<Rightarrow> 'f client_update" where
  "happen w h c =
     (case h of
        Issued command \<Rightarrow> send command c
      | Arrived data \<Rightarrow> if sock_open (socket c) then on_data w data c else c
      | Flushed \<Rightarrow> if flusher_registered c then snd (on_auto_flush c) else c
      | Writable \<Rightarrow> on_writable c
      | HungUp \<Rightarrow> close c)"

lemma consistent_happen: "consistent H c \<Longrightarrow> consistent H (happen w h c)"
  by (cases h)
    (auto simp: happen_def intro: consistent_on_data consistent_auto_flush consistent_keeps[OF _ steady.send keeping.send calming.send]
      consistent_keeps[OF _ steady.on_writable keeping.on_writable calming.on_writable] consistent_keeps[OF _ steady.close keeping.close calming.close])

lemma consistent_run: "consistent H c \<Longrightarrow> consistent H (fold (happen w) hs c)"
  by (induction hs arbitrary: c) (auto intro: consistent_happen)

text \<open>The bytes of the handshake\<close>

definition handshake :: "'f ValkeyClient \<Rightarrow> bytes" where
  "handshake c = command_write (hello_command c) @ (if database c > 0 then command_write (select_command (database c)) else [])"

definition new_client :: "'f ValkeyClient \<Rightarrow> bool" where
  "new_client c \<longleftrightarrow> settled c = [] \<and> deferred c = [] \<and> in_flight c = [] \<and> queue c = [] \<and> next_promise c = 0 \<and>
     \<not> finalized (flags c) \<and> \<not> is_subscriber (subscription c)"

lemma consistent_open:
  assumes "new_client c" "sock_open s" "sock_id s \<noteq> 0" "sock_sent s = []"
  shows "consistent (handshake c) (on_open s True (begin_dial c))"
proof -
  let ?c = "c\<lparr>status := Connecting, socket := s, write_buffer := [], read_buffer := [], reply_scanner := scanner_reset (reply_scanner c),
    flags := (flags c)\<lparr>failed := False, is_selecting_db_internal := False\<rparr>, placed := []\<rparr>"
  have "write_buffer (authenticate ?c) = handshake c" "database c > 0 \<or> handshake c = command_write (hello_command c)"
    by (simp_all add: authenticate_def handshake_def hello_command_def Let_def)
  moreover have "ledger {} (authenticate ?c)"
    using assms(1) by (simp add: ledger_def id_defs authenticate_def Let_def new_client_def)
  moreover have "socket (authenticate ?c) = s" "status (authenticate ?c) = Connecting" "placed (authenticate ?c) = []"
    "in_flight (authenticate ?c) = []" "failed (flags (authenticate ?c)) = False" "finalized (flags (authenticate ?c)) = False"
    "\<not> is_subscriber (subscription (authenticate ?c))"
    using assms(1) by (simp_all add: authenticate_def Let_def new_client_def)
  ultimately have "consistent (handshake c) (authenticate ?c)"
    using assms by (auto simp: consistent_def status_ok_def sound_def wired_def flight_ids_def)
  from consistent_keeps[OF this steady.flush keeping.flush calming.flush] show ?thesis
    by (simp add: on_open_def begin_dial_def start_def Let_def)
qed


section \<open>Settled promises stay\<close>

definition grows :: "'f ValkeyClient \<Rightarrow> 'f ValkeyClient \<Rightarrow> bool" where
  "grows c c' \<longleftrightarrow> prefix (settled c) (settled c')"

lemma grows_trans: "grows a b \<Longrightarrow> grows b c \<Longrightarrow> grows a c"
  unfolding grows_def by (rule prefix_order.trans)

lemma grows_close:
  fixes c d e :: "'f ValkeyClient"
  shows "grows c (fail message err c)" "grows d (close d)" "grows e (on_close e)"
proof (induction message err c and d and e rule: fail_close_on_close.induct)
  case (1 message err c)
  let ?d = "reject_all_pending_commands (Rejected message err) (c\<lparr>flags := (flags c)\<lparr>failed := True, is_reconnecting := False\<rparr>\<rparr>)"
  have "grows c ?d" by (simp add: grows_def reject_all_eq)
  then show ?case using grows_trans[OF _ 1] by (subst fail.simps) (auto simp: Let_def grows_def)
next
  case (2 c)
  then show ?case by (subst close.simps) (auto simp: grows_def)
next
  case (3 c)
  then show ?case
    by (subst on_close.simps) (auto simp: grows_def Let_def unregister_auto_flusher_def reject_in_flight_commands_def reject_pairs_eq)
qed

lemma settled_flush: "settled (snd (flush_data c)) = settled c" "settled (snd (drain_queue c)) = settled c" "settled (put_in_flight e c) = settled c"
  by (auto simp: flush_data_def drain_queue_def put_in_flight_def Let_def case_prod_beta split: list.split)

lemma grows_send: "grows c (send command c)"
proof -
  have "settled (enqueue cmd p d) = settled d" for cmd p and d :: "'a ValkeyClient"
    by (simp add: enqueue_def Let_def register_auto_flusher_def settled_flush)
  then show ?thesis by (simp add: grows_def send_def Let_def settle_def register_auto_flusher_def split: option.split)
qed

interpretation growing: client_relation "grows :: 'f ValkeyClient \<Rightarrow> 'f ValkeyClient \<Rightarrow> bool" "\<lambda>_. True"
proof
  show "grows a c" if "grows a b" "grows b c" for a b c :: "'f ValkeyClient" using that by (rule grows_trans)
qed (rule grows_close grows_send | simp add: grows_def settled_flush register_auto_flusher_def unregister_auto_flusher_def
  add_subscription_def remove_subscription_def Let_def)+

text \<open>How a regular reply settles the promise of its command\<close>

definition outcome_of :: "PromisePair \<Rightarrow> 'f RESPValue \<Rightarrow> 'f settlement" where
  "outcome_of p v =
     (let buf = meta_contains (pr_meta (pair_promise p)) RETURN_AS_BUFFER
      in case v of
           RError _ \<Rightarrow> RejectedReply v
         | RInteger n \<Rightarrow> Resolved (if meta_contains (pair_meta p) RETURN_AS_BOOL then RBoolean (n > 0) else v) buf
         | _ \<Rightarrow> Resolved v buf)"

lemma settled_regular: "prefix (settled c @ [(pr_id (pair_promise p), outcome_of p v)]) (settled (handle_regular_response w v (Some p) c))"
proof -
  have "prefix (settled c @ [(pr_id (pair_promise p), e)]) (settled (run_script w (settle (pair_promise p) e c)))" for e
    using growing.run_script[of "settle (pair_promise p) e c" w] by (simp add: grows_def settle_def)
  then show ?thesis by (cases v) (auto simp: handle_regular_response_def outcome_of_def Let_def)
qed

lemma settled_dispatch:
  assumes "status c = Connected" "\<not> is_selecting_db_internal (flags c)" "\<not> is_subscriber (subscription c)" "in_flight c = p # ps"
    "\<And>kind data. v \<noteq> RPush kind data"
  shows "prefix (settled c @ [(pr_id (pair_promise p), outcome_of p v)]) (settled (dispatch_response w v c))"
proof -
  have "dispatch_response w v c = handle_regular_response w v (Some p) (c\<lparr>in_flight := ps\<rparr>)"
  proof (cases v)
    case (RPush kind data)
    then show ?thesis using assms(5) by blast
  qed (use assms(1-4) in \<open>simp_all add: dispatch_response_def should_consume_promise_pair_def pop_in_flight_def
    handle_paired_response_def Let_def\<close>)
  then show ?thesis using settled_regular[of "c\<lparr>in_flight := ps\<rparr>" p v w] by simp
qed

lemma settled_handle:
  assumes "status c = Connected" "\<not> is_selecting_db_internal (flags c)" "\<not> is_subscriber (subscription c)" "in_flight c = p # ps"
    "\<And>kind data. v \<noteq> RPush kind data"
  shows "prefix (settled c @ [(pr_id (pair_promise p), outcome_of p v)]) (settled (handle_response w v c))"
  using settled_dispatch[of "c\<lparr>replies := replies c @ [v]\<rparr>" p ps v w] assms by (simp add: handle_response_def)

text \<open>While the initial \<^verbatim>\<open>SELECT\<close> is unanswered the next reply is its reply, and the commands that are in flight already wait\<close>

definition forwards :: "'f ValkeyClient \<Rightarrow> 'f ValkeyClient \<Rightarrow> bool" where
  "forwards c c' \<longleftrightarrow> settled c' = settled c \<and> prefix (in_flight c) (in_flight c')"

interpretation forwarding: sending_relation "forwards :: 'f ValkeyClient \<Rightarrow> 'f ValkeyClient \<Rightarrow> bool"
proof
  show "forwards a c" if "forwards a b" "forwards b c" for a b c :: "'f ValkeyClient"
    using that prefix_order.trans[of "in_flight a" "in_flight b" "in_flight c"] by (simp add: forwards_def)
qed (auto simp: forwards_def settled_flush flush_data_def drain_queue_def put_in_flight_def register_auto_flusher_def Let_def case_prod_beta
  split: list.split)

lemma settled_fail:
  assumes "\<not> failed (flags c)" "\<not> finalized (flags c)" "in_flight c = p # ps"
  shows "prefix (settled c @ [(pr_id (pair_promise p), Rejected message err)]) (settled (fail message err c))"
proof -
  let ?d = "reject_all_pending_commands (Rejected message err) (c\<lparr>flags := (flags c)\<lparr>failed := True, is_reconnecting := False\<rparr>\<rparr>)"
  have f: "fail message err c = close ?d" using assms(1,2) by (subst fail.simps) (simp add: Let_def)
  have "prefix (settled c @ [(pr_id (pair_promise p), Rejected message err)]) (settled ?d)"
    using assms(3) by (simp add: reject_all_eq)
  then show ?thesis unfolding f by (rule prefix_order.trans) (rule grows_close(2)[unfolded grows_def])
qed

lemma settled_select:
  assumes "status c = Connected" "is_selecting_db_internal (flags c)" "in_flight c = p # ps"
  shows "settled (handle_response w (RSimpleString ''OK'') c) = settled c \<and> prefix (p # ps) (in_flight (handle_response w (RSimpleString ''OK'') c))"
    and "v \<noteq> RSimpleString ''OK'' \<Longrightarrow> \<not> failed (flags c) \<Longrightarrow> \<not> finalized (flags c) \<Longrightarrow>
      \<exists>message err. prefix (settled c @ [(pr_id (pair_promise p), Rejected message err)]) (settled (handle_response w v c))"
proof -
  let ?c = "\<lambda>v. c\<lparr>replies := replies c @ [v], flags := (flags c)\<lparr>is_selecting_db_internal := False\<rparr>\<rparr>"
  show "settled (handle_response w (RSimpleString ''OK'') c) = settled c \<and> prefix (p # ps) (in_flight (handle_response w (RSimpleString ''OK'') c))"
    using assms forwarding.send_next_command[of "?c (RSimpleString ''OK'')"]
    by (simp add: handle_response_def dispatch_response_def handle_select_response_def Let_def forwards_def)
  assume v: "v \<noteq> RSimpleString ''OK''" "\<not> failed (flags c)" "\<not> finalized (flags c)"
  obtain message err where "handle_response w v c = fail message err (?c v)"
    using assms(1,2) v(1) by (cases v) (auto simp: handle_response_def dispatch_response_def handle_select_response_def Let_def)
  then show "\<exists>message err. prefix (settled c @ [(pr_id (pair_promise p), Rejected message err)]) (settled (handle_response w v c))"
    using settled_fail[of "?c v" p ps message err] v(2,3) assms(3) by auto
qed

section \<open>Properties\<close>

text \<open>C13. On a connection that a new client opens, whatever the script sends, however the data of the server arrives, whenever the deferred
  flush and the events of the socket come and however much the socket takes at a time: no promise is settled twice, none is both
  settled and waiting, and what waits is in the order in which it was sent. As long as the server has sent no push message, none is lost:
  every promise handed out is settled, in flight, queued or with a deferred failure. As long as the socket is open, the bytes that went to it and
  those that still wait in the write buffer are the handshake and then the commands, whole and in the order in which they were put in
  flight, and the promises in flight are the last of those.\<close>

theorem promises_settled_once:
  assumes "new_client c" "sock_open s" "sock_id s \<noteq> 0" "sock_sent s = []"
    and "c' = fold (happen w) hs (on_open s True (begin_dial c))"
  shows "distinct (map fst (settled c') @ concat (map deferred_ids (deferred c')) @ flight_ids c' @ queue_ids c') \<and>
    sorted_wrt (<) (flight_ids c' @ queue_ids c') \<and>
    ((\<forall>v \<in> set (replies c'). \<not> is_push v) \<longrightarrow>
      set (map fst (settled c') @ concat (map deferred_ids (deferred c')) @ flight_ids c' @ queue_ids c') = {..<next_promise c'}) \<and>
    (sock_open (socket c') \<longrightarrow> sock_sent (socket c') @ write_buffer c' = handshake c @ concat (map snd (placed c')) \<and>
      suffix (flight_ids c') (map fst (placed c')))"
proof -
  have "consistent (handshake c) c'" unfolding assms(5) by (rule consistent_run) (rule consistent_open[OF assms(1-4)])
  then show ?thesis unfolding consistent_def sound_def ledger_def known_ids_def wired_def list_ex_iff by blast
qed

theorem promises_settled_once_witness:
  "let c' = fold (happen example_world) [Issued (select_command 1), Writable] (on_open example_socket True (begin_dial example_client))
   in distinct (map fst (settled c') @ concat (map deferred_ids (deferred c')) @ flight_ids c' @ queue_ids c') \<and>
      sorted_wrt (<) (flight_ids c' @ queue_ids c') \<and>
      (sock_open (socket c') \<longrightarrow> sock_sent (socket c') @ write_buffer c' = handshake example_client @ concat (map snd (placed c')))"
proof -
  have "new_client example_client" "sock_open example_socket" "sock_id example_socket \<noteq> 0" "sock_sent example_socket = []"
    by (simp_all add: example_defs new_client_def)
  from promises_settled_once[OF this refl, of example_world "[Issued (select_command 1), Writable]"] show ?thesis by (simp only: Let_def) blast
qed

text \<open>C16. What a reply that is not a push message does in a client that is connected, not a subscriber and has commands in flight. Once the
  initial \<^verbatim>\<open>SELECT\<close> is answered (or when there was none) it settles the promise of the oldest command in flight, with the value of the reply (a
  boolean where the command asks for one) or with the error of the server. While the \<^verbatim>\<open>SELECT\<close> is unanswered the reply is its reply: an \<^verbatim>\<open>OK\<close>
  settles no promise and leaves the commands in flight as they are, any other reply fails the client, unless it has failed or is being
  finalized, and rejects the oldest one.\<close>

theorem reply_settles_oldest:
  assumes "status c = Connected" "\<not> is_subscriber (subscription c)" "in_flight c = p # ps"
    and "\<forall>kind data. v \<noteq> RPush kind data"
  shows "if \<not> is_selecting_db_internal (flags c)
    then \<exists>later. settled (handle_response w v c) = settled c @ (pr_id (pair_promise p), outcome_of p v) # later
    else if v = RSimpleString ''OK''
    then settled (handle_response w v c) = settled c \<and> (\<exists>later. in_flight (handle_response w v c) = p # ps @ later)
    else \<not> failed (flags c) \<and> \<not> finalized (flags c) \<longrightarrow>
      (\<exists>message err later. settled (handle_response w v c) = settled c @ (pr_id (pair_promise p), Rejected message err) # later)"
proof (cases "is_selecting_db_internal (flags c)")
  case True
  then show ?thesis
    using settled_select(1)[OF assms(1) True assms(3), where w = w] settled_select(2)[OF assms(1) True assms(3), where v = v and w = w]
    by (auto simp: prefix_def)
next
  case False
  then show ?thesis using settled_handle[OF assms(1) False assms(2,3), of v w] assms(4) by (auto simp: prefix_def)
qed

theorem reply_settles_oldest_witness:
  "\<exists>later. settled (handle_response example_world (RInteger 1)
      (example_client\<lparr>status := Connected, in_flight := [\<lparr>pair_meta = RETURN_AS_BOOL, pair_promise = \<lparr>pr_meta = 0, pr_id = 7\<rparr>\<rparr>]\<rparr>)) =
    (7, Resolved (RBoolean True) False) # later"
proof -
  let ?p = "\<lparr>pair_meta = RETURN_AS_BOOL, pair_promise = \<lparr>pr_meta = 0, pr_id = 7\<rparr>\<rparr>"
  let ?c = "example_client\<lparr>status := Connected, in_flight := [?p]\<rparr>"
  have c: "status ?c = Connected" "\<not> is_subscriber (subscription ?c)" "in_flight ?c = ?p # []"
    "\<forall>kind data. RInteger 1 \<noteq> RPush kind data"
    by (simp_all add: example_defs)
  have "outcome_of ?p (RInteger 1) = (Resolved (RBoolean True) False :: nat settlement)"
    by (simp add: outcome_of_def meta_contains_def RETURN_AS_BOOL_def RETURN_AS_BUFFER_def)
  with reply_settles_oldest[OF c, of example_world] show ?thesis by (simp add: example_defs)
qed

text \<open>C37. An error reply to a command of a subscriber: the promise of the command has been taken from the queue when the client is failed,
  and it is neither settled nor waiting afterwards.\<close>

theorem subscriber_error_loses_promise:
  assumes "sound D H c" "sock_open (socket c)" "status c = Connected" "\<not> is_selecting_db_internal (flags c)"
    and "is_subscriber (subscription c)" "in_flight c = p # ps"
  shows "pr_id (pair_promise p) \<notin> set (known_ids (handle_response w (RError message) c))"
proof -
  let ?c = "c\<lparr>replies := replies c @ [RError message]\<rparr>"
  have "handle_response w (RError message) c = fail message ServerError (?c\<lparr>in_flight := ps\<rparr>)"
    using assms(3-) by (simp add: handle_response_def dispatch_response_def should_consume_promise_pair_def pop_in_flight_def
      handle_paired_response_def Let_def)
  moreover have "sound (insert (pr_id (pair_promise p)) D) H (?c\<lparr>in_flight := ps\<rparr>)"
    using sound_pop[OF sound_replies[OF assms(1)]] assms(6) by simp
  ultimately have "sound (insert (pr_id (pair_promise p)) D) H (handle_response w (RError message) c)" using sound_fail by metis
  then show ?thesis by (auto simp: sound_def ledger_def)
qed


definition example_pair :: PromisePair where
  "example_pair = \<lparr>pair_meta = meta_default, pair_promise = \<lparr>pr_meta = meta_default, pr_id = 0\<rparr>\<rparr>"

definition example_subscriber :: "nat ValkeyClient" where
  "example_subscriber = example_client\<lparr>socket := example_socket, status := Connected, write_buffer := ''data'', in_flight := [example_pair],
     next_promise := 1, placed := [(0, ''data'')],
     subscription := \<lparr>is_subscriber = True, original_enable_offline_queue = True, original_enable_auto_pipelining = True\<rparr>\<rparr>"

theorem subscriber_error_loses_promise_witness:
  "0 \<in> set (known_ids example_subscriber) \<and>
   0 \<notin> set (known_ids (handle_response example_world (RError ''ERR unknown command'') example_subscriber))"
proof -
  have s: "sound {} [] example_subscriber"
    by (simp add: sound_def ledger_def wired_def id_defs example_subscriber_def example_pair_def example_defs lessThan_Suc)
  have c: "sock_open (socket example_subscriber)" "status example_subscriber = Connected" "\<not> is_selecting_db_internal (flags example_subscriber)"
    "is_subscriber (subscription example_subscriber)" "in_flight example_subscriber = example_pair # []"
    by (simp_all add: example_subscriber_def example_defs)
  have "pr_id (pair_promise example_pair) = 0" by (simp add: example_pair_def)
  with subscriber_error_loses_promise[OF s c] show ?thesis by (simp add: id_defs example_subscriber_def)
qed

end
