(* ===== verification/Spec2Isabelle.thy ===== *)
theory Spec2Isabelle
  imports SemverIntersects RwLock SignalRing TimerAll SourceMapPrinted ValkeyPairing
begin

text \<open>
  A verification development for Bun: the version logic of its package manager (the crate
  \<^verbatim>\<open>src/semver\<close>), the hash and string functions below it (\<^verbatim>\<open>src/wyhash\<close>, parts of \<^verbatim>\<open>src/bun_core\<close>), the
  queues, locks and timers of its event loop (\<^verbatim>\<open>src/collections/linear_fifo.rs\<close>, parts of \<^verbatim>\<open>src/threading\<close>,
  \<^verbatim>\<open>src/io/heap.rs\<close>, parts of \<^verbatim>\<open>src/runtime/timer\<close>), the source maps of its transpiler and bundler
  (\<^verbatim>\<open>src/sourcemap\<close>), and its Valkey client (\<^verbatim>\<open>src/valkey\<close>, \<^verbatim>\<open>src/runtime/valkey_jsc\<close>).

  \<^bold>\<open>The program.\<close> \<^verbatim>\<open>bun install\<close> reads version ranges such as \<^verbatim>\<open>^1.2.3 || >=4 <6\<close> from manifests and decides
  which published versions satisfy them. A version keeps its three numbers as \<^verbatim>\<open>u64\<close> and its
  prerelease and build texts as 8-byte handles: a text of at most 8 bytes is stored in the handle, a
  longer one as an offset and a length into a shared buffer. The handles are made by \<^verbatim>\<open>Buf\<close> (append to
  a growing buffer) or by \<^verbatim>\<open>Builder\<close> (count first, allocate once, then append), both of which find
  equal strings again by their \<^verbatim>\<open>Wyhash11\<close> hash. A range is a \<^verbatim>\<open>Group\<close>: a linked list of alternatives
  (\<^verbatim>\<open>List\<close>), each a linked chain of ranges (\<^verbatim>\<open>Query\<close>) that all have to hold, each with a left and a
  right comparator. Both chains carry a raw pointer to their last node, so that appending is constant
  time. The event loop keeps its tasks and pipes in \<^verbatim>\<open>LinearFifo\<close> ring buffers; signal handlers hand it
  signals through the lock-free \<^verbatim>\<open>SignalRing\<close>; threads share data under \<^verbatim>\<open>Mutex\<close> and \<^verbatim>\<open>RwLock\<close>, which are
  built on futexes, a mutex and a semaphore. Timers wait in an intrusive pairing heap, ordered by deadline
  and then by an epoch counter; tests may switch to a second heap of fake timers. While the printer
  prints a file it announces source locations to a builder, which scans what was printed, looks the
  location up in a table of line offsets and writes a mapping as differences in base64; the linker joins
  the chunks of a bundle, and the runtime and the tools parse the text and look positions up. The Valkey client
  keeps a queue of commands, writes them to its socket one by one or in batches, and pairs the replies with the
  promises in flight in order; replies may arrive in any pieces, so a resumable scanner looks for the end of a reply
  before the parser runs.

  \<^bold>\<open>The theories.\<close>
  \<^item> \<open>Bun_Prelude\<close>: machine integers (\<open>u8\<close> is \<open>char\<close>, \<open>u32\<close> and \<open>u64\<close> are words), the datatype \<open>ordering\<close> of
    \<^verbatim>\<open>core::cmp::Ordering\<close>, the locale \<open>total_preorder\<close> and its instances for words, lexicographic
    comparison and pairs, buffer copies, generic list lemmas.
  \<^item> \<open>Core_Strings\<close>: what \<^verbatim>\<open>bun_core::strings\<close> and \<^verbatim>\<open>bun_core::fmt\<close> offer the others: \<^verbatim>\<open>order\<close>, \<^verbatim>\<open>trim\<close>,
    \<^verbatim>\<open>index_of\<close>, the split iterator, \<^verbatim>\<open>parse_unsigned\<close>.
  \<^item> \<open>Wyhash\<close>: \<^verbatim>\<open>src/wyhash/lib.rs\<close>. Both streaming hashers hash as their one-shot forms for every chunking
    of the input; the lowercasing hash and the \<^verbatim>\<open>const fn\<close> hash agree with the runtime hash.
  \<^item> \<open>SemverString\<close> and \<open>StringStore\<close>: \<^verbatim>\<open>src/semver/lib.rs\<close>. A handle slices back to its text; the two
    stores implement the contract of the locale \<open>string_store\<close>, hash collisions included.
  \<^item> \<open>SemverVersion\<close>, \<open>SemverVersionOps\<close>, \<open>SemverRoundTrip\<close>: \<^verbatim>\<open>src/semver/Version.rs\<close>. The parser with
    every branch; the two orders are total preorders and \<^verbatim>\<open>order_without_build\<close> is the precedence of
    the specification where numeric identifiers fit in 64 bits; a formatted version parses back.
  \<^item> \<open>SemverRange\<close>: \<^verbatim>\<open>src/semver/SemverRange.rs\<close>. The bounds next to a version are exact at \<^verbatim>\<open>u64::MAX\<close> too.
  \<^item> \<open>SemverQuery\<close>: the chains of \<^verbatim>\<open>src/semver/SemverQuery.rs\<close>, with the raw pointers as positions. The
    locale \<open>dnf_builder\<close> states what appending promises; the group implements it; satisfaction is the
    disjunctive normal form with the prerelease rule.
  \<^item> \<open>SemverParse\<close>: the range parser of the same file. What it builds is well formed; an operator and a
    version parse to exactly the versions the operator describes.
  \<^item> \<open>SemverIntersects\<close>: \<^verbatim>\<open>src/semver/intersects.rs\<close>. The interval of a chain is exact and \<^verbatim>\<open>intersects\<close> has no
    false negatives, except for the prereleases of \<^verbatim>\<open>0.0.0\<close>; \<^verbatim>\<open>is_subset_of\<close> is sound for releases and reflexive.
  \<^item> \<open>LinearFifo\<close>: \<^verbatim>\<open>src/collections/linear_fifo.rs\<close>. Every operation on the buffer, head and count, with its
    errors; the items seen by the client are a queue (the locale \<open>item_queue\<close>), across wrapping around,
    growing and realigning; every slice lies within the buffer.
  \<^item> \<open>StateMachine\<close>: runs of labelled steps, the locales \<open>invariant_system\<close> and \<open>simulation\<close>.
  \<^item> \<open>FutexMutex\<close>: \<^verbatim>\<open>FutexImpl\<close> of \<^verbatim>\<open>src/threading/Mutex.rs\<close>, one step per atomic instruction. It implements an
    atomic lock and loses no wake-up, also when the kernel never wakes a sleeper by itself.
  \<^item> \<open>RwLock\<close>: \<^verbatim>\<open>RawRwLock\<close> of \<^verbatim>\<open>src/threading/RwLock.rs\<close>. One writer or many readers, and the waiting writer is
    woken exactly once.
  \<^item> \<open>SignalRing\<close>: \<^verbatim>\<open>src/threading/signal_ring.rs\<close>. Accepted signals are delivered exactly once and in order.
  \<^item> \<open>PairingHeap\<close>, \<open>PairingHeapOps\<close>, \<open>PairingHeapSpec\<close>: \<^verbatim>\<open>src/io/heap.rs\<close> on an explicit store of links, a null
    or dangling pointer being a failure. No operation fails on a well-formed heap, whatever the
    comparator answers; under an order the heap pops its nodes in order; the stackless walk ends.
  \<^item> \<open>Timespec\<close>, \<open>EventLoopTimer\<close>, \<open>TimerOrder\<close>: \<^verbatim>\<open>Timespec\<close> of \<^verbatim>\<open>src/bun_core/util.rs\<close>,
    \<^verbatim>\<open>src/event_loop/EventLoopTimer.rs\<close> with its packed flags, and \<^verbatim>\<open>TimerHeap\<close>. Timers fire by deadline and epoch,
    across a wrap of the counter; a cron job tied with them breaks the order.
  \<^item> \<open>TimerAll\<close>: \<^verbatim>\<open>All\<close> of \<^verbatim>\<open>src/runtime/timer/mod.rs\<close> and \<^verbatim>\<open>FakeTimers\<close> as a state machine. A timer is in the heap
    it names exactly while it is active.
  \<^item> \<open>Vlq\<close>: the variable-length quantities of \<^verbatim>\<open>src/base64/lib.rs\<close>, with their round trip.
  \<^item> \<open>MultiArraySort\<close>: the stable sort of \<^verbatim>\<open>src/collections/multi_array_list.rs\<close>; the locale \<open>sort_context\<close> states what a
    context promises, and the sort is then the stable sort by a key.
  \<^item> \<open>SourceMapping\<close>, \<open>SourceMapLookup\<close>: \<^verbatim>\<open>src/sourcemap/Mapping.rs\<close>. The parser with its errors; what it stores is
    in range, and a lookup finds the last mapping of the line at or before a column.
  \<^item> \<open>SourceMapEmit\<close>, \<open>SourceMapJoin\<close>: writing mappings (\<^verbatim>\<open>append_mapping_to_buffer\<close>, \<^verbatim>\<open>VLQSourceMap\<close>) and joining chunks
    (\<^verbatim>\<open>append_source_map_chunk\<close>, \<^verbatim>\<open>generate_source_map_for_chunk\<close>). Texts are related to lists of items; joined chunks
    parse to the rows of the chunks, moved.
  \<^item> \<open>Wtf8\<close>: code points as \<^verbatim>\<open>src/bun_core\<close> encodes and decodes them, and the iterator over them.
  \<^item> \<open>SourceMapText\<close>, \<open>LineOffsetTables\<close>, \<open>SourceMapBuilder\<close>: \<^verbatim>\<open>LineColumnOffset\<close>, \<^verbatim>\<open>src/sourcemap/LineOffsetTable.rs\<close> and the builder of
    \<^verbatim>\<open>src/sourcemap/Chunk.rs\<close>. The three scanners of text against one reference, a walk over code points.
  \<^item> \<open>SourceMapPrinted\<close>: all of it together, from printing with announcements to the parsed rows; and where
    the builder miscounts carriage returns.
  \<^item> \<open>OffsetByteList\<close>: the byte buffer of \<^verbatim>\<open>src/collections/vec_ext.rs\<close>; the locale \<open>byte_queue\<close> states its contract.
  \<^item> \<open>RespReader\<close>, \<open>RespScanner\<close>, \<open>RespStream\<close>: the parser and the scanner of \<^verbatim>\<open>src/valkey/valkey_protocol.rs\<close>. The locale
    \<open>streaming_method\<close> states what a reader of a growing buffer promises; the scanner finds the ends that the
    parser reaches, and goes on after more data as if it had started anew. Floating point numbers and the sizes
    of elements are parameters (\<open>platform\<close>).
  \<^item> \<open>RespCommand\<close>: \<^verbatim>\<open>src/runtime/valkey_jsc/ValkeyCommand.rs\<close>. Commands and their flags; what is written parses back.
  \<^item> \<open>ValkeyClient\<close>, \<open>ValkeyData\<close>: \<^verbatim>\<open>src/runtime/valkey_jsc/valkey.rs\<close> and the parts of \<^verbatim>\<open>js_valkey.rs\<close> it calls: the handshake,
    the queue, pipelining, replies, subscriptions, failing and closing, and the handling of arriving data. The
    locales \<open>sending_relation\<close>, \<open>client_relation\<close>, \<open>answering_relation\<close> and \<open>settling_relation\<close> carry a relation from the
    elementary updates to the handlers; they are interpreted once per invariant. What the script does when it runs is a
    parameter (\<open>world\<close>), how much the socket takes at a time a part of the socket.
  \<^item> \<open>ValkeyChunks\<close>: the replies that are handled do not depend on the pieces in which the data arrives.
  \<^item> \<open>ValkeyPairing\<close>: promises are settled once and in order, the bytes sent are the commands in flight in order, and
    the one way to lose a promise.

  \<^bold>\<open>Bounds.\<close> Offsets and lengths of strings are \<open>nat\<close> where the source has \<^verbatim>\<open>usize\<close>; a handle keeps them in
  32 and 31 bits, so the theorems about handles assume buffers below 4 GiB and strings below 2 GiB, as
  the source does with its checked casts. Version numbers are 64-bit words throughout. No definition
  uses fuel: every loop has a termination proof. Lines, columns and sources of mappings are \<^verbatim>\<open>i32\<close>, here
  integers whose range the operations check; the theorems about whole texts assume texts below 2 GiB. The concurrent components are step relations over
  any number of threads (for \<open>RwLock\<close>, as many as its 31-bit counts hold); their steps are sequentially
  consistent, so the memory orderings of the source are not part of the model, and what the kernel's
  futex does is written into the steps that call it.

  \<^bold>\<open>Not modelled.\<close> Formatting for the terminal (\<^verbatim>\<open>DiffFormatter\<close>), the \<^verbatim>\<open>core::hash::Hasher\<close> adapters of
  \<^verbatim>\<open>src/wyhash\<close>, the JavaScript adapters of \<^verbatim>\<open>src/semver_jsc\<close>, running out of memory (which aborts the
  process), the locks of Darwin and Windows (operating system calls), condition variables and the
  thread pool; the firing of timers, which runs JavaScript, WebKit's own timers and libuv's; the vector
  kernel that parses a prefix of long mappings (C++), the tables of names, the internal source map format of the
  runtime and source maps in JSON; of the Valkey client the timers, dialling, TLS, reference counts and the
  conversion of replies to JavaScript values; and the other crates of the repository, which the manifest lists
  one by one with the reason.
\<close>

end
